(* ===== verification/Ao_Prelude.thy ===== *)
theory Ao_Prelude
  imports Main "HOL-Library.Word" "HOL-Library.Monad_Syntax"
begin

text \<open>
  Shared vocabulary of the development: the machine types of the C and C++ sources, byte
  buffers with the two ways the sources touch them (a block copy and a little-endian field
  access), NUL-terminated strings inside a buffer, and the lemma collections the component
  theories use.

  A computation that the C standard leaves undefined (an access outside an allocated block, a
  division by zero, a signed overflow) is the value \<^term>\<open>None\<close> of an option type; every theorem
  that says a routine returns says so by an equation with \<^term>\<open>Some\<close>.
\<close>

unbundle bit_operations_syntax

type_synonym u8 = "8 word"
type_synonym u16 = "16 word"
type_synonym u32 = "32 word"
type_synonym u64 = "64 word"
type_synonym bytes = "u8 list"

named_theorems buf_simps
named_theorems cstr_simps

section \<open>Block copies\<close>

text \<open>\<open>memcpy(dst + off, src, n)\<close>: undefined when a byte outside either block is touched.\<close>

definition blit :: "bytes \<Rightarrow> nat \<Rightarrow> bytes \<Rightarrow> nat \<Rightarrow> bytes option" where
  "blit dst off src n =
     (if off + n \<le> length dst \<and> n \<le> length src
      then Some (take off dst @ take n src @ drop (off + n) dst) else None)"

definition bslice :: "bytes \<Rightarrow> nat \<Rightarrow> nat \<Rightarrow> bytes option" where
  "bslice b off n = (if off + n \<le> length b then Some (take n (drop off b)) else None)"

lemma blit_Some_iff:
  "blit dst off src n = Some r \<longleftrightarrow>
     off + n \<le> length dst \<and> n \<le> length src \<and> r = take off dst @ take n src @ drop (off + n) dst"
  by (auto simp: blit_def)

lemma length_blit [buf_simps]: "blit dst off src n = Some r \<Longrightarrow> length r = length dst"
  by (auto simp: blit_Some_iff)

lemma take_blit:
  "blit dst off src n = Some r \<Longrightarrow> take (off + n) r = take off dst @ take n src"
  by (auto simp: blit_Some_iff min_def)

lemma bslice_append_mid [buf_simps]:
  "off = length a \<Longrightarrow> n = length b \<Longrightarrow> bslice (a @ b @ c) off n = Some b"
  by (simp add: bslice_def)

lemma bslice_Some_length: "bslice b off n = Some r \<Longrightarrow> length r = n \<and> off + n \<le> length b"
  by (auto simp: bslice_def split: if_splits)

lemma bslice_append1: "off + n \<le> length a \<Longrightarrow> bslice (a @ c) off n = bslice a off n"
  by (simp add: bslice_def)

section \<open>Little-endian fields\<close>

definition le16 :: "u16 \<Rightarrow> bytes" where
  "le16 w = [ucast w, ucast (drop_bit 8 w)]"

definition le32 :: "u32 \<Rightarrow> bytes" where
  "le32 w = [ucast w, ucast (drop_bit 8 w), ucast (drop_bit 16 w), ucast (drop_bit 24 w)]"

definition un_le32 :: "u8 \<Rightarrow> u8 \<Rightarrow> u8 \<Rightarrow> u8 \<Rightarrow> u32" where
  "un_le32 a b c d =
     ucast a OR push_bit 8 (ucast b) OR push_bit 16 (ucast c) OR push_bit 24 (ucast d)"

definition rd32 :: "bytes \<Rightarrow> nat \<Rightarrow> u32 option" where
  "rd32 b off =
     (if off + 4 \<le> length b
      then Some (un_le32 (b ! off) (b ! (off + 1)) (b ! (off + 2)) (b ! (off + 3))) else None)"

lemma length_le32 [simp]: "length (le32 w) = 4"
  by (simp add: le32_def)

lemma length_le16 [simp]: "length (le16 w) = 2"
  by (simp add: le16_def)

lemma un_le32_le32:
  "un_le32 (ucast w) (ucast (drop_bit 8 w)) (ucast (drop_bit 16 w)) (ucast (drop_bit 24 w)) = w"
  for w :: u32
proof (rule bit_word_eqI)
  fix n assume "n < LENGTH(32)"
  then show "bit (un_le32 (ucast w) (ucast (drop_bit 8 w)) (ucast (drop_bit 16 w))
      (ucast (drop_bit 24 w))) n = bit w n"
    by (cases "n < 8"; cases "n < 16"; cases "n < 24") (auto simp: un_le32_def bit_simps)
qed

lemma rd32_append1 [buf_simps]: "off + 4 \<le> length a \<Longrightarrow> rd32 (a @ c) off = rd32 a off"
  by (simp add: rd32_def nth_append)

lemma rd32_skip [buf_simps]: "length a \<le> off \<Longrightarrow> rd32 (a @ c) off = rd32 c (off - length a)"
  by (auto simp: rd32_def nth_append Suc_diff_le)

lemma rd32_le32_0 [buf_simps]: "rd32 (le32 w @ c) 0 = Some w"
  by (simp add: rd32_def le32_def un_le32_le32)

lemma rd32_le32_nil [buf_simps]: "rd32 (le32 w) 0 = Some w"
  using rd32_le32_0 [of w "[]"] by simp

lemma rd32_take [buf_simps]: "off + 4 \<le> n \<Longrightarrow> off + 4 \<le> length b \<Longrightarrow> rd32 (take n b) off = rd32 b off"
  by (simp add: rd32_def)

section \<open>NUL-terminated strings inside a buffer\<close>

text \<open>\<open>strlen\<close> on a block without a terminator reads past its end.\<close>

fun strlen :: "bytes \<Rightarrow> nat option" where
  "strlen [] = None"
| "strlen (c # cs) = (if c = 0 then Some 0 else map_option Suc (strlen cs))"

definition nul_free :: "bytes \<Rightarrow> bool" where
  "nul_free s \<longleftrightarrow> 0 \<notin> set s"

text \<open>The bytes of the C string at the start of a block, its terminator left out.\<close>

definition cstr_at :: "bytes \<Rightarrow> nat \<Rightarrow> bytes option" where
  "cstr_at b off = (if off \<le> length b
     then map_option (\<lambda>n. take n (drop off b)) (strlen (drop off b)) else None)"

definition cstr :: "bytes \<Rightarrow> bytes" where
  "cstr s = s @ [0]"

lemma length_cstr [simp]: "length (cstr s) = Suc (length s)"
  by (simp add: cstr_def)

lemma strlen_app [cstr_simps]: "nul_free s \<Longrightarrow> strlen (s @ 0 # r) = Some (length s)"
  by (induction s) (auto simp: nul_free_def)

lemma strlen_Some_iff: "strlen b = Some n \<longleftrightarrow> n < length b \<and> b ! n = 0 \<and> nul_free (take n b)"
proof (induction b arbitrary: n)
  case Nil
  then show ?case by simp
next
  case (Cons c b)
  then show ?case by (cases n) (auto simp: nul_free_def)
qed

lemma strlen_None_iff: "strlen b = None \<longleftrightarrow> nul_free b"
  by (induction b) (auto simp: nul_free_def)

lemma cstr_at_app [cstr_simps]:
  "off = length a \<Longrightarrow> nul_free s \<Longrightarrow> cstr_at (a @ cstr s @ r) off = Some s"
  by (simp add: cstr_at_def cstr_def strlen_app)

lemma cstr_at_app0 [cstr_simps]: "nul_free s \<Longrightarrow> cstr_at (cstr s @ r) 0 = Some s"
  using cstr_at_app [of 0 "[]" s r] by simp

lemma cstr_at_nul_free: "cstr_at b off = Some s \<Longrightarrow> nul_free s"
  by (auto simp: cstr_at_def strlen_Some_iff split: if_splits)

lemma cstr_at_bound: "cstr_at b off = Some s \<Longrightarrow> off + length s < length b"
  by (auto simp: cstr_at_def strlen_Some_iff split: if_splits)

section \<open>Arithmetic on machine words\<close>

lemma u8_times_256 [simp]: "(x :: u8) * 256 = 0"
proof -
  have z: "(256 :: u8) = 0" by simp
  show ?thesis by (simp only: z mult_zero_right)
qed

lemma unat_lt: "unat w < 2 ^ LENGTH('a)" for w :: "'a::len word"
  by (rule unsigned_less)

lemma unat_plus_no_wrap:
  "unat a + unat b < 2 ^ LENGTH('a) \<Longrightarrow> unat (a + b) = unat a + unat b" for a b :: "'a::len word"
  by (simp add: unat_word_ariths)

lemma unat_minus_no_wrap:
  "unat b \<le> unat a \<Longrightarrow> unat (a - b) = unat a - unat b" for a b :: "'a::len word"
  by (simp add: unat_sub word_le_nat_alt)

lemma sint_small: "unat w < 2 ^ 31 \<Longrightarrow> sint w = int (unat w)" for w :: u32
proof -
  assume h: "unat w < 2 ^ 31"
  then have "int (unat w) < int (2 ^ 31)" by (subst of_nat_less_iff)
  then have u: "uint w < 2147483648" "0 \<le> uint w" by simp_all
  have l: "- (2 ^ 31) \<le> uint w" by (rule order_trans [of _ 0]) simp_all
  have "sint w = signed_take_bit 31 (uint w)" by (simp add: sint_uint)
  also have "\<dots> = uint w"
    using u by (intro signed_take_bit_int_eq_self [OF l]) simp
  finally show ?thesis by simp
qed

lemma sint_of_nat32: "n < 2 ^ 31 \<Longrightarrow> sint (of_nat n :: u32) = int n"
proof -
  assume n: "n < 2 ^ 31"
  then have "unat (of_nat n :: u32) = n" by (simp add: unat_of_nat)
  with n show ?thesis using sint_small [of "of_nat n"] by simp
qed

section \<open>The allocator the buffers are written against\<close>

text \<open>
  \<open>MALLOC\<close> and \<open>REALLOC\<close> (\<open>util/AoDef.h\<close>) are macros: with \<open>MEM_CACHE\<close> defined they go to the
  program's own pool, otherwise to the C library. The contents of a fresh block are whatever the
  allocator leaves there. A \<open>REALLOC\<close> is undefined (\<^term>\<open>None\<close>) or gives a pointer, which may be
  \<open>NULL\<close>. The contract both meet for requests of up to \<open>lim\<close> bytes is the locale
  \<open>allocator\<close>: the block is large enough and, for \<open>REALLOC\<close>, starts with the old contents.
\<close>

record alloc_ops =
  op_malloc :: "nat \<Rightarrow> bytes option"
  op_realloc :: "bytes option \<Rightarrow> nat \<Rightarrow> bytes option option"

definition moved :: "bytes \<Rightarrow> bytes \<Rightarrow> bytes" where
  "moved b f = take (length f) b @ drop (length b) f"

locale allocator =
  fixes mal :: alloc_ops and lim :: nat
  assumes mal_ok: "n \<le> lim \<Longrightarrow> \<exists>b. op_malloc mal n = Some b \<and> n \<le> length b"
    and realloc_null: "op_realloc mal None n = Some (op_malloc mal n)"
    and realloc_ok: "n \<le> lim \<Longrightarrow> \<exists>f. op_realloc mal (Some b) n = Some (Some (moved b f)) \<and> n \<le> length f"

text \<open>The C library's allocator: exact sizes, and \<open>NULL\<close> above what it can serve.\<close>

definition libc_malloc :: "nat \<Rightarrow> (nat \<Rightarrow> u8) \<Rightarrow> nat \<Rightarrow> bytes option" where
  "libc_malloc lim junk n = (if n \<le> lim then Some (map junk [0..<n]) else None)"

definition libc_ops :: "nat \<Rightarrow> (nat \<Rightarrow> u8) \<Rightarrow> alloc_ops" where
  "libc_ops lim junk =
     \<lparr>op_malloc = libc_malloc lim junk,
      op_realloc = (\<lambda>p n. Some (case p of None \<Rightarrow> libc_malloc lim junk n
                                | Some b \<Rightarrow> map_option (moved b) (libc_malloc lim junk n)))\<rparr>"

interpretation libc: allocator "libc_ops lim junk" lim for lim junk
  by unfold_locales (auto simp: libc_ops_def libc_malloc_def)

text \<open>
  A copy inside one block, byte by byte from the front. It is how the sources' \<open>memcpy\<close> calls
  that shift a buffer towards its start behave when source and destination overlap.
\<close>

fun copy_up :: "bytes \<Rightarrow> nat \<Rightarrow> nat \<Rightarrow> nat \<Rightarrow> bytes option" where
  "copy_up b d s 0 = Some b"
| "copy_up b d s (Suc n) =
     (if d < length b \<and> s < length b then copy_up (b[d := b ! s]) (Suc d) (Suc s) n else None)"

lemma copy_up_shift:
  "d \<le> s \<Longrightarrow> s + n \<le> length b \<Longrightarrow>
     copy_up b d s n = Some (take d b @ take n (drop s b) @ drop (d + n) b)"
proof (induction n arbitrary: b d s)
  case 0
  then show ?case by simp
next
  case (Suc n)
  then have d: "d < length b" and s: "s < length b" by auto
  have ih: "copy_up (b[d := b ! s]) (Suc d) (Suc s) n =
      Some (take (Suc d) (b[d := b ! s]) @ take n (drop (Suc s) (b[d := b ! s])) @
            drop (Suc d + n) (b[d := b ! s]))"
    by (rule Suc.IH) (use Suc.prems in auto)
  have "take (Suc d) (b[d := b ! s]) = take d b @ [b ! s]"
    using d by (simp add: take_Suc_conv_app_nth)
  moreover have "take (Suc n) (drop s b) = b ! s # take n (drop (Suc s) b)"
    using s by (simp add: Cons_nth_drop_Suc [symmetric])
  moreover have "drop (Suc s) (b[d := b ! s]) = drop (Suc s) b"
    using Suc.prems(1) by simp
  ultimately show ?case
    using ih d s by simp
qed

end
