(* ===== verification/Ao_MemoryMgr.thy ===== *)
theory Ao_MemoryMgr
  imports Ao_Prelude
begin

text \<open>
  The pooling allocator of \<open>util/AoMemoryMgr.cpp\<close> (class \<open>CAoMemoryMgr\<close>): twelve size classes,
  each with a free list of blocks. A block starts with one hidden byte that holds the index of its
  class; the caller gets the address after it. The free lists are guarded by one \<open>CAoLock\<close>, a
  default (non-recursive) pthread mutex: taking it while it is held never returns.

  Blocks are named by their address. \<open>hdr\<close> is the hidden byte of every allocated block and
  \<open>next_addr\<close> the address the C library's \<open>malloc\<close> returns next.
\<close>

section \<open>State\<close>

datatype 'a mm_result = MmBlocked | MmFault | MmRet 'a

definition EN_MEM_SIZES :: "nat list" where
  "EN_MEM_SIZES =
     [512, 1024, 2048, 4096, 8192, 16 * 1024, 32 * 1024, 64 * 1024, 128 * 1024,
      1024 * 1024, 2 * 1024 * 1024, 8 * 1024 * 1024]"

definition EN_MEM_COUNTS :: "nat list" where
  "EN_MEM_COUNTS =
     [10240, 10240, 10240, 10240, 10240, 1024, 1024, 1024, 1024, 32, 32, 16]"

definition EN_MEM_INDEX_COUN :: nat where
  "EN_MEM_INDEX_COUN = 12"

record mem_mgr =
  m_lstMem :: "nat list list"
  hdr :: "nat \<Rightarrow> nat option"
  next_addr :: nat
  m_pLock :: bool

section \<open>Operations\<close>

text \<open>The constructor fills every class with its count of fresh blocks.\<close>

fun mm_fill :: "nat \<Rightarrow> nat \<Rightarrow> mem_mgr \<Rightarrow> mem_mgr" where
  "mm_fill n 0 s = s"
| "mm_fill n (Suc m) s =
     mm_fill n m (s\<lparr>hdr := (hdr s)(next_addr s \<mapsto> n), next_addr := Suc (next_addr s),
                   m_lstMem := (m_lstMem s)[n := m_lstMem s ! n @ [next_addr s]]\<rparr>)"

fun mm_fill_all :: "nat \<Rightarrow> nat list \<Rightarrow> mem_mgr \<Rightarrow> mem_mgr" where
  "mm_fill_all n [] s = s"
| "mm_fill_all n (c # cs) s = mm_fill_all (Suc n) cs (mm_fill n c s)"

definition mm_empty :: mem_mgr where
  "mm_empty = \<lparr>m_lstMem = replicate EN_MEM_INDEX_COUN [], hdr = (\<lambda>_. None), next_addr = 0,
              m_pLock = False\<rparr>"

definition mm_init :: mem_mgr where
  "mm_init = mm_fill_all 0 EN_MEM_COUNTS mm_empty"

text \<open>
  \<open>Malloc\<close> walks the classes from the smallest. The lock is taken in the first class that is large
  enough; when its free list is empty the code falls through to the C library's \<open>malloc\<close> and
  returns without releasing the lock. A size above the largest class gives \<open>NULL\<close>.
\<close>

fun mm_malloc_from :: "nat list \<Rightarrow> nat \<Rightarrow> int \<Rightarrow> mem_mgr \<Rightarrow> (nat option \<times> mem_mgr) mm_result" where
  "mm_malloc_from [] n nSize s = MmRet (None, s)"
| "mm_malloc_from (sz # szs) n nSize s =
     (if nSize > int sz then mm_malloc_from szs (Suc n) nSize s
      else if m_pLock s then MmBlocked
      else (case m_lstMem s ! n of
              p # ps \<Rightarrow> MmRet (Some p, s\<lparr>m_lstMem := (m_lstMem s)[n := ps]\<rparr>)
            | [] \<Rightarrow> MmRet (Some (next_addr s),
                 s\<lparr>hdr := (hdr s)(next_addr s \<mapsto> n), next_addr := Suc (next_addr s),
                   m_pLock := True\<rparr>)))"

definition mm_malloc :: "int \<Rightarrow> mem_mgr \<Rightarrow> (nat option \<times> mem_mgr) mm_result" where
  "mm_malloc nSize s = mm_malloc_from EN_MEM_SIZES 0 nSize s"

definition mm_free :: "nat option \<Rightarrow> mem_mgr \<Rightarrow> mem_mgr mm_result" where
  "mm_free pData s =
     (case pData of None \<Rightarrow> MmRet s
      | Some p \<Rightarrow>
          (case hdr s p of None \<Rightarrow> MmFault
           | Some nIndex \<Rightarrow>
               if nIndex \<ge> EN_MEM_INDEX_COUN then MmRet s
               else if m_pLock s then MmBlocked
               else MmRet (s\<lparr>m_lstMem := (m_lstMem s)[nIndex := m_lstMem s ! nIndex @ [p]]\<rparr>)))"

text \<open>
  \<open>Realloc\<close> keeps the block when its class is large enough, otherwise moves the contents of the
  old block (the whole class size) and frees it; a failed \<open>Malloc\<close> is copied into unchecked.
\<close>

definition mm_realloc :: "nat option \<Rightarrow> int \<Rightarrow> mem_mgr \<Rightarrow> (nat option \<times> mem_mgr) mm_result" where
  "mm_realloc pData nNewSize s =
     (case pData of None \<Rightarrow> mm_malloc nNewSize s
      | Some p \<Rightarrow>
          (case hdr s p of None \<Rightarrow> MmFault
           | Some nIndex \<Rightarrow>
               if nIndex \<ge> EN_MEM_INDEX_COUN then MmRet (None, s)
               else if nNewSize \<le> int (EN_MEM_SIZES ! nIndex) then MmRet (Some p, s)
               else (case mm_malloc nNewSize s of
                       MmBlocked \<Rightarrow> MmBlocked
                     | MmFault \<Rightarrow> MmFault
                     | MmRet (None, s1) \<Rightarrow> MmFault
                     | MmRet (Some q, s1) \<Rightarrow>
                         (case mm_free (Some p) s1 of
                            MmBlocked \<Rightarrow> MmBlocked
                          | MmFault \<Rightarrow> MmFault
                          | MmRet s2 \<Rightarrow> MmRet (Some q, s2)))))"

section \<open>Invariant\<close>

text \<open>
  Every block of a free list carries its class in the hidden byte, no block is in two places, and
  all addresses come from below \<open>next_addr\<close>.
\<close>

definition mm_inv :: "mem_mgr \<Rightarrow> bool" where
  "mm_inv s \<longleftrightarrow>
     length (m_lstMem s) = EN_MEM_INDEX_COUN \<and> distinct (concat (m_lstMem s)) \<and>
     (\<forall>n < EN_MEM_INDEX_COUN. set (m_lstMem s ! n) \<subseteq> {p. hdr s p = Some n}) \<and>
     dom (hdr s) \<subseteq> {..<next_addr s} \<and> ran (hdr s) \<subseteq> {..<EN_MEM_INDEX_COUN}"

definition mm_free_blocks :: "mem_mgr \<Rightarrow> nat set" where
  "mm_free_blocks s = set (concat (m_lstMem s))"

lemma length_EN_MEM_SIZES: "length EN_MEM_SIZES = EN_MEM_INDEX_COUN"
  by (simp add: EN_MEM_SIZES_def EN_MEM_INDEX_COUN_def)

lemma mm_inv_hdr_free:
  "mm_inv s \<Longrightarrow> n < EN_MEM_INDEX_COUN \<Longrightarrow> p \<in> set (m_lstMem s ! n) \<Longrightarrow> hdr s p = Some n"
  unfolding mm_inv_def by blast

lemma mm_inv_index: "mm_inv s \<Longrightarrow> hdr s p = Some n \<Longrightarrow> n < EN_MEM_INDEX_COUN"
  unfolding mm_inv_def by (blast intro: ranI)

lemma mm_inv_length: "mm_inv s \<Longrightarrow> length (m_lstMem s) = EN_MEM_INDEX_COUN"
  unfolding mm_inv_def by blast

lemma mm_inv_fresh_hdr: "mm_inv s \<Longrightarrow> hdr s (next_addr s) = None"
  unfolding mm_inv_def by (metis domIff lessThan_iff less_irrefl subsetD)

lemma mm_free_blocks_hdr:
  "mm_inv s \<Longrightarrow> p \<in> mm_free_blocks s \<Longrightarrow> \<exists>n. hdr s p = Some n"
  using mm_inv_hdr_free mm_inv_length
  by (fastforce simp: mm_free_blocks_def in_set_conv_nth)

lemma mm_free_blocks_nth:
  "mm_inv s \<Longrightarrow> n < EN_MEM_INDEX_COUN \<Longrightarrow> p \<in> set (m_lstMem s ! n) \<Longrightarrow> p \<in> mm_free_blocks s"
  using mm_inv_length [of s] by (force simp: mm_free_blocks_def in_set_conv_nth)

text \<open>Taking the head of one free list out, or putting a block at the end of one.\<close>

lemma concat_list_update_tl:
  "n < length xss \<Longrightarrow> xss ! n = p # ps \<Longrightarrow> distinct (concat xss) \<Longrightarrow>
     distinct (concat (xss[n := ps])) \<and> set (concat (xss[n := ps])) = set (concat xss) - {p}"
proof -
  assume n: "n < length xss" and hd: "xss ! n = p # ps" and d: "distinct (concat xss)"
  have x: "xss = take n xss @ (p # ps) # drop (Suc n) xss"
    using n hd by (metis id_take_nth_drop)
  have u: "xss[n := ps] = take n xss @ ps # drop (Suc n) xss"
    using n by (simp add: upd_conv_take_nth_drop)
  have "distinct (concat (take n xss) @ p # ps @ concat (drop (Suc n) xss))"
    using d x by (metis Cons_eq_appendI concat.simps(2) concat_append)
  then have "distinct (concat (take n xss) @ ps @ concat (drop (Suc n) xss))"
    and "p \<notin> set (concat (take n xss) @ ps @ concat (drop (Suc n) xss))"
    by (simp_all only: distinct_append distinct.simps(2) set_append) auto
  moreover have "set (concat xss) = insert p (set (concat (take n xss) @ ps @ concat (drop (Suc n) xss)))"
    by (subst x) (simp only: concat_append concat.simps set_append append_Cons set_simps, blast)
  ultimately show ?thesis
    by (simp only: u concat_append concat.simps) blast
qed

lemma concat_list_update_snoc:
  "n < length xss \<Longrightarrow> distinct (concat xss) \<Longrightarrow> p \<notin> set (concat xss) \<Longrightarrow>
     distinct (concat (xss[n := xss ! n @ [p]])) \<and>
     set (concat (xss[n := xss ! n @ [p]])) = insert p (set (concat xss))"
proof (induction xss arbitrary: n)
  case Nil
  then show ?case by simp
next
  case (Cons xs xss)
  then show ?case
    by (cases n) auto
qed

lemma mm_inv_pop:
  assumes I: "mm_inv s" and n: "n < EN_MEM_INDEX_COUN" and hd: "m_lstMem s ! n = p # ps"
  shows "mm_inv (s\<lparr>m_lstMem := (m_lstMem s)[n := ps]\<rparr>)"
    and "mm_free_blocks (s\<lparr>m_lstMem := (m_lstMem s)[n := ps]\<rparr>) = mm_free_blocks s - {p}"
proof -
  have d: "distinct (concat (m_lstMem s))" using I unfolding mm_inv_def by blast
  note tl = concat_list_update_tl [OF _ hd d, unfolded mm_inv_length [OF I], OF n]
  show "mm_free_blocks (s\<lparr>m_lstMem := (m_lstMem s)[n := ps]\<rparr>) = mm_free_blocks s - {p}"
    using tl by (simp add: mm_free_blocks_def)
  have "set ((m_lstMem s)[n := ps] ! k) \<subseteq> {q. hdr s q = Some k}"
    if "k < EN_MEM_INDEX_COUN" for k
    using mm_inv_hdr_free [OF I that] hd that mm_inv_length [OF I]
    by (cases "k = n") auto
  then show "mm_inv (s\<lparr>m_lstMem := (m_lstMem s)[n := ps]\<rparr>)"
    using I tl unfolding mm_inv_def by simp
qed

lemma mm_inv_push:
  assumes I: "mm_inv s" and h: "hdr s p = Some n" and new: "p \<notin> mm_free_blocks s"
  shows "mm_inv (s\<lparr>m_lstMem := (m_lstMem s)[n := m_lstMem s ! n @ [p]]\<rparr>)"
    and "mm_free_blocks (s\<lparr>m_lstMem := (m_lstMem s)[n := m_lstMem s ! n @ [p]]\<rparr>)
         = insert p (mm_free_blocks s)"
proof -
  have n: "n < EN_MEM_INDEX_COUN" by (rule mm_inv_index [OF I h])
  have d: "distinct (concat (m_lstMem s))" using I unfolding mm_inv_def by blast
  note sn = concat_list_update_snoc [OF _ d, unfolded mm_inv_length [OF I], OF n,
      OF new [unfolded mm_free_blocks_def]]
  show "mm_free_blocks (s\<lparr>m_lstMem := (m_lstMem s)[n := m_lstMem s ! n @ [p]]\<rparr>)
         = insert p (mm_free_blocks s)"
    using sn by (simp add: mm_free_blocks_def)
  have "set ((m_lstMem s)[n := m_lstMem s ! n @ [p]] ! k) \<subseteq> {q. hdr s q = Some k}"
    if "k < EN_MEM_INDEX_COUN" for k
    using mm_inv_hdr_free [OF I that] h that mm_inv_length [OF I]
    by (cases "k = n") auto
  then show "mm_inv (s\<lparr>m_lstMem := (m_lstMem s)[n := m_lstMem s ! n @ [p]]\<rparr>)"
    using I sn unfolding mm_inv_def by simp
qed

lemma mm_inv_fresh:
  assumes I: "mm_inv s" and n: "n < EN_MEM_INDEX_COUN"
  shows "mm_inv (s\<lparr>hdr := (hdr s)(next_addr s \<mapsto> n), next_addr := Suc (next_addr s),
                   m_pLock := l\<rparr>)"
proof -
  have "ran ((hdr s)(next_addr s \<mapsto> n)) = insert n (ran (hdr s))"
    using mm_inv_fresh_hdr [OF I] by (rule ran_map_upd)
  moreover have "set (m_lstMem s ! k) \<subseteq> {q. ((hdr s)(next_addr s \<mapsto> n)) q = Some k}"
    if "k < EN_MEM_INDEX_COUN" for k
    using mm_inv_hdr_free [OF I that] mm_inv_fresh_hdr [OF I] by fastforce
  ultimately show ?thesis
    using I n unfolding mm_inv_def by (auto simp: less_Suc_eq simp del: set_concat)
qed

section \<open>Allocation\<close>

text \<open>
  What \<open>Malloc\<close> returns: the class index of the block is the first one that is large enough, the
  block was free or is new, and it has left the free lists.
\<close>

lemma mm_malloc_from_ret:
  assumes "mm_malloc_from szs n nSize s = MmRet (Some p, s')"
    and "mm_inv s" and "n + length szs = EN_MEM_INDEX_COUN" and "szs = drop n EN_MEM_SIZES"
  shows "mm_inv s' \<and> p \<notin> mm_free_blocks s' \<and>
     (\<exists>k < EN_MEM_INDEX_COUN. hdr s' p = Some k \<and> nSize \<le> int (EN_MEM_SIZES ! k) \<and>
        (p \<in> mm_free_blocks s \<or> hdr s p = None) \<and>
        (\<forall>q. q \<noteq> p \<longrightarrow> hdr s' q = hdr s q) \<and>
        (m_pLock s' \<longleftrightarrow> m_lstMem s ! k = []))"
  using assms
proof (induction szs n nSize s rule: mm_malloc_from.induct)
  case (1 n nSize s)
  then show ?case by simp
next
  case (2 sz szs n nSize s)
  have n: "n < EN_MEM_INDEX_COUN" and sz: "EN_MEM_SIZES ! n = sz"
    using "2.prems"(3,4) length_EN_MEM_SIZES
    by (auto, metis Cons_nth_drop_Suc list.inject list.size(4) add_is_0 drop_all leI
        list.distinct(1), metis hd_drop_conv_nth list.sel(1) drop_all leI list.distinct(1))
  show ?case
  proof (cases "nSize > int sz")
    case True
    have "szs = drop (Suc n) EN_MEM_SIZES"
      using "2.prems"(4) by (metis drop_Suc list.sel(3) tl_drop)
    with "2.IH" [OF True] "2.prems" True show ?thesis by simp
  next
    case False
    with "2.prems"(1) have nl: "\<not> m_pLock s" by (auto split: if_splits)
    show ?thesis
    proof (cases "m_lstMem s ! n")
      case Nil
      with "2.prems"(1) False nl have s': "p = next_addr s"
        "s' = s\<lparr>hdr := (hdr s)(next_addr s \<mapsto> n), next_addr := Suc (next_addr s),
               m_pLock := True\<rparr>"
        by auto
      have "hdr s (next_addr s) = None"
        by (rule mm_inv_fresh_hdr [OF \<open>mm_inv s\<close>])
      moreover from this have "next_addr s \<notin> mm_free_blocks s"
        using mm_free_blocks_hdr [OF \<open>mm_inv s\<close>] by fastforce
      ultimately show ?thesis
        using s' n sz False Nil nl mm_inv_fresh [OF \<open>mm_inv s\<close> n, of True]
        by (auto simp: mm_free_blocks_def intro!: exI [of _ n])
    next
      case (Cons q qs)
      with "2.prems"(1) False nl have s': "p = q" "s' = s\<lparr>m_lstMem := (m_lstMem s)[n := qs]\<rparr>"
        by auto
      have "q \<in> mm_free_blocks s"
        using mm_free_blocks_nth [OF \<open>mm_inv s\<close> n, of q] Cons by simp
      moreover have "hdr s q = Some n"
        using mm_inv_hdr_free [OF \<open>mm_inv s\<close> n, of q] Cons by simp
      ultimately show ?thesis
        using s' n sz False nl Cons mm_inv_pop [OF \<open>mm_inv s\<close> n Cons] by auto
    qed
  qed
qed

lemma mm_fill_inv:
  "mm_inv s \<Longrightarrow> n < EN_MEM_INDEX_COUN \<Longrightarrow> mm_inv (mm_fill n m s)"
proof (induction n m s rule: mm_fill.induct)
  case (1 n s)
  then show ?case by simp
next
  case (2 n m s)
  let ?s1 = "s\<lparr>hdr := (hdr s)(next_addr s \<mapsto> n), next_addr := Suc (next_addr s)\<rparr>"
  have i1: "mm_inv ?s1"
    using mm_inv_fresh [OF "2.prems", of "m_pLock s"] by simp
  have "next_addr s \<notin> mm_free_blocks s"
    using mm_free_blocks_hdr [OF "2.prems"(1)] mm_inv_fresh_hdr [OF "2.prems"(1)] by fastforce
  then have "mm_inv (?s1\<lparr>m_lstMem := (m_lstMem ?s1)[n := m_lstMem ?s1 ! n @ [next_addr s]]\<rparr>)"
    by (intro mm_inv_push [OF i1]) (auto simp: mm_free_blocks_def)
  with "2.IH" "2.prems"(2) show ?case by simp
qed

lemma mm_fill_all_inv:
  "mm_inv s \<Longrightarrow> n + length cs \<le> EN_MEM_INDEX_COUN \<Longrightarrow> mm_inv (mm_fill_all n cs s)"
  by (induction n cs s rule: mm_fill_all.induct) (simp_all add: mm_fill_inv)

lemma mm_inv_empty: "mm_inv mm_empty"
proof -
  have "concat (replicate EN_MEM_INDEX_COUN ([] :: nat list)) = []" by simp
  then show ?thesis by (simp add: mm_inv_def mm_empty_def)
qed

lemma mm_inv_init: "mm_inv mm_init"
  unfolding mm_init_def
  by (rule mm_fill_all_inv [OF mm_inv_empty])
     (simp add: EN_MEM_COUNTS_def EN_MEM_INDEX_COUN_def)

text \<open>After the fall-through the lock stays held: no later call can take it.\<close>

lemma mm_malloc_from_locked:
  "m_pLock s \<Longrightarrow> nSize \<le> int sz \<Longrightarrow> sz \<in> set szs \<Longrightarrow> mm_malloc_from szs n nSize s = MmBlocked"
  by (induction szs n nSize s rule: mm_malloc_from.induct) auto

lemma mm_malloc_locked:
  "m_pLock s \<Longrightarrow> nSize \<le> 8 * 1024 * 1024 \<Longrightarrow> mm_malloc nSize s = MmBlocked"
  unfolding mm_malloc_def
  by (rule mm_malloc_from_locked [where sz = "8 * 1024 * 1024"])
     (auto simp: EN_MEM_SIZES_def)

section \<open>The block as its user sees it\<close>

text \<open>
  A block from the fall-through of \<open>Malloc\<close>: the class size in bytes after the hidden one. The
  \<open>memset\<close> starts at the hidden byte and clears \<open>m_nSize[n]\<close> bytes, so the last byte of the
  user's part keeps what the C library left there (\<open>junk\<close>). The buffers pass an
  \<open>unsigned int\<close>, which \<open>Malloc\<close> reads as a signed one.
\<close>

definition mm_block :: "u8 \<Rightarrow> nat \<Rightarrow> bytes option" where
  "mm_block junk nSize =
     map_option (\<lambda>sz. replicate (sz - 1) 0 @ [junk]) (find (\<lambda>sz. sint (of_nat nSize :: u32) \<le> int sz) EN_MEM_SIZES)"

lemma mm_block_ok:
  "n \<le> 8 * 1024 * 1024 \<Longrightarrow> \<exists>b. mm_block junk n = Some b \<and> n \<le> length b"
proof -
  assume n: "n \<le> 8 * 1024 * 1024"
  then have "sint (of_nat n :: u32) = int n" by (intro sint_of_nat32) simp
  with n show ?thesis by (auto simp: mm_block_def EN_MEM_SIZES_def)
qed

text \<open>A request of 2 GB or more becomes negative and is given the smallest block.\<close>

lemma mm_block_wraps: "mm_block junk (2 ^ 31) = Some (replicate 511 0 @ [junk])"
proof -
  have "sint (of_nat (2 ^ 31) :: u32) = - (2 ^ 31)" by simp
  then show ?thesis by (simp add: mm_block_def EN_MEM_SIZES_def)
qed

text \<open>
  The two macros over the pool: a \<open>REALLOC\<close> that cannot be served copies into \<open>NULL\<close>. \<open>ao_ops\<close>
  is the choice \<open>AoDef.h\<close> makes at compile time, with a C library that serves at least what the
  pool does.
\<close>

definition pool_ops :: "u8 \<Rightarrow> alloc_ops" where
  "pool_ops junk =
     \<lparr>op_malloc = mm_block junk,
      op_realloc = (\<lambda>p n. case p of None \<Rightarrow> Some (mm_block junk n)
                     | Some b \<Rightarrow> (case mm_block junk n of None \<Rightarrow> None | Some f \<Rightarrow> Some (Some (moved b f))))\<rparr>"

datatype ao_build = MEM_CACHE u8 | NO_MEM_CACHE nat "nat \<Rightarrow> u8"

fun ao_ops :: "ao_build \<Rightarrow> alloc_ops" where
  "ao_ops (MEM_CACHE junk) = pool_ops junk"
| "ao_ops (NO_MEM_CACHE extra junk) = libc_ops (8 * 1024 * 1024 + extra) junk"

interpretation pool: allocator "pool_ops junk" "8 * 1024 * 1024" for junk
proof
  show "\<exists>f. op_realloc (pool_ops junk) (Some b) n = Some (Some (moved b f)) \<and> n \<le> length f"
    if "n \<le> 8 * 1024 * 1024" for n b
    using mm_block_ok [OF that, of junk] by (auto simp: pool_ops_def)
qed (use mm_block_ok in \<open>auto simp: pool_ops_def\<close>)

interpretation ops: allocator "ao_ops bld" "8 * 1024 * 1024" for bld
proof (cases bld)
  case (MEM_CACHE junk)
  then show "allocator (ao_ops bld) (8 * 1024 * 1024)" by (simp only: ao_ops.simps pool.allocator_axioms)
next
  case (NO_MEM_CACHE extra junk)
  have "allocator (libc_ops (8 * 1024 * 1024 + extra) junk) (8 * 1024 * 1024)"
  proof
    fix n b assume n: "n \<le> 8 * 1024 * (1024 :: nat)"
    then show "\<exists>b. op_malloc (libc_ops (8 * 1024 * 1024 + extra) junk) n = Some b \<and> n \<le> length b"
      by (intro libc.mal_ok) simp
    from n show "\<exists>f. op_realloc (libc_ops (8 * 1024 * 1024 + extra) junk) (Some b) n =
        Some (Some (moved b f)) \<and> n \<le> length f"
      by (intro libc.realloc_ok) simp
  qed (rule libc.realloc_null)
  then show "allocator (ao_ops bld) (8 * 1024 * 1024)" using NO_MEM_CACHE by (simp only: ao_ops.simps)
qed

section \<open>Every client\<close>

text \<open>
  The states a process reaches by calls to the manager, with the set of blocks it holds. A client
  frees and reallocates only blocks it holds; a call that blocks or faults has no successor.
\<close>

inductive mm_reach :: "mem_mgr \<Rightarrow> nat set \<Rightarrow> bool" where
  init: "mm_reach mm_init {}"
| malloc: "mm_reach s L \<Longrightarrow> mm_malloc n s = MmRet (Some p, s') \<Longrightarrow> mm_reach s' (insert p L)"
| malloc_null: "mm_reach s L \<Longrightarrow> mm_malloc n s = MmRet (None, s') \<Longrightarrow> mm_reach s' L"
| free: "mm_reach s L \<Longrightarrow> p \<in> L \<Longrightarrow> mm_free (Some p) s = MmRet s' \<Longrightarrow> mm_reach s' (L - {p})"
| realloc: "mm_reach s L \<Longrightarrow> p \<in> L \<Longrightarrow> mm_realloc (Some p) n s = MmRet (Some q, s') \<Longrightarrow>
     mm_reach s' (insert q (L - {p}))"

definition mm_owned :: "mem_mgr \<Rightarrow> nat set \<Rightarrow> bool" where
  "mm_owned s L \<longleftrightarrow> mm_inv s \<and> L \<inter> mm_free_blocks s = {} \<and> L \<subseteq> dom (hdr s)"

lemma mm_malloc_from_None: "mm_malloc_from szs n nSize s = MmRet (None, s') \<Longrightarrow> s' = s"
  by (induction szs n nSize s rule: mm_malloc_from.induct) (auto split: if_splits list.splits)

lemma mm_malloc_from_pops:
  "mm_malloc_from szs n nSize s = MmRet (Some p, s') \<Longrightarrow> mm_inv s \<Longrightarrow>
     n + length szs = EN_MEM_INDEX_COUN \<Longrightarrow> mm_free_blocks s' \<subseteq> mm_free_blocks s"
proof (induction szs n nSize s rule: mm_malloc_from.induct)
  case (2 sz szs n nSize s)
  then show ?case
    using mm_inv_pop(2) [OF "2.prems"(2), of n]
    by (auto simp: mm_free_blocks_def split: if_splits list.splits)
qed simp

lemma mm_malloc_owned:
  assumes "mm_owned s L" and "mm_malloc n s = MmRet (Some p, s')"
  shows "mm_owned s' (insert p L) \<and> p \<notin> L \<and>
     (\<exists>k < EN_MEM_INDEX_COUN. hdr s' p = Some k \<and> n \<le> int (EN_MEM_SIZES ! k) \<and>
        (m_pLock s' \<longleftrightarrow> m_lstMem s ! k = [])) \<and>
     (\<forall>q \<in> L. hdr s' q = hdr s q)"
proof -
  have m: "mm_malloc_from EN_MEM_SIZES 0 n s = MmRet (Some p, s')"
    using assms(2) by (simp add: mm_malloc_def)
  have I: "mm_inv s" "L \<inter> mm_free_blocks s = {}" "L \<subseteq> dom (hdr s)"
    using assms(1) by (simp_all add: mm_owned_def)
  from mm_malloc_from_ret [OF m I(1)] length_EN_MEM_SIZES obtain k where
    k: "mm_inv s'" "p \<notin> mm_free_blocks s'" "k < EN_MEM_INDEX_COUN" "hdr s' p = Some k"
      "n \<le> int (EN_MEM_SIZES ! k)" "p \<in> mm_free_blocks s \<or> hdr s p = None"
      "\<And>q. q \<noteq> p \<Longrightarrow> hdr s' q = hdr s q" "m_pLock s' \<longleftrightarrow> m_lstMem s ! k = []"
    by auto
  have sub: "mm_free_blocks s' \<subseteq> mm_free_blocks s"
    using mm_malloc_from_pops [OF m I(1)] length_EN_MEM_SIZES by simp
  have p: "p \<notin> L" using k(6) I(2,3) by blast
  have h: "\<forall>q \<in> L. hdr s' q = hdr s q" using k(7) p by metis
  have "insert p L \<inter> mm_free_blocks s' = {}" using k(2) I(2) sub by blast
  moreover have "insert p L \<subseteq> dom (hdr s')" using k(4) h I(3) by (auto simp: subset_iff domIff)
  ultimately show ?thesis
    using k p h by (auto simp: mm_owned_def)
qed

lemma mm_free_owned:
  assumes "mm_owned s L" and "p \<in> L" and "mm_free (Some p) s = MmRet s'"
  shows "mm_owned s' (L - {p})"
proof -
  have I: "mm_inv s" "L \<inter> mm_free_blocks s = {}" "L \<subseteq> dom (hdr s)"
    using assms(1) by (simp_all add: mm_owned_def)
  then obtain n where n: "hdr s p = Some n" using assms(2) by blast
  have "n < EN_MEM_INDEX_COUN" by (rule mm_inv_index [OF I(1) n])
  with assms(3) n have s': "s' = s\<lparr>m_lstMem := (m_lstMem s)[n := m_lstMem s ! n @ [p]]\<rparr>"
    by (auto simp: mm_free_def split: if_splits)
  have new: "p \<notin> mm_free_blocks s" using assms(2) I(2) by blast
  have "hdr s' = hdr s" by (simp add: s')
  then show ?thesis
    using mm_inv_push [OF I(1) n new] I(2,3) by (auto simp: mm_owned_def s')
qed

lemma mm_realloc_owned:
  assumes "mm_owned s L" and "p \<in> L" and "mm_realloc (Some p) n s = MmRet (Some q, s')"
  shows "mm_owned s' (insert q (L - {p}))"
proof -
  obtain k where k: "hdr s p = Some k" using assms(1,2) by (auto simp: mm_owned_def)
  have I: "k < EN_MEM_INDEX_COUN"
    using mm_inv_index [OF _ k] assms(1) by (simp add: mm_owned_def)
  show ?thesis
  proof (cases "n \<le> int (EN_MEM_SIZES ! k)")
    case True
    with assms k I have "q = p" "s' = s" by (auto simp: mm_realloc_def)
    with assms(1,2) show ?thesis by (simp add: insert_absorb)
  next
    case False
    with assms(3) k I obtain s1 where
      m: "mm_malloc n s = MmRet (Some q, s1)" and f: "mm_free (Some p) s1 = MmRet s'"
      by (auto simp: mm_realloc_def split: mm_result.splits option.splits)
    from mm_malloc_owned [OF assms(1) m] have o: "mm_owned s1 (insert q L)" and "q \<notin> L" by blast+
    with mm_free_owned [OF o _ f] assms(2) have "mm_owned s' (insert q L - {p})" by blast
    moreover have "insert q L - {p} = insert q (L - {p})" using \<open>q \<notin> L\<close> assms(2) by blast
    ultimately show ?thesis by simp
  qed
qed

lemma mm_reach_owned: "mm_reach s L \<Longrightarrow> mm_owned s L"
proof (induction rule: mm_reach.induct)
  case init
  then show ?case by (simp add: mm_owned_def mm_inv_init)
next
  case (malloc s L n p s')
  then show ?case using mm_malloc_owned by blast
next
  case (malloc_null s L n s')
  then show ?case using mm_malloc_from_None by (metis mm_malloc_def)
next
  case (free s L p s')
  then show ?case using mm_free_owned by blast
next
  case (realloc s L p n q s')
  then show ?case using mm_realloc_owned by blast
qed

section \<open>Properties\<close>

text \<open>C9: exclusive ownership. In every state a client can reach, a block returned by \<open>Malloc\<close> is not
  one it already holds, its class is at least as large as the request, the classes of the held
  blocks do not change, and the free lists stay disjoint from the held blocks.\<close>

theorem malloc_exclusive:
  assumes "mm_reach s L" and "mm_malloc n s = MmRet (Some p, s')"
  shows "p \<notin> L \<and> (\<exists>k < EN_MEM_INDEX_COUN. hdr s' p = Some k \<and> n \<le> int (EN_MEM_SIZES ! k)) \<and>
     (\<forall>q \<in> L. hdr s' q = hdr s q) \<and> insert p L \<inter> mm_free_blocks s' = {}"
  using mm_malloc_owned [OF mm_reach_owned [OF assms(1)] assms(2)]
  unfolding mm_owned_def by blast

text \<open>A class with free blocks serves the request from its list.\<close>

lemma mm_fill_nth:
  "n < length (m_lstMem s) \<Longrightarrow> k < length (m_lstMem s) \<Longrightarrow>
     length (m_lstMem (mm_fill n c s) ! k) = (if k = n then c else 0) + length (m_lstMem s ! k) \<and>
     length (m_lstMem (mm_fill n c s)) = length (m_lstMem s) \<and> m_pLock (mm_fill n c s) = m_pLock s"
  by (induction n c s rule: mm_fill.induct) auto

lemma mm_fill_all_length:
  "n + length cs \<le> length (m_lstMem s) \<Longrightarrow> k < length (m_lstMem s) \<Longrightarrow>
     length (m_lstMem (mm_fill_all n cs s) ! k) \<ge> length (m_lstMem s ! k) \<and>
     m_pLock (mm_fill_all n cs s) = m_pLock s"
proof (induction n cs s rule: mm_fill_all.induct)
  case (2 n c cs s)
  then show ?case using mm_fill_nth [of n s k c] by fastforce
qed simp

lemma mm_init_first: "m_lstMem mm_init ! 0 \<noteq> [] \<and> \<not> m_pLock mm_init"
proof -
  let ?s = "mm_fill 0 10240 mm_empty"
  have e: "0 < length (m_lstMem mm_empty)" "length (m_lstMem mm_empty) = 12"
    by (simp_all add: mm_empty_def EN_MEM_INDEX_COUN_def)
  have f: "length (m_lstMem ?s ! 0) \<ge> 10240" "length (m_lstMem ?s) = 12" "m_pLock ?s = m_pLock mm_empty"
    using mm_fill_nth [OF e(1) e(1), of 10240] e by simp_all
  have "length (m_lstMem mm_init ! 0) \<ge> length (m_lstMem ?s ! 0) \<and> m_pLock mm_init = m_pLock ?s"
    using mm_fill_all_length [of 1 "tl EN_MEM_COUNTS" ?s 0] f(2)
    unfolding mm_init_def EN_MEM_COUNTS_def by (simp del: mm_fill.simps)
  with f show ?thesis by (auto simp: mm_empty_def)
qed

lemma mm_malloc_first:
  "nSize \<le> 512 \<Longrightarrow> \<not> m_pLock s \<Longrightarrow> m_lstMem s ! 0 = p # ps \<Longrightarrow>
     mm_malloc nSize s = MmRet (Some p, s\<lparr>m_lstMem := (m_lstMem s)[0 := ps]\<rparr>)"
  by (simp add: mm_malloc_def EN_MEM_SIZES_def)

theorem malloc_exclusive_witness:
  "\<exists>p s'. mm_malloc 100 mm_init = MmRet (Some p, s') \<and> p \<notin> {} \<and> p \<notin> mm_free_blocks s'"
proof -
  obtain p ps where "m_lstMem mm_init ! 0 = p # ps" using mm_init_first by (cases "m_lstMem mm_init ! 0") auto
  then have m: "mm_malloc 100 mm_init = MmRet (Some p, mm_init\<lparr>m_lstMem := (m_lstMem mm_init)[0 := ps]\<rparr>)"
    using mm_init_first by (intro mm_malloc_first) simp_all
  with malloc_exclusive [OF mm_reach.init m] show ?thesis by blast
qed

text \<open>The class a request belongs to: the first one that is large enough.\<close>

definition mm_class :: "int \<Rightarrow> nat" where
  "mm_class nSize = length (takeWhile (\<lambda>sz. nSize > int sz) EN_MEM_SIZES)"

lemma mm_malloc_from_class:
  "mm_malloc_from szs n nSize s = MmRet (Some p, s') \<Longrightarrow>
     m_lstMem s ! (n + length (takeWhile (\<lambda>sz. nSize > int sz) szs)) = [] \<Longrightarrow> m_pLock s'"
proof (induction szs n nSize s rule: mm_malloc_from.induct)
  case (2 sz szs n nSize s)
  then show ?case by (auto split: if_splits)
qed simp

text \<open>C32: the lock leak. When the class of a request has no free block left, \<open>Malloc\<close>
  returns a fresh block with the lock held: from then on every \<open>Malloc\<close> of up to 8 MB and every
  \<open>Free\<close> of a held block never returns.\<close>

theorem exhausted_class_deadlocks:
  assumes "mm_reach s L" and "mm_malloc n s = MmRet (Some p, s')" and "m_lstMem s ! mm_class n = []"
  shows "(\<forall>m. m \<le> 8 * 1024 * 1024 \<longrightarrow> mm_malloc m s' = MmBlocked) \<and>
     (\<forall>q \<in> insert p L. mm_free (Some q) s' = MmBlocked)"
proof -
  have l: "m_pLock s'"
    using mm_malloc_from_class [of EN_MEM_SIZES 0] assms(2,3) by (simp add: mm_malloc_def mm_class_def)
  have o: "mm_owned s' (insert p L)"
    using mm_malloc_owned [OF mm_reach_owned [OF assms(1)] assms(2)] by blast
  have "mm_free (Some q) s' = MmBlocked" if q: "q \<in> insert p L" for q
  proof -
    from o q obtain k where k: "hdr s' q = Some k" unfolding mm_owned_def by blast
    with o mm_inv_index have "k < EN_MEM_INDEX_COUN" unfolding mm_owned_def by blast
    with k l show ?thesis by (simp add: mm_free_def)
  qed
  with mm_malloc_locked [OF l] show ?thesis by blast
qed

text \<open>The smallest class empties after as many requests as it has blocks.\<close>

lemma mm_reach_empty_first:
  "mm_reach s L \<Longrightarrow> \<not> m_pLock s \<Longrightarrow> length (m_lstMem s ! 0) = c \<Longrightarrow>
     \<exists>s' L'. mm_reach s' L' \<and> \<not> m_pLock s' \<and> m_lstMem s' ! 0 = []"
proof (induction c arbitrary: s L)
  case 0
  then show ?case by auto
next
  case (Suc c)
  then obtain p ps where ps: "m_lstMem s ! 0 = p # ps" by (cases "m_lstMem s ! 0") auto
  let ?s = "s\<lparr>m_lstMem := (m_lstMem s)[0 := ps]\<rparr>"
  have "mm_malloc 1 s = MmRet (Some p, ?s)"
    using Suc.prems(2) ps by (intro mm_malloc_first) simp_all
  then have r: "mm_reach ?s (insert p L)" using Suc.prems(1) mm_reach.malloc by blast
  have "length (m_lstMem s) = 12"
    using mm_inv_length [of s] mm_reach_owned [OF Suc.prems(1)]
    by (simp add: mm_owned_def EN_MEM_INDEX_COUN_def)
  then have "length (m_lstMem ?s ! 0) = c" using ps Suc.prems(3) by simp
  with Suc.IH [OF r] Suc.prems(2) show ?case by simp
qed

theorem exhausted_class_deadlocks_witness:
  "\<exists>s L p s'. mm_reach s L \<and> mm_malloc 100 s = MmRet (Some p, s') \<and>
     mm_malloc 100 s' = MmBlocked \<and> mm_free (Some p) s' = MmBlocked"
proof -
  obtain s L where r: "mm_reach s L" and s: "\<not> m_pLock s" "m_lstMem s ! 0 = []"
    using mm_reach_empty_first [OF mm_reach.init] mm_init_first by blast
  let ?s = "s\<lparr>hdr := (hdr s)(next_addr s \<mapsto> 0), next_addr := Suc (next_addr s), m_pLock := True\<rparr>"
  have m: "mm_malloc 100 s = MmRet (Some (next_addr s), ?s)"
    using s by (simp add: mm_malloc_def EN_MEM_SIZES_def)
  have c: "m_lstMem s ! mm_class 100 = []" using s by (simp add: mm_class_def EN_MEM_SIZES_def)
  have "mm_malloc 100 ?s = MmBlocked \<and> mm_free (Some (next_addr s)) ?s = MmBlocked"
    using exhausted_class_deadlocks [OF r m c] by simp
  with r m show ?thesis by blast
qed

end
