(* ===== verification/Ao_MemCache.thy ===== *)
theory Ao_MemCache
  imports Ao_MemoryMgr
begin

text \<open>
  The growing byte buffer of \<open>util/AoMemCache.cpp\<close> (class \<open>CAoMemCache\<close>), used as the receive
  and the send buffer of every channel and as the message builder of the aodc modules. The
  record holds the class's four members; \<open>m_pucCache\<close> is \<open>NULL\<close> (\<^term>\<open>None\<close>) or a block of the
  allocator. It is used as a byte queue: \<open>AppendBuf\<close> puts bytes at its end and \<open>Remove\<close> with a
  first argument of 0 takes them off its front.
\<close>

section \<open>State and operations\<close>

record mem_cache =
  m_unAppedStepSize :: u32
  m_unCacheSize :: u32
  m_unCacheOff :: u32
  m_pucCache :: "bytes option"

definition mc_new :: "alloc_ops \<Rightarrow> u32 \<Rightarrow> u32 \<Rightarrow> mem_cache" where
  "mc_new mal unInitSize unAppendStepSize =
     \<lparr>m_unAppedStepSize = unAppendStepSize, m_unCacheSize = unInitSize, m_unCacheOff = 0,
      m_pucCache = (if unInitSize > 0 then op_malloc mal (unat unInitSize) else None)\<rparr>"

text \<open>
  \<open>AppendBuf\<close>. The sums are sums of \<open>unsigned int\<close> and wrap. A null \<open>pucData\<close> only reserves
  room (and, when the block has to grow, drops the old block).
\<close>

definition mc_grow :: "alloc_ops \<Rightarrow> bytes option \<Rightarrow> u32 \<Rightarrow> mem_cache \<Rightarrow> mem_cache option" where
  "mc_grow mal pucData unDataLen c =
     (if m_pucCache c = None \<or> m_unCacheSize c < unDataLen + m_unCacheOff c
      then let sz = unDataLen + m_unCacheOff c + m_unAppedStepSize c in do {
          p \<leftarrow> (if pucData = None then Some (op_malloc mal (unat sz))
               else op_realloc mal (m_pucCache c) (unat sz));
          Some (c\<lparr>m_unCacheSize := sz, m_pucCache := p\<rparr>) }
      else Some c)"

definition mc_append ::
    "alloc_ops \<Rightarrow> bytes option \<Rightarrow> u32 \<Rightarrow> mem_cache \<Rightarrow> (bool \<times> mem_cache) option" where
  "mc_append mal pucData unDataLen c =
     (if unDataLen < 1 then Some (True, c)
      else do {
        c1 \<leftarrow> mc_grow mal pucData unDataLen c;
        (case m_pucCache c1 of
           None \<Rightarrow> Some (False, c1)
         | Some blk \<Rightarrow>
             (case pucData of
                None \<Rightarrow> Some (True, c1\<lparr>m_unCacheOff := m_unCacheOff c1 + unDataLen\<rparr>)
              | Some d \<Rightarrow> do {
                  blk' \<leftarrow> blit blk (unat (m_unCacheOff c1)) d (unat unDataLen);
                  Some (True, c1\<lparr>m_unCacheOff := m_unCacheOff c1 + unDataLen,
                                 m_pucCache := Some blk'\<rparr>) })) })"

definition mc_reset :: "mem_cache \<Rightarrow> mem_cache" where
  "mc_reset c = c\<lparr>m_unCacheOff := 0\<rparr>"

definition mc_remove :: "u32 \<Rightarrow> u32 \<Rightarrow> mem_cache \<Rightarrow> mem_cache option" where
  "mc_remove unFrom unTo c =
     (if m_unCacheOff c > unTo
      then let off = m_unCacheOff c - unTo in
        (case m_pucCache c of
           None \<Rightarrow> None
         | Some blk \<Rightarrow> do {
             blk' \<leftarrow> copy_up blk (unat unFrom) (unat unTo) (unat off);
             Some (c\<lparr>m_unCacheOff := off, m_pucCache := Some blk'\<rparr>) })
      else Some (c\<lparr>m_unCacheOff := 0\<rparr>))"

section \<open>Invariant and contents\<close>

definition mc_wf :: "mem_cache \<Rightarrow> bool" where
  "mc_wf c \<longleftrightarrow>
     (case m_pucCache c of None \<Rightarrow> m_unCacheOff c = 0
      | Some b \<Rightarrow> unat (m_unCacheSize c) \<le> length b \<and> m_unCacheOff c \<le> m_unCacheSize c)"

definition mc_content :: "mem_cache \<Rightarrow> bytes" where
  "mc_content c = (case m_pucCache c of None \<Rightarrow> [] | Some b \<Rightarrow> take (unat (m_unCacheOff c)) b)"

lemma mc_content_length: "mc_wf c \<Longrightarrow> length (mc_content c) = unat (m_unCacheOff c)"
  by (auto simp: mc_wf_def mc_content_def word_le_nat_alt min_def split: option.splits)

lemma mc_reset_wf [simp]: "mc_wf c \<Longrightarrow> mc_wf (mc_reset c)"
  by (auto simp: mc_wf_def mc_reset_def split: option.splits)

lemma mc_reset_content [simp]: "mc_content (mc_reset c) = []"
  by (auto simp: mc_content_def mc_reset_def split: option.splits)

lemma mc_reset_step [simp]: "m_unAppedStepSize (mc_reset c) = m_unAppedStepSize c"
  by (simp add: mc_reset_def)

context allocator begin

lemma mc_new_wf: "unat n \<le> lim \<Longrightarrow> mc_wf (mc_new mal n st) \<and> mc_content (mc_new mal n st) = []"
  using mal_ok [of "unat n"]
  by (auto simp: mc_wf_def mc_new_def mc_content_def split: option.splits)

text \<open>Growing keeps what is in the buffer and makes room for the new bytes.\<close>

lemma mc_grow_ok:
  assumes "mc_wf c"
    and "unat (m_unCacheOff c) + unat n + unat (m_unAppedStepSize c) \<le> lim" and "lim < 2 ^ 32"
  shows "\<exists>c1 b. mc_grow mal (Some d) n c = Some c1 \<and> m_pucCache c1 = Some b \<and>
     unat (m_unCacheSize c1) \<le> length b \<and>
     unat (m_unCacheOff c) + unat n \<le> unat (m_unCacheSize c1) \<and>
     take (unat (m_unCacheOff c)) b = mc_content c \<and>
     m_unCacheOff c1 = m_unCacheOff c \<and> m_unAppedStepSize c1 = m_unAppedStepSize c"
proof -
  let ?off = "m_unCacheOff c" and ?st = "m_unAppedStepSize c"
  have s1: "unat (n + ?off) = unat n + unat ?off"
    by (rule unat_plus_no_wrap) (use assms in simp)
  then have s2: "unat (n + ?off + ?st) = unat n + unat ?off + unat ?st"
    by (subst unat_plus_no_wrap) (use assms in simp_all)
  have lim: "unat (n + ?off + ?st) \<le> lim" using assms(2) s2 by simp
  show ?thesis
  proof (cases "m_pucCache c = None \<or> m_unCacheSize c < n + ?off")
    case True
    show ?thesis
    proof (cases "m_pucCache c")
      case None
      obtain f where f: "op_malloc mal (unat (n + ?off + ?st)) = Some f" "unat (n + ?off + ?st) \<le> length f"
        using mal_ok [OF lim] by auto
      with None s2 assms(1) realloc_null show ?thesis
        by (auto simp: mc_grow_def mc_wf_def mc_content_def)
    next
      case (Some b)
      obtain f where f: "op_realloc mal (Some b) (unat (n + ?off + ?st)) = Some (Some (moved b f))"
        "unat (n + ?off + ?st) \<le> length f"
        using realloc_ok [OF lim] by auto
      from Some assms(1) have "unat ?off \<le> length b" by (auto simp: mc_wf_def word_le_nat_alt)
      with f s2 True Some show ?thesis
        by (auto simp: mc_grow_def moved_def mc_content_def Let_def min_def)
    qed
  next
    case False
    with assms(1) s1 show ?thesis
      by (auto simp: mc_grow_def mc_wf_def mc_content_def word_less_nat_alt word_le_nat_alt)
  qed
qed

lemma mc_append_ok:
  assumes "mc_wf c" and "unat (m_unCacheOff c) + length d + unat (m_unAppedStepSize c) \<le> lim"
    and "lim < 2 ^ 32"
  shows "\<exists>c'. mc_append mal (Some d) (of_nat (length d)) c = Some (True, c') \<and> mc_wf c' \<and>
     mc_content c' = mc_content c @ d \<and> m_unAppedStepSize c' = m_unAppedStepSize c"
proof (cases "d = []")
  case True
  with assms(1) show ?thesis by (simp add: mc_append_def)
next
  case False
  let ?n = "of_nat (length d) :: u32"
  have n: "unat ?n = length d"
    using assms(2,3) by (simp add: unat_of_nat)
  have nz: "\<not> ?n < 1"
    using False n by (simp add: word_less_nat_alt)
  obtain c1 b where g: "mc_grow mal (Some d) ?n c = Some c1" and
    b: "m_pucCache c1 = Some b" "unat (m_unCacheSize c1) \<le> length b"
    "unat (m_unCacheOff c) + length d \<le> unat (m_unCacheSize c1)"
    "take (unat (m_unCacheOff c)) b = mc_content c" "m_unCacheOff c1 = m_unCacheOff c"
    "m_unAppedStepSize c1 = m_unAppedStepSize c"
    using mc_grow_ok [OF assms(1), of ?n d] assms(2,3) n by auto
  have sum: "unat (m_unCacheOff c + ?n) = unat (m_unCacheOff c) + length d"
    using assms(2,3) n by (subst unat_plus_no_wrap) simp_all
  have "blit b (unat (m_unCacheOff c)) d (length d) =
      Some (mc_content c @ d @ drop (unat (m_unCacheOff c) + length d) b)"
    using b by (simp add: blit_def)
  then have "mc_append mal (Some d) ?n c =
      Some (True, c1\<lparr>m_unCacheOff := m_unCacheOff c + ?n,
        m_pucCache := Some (mc_content c @ d @ drop (unat (m_unCacheOff c) + length d) b)\<rparr>)"
    using b g nz n by (simp add: mc_append_def Let_def)
  moreover have "take (unat (m_unCacheOff c + ?n)) (mc_content c @ d @ r) = mc_content c @ d" for r
    using sum mc_content_length [OF assms(1)] by simp
  ultimately show ?thesis
    using b sum mc_content_length [OF assms(1)]
    by (simp add: mc_wf_def mc_content_def [of "_ \<lparr>m_unCacheOff := _, m_pucCache := _\<rparr>"]
        word_le_nat_alt)
qed

text \<open>Without data the call reserves room at the front of an empty buffer.\<close>

lemma mc_reserve_ok:
  assumes "mc_wf c" and "m_unCacheOff c = 0" and "0 < n"
    and "unat n + unat (m_unAppedStepSize c) \<le> lim" and "lim < 2 ^ 32"
  shows "\<exists>c' blk. mc_append mal None n c = Some (True, c') \<and> m_pucCache c' = Some blk \<and>
     unat n \<le> length blk \<and> mc_wf c' \<and> m_unAppedStepSize c' = m_unAppedStepSize c"
proof -
  let ?st = "m_unAppedStepSize c"
  have s: "unat (n + ?st) = unat n + unat ?st"
    by (rule unat_plus_no_wrap) (use assms in simp)
  have "\<exists>c1 b. mc_grow mal None n c = Some c1 \<and> m_pucCache c1 = Some b \<and>
      unat (m_unCacheSize c1) \<le> length b \<and> n \<le> m_unCacheSize c1 \<and>
      m_unCacheOff c1 = 0 \<and> m_unAppedStepSize c1 = ?st"
  proof (cases "m_pucCache c = None \<or> m_unCacheSize c < n")
    case True
    obtain f where f: "op_malloc mal (unat (n + ?st)) = Some f" "unat (n + ?st) \<le> length f"
      using mal_ok [of "unat (n + ?st)"] assms(4) s by auto
    with True s assms(2) show ?thesis
      by (auto simp: mc_grow_def Let_def word_le_nat_alt)
  next
    case False
    with assms(1,2) show ?thesis by (auto simp: mc_grow_def mc_wf_def)
  qed
  moreover have "\<not> n < 1" using assms(3) by (auto simp: word_less_nat_alt)
  ultimately show ?thesis
    by (auto simp: mc_append_def Let_def mc_wf_def word_le_nat_alt)
qed

end

lemma mc_remove_ok:
  assumes "mc_wf c" and "n \<le> unat (m_unCacheOff c)"
  shows "\<exists>c'. mc_remove 0 (of_nat n) c = Some c' \<and> mc_wf c' \<and>
     mc_content c' = drop n (mc_content c) \<and> m_unAppedStepSize c' = m_unAppedStepSize c"
proof -
  have n: "unat (of_nat n :: u32) = n"
    using assms(2) le_less_trans [OF assms(2) unat_lt] by (simp add: unat_of_nat)
  show ?thesis
  proof (cases "m_pucCache c")
    case None
    with assms show ?thesis
      by (auto simp: mc_remove_def mc_wf_def mc_content_def)
  next
    case (Some b)
    with assms(1) have le: "unat (m_unCacheOff c) \<le> length b" "m_unCacheOff c \<le> m_unCacheSize c"
      "unat (m_unCacheSize c) \<le> length b"
      by (auto simp: mc_wf_def word_le_nat_alt)
    show ?thesis
    proof (cases "m_unCacheOff c > of_nat n")
      case True
      then have d: "unat (m_unCacheOff c - of_nat n) = unat (m_unCacheOff c) - n"
        using n by (simp add: unat_minus_no_wrap word_less_nat_alt)
      have "copy_up b 0 n (unat (m_unCacheOff c) - n) =
          Some (take (unat (m_unCacheOff c) - n) (drop n b) @ drop (unat (m_unCacheOff c) - n) b)"
        using copy_up_shift [of 0 n "unat (m_unCacheOff c) - n" b] le assms(2) by simp
      with True d n le Some show ?thesis
        by (auto simp: mc_remove_def Let_def mc_wf_def mc_content_def word_le_nat_alt
            drop_take min_def)
    next
      case False
      with n assms(2) have "unat (m_unCacheOff c) = n" by (simp add: word_less_nat_alt)
      with False Some le show ?thesis
        by (auto simp: mc_remove_def mc_wf_def mc_content_def)
    qed
  qed
qed

section \<open>Properties\<close>

text \<open>The calls a user of the buffer makes, and what they mean on its contents.\<close>

datatype mc_call = McPut bytes | McDrop nat | McClear

fun mc_do :: "alloc_ops \<Rightarrow> mc_call \<Rightarrow> mem_cache \<Rightarrow> mem_cache option" where
  "mc_do mal (McPut d) c = (case mc_append mal (Some d) (of_nat (length d)) c of
     Some (True, c') \<Rightarrow> Some c' | _ \<Rightarrow> None)"
| "mc_do mal (McDrop n) c = mc_remove 0 (of_nat n) c"
| "mc_do mal McClear c = Some (mc_reset c)"

fun mc_spec :: "mc_call \<Rightarrow> bytes \<Rightarrow> bytes" where
  "mc_spec (McPut d) b = b @ d"
| "mc_spec (McDrop n) b = drop n b"
| "mc_spec McClear b = []"

fun mc_run :: "alloc_ops \<Rightarrow> mc_call list \<Rightarrow> mem_cache \<Rightarrow> mem_cache option" where
  "mc_run mal [] c = Some c"
| "mc_run mal (x # xs) c = do { c' \<leftarrow> mc_do mal x c; mc_run mal xs c' }"

text \<open>The calls that stay within what one pool block holds and remove only what is there.\<close>

fun mc_fits :: "nat \<Rightarrow> mc_call list \<Rightarrow> bytes \<Rightarrow> bool" where
  "mc_fits st [] b = True"
| "mc_fits st (x # xs) b =
     ((case x of McPut d \<Rightarrow> length b + length d + st \<le> 8 * 1024 * 1024
       | McDrop n \<Rightarrow> n \<le> length b | McClear \<Rightarrow> True) \<and> mc_fits st xs (mc_spec x b))"

lemma mc_do_refines:
  assumes "mc_wf c" and "mc_fits (unat (m_unAppedStepSize c)) [x] (mc_content c)"
  shows "\<exists>c'. mc_do (ao_ops bld) x c = Some c' \<and> mc_wf c' \<and>
     mc_content c' = mc_spec x (mc_content c) \<and> m_unAppedStepSize c' = m_unAppedStepSize c"
proof (cases x)
  case (McPut d)
  then show ?thesis
    using ops.mc_append_ok [OF assms(1), of d bld] assms(2) mc_content_length [OF assms(1)] by auto
next
  case (McDrop n)
  then show ?thesis
    using mc_remove_ok [OF assms(1), of n] assms(2) mc_content_length [OF assms(1)] by auto
qed (use assms(1) in simp)



text \<open>With the C library's allocator, an append that it cannot serve reports failure, but it has
  already overwritten the pointer to the old block and kept its offset: the next append that can be
  served reports success with a buffer whose first bytes are those of a fresh block, not those that
  were appended before.\<close>

theorem failed_append_garbles:
  assumes "mc_wf c" and "8 * 1024 * 1024 + extra < unat (m_unCacheOff c) + n + unat (m_unAppedStepSize c)"
    and "unat (m_unCacheOff c) + n + unat (m_unAppedStepSize c) < 2 ^ 32"
    and "unat (m_unCacheSize c) < unat (m_unCacheOff c) + n" and "length big = n"
    and "small \<noteq> []"
    and "unat (m_unCacheOff c) + length small + unat (m_unAppedStepSize c) \<le> 8 * 1024 * 1024 + extra"
  shows "\<exists>c1 c2. mc_append (ao_ops (NO_MEM_CACHE extra junk)) (Some big) (of_nat n) c = Some (False, c1) \<and>
     mc_append (ao_ops (NO_MEM_CACHE extra junk)) (Some small) (of_nat (length small)) c1 = Some (True, c2) \<and>
     mc_content c2 = map junk [0..<unat (m_unCacheOff c)] @ small"
proof -
  let ?al = "ao_ops (NO_MEM_CACHE extra junk)"
  let ?off = "unat (m_unCacheOff c)" and ?st = "unat (m_unAppedStepSize c)" and ?m = "length small"
  have al: "op_malloc ?al k = (if k \<le> 8 * 1024 * 1024 + extra then Some (map junk [0..<k]) else None)"
    "op_realloc ?al p k = Some (case p of None \<Rightarrow> op_malloc ?al k | Some b \<Rightarrow> map_option (moved b) (op_malloc ?al k))"
    for p k by (simp_all add: libc_ops_def libc_malloc_def split: option.splits)
  have n: "unat (of_nat n :: u32) = n" and m: "unat (of_nat ?m :: u32) = ?m"
    using assms(2,3,7) by (simp_all add: unat_of_nat)
  have s1: "unat (of_nat n + m_unCacheOff c) = n + ?off"
    by (subst unat_plus_no_wrap) (use n assms(3) in simp_all)
  have s2: "unat (of_nat n + m_unCacheOff c + m_unAppedStepSize c) = n + ?off + ?st"
    by (subst unat_plus_no_wrap) (use s1 assms(3) in simp_all)
  have t1: "unat (of_nat ?m + m_unCacheOff c) = ?m + ?off"
    by (subst unat_plus_no_wrap) (use m assms(2,3,7) in simp_all)
  have t2: "unat (of_nat ?m + m_unCacheOff c + m_unAppedStepSize c) = ?m + ?off + ?st"
    by (subst unat_plus_no_wrap) (use t1 assms(2,3,7) in simp_all)
  let ?c1 = "c\<lparr>m_unCacheSize := of_nat n + m_unCacheOff c + m_unAppedStepSize c, m_pucCache := None\<rparr>"
  have "m_unCacheSize c < of_nat n + m_unCacheOff c"
    using assms(4) s1 by (simp add: word_less_nat_alt)
  then have g: "mc_grow ?al (Some big) (of_nat n) c = Some ?c1"
    using assms(2) unfolding mc_grow_def Let_def s2 al by (auto split: option.splits)
  have n1: "\<not> (of_nat n :: u32) < 1"
    using assms(1,4) n by (auto simp: word_less_nat_alt mc_wf_def word_le_nat_alt split: option.splits)
  have a1: "mc_append ?al (Some big) (of_nat n) c = Some (False, ?c1)"
    using n1 by (simp add: mc_append_def g del: ao_ops.simps)
  have m1: "\<not> (of_nat ?m :: u32) < 1"
    using assms(6) m by (cases small) (auto simp: word_less_nat_alt)
  let ?f = "map junk [0..<?m + ?off + ?st]"
  let ?blk = "take ?off ?f @ small @ drop (?off + ?m) ?f"
  let ?c2 = "?c1\<lparr>m_unCacheSize := of_nat ?m + m_unCacheOff c + m_unAppedStepSize c, m_pucCache := Some ?f\<rparr>"
  have g2: "mc_grow ?al (Some small) (of_nat ?m) ?c1 = Some ?c2"
    using assms(7) by (simp add: mc_grow_def Let_def t2 al del: ao_ops.simps)
  have b: "blit ?f ?off small ?m = Some ?blk" by (simp add: blit_def)
  let ?c3 = "?c2\<lparr>m_unCacheOff := m_unCacheOff c + of_nat ?m, m_pucCache := Some ?blk\<rparr>"
  have a2: "mc_append ?al (Some small) (of_nat ?m) ?c1 = Some (True, ?c3)"
    using m1 b g2 m by (simp add: mc_append_def del: ao_ops.simps)
  have "unat (m_unCacheOff c + of_nat ?m) = ?off + ?m" using t1 by (simp add: add.commute)
  then have "mc_content ?c3 = take (?off + ?m) ?blk" by (simp add: mc_content_def)
  also have "\<dots> = map junk [0..<?off] @ small" by (simp add: take_map)
  finally show ?thesis using a1 a2 by blast
qed

theorem failed_append_garbles_witness:
  "\<exists>c1 c2. mc_append (ao_ops (NO_MEM_CACHE 100 of_nat)) (Some (replicate (9 * 1024 * 1024) 65)) (of_nat (9 * 1024 * 1024))
       \<lparr>m_unAppedStepSize = 4, m_unCacheSize = 2, m_unCacheOff = 1, m_pucCache = Some [7, 0]\<rparr> = Some (False, c1) \<and>
     mc_append (ao_ops (NO_MEM_CACHE 100 of_nat)) (Some [9]) (of_nat (length [9 :: u8])) c1 = Some (True, c2) \<and>
     mc_content c2 = [0, 9]"
  using failed_append_garbles [of "\<lparr>m_unAppedStepSize = 4, m_unCacheSize = 2, m_unCacheOff = 1,
       m_pucCache = Some [7, 0]\<rparr>" 100 "9 * 1024 * 1024" "replicate (9 * 1024 * 1024) 65" "[9]" of_nat]
  by (simp add: mc_wf_def)

end
