(* ===== verification/Ao_Encrypt.thy ===== *)
theory Ao_Encrypt
  imports Ao_Prelude
begin

text \<open>
  The substitution cipher of \<open>util/AoEncrypt.cpp\<close> (class \<open>CAoEncrypt\<close>): a dictionary of 256 rows of
  256 bytes; the key byte at position \<open>n mod 16\<close> picks the row and the text byte the column. The
  three arrays of the class are functions from indices to bytes, since every index the code forms
  is below the array's size. Used by the channel protocol, the activation and authentication
  files and the downloaded packages.
\<close>

section \<open>State and operations\<close>

definition EN_SKDICT_LEN :: nat where "EN_SKDICT_LEN = 65536"
definition EN_KEY_LEN :: nat where "EN_KEY_LEN = 16"

record ao_encrypt =
  m_pucEnSkDict :: "nat \<Rightarrow> u8"
  m_pucDeSkDict :: "nat \<Rightarrow> u8"
  m_pucKey :: "nat \<Rightarrow> u8"

text \<open>One round of the loop that installs the dictionary \<open>d\<close> and its inverse.\<close>

definition sk_step :: "(nat \<Rightarrow> u8) \<Rightarrow> nat \<Rightarrow> ao_encrypt \<Rightarrow> ao_encrypt" where
  "sk_step d n a =
     a\<lparr>m_pucEnSkDict := (m_pucEnSkDict a)(n := d n),
       m_pucDeSkDict := (m_pucDeSkDict a)((n div 256) * 256 + unat (d n) := of_nat n)\<rparr>"

definition ae_set_skdict :: "(nat \<Rightarrow> u8) \<Rightarrow> int \<Rightarrow> ao_encrypt \<Rightarrow> ao_encrypt" where
  "ae_set_skdict pucSkDict nLen a =
     (if nLen \<noteq> int EN_SKDICT_LEN then a else fold (sk_step pucSkDict) [0..<EN_SKDICT_LEN] a)"

definition ae_set_key :: "(nat \<Rightarrow> u8) \<Rightarrow> int \<Rightarrow> ao_encrypt \<Rightarrow> ao_encrypt" where
  "ae_set_key pucKey nLen a =
     (if nLen \<noteq> int EN_KEY_LEN then a
      else a\<lparr>m_pucKey := (\<lambda>i. if i < EN_KEY_LEN then pucKey i else m_pucKey a i)\<rparr>)"

text \<open>The constructor: fresh (uninitialised) arrays, then \<open>Default\<close>.\<close>

definition ae_default :: "ao_encrypt \<Rightarrow> ao_encrypt" where
  "ae_default a =
     (fold (sk_step (\<lambda>n. of_nat (n + 10))) [0..<EN_SKDICT_LEN] a)
       \<lparr>m_pucKey := (\<lambda>i. if i < EN_KEY_LEN then 0x35 + of_nat i else m_pucKey a i)\<rparr>"

definition ae_index :: "u8 \<Rightarrow> u8 \<Rightarrow> nat" where
  "ae_index k b = unat ((push_bit 8 (ucast k :: u32)) AND 0xFF00) + unat b"

fun ae_code :: "(nat \<Rightarrow> u8) \<Rightarrow> (nat \<Rightarrow> u8) \<Rightarrow> nat \<Rightarrow> bytes \<Rightarrow> bytes" where
  "ae_code dict key n [] = []"
| "ae_code dict key n (b # bs) =
     dict (ae_index (key (n mod EN_KEY_LEN)) b) # ae_code dict key (Suc n) bs"

definition ae_encode :: "ao_encrypt \<Rightarrow> bytes \<Rightarrow> bytes" where
  "ae_encode a buf = ae_code (m_pucEnSkDict a) (m_pucKey a) 0 buf"

definition ae_decode :: "ao_encrypt \<Rightarrow> bytes \<Rightarrow> bytes" where
  "ae_decode a buf = ae_code (m_pucDeSkDict a) (m_pucKey a) 0 buf"

section \<open>The table loop\<close>

lemma ae_index_eq: "ae_index k b = unat k * 256 + unat b"
proof -
  have "push_bit 8 (ucast k :: u32) AND 0xFF00 = push_bit 8 (ucast k)"
  proof (rule bit_word_eqI)
    fix n assume n: "n < LENGTH(32)"
    have "bit (0xFF00 :: u32) n \<longleftrightarrow> 8 \<le> n \<and> n < 16"
    proof -
      have m: "(0xFF00 :: u32) = push_bit 8 (mask 8)" by (simp add: mask_eq_exp_minus_1)
      show ?thesis using n unfolding m by (auto simp: bit_simps)
    qed
    then show "bit (push_bit 8 (ucast k :: u32) AND 0xFF00) n = bit (push_bit 8 (ucast k :: u32)) n"
      using n bit_imp_le_length [of k "n - 8"] by (auto simp: bit_simps)
  qed
  moreover have "unat (push_bit 8 (ucast k :: u32)) = unat k * 256"
  proof -
    have "unat k < 256" using unat_lt [of k] by simp
    then show ?thesis
      by (simp add: push_bit_eq_mult unat_word_ariths unsigned_ucast_eq take_bit_eq_mod)
  qed
  ultimately show ?thesis by (simp add: ae_index_def)
qed

lemma length_ae_code [simp]: "length (ae_code d k n bs) = length bs"
  by (induction bs arbitrary: n) auto

lemma length_ae_encode [simp]: "length (ae_encode a bs) = length bs"
  by (simp add: ae_encode_def)

lemma length_ae_decode [simp]: "length (ae_decode a bs) = length bs"
  by (simp add: ae_decode_def)

lemma ae_code_append: "ae_code d k n (xs @ ys) = ae_code d k n xs @ ae_code d k (n + length xs) ys"
  by (induction xs arbitrary: n) auto

lemma ae_code_period: "ae_code d k (n + 16 * m) bs = ae_code d k n bs"
proof (induction bs arbitrary: n)
  case (Cons b bs)
  from Cons [of "Suc n"] show ?case by (simp add: EN_KEY_LEN_def)
qed simp

lemma fold_sk_step_key: "m_pucKey (fold (sk_step d) ns a) = m_pucKey a"
  by (induction ns arbitrary: a) (auto simp: sk_step_def)

lemma fold_sk_step_en:
  "m_pucEnSkDict (fold (sk_step d) [0..<m] a) i = (if i < m then d i else m_pucEnSkDict a i)"
  by (induction m) (auto simp: sk_step_def less_Suc_eq)

text \<open>Distinct columns within a row: the inverse table undoes the dictionary.\<close>

definition row_inj :: "(nat \<Rightarrow> u8) \<Rightarrow> bool" where
  "row_inj d \<longleftrightarrow> (\<forall>r < 256. inj_on (\<lambda>j. d (r * 256 + j)) {0..<256})"

lemma row_injD:
  assumes "row_inj d" and "i < EN_SKDICT_LEN" and "j < EN_SKDICT_LEN"
    and "i div 256 = j div 256" and "d i = d j"
  shows "i = j"
proof -
  have "i div 256 < 256" using assms(2) by (simp add: EN_SKDICT_LEN_def)
  with assms(1) have "inj_on (\<lambda>c. d (i div 256 * 256 + c)) {0..<256}"
    by (simp add: row_inj_def)
  moreover have "d (i div 256 * 256 + i mod 256) = d (i div 256 * 256 + j mod 256)"
    using assms(4,5) by (metis div_mult_mod_eq)
  ultimately have "i mod 256 = j mod 256"
    by (rule inj_onD) simp_all
  with assms(4) show ?thesis by (metis div_mult_mod_eq)
qed

lemma de_slot_inj:
  fixes d :: "nat \<Rightarrow> u8"
  assumes "i div 256 * 256 + unat (d i) = j div 256 * 256 + unat (d j)"
  shows "i div 256 = j div 256 \<and> d i = d j"
proof -
  have b: "unat (d i) < 256" "unat (d j) < 256"
    using unat_lt [of "d i"] unat_lt [of "d j"] by simp_all
  with assms have "i div 256 = j div 256" by linarith
  with assms show ?thesis by (simp add: word_unat_eq_iff)
qed

lemma fold_sk_step_de:
  assumes "row_inj d" and "m \<le> EN_SKDICT_LEN" and "i < m"
  shows "m_pucDeSkDict (fold (sk_step d) [0..<m] a) (i div 256 * 256 + unat (d i)) = of_nat i"
  using assms(2,3)
proof (induction m)
  case 0
  then show ?case by simp
next
  case (Suc m)
  show ?case
  proof (cases "i = m")
    case True
    then show ?thesis by (simp add: sk_step_def)
  next
    case False
    have "i div 256 * 256 + unat (d i) \<noteq> m div 256 * 256 + unat (d m)"
      using de_slot_inj [of i d m] row_injD [OF assms(1), of i m] Suc.prems False by auto
    with Suc False show ?thesis by (simp add: sk_step_def)
  qed
qed

text \<open>The tables after an installation, entry by entry.\<close>

lemma sk_tables:
  fixes a :: ao_encrypt
  assumes "row_inj d"
  defines "a' \<equiv> fold (sk_step d) [0..<EN_SKDICT_LEN] a"
  shows "m_pucDeSkDict a' (ae_index k (m_pucEnSkDict a' (ae_index k b))) = b"
proof -
  have b: "unat k < 256" "unat b < 256"
    using unat_lt [of k] unat_lt [of b] by simp_all
  let ?i = "unat k * 256 + unat b"
  have i: "?i < EN_SKDICT_LEN" using b by (simp add: EN_SKDICT_LEN_def)
  have row: "?i div 256 = unat k" using b by simp
  have "m_pucDeSkDict a' (?i div 256 * 256 + unat (d ?i)) = of_nat ?i"
    unfolding a'_def by (rule fold_sk_step_de [OF assms(1) _ i]) simp
  moreover have "(of_nat ?i :: u8) = b"
    by simp
  ultimately show ?thesis
    using i row by (simp add: ae_index_eq a'_def fold_sk_step_en)
qed

lemma ae_code_inverse:
  assumes "\<And>k b. de (ae_index k (en (ae_index k b))) = b"
  shows "ae_code de key n (ae_code en key n bs) = bs"
  using assms by (induction bs arbitrary: n) auto

definition inverse_tables :: "ao_encrypt \<Rightarrow> bool" where
  "inverse_tables a \<longleftrightarrow>
     (\<forall>k b. m_pucDeSkDict a (ae_index k (m_pucEnSkDict a (ae_index k b))) = b)"

lemma ae_decode_encode: "inverse_tables a \<Longrightarrow> ae_decode a (ae_encode a bs) = bs"
  unfolding inverse_tables_def ae_decode_def ae_encode_def
  by (rule ae_code_inverse) blast

lemma inverse_tables_set_key [simp]: "inverse_tables (ae_set_key k n a) = inverse_tables a"
  by (simp add: inverse_tables_def ae_set_key_def)

lemma inverse_tables_set_skdict:
  "row_inj d \<Longrightarrow> inverse_tables (ae_set_skdict d 65536 a)"
  using sk_tables by (simp add: inverse_tables_def ae_set_skdict_def EN_SKDICT_LEN_def)

section \<open>The default dictionary\<close>

lemma row_inj_default: "row_inj (\<lambda>n. of_nat (n + 10))"
proof -
  have "i = j"
    if "i < 256" "j < 256" "(of_nat (r * 256 + i + 10) :: u8) = of_nat (r * 256 + j + 10)"
    for r i j :: nat
  proof -
    from that(3) have "(of_nat i :: u8) = of_nat j" by simp
    then show ?thesis using that(1,2) by (simp add: word_of_nat_eq_iff take_bit_eq_mod)
  qed
  then show ?thesis by (auto simp: row_inj_def inj_on_def)
qed

lemma inverse_tables_default: "inverse_tables (ae_default a)"
  using sk_tables [OF row_inj_default, of a] by (simp add: inverse_tables_def ae_default_def)

lemma ae_default_entry: "m_pucEnSkDict (ae_default a) (ae_index k b) = b + 10"
proof -
  have "unat k < 256" "unat b < 256"
    using unat_lt [of k] unat_lt [of b] by simp_all
  then have "unat k * 256 + unat b < EN_SKDICT_LEN" by (simp add: EN_SKDICT_LEN_def)
  then have "m_pucEnSkDict (ae_default a) (ae_index k b) = of_nat (unat k * 256 + unat b + 10)"
    by (simp add: ae_default_def ae_index_eq fold_sk_step_en)
  also have "\<dots> = of_nat (unat k) * 256 + of_nat (unat b) + 10" by simp
  also have "\<dots> = b + 10" by simp
  finally show ?thesis .
qed

lemma ae_default_entry_de: "m_pucDeSkDict (ae_default a) (ae_index k b) = b - 10"
proof -
  have "m_pucDeSkDict (ae_default a) (ae_index k (m_pucEnSkDict (ae_default a) (ae_index k (b - 10)))) = b - 10"
    using inverse_tables_default [of a] unfolding inverse_tables_def by blast
  then show ?thesis by (simp add: ae_default_entry)
qed

lemma ae_code_shift:
  assumes "\<And>k b. en (ae_index k b) = b + c"
  shows "ae_code en key n bs = map (\<lambda>b. b + c) bs"
  using assms by (induction bs arbitrary: n) auto

lemma ae_encode_default: "ae_encode (ae_set_key k n (ae_default a)) bs = map (\<lambda>b. b + 10) bs"
proof -
  have "m_pucEnSkDict (ae_set_key k n (ae_default a)) = m_pucEnSkDict (ae_default a)"
    by (simp add: ae_set_key_def)
  then show ?thesis
    unfolding ae_encode_def by (intro ae_code_shift) (simp add: ae_default_entry)
qed

section \<open>Properties\<close>

text \<open>Round trip. After \<open>SetSkDict\<close> with a full dictionary whose rows are permutations and any
  key, \<open>Decode\<close> undoes \<open>Encode\<close> on every buffer.\<close>

theorem cipher_roundtrip:
  assumes "row_inj d"
  shows "ae_decode (ae_set_key k n (ae_set_skdict d 65536 a))
     (ae_encode (ae_set_key k n (ae_set_skdict d 65536 a)) bs) = bs"
  using assms by (intro ae_decode_encode) (simp add: inverse_tables_set_skdict)

theorem cipher_roundtrip_witness:
  "ae_decode (ae_set_key (\<lambda>i. of_nat i) 16 (ae_set_skdict (\<lambda>n. of_nat (n + 10)) 65536
       \<lparr>m_pucEnSkDict = \<lambda>_. 0, m_pucDeSkDict = \<lambda>_. 0, m_pucKey = \<lambda>_. 0\<rparr>))
     (ae_encode (ae_set_key (\<lambda>i. of_nat i) 16 (ae_set_skdict (\<lambda>n. of_nat (n + 10)) 65536
       \<lparr>m_pucEnSkDict = \<lambda>_. 0, m_pucDeSkDict = \<lambda>_. 0, m_pucKey = \<lambda>_. 0\<rparr>)) [1, 255, 0]) = [1, 255, 0]"
  by (rule cipher_roundtrip [OF row_inj_default])

text \<open>The built-in dictionary does not depend on the key. With the constructor's table, the only
  one the program ever installs, every key enciphers by adding 10 to each byte.\<close>

theorem default_cipher_ignores_key:
  "ae_encode (ae_set_key k n (ae_default a)) bs = map (\<lambda>b. b + 10) bs \<and>
   ae_decode (ae_set_key k n (ae_default a)) (map (\<lambda>b. b + 10) bs) = bs"
proof -
  have i: "inverse_tables (ae_set_key k n (ae_default a))" by (simp add: inverse_tables_default)
  show ?thesis
    using ae_decode_encode [OF i, of bs] unfolding ae_encode_default by blast
qed

end
