(* ===== verification/Ao_SockChannel.thy ===== *)
theory Ao_SockChannel
  imports Ao_Prelude
begin

text \<open>
  The receive side of a socket channel (\<open>util/AoSockChannel.cpp\<close>): bytes arrive in chunks of
  any size, are appended to the protocol object's buffer, and every complete message the
  protocol recognises is handed on. The protocol object is used through three virtual methods,
  \<open>AppendDecodeData\<close>, \<open>GetContent\<close> and \<open>MoveNext\<close>; the locale \<open>stream_protocol\<close> is that
  interface, with an abstract frame recogniser on the buffered bytes as its specification.
\<close>

section \<open>The code\<close>

text \<open>
  What \<open>GetContent\<close> answers: an undefined access, \<open>NULL\<close> with the value of \<open>nIsErr\<close>, or a
  message together with the object it leaves (the message is decoded in place).
\<close>

datatype 'p get_result = GcFault | GcNull bool | GcMsg bytes 'p

text \<open>The loop of \<open>ReadData\<close>: not returning and undefined behaviour are both \<^term>\<open>None\<close>.\<close>

partial_function (option) chan_drain ::
    "('p \<Rightarrow> 'p get_result) \<Rightarrow> ('p \<Rightarrow> 'p option) \<Rightarrow> 'p \<Rightarrow> (bytes list \<times> 'p) option" where
  "chan_drain get nxt p =
     (case get p of
        GcFault \<Rightarrow> None
      | GcNull nIsErr \<Rightarrow> Some ([], p)
      | GcMsg d p1 \<Rightarrow> do {
          p2 \<leftarrow> nxt p1;
          (ms, q) \<leftarrow> chan_drain get nxt p2;
          Some (d # ms, q) })"

text \<open>
  \<open>ReadData\<close>: the socket is absent or answers with a length and the bytes received. The result
  is the returned length, the messages handed to \<open>OnRecvedData\<close>, and the new object.
\<close>

definition chan_read_data ::
    "(bytes \<Rightarrow> 'p \<Rightarrow> (bool \<times> 'p) option) \<Rightarrow> ('p \<Rightarrow> 'p get_result) \<Rightarrow> ('p \<Rightarrow> 'p option) \<Rightarrow>
     (int \<times> bytes) option \<Rightarrow> 'p \<Rightarrow> (int \<times> bytes list \<times> 'p) option" where
  "chan_read_data feed get nxt recv p =
     (case recv of
        None \<Rightarrow> Some (-1, [], p)
      | Some (nReadedLen, buf) \<Rightarrow>
          if nReadedLen < 1 then Some (nReadedLen, [], p)
          else do {
            (ok, p1) \<leftarrow> feed buf p;
            if \<not> ok then Some (0, [], p1)
            else do {
              (ms, q) \<leftarrow> chan_drain get nxt p1;
              Some (nReadedLen, ms, q) } })"

text \<open>The reading thread calls it again and again; only non-empty reads change anything.\<close>

fun chan_run ::
    "(bytes \<Rightarrow> 'p \<Rightarrow> (bool \<times> 'p) option) \<Rightarrow> ('p \<Rightarrow> 'p get_result) \<Rightarrow> ('p \<Rightarrow> 'p option) \<Rightarrow>
     bytes list \<Rightarrow> 'p \<Rightarrow> (bytes list \<times> 'p) option" where
  "chan_run feed get nxt [] p = Some ([], p)"
| "chan_run feed get nxt (c # cs) p = do {
     (n, ms, q) \<leftarrow> chan_read_data feed get nxt (Some (int (length c), c)) p;
     (ms', q') \<leftarrow> chan_run feed get nxt cs q;
     Some (ms @ ms', q') }"

text \<open>
  \<open>SendMsg\<close>: the encoded message is written until all of it is sent; \<open>send\<close> answers how many
  bytes of the rest the socket took. The result is what reached the socket and whether the
  failure callback ran. The loop's counter is a signed \<open>int\<close>; fuel bounds the number of calls.
\<close>

fun chan_send :: "nat \<Rightarrow> (bytes \<Rightarrow> int) \<Rightarrow> bytes \<Rightarrow> (bytes \<times> bool) option" where
  "chan_send 0 send buf = None"
| "chan_send (Suc fuel) send buf =
     (if buf = [] then Some ([], True)
      else let n = send buf in
        if n < 1 then Some ([], False)
        else map_option (\<lambda>(out, ok). (take (nat n) buf @ out, ok))
               (chan_send fuel send (drop (nat n) buf)))"

lemma chan_send_all:
  assumes "\<And>b. b \<noteq> [] \<Longrightarrow> 1 \<le> send b \<and> send b \<le> int (length b)"
  shows "length buf < fuel \<Longrightarrow> chan_send fuel send buf = Some (buf, True)"
proof (induction fuel arbitrary: buf)
  case 0
  then show ?case by simp
next
  case (Suc fuel)
  show ?case
  proof (cases "buf = []")
    case False
    with assms [of buf] Suc show ?thesis by (auto simp: Let_def)
  qed simp
qed

text \<open>
  \<open>SendMsg\<close> as a whole. \<open>enc\<close> is the protocol object's \<open>EncodeMsg\<close>; \<open>(int)unMsgLen\<close> is
  negative from \<open>2 ^ 31\<close> on, and then the loop does not run at all.
\<close>

definition chan_send_msg ::
    "(bytes \<Rightarrow> 'p \<Rightarrow> (bytes option \<times> 'p) option) \<Rightarrow> (bytes \<Rightarrow> int) \<Rightarrow> bytes \<Rightarrow> 'p \<Rightarrow>
     (bytes \<times> bool \<times> 'p) option" where
  "chan_send_msg enc send d p = do {
     (r, p1) \<leftarrow> enc d p;
     (case r of
        None \<Rightarrow> Some ([], False, p1)
      | Some out \<Rightarrow>
          if length out \<ge> 2 ^ 31 then Some ([], True, p1)
          else do {
            (w, ok) \<leftarrow> chan_send (Suc (length out)) send out;
            Some (w, ok, p1) }) }"

section \<open>The specification: frames of a byte stream\<close>

datatype frame = FMore | FErr | FOdd | FMsg bytes nat

text \<open>
  \<open>FMsg d n\<close>: the buffer starts with a message of \<open>n\<close> bytes that carries \<open>d\<close>; \<open>FOdd\<close>: a header
  on which the code's behaviour is undefined or makes no progress.
\<close>

function deframe :: "(bytes \<Rightarrow> frame) \<Rightarrow> bytes \<Rightarrow> bytes list \<times> bytes" where
  "deframe frame b =
     (case frame b of
        FMsg d n \<Rightarrow>
          if 0 < n \<and> n \<le> length b
          then (let (ms, r) = deframe frame (drop n b) in (d # ms, r)) else ([], b)
      | _ \<Rightarrow> ([], b))"
  by pat_completeness auto
termination
  by (relation "measure (\<lambda>(f, b). length b)") auto

declare deframe.simps [simp del]

definition clean :: "(bytes \<Rightarrow> frame) \<Rightarrow> bytes \<Rightarrow> bool" where
  "clean frame b \<longleftrightarrow> frame (snd (deframe frame b)) \<in> {FMore, FErr}"

locale stream_protocol =
  fixes wf :: "'p \<Rightarrow> bool" and content :: "'p \<Rightarrow> bytes"
    and feed :: "bytes \<Rightarrow> 'p \<Rightarrow> (bool \<times> 'p) option"
    and get :: "'p \<Rightarrow> 'p get_result" and nxt :: "'p \<Rightarrow> 'p option"
    and frame :: "bytes \<Rightarrow> frame" and room :: nat
  assumes feed_ok: "wf p \<Longrightarrow> length (content p) + length d \<le> room \<Longrightarrow>
      \<exists>p'. feed d p = Some (True, p') \<and> wf p' \<and> content p' = content p @ d"
    and get_more: "wf p \<Longrightarrow> frame (content p) = FMore \<Longrightarrow> get p = GcNull False"
    and get_err: "wf p \<Longrightarrow> frame (content p) = FErr \<Longrightarrow> get p = GcNull True"
    and get_msg: "wf p \<Longrightarrow> frame (content p) = FMsg d n \<Longrightarrow>
      \<exists>p1 p2. get p = GcMsg d p1 \<and> nxt p1 = Some p2 \<and> wf p2 \<and> content p2 = drop n (content p)"
    and frame_len: "frame b = FMsg d n \<Longrightarrow> 0 < n \<and> n \<le> length b"
    and frame_grow: "frame b \<noteq> FMore \<Longrightarrow> frame (b @ c) = frame b"
begin

lemma frame_drop_less: "frame b = FMsg d n \<Longrightarrow> length (drop n b) < length b"
  using frame_len [of b d n] by (cases b) auto

lemma deframe_msg:
  "frame b = FMsg d n \<Longrightarrow>
     deframe frame b = (d # fst (deframe frame (drop n b)), snd (deframe frame (drop n b)))"
  using frame_len [of b d n] by (subst deframe.simps) (simp add: case_prod_beta)

lemma deframe_stop: "\<nexists>d n. frame b = FMsg d n \<Longrightarrow> deframe frame b = ([], b)"
  by (subst deframe.simps) (auto split: frame.splits)

lemma deframe_append:
  "deframe frame (b @ c) =
     (fst (deframe frame b) @ fst (deframe frame (snd (deframe frame b) @ c)),
      snd (deframe frame (snd (deframe frame b) @ c)))"
proof (induction "length b" arbitrary: b rule: less_induct)
  case less
  show ?case
  proof (cases "\<exists>d n. frame b = FMsg d n")
    case True
    then obtain d n where f: "frame b = FMsg d n" by blast
    with frame_len have n: "0 < n" "n \<le> length b" by auto
    from f have "frame (b @ c) = FMsg d n" using frame_grow [of b c] by simp
    with less.hyps [of "drop n b"] n show ?thesis
      by (simp add: deframe_msg [OF f] deframe_msg)
  next
    case False
    then show ?thesis by (simp add: deframe_stop)
  qed
qed

lemma deframe_rest_stops: "\<nexists>d n. frame (snd (deframe frame b)) = FMsg d n"
proof (induction "length b" arbitrary: b rule: less_induct)
  case less
  show ?case
  proof (cases "\<exists>d n. frame b = FMsg d n")
    case True
    then obtain d n where f: "frame b = FMsg d n" by blast
    with less.hyps [of "drop n b"] frame_drop_less [OF f] show ?thesis
      by (auto simp: deframe_msg [OF f])
  qed (simp add: deframe_stop)
qed

text \<open>A prefix of a clean stream is clean.\<close>

lemma clean_prefix: "clean frame (b @ c) \<Longrightarrow> clean frame b"
proof -
  assume c: "clean frame (b @ c)"
  let ?r = "snd (deframe frame b)"
  show "clean frame b"
  proof (cases "frame ?r")
    case FOdd
    then have f: "frame (?r @ c) = FOdd" using frame_grow [of ?r c] by simp
    then have "snd (deframe frame (b @ c)) = ?r @ c"
      by (simp add: deframe_append [of b c] deframe_stop)
    with c f show ?thesis by (simp add: clean_def)
  qed (use deframe_rest_stops [of b] in \<open>auto simp: clean_def\<close>)
qed

lemma chan_drain_deframe:
  "wf p \<Longrightarrow> clean frame (content p) \<Longrightarrow>
     \<exists>q. chan_drain get nxt p = Some (fst (deframe frame (content p)), q) \<and> wf q \<and>
         content q = snd (deframe frame (content p))"
proof (induction "length (content p)" arbitrary: p rule: less_induct)
  case less
  show ?case
  proof (cases "\<exists>d n. frame (content p) = FMsg d n")
    case True
    then obtain d n where f: "frame (content p) = FMsg d n" by blast
    with get_msg less.prems(1) obtain p1 p2 where
      g: "get p = GcMsg d p1" "nxt p1 = Some p2" "wf p2" "content p2 = drop n (content p)"
      by blast
    moreover have "clean frame (content p2)"
      using less.prems(2) g(4) by (simp add: clean_def deframe_msg [OF f])
    moreover have "length (content p2) < length (content p)"
      using frame_drop_less [OF f] g(4) by simp
    ultimately obtain q where
      "chan_drain get nxt p2 = Some (fst (deframe frame (content p2)), q)" "wf q"
      "content q = snd (deframe frame (content p2))"
      using less.hyps by blast
    with g show ?thesis
      by (auto simp: deframe_msg [OF f] chan_drain.simps [of get nxt p])
  next
    case False
    with less.prems(2) have "frame (content p) \<in> {FMore, FErr}"
      by (simp add: clean_def deframe_stop)
    with False less.prems(1) show ?thesis
      by (auto simp: deframe_stop get_more get_err chan_drain.simps [of get nxt p])
  qed
qed

lemma chan_read_data_ok:
  assumes "wf p" and "c \<noteq> []" and "length (content p) + length c \<le> room"
    and "clean frame (content p @ c)"
  shows "\<exists>q. chan_read_data feed get nxt (Some (int (length c), c)) p =
       Some (int (length c), fst (deframe frame (content p @ c)), q) \<and> wf q \<and>
       content q = snd (deframe frame (content p @ c))"
proof -
  obtain p1 where p1: "feed c p = Some (True, p1)" "wf p1" "content p1 = content p @ c"
    using feed_ok [OF assms(1,3)] by blast
  with chan_drain_deframe [of p1] assms(4) obtain q where
    "chan_drain get nxt p1 = Some (fst (deframe frame (content p @ c)), q)" "wf q"
    "content q = snd (deframe frame (content p @ c))" by auto
  moreover have "\<not> int (length c) < 1" using assms(2) by (cases c) auto
  ultimately show ?thesis using p1 by (simp add: chan_read_data_def)
qed

lemma deframe_rest_le: "length (snd (deframe frame b)) \<le> length b"
proof (induction "length b" arbitrary: b rule: less_induct)
  case less
  show ?case
  proof (cases "\<exists>d n. frame b = FMsg d n")
    case True
    then obtain d n where f: "frame b = FMsg d n" by blast
    with less.hyps [of "drop n b"] frame_drop_less [OF f] show ?thesis
      by (auto simp: deframe_msg [OF f])
  qed (simp add: deframe_stop)
qed

text \<open>
  The messages delivered do not depend on how the stream was cut into reads. Between two reads
  the buffer holds no complete message (\<open>idle\<close>).
\<close>

lemma chan_run_deframe:
  "wf p \<Longrightarrow> [] \<notin> set cs \<Longrightarrow> length (content p) + length (concat cs) \<le> room \<Longrightarrow>
   clean frame (content p @ concat cs) \<Longrightarrow> \<nexists>d n. frame (content p) = FMsg d n \<Longrightarrow>
     \<exists>q. chan_run feed get nxt cs p = Some (fst (deframe frame (content p @ concat cs)), q) \<and>
         wf q \<and> content q = snd (deframe frame (content p @ concat cs))"
proof (induction cs arbitrary: p)
  case Nil
  then show ?case by (simp add: deframe_stop)
next
  case (Cons c cs)
  let ?b = "content p @ c"
  have cl: "clean frame ?b"
    using Cons.prems(4) clean_prefix [of ?b "concat cs"] by simp
  with Cons.prems chan_read_data_ok [of p c] obtain q where
    q: "chan_read_data feed get nxt (Some (int (length c), c)) p =
        Some (int (length c), fst (deframe frame ?b), q)" "wf q"
      "content q = snd (deframe frame ?b)"
    by (auto simp: algebra_simps)
  have app: "deframe frame (?b @ concat cs) =
      (fst (deframe frame ?b) @ fst (deframe frame (content q @ concat cs)),
       snd (deframe frame (content q @ concat cs)))"
    using deframe_append [of ?b "concat cs"] q(3) by simp
  have len: "length (content q) + length (concat cs) \<le> room"
    using deframe_rest_le [of ?b] q(3) Cons.prems(3) by simp
  have "clean frame (content q @ concat cs)"
    using Cons.prems(4) app by (simp add: clean_def)
  with Cons.IH [OF q(2) _ len] deframe_rest_stops [of ?b] q(3) Cons.prems(2) obtain q' where
    "chan_run feed get nxt cs q = Some (fst (deframe frame (content q @ concat cs)), q')"
    "wf q'" "content q' = snd (deframe frame (content q @ concat cs))" by auto
  with q(1) app show ?case by auto
qed

text \<open>A header the protocol rejects blocks the channel: nothing after it is ever delivered.\<close>

lemma chan_run_poisoned:
  assumes "wf p" and "frame (content p) = FErr" and "[] \<notin> set cs"
    and "length (content p) + length (concat cs) \<le> room"
  shows "\<exists>q. chan_run feed get nxt cs p = Some ([], q) \<and> content q = content p @ concat cs"
proof -
  have f: "frame (content p @ concat cs) = FErr"
    using assms(2) frame_grow [of "content p"] by simp
  then have "clean frame (content p @ concat cs)" and d: "deframe frame (content p @ concat cs)
      = ([], content p @ concat cs)"
    by (simp_all add: clean_def deframe_stop)
  with chan_run_deframe [OF assms(1,3,4)] assms(2) show ?thesis by auto
qed

end

text \<open>
  A protocol with a largest message: what waits in the buffer between two reads is bounded, so a
  stream of any length is delivered as long as each read fits beside one incomplete message.
\<close>

locale bounded_stream = stream_protocol +
  fixes maxf :: nat
  assumes frame_more: "frame b = FMore \<Longrightarrow> length b \<le> maxf"
begin

lemma rest_more_prefix:
  assumes "frame (snd (deframe frame (b @ c))) = FMore"
  shows "frame (snd (deframe frame b)) = FMore"
proof (rule ccontr)
  let ?r = "snd (deframe frame b)"
  assume n: "frame ?r \<noteq> FMore"
  then have f: "frame (?r @ c) = frame ?r" by (rule frame_grow)
  moreover from this deframe_rest_stops [of b] have "snd (deframe frame (?r @ c)) = ?r @ c"
    by (simp add: deframe_stop)
  ultimately show False using assms n by (simp add: deframe_append [of b c])
qed

lemma chan_run_stream:
  "wf p \<Longrightarrow> \<forall>c\<in>set cs. c \<noteq> [] \<and> maxf + length c \<le> room \<Longrightarrow> frame (content p) = FMore \<Longrightarrow>
   frame (snd (deframe frame (content p @ concat cs))) = FMore \<Longrightarrow>
     \<exists>q. chan_run feed get nxt cs p = Some (fst (deframe frame (content p @ concat cs)), q) \<and>
         wf q \<and> content q = snd (deframe frame (content p @ concat cs))"
proof (induction cs arbitrary: p)
  case Nil
  then show ?case by (simp add: deframe_stop)
next
  case (Cons c cs)
  let ?b = "content p @ c"
  have m: "frame (snd (deframe frame ?b)) = FMore"
    using Cons.prems(4) rest_more_prefix [of ?b "concat cs"] by simp
  then have cl: "clean frame ?b" by (simp add: clean_def)
  have "length (content p) + length c \<le> room"
    using frame_more [OF Cons.prems(3)] Cons.prems(2) by fastforce
  with Cons.prems cl chan_read_data_ok [of p c] obtain q where
    q: "chan_read_data feed get nxt (Some (int (length c), c)) p =
        Some (int (length c), fst (deframe frame ?b), q)" "wf q"
      "content q = snd (deframe frame ?b)" by auto
  have app: "deframe frame (?b @ concat cs) =
      (fst (deframe frame ?b) @ fst (deframe frame (content q @ concat cs)),
       snd (deframe frame (content q @ concat cs)))"
    using deframe_append [of ?b "concat cs"] q(3) by simp
  have "frame (snd (deframe frame (content q @ concat cs))) = FMore"
    using Cons.prems(4) app by simp
  with Cons.IH [OF q(2)] m q(3) Cons.prems(2) obtain q' where
    "chan_run feed get nxt cs q = Some (fst (deframe frame (content q @ concat cs)), q')"
    "wf q'" "content q' = snd (deframe frame (content q @ concat cs))" by auto
  with q(1) app show ?case by auto
qed

end

end
