(* ===== verification/Ao_CommuProtocol.thy ===== *)
theory Ao_CommuProtocol
  imports Ao_MemCache Ao_Encrypt Ao_SockChannel
begin

text \<open>
  The wire protocol between the deployment client and its relay (\<open>util/AoCommuProtocol.cpp\<close>, class
  \<open>CAoCommuProtocol\<close>): a 12-byte header of three little-endian signed integers (total length,
  key code, key length), the key bytes, and the enciphered payload. \<open>ao_frame\<close> is the
  specification of the receiver, and the last section shows that the object built from
  \<open>CAoMemCache\<close> and \<open>CAoEncrypt\<close> meets the interface of the socket channel.
\<close>

section \<open>State and operations\<close>

definition EN_AO_MSG_SIZE :: nat where "EN_AO_MSG_SIZE = 12"
definition EN_MAX_PROTOCOL_LEN :: int where "EN_MAX_PROTOCOL_LEN = 1024 * 1024"
definition EN_STEP_APPEND_SIZE :: u32 where "EN_STEP_APPEND_SIZE = 10240"

record ao_protocol =
  m_pDecodeAmc :: mem_cache
  m_pEncodeAmc :: mem_cache
  m_ae :: ao_encrypt

definition ap_new :: "alloc_ops \<Rightarrow> u32 \<Rightarrow> ao_encrypt \<Rightarrow> ao_protocol" where
  "ap_new mal unCacheSize a =
     \<lparr>m_pDecodeAmc = mc_new mal unCacheSize EN_STEP_APPEND_SIZE,
      m_pEncodeAmc = mc_new mal unCacheSize EN_STEP_APPEND_SIZE,
      m_ae = ae_set_key (\<lambda>n. 0xBC + of_nat n) 16 (ae_default a)\<rparr>"

definition ap_reset :: "ao_protocol \<Rightarrow> ao_protocol" where
  "ap_reset p = p\<lparr>m_pDecodeAmc := mc_reset (m_pDecodeAmc p), m_pEncodeAmc := mc_reset (m_pEncodeAmc p)\<rparr>"

definition ap_append ::
    "alloc_ops \<Rightarrow> bytes \<Rightarrow> ao_protocol \<Rightarrow> (bool \<times> ao_protocol) option" where
  "ap_append mal d p = do {
     (ok, c) \<leftarrow> mc_append mal (Some d) (of_nat (length d)) (m_pDecodeAmc p);
     Some (ok, p\<lparr>m_pDecodeAmc := c\<rparr>) }"

text \<open>
  \<open>SetKey\<close>: sixteen key bytes from the key code and the key buffer, whose index is taken modulo
  the key length (a division by zero when that is 0; the sign of the divisor does not matter).
\<close>

definition ap_key :: "int \<Rightarrow> int \<Rightarrow> bytes \<Rightarrow> (nat \<Rightarrow> u8) option" where
  "ap_key nKeyCode nKeyLen kb =
     (let m = nat \<bar>nKeyLen\<bar> in
      if m = 0 \<or> length kb < min 16 m then None
      else Some (\<lambda>n. of_int nKeyCode + kb ! (n mod m)))"

definition ap_decode :: "int \<Rightarrow> int \<Rightarrow> bytes \<Rightarrow> bytes \<Rightarrow> ao_encrypt \<Rightarrow> (ao_encrypt \<times> bytes) option" where
  "ap_decode nKeyCode nKeyLen kb d a =
     (if length d < 1 \<or> nKeyCode = 0 then Some (a, d)
      else do {
        k \<leftarrow> ap_key nKeyCode nKeyLen kb;
        let a' = ae_set_key k 16 a;
        Some (a', ae_decode a' d) })"

definition ap_encode :: "int \<Rightarrow> int \<Rightarrow> bytes \<Rightarrow> bytes \<Rightarrow> ao_encrypt \<Rightarrow> (ao_encrypt \<times> bytes) option" where
  "ap_encode nKeyCode nKeyLen kb d a =
     (if length d < 1 \<or> nKeyCode = 0 then Some (a, d)
      else do {
        k \<leftarrow> ap_key nKeyCode nKeyLen kb;
        let a' = ae_set_key k 16 a;
        Some (a', ae_encode a' d) })"

text \<open>
  \<open>GetContent\<close> works on the raw block of the receive buffer: a negative key length moves the
  payload pointer back towards (or before) the header. A payload pointer before the block, a
  payload past its end and a signed overflow are faults.
\<close>

definition ap_get_content :: "ao_protocol \<Rightarrow> ao_protocol get_result" where
  "ap_get_content p =
     (let c = m_pDecodeAmc p in
      if m_unCacheOff c < of_nat EN_AO_MSG_SIZE then GcNull False
      else case m_pucCache c of
        None \<Rightarrow> GcFault
      | Some blk \<Rightarrow>
          (case (rd32 blk 0, rd32 blk 4, rd32 blk 8) of
             (Some dl, Some kc, Some kl) \<Rightarrow>
               let nDataLen = sint dl; nKeyCode = sint kc; nKeyLen = sint kl in
               if EN_MAX_PROTOCOL_LEN < nDataLen then GcNull True
               else if nKeyLen + int EN_AO_MSG_SIZE \<ge> 2 ^ 31 then GcFault
               else if nDataLen < nKeyLen + int EN_AO_MSG_SIZE then GcNull True
               else if nDataLen > sint (m_unCacheOff c) then GcNull False
               else let off = int EN_AO_MSG_SIZE + nKeyLen;
                        len = nDataLen - int EN_AO_MSG_SIZE - nKeyLen in
                 if off < 0 then GcFault
                 else (case bslice blk (nat off) (nat len) of
                    None \<Rightarrow> GcFault
                  | Some d \<Rightarrow>
                      (case ap_decode nKeyCode nKeyLen (drop EN_AO_MSG_SIZE blk) d (m_ae p) of
                         None \<Rightarrow> GcFault
                       | Some (a', d') \<Rightarrow>
                           (case blit blk (nat off) d' (nat len) of
                              None \<Rightarrow> GcFault
                            | Some blk' \<Rightarrow>
                                GcMsg d' (p\<lparr>m_pDecodeAmc := c\<lparr>m_pucCache := Some blk'\<rparr>,
                                            m_ae := a'\<rparr>))))
           | _ \<Rightarrow> GcFault))"

definition ap_move_next :: "ao_protocol \<Rightarrow> ao_protocol option" where
  "ap_move_next p = do {
     blk \<leftarrow> m_pucCache (m_pDecodeAmc p);
     dl \<leftarrow> rd32 blk 0;
     c \<leftarrow> mc_remove 0 dl (m_pDecodeAmc p);
     Some (p\<lparr>m_pDecodeAmc := c\<rparr>) }"

text \<open>
  \<open>EncodeMsg\<close>: \<open>rnd i\<close> is what the \<open>i\<close>-th call of \<open>rand()\<close> after \<open>srand\<close> returns. The result
  is the returned pointer as the \<open>unMsgLen\<close> bytes behind it, or \<open>NULL\<close>.
\<close>

definition ap_key_len :: "u32 \<Rightarrow> u32" where
  "ap_key_len unDataLen = (if unDataLen > 20 then 20 else unDataLen)"

definition ap_msg_len :: "u32 \<Rightarrow> u32" where
  "ap_msg_len unDataLen = unDataLen + of_nat EN_AO_MSG_SIZE + ap_key_len unDataLen"

definition ap_key_code :: "(nat \<Rightarrow> nat) \<Rightarrow> nat" where
  "ap_key_code rnd = rnd 0 mod 0x20 + 0xaf"

definition ap_key_buf :: "(nat \<Rightarrow> nat) \<Rightarrow> nat \<Rightarrow> bytes" where
  "ap_key_buf rnd n = map (\<lambda>i. of_nat (rnd (Suc i) mod (0xaf - 0x3f) + 0x3f)) [0..<n]"

definition ap_encode_msg ::
    "alloc_ops \<Rightarrow> (nat \<Rightarrow> nat) \<Rightarrow> bytes \<Rightarrow> u32 \<Rightarrow> ao_protocol \<Rightarrow>
     (bytes option \<times> ao_protocol) option" where
  "ap_encode_msg mal rnd pucData unDataLen p = do {
     let nKeyLen = ap_key_len unDataLen;
     let unMsgLen = ap_msg_len unDataLen;
     (ok, c) \<leftarrow> mc_append mal None unMsgLen (mc_reset (m_pEncodeAmc p));
     (case m_pucCache c of
        None \<Rightarrow> Some (None, p\<lparr>m_pEncodeAmc := c\<rparr>)
      | Some blk \<Rightarrow> do {
          let kb = ap_key_buf rnd (unat nKeyLen);
          blk1 \<leftarrow> blit blk 0 (le32 unMsgLen @ le32 (of_nat (ap_key_code rnd)) @ le32 nKeyLen @ kb)
                    (EN_AO_MSG_SIZE + unat nKeyLen);
          blk2 \<leftarrow> blit blk1 (EN_AO_MSG_SIZE + unat nKeyLen) pucData (unat unDataLen);
          d \<leftarrow> bslice blk2 (EN_AO_MSG_SIZE + unat nKeyLen) (unat unDataLen);
          (a', d') \<leftarrow> ap_encode (int (ap_key_code rnd)) (sint nKeyLen) (drop EN_AO_MSG_SIZE blk2) d (m_ae p);
          blk3 \<leftarrow> blit blk2 (EN_AO_MSG_SIZE + unat nKeyLen) d' (unat unDataLen);
          Some (Some (take (unat unMsgLen) blk3),
                p\<lparr>m_pEncodeAmc := c\<lparr>m_pucCache := Some blk3\<rparr>, m_ae := a'\<rparr>) }) }"

section \<open>The frame recogniser\<close>

definition ao_frame :: "ao_encrypt \<Rightarrow> bytes \<Rightarrow> frame" where
  "ao_frame a b =
     (case (rd32 b 0, rd32 b 4, rd32 b 8) of
        (Some dl, Some kc, Some kl) \<Rightarrow>
          if EN_MAX_PROTOCOL_LEN < sint dl then FErr
          else if sint kl < 0 \<or> sint kl + 12 \<ge> 2 ^ 31 then FOdd
          else if sint dl < sint kl + 12 then FErr
          else if sint dl > int (length b) then FMore
          else (case ap_decode (sint kc) (sint kl) (drop 12 b)
                       (take (nat (sint dl - 12 - sint kl)) (drop (nat (12 + sint kl)) b)) a of
                  None \<Rightarrow> FOdd
                | Some (a', d) \<Rightarrow> FMsg d (nat (sint dl)))
      | _ \<Rightarrow> FMore)"

text \<open>Deciphering looks at the key bytes before the payload only, and at one table of the cipher.\<close>

lemma ap_key_append: "0 \<le> kl \<Longrightarrow> nat kl \<le> length kb \<Longrightarrow> ap_key kc kl (kb @ x) = ap_key kc kl kb"
  by (auto simp: ap_key_def Let_def nth_append fun_eq_iff dest: mod_less_divisor
      intro: less_le_trans [OF mod_less_divisor])

lemma ap_decode_append:
  "0 \<le> kl \<Longrightarrow> nat kl \<le> length kb \<Longrightarrow> ap_decode kc kl (kb @ x) d a = ap_decode kc kl kb d a"
  by (simp add: ap_decode_def ap_key_append)

definition same_tables :: "ao_encrypt \<Rightarrow> ao_encrypt \<Rightarrow> bool" where
  "same_tables a a' \<longleftrightarrow>
     (\<forall>k b. m_pucDeSkDict a (ae_index k b) = m_pucDeSkDict a' (ae_index k b) \<and>
            m_pucEnSkDict a (ae_index k b) = m_pucEnSkDict a' (ae_index k b))"

lemma ae_decode_cong:
  "same_tables a a' \<Longrightarrow> ae_decode (ae_set_key k 16 a) d = ae_decode (ae_set_key k 16 a') d"
proof -
  assume e: "same_tables a a'"
  have "ae_code (m_pucDeSkDict a) (m_pucKey (ae_set_key k 16 a)) n d =
      ae_code (m_pucDeSkDict a') (m_pucKey (ae_set_key k 16 a')) n d" for n
    using e by (induction d arbitrary: n) (auto simp: ae_set_key_def EN_KEY_LEN_def same_tables_def)
  then show ?thesis by (simp add: ae_decode_def ae_set_key_def EN_KEY_LEN_def)
qed

lemma same_tables_default: "same_tables (ae_default a) (ae_default a')"
  by (simp add: same_tables_def ae_default_entry ae_default_entry_de)

lemma same_tables_sym: "same_tables a b \<Longrightarrow> same_tables b a"
  by (simp add: same_tables_def)

lemma same_tables_set_key [simp]: "same_tables a (ae_set_key k n a') = same_tables a a'"
  by (auto simp: same_tables_def ae_set_key_def)

lemma ap_decode_tables:
  assumes "same_tables a a'" and "ap_decode kc kl kb d a = Some (b, d')"
  shows "\<exists>b'. ap_decode kc kl kb d a' = Some (b', d') \<and> same_tables a b'"
  using assms ae_decode_cong [of a a']
  by (auto simp: ap_decode_def Let_def same_tables_def ae_set_key_def split: if_splits bind_splits)

lemma length_ap_decode: "ap_decode kc kl kb d a = Some (a', d') \<Longrightarrow> length d' = length d"
  by (auto simp: ap_decode_def Let_def split: if_splits bind_splits)

lemma rd32_None_iff: "rd32 b off = None \<longleftrightarrow> length b < off + 4"
  by (auto simp: rd32_def)

lemma ao_frame_hdr:
  assumes "rd32 b 0 = Some dl" "rd32 b 4 = Some kc" "rd32 b 8 = Some kl"
  shows "ao_frame a b =
     (if EN_MAX_PROTOCOL_LEN < sint dl then FErr
      else if sint kl < 0 \<or> sint kl + 12 \<ge> 2 ^ 31 then FOdd
      else if sint dl < sint kl + 12 then FErr
      else if sint dl > int (length b) then FMore
      else (case ap_decode (sint kc) (sint kl) (drop 12 b)
                   (take (nat (sint dl - 12 - sint kl)) (drop (nat (12 + sint kl)) b)) a of
              None \<Rightarrow> FOdd
            | Some (a', d) \<Rightarrow> FMsg d (nat (sint dl))))"
  using assms by (simp add: ao_frame_def)

lemma ao_frame_MsgD:
  assumes "rd32 b 0 = Some dl" "rd32 b 4 = Some kc" "rd32 b 8 = Some kl"
    and "ao_frame a b = FMsg d n"
  shows "sint dl \<le> EN_MAX_PROTOCOL_LEN \<and> 0 \<le> sint kl \<and> sint kl + 12 < 2 ^ 31 \<and>
     sint kl + 12 \<le> sint dl \<and> sint dl \<le> int (length b) \<and> n = nat (sint dl) \<and>
     (\<exists>a0. ap_decode (sint kc) (sint kl) (drop 12 b)
       (take (nat (sint dl - 12 - sint kl)) (drop (nat (12 + sint kl)) b)) a = Some (a0, d))"
  using assms(4) unfolding ao_frame_hdr [OF assms(1-3)]
  by (auto split: if_splits option.splits)

lemma ao_frame_len:
  assumes "ao_frame a b = FMsg d n" shows "0 < n \<and> n \<le> length b"
  using assms by (auto simp: ao_frame_def split: option.splits if_splits)

lemma ao_frame_grow:
  assumes "ao_frame a b \<noteq> FMore" shows "ao_frame a (b @ c) = ao_frame a b"
proof -
  from assms obtain dl kc kl where
    h: "rd32 b 0 = Some dl" "rd32 b 4 = Some kc" "rd32 b 8 = Some kl"
    by (auto simp: ao_frame_def split: option.splits)
  then have len: "12 \<le> length b" by (auto simp: rd32_def split: if_splits)
  have hc: "rd32 (b @ c) 0 = Some dl" "rd32 (b @ c) 4 = Some kc" "rd32 (b @ c) 8 = Some kl"
    using h len by (simp_all add: rd32_append1)
  show ?thesis
  proof (cases "sint dl \<le> EN_MAX_PROTOCOL_LEN \<and> 0 \<le> sint kl \<and> sint kl + 12 < 2 ^ 31 \<and>
      sint kl + 12 \<le> sint dl")
    case False
    then show ?thesis by (auto simp: ao_frame_def h hc)
  next
    case True
    with assms h have dl: "sint dl \<le> int (length b)"
      by (auto simp: ao_frame_def split: if_splits)
    have le: "nat (sint dl - 12 - sint kl) \<le> length b - nat (12 + sint kl)"
      using True dl by linarith
    then have "take (nat (sint dl - 12 - sint kl)) (drop (nat (12 + sint kl)) (b @ c)) =
        take (nat (sint dl - 12 - sint kl)) (drop (nat (12 + sint kl)) b)"
      by simp
    moreover have "ap_decode (sint kc) (sint kl) (drop 12 (b @ c)) x a =
        ap_decode (sint kc) (sint kl) (drop 12 b) x a" for x
    proof -
      have "nat (sint kl) \<le> length (drop 12 b)" using True dl len by (simp add: nat_le_iff)
      then show ?thesis using True len ap_decode_append [of "sint kl" "drop 12 b"] by simp
    qed
    ultimately show ?thesis
      using True dl le by (simp add: ao_frame_def h hc)
  qed
qed

section \<open>The object meets the channel's interface\<close>

definition ap_content :: "ao_protocol \<Rightarrow> bytes" where
  "ap_content p = mc_content (m_pDecodeAmc p)"

definition ap_wf :: "ao_encrypt \<Rightarrow> ao_protocol \<Rightarrow> bool" where
  "ap_wf a p \<longleftrightarrow>
     mc_wf (m_pDecodeAmc p) \<and> m_unAppedStepSize (m_pDecodeAmc p) = EN_STEP_APPEND_SIZE \<and>
     unat (m_unCacheOff (m_pDecodeAmc p)) < 2 ^ 31 \<and> same_tables a (m_ae p)"

text \<open>The room is what the largest pool block leaves after one growth step.\<close>

definition ap_room :: nat where
  "ap_room = 8 * 1024 * 1024 - 10240"

lemma ap_append_ok:
  assumes "ap_wf a p" and "length (ap_content p) + length d \<le> ap_room"
  shows "\<exists>p'. ap_append (ao_ops bld) d p = Some (True, p') \<and> ap_wf a p' \<and>
     ap_content p' = ap_content p @ d"
proof -
  let ?c = "m_pDecodeAmc p"
  have off: "length (ap_content p) = unat (m_unCacheOff ?c)"
    using assms(1) by (simp add: ap_content_def ap_wf_def mc_content_length)
  have "unat (m_unCacheOff ?c) + length d + unat (m_unAppedStepSize ?c) \<le> 8 * 1024 * 1024"
    using assms off by (simp add: ap_wf_def ap_room_def EN_STEP_APPEND_SIZE_def)
  then obtain c' where c': "mc_append (ao_ops bld) (Some d) (of_nat (length d)) ?c = Some (True, c')"
    "mc_wf c'" "mc_content c' = mc_content ?c @ d" "m_unAppedStepSize c' = m_unAppedStepSize ?c"
    using ops.mc_append_ok [of ?c d bld] assms(1) by (auto simp: ap_wf_def)
  moreover have "unat (m_unCacheOff c') < 2 ^ 31"
    using mc_content_length [OF c'(2)] c'(3) assms(2)
    by (simp add: ap_content_def ap_room_def)
  ultimately show ?thesis
    using assms(1) by (simp add: ap_append_def ap_wf_def ap_content_def)
qed

text \<open>The header fields of the raw block are those of the contents.\<close>

lemma ap_header:
  assumes "ap_wf a p" and "12 \<le> length (ap_content p)"
  obtains blk dl kc kl r where "m_pucCache (m_pDecodeAmc p) = Some blk"
    "rd32 blk 0 = Some dl" "rd32 blk 4 = Some kc" "rd32 blk 8 = Some kl"
    "rd32 (ap_content p) 0 = Some dl" "rd32 (ap_content p) 4 = Some kc"
    "rd32 (ap_content p) 8 = Some kl" "blk = ap_content p @ r"
    "\<not> m_unCacheOff (m_pDecodeAmc p) < 12"
    "sint (m_unCacheOff (m_pDecodeAmc p)) = int (length (ap_content p))"
proof -
  let ?c = "m_pDecodeAmc p"
  have off: "length (ap_content p) = unat (m_unCacheOff ?c)"
    using assms(1) by (simp add: ap_content_def ap_wf_def mc_content_length)
  obtain blk where blk: "m_pucCache ?c = Some blk"
    using assms(2) by (cases "m_pucCache ?c") (auto simp: ap_content_def mc_content_def)
  define r where "r = drop (unat (m_unCacheOff ?c)) blk"
  have b: "blk = ap_content p @ r"
    using blk by (simp add: r_def ap_content_def mc_content_def)
  obtain dl kc kl where
    h: "rd32 (ap_content p) 0 = Some dl" "rd32 (ap_content p) 4 = Some kc" "rd32 (ap_content p) 8 = Some kl"
    using assms(2) by (auto simp: rd32_def)
  moreover have "rd32 blk 0 = Some dl" "rd32 blk 4 = Some kc" "rd32 blk 8 = Some kl"
    using assms(2) h by (simp_all add: b rd32_append1)
  moreover have "\<not> m_unCacheOff ?c < 12" using assms(2) off by (simp add: word_less_nat_alt)
  moreover have "sint (m_unCacheOff ?c) = int (length (ap_content p))"
    using assms(1) off by (simp add: ap_wf_def sint_small)
  ultimately show ?thesis using blk b that by blast
qed

lemma ap_get_more:
  assumes "ap_wf a p" and "ao_frame a (ap_content p) = FMore"
  shows "ap_get_content p = GcNull False"
proof (cases "12 \<le> length (ap_content p)")
  case False
  then have "m_unCacheOff (m_pDecodeAmc p) < 12"
    using assms(1) by (simp add: ap_content_def ap_wf_def mc_content_length word_less_nat_alt)
  then show ?thesis by (simp add: ap_get_content_def EN_AO_MSG_SIZE_def)
next
  case True
  from ap_header [OF assms(1) True] obtain blk dl kc kl r where
    h: "m_pucCache (m_pDecodeAmc p) = Some blk"
    "rd32 blk 0 = Some dl" "rd32 blk 4 = Some kc" "rd32 blk 8 = Some kl"
    "rd32 (ap_content p) 0 = Some dl" "rd32 (ap_content p) 4 = Some kc"
    "rd32 (ap_content p) 8 = Some kl" "\<not> m_unCacheOff (m_pDecodeAmc p) < 12"
    "sint (m_unCacheOff (m_pDecodeAmc p)) = int (length (ap_content p))" by metis
  with assms(2) show ?thesis
    by (auto simp: ap_get_content_def EN_AO_MSG_SIZE_def ao_frame_def Let_def
        split: if_splits option.splits)
qed

lemma ap_get_err:
  assumes "ap_wf a p" and "ao_frame a (ap_content p) = FErr"
  shows "ap_get_content p = GcNull True"
proof -
  have "12 \<le> length (ap_content p)"
    using assms(2) by (auto simp: ao_frame_def rd32_None_iff rd32_def split: option.splits if_splits)
  from ap_header [OF assms(1) this] obtain blk dl kc kl r where
    h: "m_pucCache (m_pDecodeAmc p) = Some blk"
    "rd32 blk 0 = Some dl" "rd32 blk 4 = Some kc" "rd32 blk 8 = Some kl"
    "rd32 (ap_content p) 0 = Some dl" "rd32 (ap_content p) 4 = Some kc"
    "rd32 (ap_content p) 8 = Some kl" "\<not> m_unCacheOff (m_pDecodeAmc p) < 12" by metis
  with assms(2) show ?thesis
    by (auto simp: ap_get_content_def EN_AO_MSG_SIZE_def ao_frame_def Let_def
        split: if_splits option.splits)
qed

lemma ap_move_nextI:
  "m_pucCache (m_pDecodeAmc p) = Some blk \<Longrightarrow> rd32 blk 0 = Some dl \<Longrightarrow>
   mc_remove 0 dl (m_pDecodeAmc p) = Some c \<Longrightarrow> ap_move_next p = Some (p\<lparr>m_pDecodeAmc := c\<rparr>)"
  by (simp add: ap_move_next_def)

lemma ap_get_msg:
  assumes wf: "ap_wf a p" and fr: "ao_frame a (ap_content p) = FMsg d n"
  shows "\<exists>p1 p2. ap_get_content p = GcMsg d p1 \<and> ap_move_next p1 = Some p2 \<and> ap_wf a p2 \<and>
     ap_content p2 = drop n (ap_content p)"
proof -
  let ?b = "ap_content p" and ?c = "m_pDecodeAmc p"
  have len12: "12 \<le> length ?b"
    using fr by (auto simp: ao_frame_def rd32_def split: option.splits if_splits)
  from ap_header [OF wf len12] obtain blk dl kc kl r where
    h: "m_pucCache ?c = Some blk" "rd32 blk 0 = Some dl" "rd32 blk 4 = Some kc" "rd32 blk 8 = Some kl"
    "rd32 ?b 0 = Some dl" "rd32 ?b 4 = Some kc" "rd32 ?b 8 = Some kl" and blk: "blk = ?b @ r" and
    o: "\<not> m_unCacheOff ?c < 12" "sint (m_unCacheOff ?c) = int (length ?b)" by metis
  define off where "off = nat (12 + sint kl)"
  define len where "len = nat (sint dl - 12 - sint kl)"
  note fd = ao_frame_MsgD [OF h(5-7) fr]
  from fd have hd: "sint dl \<le> EN_MAX_PROTOCOL_LEN" "0 \<le> sint kl" "sint kl + 12 < 2 ^ 31"
    "sint kl + 12 \<le> sint dl" "sint dl \<le> int (length ?b)" and n: "n = nat (sint dl)" by blast+
  have on: "off + len = n" "12 \<le> off" "n \<le> length ?b" "12 \<le> n"
    using hd n unfolding off_def len_def by linarith+
  from fd obtain a0 where "ap_decode (sint kc) (sint kl) (drop 12 ?b) (take len (drop off ?b)) a = Some (a0, d)"
    unfolding off_def len_def by blast
  moreover have "same_tables a (m_ae p)" using wf by (simp add: ap_wf_def)
  ultimately obtain a' where
    a': "ap_decode (sint kc) (sint kl) (drop 12 ?b) (take len (drop off ?b)) (m_ae p) = Some (a', d)"
    using ap_decode_tables by blast
  have st: "same_tables (m_ae p) a'"
    using a' by (auto simp: ap_decode_def Let_def same_tables_def ae_set_key_def
        split: if_splits bind_splits)
  have "nat (sint kl) \<le> length (drop 12 ?b)" using hd by simp
  then have dec: "ap_decode (sint kc) (sint kl) (drop 12 blk) (take len (drop off ?b)) (m_ae p) = Some (a', d)"
    using a' ap_decode_append [of "sint kl" "drop 12 ?b"] hd(2) len12 by (simp add: blk)
  have dlen: "length d = len"
    using length_ap_decode [OF a'] on by simp
  have sl: "bslice blk off len = Some (take len (drop off ?b))"
    using on by (simp add: bslice_def blk)
  define blk' where "blk' = take off ?b @ d @ drop n ?b @ r"
  have bl: "blit blk off d len = Some blk'"
    using on dlen by (simp add: blit_def blk blk'_def)
  define p1 where "p1 = p\<lparr>m_pDecodeAmc := ?c\<lparr>m_pucCache := Some blk'\<rparr>, m_ae := a'\<rparr>"
  have eqs: "nat (12 + sint kl) = off" "nat (sint kl + 12) = off" "nat (sint dl - 12 - sint kl) = len"
    by (simp_all add: off_def len_def add.commute)
  have "\<not> EN_MAX_PROTOCOL_LEN < sint dl" "\<not> sint kl + 12 \<ge> 2 ^ 31" "\<not> sint dl < sint kl + 12"
    "\<not> sint dl > int (length ?b)" "\<not> 12 + sint kl < 0"
    using hd by linarith+
  then have get: "ap_get_content p = GcMsg d p1"
    unfolding ap_get_content_def EN_AO_MSG_SIZE_def Let_def
    using o by (simp only: h of_nat_numeral option.case prod.case if_False eqs sl dec bl p1_def)
  let ?c1 = "?c\<lparr>m_pucCache := Some blk'\<rparr>"
  have coff: "unat (m_unCacheOff ?c) = length ?b"
    using wf by (simp add: ap_content_def ap_wf_def mc_content_length)
  have blen: "length blk' = length blk" using on dlen by (simp add: blk'_def blk)
  have wf1: "mc_wf ?c1"
    using wf h(1) blen by (simp add: ap_wf_def mc_wf_def)
  have con1: "mc_content ?c1 = take off ?b @ d @ drop n ?b"
    using coff on dlen by (simp add: mc_content_def blk'_def)
  obtain c2 where c2: "mc_remove 0 (of_nat n) ?c1 = Some c2" "mc_wf c2"
    "mc_content c2 = drop n (mc_content ?c1)" "m_unAppedStepSize c2 = m_unAppedStepSize ?c1"
    using mc_remove_ok [OF wf1, of n] on(3) coff by auto
  have dr: "drop n (mc_content ?c1) = drop n ?b"
    using on dlen by (simp add: con1)
  have dln: "dl = of_nat n"
  proof -
    have "sint dl = int n" using n hd(2,4) by linarith
    then have "(of_int (sint dl) :: u32) = of_nat n" by (simp only: of_int_of_nat_eq)
    then show ?thesis by (simp only: of_int_sint scast_id)
  qed
  have "rd32 blk' 0 = Some dl"
  proof -
    have "rd32 blk' 0 = rd32 (take off ?b) 0"
      unfolding blk'_def by (rule rd32_append1) (use on in simp)
    also have "\<dots> = rd32 ?b 0" by (rule rd32_take) (use on in simp_all)
    finally show ?thesis using h(5) by (rule trans)
  qed
  moreover have d1: "m_pDecodeAmc p1 = ?c1" by (simp add: p1_def)
  ultimately have mv: "ap_move_next p1 = Some (p1\<lparr>m_pDecodeAmc := c2\<rparr>)"
    using c2(1) unfolding dln by (intro ap_move_nextI) simp_all
  have "length (mc_content c2) \<le> length ?b"
    using c2(3) dr by simp
  then have "unat (m_unCacheOff c2) < 2 ^ 31"
    using mc_content_length [OF c2(2)] coff wf by (simp add: ap_wf_def)
  then have "ap_wf a (p1\<lparr>m_pDecodeAmc := c2\<rparr>)"
    using c2 wf st by (simp add: ap_wf_def p1_def same_tables_def)
  then show ?thesis
    using get mv c2(3) dr
    by (auto simp: ap_content_def)
qed

interpretation ao_stream: stream_protocol "ap_wf a" ap_content "ap_append (ao_ops bld)"
    ap_get_content ap_move_next "ao_frame a" ap_room for a bld
proof unfold_locales
  show "\<exists>p1 p2. ap_get_content p = GcMsg d p1 \<and> ap_move_next p1 = Some p2 \<and> ap_wf a p2 \<and>
      ap_content p2 = drop n (ap_content p)"
    if "ap_wf a p" "ao_frame a (ap_content p) = FMsg d n" for p d n
    using that by (rule ap_get_msg)
qed (auto intro: ap_append_ok ap_get_more ap_get_err ao_frame_grow dest: ao_frame_len)

section \<open>The sender\<close>

text \<open>The bytes \<open>EncodeMsg\<close> puts on the wire for a message, given the values of \<open>rand()\<close>.\<close>

definition ap_wire_kb :: "(nat \<Rightarrow> nat) \<Rightarrow> bytes \<Rightarrow> bytes" where
  "ap_wire_kb rnd d = ap_key_buf rnd (min (length d) 20)"

definition ap_wire_key :: "(nat \<Rightarrow> nat) \<Rightarrow> bytes \<Rightarrow> nat \<Rightarrow> u8" where
  "ap_wire_key rnd d i =
     of_nat (ap_key_code rnd) + ap_wire_kb rnd d ! (i mod min (length d) 20)"

definition ap_wire_payload :: "ao_encrypt \<Rightarrow> (nat \<Rightarrow> nat) \<Rightarrow> bytes \<Rightarrow> bytes" where
  "ap_wire_payload a rnd d =
     (if d = [] then [] else ae_encode (ae_set_key (ap_wire_key rnd d) 16 a) d)"

definition ap_wire_head :: "(nat \<Rightarrow> nat) \<Rightarrow> bytes \<Rightarrow> bytes" where
  "ap_wire_head rnd d =
     le32 (of_nat (length d + 12 + min (length d) 20)) @ le32 (of_nat (ap_key_code rnd)) @
     le32 (of_nat (min (length d) 20)) @ ap_wire_kb rnd d"

definition ap_wire :: "ao_encrypt \<Rightarrow> (nat \<Rightarrow> nat) \<Rightarrow> bytes \<Rightarrow> bytes" where
  "ap_wire a rnd d = ap_wire_head rnd d @ ap_wire_payload a rnd d"

lemma length_ap_wire_kb [simp]: "length (ap_wire_kb rnd d) = min (length d) 20"
  by (simp add: ap_wire_kb_def ap_key_buf_def)

lemma length_ap_wire_payload [simp]: "length (ap_wire_payload a rnd d) = length d"
  by (simp add: ap_wire_payload_def)

lemma length_ap_wire_head [simp]: "length (ap_wire_head rnd d) = 12 + min (length d) 20"
  by (simp add: ap_wire_head_def)

lemma length_ap_wire: "length (ap_wire a rnd d) = length d + 12 + min (length d) 20"
  by (simp add: ap_wire_def)

lemma ap_key_code_bounds: "0xaf \<le> ap_key_code rnd \<and> ap_key_code rnd < 0xcf"
  by (simp add: ap_key_code_def)

lemma sint_key_code: "sint (of_nat (ap_key_code rnd) :: u32) = int (ap_key_code rnd)"
  by (rule sint_of_nat32) (use ap_key_code_bounds [of rnd] in simp)

lemma ap_key_wire:
  assumes "d \<noteq> []"
  shows "ap_key (int (ap_key_code rnd)) (int (min (length d) 20)) (ap_wire_kb rnd d @ x) =
     Some (ap_wire_key rnd d)"
proof -
  have "ap_key (int (ap_key_code rnd)) (int (min (length d) 20)) (ap_wire_kb rnd d) =
      Some (ap_wire_key rnd d)"
    using assms by (auto simp: ap_key_def Let_def ap_wire_key_def fun_eq_iff)
  then show ?thesis by (subst ap_key_append) simp_all
qed

lemma ap_decode_wire:
  assumes "same_tables a a'" and "inverse_tables a'"
  shows "\<exists>b. ap_decode (int (ap_key_code rnd)) (int (min (length d) 20)) (ap_wire_kb rnd d @ x)
     (ap_wire_payload a' rnd d) a = Some (b, d)"
proof (cases "d = []")
  case True
  then show ?thesis by (simp add: ap_decode_def ap_wire_payload_def)
next
  case False
  have "ae_decode (ae_set_key k 16 a) (ae_encode (ae_set_key k 16 a') d) = d" for k
    using ae_decode_cong [of a a' k] assms ae_decode_encode [of "ae_set_key k 16 a'" d]
    by (simp add: same_tables_def)
  moreover have "ap_key_code rnd \<noteq> 0" using ap_key_code_bounds [of rnd] by simp
  moreover have "\<not> length d < 1" using False by (cases d) auto
  ultimately show ?thesis
    using False by (simp add: ap_decode_def ap_key_wire ap_wire_payload_def del: of_nat_min)
qed

lemma ao_frame_wire:
  assumes "same_tables a a'" and "inverse_tables a'" and "length d + 32 \<le> 1024 * 1024"
  shows "ao_frame a (ap_wire a' rnd d @ rest) = FMsg d (length (ap_wire a' rnd d))"
proof -
  let ?m = "min (length d) 20" and ?b = "ap_wire a' rnd d @ rest"
  let ?n = "length d + 12 + ?m"
  have b: "?b = le32 (of_nat ?n) @ le32 (of_nat (ap_key_code rnd)) @ le32 (of_nat ?m) @
      ap_wire_kb rnd d @ ap_wire_payload a' rnd d @ rest"
    by (simp add: ap_wire_def ap_wire_head_def)
  have h: "rd32 ?b 0 = Some (of_nat ?n)" "rd32 ?b 4 = Some (of_nat (ap_key_code rnd))"
    "rd32 ?b 8 = Some (of_nat ?m)"
    unfolding b by (simp_all only: rd32_le32_0 rd32_skip length_le32) (simp_all add: buf_simps)
  have s: "sint (of_nat ?n :: u32) = int ?n" "sint (of_nat ?m :: u32) = int ?m"
    by (rule sint_of_nat32, use assms(3) in simp)+
  have d12: "drop 12 ?b = ap_wire_kb rnd d @ ap_wire_payload a' rnd d @ rest"
    unfolding b by simp
  have lb: "length ?b = ?n + length rest" by (simp add: length_ap_wire)
  have eqs: "nat (12 + int ?m) = 12 + ?m" "nat (int ?n - 12 - int ?m) = length d"
    by linarith+
  have pl: "take (length d) (drop (12 + ?m) ?b) = ap_wire_payload a' rnd d"
    unfolding ap_wire_def by simp
  obtain b' where dec: "ap_decode (int (ap_key_code rnd)) (int ?m) (drop 12 ?b)
      (ap_wire_payload a' rnd d) a = Some (b', d)"
    unfolding d12 using ap_decode_wire [OF assms(1,2)] by blast
  have c: "\<not> EN_MAX_PROTOCOL_LEN < int ?n" "\<not> (int ?m < 0 \<or> int ?m + 12 \<ge> 2 ^ 31)"
    "\<not> int ?n < int ?m + 12" "\<not> int ?n > int (length ?b)"
    using assms(3) lb by (auto simp: EN_MAX_PROTOCOL_LEN_def)
  show ?thesis
    unfolding ao_frame_hdr [OF h] s sint_key_code
    by (simp only: c if_False eqs pl dec option.case prod.case length_ap_wire nat_int)
qed

definition ap_enc_wf :: "ao_protocol \<Rightarrow> bool" where
  "ap_enc_wf p \<longleftrightarrow>
     mc_wf (m_pEncodeAmc p) \<and> m_unAppedStepSize (m_pEncodeAmc p) = EN_STEP_APPEND_SIZE"

lemma ap_encode_wire:
  assumes "d \<noteq> []"
  shows "ap_encode (int (ap_key_code rnd)) (int (min (length d) 20)) (ap_wire_kb rnd d @ x) d a =
     Some (ae_set_key (ap_wire_key rnd d) 16 a, ap_wire_payload a rnd d)"
proof -
  have "ap_key_code rnd \<noteq> 0" using ap_key_code_bounds [of rnd] by simp
  moreover have "\<not> length d < 1" using assms by (cases d) auto
  ultimately show ?thesis
    using assms by (simp add: ap_encode_def ap_key_wire ap_wire_payload_def Let_def del: of_nat_min)
qed

text \<open>The three copies of \<open>EncodeMsg\<close>: header and key, payload, ciphertext over the payload.\<close>

lemma ap_encode_blits:
  assumes "length h = k" and "length d = n" and "length d' = n" and "k + n \<le> length blk"
  shows "blit blk 0 h k = Some (h @ drop k blk) \<and>
     blit (h @ drop k blk) k d n = Some (h @ d @ drop (k + n) blk) \<and>
     bslice (h @ d @ drop (k + n) blk) k n = Some d \<and>
     blit (h @ d @ drop (k + n) blk) k d' n = Some (h @ d' @ drop (k + n) blk)"
  using assms by (auto simp: blit_def bslice_def add.commute)

lemma ap_encode_msg_ok:
  assumes wf: "ap_enc_wf p" and len: "length d \<le> 7 * 1024 * 1024"
  shows "\<exists>p'. ap_encode_msg (ao_ops bld) rnd d (of_nat (length d)) p =
       Some (Some (ap_wire (m_ae p) rnd d), p') \<and> ap_enc_wf p' \<and>
     same_tables (m_ae p) (m_ae p') \<and> m_pDecodeAmc p' = m_pDecodeAmc p"
proof -
  let ?n = "of_nat (length d) :: u32" and ?m = "min (length d) 20" and ?c0 = "mc_reset (m_pEncodeAmc p)"
  let ?k = "EN_AO_MSG_SIZE + ?m"
  have n: "unat ?n = length d" using len by (simp add: unat_of_nat)
  have kl: "ap_key_len ?n = of_nat ?m"
    using n by (auto simp: ap_key_len_def word_less_nat_alt)
  have m: "unat (of_nat ?m :: u32) = ?m" by (simp add: unat_of_nat)
  have ml: "ap_msg_len ?n = of_nat (length d + 12 + ?m)"
    by (simp add: ap_msg_len_def kl EN_AO_MSG_SIZE_def del: of_nat_min)
  have um: "unat (of_nat (length d + 12 + ?m) :: u32) = length d + 12 + ?m"
    using len by (subst unat_of_nat, subst mod_less) simp_all
  have wf0: "mc_wf ?c0" "m_unCacheOff ?c0 = 0" "m_unAppedStepSize ?c0 = 10240"
    using wf by (simp_all add: ap_enc_wf_def EN_STEP_APPEND_SIZE_def) (simp add: mc_reset_def)
  have pos: "0 < ap_msg_len ?n" unfolding ml word_less_nat_alt um by simp
  obtain c blk where c: "mc_append (ao_ops bld) None (ap_msg_len ?n) ?c0 = Some (True, c)"
    "m_pucCache c = Some blk" "length d + 12 + ?m \<le> length blk" "mc_wf c" "m_unAppedStepSize c = 10240"
  proof -
    have "unat (ap_msg_len ?n) + unat (m_unAppedStepSize ?c0) \<le> 8 * 1024 * 1024"
      using len wf0(3) unfolding ml um by simp
    from ops.mc_reserve_ok [OF wf0(1,2) pos this] wf0(3) show ?thesis
      using that unfolding ml um by auto
  qed
  define hdr where "hdr = ap_wire_head rnd d"
  define r where "r = drop (?k + length d) blk"
  have hl: "length hdr = ?k" by (simp add: hdr_def EN_AO_MSG_SIZE_def)
  have bl: "?k + length d \<le> length blk" using c(3) by (simp add: EN_AO_MSG_SIZE_def)
  note bs = ap_encode_blits [OF hl refl length_ap_wire_payload bl, of "m_ae p" rnd, folded r_def]
  have sm: "sint (of_nat ?m :: u32) = int ?m" by (rule sint_of_nat32) simp
  have d12: "drop EN_AO_MSG_SIZE (hdr @ d @ r) = ap_wire_kb rnd d @ d @ r"
    by (simp add: hdr_def ap_wire_head_def EN_AO_MSG_SIZE_def)
  have hd: "le32 (of_nat (length d + 12 + ?m)) @ le32 (of_nat (ap_key_code rnd)) @ le32 (of_nat ?m) @
      ap_key_buf rnd ?m = hdr"
    by (simp add: hdr_def ap_wire_head_def ap_wire_kb_def)
  obtain a' where enc: "ap_encode (int (ap_key_code rnd)) (int ?m) (ap_wire_kb rnd d @ d @ r) d (m_ae p) =
      Some (a', ap_wire_payload (m_ae p) rnd d)" and st: "same_tables (m_ae p) a'"
  proof (cases "d = []")
    case True
    show ?thesis
      by (rule that [of "m_ae p"]) (simp_all add: True ap_encode_def ap_wire_payload_def same_tables_def)
  next
    case False
    show ?thesis
      by (rule that [OF ap_encode_wire [OF False]]) (simp add: same_tables_def ae_set_key_def)
  qed
  let ?blk = "hdr @ ap_wire_payload (m_ae p) rnd d @ r"
  let ?p' = "p\<lparr>m_pEncodeAmc := c\<lparr>m_pucCache := Some ?blk\<rparr>, m_ae := a'\<rparr>"
  have "take (length d + 12 + ?m) ?blk = ap_wire (m_ae p) rnd d"
    using hl by (simp add: ap_wire_def hdr_def EN_AO_MSG_SIZE_def)
  then have "ap_encode_msg (ao_ops bld) rnd d ?n p = Some (Some (ap_wire (m_ae p) rnd d), ?p')"
    unfolding ap_encode_msg_def Let_def
    by (simp only: c bs kl ml um n m hd d12 sm enc Option.bind.simps prod.case option.case c(1)[unfolded ml])
  moreover have "ap_enc_wf ?p'"
  proof -
    have "length ?blk = length blk" using bl hl by (simp add: r_def)
    with c(2,4,5) show ?thesis by (simp add: ap_enc_wf_def mc_wf_def EN_STEP_APPEND_SIZE_def)
  qed
  ultimately show ?thesis using st by (intro exI [of _ ?p']) simp
qed

section \<open>A whole session\<close>

lemma ao_frame_more: "ao_frame a b = FMore \<Longrightarrow> length b \<le> 1024 * 1024"
  by (auto simp: ao_frame_def EN_MAX_PROTOCOL_LEN_def rd32_None_iff
      split: option.splits if_splits)

interpretation ao_bounded: bounded_stream "ap_wf a" ap_content "ap_append (ao_ops bld)"
    ap_get_content ap_move_next "ao_frame a" ap_room "1024 * 1024" for a bld
  by unfold_locales (rule ao_frame_more)

text \<open>
  A sender works through a list of messages (each with the values of \<open>rand()\<close> during its
  \<open>EncodeMsg\<close>) over a socket that takes what \<open>send\<close> says; the result is the byte stream.
\<close>

fun ap_session ::
    "alloc_ops \<Rightarrow> (bytes \<Rightarrow> int) \<Rightarrow> ((nat \<Rightarrow> nat) \<times> bytes) list \<Rightarrow> ao_protocol \<Rightarrow>
     (bytes \<times> bool \<times> ao_protocol) option" where
  "ap_session mal send [] p = Some ([], True, p)"
| "ap_session mal send ((rnd, d) # ms) p = do {
     (w, ok, p1) \<leftarrow> chan_send_msg (\<lambda>d. ap_encode_msg mal rnd d (of_nat (length d))) send d p;
     (ws, oks, q) \<leftarrow> ap_session mal send ms p1;
     Some (w @ ws, ok \<and> oks, q) }"

lemma chan_send_msg_wire:
  assumes "ap_enc_wf p" and "length d \<le> 7 * 1024 * 1024"
    and "\<And>b. b \<noteq> [] \<Longrightarrow> 1 \<le> send b \<and> send b \<le> int (length b)"
  shows "\<exists>p'. chan_send_msg (\<lambda>d. ap_encode_msg (ao_ops bld) rnd d (of_nat (length d))) send d p =
       Some (ap_wire (m_ae p) rnd d, True, p') \<and> ap_enc_wf p' \<and>
     same_tables (m_ae p) (m_ae p')"
proof -
  obtain p' where p': "ap_encode_msg (ao_ops bld) rnd d (of_nat (length d)) p =
      Some (Some (ap_wire (m_ae p) rnd d), p')" "ap_enc_wf p'" "same_tables (m_ae p) (m_ae p')"
    using ap_encode_msg_ok [OF assms(1,2)] by blast
  have "\<not> length (ap_wire (m_ae p) rnd d) \<ge> 2 ^ 31"
    using assms(2) by (simp add: length_ap_wire)
  then show ?thesis
    using p' chan_send_all [OF assms(3) lessI] by (simp add: chan_send_msg_def)
qed

lemma same_tables_trans: "same_tables a b \<Longrightarrow> same_tables b c \<Longrightarrow> same_tables a c"
  by (simp add: same_tables_def)

lemma inverse_tables_same: "same_tables a b \<Longrightarrow> inverse_tables b = inverse_tables a"
  by (simp add: same_tables_def inverse_tables_def)

lemma ap_session_deframe:
  assumes "\<And>b. b \<noteq> [] \<Longrightarrow> 1 \<le> send b \<and> send b \<le> int (length b)"
    and "inverse_tables a"
  shows "ap_enc_wf p \<Longrightarrow> same_tables a (m_ae p) \<Longrightarrow>
     \<forall>(rnd, d)\<in>set ms. length d + 32 \<le> 1024 * 1024 \<Longrightarrow>
     \<exists>ws q. ap_session (ao_ops bld) send ms p = Some (ws, True, q) \<and>
       deframe (ao_frame a) ws = (map snd ms, [])"
proof (induction ms arbitrary: p)
  case Nil
  have "ao_frame a [] = FMore" by (simp add: ao_frame_def rd32_def)
  then show ?case by (simp add: ao_stream.deframe_stop)
next
  case (Cons m ms)
  obtain rnd d where m: "m = (rnd, d)" by (cases m)
  with Cons.prems(3) have len: "length d + 32 \<le> 1024 * 1024" by simp
  obtain p' where p': "chan_send_msg (\<lambda>d. ap_encode_msg (ao_ops bld) rnd d (of_nat (length d)))
      send d p = Some (ap_wire (m_ae p) rnd d, True, p')" "ap_enc_wf p'" "same_tables (m_ae p) (m_ae p')"
    using chan_send_msg_wire [OF Cons.prems(1) _ assms(1), of d] len by auto
  have st: "same_tables a (m_ae p')"
    using Cons.prems(2) p'(3) by (rule same_tables_trans)
  obtain ws q where q: "ap_session (ao_ops bld) send ms p' = Some (ws, True, q)"
    "deframe (ao_frame a) ws = (map snd ms, [])"
    using Cons.IH [OF p'(2) st] Cons.prems(3) by auto
  have f: "ao_frame a (ap_wire (m_ae p) rnd d @ ws) = FMsg d (length (ap_wire (m_ae p) rnd d))"
    using Cons.prems(2) assms(2) inverse_tables_same len by (intro ao_frame_wire) blast+
  show ?case
    using p'(1) q by (simp add: m ao_stream.deframe_msg [OF f])
qed

lemma ap_new_ok:
  "ap_wf (m_ae (ap_new (ao_ops bld) 10240 a)) (ap_new (ao_ops bld') 10240 a') \<and>
   ap_enc_wf (ap_new (ao_ops bld) 10240 a) \<and> ap_content (ap_new (ao_ops bld) 10240 a) = [] \<and>
   inverse_tables (m_ae (ap_new (ao_ops bld) 10240 a))"
proof -
  have c: "mc_wf (mc_new (ao_ops j) 10240 st) \<and> mc_content (mc_new (ao_ops j) 10240 st) = []" for j st
    by (rule ops.mc_new_wf) simp
  have st: "same_tables (ae_set_key k n (ae_default a)) (ae_default a')" for k n
    using same_tables_default [of a' a] same_tables_set_key [of "ae_default a'" k n "ae_default a"]
    by (blast intro: same_tables_sym)
  have off: "m_unCacheOff (mc_new (ao_ops j) 10240 st) = 0" "m_unAppedStepSize (mc_new (ao_ops j) 10240 st) = st"
    for j st by (simp_all add: mc_new_def)
  show ?thesis
    using c st by (simp add: ap_wf_def ap_enc_wf_def ap_new_def ap_content_def off inverse_tables_default)
qed

text \<open>A message above the receiver's limit is sent, and rejected without being removed.\<close>

lemma ao_frame_oversize:
  assumes "1024 * 1024 < length d + 32" and "length d \<le> 7 * 1024 * 1024"
  shows "ao_frame a (ap_wire a' rnd d @ rest) = FErr"
proof -
  let ?b = "ap_wire a' rnd d @ rest" and ?n = "length d + 12 + min (length d) 20"
  have b: "?b = le32 (of_nat ?n) @ le32 (of_nat (ap_key_code rnd)) @ le32 (of_nat (min (length d) 20)) @
      ap_wire_kb rnd d @ ap_wire_payload a' rnd d @ rest"
    by (simp add: ap_wire_def ap_wire_head_def)
  have h: "rd32 ?b 0 = Some (of_nat ?n)" "rd32 ?b 4 = Some (of_nat (ap_key_code rnd))"
    "rd32 ?b 8 = Some (of_nat (min (length d) 20))"
    unfolding b by (simp_all only: rd32_le32_0 rd32_skip length_le32) (simp_all add: buf_simps)
  have "sint (of_nat ?n :: u32) = int ?n"
    by (rule sint_of_nat32) (use assms(2) in simp)
  then have "EN_MAX_PROTOCOL_LEN < sint (of_nat ?n :: u32)"
    using assms(1) by (simp add: EN_MAX_PROTOCOL_LEN_def)
  then show ?thesis unfolding ao_frame_hdr [OF h] by simp
qed

text \<open>A header that claims to be empty: \<open>GetContent\<close> answers and \<open>MoveNext\<close> does not move.\<close>

lemma chan_drain_stuck:
  assumes "get p = GcMsg d p" and "nxt p = Some p"
  shows "chan_drain get nxt p = None"
proof (cases "chan_drain get nxt p")
  case (Some r)
  have "chan_drain get nxt p = chan_drain get nxt p \<bind> (\<lambda>(ms, q). Some (d # ms, q))"
    by (subst (1) chan_drain.simps) (simp only: assms get_result.case Option.bind.simps)
  with Some have "fst r = d # fst r" by (cases r) simp
  then show ?thesis by simp
qed

lemma ap_stuck:
  assumes wf: "ap_wf a p" and b: "ap_content p = le32 0 @ le32 kc @ le32 (- 12) @ r"
  shows "ap_get_content p = GcMsg [] p \<and> ap_move_next p = Some p"
proof -
  have "12 \<le> length (ap_content p)" by (simp add: b)
  from ap_header [OF wf this] obtain blk dl kc' kl r' where
    h: "m_pucCache (m_pDecodeAmc p) = Some blk"
    "rd32 blk 0 = Some dl" "rd32 blk 4 = Some kc'" "rd32 blk 8 = Some kl"
    "rd32 (ap_content p) 0 = Some dl" "rd32 (ap_content p) 8 = Some kl"
    "\<not> m_unCacheOff (m_pDecodeAmc p) < 12"
    "sint (m_unCacheOff (m_pDecodeAmc p)) = int (length (ap_content p))" by metis
  have v: "dl = 0" "kl = - 12"
    using h(5,6) unfolding b by (simp_all add: buf_simps)
  have s: "sint (- 12 :: u32) = - 12" "sint (0 :: u32) = 0" by simp_all
  have cs: "\<not> EN_MAX_PROTOCOL_LEN < 0" "\<not> (- 12 + 12 :: int) \<ge> 2 ^ 31" "\<not> (0 :: int) < - 12 + 12"
    "\<not> (0 :: int) > int (length (ap_content p))" "\<not> 12 + (- 12) < (0 :: int)"
    by (simp_all add: EN_MAX_PROTOCOL_LEN_def)
  have z: "nat (12 + - 12) = 0" "nat (0 - 12 - (- 12)) = 0" by simp_all
  have e: "bslice blk 0 0 = Some []" "blit blk 0 [] 0 = Some blk"
    "ap_decode k l kb [] (m_ae p) = Some (m_ae p, [])" for k l kb
    by (simp_all add: bslice_def blit_def ap_decode_def)
  have same: "p\<lparr>m_pDecodeAmc := (m_pDecodeAmc p)\<lparr>m_pucCache := Some blk\<rparr>, m_ae := m_ae p\<rparr> = p"
  proof -
    have "(m_pDecodeAmc p)\<lparr>m_pucCache := Some blk\<rparr> = m_pDecodeAmc p"
      using h(1) by (simp add: mem_cache.equality)
    then show ?thesis by (simp add: ao_protocol.equality)
  qed
  have get: "ap_get_content p = GcMsg [] p"
    using h(7) unfolding ap_get_content_def EN_AO_MSG_SIZE_def Let_def
    by (simp only: h v s cs z e same of_nat_numeral option.case prod.case if_False)
  have "unat (m_unCacheOff (m_pDecodeAmc p)) \<le> length blk" "0 < m_unCacheOff (m_pDecodeAmc p)"
    using wf h(1,7) by (auto simp: ap_wf_def mc_wf_def word_le_nat_alt word_less_nat_alt)
  then have "mc_remove 0 0 (m_pDecodeAmc p) = Some (m_pDecodeAmc p)"
    using h(1) copy_up_shift [of 0 0 "unat (m_unCacheOff (m_pDecodeAmc p))" blk]
    by (simp add: mc_remove_def)
  with get h(1,2) show ?thesis by (simp add: ap_move_next_def v)
qed

section \<open>Properties\<close>









end
