(* ===== verification/Ao_DBAProtocol.thy ===== *)
theory Ao_DBAProtocol
  imports Ao_CommuProtocol
begin

text \<open>
  The second wire protocol (\<open>util/DBACommuProtocol.cpp\<close>, class \<open>CDBACommuProtocol\<close>, a subclass of
  \<open>CAoCommuProtocol\<close> that overrides \<open>GetContent\<close>, \<open>MoveNext\<close> and \<open>EncodeMsg\<close>): messages carry
  their own packed 13-byte \<open>MSG_HEAD\<close> with the length of the rest, and are passed on whole and
  unenciphered. A second interpretation of the channel's interface.
\<close>

section \<open>Operations\<close>

definition EN_MSG_HEAD_SIZE :: nat where "EN_MSG_HEAD_SIZE = 13"

text \<open>\<open>unLen\<close> is at offset 4 of the packed header; the sum with the header size wraps.\<close>

definition dba_len :: "bytes \<Rightarrow> u32 option" where
  "dba_len b = map_option (\<lambda>unLen. unLen + of_nat EN_MSG_HEAD_SIZE) (rd32 b 4)"

definition dba_get_content :: "ao_protocol \<Rightarrow> ao_protocol get_result" where
  "dba_get_content p =
     (let c = m_pDecodeAmc p in
      if m_unCacheOff c < of_nat EN_MSG_HEAD_SIZE then GcNull False
      else (case m_pucCache c of
        None \<Rightarrow> GcFault
      | Some blk \<Rightarrow>
          (case dba_len blk of
             None \<Rightarrow> GcFault
           | Some n \<Rightarrow>
               if n > m_unCacheOff c then GcNull False
               else (case bslice blk 0 (unat n) of None \<Rightarrow> GcFault | Some d \<Rightarrow> GcMsg d p))))"

definition dba_move_next :: "ao_protocol \<Rightarrow> ao_protocol option" where
  "dba_move_next p = do {
     blk \<leftarrow> m_pucCache (m_pDecodeAmc p);
     n \<leftarrow> dba_len blk;
     c \<leftarrow> mc_remove 0 n (m_pDecodeAmc p);
     Some (p\<lparr>m_pDecodeAmc := c\<rparr>) }"

text \<open>\<open>EncodeMsg\<close> copies; the result of \<open>AppendBuf\<close> is not looked at.\<close>

definition dba_encode_msg ::
    "alloc_ops \<Rightarrow> bytes \<Rightarrow> u32 \<Rightarrow> ao_protocol \<Rightarrow> (bytes option \<times> ao_protocol) option" where
  "dba_encode_msg mal pucData unDataLen p = do {
     (ok, c) \<leftarrow> mc_append mal (Some pucData) unDataLen (mc_reset (m_pEncodeAmc p));
     (case m_pucCache c of
        None \<Rightarrow> Some (None, p\<lparr>m_pEncodeAmc := c\<rparr>)
      | Some blk \<Rightarrow> do {
          out \<leftarrow> bslice blk 0 (unat unDataLen);
          Some (Some out, p\<lparr>m_pEncodeAmc := c\<rparr>) }) }"

section \<open>The frame recogniser and the channel's interface\<close>

definition dba_frame :: "bytes \<Rightarrow> frame" where
  "dba_frame b =
     (if length b < EN_MSG_HEAD_SIZE then FMore
      else (case dba_len b of
        None \<Rightarrow> FMore
      | Some n \<Rightarrow>
          if unat n > length b then FMore
          else if n = 0 then FOdd
          else FMsg (take (unat n) b) (unat n)))"

definition dba_wf :: "ao_protocol \<Rightarrow> bool" where
  "dba_wf p \<longleftrightarrow>
     mc_wf (m_pDecodeAmc p) \<and> m_unAppedStepSize (m_pDecodeAmc p) = EN_STEP_APPEND_SIZE \<and>
     unat (m_unCacheOff (m_pDecodeAmc p)) < 2 ^ 31"

lemma dba_wf_ap: "dba_wf p = ap_wf (m_ae p) p"
  by (simp add: dba_wf_def ap_wf_def same_tables_def)

lemma dba_append_ok:
  assumes "dba_wf p" and "length (ap_content p) + length d \<le> ap_room"
  shows "\<exists>p'. ap_append (ao_ops bld) d p = Some (True, p') \<and> dba_wf p' \<and> ap_content p' = ap_content p @ d"
  using ap_append_ok [of "m_ae p" p d bld] assms unfolding dba_wf_ap
  by (auto simp: ap_wf_def same_tables_def)

lemma dba_len_append: "13 \<le> length b \<Longrightarrow> dba_len (b @ c) = dba_len b"
  by (simp add: dba_len_def rd32_append1)

lemma dba_block:
  assumes "dba_wf p" and "13 \<le> length (ap_content p)"
  obtains blk r where "m_pucCache (m_pDecodeAmc p) = Some blk" "blk = ap_content p @ r"
    "dba_len blk = dba_len (ap_content p)"
proof -
  obtain blk where blk: "m_pucCache (m_pDecodeAmc p) = Some blk"
    using assms(2) by (cases "m_pucCache (m_pDecodeAmc p)") (auto simp: ap_content_def mc_content_def)
  let ?r = "drop (unat (m_unCacheOff (m_pDecodeAmc p))) blk"
  have b: "blk = ap_content p @ ?r" using blk by (simp add: ap_content_def mc_content_def)
  moreover have "dba_len (ap_content p @ ?r) = dba_len (ap_content p)"
    by (rule dba_len_append [OF assms(2)])
  ultimately show ?thesis using that blk by metis
qed

lemma dba_off: "dba_wf p \<Longrightarrow> unat (m_unCacheOff (m_pDecodeAmc p)) = length (ap_content p)"
  by (simp add: dba_wf_def ap_content_def mc_content_length)

lemma dba_get_more:
  assumes "dba_wf p" and "dba_frame (ap_content p) = FMore"
  shows "dba_get_content p = GcNull False"
proof (cases "13 \<le> length (ap_content p)")
  case False
  then show ?thesis
    using dba_off [OF assms(1)] by (simp add: dba_get_content_def EN_MSG_HEAD_SIZE_def word_less_nat_alt)
next
  case True
  obtain n where n: "dba_len (ap_content p) = Some n" "unat n > length (ap_content p)"
    using assms(2) True
    by (auto simp: dba_frame_def EN_MSG_HEAD_SIZE_def dba_len_def rd32_def split: if_splits)
  obtain blk r where "m_pucCache (m_pDecodeAmc p) = Some blk" "dba_len blk = Some n"
    using dba_block [OF assms(1) True] n(1) by metis
  with True n(2) dba_off [OF assms(1)] show ?thesis
    by (simp add: dba_get_content_def EN_MSG_HEAD_SIZE_def word_less_nat_alt)
qed

lemma dba_get_msg:
  assumes wf: "dba_wf p" and fr: "dba_frame (ap_content p) = FMsg d n"
  shows "\<exists>p1 p2. dba_get_content p = GcMsg d p1 \<and> dba_move_next p1 = Some p2 \<and> dba_wf p2 \<and>
     ap_content p2 = drop n (ap_content p)"
proof -
  let ?b = "ap_content p" and ?c = "m_pDecodeAmc p"
  have l: "13 \<le> length ?b"
    using fr by (auto simp: dba_frame_def EN_MSG_HEAD_SIZE_def split: if_splits)
  obtain w where w: "dba_len ?b = Some w" "unat w \<le> length ?b" "d = take (unat w) ?b" "n = unat w"
  proof (cases "dba_len ?b")
    case None
    then show ?thesis using fr l by (simp add: dba_frame_def EN_MSG_HEAD_SIZE_def)
  next
    case (Some w)
    then have "(if unat w > length ?b then FMore else if w = 0 then FOdd
        else FMsg (take (unat w) ?b) (unat w)) = FMsg d n"
      using fr l by (simp add: dba_frame_def EN_MSG_HEAD_SIZE_def)
    then have "unat w \<le> length ?b" "d = take (unat w) ?b" "n = unat w"
      by (metis frame.distinct frame.inject leI)+
    with Some that show ?thesis by blast
  qed
  obtain blk r where blk: "m_pucCache ?c = Some blk" "blk = ?b @ r" "dba_len blk = dba_len ?b"
    by (rule dba_block [OF wf l])
  note blk = blk(1,2) blk(3) [unfolded w(1)]
  note off = dba_off [OF wf]
  have "\<not> m_unCacheOff ?c < of_nat EN_MSG_HEAD_SIZE" "\<not> w > m_unCacheOff ?c"
    using l w(2) off by (simp_all add: EN_MSG_HEAD_SIZE_def word_less_nat_alt)
  moreover have "bslice blk 0 (unat w) = Some d"
    using w(2,3) blk(2) by (simp add: bslice_def)
  ultimately have get: "dba_get_content p = GcMsg d p"
    using blk(1,3) by (simp add: dba_get_content_def)
  have wfc: "mc_wf ?c" and nl: "n \<le> unat (m_unCacheOff ?c)" and nw: "of_nat n = w"
    using wf w(2,4) off by (simp_all add: dba_wf_def)
  obtain c' where c': "mc_remove 0 w ?c = Some c'" "mc_wf c'"
    "mc_content c' = drop n (mc_content ?c)" "m_unAppedStepSize c' = m_unAppedStepSize ?c"
    using mc_remove_ok [OF wfc nl] unfolding nw by blast
  then have mv: "dba_move_next p = Some (p\<lparr>m_pDecodeAmc := c'\<rparr>)"
    using blk(1,3) by (simp add: dba_move_next_def)
  have "unat (m_unCacheOff c') < 2 ^ 31"
    using mc_content_length [OF c'(2)] c'(3) mc_content_length [of ?c] wf
    by (intro le_less_trans [of "unat (m_unCacheOff c')" "unat (m_unCacheOff ?c)" "2 ^ 31"])
       (auto simp: dba_wf_def)
  with get mv c' wf show ?thesis by (auto simp: dba_wf_def ap_content_def)
qed

lemma dba_frame_len: "dba_frame b = FMsg d n \<Longrightarrow> 0 < n \<and> n \<le> length b"
  by (auto simp: dba_frame_def unat_gt_0 split: if_splits option.splits)

lemma dba_frame_grow: "dba_frame b \<noteq> FMore \<Longrightarrow> dba_frame (b @ c) = dba_frame b"
  by (auto simp: dba_frame_def EN_MSG_HEAD_SIZE_def dba_len_append split: if_splits option.splits)

lemma dba_frame_no_err: "dba_frame b \<noteq> FErr"
  by (auto simp: dba_frame_def split: option.splits)

interpretation dba_stream: stream_protocol dba_wf ap_content "ap_append (ao_ops bld)"
    dba_get_content dba_move_next dba_frame ap_room for bld
proof unfold_locales
  show "\<exists>p1 p2. dba_get_content p = GcMsg d p1 \<and> dba_move_next p1 = Some p2 \<and> dba_wf p2 \<and>
      ap_content p2 = drop n (ap_content p)"
    if "dba_wf p" "dba_frame (ap_content p) = FMsg d n" for p d n
    using that by (rule dba_get_msg)
qed (auto intro: dba_append_ok dba_get_more dba_frame_grow dest: dba_frame_len simp: dba_frame_no_err)

section \<open>Messages\<close>

text \<open>A message of this protocol: a header whose length field counts the bytes after it.\<close>

definition dba_msg :: "bytes \<Rightarrow> bool" where
  "dba_msg d \<longleftrightarrow> 13 \<le> length d \<and> length d < 2 ^ 32 \<and> rd32 d 4 = Some (of_nat (length d - 13))"

lemma dba_frame_msg: "dba_msg d \<Longrightarrow> dba_frame (d @ r) = FMsg d (length d)"
proof -
  assume d: "dba_msg d"
  then have l: "13 \<le> length d" "length d < 2 ^ 32" and r: "rd32 d 4 = Some (of_nat (length d - 13))"
    by (simp_all add: dba_msg_def)
  have u: "(of_nat (length d - 13) + 13 :: u32) = of_nat (length d)"
    using l(1) by (metis of_nat_add of_nat_numeral le_add_diff_inverse2)
  have ul: "unat (of_nat (length d) :: u32) = length d" using l(2) by (simp add: unat_of_nat)
  then have "(of_nat (length d) :: u32) \<noteq> 0" using l(1) by (metis not_numeral_le_zero unat_0)
  moreover have "dba_len (d @ r) = Some (of_nat (length d))"
    using l(1) r u by (simp add: dba_len_def EN_MSG_HEAD_SIZE_def rd32_append1)
  ultimately show ?thesis using l(1) ul by (simp add: dba_frame_def EN_MSG_HEAD_SIZE_def)
qed

lemma dba_deframe: "\<forall>d\<in>set ms. dba_msg d \<Longrightarrow> deframe dba_frame (concat ms) = (ms, [])"
proof (induction ms)
  case Nil
  have "dba_frame [] = FMore" by (simp add: dba_frame_def EN_MSG_HEAD_SIZE_def)
  then show ?case by (simp add: dba_stream.deframe_stop)
next
  case (Cons d ms)
  then have "dba_frame (d @ concat ms) = FMsg d (length d)" by (intro dba_frame_msg) simp
  with Cons show ?case by (simp add: dba_stream.deframe_msg)
qed

lemma dba_encode_ok:
  assumes "ap_enc_wf p" and "length d \<le> 7 * 1024 * 1024" and "d \<noteq> []"
  shows "\<exists>p'. dba_encode_msg (ao_ops bld) d (of_nat (length d)) p = Some (Some d, p') \<and> ap_enc_wf p'"
proof -
  let ?c0 = "mc_reset (m_pEncodeAmc p)"
  have wf0: "mc_wf ?c0" "m_unAppedStepSize ?c0 = 10240" "m_unCacheOff ?c0 = 0"
    using assms(1) by (simp_all add: ap_enc_wf_def EN_STEP_APPEND_SIZE_def) (simp add: mc_reset_def)
  have "unat (m_unCacheOff ?c0) + length d + unat (m_unAppedStepSize ?c0) \<le> 8 * 1024 * 1024"
    using assms(2) wf0 by simp
  from ops.mc_append_ok [OF wf0(1) this] obtain c where
    c: "mc_append (ao_ops bld) (Some d) (of_nat (length d)) ?c0 = Some (True, c)" "mc_wf c"
      "mc_content c = d" "m_unAppedStepSize c = 10240"
    using wf0 by auto
  have l: "unat (of_nat (length d) :: u32) = length d" using assms(2) by (simp add: unat_of_nat)
  have off: "unat (m_unCacheOff c) = length d" using mc_content_length [OF c(2)] c(3) by simp
  obtain blk where blk: "m_pucCache c = Some blk" "take (length d) blk = d"
    using c(3) assms(3) off by (auto simp: mc_content_def split: option.splits)
  have "length (take (length d) blk) = length d" by (simp only: blk(2))
  then have "length d \<le> length blk" by (simp only: length_take min_def split: if_splits)
  then have "bslice blk 0 (length d) = Some d" using blk(2) by (simp add: bslice_def)
  with c(1) blk(1) l have "dba_encode_msg (ao_ops bld) d (of_nat (length d)) p =
      Some (Some d, p\<lparr>m_pEncodeAmc := c\<rparr>)"
    unfolding dba_encode_msg_def by simp
  with c(2,4) show ?thesis by (auto simp: ap_enc_wf_def EN_STEP_APPEND_SIZE_def)
qed

section \<open>Properties\<close>


lemma dba_new_ok: "dba_wf (ap_new (ao_ops bld) 10240 a) \<and> ap_content (ap_new (ao_ops bld) 10240 a) = [] \<and>
    ap_enc_wf (ap_new (ao_ops bld) 10240 a)"
  using ap_new_ok [of bld a bld a] by (simp add: dba_wf_ap)


text \<open>The length check wraps. A header whose length field is \<open>2 ^ 32 - 13\<close> makes the total 0: the
  message is accepted as empty, nothing is removed, and the read never returns.\<close>

theorem dba_wrap_hangs_reader:
  assumes "dba_wf p" and "ap_content p = []" and "length h = 13" and "rd32 h 4 = Some (- 13)"
    and "13 + length r \<le> ap_room"
  shows "chan_read_data (ap_append (ao_ops bld)) dba_get_content dba_move_next
     (Some (int (13 + length r), h @ r)) p = None"
proof -
  obtain p1 where p1: "ap_append (ao_ops bld) (h @ r) p = Some (True, p1)" "dba_wf p1" "ap_content p1 = h @ r"
    using dba_append_ok [OF assms(1), of "h @ r" bld] assms(2,3,5) by auto
  have l: "13 \<le> length (ap_content p1)" using p1(3) assms(3) by simp
  have w: "dba_len (ap_content p1) = Some 0"
    using p1(3) assms(3,4) by (simp add: dba_len_append) (simp add: dba_len_def EN_MSG_HEAD_SIZE_def)
  obtain blk r' where blk: "m_pucCache (m_pDecodeAmc p1) = Some blk" "dba_len blk = Some 0"
    using dba_block [OF p1(2) l] w by metis
  have o: "\<not> m_unCacheOff (m_pDecodeAmc p1) < of_nat EN_MSG_HEAD_SIZE"
    using l dba_off [OF p1(2)] by (simp add: EN_MSG_HEAD_SIZE_def word_less_nat_alt)
  have get: "dba_get_content p1 = GcMsg [] p1"
    using blk o by (simp add: dba_get_content_def bslice_def)
  have "unat (m_unCacheOff (m_pDecodeAmc p1)) \<le> length blk" "0 < m_unCacheOff (m_pDecodeAmc p1)"
    using p1(2) blk(1) l dba_off [OF p1(2)]
    by (auto simp: dba_wf_def mc_wf_def word_le_nat_alt word_less_nat_alt)
  then have "mc_remove 0 0 (m_pDecodeAmc p1) = Some (m_pDecodeAmc p1)"
    using blk(1) copy_up_shift [of 0 0 "unat (m_unCacheOff (m_pDecodeAmc p1))" blk]
    by (simp add: mc_remove_def)
  with blk have "dba_move_next p1 = Some p1" by (simp add: dba_move_next_def)
  with get p1(1) show ?thesis by (simp add: chan_read_data_def chan_drain_stuck)
qed

theorem dba_wrap_hangs_reader_witness:
  "chan_read_data (ap_append (ao_ops (MEM_CACHE 0))) dba_get_content dba_move_next
     (Some (14, [1, 0, 0, 0, 0xF3, 0xFF, 0xFF, 0xFF, 0, 0, 0, 0, 0] @ [7]))
     (ap_new (ao_ops (MEM_CACHE 0)) 10240
        \<lparr>m_pucEnSkDict = \<lambda>_. 0, m_pucDeSkDict = \<lambda>_. 0, m_pucKey = \<lambda>_. 0\<rparr>) = None"
proof -
  let ?p = "ap_new (ao_ops (MEM_CACHE 0)) 10240
      \<lparr>m_pucEnSkDict = \<lambda>_. 0, m_pucDeSkDict = \<lambda>_. 0, m_pucKey = \<lambda>_. 0\<rparr>"
  have p: "dba_wf ?p" "ap_content ?p = []" using dba_new_ok by blast+
  have h: "rd32 [1, 0, 0, 0, 0xF3, 0xFF, 0xFF, 0xFF, 0, 0, 0, 0, 0] 4 = Some (- 13)"
    by (simp add: rd32_def un_le32_def)
  show ?thesis
    using dba_wrap_hangs_reader [OF p _ h, of "[7]" "MEM_CACHE 0"] by (simp add: ap_room_def)
qed

end
