(* ===== verification/Ao_ModuleData.thy ===== *)
theory Ao_ModuleData
  imports Ao_MemoryMgr
begin

text \<open>
  The message buffer of a module (\<open>util/ModuleData.cpp\<close>, class \<open>CModuleData\<close>) and the messages
  that go into it: an \<open>MT_MSG_HEAD\<close> (\<open>util/AoDef.h\<close>) followed by its payload. Sizes and layouts are
  those of the 32-bit build: pointers are four bytes and the header has no padding.
\<close>

section \<open>The buffer\<close>

record module_data =
  m_pucData :: "bytes option"
  m_unCapacity :: u32
  m_unLen :: u32

definition md_new :: module_data where
  "md_new = \<lparr>m_pucData = None, m_unCapacity = 0, m_unLen = 0\<rparr>"

text \<open>A failed \<open>MALLOC\<close> leaves the old capacity next to a null pointer.\<close>

definition md_malloc :: "alloc_ops \<Rightarrow> u32 \<Rightarrow> module_data \<Rightarrow> (bool \<times> module_data) option" where
  "md_malloc mal unSize d =
     (if unSize \<le> m_unCapacity d
      then (case m_pucData d of
              None \<Rightarrow> if m_unCapacity d = 0 then Some (True, d) else None
            | Some b \<Rightarrow> if unat (m_unCapacity d) \<le> length b
                then Some (True, d\<lparr>m_pucData := Some (replicate (unat (m_unCapacity d)) 0 @
                       drop (unat (m_unCapacity d)) b)\<rparr>)
                else None)
      else (case op_malloc mal (unat unSize) of
              None \<Rightarrow> Some (False, d\<lparr>m_pucData := None\<rparr>)
            | Some b \<Rightarrow> if unat unSize \<le> length b
                then Some (True, d\<lparr>m_pucData := Some (replicate (unat unSize) 0 @ drop (unat unSize) b),
                                   m_unCapacity := unSize\<rparr>)
                else None))"

definition md_append :: "bytes \<Rightarrow> u32 \<Rightarrow> module_data \<Rightarrow> (bool \<times> module_data) option" where
  "md_append pucData unLen d =
     (if unLen + m_unLen d > m_unCapacity d then Some (False, d)
      else do {
        b \<leftarrow> m_pucData d;
        b' \<leftarrow> blit b (unat (m_unLen d)) pucData (unat unLen);
        Some (True, d\<lparr>m_pucData := Some b', m_unLen := m_unLen d + unLen\<rparr>) })"

definition md_reset :: "module_data \<Rightarrow> module_data" where
  "md_reset d = d\<lparr>m_unLen := 0\<rparr>"

definition md_wf :: "module_data \<Rightarrow> bool" where
  "md_wf d \<longleftrightarrow> (\<exists>b. m_pucData d = Some b \<and> unat (m_unCapacity d) \<le> length b) \<and>
     m_unLen d \<le> m_unCapacity d \<and> unat (m_unCapacity d) < 2 ^ 31"

definition md_bytes :: "module_data \<Rightarrow> bytes" where
  "md_bytes d = (case m_pucData d of None \<Rightarrow> [] | Some b \<Rightarrow> take (unat (m_unLen d)) b)"

lemma md_bytes_length: "md_wf d \<Longrightarrow> length (md_bytes d) = unat (m_unLen d)"
  by (auto simp: md_wf_def md_bytes_def word_le_nat_alt)

lemma md_reset_wf [simp]: "md_wf d \<Longrightarrow> md_wf (md_reset d)"
  by (auto simp: md_wf_def md_reset_def)

lemma md_reset_simps [simp]:
  "m_unLen (md_reset d) = 0" "m_unCapacity (md_reset d) = m_unCapacity d"
  by (simp_all add: md_reset_def)

lemma md_append_fits:
  assumes "md_wf d" and "unat (m_unLen d) + length x \<le> unat (m_unCapacity d)"
  shows "\<exists>d'. md_append x (of_nat (length x)) d = Some (True, d') \<and> md_wf d' \<and>
     md_bytes d' = md_bytes d @ x \<and> m_unCapacity d' = m_unCapacity d \<and>
     unat (m_unLen d') = unat (m_unLen d) + length x"
proof -
  obtain b where b: "m_pucData d = Some b" "unat (m_unCapacity d) \<le> length b" "m_unLen d \<le> m_unCapacity d"
    "unat (m_unCapacity d) < 2 ^ 31"
    using assms(1) unfolding md_wf_def by blast
  have n: "unat (of_nat (length x) :: u32) = length x"
    using assms(2) b(4) by (simp add: unat_of_nat)
  have s: "unat (of_nat (length x) + m_unLen d) = length x + unat (m_unLen d)"
    by (subst unat_plus_no_wrap) (use n assms(2) b(4) in simp_all)
  let ?b = "take (unat (m_unLen d)) b @ x @ drop (unat (m_unLen d) + length x) b"
  have bl: "blit b (unat (m_unLen d)) x (length x) = Some ?b"
    using assms(2) b(2) by (simp add: blit_def)
  have "\<not> of_nat (length x) + m_unLen d > m_unCapacity d"
    using s assms(2) by (simp add: word_less_nat_alt add.commute)
  then have a: "md_append x (of_nat (length x)) d =
      Some (True, d\<lparr>m_pucData := Some ?b, m_unLen := m_unLen d + of_nat (length x)\<rparr>)"
    using b(1) bl n by (simp add: md_append_def)
  have "length ?b = length b" using assms(2) b(2) by simp
  moreover have s': "unat (m_unLen d + of_nat (length x)) = unat (m_unLen d) + length x"
    using s by (simp add: add.commute)
  moreover have "md_bytes d = take (unat (m_unLen d)) b" by (simp add: md_bytes_def b(1))
  moreover have "unat (m_unLen d) \<le> length b" using assms(2) b(2) by simp
  ultimately show ?thesis
    using a b assms(2) by (cases x) (auto simp: md_wf_def md_bytes_def word_le_nat_alt min_def)
qed

lemma md_append_full:
  assumes "md_wf d" and "unat (m_unLen d) + unat n > unat (m_unCapacity d)"
    and "unat (m_unLen d) + unat n < 2 ^ 32"
  shows "md_append x n d = Some (False, d)"
proof -
  have "unat (n + m_unLen d) = unat n + unat (m_unLen d)"
    by (subst unat_plus_no_wrap) (use assms(3) in simp_all)
  then have "n + m_unLen d > m_unCapacity d" using assms(2) by (simp add: word_less_nat_alt)
  then show ?thesis by (simp add: md_append_def)
qed

section \<open>Messages\<close>

definition EN_MT_MSG_HEAD_SIZE :: nat where "EN_MT_MSG_HEAD_SIZE = 20"

record mt_msg_head =
  unSMI :: u32
  unMsgCode :: u32
  unDataLen :: u32
  pRecver :: u32
  pSender :: u32

definition mt_enc :: "mt_msg_head \<Rightarrow> bytes" where
  "mt_enc h = le32 (unSMI h) @ le32 (unMsgCode h) @ le32 (unDataLen h) @ le32 (pRecver h) @
     le32 (pSender h)"

definition mt_dec :: "bytes \<Rightarrow> nat \<Rightarrow> mt_msg_head option" where
  "mt_dec b off = do {
     s \<leftarrow> rd32 b off; c \<leftarrow> rd32 b (off + 4); l \<leftarrow> rd32 b (off + 8); r \<leftarrow> rd32 b (off + 12);
     p \<leftarrow> rd32 b (off + 16);
     Some \<lparr>unSMI = s, unMsgCode = c, unDataLen = l, pRecver = r, pSender = p\<rparr> }"

lemma length_mt_enc [simp]: "length (mt_enc h) = 20"
  by (simp add: mt_enc_def)

lemma mt_dec_enc: "length a = off \<Longrightarrow> mt_dec (a @ mt_enc h @ r) off = Some h"
  by (simp add: mt_dec_def mt_enc_def rd32_skip rd32_le32_0)

text \<open>A message as it lies in the buffer: the header and the bytes after it.\<close>

type_synonym mt_msg = "mt_msg_head \<times> bytes"

definition mt_bytes :: "mt_msg \<Rightarrow> bytes" where
  "mt_bytes m = mt_enc (fst m) @ snd m"

definition mt_ok :: "mt_msg \<Rightarrow> bool" where
  "mt_ok m \<longleftrightarrow> length (snd m) < 2 ^ 31 \<and> unDataLen (fst m) = of_nat (length (snd m))"

lemma length_mt_bytes [simp]: "length (mt_bytes m) = 20 + length (snd m)"
  by (simp add: mt_bytes_def)

end
