(* ===== verification/Ao_Module.thy ===== *)
theory Ao_Module
  imports Ao_ModuleData
begin

text \<open>
  Modules and their mailboxes (\<open>util/Module.cpp\<close>, \<open>util/MsgTarget.cpp\<close>): any thread posts messages
  into the product buffer of a module; the module's own thread swaps the two buffers, walks the
  messages of the one it took, dispatches each to the handler its message map names, and then runs
  the timers. Objects are addresses; \<open>oid\<close> gives the identifier an object answers to \<open>ID()\<close>.
  A post and a swap hold the module's lock, so the steps of the model are whole calls.
\<close>

section \<open>State\<close>

definition EN_AO_MSG_SETTIMER :: u32 where "EN_AO_MSG_SETTIMER = 10"
definition EN_AO_MSG_KILLTIMER :: u32 where "EN_AO_MSG_KILLTIMER = 11"
definition EN_AO_MSG_ONTIMER :: u32 where "EN_AO_MSG_ONTIMER = 12"
definition EN_AO_MSG_STOP :: u32 where "EN_AO_MSG_STOP = 13"
definition EN_AO_MSG_BIT :: u32 where "EN_AO_MSG_BIT = 14"
definition EN_AO_MSG_EXIT :: u32 where "EN_AO_MSG_EXIT = 16"

lemmas ao_msg_defs = EN_AO_MSG_SETTIMER_def EN_AO_MSG_KILLTIMER_def EN_AO_MSG_ONTIMER_def
  EN_AO_MSG_STOP_def EN_AO_MSG_BIT_def EN_AO_MSG_EXIT_def

definition EN_MSG_TIMER_SIZE :: nat where "EN_MSG_TIMER_SIZE = 20"

record msg_timer =
  unTimerId :: u32
  unEscape :: u32
  unTime :: u32
  unTimes :: u32
  tm_pMT :: u32

record ao_module =
  m_this :: u32
  m_pCusMD :: module_data
  m_pProductMD :: module_data
  m_bRun :: bool
  m_lstMT :: "msg_timer list"
  m_mapMT :: "u32 \<Rightarrow> u32 option"

definition timer_enc :: "msg_timer \<Rightarrow> bytes" where
  "timer_enc t = le32 (unTimerId t) @ le32 (unEscape t) @ le32 (unTime t) @ le32 (unTimes t) @
     le32 (tm_pMT t)"

definition timer_dec :: "bytes \<Rightarrow> msg_timer option" where
  "timer_dec b = do {
     i \<leftarrow> rd32 b 0; e \<leftarrow> rd32 b 4; t \<leftarrow> rd32 b 8; n \<leftarrow> rd32 b 12; p \<leftarrow> rd32 b 16;
     Some \<lparr>unTimerId = i, unEscape = e, unTime = t, unTimes = n, tm_pMT = p\<rparr> }"

lemma length_timer_enc [simp]: "length (timer_enc t) = 20"
  by (simp add: timer_enc_def)

lemma timer_dec_enc [simp]: "timer_dec (timer_enc t) = Some t"
  using rd32_le32_nil [of "tm_pMT t"]
  by (simp add: timer_dec_def timer_enc_def rd32_skip rd32_le32_0)

section \<open>Construction and posting\<close>

definition mod_new :: "alloc_ops \<Rightarrow> u32 \<Rightarrow> u32 \<Rightarrow> u32 \<Rightarrow> ao_module option" where
  "mod_new mal this unMID unInitLen = do {
     (_, c) \<leftarrow> md_malloc mal unInitLen md_new;
     (_, p) \<leftarrow> md_malloc mal unInitLen md_new;
     Some \<lparr>m_this = this, m_pCusMD = c, m_pProductMD = p, m_bRun = True, m_lstMT = [],
           m_mapMT = [unMID \<mapsto> this]\<rparr> }"

text \<open>
  \<open>PostMsg\<close>: the header first, then the payload when there is one. A null receiver is the module
  itself. The result is the returned flag; a fault of the copy is \<^term>\<open>None\<close>.
\<close>

definition mod_post ::
    "u32 \<Rightarrow> bytes option \<Rightarrow> u32 \<Rightarrow> u32 \<Rightarrow> u32 \<Rightarrow> u32 \<Rightarrow> ao_module \<Rightarrow> (bool \<times> ao_module) option" where
  "mod_post unMsgCode' pucData unLen pRecver' pSender' unSMI' m =
     (let mmh = \<lparr>unSMI = unSMI', unMsgCode = unMsgCode', unDataLen = unLen,
                 pRecver = (if pRecver' = 0 then m_this m else pRecver'), pSender = pSender'\<rparr> in
      if \<not> m_bRun m then Some (False, m)
      else do {
        (ok, d) \<leftarrow> md_append (mt_enc mmh) (of_nat EN_MT_MSG_HEAD_SIZE) (m_pProductMD m);
        (case pucData of
           Some p \<Rightarrow>
             if ok \<and> unLen > 0 then do {
               (ok', d') \<leftarrow> md_append p unLen d;
               Some (ok', m\<lparr>m_pProductMD := d'\<rparr>) }
             else Some (ok, m\<lparr>m_pProductMD := d\<rparr>)
         | None \<Rightarrow> Some (ok, m\<lparr>m_pProductMD := d\<rparr>)) })"

definition mod_stop :: "ao_module \<Rightarrow> (bool \<times> ao_module) option" where
  "mod_stop m = mod_post EN_AO_MSG_STOP None 0 0 0 0xFFFFFFFF m"

definition mod_start :: "ao_module \<Rightarrow> ao_module" where
  "mod_start m = m\<lparr>m_pCusMD := md_reset (m_pCusMD m), m_pProductMD := md_reset (m_pProductMD m)\<rparr>"

definition mod_set_timer :: "u32 \<Rightarrow> u32 \<Rightarrow> u32 \<Rightarrow> u32 \<Rightarrow> u32 \<Rightarrow> ao_module \<Rightarrow> (bool \<times> ao_module) option" where
  "mod_set_timer now tid escape cnt obj m =
     (if escape < 10 then Some (False, m)
      else mod_post EN_AO_MSG_SETTIMER
        (Some (timer_enc \<lparr>unTimerId = tid, unEscape = escape, unTime = now, unTimes = cnt, tm_pMT = obj\<rparr>))
        (of_nat EN_MSG_TIMER_SIZE) (m_this m) obj 0xFFFFFFFF m)"

definition mod_kill_timer :: "u32 \<Rightarrow> u32 \<Rightarrow> u32 \<Rightarrow> ao_module \<Rightarrow> (bool \<times> ao_module) option" where
  "mod_kill_timer now tid obj m =
     mod_post EN_AO_MSG_KILLTIMER
        (Some (timer_enc \<lparr>unTimerId = tid, unEscape = 0, unTime = now, unTimes = 0, tm_pMT = obj\<rparr>))
        (of_nat EN_MSG_TIMER_SIZE) (m_this m) obj 0xFFFFFFFF m"

definition mod_append_target :: "(u32 \<Rightarrow> u32) \<Rightarrow> u32 \<Rightarrow> ao_module \<Rightarrow> ao_module" where
  "mod_append_target oid p m =
     (if m_mapMT m (oid p) = None then m\<lparr>m_mapMT := (m_mapMT m)(oid p \<mapsto> p)\<rparr> else m)"

definition mod_remove_target :: "(u32 \<Rightarrow> u32) \<Rightarrow> u32 \<Rightarrow> ao_module \<Rightarrow> ao_module" where
  "mod_remove_target oid p m = m\<lparr>m_mapMT := (m_mapMT m)(oid p := None)\<rparr>"

section \<open>Message maps\<close>

text \<open>
  A message map is the chain of a class's table and its parents' tables; a table ends at the
  first entry with code 0 or no function.
\<close>

fun find_in_table :: "(u32 \<times> 'f option) list \<Rightarrow> u32 \<Rightarrow> 'f option" where
  "find_in_table [] c = None"
| "find_in_table ((code, f) # es) c =
     (if code = 0 \<or> f = None then None else if code = c then f else find_in_table es c)"

fun find_msg_fun :: "(u32 \<times> 'f option) list list \<Rightarrow> u32 \<Rightarrow> 'f option" where
  "find_msg_fun [] c = None"
| "find_msg_fun (t # ts) c =
     (case find_in_table t c of Some f \<Rightarrow> Some f | None \<Rightarrow> find_msg_fun ts c)"

datatype mod_fun = OnSetTimer | OnKillTimer | OnBit | OnStop | OnTimer | User nat

definition module_table :: "(u32 \<times> mod_fun option) list" where
  "module_table =
     [(EN_AO_MSG_SETTIMER, Some OnSetTimer), (EN_AO_MSG_KILLTIMER, Some OnKillTimer),
      (EN_AO_MSG_BIT, Some OnBit), (EN_AO_MSG_EXIT, Some OnStop), (0, None)]"

definition target_table :: "(u32 \<times> mod_fun option) list" where
  "target_table = [(EN_AO_MSG_ONTIMER, Some OnTimer), (0, None)]"

section \<open>Handlers\<close>

fun set_timer_in :: "msg_timer \<Rightarrow> msg_timer list \<Rightarrow> msg_timer list" where
  "set_timer_in t [] = [t]"
| "set_timer_in t (o' # os) =
     (if tm_pMT o' = tm_pMT t \<and> unTimerId t = unTimerId o'
      then o'\<lparr>unEscape := unEscape t, unTime := unTime t, unTimes := unTimes t\<rparr> # os
      else o' # set_timer_in t os)"

definition mod_on_set_timer :: "bytes \<Rightarrow> u32 \<Rightarrow> ao_module \<Rightarrow> ao_module option" where
  "mod_on_set_timer ucData len m =
     (if len \<noteq> of_nat EN_MSG_TIMER_SIZE then Some m
      else do { t \<leftarrow> timer_dec ucData; Some (m\<lparr>m_lstMT := set_timer_in t (m_lstMT m)\<rparr>) })"

definition mod_on_kill_timer :: "bytes \<Rightarrow> ao_module \<Rightarrow> ao_module option" where
  "mod_on_kill_timer ucData m = do {
     t \<leftarrow> timer_dec ucData;
     Some (m\<lparr>m_lstMT := filter (\<lambda>o'. tm_pMT o' \<noteq> tm_pMT t \<or>
        (unTimerId t \<noteq> 0xFFFFFFFF \<and> unTimerId t \<noteq> unTimerId o')) (m_lstMT m)\<rparr>) }"

definition mod_on_stop :: "ao_module \<Rightarrow> ao_module" where
  "mod_on_stop m = m\<lparr>m_mapMT := (\<lambda>_. None), m_lstMT := [], m_bRun := False\<rparr>"

text \<open>
  \<open>DoMsg\<close>: only a registered receiver gets the message. For the module itself the chain of the
  subclass's tables, \<open>module_table\<close> and \<open>target_table\<close> names the handler; the subclass's handlers,
  \<open>OnBit\<close>'s answer and other receivers are the parameter \<open>user\<close>.
\<close>

definition mod_do_msg ::
    "(u32 \<Rightarrow> u32) \<Rightarrow> (u32 \<times> mod_fun option) list list \<Rightarrow>
     (mt_msg_head \<Rightarrow> bytes \<Rightarrow> mod_fun option \<Rightarrow> ao_module \<Rightarrow> ao_module option) \<Rightarrow>
     mt_msg_head \<Rightarrow> bytes \<Rightarrow> ao_module \<Rightarrow> ao_module option" where
  "mod_do_msg oid sub user h ucData m =
     (if m_mapMT m (oid (pRecver h)) \<noteq> Some (pRecver h) then Some m
      else if pRecver h \<noteq> m_this m then user h ucData None m
      else (case find_msg_fun (sub @ [module_table, target_table]) (unMsgCode h) of
              None \<Rightarrow> Some m
            | Some OnSetTimer \<Rightarrow> mod_on_set_timer ucData (unDataLen h) m
            | Some OnKillTimer \<Rightarrow> mod_on_kill_timer ucData m
            | Some OnStop \<Rightarrow> Some (mod_on_stop m)
            | Some f \<Rightarrow> user h ucData (Some f) m))"

section \<open>The module's thread\<close>

text \<open>
  The walk over the taken buffer: \<open>b\<close> is the whole block, \<open>len\<close> the filled length. A handler gets
  the header and the bytes from the payload on. A header beyond the block is a fault. \<open>handle\<close>
  is \<open>DoMsg\<close>; it answers the new state and whether the module still runs.
\<close>

partial_function (option) mod_walk ::
    "(mt_msg_head \<Rightarrow> bytes \<Rightarrow> 's \<Rightarrow> 's option) \<Rightarrow> ('s \<Rightarrow> bool) \<Rightarrow> bytes \<Rightarrow> u32 \<Rightarrow> u32 \<Rightarrow> 's \<Rightarrow> 's option" where
  "mod_walk handle run b len off s =
     (if off < len \<and> run s then do {
        h \<leftarrow> mt_dec b (unat off);
        s' \<leftarrow> handle h (drop (unat off + EN_MT_MSG_HEAD_SIZE) b) s;
        mod_walk handle run b len (off + (unDataLen h + of_nat EN_MT_MSG_HEAD_SIZE)) s' }
      else Some s)"

definition mod_swap :: "ao_module \<Rightarrow> ao_module" where
  "mod_swap m = m\<lparr>m_pCusMD := m_pProductMD m, m_pProductMD := md_reset (m_pCusMD m)\<rparr>"

text \<open>
  \<open>ProcTimer\<close> at tick \<open>now\<close>: the list is rebuilt front to back, an expired timer posts itself, and
  the result is the shortest time to wait. The decrement of a timer that is set to run for ever
  stores the tick as its count.
\<close>

definition fire_timer :: "u32 \<Rightarrow> msg_timer \<Rightarrow> msg_timer" where
  "fire_timer now t =
     t\<lparr>unTime := now, unTimes := (if unTimes t \<noteq> 0xFFFFFFFF then unTimes t - 1 else now)\<rparr>"

fun proc_timers ::
    "u32 \<Rightarrow> msg_timer list \<Rightarrow> u32 \<Rightarrow> ao_module \<Rightarrow> (msg_timer list \<times> u32 \<times> ao_module) option" where
  "proc_timers now [] unMin m = Some ([], unMin, m)"
| "proc_timers now (t # ts) unMin m =
     (if unTimes t = 0 then proc_timers now ts unMin m
      else let d = sint (unTime t + unEscape t - now) in
        if d \<le> 0 then do {
          (_, m1) \<leftarrow> mod_post EN_AO_MSG_ONTIMER (Some (timer_enc t)) (of_nat EN_MSG_TIMER_SIZE)
                       (tm_pMT t) (tm_pMT t) 0xFFFFFFFF m;
          (ts', unMin', m2) \<leftarrow> proc_timers now ts (min unMin (unEscape t)) m1;
          Some (fire_timer now t # ts', unMin', m2) }
        else do {
          (ts', unMin', m2) \<leftarrow> proc_timers now ts (min unMin (of_int d)) m;
          Some (t # ts', unMin', m2) })"

definition mod_proc_timer :: "u32 \<Rightarrow> ao_module \<Rightarrow> (u32 \<times> ao_module) option" where
  "mod_proc_timer now m = do {
     (ts, unMin, m') \<leftarrow> proc_timers now (m_lstMT m) 100000 m;
     Some (unMin, m'\<lparr>m_lstMT := ts\<rparr>) }"

text \<open>One round of \<open>Run\<close>.\<close>

definition mod_round ::
    "(u32 \<Rightarrow> u32) \<Rightarrow> (u32 \<times> mod_fun option) list list \<Rightarrow>
     (mt_msg_head \<Rightarrow> bytes \<Rightarrow> mod_fun option \<Rightarrow> ao_module \<Rightarrow> ao_module option) \<Rightarrow> u32 \<Rightarrow> ao_module \<Rightarrow>
     (u32 \<times> ao_module) option" where
  "mod_round oid sub user now m = do {
     let m1 = mod_swap m;
     m2 \<leftarrow> (case m_pucData (m_pCusMD m1) of
             None \<Rightarrow> if m_unLen (m_pCusMD m1) = 0 then Some m1 else None
           | Some b \<Rightarrow> mod_walk (mod_do_msg oid sub user) m_bRun b (m_unLen (m_pCusMD m1)) 0 m1);
     mod_proc_timer now m2 }"

section \<open>Mailboxes\<close>

text \<open>
  What a mailbox promises to the threads that post into it: a message that fits is accepted and
  comes after those already held. \<open>posts\<close> is a sequence of such calls.
\<close>

fun posts :: "('m \<Rightarrow> 's \<Rightarrow> (bool \<times> 's) option) \<Rightarrow> 'm list \<Rightarrow> 's \<Rightarrow> (bool \<times> 's) option" where
  "posts post [] s = Some (True, s)"
| "posts post (m # ms) s = do {
     (ok, s1) \<leftarrow> post m s;
     (oks, s2) \<leftarrow> posts post ms s1;
     Some (ok \<and> oks, s2) }"

text \<open>One message posted to several mailboxes of a store.\<close>

fun post_each :: "('s \<Rightarrow> (bool \<times> 's) option) \<Rightarrow> u32 list \<Rightarrow> (u32 \<Rightarrow> 's) \<Rightarrow> (u32 \<Rightarrow> 's) option" where
  "post_each post [] st = Some st"
| "post_each post (a # as) st = do {
     (ok, s') \<leftarrow> post (st a);
     post_each post as (st(a := s')) }"

locale mailbox =
  fixes holds :: "'s \<Rightarrow> 'm list \<Rightarrow> bool" and post :: "'m \<Rightarrow> 's \<Rightarrow> (bool \<times> 's) option"
    and fit :: "'m \<Rightarrow> bool" and size_of :: "'m \<Rightarrow> nat" and room :: "'s \<Rightarrow> nat"
  assumes post_ok: "holds s ms \<Longrightarrow> fit m \<Longrightarrow> size_of m \<le> room s \<Longrightarrow>
      \<exists>s'. post m s = Some (True, s') \<and> holds s' (ms @ [m]) \<and> room s' = room s - size_of m"
begin

lemma posts_ok:
  "holds s q \<Longrightarrow> \<forall>m\<in>set ms. fit m \<Longrightarrow> sum_list (map size_of ms) \<le> room s \<Longrightarrow>
     \<exists>s'. posts post ms s = Some (True, s') \<and> holds s' (q @ ms)"
proof (induction ms arbitrary: s q)
  case (Cons m ms)
  then obtain s1 where s1: "post m s = Some (True, s1)" "holds s1 (q @ [m])" "room s1 = room s - size_of m"
    using post_ok [of s q m] by auto
  moreover from Cons.prems(3) s1(3) have "sum_list (map size_of ms) \<le> room s1" by simp
  ultimately show ?case using Cons.IH [OF s1(2)] Cons.prems(2) by auto
qed simp

lemma post_each_ok:
  "distinct as \<Longrightarrow> \<forall>a\<in>set as. holds (st a) (q a) \<and> size_of m \<le> room (st a) \<Longrightarrow> fit m \<Longrightarrow>
     \<exists>st'. post_each (post m) as st = Some st' \<and>
       (\<forall>a. if a \<in> set as then holds (st' a) (q a @ [m]) else st' a = st a)"
proof (induction "as" arbitrary: st)
  case (Cons a "as")
  then obtain s1 where s1: "post m (st a) = Some (True, s1)" "holds s1 (q a @ [m])"
    using post_ok [of "st a" "q a" m] by auto
  have h: "\<forall>x\<in>set as. holds ((st(a := s1)) x) (q x) \<and> size_of m \<le> room ((st(a := s1)) x)"
    and d: "distinct as"
    using Cons.prems(1,2) by auto
  from Cons.IH [OF d h Cons.prems(3)] obtain st' where
    st': "post_each (post m) as (st(a := s1)) = Some st'"
      "\<forall>x. if x \<in> set as then holds (st' x) (q x @ [m]) else st' x = (st(a := s1)) x" by blast
  have "if x \<in> set (a # as) then holds (st' x) (q x @ [m]) else st' x = st x" for x
    using st'(2) [rule_format, of x] s1(2) Cons.prems(1) by (cases "x = a") (auto split: if_splits)
  with s1(1) st'(1) show ?case by simp
qed simp

end

section \<open>A module is a mailbox\<close>

definition mod_post_msg :: "mt_msg \<Rightarrow> ao_module \<Rightarrow> (bool \<times> ao_module) option" where
  "mod_post_msg x m = mod_post (unMsgCode (fst x)) (Some (snd x)) (unDataLen (fst x))
     (pRecver (fst x)) (pSender (fst x)) (unSMI (fst x)) m"

definition mod_holds :: "ao_module \<Rightarrow> mt_msg list \<Rightarrow> bool" where
  "mod_holds m ms \<longleftrightarrow> m_bRun m \<and> md_wf (m_pProductMD m) \<and> md_wf (m_pCusMD m) \<and>
     (\<forall>x\<in>set ms. mt_ok x) \<and> md_bytes (m_pProductMD m) = concat (map mt_bytes ms)"

definition mod_room :: "ao_module \<Rightarrow> nat" where
  "mod_room m = unat (m_unCapacity (m_pProductMD m)) - unat (m_unLen (m_pProductMD m))"

lemma mod_post_bytes:
  assumes "m_bRun m" and "md_wf (m_pProductMD m)" and "mt_ok x" and "pRecver (fst x) \<noteq> 0"
    and "20 + length (snd x) \<le> mod_room m"
  shows "\<exists>d. mod_post_msg x m = Some (True, m\<lparr>m_pProductMD := d\<rparr>) \<and> md_wf d \<and>
     md_bytes d = md_bytes (m_pProductMD m) @ mt_bytes x \<and>
     m_unCapacity d = m_unCapacity (m_pProductMD m) \<and>
     unat (m_unLen d) = unat (m_unLen (m_pProductMD m)) + 20 + length (snd x)"
proof -
  obtain h p where x: "x = (h, p)" by (cases x)
  let ?d = "m_pProductMD m"
  note wf = assms(2,1)
  have room: "unat (m_unLen ?d) + (20 + length p) \<le> unat (m_unCapacity ?d)"
    using assms(5) wf(1) by (simp add: mod_room_def x md_wf_def word_le_nat_alt)
  obtain d1 where d1: "md_append (mt_enc h) (of_nat (length (mt_enc h))) ?d = Some (True, d1)"
    "md_wf d1" "md_bytes d1 = md_bytes ?d @ mt_enc h" "m_unCapacity d1 = m_unCapacity ?d"
    "unat (m_unLen d1) = unat (m_unLen ?d) + 20"
    using md_append_fits [OF wf(1), of "mt_enc h"] room by auto
  obtain d2 where d2: "md_append p (of_nat (length p)) d1 = Some (True, d2)" "md_wf d2"
    "md_bytes d2 = md_bytes d1 @ p" "m_unCapacity d2 = m_unCapacity d1"
    "unat (m_unLen d2) = unat (m_unLen d1) + length p"
    using md_append_fits [OF d1(2), of p] d1(4,5) room by auto
  have dl: "unDataLen h = of_nat (length p)" using assms(3) by (simp add: mt_ok_def x)
  have hd: "\<lparr>unSMI = unSMI h, unMsgCode = unMsgCode h, unDataLen = unDataLen h, pRecver = pRecver h,
      pSender = pSender h\<rparr> = h" by simp
  have d1': "md_append (mt_enc h) 20 ?d = Some (True, d1)" using d1(1) by simp
  have pm: "mod_post_msg x m = (if unDataLen h > 0 then do {
       (ok', d') \<leftarrow> md_append p (unDataLen h) d1; Some (ok', m\<lparr>m_pProductMD := d'\<rparr>) }
     else Some (True, m\<lparr>m_pProductMD := d1\<rparr>))"
    using wf(2) assms(4) d1' by (simp add: mod_post_msg_def mod_post_def x Let_def hd EN_MT_MSG_HEAD_SIZE_def)
  have "mod_post_msg x m = Some (True, m\<lparr>m_pProductMD := d2\<rparr>)"
  proof (cases "p = []")
    case True
    then have "d2 = d1" using d2(1,5) d1(2,4) d2(1)
      by (auto simp: md_append_def blit_def split: if_splits bind_splits)
    with True dl show ?thesis by (simp add: pm)
  next
    case False
    moreover have "unat (of_nat (length p) :: u32) = length p"
      using assms(3) by (simp add: mt_ok_def x unat_of_nat)
    ultimately have "(0 :: u32) < of_nat (length p)" by (simp add: word_less_nat_alt)
    with d2(1) dl show ?thesis by (simp add: pm)
  qed
  then show ?thesis
    using d1 d2 by (auto simp: mt_bytes_def x)
qed

lemma mod_post_ok:
  assumes "mod_holds m ms" and "mt_ok x" and "pRecver (fst x) \<noteq> 0"
    and "20 + length (snd x) \<le> mod_room m"
  shows "\<exists>m'. mod_post_msg x m = Some (True, m') \<and> mod_holds m' (ms @ [x]) \<and>
     mod_room m' = mod_room m - (20 + length (snd x))"
proof -
  have h: "m_bRun m" "md_wf (m_pProductMD m)" using assms(1) by (simp_all add: mod_holds_def)
  from mod_post_bytes [OF h assms(2-4)] assms(1,2) show ?thesis
    by (auto simp: mod_holds_def mod_room_def)
qed

interpretation module_box: mailbox mod_holds mod_post_msg
    "\<lambda>x. mt_ok x \<and> pRecver (fst x) \<noteq> 0" "\<lambda>x. 20 + length (snd x)" mod_room
  using mod_post_ok by unfold_locales blast

section \<open>The walk\<close>

fun walk_spec ::
    "(mt_msg_head \<Rightarrow> bytes \<Rightarrow> 's \<Rightarrow> 's option) \<Rightarrow> ('s \<Rightarrow> bool) \<Rightarrow> mt_msg list \<Rightarrow> 's \<Rightarrow> 's option" where
  "walk_spec handle run [] s = Some s"
| "walk_spec handle run (x # xs) s =
     (if run s then do { s' \<leftarrow> handle (fst x) (snd x) s; walk_spec handle run xs s' } else Some s)"

definition reads_payload :: "(mt_msg_head \<Rightarrow> bytes \<Rightarrow> 's \<Rightarrow> 's option) \<Rightarrow> bool" where
  "reads_payload handle \<longleftrightarrow>
     (\<forall>h d r s. length d = unat (unDataLen h) \<longrightarrow> handle h (d @ r) s = handle h d s)"

lemma mod_walk_stop: "\<not> (off < len \<and> run s) \<Longrightarrow> mod_walk handle run b len off s = Some s"
  by (subst mod_walk.simps) (simp only: if_False)

lemma mt_bytes_pair: "mt_bytes (h, p) = mt_enc h @ p"
  by (simp add: mt_bytes_def)

lemma mod_walk_append:
  assumes "reads_payload handle"
  shows "\<forall>x\<in>set ms. mt_ok x \<Longrightarrow> b = a @ concat (map mt_bytes ms) @ r \<Longrightarrow>
     length (a @ concat (map mt_bytes ms)) \<le> unat len \<Longrightarrow>
     mod_walk handle run b len (of_nat (length a)) s =
       do { s' \<leftarrow> walk_spec handle run ms s;
            mod_walk handle run b len (of_nat (length (a @ concat (map mt_bytes ms)))) s' }"
proof (induction ms arbitrary: a s)
  case Nil
  then show ?case by simp
next
  case (Cons x ms)
  obtain h p where x: "x = (h, p)" by (cases x)
  have ok: "length p < 2 ^ 31" "unDataLen h = of_nat (length p)"
    using Cons.prems(1) by (simp_all add: mt_ok_def x)
  then have up: "unat (unDataLen h) = length p" by (simp add: unat_of_nat)
  have la: "length a < unat len" using Cons.prems(3) by (simp add: x)
  then have ua: "unat (of_nat (length a) :: u32) = length a"
    using unat_lt [of len] by (simp add: unat_of_nat)
  show ?case
  proof (cases "run s")
    case False
    then show ?thesis by (simp add: mod_walk_stop)
  next
    case True
    have b: "b = a @ mt_enc h @ p @ concat (map mt_bytes ms) @ r"
      using Cons.prems(2) by (simp add: x mt_bytes_pair)
    have dec: "mt_dec b (length a) = Some h" unfolding b by (rule mt_dec_enc) simp
    have dr: "drop (length a + EN_MT_MSG_HEAD_SIZE) b = p @ concat (map mt_bytes ms) @ r"
      by (simp add: b EN_MT_MSG_HEAD_SIZE_def)
    have hp: "handle h (p @ y) s = handle h p s" for y
      using assms up by (simp add: reads_payload_def)
    have off: "of_nat (length a) + (unDataLen h + of_nat EN_MT_MSG_HEAD_SIZE) =
        (of_nat (length (a @ mt_bytes x)) :: u32)"
      by (simp add: x ok(2) EN_MT_MSG_HEAD_SIZE_def)
    have lt: "of_nat (length a) < len" using la ua by (simp add: word_less_nat_alt)
    have "mod_walk handle run b len (of_nat (length a)) s =
        do { s' \<leftarrow> handle h p s; mod_walk handle run b len (of_nat (length (a @ mt_bytes x))) s' }"
      by (subst mod_walk.simps) (simp only: lt True ua dec dr hp off if_True Option.bind.simps simp_thms)
    also have "\<dots> = do { s' \<leftarrow> handle h p s; s'' \<leftarrow> walk_spec handle run ms s';
        mod_walk handle run b len (of_nat (length ((a @ mt_bytes x) @ concat (map mt_bytes ms)))) s'' }"
    proof (intro Option.bind_cong refl)
      fix s' assume "handle h p s = Some s'"
      show "mod_walk handle run b len (of_nat (length (a @ mt_bytes x))) s' =
          do { s'' \<leftarrow> walk_spec handle run ms s';
            mod_walk handle run b len (of_nat (length ((a @ mt_bytes x) @ concat (map mt_bytes ms)))) s'' }"
        by (rule Cons.IH) (use Cons.prems in simp_all)
    qed
    finally show ?thesis using True by (simp add: x)
  qed
qed

text \<open>A buffer that holds whole messages: the walk is the handling of those messages.\<close>

lemma mod_walk_all:
  assumes "reads_payload handle" and "md_wf d" and "\<forall>x\<in>set ms. mt_ok x"
    and "md_bytes d = concat (map mt_bytes ms)" and "m_pucData d = Some b"
  shows "mod_walk handle run b (m_unLen d) 0 s = walk_spec handle run ms s"
proof -
  have b: "b = [] @ concat (map mt_bytes ms) @ drop (unat (m_unLen d)) b"
    using assms(4,5) by (simp add: md_bytes_def) (metis append_take_drop_id)
  have l: "length ([] @ concat (map mt_bytes ms)) = unat (m_unLen d)"
    using md_bytes_length [OF assms(2)] assms(4) by simp
  have stop: "mod_walk handle run b (m_unLen d) (of_nat (length ([] @ concat (map mt_bytes ms)))) s' = Some s'" for s'
    unfolding l by (rule mod_walk_stop) simp
  from mod_walk_append [OF assms(1,3) b, of "m_unLen d" run s] l show ?thesis
    unfolding stop by simp
qed

section \<open>Fresh modules\<close>

lemma md_malloc_new:
  assumes "0 < n" and "unat n \<le> 8 * 1024 * 1024"
  shows "\<exists>d. md_malloc (ao_ops bld) n md_new = Some (True, d) \<and> md_wf d \<and> md_bytes d = [] \<and>
     m_unCapacity d = n \<and> m_unLen d = 0"
proof -
  obtain b where "op_malloc (ao_ops bld) (unat n) = Some b" "unat n \<le> length b"
    using ops.mal_ok [OF assms(2)] by blast
  with assms show ?thesis
    by (auto simp: md_malloc_def md_new_def md_wf_def md_bytes_def word_le_nat_alt word_less_nat_alt)
qed

lemma mod_new_ok:
  assumes "0 < n" and "unat n \<le> 8 * 1024 * 1024"
  shows "\<exists>m. mod_new (ao_ops bld) this mid n = Some m \<and> mod_holds m [] \<and> mod_room m = unat n \<and>
     m_this m = this \<and> m_mapMT m = [mid \<mapsto> this] \<and> m_lstMT m = []"
proof -
  obtain d where "md_malloc (ao_ops bld) n md_new = Some (True, d)" "md_wf d" "md_bytes d = []"
    "m_unCapacity d = n" "m_unLen d = 0"
    using md_malloc_new [OF assms] by blast
  then show ?thesis by (simp add: mod_new_def mod_holds_def mod_room_def)
qed

lemma mod_swap_holds: "mod_holds m ms \<Longrightarrow> mod_holds (mod_swap m) []"
  by (simp add: mod_holds_def mod_swap_def md_bytes_def md_reset_def split: option.splits)
     (auto simp: md_wf_def)

lemma mod_swap_walk:
  assumes "mod_holds m ms" and "reads_payload handle"
  shows "\<exists>b. m_pucData (m_pCusMD (mod_swap m)) = Some b \<and>
     mod_walk handle run b (m_unLen (m_pCusMD (mod_swap m))) 0 s = walk_spec handle run ms s"
proof -
  have h: "md_wf (m_pProductMD m)" "\<forall>x\<in>set ms. mt_ok x" "md_bytes (m_pProductMD m) = concat (map mt_bytes ms)"
    using assms(1) by (simp_all add: mod_holds_def)
  then obtain b where "m_pucData (m_pProductMD m) = Some b" by (auto simp: md_wf_def)
  with mod_walk_all [OF assms(2) h] show ?thesis by (simp add: mod_swap_def)
qed

section \<open>Properties\<close>


definition log_handler :: "mt_msg_head \<Rightarrow> bytes \<Rightarrow> mt_msg list \<Rightarrow> mt_msg list option" where
  "log_handler h d s = Some (s @ [(h, take (unat (unDataLen h)) d)])"

lemma log_handler_payload: "reads_payload log_handler"
  by (simp add: reads_payload_def log_handler_def)


text \<open>A payload that does not fit. \<open>PostMsg\<close> answers false but has already stored the header: the
  walk handles that message all the same, with whatever lies behind the header as its payload, and
  messages posted successfully after it are taken for that payload and never handled.\<close>

theorem failed_post_swallows:
  assumes "mod_holds m ms" and "pRecver h \<noteq> 0" and "unDataLen h = of_nat (length p)"
    and "length p < 2 ^ 31" and "20 \<le> mod_room m" and "mod_room m < 20 + length p"
    and "mt_ok x" and "pRecver (fst x) \<noteq> 0" and "40 + length (snd x) \<le> mod_room m"
    and "reads_payload handle"
  shows "\<exists>m1 m2 b. mod_post_msg (h, p) m = Some (False, m1) \<and> mod_post_msg x m1 = Some (True, m2) \<and>
     m_pucData (m_pCusMD (mod_swap m2)) = Some b \<and>
     mod_walk handle run b (m_unLen (m_pCusMD (mod_swap m2))) 0 s =
       do { s' \<leftarrow> walk_spec handle run ms s;
            if run s' then handle h (drop (length (concat (map mt_bytes ms)) + 20) b) s' else Some s' }"
proof -
  let ?d = "m_pProductMD m"
  let ?q = "concat (map mt_bytes ms)"
  have wf: "m_bRun m" "md_wf ?d" "md_bytes ?d = ?q" "\<forall>x\<in>set ms. mt_ok x"
    using assms(1) by (simp_all add: mod_holds_def)
  have cap: "unat (m_unLen ?d) \<le> unat (m_unCapacity ?d)" "unat (m_unCapacity ?d) < 2 ^ 31"
    using wf(2) by (simp_all add: md_wf_def word_le_nat_alt)
  have np: "unat (unDataLen h) = length p" using assms(3,4) by (simp add: unat_of_nat)
  have lq: "length ?q = unat (m_unLen ?d)" using md_bytes_length [OF wf(2)] wf(3) by simp
  obtain d1 where d1: "md_append (mt_enc h) (of_nat (length (mt_enc h))) ?d = Some (True, d1)"
    "md_wf d1" "md_bytes d1 = ?q @ mt_enc h" "m_unCapacity d1 = m_unCapacity ?d"
    "unat (m_unLen d1) = unat (m_unLen ?d) + 20"
  proof -
    have "unat (m_unLen ?d) + length (mt_enc h) \<le> unat (m_unCapacity ?d)"
      using assms(5) cap(1) unfolding mod_room_def length_mt_enc by linarith
    from md_append_fits [OF wf(2) this] that show ?thesis by (auto simp: wf(3))
  qed
  have f: "md_append p (unDataLen h) d1 = Some (False, d1)"
  proof (rule md_append_full [OF d1(2)])
    show "unat (m_unLen d1) + unat (unDataLen h) > unat (m_unCapacity d1)"
      using assms(6) cap(1) d1(4,5) np unfolding mod_room_def by simp
    have "unat (m_unLen ?d) + 20 \<le> unat (m_unCapacity ?d)"
      using assms(5) cap(1) unfolding mod_room_def by linarith
    then have "unat (m_unLen d1) < 2 ^ 31" using d1(5) cap(2) by linarith
    then show "unat (m_unLen d1) + unat (unDataLen h) < 2 ^ 32" using np assms(4) by simp
  qed
  let ?m1 = "m\<lparr>m_pProductMD := d1\<rparr>"
  have hd: "\<lparr>unSMI = unSMI h, unMsgCode = unMsgCode h, unDataLen = unDataLen h, pRecver = pRecver h,
      pSender = pSender h\<rparr> = h" by simp
  have "0 < length p" using assms(9) assms(6) by linarith
  then have pos: "unDataLen h > 0" using np by (simp add: word_less_nat_alt)
  have d1': "md_append (mt_enc h) 20 ?d = Some (True, d1)" using d1(1) by simp
  have p1: "mod_post_msg (h, p) m = Some (False, ?m1)"
    using wf(1) assms(2) d1' f pos by (simp add: mod_post_msg_def mod_post_def Let_def hd EN_MT_MSG_HEAD_SIZE_def)
  have r1: "m_bRun ?m1" "md_wf (m_pProductMD ?m1)" "20 + length (snd x) \<le> mod_room ?m1"
    using wf(1) d1(2,4,5) assms(9) cap by (simp_all add: mod_room_def)
  obtain d2 where d2: "mod_post_msg x ?m1 = Some (True, ?m1\<lparr>m_pProductMD := d2\<rparr>)" "md_wf d2"
    "md_bytes d2 = (?q @ mt_enc h) @ mt_bytes x" "unat (m_unLen d2) = unat (m_unLen d1) + 20 + length (snd x)"
    using mod_post_bytes [OF r1(1,2) assms(7,8) r1(3)] d1(3) by auto
  let ?m2 = "?m1\<lparr>m_pProductMD := d2\<rparr>"
  obtain b where b: "m_pucData d2 = Some b" using d2(2) by (auto simp: md_wf_def)
  define r where "r = mt_bytes x @ drop (unat (m_unLen d2)) b"
  have bb: "b = [] @ ?q @ (mt_enc h @ r)"
    using d2(3) b by (simp add: md_bytes_def r_def) (metis append.assoc append_take_drop_id)
  have l2: "unat (m_unLen d2) = length ?q + 40 + length (snd x)" using d2(4) d1(5) lq by simp
  have qb20: "length ?q + 20 < 2 ^ 31"
    using lq cap assms(5) unfolding mod_room_def by linarith
  then have qb: "length ?q < 2 ^ 31" by linarith
  have uq: "unat (of_nat (length ?q) :: u32) = length ?q" using qb by (simp add: unat_of_nat)
  have "mod_walk handle run b (m_unLen d2) (of_nat (length ?q)) s' =
      (if run s' then handle h (drop (length ?q + 20) b) s' else Some s')" for s'
  proof (cases "run s'")
    case True
    have lt: "of_nat (length ?q) < m_unLen d2" using uq l2 by (simp add: word_less_nat_alt)
    have dec: "mt_dec b (length ?q) = Some h"
      using mt_dec_enc [of ?q "length ?q" h r] bb by simp
    have e: "of_nat (length ?q) + (unDataLen h + of_nat EN_MT_MSG_HEAD_SIZE) =
        (of_nat (length ?q + (length p + 20)) :: u32)"
      by (simp add: assms(3) EN_MT_MSG_HEAD_SIZE_def)
    have "length ?q + (length p + 20) < 2 ^ 32" using qb20 assms(4) by simp
    then have n: "unat (of_nat (length ?q) + (unDataLen h + of_nat EN_MT_MSG_HEAD_SIZE)) =
        length ?q + (length p + 20)"
      unfolding e by (subst unat_of_nat, subst mod_less) simp_all
    have "mod_walk handle run b (m_unLen d2)
        (of_nat (length ?q) + (unDataLen h + of_nat EN_MT_MSG_HEAD_SIZE)) s'' = Some s''" for s''
      by (rule mod_walk_stop) (use n l2 assms(6,9) in \<open>auto simp: word_less_nat_alt\<close>)
    with True lt uq dec show ?thesis
      by (subst mod_walk.simps) (cases "handle h (drop (length ?q + 20) b) s'"; simp add: EN_MT_MSG_HEAD_SIZE_def)
  qed (simp add: mod_walk_stop)
  with mod_walk_append [OF assms(10) wf(4) bb, of "m_unLen d2" run s] l2
  have "mod_walk handle run b (m_unLen d2) 0 s =
      do { s' \<leftarrow> walk_spec handle run ms s;
           if run s' then handle h (drop (length ?q + 20) b) s' else Some s' }" by simp
  then show ?thesis using p1 d2(1) b by (auto simp: mod_swap_def)
qed

theorem failed_post_swallows_witness:
  "\<exists>m m1 m2 b. mod_new (ao_ops (MEM_CACHE 0)) 1000 256 64 = Some m \<and>
     mod_post_msg (\<lparr>unSMI = 1, unMsgCode = 77, unDataLen = 100, pRecver = 1000, pSender = 0\<rparr>, replicate 100 1) m
       = Some (False, m1) \<and>
     mod_post_msg (\<lparr>unSMI = 1, unMsgCode = 78, unDataLen = 1, pRecver = 1000, pSender = 0\<rparr>, [9]) m1
       = Some (True, m2) \<and>
     map_option (map fst) (mod_walk log_handler (\<lambda>_. True) b (m_unLen (m_pCusMD (mod_swap m2))) 0 []) =
       Some [\<lparr>unSMI = 1, unMsgCode = 77, unDataLen = 100, pRecver = 1000, pSender = 0\<rparr>]"
proof -
  let ?h = "\<lparr>unSMI = 1, unMsgCode = 77, unDataLen = 100, pRecver = 1000, pSender = 0\<rparr>"
  let ?x = "(\<lparr>unSMI = 1, unMsgCode = 78, unDataLen = 1, pRecver = 1000, pSender = 0\<rparr>, [9]) :: mt_msg"
  obtain m where m: "mod_new (ao_ops (MEM_CACHE 0)) 1000 256 64 = Some m" "mod_holds m []" "mod_room m = 64"
    using mod_new_ok [of 64 "MEM_CACHE 0" 1000 256] by auto
  have a: "pRecver ?h \<noteq> 0" "unDataLen ?h = of_nat (length (replicate 100 (1 :: u8)))"
    "length (replicate 100 (1 :: u8)) < 2 ^ 31" "20 \<le> mod_room m"
    "mod_room m < 20 + length (replicate 100 (1 :: u8))" "mt_ok ?x" "pRecver (fst ?x) \<noteq> 0"
    "40 + length (snd ?x) \<le> mod_room m"
    by (simp_all add: m(3) mt_ok_def)
  from failed_post_swallows [OF m(2) a log_handler_payload, of "\<lambda>_. True" "[]"] obtain m1 m2 b where
    "mod_post_msg (?h, replicate 100 1) m = Some (False, m1)" "mod_post_msg ?x m1 = Some (True, m2)"
    "mod_walk log_handler (\<lambda>_. True) b (m_unLen (m_pCusMD (mod_swap m2))) 0 [] = log_handler ?h (drop 20 b) []"
    by auto
  with m(1) show ?thesis by (fastforce simp: log_handler_def)
qed

text \<open>\<open>Stop\<close> and \<open>EN_AO_MSG_EXIT\<close>. The message that \<open>Stop\<close> posts is in no message map of a module:
  an idle module that is stopped runs its next round and is still running (so the \<open>Join\<close> that follows in
  \<open>Stop\<close> cannot return), while the exit message ends it.\<close>

theorem stop_is_not_handled:
  assumes "mod_holds m []" and "20 \<le> mod_room m" and "m_this m \<noteq> 0" and "m_lstMT m = []"
    and "m_mapMT m (oid (m_this m)) = Some (m_this m)"
  shows "(\<exists>m1 w m2. mod_stop m = Some (True, m1) \<and>
       mod_round oid [] user now m1 = Some (w, m2) \<and> m_bRun m2) \<and>
     (\<exists>m1 w m2. mod_post EN_AO_MSG_EXIT None 0 0 0 0xFFFFFFFF m = Some (True, m1) \<and>
       mod_round oid [] user now m1 = Some (w, m2) \<and> \<not> m_bRun m2)"
proof -
  have f: "find_msg_fun ([] @ [module_table, target_table]) EN_AO_MSG_STOP = None"
    "find_msg_fun ([] @ [module_table, target_table]) EN_AO_MSG_EXIT = Some OnStop"
    by (simp_all add: module_table_def target_table_def ao_msg_defs)
  have round: "\<exists>m1 w m2. mod_post c None 0 0 0 0xFFFFFFFF m = Some (True, m1) \<and>
      mod_round oid [] user now m1 = Some (w, m2) \<and> m_bRun m2 = r"
    if c: "(find_msg_fun ([] @ [module_table, target_table]) c = None \<and> r) \<or>
           (find_msg_fun ([] @ [module_table, target_table]) c = Some OnStop \<and> \<not> r)" for c r
  proof -
    let ?h = "\<lparr>unSMI = 0xFFFFFFFF, unMsgCode = c, unDataLen = 0, pRecver = m_this m, pSender = 0\<rparr>"
    obtain m1 where m1: "mod_post_msg (?h, []) m = Some (True, m1)" "mod_holds m1 ([] @ [(?h, [])])"
      "m1 = m\<lparr>m_pProductMD := m_pProductMD m1\<rparr>"
    proof -
      have h: "m_bRun m" "md_wf (m_pProductMD m)" "mt_ok (?h, [])" "pRecver (fst (?h, [] :: bytes)) \<noteq> 0"
        "20 + length (snd (?h, [] :: bytes)) \<le> mod_room m"
        using assms(1-3) by (simp_all add: mod_holds_def mt_ok_def)
      from mod_post_bytes [OF h] mod_post_ok [OF assms(1) h(3-5)] that show ?thesis by fastforce
    qed
    have p: "mod_post c None 0 0 0 0xFFFFFFFF m = Some (True, m1)"
      using m1(1) assms(3) by (auto simp: mod_post_msg_def mod_post_def Let_def split: if_splits bind_splits)
    let ?s = "mod_swap m1"
    let ?do = "mod_do_msg oid [] user"
    obtain b where b: "m_pucData (m_pCusMD ?s) = Some b"
      using m1(2) by (auto simp: mod_holds_def mod_swap_def md_wf_def)
    have same3: "m_mapMT ?s = m_mapMT m" "m_this ?s = m_this m" "m_lstMT ?s = []"
      by (subst m1(3), simp add: mod_swap_def assms(4))+
    have "m_bRun ?s" using m1(2) by (simp add: mod_holds_def mod_swap_def)
    note same = same3 this
    define s' where "s' = (if r then ?s else mod_on_stop ?s)"
    have h: "?do ?h d ?s = Some s'" for d
      using c assms(5) by (auto simp: mod_do_msg_def same s'_def)
    have l: "unat (m_unLen (m_pCusMD ?s)) = 20" "take 20 b = mt_enc ?h"
      using m1(2) md_bytes_length [of "m_pProductMD m1"] b
      by (auto simp: mod_holds_def mod_swap_def mt_bytes_def md_bytes_def)
    then have dec: "mt_dec b 0 = Some ?h"
      using mt_dec_enc [of "[]" 0 ?h "drop 20 b"] by (metis append_Nil append_take_drop_id list.size(3))
    have lt: "0 < m_unLen (m_pCusMD ?s)" using l(1) by (simp add: word_less_nat_alt)
    have "mod_walk ?do m_bRun b (m_unLen (m_pCusMD ?s)) (0 + (unDataLen ?h + of_nat EN_MT_MSG_HEAD_SIZE)) s' = Some s'"
      by (rule mod_walk_stop) (use l(1) in \<open>simp add: EN_MT_MSG_HEAD_SIZE_def word_less_nat_alt\<close>)
    then have w: "mod_walk ?do m_bRun b (m_unLen (m_pCusMD ?s)) 0 ?s = Some s'"
      using lt same(4) dec h by (subst mod_walk.simps) (simp add: EN_MT_MSG_HEAD_SIZE_def)
    have "m_lstMT s' = []" "m_bRun s' = r"
      using same by (simp_all add: s'_def mod_on_stop_def)
    then have "\<exists>w m2. mod_round oid [] user now m1 = Some (w, m2) \<and> m_bRun m2 = r"
      using b w by (simp add: mod_round_def Let_def mod_proc_timer_def)
    with p show ?thesis by blast
  qed
  from round [of EN_AO_MSG_STOP True] round [of EN_AO_MSG_EXIT False] f show ?thesis
    by (auto simp: mod_stop_def)
qed

theorem stop_is_not_handled_witness:
  "\<exists>m m1 w m2. mod_new (ao_ops (MEM_CACHE 0)) 1000 256 64 = Some m \<and> mod_stop m = Some (True, m1) \<and>
     mod_round (\<lambda>_. 256) [] (\<lambda>_ _ _. Some) 5 m1 = Some (w, m2) \<and> m_bRun m2"
proof -
  obtain m where m: "mod_new (ao_ops (MEM_CACHE 0)) 1000 256 64 = Some m" "mod_holds m []" "mod_room m = 64"
    "m_this m = 1000" "m_mapMT m = [256 \<mapsto> 1000]" "m_lstMT m = []"
    using mod_new_ok [of 64 "MEM_CACHE 0" 1000 256] by auto
  have a: "20 \<le> mod_room m" "m_this m \<noteq> 0" "m_mapMT m ((\<lambda>_. 256) (m_this m)) = Some (m_this m)"
    by (simp_all add: m)
  show ?thesis
    using stop_is_not_handled [OF m(2) a(1,2) m(6), of "\<lambda>_. 256" "\<lambda>_ _ _. Some" 5] a(3) m(1) by blast
qed

text \<open>Timers that are due at a tick, and the message one of them posts.\<close>

definition timer_due :: "u32 \<Rightarrow> msg_timer \<Rightarrow> bool" where
  "timer_due now t \<longleftrightarrow> unTimes t \<noteq> 0 \<and> sint (unTime t + unEscape t - now) \<le> 0"

definition timer_msg :: "msg_timer \<Rightarrow> mt_msg" where
  "timer_msg t = (\<lparr>unSMI = 0xFFFFFFFF, unMsgCode = EN_AO_MSG_ONTIMER, unDataLen = of_nat EN_MSG_TIMER_SIZE,
     pRecver = tm_pMT t, pSender = tm_pMT t\<rparr>, timer_enc t)"

lemma timer_msg_ok: "mt_ok (timer_msg t)"
  by (simp add: mt_ok_def timer_msg_def EN_MSG_TIMER_SIZE_def)

lemma timer_msg_simps [simp]:
  "length (snd (timer_msg t)) = 20" "pRecver (fst (timer_msg t)) = tm_pMT t"
  by (simp_all add: timer_msg_def)

lemma timer_post:
  "mod_post EN_AO_MSG_ONTIMER (Some (timer_enc t)) (of_nat EN_MSG_TIMER_SIZE) (tm_pMT t) (tm_pMT t) 0xFFFFFFFF m =
   mod_post_msg (timer_msg t) m"
  by (simp add: mod_post_msg_def timer_msg_def)

lemma proc_timers_ok:
  "mod_holds m q \<Longrightarrow> \<forall>t\<in>set ts. tm_pMT t \<noteq> 0 \<Longrightarrow>
   40 * length (filter (timer_due now) ts) \<le> mod_room m \<Longrightarrow>
     \<exists>w m'. proc_timers now ts unMin m = Some
         (map (\<lambda>t. if timer_due now t then fire_timer now t else t) (filter (\<lambda>t. unTimes t \<noteq> 0) ts), w, m') \<and>
       mod_holds m' (q @ map timer_msg (filter (timer_due now) ts))"
proof (induction ts arbitrary: m q unMin)
  case Nil
  then show ?case by simp
next
  case (Cons t ts)
  have tgt: "\<forall>t\<in>set ts. tm_pMT t \<noteq> 0" using Cons.prems(2) by simp
  show ?case
  proof (cases "timer_due now t")
    case True
    then have d: "unTimes t \<noteq> 0" "sint (unTime t + unEscape t - now) \<le> 0"
      by (simp_all add: timer_due_def)
    obtain m1 where m1: "mod_post_msg (timer_msg t) m = Some (True, m1)" "mod_holds m1 (q @ [timer_msg t])"
      "mod_room m1 = mod_room m - 40"
      using mod_post_ok [OF Cons.prems(1) timer_msg_ok, of t] Cons.prems(2,3) True by auto
    have "40 * length (filter (timer_due now) ts) \<le> mod_room m1" using Cons.prems(3) True m1(3) by simp
    from Cons.IH [OF m1(2) tgt this, of "min unMin (unEscape t)"] True d m1(1) show ?thesis
      by (auto simp: Let_def timer_post)
  next
    case False
    then have r: "40 * length (filter (timer_due now) ts) \<le> mod_room m" using Cons.prems(3) by simp
    show ?thesis
    proof (cases "unTimes t = 0")
      case True
      with Cons.IH [OF Cons.prems(1) tgt r, of unMin] False show ?thesis by simp
    next
      case nz: False
      with False have "\<not> sint (unTime t + unEscape t - now) \<le> 0" by (simp add: timer_due_def)
      with Cons.IH [OF Cons.prems(1) tgt r, of "min unMin (of_int (sint (unTime t + unEscape t - now)))"] False nz
      show ?thesis by (auto simp: Let_def)
    qed
  qed
qed

text \<open>C34: timers. A round of \<open>ProcTimer\<close> drops exactly the timers whose count has reached 0, posts one
  message per due timer in list order, restarts those and leaves the others as they are.\<close>

theorem proc_timer_fires_due:
  assumes "mod_holds m q" and "\<forall>t\<in>set (m_lstMT m). tm_pMT t \<noteq> 0"
    and "40 * length (filter (timer_due now) (m_lstMT m)) \<le> mod_room m"
  shows "\<exists>w m'. mod_proc_timer now m = Some (w, m') \<and>
     m_lstMT m' = map (\<lambda>t. if timer_due now t then fire_timer now t else t)
                    (filter (\<lambda>t. unTimes t \<noteq> 0) (m_lstMT m)) \<and>
     mod_holds m' (q @ map timer_msg (filter (timer_due now) (m_lstMT m)))"
  using proc_timers_ok [OF assms, of 100000] by (auto simp: mod_proc_timer_def mod_holds_def)

theorem proc_timer_fires_due_witness:
  "\<exists>m w m'. mod_new (ao_ops (MEM_CACHE 0)) 1000 256 64 = Some m \<and>
     mod_proc_timer 100 (m\<lparr>m_lstMT := [\<lparr>unTimerId = 1, unEscape = 50, unTime = 40, unTimes = 3, tm_pMT = 1000\<rparr>]\<rparr>)
       = Some (w, m') \<and>
     m_lstMT m' = [\<lparr>unTimerId = 1, unEscape = 50, unTime = 100, unTimes = 2, tm_pMT = 1000\<rparr>]"
proof -
  let ?t = "\<lparr>unTimerId = 1, unEscape = 50, unTime = 40, unTimes = 3, tm_pMT = 1000\<rparr>"
  obtain m where m: "mod_new (ao_ops (MEM_CACHE 0)) 1000 256 64 = Some m" "mod_holds m []" "mod_room m = 64"
    using mod_new_ok [of 64 "MEM_CACHE 0" 1000 256] by auto
  have due: "timer_due 100 ?t" by (simp add: timer_due_def)
  have h: "mod_holds (m\<lparr>m_lstMT := [?t]\<rparr>) []" "mod_room (m\<lparr>m_lstMT := [?t]\<rparr>) = 64"
    using m(2,3) by (simp_all add: mod_holds_def mod_room_def)
  from proc_timer_fires_due [OF h(1), of 100] h(2) due m(1) show ?thesis
    by (auto simp: fire_timer_def)
qed

text \<open>A timer set to run for ever (count \<open>0xFFFFFFFF\<close>) gets the tick of its first expiry as its count:
  after that many further expiries the count is 0 and the next round removes the timer.\<close>

theorem forever_timer_stops:
  assumes "unTimes t = 0xFFFFFFFF" and "n0 \<noteq> 0xFFFFFFFF" and "length nows = unat n0"
  shows "proc_timers now [fold fire_timer nows (fire_timer n0 t)] unMin m = Some ([], unMin, m)"
proof -
  have "unTimes (fold fire_timer ns x) = unTimes x - of_nat (length ns)"
    if "length ns \<le> unat (unTimes x)" "unTimes x \<noteq> 0xFFFFFFFF" for ns x
    using that
  proof (induction ns arbitrary: x)
    case (Cons n ns)
    have nz: "unTimes x \<noteq> 0" using Cons.prems(1) by auto
    have f: "unTimes (fire_timer n x) = unTimes x - 1" using Cons.prems(2) by (simp add: fire_timer_def)
    have u: "unat (unTimes x - 1) = unat (unTimes x) - 1"
      using nz by (simp add: unat_minus_one)
    have "unTimes x - 1 \<noteq> 0xFFFFFFFF"
    proof
      assume "unTimes x - 1 = 0xFFFFFFFF"
      then have "unat (unTimes x - 1) = 4294967295" by simp
      with u unat_lt [of "unTimes x"] show False by simp
    qed
    with Cons.IH [of "fire_timer n x"] Cons.prems(1) f u show ?case by simp
  qed simp
  moreover have "unTimes (fire_timer n0 t) = n0" using assms(1) by (simp add: fire_timer_def)
  ultimately have "unTimes (fold fire_timer nows (fire_timer n0 t)) = n0 - of_nat (unat n0)"
    using assms(2,3) by simp
  then show ?thesis by simp
qed

theorem forever_timer_stops_witness:
  "\<forall>m. proc_timers 30 [fold fire_timer [10, 20] (fire_timer 2
      \<lparr>unTimerId = 1, unEscape = 10, unTime = 0, unTimes = 0xFFFFFFFF, tm_pMT = 1000\<rparr>)] 100000 m
    = Some ([], 100000, m)"
  by (intro allI forever_timer_stops) simp_all

end
