(* ===== verification/Ao_Dispatcher.thy ===== *)
theory Ao_Dispatcher
  imports Ao_Module
begin

text \<open>
  The dispatcher between modules (\<open>util/ModuleDispatcher.cpp\<close>): two ordered maps from identifiers to
  modules, one of them of monitors that see every message. The modules live in a store from addresses
  to mailboxes, so that a module registered twice is one mailbox. The dispatcher uses nothing but
  \<open>PostMsg\<close> and is verified against the interface \<open>mailbox\<close>; the module of \<open>Ao_Module\<close> provides it.
\<close>

section \<open>State and operations\<close>

record dispatcher =
  m_mapIM :: "(u32 \<times> u32) list"
  m_mapMIM :: "(u32 \<times> u32) list"

text \<open>\<open>m[k] = v\<close> on a \<open>std::map\<close>, kept as its ordered list of entries.\<close>

fun imap_put :: "u32 \<Rightarrow> u32 \<Rightarrow> (u32 \<times> u32) list \<Rightarrow> (u32 \<times> u32) list" where
  "imap_put k v [] = [(k, v)]"
| "imap_put k v ((k', v') # es) =
     (if k < k' then (k, v) # (k', v') # es
      else if k = k' then (k, v) # es else (k', v') # imap_put k v es)"

definition disp_append :: "(u32 \<Rightarrow> u32) \<Rightarrow> u32 \<Rightarrow> dispatcher \<Rightarrow> dispatcher" where
  "disp_append oid p d = d\<lparr>m_mapIM := imap_put (oid p) p (m_mapIM d)\<rparr>"

definition disp_append_monitor :: "(u32 \<Rightarrow> u32) \<Rightarrow> u32 \<Rightarrow> dispatcher \<Rightarrow> dispatcher" where
  "disp_append_monitor oid p d = d\<lparr>m_mapMIM := imap_put (oid p) p (m_mapMIM d)\<rparr>"

definition EN_MODULE_ID_BROADCAST :: u32 where "EN_MODULE_ID_BROADCAST = 0"

definition disp_dispatch ::
    "('s \<Rightarrow> (bool \<times> 's) option) \<Rightarrow> u32 \<Rightarrow> dispatcher \<Rightarrow> (u32 \<Rightarrow> 's) \<Rightarrow> (bool \<times> (u32 \<Rightarrow> 's)) option" where
  "disp_dispatch post unRMI d st = do {
     st1 \<leftarrow> post_each post (map snd (m_mapMIM d)) st;
     if unRMI = EN_MODULE_ID_BROADCAST then do {
       st2 \<leftarrow> post_each post (map snd (m_mapIM d)) st1;
       Some (True, st2) }
     else (case map_of (m_mapIM d) unRMI of
             None \<Rightarrow> Some (False, st1)
           | Some a \<Rightarrow> do { (ok, s') \<leftarrow> post (st1 a); Some (ok, st1(a := s')) }) }"

text \<open>\<open>CModule::SendOutMsg\<close> with the parameters of \<open>PostMsg\<close>.\<close>

definition mod_send_out ::
    "u32 \<Rightarrow> u32 \<Rightarrow> bytes option \<Rightarrow> u32 \<Rightarrow> u32 \<Rightarrow> u32 \<Rightarrow> u32 \<Rightarrow> dispatcher \<Rightarrow> (u32 \<Rightarrow> ao_module) \<Rightarrow>
     (bool \<times> (u32 \<Rightarrow> ao_module)) option" where
  "mod_send_out unRMI code pucData unLen recver sender smi d st =
     disp_dispatch (mod_post code pucData unLen recver sender smi) unRMI d st"

section \<open>The ordered map\<close>

lemma map_of_imap_put: "map_of (imap_put k v es) = (map_of es)(k \<mapsto> v)"
  by (induction k v es rule: imap_put.induct) (auto simp: fun_eq_iff)

lemma imap_put_keys: "set (map fst (imap_put k v es)) = insert k (set (map fst es))"
  by (induction k v es rule: imap_put.induct) auto

lemma imap_put_sorted:
  "sorted_wrt (<) (map fst es) \<Longrightarrow> sorted_wrt (<) (map fst (imap_put k v es))"
proof (induction k v es rule: imap_put.induct)
  case (2 k v k' v' es)
  then show ?case using imap_put_keys [of k v es] by (auto simp: not_less order.order_iff_strict)
qed simp

text \<open>Registered modules are found by identifier, and each is in the map once.\<close>

definition disp_wf :: "(u32 \<Rightarrow> u32) \<Rightarrow> dispatcher \<Rightarrow> bool" where
  "disp_wf oid d \<longleftrightarrow> sorted_wrt (<) (map fst (m_mapIM d)) \<and> sorted_wrt (<) (map fst (m_mapMIM d)) \<and>
     (\<forall>(k, p)\<in>set (m_mapIM d) \<union> set (m_mapMIM d). oid p = k)"

lemma imap_put_set: "set (imap_put k v es) \<subseteq> insert (k, v) (set es)"
  by (induction k v es rule: imap_put.induct) auto

lemma disp_append_wf: "disp_wf oid d \<Longrightarrow> disp_wf oid (disp_append oid p d)"
  using imap_put_set [of "oid p" p "m_mapIM d"] imap_put_sorted [of "m_mapIM d" "oid p" p]
  unfolding disp_wf_def disp_append_def by auto

lemma disp_append_monitor_wf: "disp_wf oid d \<Longrightarrow> disp_wf oid (disp_append_monitor oid p d)"
  using imap_put_set [of "oid p" p "m_mapMIM d"] imap_put_sorted [of "m_mapMIM d" "oid p" p]
  unfolding disp_wf_def disp_append_monitor_def by auto

lemma disp_wf_distinct:
  fixes es :: "(u32 \<times> u32) list"
  assumes "sorted_wrt (<) (map fst es)" and "\<forall>(k, p)\<in>set es. oid p = k"
  shows "distinct (map snd es)"
proof -
  have "distinct (map fst es)" using assms(1) by (simp add: strict_sorted_iff)
  moreover have "map fst es = map oid (map snd es)" using assms(2) by (auto simp: case_prod_beta)
  ultimately show ?thesis by (metis distinct_map)
qed

context mailbox begin

lemma dispatch_ok:
  assumes "distinct (map snd (m_mapIM d))" and "distinct (map snd (m_mapMIM d))"
    and "snd ` set (m_mapIM d) \<inter> snd ` set (m_mapMIM d) = {}"
    and "\<forall>a \<in> snd ` set (m_mapIM d) \<union> snd ` set (m_mapMIM d). holds (st a) (q a) \<and> size_of m \<le> room (st a)"
    and "fit m"
  shows "\<exists>st'. disp_dispatch (post m) rmi d st = Some (rmi = 0 \<or> map_of (m_mapIM d) rmi \<noteq> None, st') \<and>
     (\<forall>a. if a \<in> snd ` set (m_mapMIM d) \<or> (if rmi = 0 then a \<in> snd ` set (m_mapIM d)
              else map_of (m_mapIM d) rmi = Some a)
          then holds (st' a) (q a @ [m]) else st' a = st a)"
proof -
  obtain st1 where st1: "post_each (post m) (map snd (m_mapMIM d)) st = Some st1"
    "\<And>a. if a \<in> snd ` set (m_mapMIM d) then holds (st1 a) (q a @ [m]) else st1 a = st a"
    using post_each_ok [OF assms(2) _ assms(5), of st q] assms(4) by auto
  have im: "\<forall>a\<in>snd ` set (m_mapIM d). st1 a = st a \<and> holds (st1 a) (q a) \<and> size_of m \<le> room (st1 a)"
  proof
    fix a assume a: "a \<in> snd ` set (m_mapIM d)"
    with assms(3) st1(2) [of a] have "st1 a = st a" by (auto split: if_splits)
    with assms(4) a show "st1 a = st a \<and> holds (st1 a) (q a) \<and> size_of m \<le> room (st1 a)" by auto
  qed
  show ?thesis
  proof (cases "rmi = 0")
    case True
    obtain st2 where st2: "post_each (post m) (map snd (m_mapIM d)) st1 = Some st2"
      "\<And>a. if a \<in> snd ` set (m_mapIM d) then holds (st2 a) (q a @ [m]) else st2 a = st1 a"
    proof -
      have "\<forall>a\<in>set (map snd (m_mapIM d)). holds (st1 a) (q a) \<and> size_of m \<le> room (st1 a)"
        using im unfolding set_map by blast
      from post_each_ok [OF assms(1) this assms(5)] that show ?thesis by auto
    qed
    have "if a \<in> snd ` set (m_mapMIM d) \<or> a \<in> snd ` set (m_mapIM d)
        then holds (st2 a) (q a @ [m]) else st2 a = st a" for a
      using st1(2) [of a] st2(2) [of a] by (auto split: if_splits)
    with True st1(1) st2(1) show ?thesis by (simp add: disp_dispatch_def EN_MODULE_ID_BROADCAST_def)
  next
    case False
    show ?thesis
    proof (cases "map_of (m_mapIM d) rmi")
      case None
      with False st1 show ?thesis by (simp add: disp_dispatch_def EN_MODULE_ID_BROADCAST_def)
    next
      case (Some b)
      then have b: "b \<in> snd ` set (m_mapIM d)" by (force dest: map_of_SomeD)
      with im obtain s' where s': "post m (st1 b) = Some (True, s')" "holds s' (q b @ [m])"
        using post_ok [OF _ assms(5)] by blast
      have "if a \<in> snd ` set (m_mapMIM d) \<or> Some b = Some a
          then holds ((st1(b := s')) a) (q a @ [m]) else (st1(b := s')) a = st a" for a
        using st1(2) [of a] s'(2) by auto
      moreover have "disp_dispatch (post m) rmi d st = Some (True, st1(b := s'))"
        using False Some st1(1) s'(1) by (simp add: disp_dispatch_def EN_MODULE_ID_BROADCAST_def)
      ultimately show ?thesis
        using False Some by (intro exI [of _ "st1(b := s')"]) (simp del: fun_upd_apply)
    qed
  qed
qed

end

section \<open>Messages without a receiver\<close>

text \<open>\<open>PostMsg\<close> puts the module itself where the receiver is null.\<close>

definition resolve :: "u32 \<Rightarrow> mt_msg \<Rightarrow> mt_msg" where
  "resolve this x = ((fst x)\<lparr>pRecver := (if pRecver (fst x) = 0 then this else pRecver (fst x))\<rparr>, snd x)"

definition mod_inbox :: "ao_module \<Rightarrow> mt_msg list \<Rightarrow> bool" where
  "mod_inbox m ms \<longleftrightarrow> m_this m \<noteq> 0 \<and> mod_holds m (map (resolve (m_this m)) ms)"

lemma mod_inbox_post:
  assumes "mod_inbox m ms" and "mt_ok x" and "20 + length (snd x) \<le> mod_room m"
  shows "\<exists>m'. mod_post_msg x m = Some (True, m') \<and> mod_inbox m' (ms @ [x]) \<and>
     mod_room m' = mod_room m - (20 + length (snd x))"
proof -
  let ?x = "resolve (m_this m) x"
  have h: "m_this m \<noteq> 0" "mod_holds m (map (resolve (m_this m)) ms)"
    using assms(1) by (simp_all add: mod_inbox_def)
  then have wf: "m_bRun m" "md_wf (m_pProductMD m)" by (simp_all add: mod_holds_def)
  have x: "mt_ok ?x" "pRecver (fst ?x) \<noteq> 0" "20 + length (snd ?x) \<le> mod_room m"
    using assms(2,3) h(1) by (simp_all add: resolve_def mt_ok_def)
  have e: "mod_post_msg ?x m = mod_post_msg x m"
    using h(1) by (simp add: mod_post_msg_def mod_post_def resolve_def Let_def)
  obtain dd where dd: "mod_post_msg ?x m = Some (True, m\<lparr>m_pProductMD := dd\<rparr>)"
    using mod_post_bytes [OF wf x] by blast
  from mod_post_ok [OF h(2) x] dd have
    "mod_holds (m\<lparr>m_pProductMD := dd\<rparr>) (map (resolve (m_this m)) ms @ [?x])"
    "mod_room (m\<lparr>m_pProductMD := dd\<rparr>) = mod_room m - (20 + length (snd ?x))" by auto
  then have "mod_inbox (m\<lparr>m_pProductMD := dd\<rparr>) (ms @ [x])"
    "mod_room (m\<lparr>m_pProductMD := dd\<rparr>) = mod_room m - (20 + length (snd x))"
    using h(1) by (simp_all add: mod_inbox_def) (simp add: resolve_def)
  with dd e show ?thesis by (metis (no_types, lifting))
qed

interpretation inbox: mailbox mod_inbox mod_post_msg mt_ok "\<lambda>x. 20 + length (snd x)" mod_room
  using mod_inbox_post by unfold_locales blast

section \<open>Properties\<close>

text \<open>C23: routing. With every registered mailbox able to take the message, a dispatch delivers it to
  every monitor and, for the broadcast identifier, to every registered module, otherwise to the
  module of that identifier alone; no other mailbox changes, and the answer tells whether there was
  a receiver.\<close>

theorem dispatch_routes:
  assumes "disp_wf oid d" and "snd ` set (m_mapIM d) \<inter> snd ` set (m_mapMIM d) = {}"
    and "\<forall>a \<in> snd ` set (m_mapIM d) \<union> snd ` set (m_mapMIM d).
       mod_inbox (st a) (q a) \<and> 20 + length p \<le> mod_room (st a)"
    and "length p < 2 ^ 31"
  shows "\<exists>st'. mod_send_out rmi code (Some p) (of_nat (length p)) recver sender smi d st =
       Some (rmi = EN_MODULE_ID_BROADCAST \<or> map_of (m_mapIM d) rmi \<noteq> None, st') \<and>
     (\<forall>a. if a \<in> snd ` set (m_mapMIM d) \<or> (if rmi = EN_MODULE_ID_BROADCAST then a \<in> snd ` set (m_mapIM d)
              else map_of (m_mapIM d) rmi = Some a)
          then mod_inbox (st' a) (q a @ [(\<lparr>unSMI = smi, unMsgCode = code, unDataLen = of_nat (length p),
                 pRecver = recver, pSender = sender\<rparr>, p)])
          else st' a = st a)"
proof -
  let ?x = "(\<lparr>unSMI = smi, unMsgCode = code, unDataLen = of_nat (length p), pRecver = recver,
      pSender = sender\<rparr>, p)"
  have "mt_ok ?x" using assms(4) by (simp add: mt_ok_def)
  moreover have "distinct (map snd (m_mapIM d))" "distinct (map snd (m_mapMIM d))"
    using assms(1) by (auto simp: disp_wf_def intro: disp_wf_distinct)
  ultimately show ?thesis
    using inbox.dispatch_ok [OF _ _ assms(2), of st q ?x rmi] assms(3)
    by (simp add: mod_send_out_def mod_post_msg_def [abs_def] EN_MODULE_ID_BROADCAST_def)
qed

theorem dispatch_routes_witness:
  "\<exists>m st'. mod_new (ao_ops (MEM_CACHE 0)) 1000 256 64 = Some m \<and>
     mod_send_out 256 7 (Some [1, 2]) 2 0 0 9
       (disp_append (\<lambda>_. 256) 1000 \<lparr>m_mapIM = [], m_mapMIM = []\<rparr>) (\<lambda>_. m) = Some (True, st') \<and>
     mod_inbox (st' 1000) [(\<lparr>unSMI = 9, unMsgCode = 7, unDataLen = 2, pRecver = 0, pSender = 0\<rparr>, [1, 2])]"
proof -
  obtain m where m: "mod_new (ao_ops (MEM_CACHE 0)) 1000 256 64 = Some m" "mod_holds m []" "mod_room m = 64"
    "m_this m = 1000"
    using mod_new_ok [of 64 "MEM_CACHE 0" 1000 256] by auto
  let ?d = "disp_append (\<lambda>_. 256) 1000 \<lparr>m_mapIM = [], m_mapMIM = []\<rparr>"
  have "disp_wf (\<lambda>_. 256) \<lparr>m_mapIM = [], m_mapMIM = []\<rparr>" by (simp add: disp_wf_def)
  then have wf: "disp_wf (\<lambda>_. 256) ?d" by (rule disp_append_wf)
  have im: "m_mapIM ?d = [(256, 1000)]" "m_mapMIM ?d = []" by (simp_all add: disp_append_def)
  have "mod_inbox m []" using m(2,4) by (simp add: mod_inbox_def)
  then have a: "\<forall>a \<in> snd ` set (m_mapIM ?d) \<union> snd ` set (m_mapMIM ?d).
      mod_inbox ((\<lambda>_. m) a) ((\<lambda>_. []) a) \<and> 20 + length [1 :: u8, 2] \<le> mod_room ((\<lambda>_. m) a)"
    using m(3) by (simp add: im)
  have b: "snd ` set (m_mapIM ?d) \<inter> snd ` set (m_mapMIM ?d) = {}" "length [1 :: u8, 2] < 2 ^ 31"
    by (simp_all add: im)
  from dispatch_routes [OF wf b(1) a b(2), of 256 7 0 0 9] m(1) show ?thesis
    by (fastforce simp: im EN_MODULE_ID_BROADCAST_def split: if_splits)
qed

end
