(* ===== verification/Ao_CJson.thy ===== *)
theory Ao_CJson
  imports Ao_Prelude Complex_Main
begin

text \<open>
  The JSON parser and printer of \<open>util/CJson.cpp\<close>. The text handed to the parser is the bytes
  before the terminating NUL, so \<^term>\<open>[]\<close> is the position of the terminator and stepping past it is
  a fault. Floating-point arithmetic is exact rational arithmetic followed by \<open>rnd\<close> (the rounding
  of the platform's \<open>double\<close>), \<open>pow10 e\<close> is what \<open>pow(10.0, e)\<close> answers, and \<open>fmt_double\<close> is
  \<open>sprintf\<close> with \<open>%f\<close> or \<open>%e\<close>, all parameters. Memory is assumed to suffice.
\<close>

section \<open>Values\<close>

datatype cjson = JFalse | JTrue | JNull | JNumber int rat | JString bytes | JArray "cjson list"
  | JObject "(bytes \<times> cjson) list"

datatype 'a parse = PFuel | PFault | PFail | POk 'a bytes

definition peek :: "bytes \<Rightarrow> u8" where
  "peek s = (case s of [] \<Rightarrow> 0 | c # _ \<Rightarrow> c)"

lemma peek_simps [simp]: "peek [] = 0" "peek (c # s) = c"
  by (simp_all add: peek_def)

definition is_digit :: "u8 \<Rightarrow> bool" where
  "is_digit c \<longleftrightarrow> 48 \<le> c \<and> c \<le> 57"

fun skip :: "bytes \<Rightarrow> bytes" where
  "skip [] = []"
| "skip (c # s) = (if c \<noteq> 0 \<and> c \<le> 32 then skip s else c # s)"

section \<open>Numbers\<close>

fun num_digits :: "(rat \<Rightarrow> rat) \<Rightarrow> rat \<Rightarrow> bytes \<Rightarrow> rat \<times> bytes" where
  "num_digits rnd n [] = (n, [])"
| "num_digits rnd n (c # s) =
     (if is_digit c then num_digits rnd (rnd (rnd (n * 10) + of_nat (unat (c - 48)))) s else (n, c # s))"

fun num_frac :: "(rat \<Rightarrow> rat) \<Rightarrow> rat \<Rightarrow> int \<Rightarrow> bytes \<Rightarrow> rat \<times> int \<times> bytes" where
  "num_frac rnd n scale [] = (n, scale, [])"
| "num_frac rnd n scale (c # s) =
     (if is_digit c then num_frac rnd (rnd (rnd (n * 10) + of_nat (unat (c - 48)))) (scale - 1) s
      else (n, scale, c # s))"

text \<open>The exponent is a signed \<open>int\<close>; its overflow is undefined.\<close>

fun num_exp :: "int \<Rightarrow> bytes \<Rightarrow> (int \<times> bytes) option" where
  "num_exp n [] = Some (n, [])"
| "num_exp n (c # s) =
     (if is_digit c then
        (let n' = n * 10 + int (unat (c - 48)) in if n' \<ge> 2 ^ 31 then None else num_exp n' s)
      else Some (n, c # s))"

text \<open>\<open>(int)n\<close> truncates; out of range the x86 conversion answers \<open>INT_MIN\<close>.\<close>

definition int_of_double :: "rat \<Rightarrow> int" where
  "int_of_double q = (let t = (if q < 0 then \<lceil>q\<rceil> else \<lfloor>q\<rfloor>) in
     if - (2 ^ 31) \<le> t \<and> t < 2 ^ 31 then t else - (2 ^ 31))"

definition parse_number :: "(rat \<Rightarrow> rat) \<Rightarrow> (int \<Rightarrow> rat) \<Rightarrow> bytes \<Rightarrow> cjson parse" where
  "parse_number rnd pow10 s =
     (let sign = (if peek s = 45 then - 1 else 1);
          s1 = (if peek s = 45 then tl s else s);
          s2 = (if peek s1 = 48 then tl s1 else s1);
          (n1, s3) = (if 49 \<le> peek s2 \<and> peek s2 \<le> 57 then num_digits rnd 0 s2 else (0, s2));
          (n2, scale, s4) = (if peek s3 = 46 \<and> is_digit (peek (tl s3))
                             then num_frac rnd n1 0 (tl s3) else (n1, 0, s3)) in
      if peek s4 = 101 \<or> peek s4 = 69 then
        (let t = tl s4;
             signsub = (if peek t \<noteq> 43 \<and> peek t = 45 then - 1 else 1);
             t1 = (if peek t = 43 \<or> peek t = 45 then tl t else t) in
         case num_exp 0 t1 of
           None \<Rightarrow> PFault
         | Some (sub, r) \<Rightarrow>
             (let d = rnd (sign * n2 * pow10 (scale + sub * signsub)) in
              POk (JNumber (int_of_double d) d) r))
      else (let d = rnd (sign * n2 * pow10 scale) in POk (JNumber (int_of_double d) d) s4))"

section \<open>Strings\<close>

definition hex_val :: "u8 \<Rightarrow> u32 option" where
  "hex_val c =
     (if 48 \<le> c \<and> c \<le> 57 then Some (ucast (c - 48))
      else if 65 \<le> c \<and> c \<le> 70 then Some (10 + ucast (c - 65))
      else if 97 \<le> c \<and> c \<le> 102 then Some (10 + ucast (c - 97)) else None)"

text \<open>Four hexadecimal digits, or 0 at the first other character.\<close>

definition parse_hex4 :: "bytes \<Rightarrow> u32" where
  "parse_hex4 s =
     (case do { a \<leftarrow> hex_val (peek s); b \<leftarrow> hex_val (peek (tl s)); c \<leftarrow> hex_val (peek (tl (tl s)));
                d \<leftarrow> hex_val (peek (tl (tl (tl s))));
                Some (push_bit 4 (push_bit 4 (push_bit 4 a + b) + c) + d) } of
        None \<Rightarrow> 0 | Some h \<Rightarrow> h)"

definition utf8_enc :: "u32 \<Rightarrow> bytes" where
  "utf8_enc uc =
     (let low = (\<lambda>w. ucast ((w OR 0x80) AND 0xBF)) in
      if uc < 0x80 then [ucast uc]
      else if uc < 0x800 then [ucast (drop_bit 6 uc OR 0xC0), low uc]
      else if uc < 0x10000 then [ucast (drop_bit 12 uc OR 0xE0), low (drop_bit 6 uc), low uc]
      else [ucast (drop_bit 18 uc OR 0xF0), low (drop_bit 12 uc), low (drop_bit 6 uc), low uc])"

text \<open>The first pass: how many bytes to allocate.\<close>

fun str_len :: "bytes \<Rightarrow> nat option" where
  "str_len [] = Some 0"
| "str_len (c # s) =
     (if c = 34 then Some 0
      else if c = 92 then (case s of [] \<Rightarrow> None | _ # s' \<Rightarrow> map_option Suc (str_len s'))
      else map_option Suc (str_len s))"

definition esc_char :: "u8 \<Rightarrow> u8" where
  "esc_char d = (if d = 98 then 8 else if d = 102 then 12 else if d = 110 then 10
     else if d = 114 then 13 else if d = 116 then 9 else d)"

text \<open>The second pass: the bytes written and the rest of the text.\<close>

definition out_cons :: "bytes \<Rightarrow> (bytes \<times> bytes) option \<Rightarrow> (bytes \<times> bytes) option" where
  "out_cons x r = map_option (\<lambda>(out, rest). (x @ out, rest)) r"

function str_body :: "bytes \<Rightarrow> (bytes \<times> bytes) option" where
  "str_body s =
     (case s of
        [] \<Rightarrow> Some ([], [])
      | c # cs \<Rightarrow>
          if c = 34 then Some ([], cs)
          else if c \<noteq> 92 then out_cons [c] (str_body cs)
          else (case cs of
             [] \<Rightarrow> None
           | d # ds \<Rightarrow>
               if d \<noteq> 117 then out_cons [esc_char d] (str_body ds)
               else if length ds < 4 then None
               else (let uc = parse_hex4 ds; r = drop 4 ds in
                 if (0xDC00 \<le> uc \<and> uc \<le> 0xDFFF) \<or> uc = 0 then str_body r
                 else if 0xD800 \<le> uc \<and> uc \<le> 0xDBFF then
                   (if peek r \<noteq> 92 \<or> peek (tl r) \<noteq> 117 then str_body r
                    else if length r < 6 then None
                    else (let uc2 = parse_hex4 (drop 2 r); r2 = drop 6 r in
                      if uc2 < 0xDC00 \<or> 0xDFFF < uc2 then str_body r2
                      else out_cons (utf8_enc (0x10000 + (push_bit 10 (uc AND 0x3FF) OR (uc2 AND 0x3FF))))
                             (str_body r2)))
                 else out_cons (utf8_enc uc) (str_body r))))"
  by pat_completeness auto
termination
  by (relation "measure length") (auto simp: less_Suc_eq_le)

declare str_body.simps [simp del]

definition parse_string :: "bytes \<Rightarrow> bytes parse" where
  "parse_string s =
     (if peek s \<noteq> 34 then PFail
      else (case (str_len (tl s), str_body (tl s)) of
              (Some len, Some (out, rest)) \<Rightarrow> if length out \<le> len then POk out rest else PFault
            | _ \<Rightarrow> PFault))"

section \<open>The parser\<close>

text \<open>
  \<open>n\<close> is fuel for the recursion over nested values and their lists; \<open>cjson_parse\<close> gives more
  than the text is long.
\<close>

fun parse_value :: "(rat \<Rightarrow> rat) \<Rightarrow> (int \<Rightarrow> rat) \<Rightarrow> nat \<Rightarrow> bytes \<Rightarrow> cjson parse"
  and parse_elems :: "(rat \<Rightarrow> rat) \<Rightarrow> (int \<Rightarrow> rat) \<Rightarrow> nat \<Rightarrow> bytes \<Rightarrow> cjson list parse"
  and parse_members :: "(rat \<Rightarrow> rat) \<Rightarrow> (int \<Rightarrow> rat) \<Rightarrow> nat \<Rightarrow> bytes \<Rightarrow> (bytes \<times> cjson) list parse" where
  "parse_value rnd pow10 0 s = PFuel"
| "parse_value rnd pow10 (Suc n) s =
     (if take 4 s = [110, 117, 108, 108] then POk JNull (drop 4 s)
      else if take 5 s = [102, 97, 108, 115, 101] then POk JFalse (drop 5 s)
      else if take 4 s = [116, 114, 117, 101] then POk JTrue (drop 4 s)
      else if peek s = 34 then map_parse JString (parse_string s)
      else if peek s = 45 \<or> is_digit (peek s) then parse_number rnd pow10 s
      else if peek s = 91 then
        (let v = skip (tl s) in
         if peek v = 93 then POk (JArray []) (tl v)
         else (case parse_elems rnd pow10 n v of
                 POk xs r \<Rightarrow> if peek r = 93 then POk (JArray xs) (tl r) else PFail
               | e \<Rightarrow> map_parse JArray e))
      else if peek s = 123 then
        (let v = skip (tl s) in
         if peek v = 125 then POk (JObject []) (tl v)
         else (case parse_members rnd pow10 n v of
                 POk xs r \<Rightarrow> if peek r = 125 then POk (JObject xs) (tl r) else PFail
               | e \<Rightarrow> map_parse JObject e))
      else PFail)"
| "parse_elems rnd pow10 0 s = PFuel"
| "parse_elems rnd pow10 (Suc n) s =
     (case parse_value rnd pow10 n s of
        POk x r \<Rightarrow>
          (let r' = skip r in
           if peek r' = 44 then map_parse (\<lambda>xs. x # xs) (parse_elems rnd pow10 n (skip (tl r')))
           else POk [x] r')
      | e \<Rightarrow> map_parse (\<lambda>x. [x]) e)"
| "parse_members rnd pow10 0 s = PFuel"
| "parse_members rnd pow10 (Suc n) s =
     (case parse_string s of
        POk k r0 \<Rightarrow>
          (let r = skip r0 in
           if peek r \<noteq> 58 then PFail
           else (case parse_value rnd pow10 n (skip (tl r)) of
                   POk x r1 \<Rightarrow>
                     (let r' = skip r1 in
                      if peek r' = 44
                      then map_parse (\<lambda>xs. (k, x) # xs) (parse_members rnd pow10 n (skip (tl r')))
                      else POk [(k, x)] r')
                 | e \<Rightarrow> map_parse (\<lambda>x. [(k, x)]) e))
      | e \<Rightarrow> map_parse (\<lambda>k. []) e)"

definition cjson_parse :: "(rat \<Rightarrow> rat) \<Rightarrow> (int \<Rightarrow> rat) \<Rightarrow> bytes \<Rightarrow> cjson parse" where
  "cjson_parse rnd pow10 s = parse_value rnd pow10 (Suc (2 * length s)) (skip s)"

section \<open>The printer\<close>

fun dec :: "nat \<Rightarrow> bytes" where
  "dec n = (if n < 10 then [48 + of_nat n] else dec (n div 10) @ [48 + of_nat (n mod 10)])"

declare dec.simps [simp del]

definition print_int :: "int \<Rightarrow> bytes" where
  "print_int i = (if i < 0 then 45 # dec (nat (- i)) else dec (nat i))"

definition print_number :: "(rat \<Rightarrow> bytes) \<Rightarrow> int \<Rightarrow> rat \<Rightarrow> bytes" where
  "print_number fmt_double i d =
     (if d = 0 then [48]
      else if \<bar>of_int i - d\<bar> \<le> 1 / 2 ^ 52 \<and> d \<le> 2 ^ 31 - 1 \<and> - (2 ^ 31) \<le> d then print_int i
      else fmt_double d)"

definition hex_dig :: "nat \<Rightarrow> u8" where
  "hex_dig n = (if n < 10 then 48 + of_nat n else 87 + of_nat n)"

definition esc_out :: "u8 \<Rightarrow> bytes" where
  "esc_out c =
     (if 31 < c \<and> c \<noteq> 34 \<and> c \<noteq> 92 then [c]
      else 92 # (if c = 92 then [92] else if c = 34 then [34] else if c = 8 then [98]
        else if c = 12 then [102] else if c = 10 then [110] else if c = 13 then [114]
        else if c = 9 then [116]
        else [117, 48, 48, hex_dig (unat c div 16), hex_dig (unat c mod 16)]))"

definition print_string :: "bytes \<Rightarrow> bytes" where
  "print_string s =
     (if \<exists>c \<in> set s. (0 < c \<and> c < 32) \<or> c = 34 \<or> c = 92
      then 34 # concat (map esc_out s) @ [34] else 34 # s @ [34])"

text \<open>The items between the brackets, with the separators of the formatted and the plain form.\<close>

fun print_value :: "(rat \<Rightarrow> bytes) \<Rightarrow> bool \<Rightarrow> nat \<Rightarrow> cjson \<Rightarrow> bytes"
  and print_elems :: "(rat \<Rightarrow> bytes) \<Rightarrow> bool \<Rightarrow> nat \<Rightarrow> cjson list \<Rightarrow> bytes"
  and print_members :: "(rat \<Rightarrow> bytes) \<Rightarrow> bool \<Rightarrow> nat \<Rightarrow> (bytes \<times> cjson) list \<Rightarrow> bytes" where
  "print_value fd fmt depth JNull = [110, 117, 108, 108]"
| "print_value fd fmt depth JFalse = [102, 97, 108, 115, 101]"
| "print_value fd fmt depth JTrue = [116, 114, 117, 101]"
| "print_value fd fmt depth (JNumber i d) = print_number fd i d"
| "print_value fd fmt depth (JString s) = print_string s"
| "print_value fd fmt depth (JArray xs) = 91 # print_elems fd fmt (Suc depth) xs @ [93]"
| "print_value fd fmt depth (JObject kvs) =
     123 # (if fmt then [10] else []) @
     (if kvs = [] then (if fmt then replicate (depth - 1) 9 else [])
      else print_members fd fmt (Suc depth) kvs @ (if fmt then replicate depth 9 else [])) @ [125]"
| "print_elems fd fmt depth [] = []"
| "print_elems fd fmt depth (x # xs) =
     print_value fd fmt depth x @
     (if xs = [] then [] else 44 # (if fmt then [32] else []) @ print_elems fd fmt depth xs)"
| "print_members fd fmt depth [] = []"
| "print_members fd fmt depth ((k, x) # kvs) =
     (if fmt then replicate depth 9 else []) @ print_string k @ 58 # (if fmt then [9] else []) @
     print_value fd fmt depth x @ (if kvs = [] then [] else [44]) @ (if fmt then [10] else []) @
     print_members fd fmt depth kvs"

section \<open>Access\<close>

definition c_tolower :: "u8 \<Rightarrow> u8" where
  "c_tolower c = (if 65 \<le> c \<and> c \<le> 90 then c + 32 else c)"

definition same_name :: "bytes \<Rightarrow> bytes \<Rightarrow> bool" where
  "same_name a b \<longleftrightarrow> map c_tolower a = map c_tolower b"

fun children :: "cjson \<Rightarrow> (bytes option \<times> cjson) list" where
  "children (JArray xs) = map (\<lambda>x. (None, x)) xs"
| "children (JObject kvs) = map (\<lambda>(k, x). (Some k, x)) kvs"
| "children _ = []"

text \<open>\<open>cJSON_GetObjectItem\<close>: names compare without case; an array's items have no name.\<close>

definition get_object_item :: "cjson \<Rightarrow> bytes \<Rightarrow> cjson option" where
  "get_object_item j name =
     map_option snd (find (\<lambda>(k, x). case k of None \<Rightarrow> False | Some k' \<Rightarrow> same_name k' name) (children j))"

definition get_array_size :: "cjson \<Rightarrow> nat" where
  "get_array_size j = length (children j)"

definition get_array_item :: "cjson \<Rightarrow> int \<Rightarrow> cjson option" where
  "get_array_item j item =
     (if nat item < length (children j) then Some (snd (children j ! nat item)) else None)"

definition add_item_to_object :: "cjson \<Rightarrow> bytes \<Rightarrow> cjson \<Rightarrow> cjson" where
  "add_item_to_object j name x = (case j of JObject kvs \<Rightarrow> JObject (kvs @ [(name, x)]) | _ \<Rightarrow> j)"

definition valuestring :: "cjson \<Rightarrow> bytes option" where
  "valuestring j = (case j of JString s \<Rightarrow> Some s | _ \<Rightarrow> None)"

definition valueint :: "cjson \<Rightarrow> int" where
  "valueint j = (case j of JNumber i _ \<Rightarrow> i | JTrue \<Rightarrow> 1 | _ \<Rightarrow> 0)"

section \<open>Strings print and parse back\<close>

lemma str_body_nil [simp]: "str_body [] = Some ([], [])"
  by (subst str_body.simps) simp

lemma str_body_quote [simp]: "str_body (34 # s) = Some ([], s)"
  by (subst str_body.simps) simp

lemma str_body_plain: "c \<noteq> 34 \<Longrightarrow> c \<noteq> 92 \<Longrightarrow> str_body (c # s) = out_cons [c] (str_body s)"
  by (subst str_body.simps) simp

lemma str_body_esc1: "d \<noteq> 117 \<Longrightarrow> str_body (92 # d # s) = out_cons [esc_char d] (str_body s)"
  by (subst str_body.simps) simp

lemma str_body_u:
  "length ds \<ge> 4 \<Longrightarrow> parse_hex4 ds = uc \<Longrightarrow> uc \<noteq> 0 \<Longrightarrow> uc < 0x80 \<Longrightarrow>
     str_body (92 # 117 # ds) = out_cons [ucast uc] (str_body (drop 4 ds))"
proof -
  assume a: "length ds \<ge> 4" "parse_hex4 ds = uc" "uc \<noteq> 0" "uc < 0x80"
  from a(4) have "unat uc < 128" by (simp add: word_less_nat_alt)
  then have "\<not> 0xDC00 \<le> uc" "\<not> 0xD800 \<le> uc" by (simp_all add: word_le_nat_alt)
  with a show ?thesis
    by (subst str_body.simps) (simp add: Let_def utf8_enc_def)
qed

lemma small_bytes:
  fixes c :: u8
  assumes "c < 32" shows "c \<in> (\<lambda>n. of_nat n) ` {..<32}"
proof -
  have "unat c < 32" using assms by (simp add: word_less_nat_alt)
  then show ?thesis by (intro image_eqI [of _ _ "unat c"]) simp_all
qed

lemma str_body_esc_u:
  assumes "0 < c" and "c < 32"
  shows "str_body (92 # 117 # 48 # 48 # hex_dig (unat c div 16) # hex_dig (unat c mod 16) # s) =
     out_cons [c] (str_body s)"
proof -
  from small_bytes [OF assms(2)] obtain n where n: "n < 32" "c = of_nat n" by auto
  then have u: "unat c = n" by (simp add: unat_of_nat)
  have "n \<in> set [0..<32]" using n by simp
  then have h: "parse_hex4 (48 # 48 # hex_dig (n div 16) # hex_dig (n mod 16) # s) = of_nat n"
    unfolding upt_rec [of 0] by (simp add: upt_rec) (elim disjE; simp add: parse_hex4_def hex_val_def hex_dig_def)
  have "unat (of_nat n :: u32) = n" using n by (simp add: unat_of_nat)
  moreover have "n \<noteq> 0" using assms(1) n by (intro notI) simp
  ultimately have "(of_nat n :: u32) < 0x80" "(of_nat n :: u32) \<noteq> 0"
    using n by (auto simp: word_less_nat_alt simp del: of_nat_eq_0_iff)
  moreover have "ucast (of_nat n :: u32) = c"
    using n(1) unfolding n(2) by (simp add: unsigned_of_nat take_bit_nat_eq_self)
  ultimately have "(of_nat n :: u32) < 0x80" "(of_nat n :: u32) \<noteq> 0" "ucast (of_nat n :: u32) = c"
    by blast+
  with h u show ?thesis
    by (subst str_body_u [where uc = "of_nat n"]) simp_all
qed

lemma str_body_esc: "c \<noteq> 0 \<Longrightarrow> str_body (esc_out c @ s) = out_cons [c] (str_body s)"
proof (cases "31 < c \<and> c \<noteq> 34 \<and> c \<noteq> 92")
  case True
  then show ?thesis by (simp add: esc_out_def str_body_plain)
next
  case False
  assume nz: "c \<noteq> 0"
  show ?thesis
  proof (cases "c \<in> {92, 34, 8, 12, 10, 13, 9}")
    case True
    then show ?thesis by (auto simp: esc_out_def str_body_esc1 esc_char_def)
  next
    case other: False
    with False have "\<not> 31 < c" by auto
    then have "c < 32" by (simp add: word_less_nat_alt)
    moreover have "0 < c" using nz by (simp add: word_gt_0)
    ultimately show ?thesis
      using other False by (simp add: esc_out_def str_body_esc_u)
  qed
qed

lemma hex_dig_plain: "n < 16 \<Longrightarrow> hex_dig n \<noteq> 34 \<and> hex_dig n \<noteq> 92"
proof -
  assume "n < 16"
  then have "n \<in> set [0..<16]" by simp
  then show ?thesis by (simp add: upt_rec) (elim disjE; simp add: hex_dig_def)
qed

lemma str_len_esc: "\<exists>k. str_len (esc_out c @ s) = map_option (\<lambda>n. Suc k + n) (str_len s)"
proof (cases "31 < c \<and> c \<noteq> 34 \<and> c \<noteq> 92")
  case True
  then show ?thesis
    by (intro exI [of _ 0]) (simp add: esc_out_def)
next
  case False
  show ?thesis
  proof (cases "c \<in> {92, 34, 8, 12, 10, 13, 9}")
    case True
    then show ?thesis by (intro exI [of _ 0]) (auto simp: esc_out_def)
  next
    case other: False
    have "unat c < 256" using unat_lt [of c] by simp
    with other False show ?thesis
      by (intro exI [of _ 4], cases "str_len s") (auto simp: esc_out_def hex_dig_plain)
  qed
qed

lemma str_esc_all:
  "nul_free s \<Longrightarrow> str_body (concat (map esc_out s) @ 34 # r) = Some (s, r) \<and>
     (\<exists>n. str_len (concat (map esc_out s) @ 34 # r) = Some n \<and> length s \<le> n)"
proof (induction s)
  case (Cons c s)
  then have c: "c \<noteq> 0" "nul_free s" by (auto simp: nul_free_def)
  obtain k where "str_len (esc_out c @ concat (map esc_out s) @ 34 # r) =
      map_option (\<lambda>n. Suc k + n) (str_len (concat (map esc_out s) @ 34 # r))"
    using str_len_esc by blast
  with Cons.IH [OF c(2)] show ?case
    by (auto simp: str_body_esc [OF c(1)] out_cons_def)
qed simp

lemma str_plain_all:
  "\<forall>c\<in>set s. c \<noteq> 34 \<and> c \<noteq> 92 \<Longrightarrow>
     str_body (s @ 34 # r) = Some (s, r) \<and> str_len (s @ 34 # r) = Some (length s)"
  by (induction s) (auto simp: str_body_plain out_cons_def)

lemma parse_print_string: "nul_free s \<Longrightarrow> parse_string (print_string s @ r) = POk s r"
proof -
  assume s: "nul_free s"
  show ?thesis
  proof (cases "\<exists>c \<in> set s. (0 < c \<and> c < 32) \<or> c = 34 \<or> c = 92")
    case True
    with str_esc_all [OF s, of r] show ?thesis
      by (auto simp: print_string_def parse_string_def)
  next
    case False
    then have "\<forall>c\<in>set s. c \<noteq> 34 \<and> c \<noteq> 92" by blast
    with str_plain_all [OF this, of r] False show ?thesis
      by (auto simp: print_string_def parse_string_def)
  qed
qed

lemma print_string_head: "\<exists>t. print_string s = 34 # t"
  by (simp add: print_string_def)

section \<open>Numbers print and parse back\<close>

definition exact_ints :: "(rat \<Rightarrow> rat) \<Rightarrow> (int \<Rightarrow> rat) \<Rightarrow> bool" where
  "exact_ints rnd pow10 \<longleftrightarrow> pow10 0 = 1 \<and> (\<forall>i. \<bar>i\<bar> \<le> 2 ^ 53 \<longrightarrow> rnd (of_int i) = of_int i)"

definition stops :: "bytes \<Rightarrow> bool" where
  "stops r \<longleftrightarrow> \<not> is_digit (peek r) \<and> peek r \<noteq> 46 \<and> peek r \<noteq> 101 \<and> peek r \<noteq> 69"

lemma digit_byte: "k < 10 \<Longrightarrow> is_digit (48 + of_nat k) \<and> unat (48 + of_nat k - 48 :: u8) = k"
proof -
  assume "k < 10"
  then have "k \<in> set [0..<10]" by simp
  then show ?thesis by (simp add: upt_rec) (elim disjE; simp add: is_digit_def)
qed

lemma num_digits_stop: "\<not> is_digit (peek r) \<Longrightarrow> num_digits rnd n r = (n, r)"
  by (cases r) auto

lemma num_digits_step:
  assumes "k < 10"
  shows "num_digits rnd n ((48 + of_nat k) # s) = num_digits rnd (rnd (rnd (n * 10) + of_nat k)) s"
  using digit_byte [OF assms] by (simp only: num_digits.simps if_True)

lemma num_digits_dec:
  assumes ex: "exact_ints rnd pow10"
  shows "a * 10 ^ length (dec n) + n \<le> 2 ^ 53 \<Longrightarrow>
     num_digits rnd (of_nat a) (dec n @ r) = num_digits rnd (of_nat (a * 10 ^ length (dec n) + n)) r"
proof (induction n arbitrary: r rule: dec.induct)
  case (1 n)
  have r: "rnd (of_nat k) = of_nat k" if "k \<le> 2 ^ 53" for k
  proof -
    have "\<bar>int k\<bar> \<le> 2 ^ 53" using that by simp
    then have "rnd (of_int (int k)) = of_int (int k)" using ex unfolding exact_ints_def by blast
    then show ?thesis by simp
  qed
  show ?case
  proof (cases "n < 10")
    case True
    then have d: "dec n = [48 + of_nat n]" by (simp add: dec.simps)
    have "rnd (of_nat a * 10) = of_nat (a * 10)" "rnd (of_nat (a * 10 + n)) = of_nat (a * 10 + n)"
      using r [of "a * 10"] r [of "a * 10 + n"] "1.prems" d by simp_all
    then have "rnd (rnd (of_nat a * 10) + of_nat n) = (of_nat (a * 10 + n) :: rat)"
      by (simp only: of_nat_add)
    then have "num_digits rnd (of_nat a) ((48 + of_nat n) # r) = num_digits rnd (of_nat (a * 10 + n)) r"
      by (simp only: num_digits_step [OF True])
    then show ?thesis
      by (simp only: d append_Cons append_Nil list.size power_one_right add_0 One_nat_def [symmetric])
  next
    case False
    let ?m = "n div 10" and ?k = "n mod 10"
    have d: "dec n = dec ?m @ [48 + of_nat ?k]" using False by (subst dec.simps) simp
    let ?A = "a * 10 ^ length (dec ?m) + ?m"
    have le: "?A * 10 + ?k \<le> 2 ^ 53" and eq: "?A * 10 + ?k = a * 10 ^ length (dec n) + n"
      using "1.prems" d by (simp_all add: algebra_simps)
    have "num_digits rnd (of_nat a) (dec ?m @ ([48 + of_nat ?k] @ r)) =
        num_digits rnd (of_nat ?A) ([48 + of_nat ?k] @ r)"
      by (rule "1.IH" [OF False], rule order_trans [OF _ le]) simp
    moreover have "rnd (of_nat ?A * 10) = of_nat (?A * 10)"
      "rnd (of_nat (?A * 10 + ?k)) = of_nat (?A * 10 + ?k)"
      using r [of "?A * 10"] r [of "?A * 10 + ?k"] le by simp_all
    moreover have "num_digits rnd (of_nat ?A) ([48 + of_nat ?k] @ r) =
        num_digits rnd (rnd (rnd (of_nat ?A * 10) + of_nat ?k)) r"
      by (simp only: append_Cons append_Nil) (rule num_digits_step, simp)
    moreover have "rnd (rnd (of_nat ?A * 10) + of_nat ?k) = (of_nat (?A * 10 + ?k) :: rat)"
    proof -
      have "rnd (of_nat ?A * 10) + of_nat ?k = (of_nat (?A * 10 + ?k) :: rat)"
        using calculation(2) by (simp only: of_nat_add)
      then show ?thesis using calculation(3) by (simp only:)
    qed
    ultimately have "num_digits rnd (of_nat a) (dec ?m @ ([48 + of_nat ?k] @ r)) =
        num_digits rnd (of_nat (?A * 10 + ?k)) r"
      by (simp only:)
    then show ?thesis unfolding eq by (simp only: d append_assoc)
  qed
qed

lemma dec_head: "0 < n \<Longrightarrow> \<exists>c t. dec n = c # t \<and> 49 \<le> c \<and> c \<le> 57"
proof (induction n rule: dec.induct)
  case (1 n)
  show ?case
  proof (cases "n < 10")
    case True
    then have "n \<in> set [1..<10]" using "1.prems" by simp
    then show ?thesis by (simp add: upt_rec) (elim disjE; simp add: dec.simps)
  next
    case False
    then show ?thesis using "1.IH" by (subst dec.simps) fastforce
  qed
qed

lemma length_dec_le: "n < 10 ^ k \<Longrightarrow> 0 < k \<Longrightarrow> length (dec n) \<le> k"
proof (induction n arbitrary: k rule: dec.induct)
  case (1 n)
  show ?case
  proof (cases "n < 10")
    case True
    then show ?thesis using "1.prems" by (simp add: dec.simps)
  next
    case False
    then obtain j where j: "k = Suc j" "0 < j"
      using "1.prems" by (cases k; cases "k - 1") auto
    then have "n div 10 < 10 ^ j" using "1.prems"(1) by (simp add: div_less_iff_less_mult mult.commute)
    with "1.IH" [OF False this j(2)] False j show ?thesis by (subst dec.simps) simp
  qed
qed

lemma int_of_double_int: "\<bar>i\<bar> < 2 ^ 31 \<Longrightarrow> int_of_double (of_int i) = i"
  by (auto simp: int_of_double_def)

lemma parse_print_int:
  assumes ex: "exact_ints rnd pow10" and i: "\<bar>i\<bar> < 2 ^ 31" and st: "stops r" and nz: "i \<noteq> 0"
  shows "parse_number rnd pow10 (print_int i @ r) = POk (JNumber i (of_int i)) r"
proof -
  define n where "n = nat \<bar>i\<bar>"
  have n: "0 < n" "n \<le> 2 ^ 53" using nz i by (simp_all add: n_def)
  obtain c t where c: "dec n = c # t" "49 \<le> c" "c \<le> 57" using dec_head [OF n(1)] by blast
  have ne: "c \<noteq> 45" "c \<noteq> 48" using c(2) by auto
  have dig: "num_digits rnd 0 (c # t @ r) = (of_nat n, r)"
    using num_digits_dec [OF ex, of 0 n r] n(2) num_digits_stop [of r] st c(1) by (simp add: stops_def)
  let ?sign = "if i < 0 then - 1 else 1 :: rat"
  have s: "?sign * of_nat n * pow10 0 = of_int i"
    using ex by (auto simp: n_def exact_ints_def)
  have d: "rnd (of_int i) = of_int i" using ex i by (auto simp: exact_ints_def)
  have pr: "print_int i @ r = (if i < 0 then [45] else []) @ c # t @ r"
    using nz c(1) by (auto simp: print_int_def n_def)
  have r: "peek r \<noteq> 46" "peek r \<noteq> 101" "peek r \<noteq> 69" using st by (simp_all add: stops_def)
  show ?thesis
  proof (cases "i < 0")
    case True
    with s d r ne c(2,3) dig show ?thesis
      unfolding pr by (simp add: parse_number_def int_of_double_int [OF i])
  next
    case False
    with s d r ne c(2,3) dig show ?thesis
      unfolding pr by (simp add: parse_number_def int_of_double_int [OF i])
  qed
qed

lemma parse_print_zero:
  assumes ex: "exact_ints rnd pow10" and st: "stops r"
  shows "parse_number rnd pow10 (48 # r) = POk (JNumber 0 0) r"
proof -
  have z: "rnd 0 = 0" using ex unfolding exact_ints_def by (metis abs_zero of_int_0 zero_le_numeral zero_le_power)
  have n: "(49 \<le> peek r \<and> peek r \<le> 57) = False"
    using st by (auto simp: stops_def is_digit_def word_le_nat_alt)
  have o: "peek r \<noteq> 46" "peek r \<noteq> 101" "peek r \<noteq> 69" using st by (simp_all add: stops_def)
  have h: "peek (48 # r) = 48" "tl (48 # r) = r" by simp_all
  show ?thesis
    unfolding parse_number_def Let_def h n using o z by (simp add: n int_of_double_def)
qed

definition number_ok :: "int \<Rightarrow> rat \<Rightarrow> bool" where
  "number_ok i d \<longleftrightarrow> \<bar>i\<bar> < 2 ^ 31 \<and> d = of_int i"

lemma parse_print_number:
  assumes ex: "exact_ints rnd pow10" and "number_ok i d" and st: "stops r"
  shows "parse_number rnd pow10 (print_number fd i d @ r) = POk (JNumber i d) r"
proof (cases "i = 0")
  case True
  with assms show ?thesis by (simp add: print_number_def number_ok_def parse_print_zero)
next
  case False
  have b: "(of_int i :: rat) \<le> 2 ^ 31 - 1" "- (2 ^ 31) \<le> (of_int i :: rat)"
    using assms(2) by (simp_all add: number_ok_def) linarith+
  with assms False show ?thesis
    by (simp add: print_number_def number_ok_def parse_print_int)
qed

section \<open>Values print and parse back\<close>

fun json_ok :: "cjson \<Rightarrow> bool" where
  "json_ok (JNumber i d) = number_ok i d"
| "json_ok (JString s) = nul_free s"
| "json_ok (JArray xs) = (\<forall>x\<in>set xs. json_ok x)"
| "json_ok (JObject kvs) = (\<forall>p\<in>set kvs. nul_free (fst p) \<and> json_ok (snd p))"
| "json_ok _ = True"

lemma skip_replicate [simp]: "skip (replicate k 9 @ s) = skip s"
  by (induction k) auto

lemma skip_ink: "32 < c \<Longrightarrow> skip (c # s) = c # s"
  by (auto simp: linorder_not_le [symmetric])

lemma print_int_head: "i \<noteq> 0 \<Longrightarrow> \<exists>c t. print_int i = c # t \<and> (c = 45 \<or> is_digit c)"
proof -
  assume "i \<noteq> 0"
  then have "0 < nat \<bar>i\<bar>" by simp
  from dec_head [OF this] obtain c t where "dec (nat \<bar>i\<bar>) = c # t" "49 \<le> c" "c \<le> 57" by blast
  then show ?thesis
    by (cases "i < 0") (auto simp: print_int_def is_digit_def word_le_nat_alt)
qed

lemma print_number_int:
  assumes "number_ok i d" shows "print_number fd i d = (if i = 0 then [48] else print_int i)"
proof -
  have "(of_int i :: rat) \<le> 2 ^ 31 - 1" "- (2 ^ 31) \<le> (of_int i :: rat)"
    using assms by (simp_all add: number_ok_def) linarith+
  with assms show ?thesis by (simp add: print_number_def number_ok_def)
qed

lemma number_head:
  assumes "number_ok i d" shows "\<exists>c t. print_number fd i d = c # t \<and> (c = 45 \<or> is_digit c)"
  using assms print_int_head [of i] by (cases "i = 0") (auto simp: print_number_int is_digit_def)

lemma digit_range: "c = 45 \<or> is_digit c \<Longrightarrow> 32 < c \<and> c \<le> 57"
  by (auto simp: is_digit_def word_le_nat_alt word_less_nat_alt)

lemma print_value_head:
  assumes "json_ok v"
  shows "\<exists>c t. print_value fd fmt depth v = c # t \<and> 32 < c \<and> c \<noteq> 93 \<and> c \<noteq> 125 \<and> c \<noteq> 44"
proof (cases v)
  case (JNumber i d)
  with number_head [of i d fd] assms obtain c t where
    "print_number fd i d = c # t" "c = 45 \<or> is_digit c" by auto
  moreover have "32 < c \<and> c \<noteq> 93 \<and> c \<noteq> 125 \<and> c \<noteq> 44"
    using calculation(2) by (auto simp: is_digit_def word_le_nat_alt word_less_nat_alt)
  ultimately show ?thesis using JNumber by simp
next
  case (JString s)
  with print_string_head [of s] show ?thesis by auto
qed auto

lemma skip_print_value: "json_ok v \<Longrightarrow> skip (print_value fd fmt depth v @ r) = print_value fd fmt depth v @ r"
  using print_value_head [of v fd fmt depth] by (auto simp: skip_ink)

lemma skip_print_string: "skip (print_string s @ r) = print_string s @ r"
  using print_string_head [of s] by auto

lemma parse_value_number:
  assumes "exact_ints rnd pow10" and ok: "number_ok i d" and "stops r"
  shows "parse_value rnd pow10 (Suc n) (print_number fd i d @ r) = POk (JNumber i d) r"
proof -
  from number_head [OF ok, of fd] obtain c t where c: "print_number fd i d = c # t" "c = 45 \<or> is_digit c"
    by blast
  have ne: "c \<noteq> 110" "c \<noteq> 102" "c \<noteq> 116" "c \<noteq> 34"
    using c(2) by (auto simp: is_digit_def word_le_nat_alt)
  have p: "parse_number rnd pow10 (c # t @ r) = POk (JNumber i d) r"
    using parse_print_number [OF assms, of fd] c(1) by simp
  show ?thesis using c ne p by simp
qed

lemma parse_value_string:
  "nul_free s \<Longrightarrow> parse_value rnd pow10 (Suc n) (print_string s @ r) = POk (JString s) r"
proof -
  assume s: "nul_free s"
  obtain t where t: "print_string s = 34 # t" using print_string_head by blast
  show ?thesis using parse_print_string [OF s, of r] by (simp add: t)
qed

lemma parse_print_all:
  assumes ex: "exact_ints rnd pow10"
  shows "json_ok v \<Longrightarrow> stops r \<Longrightarrow> 2 * length (print_value fd fmt depth v) < n \<Longrightarrow>
      parse_value rnd pow10 n (print_value fd fmt depth v @ r) = POk v r"
    and "xs \<noteq> [] \<Longrightarrow> \<forall>x\<in>set xs. json_ok x \<Longrightarrow> 2 * length (print_elems fd fmt depth xs) + 1 < n \<Longrightarrow>
      parse_elems rnd pow10 n (print_elems fd fmt depth xs @ 93 # r) = POk xs (93 # r)"
    and "kvs \<noteq> [] \<Longrightarrow> \<forall>p\<in>set kvs. nul_free (fst p) \<and> json_ok (snd p) \<Longrightarrow>
      2 * length (print_members fd fmt depth kvs) + 1 < n \<Longrightarrow>
      parse_members rnd pow10 n (skip (print_members fd fmt depth kvs @ replicate k 9 @ 125 # r)) = POk kvs (125 # r)"
proof (induction fd fmt depth v and fd fmt depth xs and fd fmt depth kvs arbitrary: n r and n r and n r k
    rule: print_value_print_elems_print_members.induct)
  case (1 fd fmt depth)
  then obtain n' where "n = Suc n'" by (cases n) auto
  then show ?case by simp
next
  case (2 fd fmt depth)
  then obtain n' where "n = Suc n'" by (cases n) auto
  then show ?case by simp
next
  case (3 fd fmt depth)
  then obtain n' where "n = Suc n'" by (cases n) auto
  then show ?case by simp
next
  case (4 fd fmt depth i d)
  then obtain n' where "n = Suc n'" by (cases n) auto
  with 4 parse_value_number [OF ex, of i d r n' fd] show ?case by simp
next
  case (5 fd fmt depth s)
  then obtain n' where "n = Suc n'" by (cases n) auto
  with 5 parse_value_string [of s] show ?case by simp
next
  case (6 fd fmt depth xs)
  then obtain n' where n: "n = Suc n'" by (cases n) auto
  show ?case
  proof (cases "xs = []")
    case True
    then show ?thesis by (simp add: n is_digit_def)
  next
    case False
    then obtain x xs' where xs: "xs = x # xs'" by (cases xs) auto
    have x: "json_ok x" using 6 xs by simp
    obtain c t where c: "print_value fd fmt (Suc depth) x = c # t" "32 < c" "c \<noteq> 93"
      using print_value_head [OF x, of fd fmt "Suc depth"] by blast
    have h: "\<exists>t'. print_elems fd fmt (Suc depth) xs = c # t'" using c(1) by (simp add: xs)
    then obtain t' where t': "print_elems fd fmt (Suc depth) xs = c # t'" by blast
    have "parse_elems rnd pow10 n' (print_elems fd fmt (Suc depth) xs @ 93 # r) = POk xs (93 # r)"
      using "6.IH" [OF False, of n' r] "6.prems" n by simp
    moreover have "\<not> c \<le> 32" using c(2) by simp
    ultimately show ?thesis using c(3) t' by (simp add: n is_digit_def)
  qed
next
  case (7 fd fmt depth kvs)
  then obtain n' where n: "n = Suc n'" by (cases n) auto
  show ?case
  proof (cases "kvs = []")
    case True
    then show ?thesis by (cases fmt) (simp_all add: n is_digit_def)
  next
    case False
    obtain c t where t: "skip (print_members fd fmt (Suc depth) kvs @ (if fmt then replicate depth 9 else []) @ 125 # r) = 34 # t"
    proof -
      obtain k x kvs' where "kvs = (k, x) # kvs'" using False by (cases kvs) auto
      moreover obtain u where "print_string k = 34 # u" using print_string_head by blast
      ultimately show ?thesis using that by (cases fmt) auto
    qed
    have "parse_members rnd pow10 n' (skip (print_members fd fmt (Suc depth) kvs @
        replicate (if fmt then depth else 0) 9 @ 125 # r)) = POk kvs (125 # r)"
      using "7.IH" [OF False, of n' "if fmt then depth else 0" r] "7.prems" n False by simp
    then show ?thesis using t False by (cases fmt) (simp_all add: n is_digit_def)
  qed
next
  case (8 fd fmt depth)
  then show ?case by simp
next
  case (9 fd fmt depth x xs)
  then obtain n' where n: "n = Suc n'" by (cases n) auto
  show ?case
  proof (cases "xs = []")
    case True
    have "parse_value rnd pow10 n' (print_value fd fmt depth x @ 93 # r) = POk x (93 # r)"
      using "9.IH"(1) [of "93 # r" n'] "9.prems" n True by (simp add: stops_def is_digit_def)
    then show ?thesis using True by (simp add: n)
  next
    case False
    let ?rest = "(if fmt then [32] else []) @ print_elems fd fmt depth xs @ 93 # r"
    have a: "parse_value rnd pow10 n' (print_value fd fmt depth x @ 44 # ?rest) = POk x (44 # ?rest)"
      using "9.IH"(1) [of "44 # ?rest" n'] "9.prems" n False by (simp add: stops_def is_digit_def)
    have b: "parse_elems rnd pow10 n' (print_elems fd fmt depth xs @ 93 # r) = POk xs (93 # r)"
      using "9.IH"(2) [OF False, of n' r] "9.prems" n False by simp
    obtain y ys where xs: "xs = y # ys" using False by (cases xs) auto
    have y: "json_ok y" using "9.prems" xs by simp
    have sk: "skip ?rest = print_elems fd fmt depth xs @ 93 # r"
      using skip_print_value [OF y, of fd fmt depth] by (cases fmt) (simp_all add: xs)
    show ?thesis using a b sk False by (simp add: n)
  qed
next
  case (10 fd fmt depth)
  then show ?case by simp
next
  case (11 fd fmt depth key x kvs)
  then obtain n' where n: "n = Suc n'" by (cases n) auto
  have key: "nul_free key" and x: "json_ok x" using "11.prems" by simp_all
  let ?tail = "replicate k 9 @ 125 # r"
  let ?nl = "if fmt then [10] else [] :: bytes"
  let ?after = "(if kvs = [] then [] else [44]) @ ?nl @ print_members fd fmt depth kvs @ ?tail"
  let ?val = "print_value fd fmt depth x"
  have s1: "skip (print_members fd fmt depth ((key, x) # kvs) @ ?tail) =
      print_string key @ 58 # (if fmt then [9] else []) @ ?val @ ?after"
    by (cases fmt) (simp_all add: skip_print_string)
  have sp: "skip ((if fmt then [9] else []) @ ?val @ ?after) = ?val @ ?after"
    by (cases fmt) (simp_all add: skip_print_value [OF x])
  have st: "stops ?after" by (cases fmt; cases "kvs = []"; cases k) (simp_all add: stops_def is_digit_def)
  have v: "parse_value rnd pow10 n' (?val @ ?after) = POk x ?after"
    using "11.IH"(1) [OF x st, of n'] "11.prems" n by simp
  show ?case
  proof (cases "kvs = []")
    case True
    have "skip ?after = 125 # r" using True by (cases fmt) simp_all
    then show ?thesis unfolding s1 n using v sp True
      by (simp add: parse_print_string [OF key] del: append_assoc)
  next
    case False
    have m: "parse_members rnd pow10 n' (skip (print_members fd fmt depth kvs @ ?tail)) = POk kvs (125 # r)"
      using "11.IH"(2) [OF False, of n' k r] "11.prems" n False by simp
    have sk: "skip (?nl @ print_members fd fmt depth kvs @ ?tail) = skip (print_members fd fmt depth kvs @ ?tail)"
      by (cases fmt) simp_all
    show ?thesis unfolding s1 n using v sp m sk False
      by (simp add: parse_print_string [OF key])
  qed
qed

section \<open>Properties\<close>

text \<open>C18: A value whose strings hold no NUL and whose numbers are 32-bit integers prints, with or
  without formatting, to a text that \<open>cJSON_Parse\<close> reads back as the same value.\<close>

theorem json_roundtrip:
  assumes "exact_ints rnd pow10" and "json_ok v"
  shows "cjson_parse rnd pow10 (print_value fd fmt depth v) = POk v []"
proof -
  have "skip (print_value fd fmt depth v @ []) = print_value fd fmt depth v @ []"
    by (rule skip_print_value [OF assms(2)])
  moreover have "stops []" by (simp add: stops_def is_digit_def)
  ultimately show ?thesis
    using parse_print_all(1) [OF assms, of "[]" fd fmt depth "Suc (2 * length (print_value fd fmt depth v))"]
    by (simp add: cjson_parse_def)
qed

theorem json_roundtrip_witness:
  "cjson_parse (\<lambda>q. q) (\<lambda>e. 10 powi e)
     (print_value (\<lambda>q. []) True 0
        (JObject [([97, 98], JArray [JNumber (- 12) (- 12), JNull]), ([34], JString [10, 92, 1, 200]), ([], JObject [])])) =
   POk (JObject [([97, 98], JArray [JNumber (- 12) (- 12), JNull]), ([34], JString [10, 92, 1, 200]), ([], JObject [])]) []"
  by (rule json_roundtrip) (simp_all add: exact_ints_def number_ok_def nul_free_def)

text \<open>An object printed by one side and parsed by the other answers every lookup by name with
  the value stored under it, in whatever case the name is asked for, when no two of its names differ
  only in case.\<close>

theorem json_fields_found:
  assumes "exact_ints rnd pow10" and "json_ok (JObject kvs)"
    and "distinct (map (map c_tolower \<circ> fst) kvs)" and "(k, x) \<in> set kvs" and "same_name k name"
  shows "\<exists>j. cjson_parse rnd pow10 (print_value fd fmt depth (JObject kvs)) = POk j [] \<and>
     get_object_item j name = Some x"
proof (intro exI conjI)
  have "stops []" by (simp add: stops_def is_digit_def)
  with parse_print_all(1) [OF assms(1,2) this, of fd fmt depth "Suc (2 * length (print_value fd fmt depth (JObject kvs)))"]
    skip_print_value [OF assms(2), of fd fmt depth "[]"]
  show "cjson_parse rnd pow10 (print_value fd fmt depth (JObject kvs)) = POk (JObject kvs) []"
    by (simp add: cjson_parse_def del: print_value.simps)
  show "get_object_item (JObject kvs) name = Some x"
    using assms(3,4,5)
  proof (induction kvs)
    case (Cons p kvs)
    obtain k' x' where p: "p = (k', x')" by fastforce
    show ?case
    proof (cases "same_name k' name")
      case True
      then have "map c_tolower k' = map c_tolower k" using Cons.prems(3) by (simp add: same_name_def)
      then have "(k, x) \<notin> set kvs" using Cons.prems(1) p by (force simp: image_iff)
      then show ?thesis using Cons.prems(2) p True by (simp add: get_object_item_def)
    next
      case False
      then have "(k, x) \<in> set kvs" using Cons.prems(2,3) p by auto
      then show ?thesis using Cons False p by (simp add: get_object_item_def)
    qed
  qed simp
qed

theorem json_fields_found_witness:
  "\<exists>j. cjson_parse (\<lambda>q. q) (\<lambda>e. 10 powi e) (print_value (\<lambda>q. []) False 0
       (JObject [([117, 105], JString [65]), ([100], JNumber 3 3)])) = POk j [] \<and>
     get_object_item j [68] = Some (JNumber 3 3)"
  by (rule json_fields_found [where k = "[100]"])
    (simp_all add: exact_ints_def number_ok_def nul_free_def c_tolower_def same_name_def)

lemma str_body_run:
  "\<forall>c\<in>set s. c \<noteq> 34 \<and> c \<noteq> 92 \<Longrightarrow> str_body (s @ 34 # r) = Some (s, r)"
  using str_plain_all by blast

text \<open>C35: \<open>parse_string\<close> sizes its buffer up to the first unescaped quote, but after \<open>\u\<close> it copies
  past four characters whatever they are: a string that ends right after \<open>\u\<close> makes it go on copying
  the text behind the quote, past the end of a two-byte allocation.\<close>

theorem unicode_escape_overflows:
  assumes "\<forall>c\<in>set s. c \<noteq> 34 \<and> c \<noteq> 92" and "2 \<le> length s"
  shows "cjson_parse rnd pow10 (34 # 92 # 117 # 34 # a # b # c # s @ 34 # r) = PFault"
proof -
  have h: "parse_hex4 (34 # a # b # c # s @ 34 # r) = 0"
    by (simp add: parse_hex4_def hex_val_def)
  have "str_body (92 # 117 # 34 # a # b # c # s @ 34 # r) = str_body (s @ 34 # r)"
    by (subst str_body.simps) (simp add: h Let_def)
  then have "str_body (92 # 117 # 34 # a # b # c # s @ 34 # r) = Some (s, r)"
    using str_body_run [OF assms(1)] by simp
  moreover have "str_len (92 # 117 # 34 # a # b # c # s @ 34 # r) = Some 1" by simp
  ultimately have "parse_string (34 # 92 # 117 # 34 # a # b # c # s @ 34 # r) = PFault"
    using assms(2) by (simp add: parse_string_def)
  then show ?thesis by (simp add: cjson_parse_def)
qed

theorem unicode_escape_overflows_witness:
  "cjson_parse (\<lambda>q. q) (\<lambda>e. 10 powi e) (34 # 92 # 117 # 34 # 44 # 32 # 32 # [65, 66, 67] @ 34 # []) = PFault"
  by (rule unicode_escape_overflows) simp_all

end
