(* ===== verification/Zl_InfTrees.thy ===== *)
theory Zl_InfTrees
  imports Main "HOL-Library.Monad_Syntax" "HOL-Library.Multiset"
begin

text \<open>
  The construction of Huffman decoding tables in \<open>util/zlib/inftrees.c\<close>. The counters stay far
  below their width (at most 288 symbols, codes of at most 15 bits), so they are natural numbers.
  The table space is the list of entries from \<open>*table\<close> on; a write outside it, a code length above
  15 and a symbol beyond \<open>work\<close> are undefined, the value \<^term>\<open>None\<close>.
\<close>

unbundle bit_operations_syntax

section \<open>Types and constants\<close>

datatype code = Code (c_op: nat) (c_bits: nat) (c_val: nat)

datatype codetype = CODES | LENS | DISTS

definition MAXBITS :: nat where "MAXBITS = 15"
definition ENOUGH_LENS :: nat where "ENOUGH_LENS = 852"
definition ENOUGH_DISTS :: nat where "ENOUGH_DISTS = 592"
definition ENOUGH :: nat where "ENOUGH = ENOUGH_LENS + ENOUGH_DISTS"

definition lbase :: "nat list" where
  "lbase = [3, 4, 5, 6, 7, 8, 9, 10, 11, 13, 15, 17, 19, 23, 27, 31,
     35, 43, 51, 59, 67, 83, 99, 115, 131, 163, 195, 227, 258, 0, 0]"

definition lext :: "nat list" where
  "lext = replicate 8 16 @ replicate 4 17 @ replicate 4 18 @ replicate 4 19 @ replicate 4 20 @
     replicate 4 21 @ [16, 77, 202]"

definition dbase :: "nat list" where
  "dbase = [1, 2, 3, 4, 5, 7, 9, 13, 17, 25, 33, 49, 65, 97, 129, 193,
     257, 385, 513, 769, 1025, 1537, 2049, 3073, 4097, 6145,
     8193, 12289, 16385, 24577, 0, 0]"

definition dext :: "nat list" where
  "dext = [16, 16, 16, 16, 17, 17, 18, 18, 19, 19, 20, 20, 21, 21, 22, 22,
     23, 23, 24, 24, 25, 25, 26, 26, 27, 27, 28, 28, 29, 29, 64, 64]"

section \<open>Counting and sorting\<close>

fun count_lens :: "nat list \<Rightarrow> nat list \<Rightarrow> nat list option" where
  "count_lens [] cnt = Some cnt"
| "count_lens (l # ls) cnt =
     (if l > MAXBITS then None else count_lens ls (cnt[l := cnt ! l + 1]))"

text \<open>The loops \<open>for (max = MAXBITS; max >= 1; max--)\<close> and \<open>for (min = 1; min < max; min++)\<close>.\<close>

fun max_len :: "nat list \<Rightarrow> nat \<Rightarrow> nat" where
  "max_len cnt 0 = 0"
| "max_len cnt (Suc m) = (if cnt ! Suc m \<noteq> 0 then Suc m else max_len cnt m)"

function min_len :: "nat list \<Rightarrow> nat \<Rightarrow> nat \<Rightarrow> nat" where
  "min_len cnt mx m = (if m < mx \<and> cnt ! m = 0 then min_len cnt mx (Suc m) else m)"
  by auto
termination by (relation "measure (\<lambda>(cnt, mx, m). mx - m)") auto

declare min_len.simps [simp del]

text \<open>How many codes are left after every length; \<^term>\<open>None\<close> when over-subscribed.\<close>

fun codes_left :: "nat list \<Rightarrow> nat \<Rightarrow> int \<Rightarrow> int option" where
  "codes_left cnt 0 left = Some left"
| "codes_left cnt (Suc n) left =
     (let left' = left * 2 - int (cnt ! (MAXBITS - n)) in
      if left' < 0 then None else codes_left cnt n left')"

function offsets :: "nat list \<Rightarrow> nat \<Rightarrow> nat \<Rightarrow> nat list" where
  "offsets cnt l off = (if l \<ge> MAXBITS then [off] else off # offsets cnt (Suc l) (off + cnt ! l))"
  by auto
termination by (relation "measure (\<lambda>(cnt, l, off). MAXBITS - l)") auto

declare offsets.simps [simp del]

text \<open>\<open>offs\<close> is indexed from length 1, so entry \<open>l - 1\<close> is \<open>offs[l]\<close>.\<close>

fun sort_syms :: "nat list \<Rightarrow> nat \<Rightarrow> nat list \<Rightarrow> nat list \<Rightarrow> nat list option" where
  "sort_syms [] sm offs work = Some work"
| "sort_syms (l # ls) sm offs work =
     (if l = 0 then sort_syms ls (Suc sm) offs work
      else if offs ! (l - 1) < length work
      then sort_syms ls (Suc sm) (offs[l - 1 := Suc (offs ! (l - 1))]) (work[offs ! (l - 1) := sm])
      else None)"

section \<open>Filling the table\<close>

definition code_entry :: "codetype \<Rightarrow> nat \<Rightarrow> nat \<Rightarrow> code option" where
  "code_entry type w bits =
     (let (base, extra, match) =
        (case type of CODES \<Rightarrow> ([], [], 20) | LENS \<Rightarrow> (lbase, lext, 257) | DISTS \<Rightarrow> (dbase, dext, 0)) in
      if w + 1 < match then Some (Code 0 bits w)
      else if w \<ge> match then
        (if w - match < length base then Some (Code (extra ! (w - match)) bits (base ! (w - match))) else None)
      else Some (Code 96 bits 0))"

function fill_code :: "code list \<Rightarrow> nat \<Rightarrow> nat \<Rightarrow> nat \<Rightarrow> code \<Rightarrow> code list option" where
  "fill_code tab pos incr fill here =
     (if incr = 0 \<or> fill < incr then None
      else (let fill' = fill - incr in
        if pos + fill' < length tab
        then (if fill' \<noteq> 0 then fill_code (tab[pos + fill' := here]) pos incr fill' here
              else Some (tab[pos + fill' := here]))
        else None))"
  by pat_completeness auto
termination by (relation "measure (\<lambda>(tab, pos, incr, fill, here). fill)") auto

declare fill_code.simps [simp del]

function top_clear :: "nat \<Rightarrow> nat \<Rightarrow> nat" where
  "top_clear huff incr = (if huff AND incr \<noteq> 0 then top_clear huff (incr div 2) else incr)"
  by auto
termination
  by (relation "measure snd") (auto intro!: div_less_dividend gr0I)

declare top_clear.simps [simp del]

definition next_huff :: "nat \<Rightarrow> nat \<Rightarrow> nat" where
  "next_huff len huff =
     (let incr = top_clear huff (2 ^ (len - 1)) in
      if incr \<noteq> 0 then (huff AND (incr - 1)) + incr else 0)"

text \<open>How many index bits the next sub-table needs.\<close>

function sub_bits :: "nat list \<Rightarrow> nat \<Rightarrow> nat \<Rightarrow> nat \<Rightarrow> int \<Rightarrow> nat" where
  "sub_bits cnt dr mx cur left =
     (if cur + dr < mx then
        (let left' = left - int (cnt ! (cur + dr)) in
         if left' \<le> 0 then cur else sub_bits cnt dr mx (Suc cur) (left' * 2))
      else cur)"
  by pat_completeness auto
termination by (relation "measure (\<lambda>(cnt, dr, mx, cur, left). mx - (cur + dr))") auto

declare sub_bits.simps [simp del]

record tab_state =
  t_count :: "nat list"
  t_len :: nat
  t_huff :: nat
  t_next :: nat
  t_curr :: nat
  t_drop :: nat
  t_low :: "nat option"
  t_used :: nat
  t_tab :: "code list"

definition too_big :: "codetype \<Rightarrow> nat \<Rightarrow> bool" where
  "too_big type used \<longleftrightarrow> (type = LENS \<and> used > ENOUGH_LENS) \<or> (type = DISTS \<and> used > ENOUGH_DISTS)"

definition new_sub :: "nat \<Rightarrow> nat \<Rightarrow> tab_state \<Rightarrow> tab_state" where
  "new_sub root mx t =
     (let dr = (if t_drop t = 0 then root else t_drop t);
          next' = t_next t + 2 ^ t_curr t;
          cur = sub_bits (t_count t) dr mx (t_len t - dr) (2 ^ (t_len t - dr)) in
      t\<lparr>t_drop := dr, t_next := next', t_curr := cur, t_used := t_used t + 2 ^ cur,
        t_low := Some (t_huff t mod 2 ^ root)\<rparr>)"

text \<open>
  The loop over the sorted symbols (\<open>low\<close> starts as \<open>(unsigned)(-1)\<close>, here \<^term>\<open>None\<close>, which no
  masked code equals); the list is \<open>work\<close> from \<open>sym\<close> on. The result is the return
  code and the final state.
\<close>

fun tab_loop :: "codetype \<Rightarrow> nat list \<Rightarrow> nat \<Rightarrow> nat \<Rightarrow> nat list \<Rightarrow> tab_state \<Rightarrow> (int \<times> tab_state) option" where
  "tab_loop type lens root mx [] t = None"
| "tab_loop type lens root mx (w # ws) t = do {
     here \<leftarrow> code_entry type w (t_len t - t_drop t);
     tab \<leftarrow> fill_code (t_tab t) (t_next t + t_huff t div 2 ^ t_drop t) (2 ^ (t_len t - t_drop t))
              (2 ^ t_curr t) here;
     let n = t_count t ! t_len t - 1;
     let t1 = t\<lparr>t_tab := tab, t_huff := next_huff (t_len t) (t_huff t),
                t_count := (t_count t)[t_len t := n]\<rparr>;
     if n = 0 \<and> t_len t = mx then Some (0, t1)
     else (case (if n = 0 then (case ws of [] \<Rightarrow> None | w' # _ \<Rightarrow> Some (lens ! w')) else Some (t_len t)) of
       None \<Rightarrow> None
     | Some len \<Rightarrow>
         let t2 = t1\<lparr>t_len := len\<rparr> in
         if len > root \<and> Some (t_huff t2 mod 2 ^ root) \<noteq> t_low t2 then
           (let t3 = new_sub root mx t2; low = t_huff t2 mod 2 ^ root in
            if too_big type (t_used t3) then Some (1, t3)
            else if low < length (t_tab t3)
            then tab_loop type lens root mx ws
                   (t3\<lparr>t_tab := (t_tab t3)[low := Code (t_curr t3) root (t_next t3)]\<rparr>)
            else None)
         else tab_loop type lens root mx ws t2) }"

text \<open>
  The whole routine: the return code, the table space afterwards, how many entries of it are used
  and the index bits of the root table. \<open>tab\<close> is the space from \<open>*table\<close> on.
\<close>

definition inflate_table :: "codetype \<Rightarrow> nat list \<Rightarrow> code list \<Rightarrow> nat \<Rightarrow> (int \<times> code list \<times> nat \<times> nat) option" where
  "inflate_table type lens tab bits = do {
     cnt \<leftarrow> count_lens lens (replicate (MAXBITS + 1) 0);
     let mx = max_len cnt MAXBITS;
     let root = min bits mx;
     if mx = 0 then
       (if 2 \<le> length tab
        then Some (0, tab[0 := Code 64 1 0, 1 := Code 64 1 0], 2, 1) else None)
     else do {
       let mn = min_len cnt mx 1;
       let root = (if root < mn then mn else root);
       (case codes_left cnt MAXBITS 1 of
          None \<Rightarrow> Some (-1, tab, 0, bits)
        | Some left \<Rightarrow>
            if left > 0 \<and> (type = CODES \<or> mx \<noteq> 1) then Some (-1, tab, 0, bits)
            else do {
              work \<leftarrow> sort_syms lens 0 (offsets cnt 1 0) (replicate 288 0);
              let t = \<lparr>t_count = cnt, t_len = mn, t_huff = 0, t_next = 0, t_curr = root, t_drop = 0,
                       t_low = None, t_used = 2 ^ root, t_tab = tab\<rparr>;
              if too_big type (t_used t) then Some (1, tab, 0, bits)
              else do {
                (ret, t1) \<leftarrow> tab_loop type lens root mx work t;
                if ret \<noteq> 0 then Some (ret, t_tab t1, 0, bits)
                else if t_huff t1 = 0 then Some (0, t_tab t1, t_used t1, root)
                else if t_next t1 + t_huff t1 < length (t_tab t1)
                then Some (0, (t_tab t1)[t_next t1 + t_huff t1 := Code 64 (t_len t1 - t_drop t1) 0],
                           t_used t1, root)
                else None } }) } }"

section \<open>The fixed tables\<close>

definition lenfix :: "code list" where
  "lenfix = [
     Code 96 7 0, Code 0 8 80, Code 0 8 16, Code 20 8 115, Code 18 7 31, Code 0 8 112,
     Code 0 8 48, Code 0 9 192, Code 16 7 10, Code 0 8 96, Code 0 8 32, Code 0 9 160,
     Code 0 8 0, Code 0 8 128, Code 0 8 64, Code 0 9 224, Code 16 7 6, Code 0 8 88,
     Code 0 8 24, Code 0 9 144, Code 19 7 59, Code 0 8 120, Code 0 8 56, Code 0 9 208,
     Code 17 7 17, Code 0 8 104, Code 0 8 40, Code 0 9 176, Code 0 8 8, Code 0 8 136,
     Code 0 8 72, Code 0 9 240, Code 16 7 4, Code 0 8 84, Code 0 8 20, Code 21 8 227,
     Code 19 7 43, Code 0 8 116, Code 0 8 52, Code 0 9 200, Code 17 7 13, Code 0 8 100,
     Code 0 8 36, Code 0 9 168, Code 0 8 4, Code 0 8 132, Code 0 8 68, Code 0 9 232,
     Code 16 7 8, Code 0 8 92, Code 0 8 28, Code 0 9 152, Code 20 7 83, Code 0 8 124,
     Code 0 8 60, Code 0 9 216, Code 18 7 23, Code 0 8 108, Code 0 8 44, Code 0 9 184,
     Code 0 8 12, Code 0 8 140, Code 0 8 76, Code 0 9 248, Code 16 7 3, Code 0 8 82,
     Code 0 8 18, Code 21 8 163, Code 19 7 35, Code 0 8 114, Code 0 8 50, Code 0 9 196,
     Code 17 7 11, Code 0 8 98, Code 0 8 34, Code 0 9 164, Code 0 8 2, Code 0 8 130,
     Code 0 8 66, Code 0 9 228, Code 16 7 7, Code 0 8 90, Code 0 8 26, Code 0 9 148,
     Code 20 7 67, Code 0 8 122, Code 0 8 58, Code 0 9 212, Code 18 7 19, Code 0 8 106,
     Code 0 8 42, Code 0 9 180, Code 0 8 10, Code 0 8 138, Code 0 8 74, Code 0 9 244,
     Code 16 7 5, Code 0 8 86, Code 0 8 22, Code 64 8 0, Code 19 7 51, Code 0 8 118,
     Code 0 8 54, Code 0 9 204, Code 17 7 15, Code 0 8 102, Code 0 8 38, Code 0 9 172,
     Code 0 8 6, Code 0 8 134, Code 0 8 70, Code 0 9 236, Code 16 7 9, Code 0 8 94,
     Code 0 8 30, Code 0 9 156, Code 20 7 99, Code 0 8 126, Code 0 8 62, Code 0 9 220,
     Code 18 7 27, Code 0 8 110, Code 0 8 46, Code 0 9 188, Code 0 8 14, Code 0 8 142,
     Code 0 8 78, Code 0 9 252, Code 96 7 0, Code 0 8 81, Code 0 8 17, Code 21 8 131,
     Code 18 7 31, Code 0 8 113, Code 0 8 49, Code 0 9 194, Code 16 7 10, Code 0 8 97,
     Code 0 8 33, Code 0 9 162, Code 0 8 1, Code 0 8 129, Code 0 8 65, Code 0 9 226,
     Code 16 7 6, Code 0 8 89, Code 0 8 25, Code 0 9 146, Code 19 7 59, Code 0 8 121,
     Code 0 8 57, Code 0 9 210, Code 17 7 17, Code 0 8 105, Code 0 8 41, Code 0 9 178,
     Code 0 8 9, Code 0 8 137, Code 0 8 73, Code 0 9 242, Code 16 7 4, Code 0 8 85,
     Code 0 8 21, Code 16 8 258, Code 19 7 43, Code 0 8 117, Code 0 8 53, Code 0 9 202,
     Code 17 7 13, Code 0 8 101, Code 0 8 37, Code 0 9 170, Code 0 8 5, Code 0 8 133,
     Code 0 8 69, Code 0 9 234, Code 16 7 8, Code 0 8 93, Code 0 8 29, Code 0 9 154,
     Code 20 7 83, Code 0 8 125, Code 0 8 61, Code 0 9 218, Code 18 7 23, Code 0 8 109,
     Code 0 8 45, Code 0 9 186, Code 0 8 13, Code 0 8 141, Code 0 8 77, Code 0 9 250,
     Code 16 7 3, Code 0 8 83, Code 0 8 19, Code 21 8 195, Code 19 7 35, Code 0 8 115,
     Code 0 8 51, Code 0 9 198, Code 17 7 11, Code 0 8 99, Code 0 8 35, Code 0 9 166,
     Code 0 8 3, Code 0 8 131, Code 0 8 67, Code 0 9 230, Code 16 7 7, Code 0 8 91,
     Code 0 8 27, Code 0 9 150, Code 20 7 67, Code 0 8 123, Code 0 8 59, Code 0 9 214,
     Code 18 7 19, Code 0 8 107, Code 0 8 43, Code 0 9 182, Code 0 8 11, Code 0 8 139,
     Code 0 8 75, Code 0 9 246, Code 16 7 5, Code 0 8 87, Code 0 8 23, Code 64 8 0,
     Code 19 7 51, Code 0 8 119, Code 0 8 55, Code 0 9 206, Code 17 7 15, Code 0 8 103,
     Code 0 8 39, Code 0 9 174, Code 0 8 7, Code 0 8 135, Code 0 8 71, Code 0 9 238,
     Code 16 7 9, Code 0 8 95, Code 0 8 31, Code 0 9 158, Code 20 7 99, Code 0 8 127,
     Code 0 8 63, Code 0 9 222, Code 18 7 27, Code 0 8 111, Code 0 8 47, Code 0 9 190,
     Code 0 8 15, Code 0 8 143, Code 0 8 79, Code 0 9 254, Code 96 7 0, Code 0 8 80,
     Code 0 8 16, Code 20 8 115, Code 18 7 31, Code 0 8 112, Code 0 8 48, Code 0 9 193,
     Code 16 7 10, Code 0 8 96, Code 0 8 32, Code 0 9 161, Code 0 8 0, Code 0 8 128,
     Code 0 8 64, Code 0 9 225, Code 16 7 6, Code 0 8 88, Code 0 8 24, Code 0 9 145,
     Code 19 7 59, Code 0 8 120, Code 0 8 56, Code 0 9 209, Code 17 7 17, Code 0 8 104,
     Code 0 8 40, Code 0 9 177, Code 0 8 8, Code 0 8 136, Code 0 8 72, Code 0 9 241,
     Code 16 7 4, Code 0 8 84, Code 0 8 20, Code 21 8 227, Code 19 7 43, Code 0 8 116,
     Code 0 8 52, Code 0 9 201, Code 17 7 13, Code 0 8 100, Code 0 8 36, Code 0 9 169,
     Code 0 8 4, Code 0 8 132, Code 0 8 68, Code 0 9 233, Code 16 7 8, Code 0 8 92,
     Code 0 8 28, Code 0 9 153, Code 20 7 83, Code 0 8 124, Code 0 8 60, Code 0 9 217,
     Code 18 7 23, Code 0 8 108, Code 0 8 44, Code 0 9 185, Code 0 8 12, Code 0 8 140,
     Code 0 8 76, Code 0 9 249, Code 16 7 3, Code 0 8 82, Code 0 8 18, Code 21 8 163,
     Code 19 7 35, Code 0 8 114, Code 0 8 50, Code 0 9 197, Code 17 7 11, Code 0 8 98,
     Code 0 8 34, Code 0 9 165, Code 0 8 2, Code 0 8 130, Code 0 8 66, Code 0 9 229,
     Code 16 7 7, Code 0 8 90, Code 0 8 26, Code 0 9 149, Code 20 7 67, Code 0 8 122,
     Code 0 8 58, Code 0 9 213, Code 18 7 19, Code 0 8 106, Code 0 8 42, Code 0 9 181,
     Code 0 8 10, Code 0 8 138, Code 0 8 74, Code 0 9 245, Code 16 7 5, Code 0 8 86,
     Code 0 8 22, Code 64 8 0, Code 19 7 51, Code 0 8 118, Code 0 8 54, Code 0 9 205,
     Code 17 7 15, Code 0 8 102, Code 0 8 38, Code 0 9 173, Code 0 8 6, Code 0 8 134,
     Code 0 8 70, Code 0 9 237, Code 16 7 9, Code 0 8 94, Code 0 8 30, Code 0 9 157,
     Code 20 7 99, Code 0 8 126, Code 0 8 62, Code 0 9 221, Code 18 7 27, Code 0 8 110,
     Code 0 8 46, Code 0 9 189, Code 0 8 14, Code 0 8 142, Code 0 8 78, Code 0 9 253,
     Code 96 7 0, Code 0 8 81, Code 0 8 17, Code 21 8 131, Code 18 7 31, Code 0 8 113,
     Code 0 8 49, Code 0 9 195, Code 16 7 10, Code 0 8 97, Code 0 8 33, Code 0 9 163,
     Code 0 8 1, Code 0 8 129, Code 0 8 65, Code 0 9 227, Code 16 7 6, Code 0 8 89,
     Code 0 8 25, Code 0 9 147, Code 19 7 59, Code 0 8 121, Code 0 8 57, Code 0 9 211,
     Code 17 7 17, Code 0 8 105, Code 0 8 41, Code 0 9 179, Code 0 8 9, Code 0 8 137,
     Code 0 8 73, Code 0 9 243, Code 16 7 4, Code 0 8 85, Code 0 8 21, Code 16 8 258,
     Code 19 7 43, Code 0 8 117, Code 0 8 53, Code 0 9 203, Code 17 7 13, Code 0 8 101,
     Code 0 8 37, Code 0 9 171, Code 0 8 5, Code 0 8 133, Code 0 8 69, Code 0 9 235,
     Code 16 7 8, Code 0 8 93, Code 0 8 29, Code 0 9 155, Code 20 7 83, Code 0 8 125,
     Code 0 8 61, Code 0 9 219, Code 18 7 23, Code 0 8 109, Code 0 8 45, Code 0 9 187,
     Code 0 8 13, Code 0 8 141, Code 0 8 77, Code 0 9 251, Code 16 7 3, Code 0 8 83,
     Code 0 8 19, Code 21 8 195, Code 19 7 35, Code 0 8 115, Code 0 8 51, Code 0 9 199,
     Code 17 7 11, Code 0 8 99, Code 0 8 35, Code 0 9 167, Code 0 8 3, Code 0 8 131,
     Code 0 8 67, Code 0 9 231, Code 16 7 7, Code 0 8 91, Code 0 8 27, Code 0 9 151,
     Code 20 7 67, Code 0 8 123, Code 0 8 59, Code 0 9 215, Code 18 7 19, Code 0 8 107,
     Code 0 8 43, Code 0 9 183, Code 0 8 11, Code 0 8 139, Code 0 8 75, Code 0 9 247,
     Code 16 7 5, Code 0 8 87, Code 0 8 23, Code 64 8 0, Code 19 7 51, Code 0 8 119,
     Code 0 8 55, Code 0 9 207, Code 17 7 15, Code 0 8 103, Code 0 8 39, Code 0 9 175,
     Code 0 8 7, Code 0 8 135, Code 0 8 71, Code 0 9 239, Code 16 7 9, Code 0 8 95,
     Code 0 8 31, Code 0 9 159, Code 20 7 99, Code 0 8 127, Code 0 8 63, Code 0 9 223,
     Code 18 7 27, Code 0 8 111, Code 0 8 47, Code 0 9 191, Code 0 8 15, Code 0 8 143,
     Code 0 8 79, Code 0 9 255]"

definition distfix :: "code list" where
  "distfix = [
     Code 16 5 1, Code 23 5 257, Code 19 5 17, Code 27 5 4097, Code 17 5 5, Code 25 5 1025,
     Code 21 5 65, Code 29 5 16385, Code 16 5 3, Code 24 5 513, Code 20 5 33, Code 28 5 8193,
     Code 18 5 9, Code 26 5 2049, Code 22 5 129, Code 64 5 0, Code 16 5 2, Code 23 5 385,
     Code 19 5 25, Code 27 5 6145, Code 17 5 7, Code 25 5 1537, Code 21 5 97, Code 29 5 24577,
     Code 16 5 4, Code 24 5 769, Code 20 5 49, Code 28 5 12289, Code 18 5 13, Code 26 5 3073,
     Code 22 5 193, Code 64 5 0]"

section \<open>Reversed bits\<close>

text \<open>\<open>rv l h\<close> reads the low \<open>l\<close> bits of \<open>h\<close>, lowest first.\<close>

fun rv :: "nat \<Rightarrow> nat \<Rightarrow> nat" where
  "rv 0 h = 0"
| "rv (Suc l) h = 2 * rv l h + h div 2 ^ l mod 2"

lemma rv_lt: "rv l h < 2 ^ l"
proof (induction l)
  case (Suc l)
  have "h div 2 ^ l mod 2 < 2" by simp
  with Suc show ?case by simp
qed simp

lemma rv_mod: "l \<le> k \<Longrightarrow> rv l (h mod 2 ^ k) = rv l h"
proof (induction l)
  case (Suc l)
  have "h mod 2 ^ k div 2 ^ l mod 2 = h div 2 ^ l mod 2"
  proof -
    have "(2::nat) ^ k = 2 ^ l * 2 ^ (k - l)" using Suc.prems by (simp flip: power_add)
    then have "h mod 2 ^ k div 2 ^ l = h div 2 ^ l mod 2 ^ (k - l)"
      by (simp add: mod_mult2_eq)
    moreover have "(2::nat) dvd 2 ^ (k - l)" using Suc.prems by simp
    ultimately show ?thesis by (simp add: mod_mod_cancel)
  qed
  with Suc show ?case by simp
qed simp

lemma rv_add: "rv (l + k) h = rv l h * 2 ^ k + rv k (h div 2 ^ l)"
proof (induction k)
  case (Suc k)
  have "h div 2 ^ (l + k) = h div 2 ^ l div 2 ^ k" by (simp add: power_add div_mult2_eq)
  with Suc show ?case by (simp add: algebra_simps)
qed simp

lemma rv_zero [simp]: "rv l 0 = 0"
  by (induction l) simp_all

lemma rv_prefix: "l \<le> m \<Longrightarrow> rv m h div 2 ^ (m - l) = rv l h"
  using rv_add [of l "m - l" h] rv_lt [of "m - l" "h div 2 ^ l"] by simp

lemma rv_small: "h < 2 ^ l \<Longrightarrow> l \<le> m \<Longrightarrow> rv m h = rv l h * 2 ^ (m - l)"
  using rv_add [of l "m - l" h] by simp

lemma rv_inj: "rv l a = rv l b \<Longrightarrow> a mod 2 ^ l = b mod 2 ^ l"
proof (induction l)
  case (Suc l)
  have "(2 * rv l a + a div 2 ^ l mod 2) mod 2 = (2 * rv l b + b div 2 ^ l mod 2) mod 2"
    using Suc.prems by simp
  then have b: "a div 2 ^ l mod 2 = b div 2 ^ l mod 2" by simp
  with Suc.prems have "rv l a = rv l b" by simp
  with Suc.IH have "a mod 2 ^ l = b mod 2 ^ l" .
  moreover have "x mod 2 ^ Suc l = 2 ^ l * (x div 2 ^ l mod 2) + x mod 2 ^ l" for x :: nat
    by (simp add: mod_mult2_eq mult.commute [of 2])
  ultimately show ?case using b by simp
qed simp

lemma and_pow_bit: "(h AND 2 ^ m \<noteq> 0) = (h div 2 ^ m mod 2 = 1)" for h :: nat
  by (simp add: and_exp_eq_0_iff_not_bit bit_iff_odd odd_iff_mod_2_eq_one)

lemma and_pow_mask: "h AND (2 ^ m - 1) = h mod 2 ^ m" for h :: nat
  by (simp add: take_bit_eq_mod take_bit_eq_mask mask_eq_exp_minus_1 flip: take_bit_eq_mod)

lemma top_clear_step: "top_clear h (2 ^ Suc m) = (if h div 2 ^ Suc m mod 2 = 1 then top_clear h (2 ^ m) else 2 ^ Suc m)"
  by (subst top_clear.simps) (simp only: and_pow_bit, simp)

lemma top_clear_0: "top_clear h (2 ^ 0) = (if h mod 2 = 1 then 0 else 1)"
  using and_pow_bit [of h 0] by (subst top_clear.simps) (simp add: top_clear.simps [of h 0])

lemma next_huff_0: "next_huff (Suc 0) h = (if h mod 2 = 1 then 0 else 1)"
  using top_clear_0 [of h] and_pow_mask [of h 0] by (simp add: next_huff_def Let_def)

lemma next_huff_Suc:
  "next_huff (Suc (Suc m)) h = (if h div 2 ^ Suc m mod 2 = 1 then next_huff (Suc m) h else h mod 2 ^ Suc m + 2 ^ Suc m)"
  using top_clear_step [of h m] and_pow_mask [of h "Suc m"] by (simp add: next_huff_def Let_def)

lemma next_huff_rv:
  "next_huff (Suc m) h < 2 ^ Suc m \<and> rv (Suc m) (next_huff (Suc m) h) = (rv (Suc m) h + 1) mod 2 ^ Suc m"
proof (induction m)
  case 0
  show ?case by (auto simp: next_huff_0)
next
  case (Suc m)
  let ?b = "h div 2 ^ Suc m mod 2"
  show ?case
  proof (cases "?b = 1")
    case True
    have "rv (Suc (Suc m)) (next_huff (Suc m) h) = 2 * ((rv (Suc m) h + 1) mod 2 ^ Suc m)"
      using Suc by (simp only: rv.simps(2) [of "Suc m"]) simp
    moreover have "(rv (Suc (Suc m)) h + 1) mod 2 ^ Suc (Suc m) = 2 * ((rv (Suc m) h + 1) mod 2 ^ Suc m)"
      using True by (simp only: rv.simps(2) [of "Suc m"]) (simp add: mult_mod_right)
    ultimately show ?thesis using True Suc by (simp only: next_huff_Suc if_True) simp
  next
    case False
    then have b: "?b = 0" by simp
    have "rv (Suc (Suc m)) (h mod 2 ^ Suc m + 2 ^ Suc m) = 2 * rv (Suc m) (h mod 2 ^ Suc m + 2 ^ Suc m) + 1"
    proof -
      have "(h mod 2 ^ Suc m + 2 ^ Suc m) div 2 ^ Suc m = 1"
        using div_add_self2 [of "2 ^ Suc m" "h mod 2 ^ Suc m"] by (simp del: power_Suc)
      then show ?thesis by (simp only: rv.simps(2) [of "Suc m"]) simp
    qed
    also have "rv (Suc m) (h mod 2 ^ Suc m + 2 ^ Suc m) = rv (Suc m) h"
      using rv_mod [of "Suc m" "Suc m" "h mod 2 ^ Suc m + 2 ^ Suc m"] rv_mod [of "Suc m" "Suc m" h] by simp
    finally have "rv (Suc (Suc m)) (h mod 2 ^ Suc m + 2 ^ Suc m) = 2 * rv (Suc m) h + 1" .
    moreover have "(rv (Suc (Suc m)) h + 1) mod 2 ^ Suc (Suc m) = 2 * rv (Suc m) h + 1"
      using rv_lt [of "Suc m" h] b by (simp only: rv.simps(2) [of "Suc m"]) simp
    moreover have "h mod 2 ^ Suc m + 2 ^ Suc m < 2 ^ Suc (Suc m)" by simp
    ultimately show ?thesis using False by (simp only: next_huff_Suc if_False) 
  qed
qed

section \<open>Filling\<close>

lemma fill_code_eq:
  "0 < incr \<Longrightarrow> 0 < k \<Longrightarrow> pos + (k - 1) * incr < length tab \<Longrightarrow>
     \<exists>tab'. fill_code tab pos incr (k * incr) here = Some tab' \<and> length tab' = length tab \<and>
       (\<forall>i<length tab. tab' ! i = (if \<exists>m<k. i = pos + m * incr then here else tab ! i))"
proof (induction k arbitrary: tab)
  case (Suc k)
  let ?t = "tab[pos + k * incr := here]"
  have f: "Suc k * incr - incr = k * incr" by simp
  show ?case
  proof (cases "k = 0")
    case True
    then show ?thesis using Suc.prems by (subst fill_code.simps) auto
  next
    case False
    have "(k - 1) * incr \<le> k * incr" by (rule mult_le_mono1) simp
    then have "pos + (k - 1) * incr < length ?t"
      using Suc.prems(3) unfolding length_list_update diff_Suc_1 by linarith
    from Suc.IH [OF Suc.prems(1) _ this] False obtain tab' where t:
      "fill_code ?t pos incr (k * incr) here = Some tab'" "length tab' = length tab"
      "\<forall>i<length tab. tab' ! i = (if \<exists>m<k. i = pos + m * incr then here else ?t ! i)" by auto
    have "fill_code tab pos incr (Suc k * incr) here = Some tab'"
      using t(1) Suc.prems False by (subst fill_code.simps) (simp add: f)
    moreover have "tab' ! i = (if \<exists>m<Suc k. i = pos + m * incr then here else tab ! i)" if "i < length tab" for i
      using t(3) that by (auto simp: less_Suc_eq nth_list_update)
    ultimately show ?thesis using t(2) by blast
  qed
qed simp

section \<open>Symbols and their intervals\<close>

text \<open>
  A symbol of length \<open>l\<close> takes \<open>2 ^ (15 - l)\<close> of the \<open>2 ^ 15\<close> reversed 15-bit inputs; the sorted
  symbols take them one after the other. \<open>sym_at\<close> is the canonical code.
\<close>

definition code_wt :: "nat list \<Rightarrow> nat \<Rightarrow> nat" where
  "code_wt lens s = 2 ^ (MAXBITS - lens ! s)"

fun sym_at :: "nat list \<Rightarrow> nat list \<Rightarrow> nat \<Rightarrow> nat option" where
  "sym_at lens [] y = None"
| "sym_at lens (s # ss) y = (if y < code_wt lens s then Some s else sym_at lens ss (y - code_wt lens s))"

definition code_span :: "nat list \<Rightarrow> nat list \<Rightarrow> nat" where
  "code_span lens ss = sum_list (map (code_wt lens) ss)"

lemma span_simps [simp]: "code_span lens [] = 0" "code_span lens (s # ss) = code_wt lens s + code_span lens ss"
  "code_span lens (a @ b) = code_span lens a + code_span lens b"
  by (simp_all add: code_span_def)

lemma sym_at_append: "code_span lens ds \<le> y \<Longrightarrow> sym_at lens (ds @ r) y = sym_at lens r (y - code_span lens ds)"
  by (induction ds arbitrary: y) auto

lemma sym_at_next:
  "code_span lens ds \<le> y \<Longrightarrow> y < code_span lens ds + code_wt lens s \<Longrightarrow> sym_at lens (ds @ s # r) y = Some s"
  by (simp add: sym_at_append less_diff_conv2)

lemma wt_pos [simp]: "0 < code_wt lens s"
  by (simp add: code_wt_def)

definition dec_sorted :: "nat list \<Rightarrow> nat list \<Rightarrow> bool" where
  "dec_sorted lens ss \<longleftrightarrow> sorted (map (\<lambda>s. lens ! s) ss) \<and> (\<forall>s\<in>set ss. 1 \<le> lens ! s \<and> lens ! s \<le> MAXBITS)"

lemma wt_dvd: "lens ! s \<le> lens ! t \<Longrightarrow> lens ! t \<le> MAXBITS \<Longrightarrow> 2 ^ (MAXBITS - lens ! t) dvd code_wt lens s"
  unfolding code_wt_def by (rule le_imp_power_dvd) simp

lemma span_dvd:
  "(\<And>s. s \<in> set ds \<Longrightarrow> lens ! s \<le> l) \<Longrightarrow> l \<le> MAXBITS \<Longrightarrow> 2 ^ (MAXBITS - l) dvd code_span lens ds"
  by (induction ds) (auto simp: code_wt_def intro!: dvd_add le_imp_power_dvd diff_le_mono2)

section \<open>The size of a sub-table\<close>

definition cnt_ok :: "nat list \<Rightarrow> nat list \<Rightarrow> nat list \<Rightarrow> bool" where
  "cnt_ok lens rest cnt \<longleftrightarrow> length cnt = Suc MAXBITS \<and>
     (\<forall>l. 1 \<le> l \<and> l \<le> MAXBITS \<longrightarrow> cnt ! l = length (filter (\<lambda>s. lens ! s = l) rest))"

text \<open>Every symbol that starts inside the block of \<open>2 ^ (15 - root)\<close> inputs has at most \<open>c\<close> more bits.\<close>

definition sub_fits :: "nat list \<Rightarrow> nat \<Rightarrow> nat \<Rightarrow> nat \<Rightarrow> nat list \<Rightarrow> bool" where
  "sub_fits lens root c off rest \<longleftrightarrow>
     (\<forall>a x b. rest = a @ x # b \<longrightarrow> off + code_span lens a < 2 ^ (MAXBITS - root) \<longrightarrow> lens ! x \<le> root + c)"

lemma span_filter_le: "code_span lens (filter p ss) \<le> code_span lens ss"
  by (induction ss) auto

lemma span_filter_eq: "code_span lens (filter (\<lambda>s. lens ! s = l) ss) = length (filter (\<lambda>s. lens ! s = l) ss) * 2 ^ (MAXBITS - l)"
  by (induction ss) (auto simp: code_wt_def)

lemma span_filter_split:
  "code_span lens (filter (\<lambda>s. lens ! s < Suc l) ss) =
     code_span lens (filter (\<lambda>s. lens ! s < l) ss) + code_span lens (filter (\<lambda>s. lens ! s = l) ss)"
  by (induction ss) auto

lemma sorted_tail: "dec_sorted lens (a @ x # b) \<Longrightarrow> y \<in> set (x # b) \<Longrightarrow> lens ! x \<le> lens ! y"
  by (auto simp: dec_sorted_def sorted_append)

lemma sub_bits_fits:
  "cnt_ok lens rest cnt \<Longrightarrow> dec_sorted lens rest \<Longrightarrow> \<forall>s\<in>set rest. lens ! s \<le> mx \<Longrightarrow> mx \<le> MAXBITS \<Longrightarrow>
     cur + dr \<le> mx \<Longrightarrow> 1 \<le> cur \<Longrightarrow>
     left * 2 ^ (MAXBITS - (cur + dr)) = 2 ^ (MAXBITS - dr) - int (code_span lens (filter (\<lambda>s. lens ! s < cur + dr) rest)) \<Longrightarrow>
     cur \<le> sub_bits cnt dr mx cur left \<and> sub_bits cnt dr mx cur left + dr \<le> mx \<and>
     sub_fits lens dr (sub_bits cnt dr mx cur left) 0 rest"
proof (induction cnt dr mx cur left rule: sub_bits.induct)
  case (1 cnt dr mx cur left)
  define left' where "left' = left - int (cnt ! (cur + dr))"
  have sb: "sub_bits cnt dr mx cur left = (if cur + dr < mx then
      if left' \<le> 0 then cur else sub_bits cnt dr mx (Suc cur) (left' * 2) else cur)"
    by (subst sub_bits.simps) (simp add: left'_def Let_def)
  let ?K = "2 ^ (MAXBITS - (cur + dr)) :: int"
  have "cnt ! (cur + dr) = length (filter (\<lambda>s. lens ! s = cur + dr) rest)"
    using "1.prems" by (simp add: cnt_ok_def)
  then have "int (cnt ! (cur + dr)) * ?K = int (code_span lens (filter (\<lambda>s. lens ! s = cur + dr) rest))"
    by (simp add: span_filter_eq)
  moreover have "left' * ?K = left * ?K - int (cnt ! (cur + dr)) * ?K"
    by (simp add: left'_def left_diff_distrib)
  ultimately have l: "left' * ?K = 2 ^ (MAXBITS - dr) - int (code_span lens (filter (\<lambda>s. lens ! s < Suc (cur + dr)) rest))"
    using "1.prems"(7) span_filter_split [of lens "cur + dr" rest] by simp
  show ?case
  proof (cases "cur + dr < mx")
    case False
    have "sub_fits lens dr cur 0 rest"
      using "1.prems"(3) False by (force simp: sub_fits_def)
    then show ?thesis using False "1.prems"(5) sb by simp
  next
    case True
    show ?thesis
    proof (cases "left' \<le> 0")
      case le: True
      have "left' * ?K \<le> 0" using le by (simp add: mult_nonpos_nonneg)
      then have big: "2 ^ (MAXBITS - dr) \<le> code_span lens (filter (\<lambda>s. lens ! s < Suc (cur + dr)) rest)"
        using l by (simp flip: of_nat_power of_nat_le_iff)
      have "lens ! x \<le> dr + cur" if r: "rest = a @ x # b" and sp: "code_span lens a < 2 ^ (MAXBITS - dr)" for a x b
      proof (rule ccontr)
        assume x: "\<not> lens ! x \<le> dr + cur"
        have "filter (\<lambda>s. lens ! s < Suc (cur + dr)) (x # b) = []"
          using sorted_tail [of lens a x b] "1.prems"(2) x r by (fastforce simp: filter_empty_conv)
        then have "filter (\<lambda>s. lens ! s < Suc (cur + dr)) rest = filter (\<lambda>s. lens ! s < Suc (cur + dr)) a"
          by (simp add: r)
        with big span_filter_le [of lens "\<lambda>s. lens ! s < Suc (cur + dr)" a] sp show False by simp
      qed
      then have "sub_fits lens dr cur 0 rest" by (auto simp: sub_fits_def)
      then show ?thesis using True le "1.prems"(5) sb by simp
    next
      case False
      have "MAXBITS - (cur + dr) = Suc (MAXBITS - (Suc cur + dr))" using True "1.prems"(4) by simp
      then have "left' * 2 * 2 ^ (MAXBITS - (Suc cur + dr)) = left' * ?K" by simp
      with l have l2: "left' * 2 * 2 ^ (MAXBITS - (Suc cur + dr)) =
          2 ^ (MAXBITS - dr) - int (code_span lens (filter (\<lambda>s. lens ! s < Suc cur + dr) rest))" by simp
      have "Suc cur \<le> sub_bits cnt dr mx (Suc cur) (left' * 2) \<and> sub_bits cnt dr mx (Suc cur) (left' * 2) + dr \<le> mx \<and>
          sub_fits lens dr (sub_bits cnt dr mx (Suc cur) (left' * 2)) 0 rest"
        by (rule "1.IH" [OF True left'_def False "1.prems"(1-4) _ _ l2]) (use True in simp_all)
      then show ?thesis using True False sb by simp
    qed
  qed
qed

section \<open>Looking up\<close>

definition ok_at :: "codetype \<Rightarrow> nat list \<Rightarrow> code list \<Rightarrow> nat \<Rightarrow> nat \<Rightarrow> nat \<Rightarrow> nat \<Rightarrow> bool" where
  "ok_at type lens tab root lim x s \<longleftrightarrow>
     (if lens ! s \<le> root then code_entry type s (lens ! s) = Some (tab ! (x mod 2 ^ root))
      else \<exists>c v. tab ! (x mod 2 ^ root) = Code c root v \<and> 0 < c \<and> root + c \<le> MAXBITS \<and> 2 ^ root \<le> v \<and>
        v + 2 ^ c \<le> lim \<and>
        code_entry type s (lens ! s - root) = Some (tab ! (v + x div 2 ^ root mod 2 ^ c)))"

lemma ok_at_mono: "ok_at type lens tab root lim x s \<Longrightarrow> lim \<le> lim' \<Longrightarrow> ok_at type lens tab root lim' x s"
  by (auto simp: ok_at_def split: if_splits)

lemma below_not_code:
  assumes "rv MAXBITS x < rv MAXBITS h" and "h < 2 ^ l" and "l \<le> MAXBITS"
  shows "x mod 2 ^ l \<noteq> h"
proof
  assume "x mod 2 ^ l = h"
  then have "rv l x = rv l h" using rv_mod [of l l x] by simp
  then have "rv MAXBITS x div 2 ^ (MAXBITS - l) = rv l h" using rv_prefix [OF assms(3)] by simp
  then have "rv l h * 2 ^ (MAXBITS - l) \<le> rv MAXBITS x"
    using div_times_less_eq_dividend [of "rv MAXBITS x" "2 ^ (MAXBITS - l)"] by simp
  then show False using assms rv_small [OF assms(2,3)] by simp
qed

lemma in_code:
  assumes "rv MAXBITS h \<le> rv MAXBITS x" and "rv MAXBITS x < rv MAXBITS h + 2 ^ (MAXBITS - l)"
    and "h < 2 ^ l" and "l \<le> MAXBITS"
  shows "x mod 2 ^ l = h"
proof -
  have "rv MAXBITS x div 2 ^ (MAXBITS - l) = rv l h"
    using assms(1,2) rv_small [OF assms(3,4)]
    by (intro div_nat_eqI) (simp_all add: algebra_simps)
  then have "rv l x = rv l h" using rv_prefix [OF assms(4)] by simp
  then show ?thesis using rv_inj [of l x h] assms(3) by simp
qed

lemma mod_pow_parts: "a mod 2 ^ r = b mod 2 ^ r \<Longrightarrow> a div 2 ^ r mod 2 ^ k = b div 2 ^ r mod 2 ^ k \<Longrightarrow>
    a mod 2 ^ (r + k) = b mod 2 ^ (r + k)" for a b :: nat
  by (simp add: power_add mod_mult2_eq)

text \<open>The part of the inputs below \<open>P\<close> already looks up its symbol.\<close>

definition tab_good :: "codetype \<Rightarrow> nat list \<Rightarrow> nat list \<Rightarrow> nat \<Rightarrow> nat \<Rightarrow> code list \<Rightarrow> nat \<Rightarrow> nat \<Rightarrow> nat option \<Rightarrow> bool" where
  "tab_good type lens all root P tab nxt used low \<longleftrightarrow>
     (\<forall>x<2 ^ MAXBITS. rv MAXBITS x < P \<longrightarrow>
        (\<exists>s. sym_at lens all (rv MAXBITS x) = Some s \<and>
           ok_at type lens tab root (if low = Some (x mod 2 ^ root) then used else nxt) x s))"

lemma goodE:
  assumes "tab_good type lens all root P tab nxt used low" and "x < 2 ^ MAXBITS" and "rv MAXBITS x < P"
  obtains s where "sym_at lens all (rv MAXBITS x) = Some s"
    "ok_at type lens tab root (if low = Some (x mod 2 ^ root) then used else nxt) x s"
  using assms unfolding tab_good_def by blast

definition fill_hit :: "nat \<Rightarrow> nat \<Rightarrow> nat \<Rightarrow> nat \<Rightarrow> nat \<Rightarrow> bool" where
  "fill_hit nxt h b c i \<longleftrightarrow> nxt \<le> i \<and> i < nxt + 2 ^ c \<and> (i - nxt) mod 2 ^ b = h"

lemma fill_entries:
  assumes "b \<le> c" and "h < 2 ^ b" and "nxt + 2 ^ c \<le> length tab"
  shows "\<exists>tab'. fill_code tab (nxt + h) (2 ^ b) (2 ^ c) here = Some tab' \<and> length tab' = length tab \<and>
     (\<forall>i<length tab. tab' ! i = (if fill_hit nxt h b c i then here else tab ! i))"
proof -
  have k: "2 ^ c = 2 ^ (c - b) * (2 :: nat) ^ b" using assms(1) by (simp flip: power_add)
  have w: "(\<exists>m<2 ^ (c - b). i = nxt + h + m * 2 ^ b) \<longleftrightarrow> fill_hit nxt h b c i" for i
  proof
    assume "\<exists>m<2 ^ (c - b). i = nxt + h + m * 2 ^ b"
    then obtain m where m: "m < 2 ^ (c - b)" "i = nxt + h + m * 2 ^ b" by blast
    have "Suc m * 2 ^ b \<le> 2 ^ (c - b) * 2 ^ b" by (rule mult_le_mono1) (use m(1) in simp)
    then have "h + m * 2 ^ b < 2 ^ c" using assms(2) k by simp
    then show "fill_hit nxt h b c i" using m(2) assms(2) by (simp add: fill_hit_def)
  next
    assume a: "fill_hit nxt h b c i"
    define m where "m = (i - nxt) div 2 ^ b"
    have "h = (i - nxt) mod 2 ^ b" using a by (simp add: fill_hit_def)
    then have "i - nxt = m * 2 ^ b + h" unfolding m_def by (simp only: div_mult_mod_eq)
    moreover have "m < 2 ^ (c - b)"
    proof -
      have "i - nxt < 2 ^ c" using a unfolding fill_hit_def by linarith
      then show ?thesis using k by (simp add: m_def div_less_iff_less_mult)
    qed
    moreover have "i = nxt + h + m * 2 ^ b"
      using calculation(1) a unfolding fill_hit_def by linarith
    ultimately show "\<exists>m<2 ^ (c - b). i = nxt + h + m * 2 ^ b" by blast
  qed
  have "nxt + h + (2 ^ (c - b) - 1) * 2 ^ b < length tab"
  proof -
    have "(2 ^ (c - b) - 1) * 2 ^ b + 2 ^ b = (2 :: nat) ^ c"
      using k by (metis Nat.add_diff_assoc2 diff_add_inverse2 le_add2 mult_eq_if add.commute power_not_zero zero_neq_numeral)
    then show ?thesis using assms(2,3) by linarith
  qed
  from fill_code_eq [of "2 ^ b" "2 ^ (c - b)" "nxt + h" tab here, OF _ _ this] show ?thesis
    by (simp only: k [symmetric] w) simp
qed

section \<open>One symbol\<close>

definition phaseA :: "nat \<Rightarrow> tab_state \<Rightarrow> bool" where
  "phaseA root t \<longleftrightarrow> t_drop t = 0 \<and> t_low t = None \<and> t_next t = 0 \<and> t_curr t = root"

definition phaseB :: "nat list \<Rightarrow> nat \<Rightarrow> nat \<Rightarrow> nat list \<Rightarrow> tab_state \<Rightarrow> bool" where
  "phaseB lens root P rest t \<longleftrightarrow> t_drop t = root \<and> t_low t = Some (t_huff t mod 2 ^ root) \<and>
     2 ^ root \<le> t_next t \<and> t_tab t ! (t_huff t mod 2 ^ root) = Code (t_curr t) root (t_next t) \<and>
     sub_fits lens root (t_curr t) (P mod 2 ^ (MAXBITS - root)) rest \<and> 0 < t_curr t \<and> root + t_curr t \<le> MAXBITS"

definition tab_stat :: "codetype \<Rightarrow> nat list \<Rightarrow> nat \<Rightarrow> nat \<Rightarrow> nat list \<Rightarrow> bool" where
  "tab_stat type lens root mx all \<longleftrightarrow> dec_sorted lens all \<and> code_span lens all \<le> 2 ^ MAXBITS \<and>
     (\<forall>s\<in>set all. lens ! s \<le> mx \<and> (\<forall>b. code_entry type s b \<noteq> None)) \<and> mx \<le> MAXBITS \<and>
     1 \<le> root \<and> root \<le> MAXBITS \<and> (all \<noteq> [] \<longrightarrow> lens ! last all = mx)"

definition tinv :: "codetype \<Rightarrow> nat list \<Rightarrow> nat \<Rightarrow> nat list \<Rightarrow> nat list \<Rightarrow> nat list \<Rightarrow> tab_state \<Rightarrow> bool" where
  "tinv type lens root all ds rest t \<longleftrightarrow> all = ds @ rest \<and> rest \<noteq> [] \<and> t_len t = lens ! hd rest \<and>
     t_huff t < 2 ^ t_len t \<and> rv MAXBITS (t_huff t) = code_span lens ds \<and> cnt_ok lens rest (t_count t) \<and>
     t_used t = t_next t + 2 ^ t_curr t \<and> t_used t \<le> length (t_tab t) \<and> 2 ^ root \<le> t_used t \<and>
     \<not> too_big type (t_used t) \<and>
     tab_good type lens all root (code_span lens ds) (t_tab t) (t_next t) (t_used t) (t_low t) \<and>
     (phaseA root t \<and> t_len t \<le> root \<or> phaseB lens root (code_span lens ds) rest t \<and> root < t_len t)"

lemma mod_pow_split: "r \<le> l \<Longrightarrow> (x :: nat) mod 2 ^ l = h \<longleftrightarrow>
    x mod 2 ^ r = h mod 2 ^ r \<and> x div 2 ^ r mod 2 ^ (l - r) = h div 2 ^ r mod 2 ^ (l - r) \<and> h < 2 ^ l"
proof -
  assume "r \<le> l"
  then have e: "(2 :: nat) ^ l = 2 ^ r * 2 ^ (l - r)" by (simp flip: power_add)
  have d: "y mod 2 ^ l = 2 ^ r * (y div 2 ^ r mod 2 ^ (l - r)) + y mod 2 ^ r" for y :: nat
    unfolding e by (rule mod_mult2_eq)
  have m: "x mod 2 ^ l mod 2 ^ r = x mod 2 ^ r" "x mod 2 ^ l div 2 ^ r = x div 2 ^ r mod 2 ^ (l - r)"
    unfolding d [of x] by simp_all
  show ?thesis
  proof
    assume h: "x mod 2 ^ l = h"
    show "x mod 2 ^ r = h mod 2 ^ r \<and> x div 2 ^ r mod 2 ^ (l - r) = h div 2 ^ r mod 2 ^ (l - r) \<and> h < 2 ^ l"
      unfolding h [symmetric] m by simp
  next
    assume "x mod 2 ^ r = h mod 2 ^ r \<and> x div 2 ^ r mod 2 ^ (l - r) = h div 2 ^ r mod 2 ^ (l - r) \<and> h < 2 ^ l"
    then show "x mod 2 ^ l = h" using d [of x] d [of h] by simp
  qed
qed

lemma fill_step:
  assumes st: "tab_stat type lens root mx all" and inv: "tinv type lens root all ds (s # rs) t"
  obtains here tab where "code_entry type s (t_len t - t_drop t) = Some here"
    and "fill_code (t_tab t) (t_next t + t_huff t div 2 ^ t_drop t) (2 ^ (t_len t - t_drop t)) (2 ^ t_curr t) here = Some tab"
    and "length tab = length (t_tab t)"
    and "tab_good type lens all root (code_span lens ds + code_wt lens s) tab (t_next t) (t_used t) (t_low t)"
    and "phaseB lens root (code_span lens ds) (s # rs) t \<Longrightarrow> tab ! (t_huff t mod 2 ^ root) = t_tab t ! (t_huff t mod 2 ^ root)"
proof -
  define len where "len = t_len t"
  define h where "h = t_huff t"
  define b where "b = len - t_drop t"
  have all: "all = ds @ s # rs" and len: "len = lens ! s" and h: "h < 2 ^ len" "rv MAXBITS h = code_span lens ds"
    and used: "t_used t = t_next t + 2 ^ t_curr t" "t_used t \<le> length (t_tab t)" "2 ^ root \<le> t_used t"
    and gd: "tab_good type lens all root (code_span lens ds) (t_tab t) (t_next t) (t_used t) (t_low t)"
    and ph: "phaseA root t \<and> len \<le> root \<or> phaseB lens root (code_span lens ds) (s # rs) t \<and> root < len"
    using inv unfolding tinv_def len_def h_def list.sel by blast+
  have l15: "len \<le> MAXBITS" "1 \<le> len" using st all len by (auto simp: tab_stat_def dec_sorted_def)
  have bc: "b \<le> t_curr t"
  proof (cases "phaseA root t")
    case True
    then show ?thesis using ph by (auto simp: b_def phaseA_def phaseB_def)
  next
    case False
    then have "sub_fits lens root (t_curr t) (code_span lens ds mod 2 ^ (MAXBITS - root)) (s # rs)" "t_drop t = root"
      using ph by (auto simp: phaseB_def)
    then have "lens ! s \<le> root + t_curr t"
      unfolding sub_fits_def by (auto elim!: allE [of _ "[]"])
    then show ?thesis using len \<open>t_drop t = root\<close> by (simp add: b_def)
  qed
  obtain here where here: "code_entry type s b = Some here" using st all by (fastforce simp: tab_stat_def)
  have hd: "h div 2 ^ t_drop t < 2 ^ b"
  proof -
    have "t_drop t \<le> len" using ph by (auto simp: phaseA_def phaseB_def)
    then have "(2 :: nat) ^ len = 2 ^ b * 2 ^ t_drop t" by (simp add: b_def flip: power_add)
    then show ?thesis using h(1) by (simp add: div_less_iff_less_mult)
  qed
  have sp: "t_next t + 2 ^ t_curr t \<le> length (t_tab t)" using used by simp
  obtain tab where tab: "fill_code (t_tab t) (t_next t + h div 2 ^ t_drop t) (2 ^ b) (2 ^ t_curr t) here = Some tab"
    "length tab = length (t_tab t)"
    "\<And>i. i < length (t_tab t) \<Longrightarrow> tab ! i = (if fill_hit (t_next t) (h div 2 ^ t_drop t) b (t_curr t) i then here else t_tab t ! i)"
    using fill_entries [OF bc hd sp, of here] by auto
  have root_in: "x mod 2 ^ root < length (t_tab t)" for x :: nat
  proof -
    have "x mod 2 ^ root < 2 ^ root" by simp
    then show ?thesis using used by linarith
  qed
  have keep: "phaseB lens root (code_span lens ds) (s # rs) t \<Longrightarrow> tab ! (x mod 2 ^ root) = t_tab t ! (x mod 2 ^ root)" for x
  proof -
    assume B: "phaseB lens root (code_span lens ds) (s # rs) t"
    have "x mod 2 ^ root < 2 ^ root" by simp
    then have "\<not> t_next t \<le> x mod 2 ^ root" using B unfolding phaseB_def by linarith
    then show ?thesis using tab(3) [OF root_in, of x] by (simp add: fill_hit_def)
  qed
  have "\<exists>s'. sym_at lens all (rv MAXBITS x) = Some s' \<and>
      ok_at type lens tab root (if t_low t = Some (x mod 2 ^ root) then t_used t else t_next t) x s'"
    if x: "x < 2 ^ MAXBITS" "rv MAXBITS x < code_span lens ds + code_wt lens s" for x
  proof (cases "rv MAXBITS x < code_span lens ds")
    case True
    obtain s' where s': "sym_at lens all (rv MAXBITS x) = Some s'"
      "ok_at type lens (t_tab t) root (if t_low t = Some (x mod 2 ^ root) then t_used t else t_next t) x s'"
      by (rule goodE [OF gd x(1) True])
    have ne: "x mod 2 ^ len \<noteq> h" using below_not_code [OF _ h(1) l15(1)] True h(2) by simp
    have "ok_at type lens tab root (if t_low t = Some (x mod 2 ^ root) then t_used t else t_next t) x s'"
    proof (cases "phaseA root t")
      case A: True
      then have le: "len \<le> root" using ph by (auto simp: phaseA_def phaseB_def)
      have "x mod 2 ^ root mod 2 ^ len = x mod 2 ^ len" using le by (simp add: mod_mod_cancel le_imp_power_dvd)
      then have "tab ! (x mod 2 ^ root) = t_tab t ! (x mod 2 ^ root)"
        using tab(3) [OF root_in, of x] ne A by (simp add: fill_hit_def phaseA_def b_def)
      moreover have "lens ! s' \<le> root"
      proof (rule ccontr)
        assume "\<not> lens ! s' \<le> root"
        moreover have "ok_at type lens (t_tab t) root 0 x s'" using s'(2) A by (simp add: phaseA_def)
        ultimately show False by (auto simp: ok_at_def)
      qed
      ultimately show ?thesis using s'(2) by (simp add: ok_at_def)
    next
      case False
      then have B: "phaseB lens root (code_span lens ds) (s # rs) t" and lt: "root < len" using ph by auto
      show ?thesis
      proof (cases "lens ! s' \<le> root")
        case True
        then show ?thesis using s'(2) keep [OF B] by (simp add: ok_at_def)
      next
        case long: False
        then obtain c v where e: "t_tab t ! (x mod 2 ^ root) = Code c root v" "0 < c" "root + c \<le> MAXBITS" "2 ^ root \<le> v"
          "v + 2 ^ c \<le> (if t_low t = Some (x mod 2 ^ root) then t_used t else t_next t)"
          "code_entry type s' (lens ! s' - root) = Some (t_tab t ! (v + x div 2 ^ root mod 2 ^ c))"
          using s'(2) unfolding ok_at_def by (simp only: if_False) blast
        let ?i = "v + x div 2 ^ root mod 2 ^ c"
        have lim: "?i < v + 2 ^ c" by simp
        have "v + 2 ^ c \<le> length (t_tab t)" using e(5) used by (simp split: if_splits)
        then have il: "?i < length (t_tab t)" using lim by linarith
        have "\<not> fill_hit (t_next t) (h div 2 ^ t_drop t) b (t_curr t) ?i"
        proof (cases "t_low t = Some (x mod 2 ^ root)")
          case False
          then have "v + 2 ^ c \<le> t_next t" using e(5) by simp
          then show ?thesis using lim unfolding fill_hit_def by linarith
        next
          case True
          then have lo: "x mod 2 ^ root = h mod 2 ^ root" using B by (simp add: phaseB_def h_def)
          then have cv: "c = t_curr t" "v = t_next t" using B e(1) by (simp_all add: phaseB_def h_def)
          have "x div 2 ^ root mod 2 ^ b \<noteq> h div 2 ^ root mod 2 ^ b"
            using mod_pow_split [of root len x h] lt ne lo h(1) B by (simp add: b_def phaseB_def)
          moreover have "x div 2 ^ root mod 2 ^ c mod 2 ^ b = x div 2 ^ root mod 2 ^ b"
            using bc cv by (simp add: mod_mod_cancel le_imp_power_dvd)
          ultimately show ?thesis using hd B by (simp add: fill_hit_def cv phaseB_def)
        qed
        then have "tab ! ?i = t_tab t ! ?i" using tab(3) [OF il] by simp
        then show ?thesis using e long keep [OF B, of x] unfolding ok_at_def by auto
      qed
    qed
    then show ?thesis using s'(1) by blast
  next
    case False
    then have ge: "code_span lens ds \<le> rv MAXBITS x" by simp
    have sy: "sym_at lens all (rv MAXBITS x) = Some s"
      unfolding all by (rule sym_at_next [OF ge x(2)])
    have xm: "x mod 2 ^ len = h"
      by (rule in_code) (use ge x(2) h l15 len in \<open>simp_all add: code_wt_def\<close>)
    have "ok_at type lens tab root (if t_low t = Some (x mod 2 ^ root) then t_used t else t_next t) x s"
    proof (cases "phaseA root t")
      case A: True
      then have le: "len \<le> root" using ph by (auto simp: phaseA_def phaseB_def)
      have "x mod 2 ^ root mod 2 ^ len = x mod 2 ^ len" using le by (simp add: mod_mod_cancel le_imp_power_dvd)
      then have "tab ! (x mod 2 ^ root) = here"
        using tab(3) [OF root_in, of x] xm A by (simp add: fill_hit_def phaseA_def b_def)
      then show ?thesis using here A le len by (simp add: ok_at_def phaseA_def b_def)
    next
      case False
      then have B: "phaseB lens root (code_span lens ds) (s # rs) t" and lt: "root < len" using ph by auto
      have parts: "x mod 2 ^ root = h mod 2 ^ root" "x div 2 ^ root mod 2 ^ b = h div 2 ^ root mod 2 ^ b"
        using mod_pow_split [of root len x h] lt xm B by (simp_all add: b_def phaseB_def)
      let ?i = "t_next t + x div 2 ^ root mod 2 ^ t_curr t"
      have "?i < t_next t + 2 ^ t_curr t" by simp
      then have il: "?i < length (t_tab t)" using used by linarith
      have "x div 2 ^ root mod 2 ^ t_curr t mod 2 ^ b = x div 2 ^ root mod 2 ^ b"
        using bc by (simp add: mod_mod_cancel le_imp_power_dvd)
      then have "tab ! ?i = here"
        using tab(3) [OF il] parts(2) hd B by (simp add: fill_hit_def phaseB_def)
      moreover have "tab ! (x mod 2 ^ root) = Code (t_curr t) root (t_next t)"
        using keep [OF B, of x] B parts(1) by (simp add: phaseB_def h_def)
      ultimately show ?thesis
        using here B lt len used parts(1) by (auto simp: ok_at_def phaseB_def b_def h_def)
    qed
    with sy show ?thesis by blast
  qed
  then have "tab_good type lens all root (code_span lens ds + code_wt lens s) tab (t_next t) (t_used t) (t_low t)"
    by (simp add: tab_good_def)
  with here tab(1,2) keep [of "t_huff t"] that show ?thesis by (simp add: b_def len_def h_def)
qed

section \<open>Advancing\<close>

lemma span_zero_iff: "code_span lens ss = 0 \<longleftrightarrow> ss = []"
  by (cases ss) (auto simp: code_wt_def)

lemma huff_advance:
  assumes h: "h < 2 ^ l" and l: "1 \<le> l" "l \<le> MAXBITS" and P: "rv MAXBITS h = P"
    and lim: "P + 2 ^ (MAXBITS - l) \<le> 2 ^ MAXBITS"
  shows "next_huff l h < 2 ^ l"
    and "P + 2 ^ (MAXBITS - l) < 2 ^ MAXBITS \<Longrightarrow> rv MAXBITS (next_huff l h) = P + 2 ^ (MAXBITS - l)"
    and "P + 2 ^ (MAXBITS - l) = 2 ^ MAXBITS \<Longrightarrow> next_huff l h = 0"
proof -
  obtain m where m: "l = Suc m" using l by (cases l) auto
  have nh: "next_huff l h < 2 ^ l" "rv l (next_huff l h) = (rv l h + 1) mod 2 ^ l"
    using next_huff_rv [of m h] by (simp_all add: m)
  show "next_huff l h < 2 ^ l" by (rule nh)
  let ?k = "MAXBITS - l"
  have e: "P + 2 ^ ?k = (rv l h + 1) * 2 ^ ?k" using P rv_small [OF h l(2)] by simp
  have t: "(2 :: nat) ^ MAXBITS = 2 ^ l * 2 ^ ?k" using l(2) by (simp flip: power_add)
  show "rv MAXBITS (next_huff l h) = P + 2 ^ ?k" if "P + 2 ^ ?k < 2 ^ MAXBITS"
  proof -
    have "(rv l h + 1) * 2 ^ ?k < 2 ^ l * 2 ^ ?k" using that by (simp only: e t)
    then have "rv l h + 1 < 2 ^ l" by (metis mult_less_cancel2)
    then show ?thesis using rv_small [OF nh(1) l(2)] nh(2) e by simp
  qed
  show "next_huff l h = 0" if "P + 2 ^ ?k = 2 ^ MAXBITS"
  proof -
    have "(rv l h + 1) * 2 ^ ?k = 2 ^ l * 2 ^ ?k" using that by (simp only: e t)
    then have "rv l h + 1 = 2 ^ l" by (metis mult_cancel2 power_not_zero zero_neq_numeral)
    then have "rv l (next_huff l h) = rv l 0" using nh(2) by simp
    then show ?thesis using rv_inj [of l "next_huff l h" 0] nh(1) by simp
  qed
qed

lemma cnt_ok_next:
  "cnt_ok lens (s # rs) cnt \<Longrightarrow> 1 \<le> lens ! s \<Longrightarrow> lens ! s \<le> MAXBITS \<Longrightarrow>
     cnt_ok lens rs (cnt[lens ! s := cnt ! (lens ! s) - 1])"
  by (auto simp: cnt_ok_def nth_list_update)

lemma rv_prefix_lt:
  assumes "K = 2 ^ (MAXBITS - r)" and "r \<le> MAXBITS" and "K dvd P" and "rv MAXBITS x < P" and "rv MAXBITS h = P"
  shows "x mod 2 ^ r \<noteq> h mod 2 ^ r"
proof
  assume e: "x mod 2 ^ r = h mod 2 ^ r"
  have "rv r x = rv r h" using rv_mod [of r r x] rv_mod [of r r h] e by simp
  then have "rv MAXBITS x div K = P div K" using rv_prefix [OF assms(2)] assms(1,5) by metis
  moreover obtain q where "P = K * q" using assms(3) ..
  moreover have "P div K = q" using \<open>P = K * q\<close> assms(1) by simp
  moreover have "rv MAXBITS x div K < q"
    by (rule less_mult_imp_div_less) (use assms(4) \<open>P = K * q\<close> in \<open>simp add: mult.commute\<close>)
  ultimately show False by simp
qed

text \<open>A sub-table starts: the link in the root table, the fresh part of the space.\<close>

lemma new_sub_inv:
  assumes st: "tab_stat type lens root mx all" and all: "all = ds @ r # rs" and len: "t_len t = lens ! r" "root < t_len t"
    and h: "t_huff t < 2 ^ t_len t" "rv MAXBITS (t_huff t) = code_span lens ds"
    and cnt: "cnt_ok lens (r # rs) (t_count t)"
    and used: "t_used t = t_next t + 2 ^ t_curr t" "2 ^ root \<le> t_used t"
    and gd: "tab_good type lens all root (code_span lens ds) (t_tab t) (t_next t) (t_used t) (t_low t)"
    and dr: "t_drop t = 0 \<or> t_drop t = root" and dv: "2 ^ (MAXBITS - root) dvd code_span lens ds"
    and t3: "t3 = new_sub root mx t" and sp: "t_used t3 \<le> length (t_tab t)" and nb: "\<not> too_big type (t_used t3)"
  shows "tinv type lens root all ds (r # rs)
     (t3\<lparr>t_tab := (t_tab t3)[t_huff t mod 2 ^ root := Code (t_curr t3) root (t_next t3)]\<rparr>)"
proof -
  define lo where "lo = t_huff t mod 2 ^ root"
  define c where "c = sub_bits (t_count t) root mx (t_len t - root) (2 ^ (t_len t - root))"
  note nb = nb
  have t3: "t3 = t\<lparr>t_drop := root, t_next := t_used t, t_curr := c, t_used := t_used t + 2 ^ c, t_low := Some lo\<rparr>"
    using t3 dr used(1) by (auto simp: new_sub_def c_def lo_def Let_def)
  have sd: "dec_sorted lens (r # rs)" "\<forall>s\<in>set (r # rs). lens ! s \<le> mx" "mx \<le> MAXBITS" "root \<le> MAXBITS"
    using st all by (auto simp: tab_stat_def dec_sorted_def sorted_append)
  have le: "t_len t \<le> mx" using sd(2) len by simp
  have "filter (\<lambda>s. lens ! s < t_len t) (r # rs) = []"
    using sorted_tail [of lens "[]" r rs] sd(1) len(1) by (fastforce simp: filter_empty_conv)
  then have "2 ^ (t_len t - root) * 2 ^ (MAXBITS - (t_len t - root + root)) =
      2 ^ (MAXBITS - root) - int (code_span lens (filter (\<lambda>s. lens ! s < t_len t - root + root) (r # rs)))"
    using len le sd(3) by (simp flip: power_add)
  from sub_bits_fits [OF cnt sd(1,2,3) _ _ this] le len
  have c: "t_len t - root \<le> c" "c + root \<le> mx" "sub_fits lens root c 0 (r # rs)" by (simp_all add: c_def)
  let ?tab = "(t_tab t)[lo := Code c root (t_used t)]"
  have lo: "lo < 2 ^ root" by (simp add: lo_def)
  have "\<exists>s. sym_at lens all (rv MAXBITS x) = Some s \<and>
      ok_at type lens ?tab root (if Some lo = Some (x mod 2 ^ root) then t_used t + 2 ^ c else t_used t) x s"
    if x: "x < 2 ^ MAXBITS" "rv MAXBITS x < code_span lens ds" for x
  proof -
    obtain s where s: "sym_at lens all (rv MAXBITS x) = Some s"
      "ok_at type lens (t_tab t) root (if t_low t = Some (x mod 2 ^ root) then t_used t else t_next t) x s"
      by (rule goodE [OF gd x])
    have ne: "x mod 2 ^ root \<noteq> lo"
      unfolding lo_def by (rule rv_prefix_lt [OF refl sd(4) dv x(2) h(2)])
    have "ok_at type lens (t_tab t) root (t_used t) x s"
      by (rule ok_at_mono [OF s(2)]) (use used in simp)
    then have "ok_at type lens ?tab root (t_used t) x s"
      using ne lo by (auto simp: ok_at_def split: if_splits)
    then show ?thesis using s(1) ne by auto
  qed
  then have g: "tab_good type lens all root (code_span lens ds) ?tab (t_used t) (t_used t + 2 ^ c) (Some lo)"
    by (simp add: tab_good_def)
  have ll: "lo < length (t_tab t)" using lo used sp by (simp add: t3)
  have "root + c \<le> MAXBITS" "0 < c" using c len sd(3) by linarith+
  then show ?thesis
    using all len h cnt used sp g c(3) ll dv nb by (simp add: tinv_def t3 phaseB_def lo_def)
qed

lemma step_aligned:
  fixes P w K :: nat
  assumes K: "K = 2 ^ (MAXBITS - r)" and w: "w = 2 ^ (MAXBITS - l)" and "r < l" "l \<le> MAXBITS" and "w dvd P"
    and ne: "(P + w) div K \<noteq> P div K"
  shows "K dvd P + w"
proof -
  have wK: "w dvd K" unfolding K w using assms(3) by (intro le_imp_power_dvd) simp
  then have wr: "w dvd P mod K" using assms(5) by (metis dvd_mod)
  then have "P mod K + w \<le> K"
  proof -
    obtain a where a: "P mod K = w * a" using wr ..
    obtain b where b: "K = w * b" using wK ..
    have "P mod K < K" using K by simp
    then have "a < b" using a b w by simp
    then have "w * (a + 1) \<le> w * b" by (intro mult_le_mono2) simp
    then show ?thesis using a b by (simp add: algebra_simps)
  qed
  moreover have "\<not> P mod K + w < K"
  proof
    assume lt: "P mod K + w < K"
    have "P + w = P div K * K + (P mod K + w)" by (simp flip: div_mult_mod_eq)
    with lt ne show False by (metis add.right_neutral div_less div_mult_self3 not_less_zero)
  qed
  ultimately have "P mod K + w = K" by simp
  then have "P + w = P div K * K + K" by (metis add.assoc div_mult_mod_eq)
  then show ?thesis by simp
qed

lemma fits_next:
  assumes "sub_fits lens root c off (s # rs)" and "off' = off + code_wt lens s"
  shows "sub_fits lens root c off' rs"
  unfolding sub_fits_def
proof (intro allI impI)
  fix a x b assume "rs = a @ x # b" "off' + code_span lens a < 2 ^ (MAXBITS - root)"
  then have "s # rs = (s # a) @ x # b" "off + code_span lens (s # a) < 2 ^ (MAXBITS - root)"
    using assms(2) by simp_all
  then show "lens ! x \<le> root + c" using assms(1) unfolding sub_fits_def by blast
qed

lemma next_len:
  assumes "dec_sorted lens (s # r # rs)" and "cnt_ok lens (s # r # rs) cnt" and "n = cnt ! (lens ! s) - 1"
  shows "(if n = 0 then lens ! r else lens ! s) = lens ! r"
    and "n = 0 \<Longrightarrow> \<forall>x\<in>set (r # rs). lens ! x \<noteq> lens ! s"
proof -
  have n: "n = length (filter (\<lambda>x. lens ! x = lens ! s) (r # rs))"
    using assms by (auto simp: cnt_ok_def dec_sorted_def)
  then show "n = 0 \<Longrightarrow> \<forall>x\<in>set (r # rs). lens ! x \<noteq> lens ! s"
    by (auto simp: filter_empty_conv split: if_splits)
  show "(if n = 0 then lens ! r else lens ! s) = lens ! r"
  proof (cases "n = 0")
    case False
    then have "filter (\<lambda>x. lens ! x = lens ! s) (r # rs) \<noteq> []" using n by (metis length_0_conv)
    then obtain x where "x \<in> set (filter (\<lambda>x. lens ! x = lens ! s) (r # rs))" by (meson last_in_set)
    then have "x \<in> set (r # rs)" "lens ! x = lens ! s" unfolding set_filter by auto
    then show ?thesis using assms(1) by (auto simp: dec_sorted_def)
  qed simp
qed

lemma tab_loop_step:
  assumes "code_entry type w (t_len t - t_drop t) = Some here"
    and "fill_code (t_tab t) (t_next t + t_huff t div 2 ^ t_drop t) (2 ^ (t_len t - t_drop t)) (2 ^ t_curr t) here = Some tab"
    and "n = t_count t ! t_len t - 1"
    and "t1 = t\<lparr>t_tab := tab, t_huff := next_huff (t_len t) (t_huff t), t_count := (t_count t)[t_len t := n]\<rparr>"
    and "\<not> (n = 0 \<and> t_len t = mx)" and "(if n = 0 then lens ! w' else t_len t) = len"
    and "t2 = t1\<lparr>t_len := len\<rparr>" and "t3 = new_sub root mx t2" and "low = t_huff t2 mod 2 ^ root"
  shows "tab_loop type lens root mx (w # w' # ws) t =
     (if len > root \<and> Some low \<noteq> t_low t2 then
        if too_big type (t_used t3) then Some (1, t3)
        else if low < length (t_tab t3)
        then tab_loop type lens root mx (w' # ws)
               (t3\<lparr>t_tab := (t_tab t3)[low := Code (t_curr t3) root (t_next t3)]\<rparr>)
        else None
      else tab_loop type lens root mx (w' # ws) t2)"
proof -
  have c: "(if n = 0 then (case w' # ws of [] \<Rightarrow> None | w'' # _ \<Rightarrow> Some (lens ! w'')) else Some (t_len t)) = Some len"
    using assms(6) by (auto split: if_splits)
  show ?thesis
    unfolding tab_loop.simps(2) assms(1) assms(2) Option.bind.bind_lunit Let_def
    unfolding assms(3) [symmetric] assms(4) [symmetric]
    using assms(5) by (simp only: c option.case if_False assms(7) [symmetric] assms(8) [symmetric] assms(9) [symmetric])
qed

section \<open>The loop\<close>

definition tab_done :: "codetype \<Rightarrow> nat list \<Rightarrow> nat \<Rightarrow> nat \<Rightarrow> nat list \<Rightarrow> tab_state \<Rightarrow> bool" where
  "tab_done type lens root mx all t \<longleftrightarrow> 2 ^ root \<le> t_used t \<and> t_used t \<le> length (t_tab t) \<and> t_len t = mx \<and>
     \<not> too_big type (t_used t) \<and>
     tab_good type lens all root (code_span lens all) (t_tab t) (t_used t) (t_used t) None \<and>
     t_huff t < 2 ^ mx \<and> (code_span lens all = 2 ^ MAXBITS \<longrightarrow> t_huff t = 0) \<and>
     (code_span lens all < 2 ^ MAXBITS \<longrightarrow> rv MAXBITS (t_huff t) = code_span lens all) \<and>
     (mx \<le> root \<longrightarrow> phaseA root t \<and> t_used t = 2 ^ root)"

lemma stat_facts:
  assumes "tab_stat type lens root mx (ds @ s # rs)"
  shows "dec_sorted lens (s # rs)" "1 \<le> lens ! s" "lens ! s \<le> MAXBITS" "lens ! s \<le> mx" "mx \<le> MAXBITS"
    "root \<le> MAXBITS" "1 \<le> root" "code_span lens ds + code_wt lens s + code_span lens rs \<le> 2 ^ MAXBITS"
    "lens ! last (s # rs) = mx" "\<forall>x\<in>set ds. lens ! x \<le> lens ! s"
    "\<forall>x\<in>set (s # rs). lens ! x \<le> mx \<and> lens ! s \<le> lens ! x"
  using assms by (auto simp: tab_stat_def dec_sorted_def sorted_append)

lemma tab_loop_last:
  assumes st: "tab_stat type lens root mx all" and inv: "tinv type lens root all ds [s] t"
  shows "\<exists>t'. tab_loop type lens root mx (s # zs) t = Some (0, t') \<and> length (t_tab t') = length (t_tab t) \<and>
     tab_done type lens root mx all t'"
proof -
  have all: "all = ds @ [s]" using inv by (simp add: tinv_def)
  note f = stat_facts [OF st [unfolded all]]
  have mx: "t_len t = mx" using f(9) inv by (simp add: tinv_def)
  obtain here tab where ht: "code_entry type s (t_len t - t_drop t) = Some here"
    "fill_code (t_tab t) (t_next t + t_huff t div 2 ^ t_drop t) (2 ^ (t_len t - t_drop t)) (2 ^ t_curr t) here = Some tab"
    "length tab = length (t_tab t)"
    "tab_good type lens all root (code_span lens ds + code_wt lens s) tab (t_next t) (t_used t) (t_low t)"
    by (rule fill_step [OF st inv])
  have nb: "\<not> too_big type (t_used t)" using inv unfolding tinv_def by blast
  have n: "t_count t ! t_len t - 1 = 0"
    using inv f by (simp add: tinv_def cnt_ok_def)
  let ?t = "t\<lparr>t_tab := tab, t_huff := next_huff (t_len t) (t_huff t), t_count := (t_count t)[t_len t := 0]\<rparr>"
  have run: "tab_loop type lens root mx (s # zs) t = Some (0, ?t)"
    using ht(1,2) n mx by (simp add: Let_def)
  have h: "t_huff t < 2 ^ t_len t" "rv MAXBITS (t_huff t) = code_span lens ds" "t_len t = lens ! s"
    "t_used t = t_next t + 2 ^ t_curr t" "t_used t \<le> length (t_tab t)" "2 ^ root \<le> t_used t"
    using inv unfolding tinv_def list.sel by blast+
  have w: "code_wt lens s = 2 ^ (MAXBITS - t_len t)" using h(3) by (simp add: code_wt_def)
  have l: "1 \<le> t_len t" "t_len t \<le> MAXBITS" "code_span lens ds + 2 ^ (MAXBITS - t_len t) \<le> 2 ^ MAXBITS"
    using f h(3) w by simp_all
  note adv = huff_advance [OF h(1) l(1,2) h(2) l(3)]
  have sp: "code_span lens all = code_span lens ds + 2 ^ (MAXBITS - t_len t)" by (simp add: all w)
  have g: "tab_good type lens all root (code_span lens all) tab (t_used t) (t_used t) None"
    unfolding tab_good_def
  proof (intro allI impI)
    fix x assume x: "x < 2 ^ MAXBITS" "rv MAXBITS x < code_span lens all"
    then have "rv MAXBITS x < code_span lens ds + code_wt lens s" by (simp add: all)
    from goodE [OF ht(4) x(1) this] obtain s' where s': "sym_at lens all (rv MAXBITS x) = Some s'"
      "ok_at type lens tab root (if t_low t = Some (x mod 2 ^ root) then t_used t else t_next t) x s'" by blast
    have "ok_at type lens tab root (t_used t) x s'"
      by (rule ok_at_mono [OF s'(2)]) (use h(4) in simp)
    with s'(1) show "\<exists>s. sym_at lens all (rv MAXBITS x) = Some s \<and>
        ok_at type lens tab root (if None = Some (x mod 2 ^ root) then t_used t else t_used t) x s" by auto
  qed
  have "mx \<le> root \<longrightarrow> phaseA root t \<and> t_used t = 2 ^ root"
    using inv mx by (auto simp: tinv_def phaseA_def)
  then have "tab_done type lens root mx all ?t"
    using g adv h ht(3) mx sp nb by (auto simp: tab_done_def phaseA_def)
  then show ?thesis using run ht(3) by auto
qed

lemma tab_loop_ok:
  assumes st: "tab_stat type lens root mx all" and H: "mx \<le> root \<or> (\<forall>u. \<not> too_big type u \<longrightarrow> u \<le> L)"
  shows "tinv type lens root all ds rest t \<Longrightarrow> length (t_tab t) = L \<Longrightarrow>
     \<exists>r t'. tab_loop type lens root mx (rest @ zs) t = Some (r, t') \<and> length (t_tab t') = L \<and>
       (r = 0 \<and> tab_done type lens root mx all t' \<or> r = 1 \<and> \<not> mx \<le> root)"
proof (induction rest arbitrary: ds t)
  case Nil
  then show ?case by (simp add: tinv_def)
next
  case (Cons s rest)
  note inv = Cons.prems(1)
  show ?case
  proof (cases rest)
    case Nil
    then show ?thesis using tab_loop_last [OF st, of ds s t zs] inv Cons.prems(2) by auto
  next
    case (Cons r rs)
    have all: "all = ds @ s # r # rs" using inv Cons by (simp add: tinv_def)
    note f = stat_facts [OF st [unfolded all]]
    obtain here tab where ht: "code_entry type s (t_len t - t_drop t) = Some here"
      "fill_code (t_tab t) (t_next t + t_huff t div 2 ^ t_drop t) (2 ^ (t_len t - t_drop t)) (2 ^ t_curr t) here = Some tab"
      "length tab = length (t_tab t)"
      "tab_good type lens all root (code_span lens ds + code_wt lens s) tab (t_next t) (t_used t) (t_low t)"
      "phaseB lens root (code_span lens ds) (s # r # rs) t \<Longrightarrow> tab ! (t_huff t mod 2 ^ root) = t_tab t ! (t_huff t mod 2 ^ root)"
      by (rule fill_step [OF st inv [unfolded Cons]]) blast
    have h: "t_huff t < 2 ^ t_len t" "rv MAXBITS (t_huff t) = code_span lens ds" "t_len t = lens ! s"
      "t_used t = t_next t + 2 ^ t_curr t" "t_used t \<le> length (t_tab t)" "2 ^ root \<le> t_used t"
      "cnt_ok lens (s # r # rs) (t_count t)"
      "phaseA root t \<and> t_len t \<le> root \<or> phaseB lens root (code_span lens ds) (s # r # rs) t \<and> root < t_len t"
      using inv unfolding tinv_def Cons list.sel by blast+
    have nb: "\<not> too_big type (t_used t)" using inv unfolding tinv_def by blast
    define n where "n = t_count t ! t_len t - 1"
    have nl: "(if n = 0 then lens ! r else t_len t) = lens ! r" "n = 0 \<Longrightarrow> \<forall>x\<in>set (r # rs). lens ! x \<noteq> lens ! s"
      using next_len [OF f(1) h(7) n_def [unfolded h(3)]] unfolding h(3) by blast+
    have notend: "\<not> (n = 0 \<and> t_len t = mx)"
      using nl(2) f(9,11) h(3) by (auto split: if_splits dest: last_in_set)
    have w: "code_wt lens s = 2 ^ (MAXBITS - t_len t)" using h(3) by (simp add: code_wt_def)
    have rpos: "0 < code_span lens (r # rs)" using span_zero_iff [of lens "r # rs"] by simp
    have lim: "code_span lens ds + 2 ^ (MAXBITS - t_len t) < 2 ^ MAXBITS"
      using f(8) rpos unfolding w by linarith
    note adv = huff_advance [OF h(1) _ _ h(2) less_imp_le [OF lim]]
    have h': "next_huff (t_len t) (t_huff t) < 2 ^ t_len t"
      "rv MAXBITS (next_huff (t_len t) (t_huff t)) = code_span lens ds + code_wt lens s"
      using adv(1,2) f(2,3) h(3) lim w by simp_all
    define t1 where "t1 = t\<lparr>t_tab := tab, t_huff := next_huff (t_len t) (t_huff t), t_count := (t_count t)[t_len t := n]\<rparr>"
    define t2 where "t2 = t1\<lparr>t_len := lens ! r\<rparr>"
    define low where "low = t_huff t2 mod 2 ^ root"
    define t3 where "t3 = new_sub root mx t2"
    note run = tab_loop_step [OF ht(1,2) n_def t1_def notend nl(1) t2_def t3_def low_def, where ws = "rs @ zs"]
    have le: "t_len t \<le> lens ! r" using f(11) h(3) by simp
    have hr: "t_huff t2 < 2 ^ lens ! r"
      using less_le_trans [OF h'(1) power_increasing [OF le, of "2 :: nat"]] by (simp add: t2_def t1_def)
    have hv: "rv MAXBITS (t_huff t2) = code_span lens (ds @ [s])" using h'(2) by (simp add: t2_def t1_def)
    have cn: "cnt_ok lens (r # rs) (t_count t2)"
      using cnt_ok_next [OF h(7) f(2,3)] by (simp add: t2_def t1_def n_def h(3))
    have g: "tab_good type lens all root (code_span lens (ds @ [s])) (t_tab t2) (t_next t2) (t_used t2) (t_low t2)"
      using ht(4) by (simp add: t2_def t1_def)
    have fld: "t_len t2 = lens ! r" "t_drop t2 = t_drop t" "t_low t2 = t_low t" "t_next t2 = t_next t"
      "t_curr t2 = t_curr t" "t_used t2 = t_used t" "length (t_tab t2) = L" "t_tab t2 = tab"
      using ht(3) Cons.prems(2) by (simp_all add: t2_def t1_def)
    have all2: "all = (ds @ [s]) @ r # rs" by (simp add: all)
    let ?K = "2 ^ (MAXBITS - root) :: nat"
    show ?thesis
    proof (cases "lens ! r > root \<and> Some low \<noteq> t_low t2")
      case True
      have dv: "?K dvd code_span lens (ds @ [s])"
      proof (cases "phaseA root t")
        case A: True
        then have "t_len t \<le> root" using h(8) f(7) by (auto simp: phaseA_def phaseB_def)
        then show ?thesis using f(10) h(3) f(6) by (intro span_dvd) auto
      next
        case False
        then have B: "phaseB lens root (code_span lens ds) (s # r # rs) t" "root < t_len t" using h(8) by auto
        have "2 ^ (MAXBITS - t_len t) dvd code_span lens ds"
          using f(10) f(3) h(3) by (intro span_dvd) auto
        moreover have "(code_span lens ds + 2 ^ (MAXBITS - t_len t)) div ?K \<noteq> code_span lens ds div ?K"
        proof
          assume "(code_span lens ds + 2 ^ (MAXBITS - t_len t)) div ?K = code_span lens ds div ?K"
          then have "rv root (t_huff t2) = rv root (t_huff t)"
            using rv_prefix [OF f(6), of "t_huff t2"] rv_prefix [OF f(6), of "t_huff t"] hv h(2) w by simp
          then have "low = t_huff t mod 2 ^ root" unfolding low_def by (rule rv_inj)
          then show False using True B(1) fld(3) by (simp add: phaseB_def)
        qed
        ultimately show ?thesis
          using step_aligned [OF refl refl B(2) _ , of "code_span lens ds"] f(3) h(3) w by simp
      qed
      have lt: "root < mx" using True f(11) by auto
      then have H': "\<not> too_big type u \<Longrightarrow> u \<le> L" for u using H by auto
      show ?thesis
      proof (cases "too_big type (t_used t3)")
        case big: True
        then have "tab_loop type lens root mx ((s # rest) @ zs) t = Some (1, t3)"
          using run True by (simp add: Cons)
        moreover have "length (t_tab t3) = L" using fld by (simp add: t3_def new_sub_def Let_def)
        ultimately show ?thesis using lt by auto
      next
        case False
        have sp: "t_used t3 \<le> length (t_tab t2)" using H' [OF False] fld by simp
        let ?t4 = "t3\<lparr>t_tab := (t_tab t3)[low := Code (t_curr t3) root (t_next t3)]\<rparr>"
        have inv': "tinv type lens root all (ds @ [s]) (r # rs) ?t4"
          unfolding low_def
        proof (rule new_sub_inv [OF st all2 fld(1) _ _ hv cn _ _ g _ dv t3_def sp False])
          show "root < t_len t2" using True fld by simp
          show "t_huff t2 < 2 ^ t_len t2" using hr fld by simp
          show "t_used t2 = t_next t2 + 2 ^ t_curr t2" "2 ^ root \<le> t_used t2" using h fld by simp_all
          show "t_drop t2 = 0 \<or> t_drop t2 = root" using h(8) fld by (auto simp: phaseA_def phaseB_def)
        qed
        have L: "length (t_tab t3) = L" using fld by (simp add: t3_def new_sub_def Let_def)
        have "low < 2 ^ root" by (simp add: low_def)
        then have "low < length (t_tab t3)" using h(5,6) Cons.prems(2) L by linarith
        then have "tab_loop type lens root mx ((s # rest) @ zs) t = tab_loop type lens root mx (rest @ zs) ?t4"
          using run True False by (simp add: Cons)
        then show ?thesis using Cons.IH [of "ds @ [s]" ?t4] inv' L Cons by simp
      qed
    next
      case False
      have "tab_loop type lens root mx ((s # rest) @ zs) t = tab_loop type lens root mx (rest @ zs) t2"
        using run False by (simp add: Cons)
      moreover have "tinv type lens root all (ds @ [s]) (r # rs) t2"
      proof -
        have "phaseA root t2 \<and> t_len t2 \<le> root \<or>
            phaseB lens root (code_span lens (ds @ [s])) (r # rs) t2 \<and> root < t_len t2"
        proof (cases "phaseA root t")
          case A: True
          then show ?thesis using False fld by (auto simp: phaseA_def)
        next
          case nA: False
          then have B: "phaseB lens root (code_span lens ds) (s # r # rs) t" "root < t_len t" using h(8) by auto
          have lo: "low = t_huff t mod 2 ^ root" using False B le fld(3) by (auto simp: phaseB_def)
          have "rv root (t_huff t2) = rv root (t_huff t)"
            using lo rv_mod [of root root "t_huff t2"] rv_mod [of root root "t_huff t"] by (simp add: low_def)
          then have "code_span lens (ds @ [s]) div ?K = code_span lens ds div ?K"
            using rv_prefix [OF f(6), of "t_huff t2"] rv_prefix [OF f(6), of "t_huff t"] hv h(2) by simp
          then have "code_span lens (ds @ [s]) mod ?K = code_span lens ds mod ?K + code_wt lens s"
            using div_mult_mod_eq [of "code_span lens (ds @ [s])" ?K] div_mult_mod_eq [of "code_span lens ds" ?K] by simp
          then have "sub_fits lens root (t_curr t) (code_span lens (ds @ [s]) mod ?K) (r # rs)"
            using fits_next B(1) unfolding phaseB_def by blast
          then show ?thesis using B le lo ht(5) fld by (auto simp: phaseB_def low_def)
        qed
        then show ?thesis
          using all2 hr hv cn g h(4,5,6) fld Cons.prems(2) nb by (simp add: tinv_def)
      qed
      ultimately show ?thesis using Cons.IH [of "ds @ [s]" t2] fld Cons by simp
    qed
  qed
qed


section \<open>Counting\<close>

lemma count_lens_ok:
  "\<forall>l\<in>set lens. l \<le> MAXBITS \<Longrightarrow> length cnt = Suc MAXBITS \<Longrightarrow>
     \<exists>c. count_lens lens cnt = Some c \<and> length c = Suc MAXBITS \<and>
       (\<forall>l\<le>MAXBITS. c ! l = cnt ! l + length (filter (\<lambda>x. x = l) lens))"
proof (induction lens arbitrary: cnt)
  case (Cons a lens)
  from Cons.IH [of "cnt[a := cnt ! a + 1]"] Cons.prems obtain c where
    "count_lens lens (cnt[a := cnt ! a + 1]) = Some c" "length c = Suc MAXBITS"
    "\<forall>l\<le>MAXBITS. c ! l = cnt[a := cnt ! a + 1] ! l + length (filter (\<lambda>x. x = l) lens)" by auto
  then show ?case using Cons.prems by (auto simp: nth_list_update)
qed simp

lemma count_lens_some:
  assumes "\<forall>l\<in>set lens. l \<le> MAXBITS"
  obtains c where "count_lens lens (replicate (MAXBITS + 1) 0) = Some c" "length c = Suc MAXBITS"
    "\<And>l. l \<le> MAXBITS \<Longrightarrow> c ! l = length (filter (\<lambda>s. lens ! s = l) [0..<length lens])"
proof -
  have "length (filter (\<lambda>x. x = l) lens) = length (filter (\<lambda>s. lens ! s = l) [0..<length lens])" for l
  proof -
    have "filter (\<lambda>x. x = l) (map ((!) lens) [0..<length lens]) = map ((!) lens) (filter ((\<lambda>x. x = l) \<circ> (!) lens) [0..<length lens])"
      by (rule filter_map)
    then show ?thesis by (simp add: map_nth comp_def)
  qed
  with count_lens_ok [OF assms, of "replicate (MAXBITS + 1) 0"] that show ?thesis
    by (auto simp del: replicate.simps)
qed

lemma max_len_le: "max_len cnt m \<le> m"
  by (induction m) auto

lemma max_len_pos: "0 < max_len cnt m \<Longrightarrow> cnt ! max_len cnt m \<noteq> 0"
  by (induction m) auto

lemma max_len_above: "l \<le> m \<Longrightarrow> max_len cnt m < l \<Longrightarrow> cnt ! l = 0"
  by (induction m) (auto simp: le_Suc_eq split: if_splits)

lemma min_len_ok: "m \<le> mx \<Longrightarrow> cnt ! mx \<noteq> 0 \<Longrightarrow> m \<le> min_len cnt mx m \<and> min_len cnt mx m \<le> mx \<and>
    cnt ! min_len cnt mx m \<noteq> 0 \<and> (\<forall>l. m \<le> l \<and> l < min_len cnt mx m \<longrightarrow> cnt ! l = 0)"
proof (induction cnt mx m rule: min_len.induct)
  case (1 cnt mx m)
  show ?case
  proof (cases "m < mx \<and> cnt ! m = 0")
    case True
    then have e: "min_len cnt mx m = min_len cnt mx (Suc m)" by (subst min_len.simps) simp
    show ?thesis using 1 True unfolding e by (metis Suc_le_eq le_SucI le_antisym not_less_eq_eq less_or_eq_imp_le)
  next
    case False
    then have e: "min_len cnt mx m = m" by (subst min_len.simps) auto
    show ?thesis using 1(2,3) False unfolding e by (cases "m = mx") auto
  qed
qed

section \<open>The canonical order\<close>

definition of_len :: "nat list \<Rightarrow> nat \<Rightarrow> nat list" where
  "of_len lens l = filter (\<lambda>s. lens ! s = l) [0..<length lens]"

definition canon_upto :: "nat list \<Rightarrow> nat \<Rightarrow> nat list" where
  "canon_upto lens n = concat (map (of_len lens) [1..<Suc n])"

abbreviation canon :: "nat list \<Rightarrow> nat list" where
  "canon lens \<equiv> canon_upto lens MAXBITS"

lemma canon_upto_0 [simp]: "canon_upto lens 0 = []"
  by (simp add: canon_upto_def)

lemma canon_upto_Suc [simp]: "canon_upto lens (Suc n) = canon_upto lens n @ of_len lens (Suc n)"
  by (simp add: canon_upto_def)

lemma set_of_len: "set (of_len lens l) = {s. s < length lens \<and> lens ! s = l}"
  by (auto simp: of_len_def)

lemma set_canon_upto: "set (canon_upto lens n) = {s. s < length lens \<and> 1 \<le> lens ! s \<and> lens ! s \<le> n}"
proof (induction n)
  case (Suc n)
  have "set (canon_upto lens (Suc n)) = set (canon_upto lens n) \<union> set (of_len lens (Suc n))" by simp
  also have "\<dots> = {s. s < length lens \<and> 1 \<le> lens ! s \<and> lens ! s \<le> Suc n}"
    unfolding Suc set_of_len by auto
  finally show ?case .
qed auto

lemma sorted_canon_upto: "sorted (map ((!) lens) (canon_upto lens n))"
proof (induction n)
  case (Suc n)
  have "\<forall>s\<in>set ss. lens ! s = l \<Longrightarrow> sorted (map ((!) lens) ss)" for l ss
    by (induction ss) auto
  from this [of "of_len lens (Suc n)" "Suc n"] have "sorted (map ((!) lens) (of_len lens (Suc n)))"
    by (simp add: set_of_len)
  with Suc show ?case by (auto simp: sorted_append set_canon_upto set_of_len)
qed simp

lemma dec_sorted_canon: "dec_sorted lens (canon lens)"
  unfolding dec_sorted_def set_canon_upto by (rule conjI, rule sorted_canon_upto) blast

lemma filter_canon_upto: "l \<le> n \<Longrightarrow> 1 \<le> l \<Longrightarrow> filter (\<lambda>s. lens ! s = l) (canon_upto lens n) = of_len lens l"
proof (induction n)
  case (Suc n)
  have f: "filter (\<lambda>s. lens ! s = l) (of_len lens m) = (if m = l then of_len lens l else [])" for m
    by (auto simp: of_len_def filter_empty_conv)
  show ?case
  proof (cases "l = Suc n")
    case True
    have "filter (\<lambda>s. lens ! s = Suc n) (canon_upto lens n) = []" by (auto simp: filter_empty_conv set_canon_upto)
    then show ?thesis using True f by simp
  next
    case False
    then show ?thesis using Suc f by simp
  qed
qed simp

lemma length_canon_upto: "length (canon_upto lens n) \<le> length lens"
proof -
  have "distinct (canon_upto lens n)"
  proof (induction n)
    case (Suc n)
    then show ?case by (auto simp: set_canon_upto set_of_len) (simp add: of_len_def)
  qed simp
  then have "length (canon_upto lens n) = card (set (canon_upto lens n))" by (simp add: distinct_card)
  also have "\<dots> \<le> card {..<length lens}" by (rule card_mono) (auto simp: set_canon_upto)
  finally show ?thesis by simp
qed

section \<open>The Kraft sum\<close>

definition kraft :: "nat list \<Rightarrow> nat" where
  "kraft lens = sum_list (map (\<lambda>l. if l = 0 then 0 else 2 ^ (MAXBITS - l)) lens)"

lemma mset_canon_upto:
  "mset (canon_upto lens n) = filter_mset (\<lambda>s. 1 \<le> lens ! s \<and> lens ! s \<le> n) (mset [0..<length lens])"
proof (induction n)
  case (Suc n)
  have "filter_mset (\<lambda>s. 1 \<le> lens ! s \<and> lens ! s \<le> Suc n) M =
      filter_mset (\<lambda>s. 1 \<le> lens ! s \<and> lens ! s \<le> n) M + filter_mset (\<lambda>s. lens ! s = Suc n) M" for M :: "nat multiset"
    by (induction M) auto
  with Suc show ?case by (simp add: of_len_def del: mset_upt)
next
  case 0
  have "filter_mset (\<lambda>s. 1 \<le> lens ! s \<and> lens ! s \<le> 0) M = {#}" for M :: "nat multiset"
    by (induction M) auto
  then show ?case by (simp del: mset_upt)
qed

lemma span_canon: 
  assumes "\<forall>l\<in>set lens. l \<le> MAXBITS"
  shows "code_span lens (canon lens) = kraft lens"
proof -
  have "code_span lens (canon lens) = sum_mset (image_mset (code_wt lens) (mset (canon lens)))"
    by (simp add: code_span_def flip: mset_map sum_mset_sum_list)
  also have "\<dots> = sum_mset (image_mset (\<lambda>s. if lens ! s = 0 then 0 else 2 ^ (MAXBITS - lens ! s)) (mset [0..<length lens]))"
  proof -
    have "s \<in># mset [0..<length lens] \<Longrightarrow> lens ! s \<le> MAXBITS" for s using assms by simp
    moreover have "(\<And>s. s \<in># M \<Longrightarrow> lens ! s \<le> MAXBITS) \<Longrightarrow>
      sum_mset (image_mset (code_wt lens) (filter_mset (\<lambda>s. 1 \<le> lens ! s \<and> lens ! s \<le> MAXBITS) M)) =
        sum_mset (image_mset (\<lambda>s. if lens ! s = 0 then 0 else 2 ^ (MAXBITS - lens ! s)) M)" for M
      by (induction M) (auto simp: code_wt_def)
    ultimately show ?thesis unfolding mset_canon_upto by blast
  qed
  also have "\<dots> = sum_list (map (\<lambda>s. if lens ! s = 0 then 0 else 2 ^ (MAXBITS - lens ! s)) [0..<length lens])"
    by (simp only: mset_map [symmetric] sum_mset_sum_list)
  also have "map (\<lambda>s. if lens ! s = 0 then 0 else 2 ^ (MAXBITS - lens ! s)) [0..<length lens] =
      map (\<lambda>l. if l = 0 then 0 else 2 ^ (MAXBITS - l)) (map ((!) lens) [0..<length lens])" by simp
  finally show ?thesis by (simp add: kraft_def map_nth)
qed

lemma span_of_len: "code_span lens (of_len lens l) = length (of_len lens l) * 2 ^ (MAXBITS - l)"
  using span_filter_eq [of lens l "[0..<length lens]"] by (simp add: of_len_def)

lemma codes_left_ok:
  "n \<le> MAXBITS \<Longrightarrow> (\<And>l. 1 \<le> l \<Longrightarrow> l \<le> MAXBITS \<Longrightarrow> cnt ! l = length (of_len lens l)) \<Longrightarrow>
     left * 2 ^ n = 2 ^ MAXBITS - int (code_span lens (canon_upto lens (MAXBITS - n))) \<Longrightarrow> 0 \<le> left \<Longrightarrow>
     codes_left cnt n left =
       (if code_span lens (canon lens) \<le> 2 ^ MAXBITS then Some (2 ^ MAXBITS - int (code_span lens (canon lens))) else None)"
proof (induction n arbitrary: left)
  case 0
  then show ?case by auto
next
  case (Suc n)
  define l where "l = MAXBITS - n"
  have l: "1 \<le> l" "l \<le> MAXBITS" "MAXBITS - l = n" "MAXBITS - Suc n = l - 1" "Suc (l - 1) = l"
    using Suc.prems(1) by (auto simp: l_def)
  have sp: "code_span lens (canon_upto lens l) = code_span lens (canon_upto lens (l - 1)) + cnt ! l * 2 ^ n"
    using canon_upto_Suc [of lens "l - 1"] l span_of_len [of lens l] Suc.prems(2) by simp
  let ?L = "left * 2 - int (cnt ! l)"
  have eq: "?L * 2 ^ n = 2 ^ MAXBITS - int (code_span lens (canon_upto lens l))"
    using Suc.prems(3) l sp by (simp add: algebra_simps)
  show ?case
  proof (cases "?L < 0")
    case True
    then have "?L * 2 ^ n < 0" by (simp add: mult_neg_pos)
    then have "2 ^ MAXBITS < int (code_span lens (canon_upto lens l))" using eq by simp
    moreover have "code_span lens (canon_upto lens l) \<le> code_span lens (canon lens)"
    proof -
      have "k \<le> m \<Longrightarrow> code_span lens (canon_upto lens k) \<le> code_span lens (canon_upto lens m)" for k m
        by (induction m) (auto simp: le_Suc_eq)
      then show ?thesis using l by simp
    qed
    ultimately have "\<not> code_span lens (canon lens) \<le> 2 ^ MAXBITS" by (simp flip: of_nat_power of_nat_less_iff)
    then show ?thesis using True by (simp add: l_def)
  next
    case False
    then show ?thesis using Suc.IH [of ?L] Suc.prems eq by (simp add: l_def Let_def)
  qed
qed
section \<open>Sorting by length\<close>

lemma offsets_nth: "1 \<le> l \<Longrightarrow> l \<le> MAXBITS \<Longrightarrow> (\<And>k. 1 \<le> k \<Longrightarrow> k \<le> MAXBITS \<Longrightarrow> cnt ! k = length (of_len lens k)) \<Longrightarrow>
     off = length (canon_upto lens (l - 1)) \<Longrightarrow> l \<le> k \<Longrightarrow> k \<le> MAXBITS \<Longrightarrow>
     offsets cnt l off ! (k - l) = length (canon_upto lens (k - 1))"
proof (induction cnt l off rule: offsets.induct)
  case (1 cnt l off)
  show ?case
  proof (cases "l \<ge> MAXBITS")
    case True
    then show ?thesis using "1.prems" by (subst offsets.simps) simp
  next
    case lt: False
    then have e: "offsets cnt l off = off # offsets cnt (Suc l) (off + cnt ! l)" by (subst offsets.simps) simp
    show ?thesis
    proof (cases "k = l")
      case True
      then show ?thesis using e "1.prems"(4) by simp
    next
      case False
      have "off + cnt ! l = length (canon_upto lens (Suc l - 1))"
        using "1.prems"(1-4) canon_upto_Suc [of lens "l - 1"] by simp
      then have "offsets cnt (Suc l) (off + cnt ! l) ! (k - Suc l) = length (canon_upto lens (k - 1))"
        using lt False "1.prems" by (intro "1.IH") auto
      moreover have "k - l = Suc (k - Suc l)" using False "1.prems"(5) by simp
      ultimately show ?thesis using e by simp
    qed
  qed
qed

lemma offsets_length: "1 \<le> l \<Longrightarrow> l \<le> MAXBITS \<Longrightarrow> length (offsets cnt l off) = Suc (MAXBITS - l)"
proof (induction cnt l off rule: offsets.induct)
  case (1 cnt l off)
  show ?case
  proof (cases "l \<ge> MAXBITS")
    case True
    then show ?thesis by (subst offsets.simps) simp
  next
    case False
    then show ?thesis using "1.IH" "1.prems" by (subst offsets.simps) simp
  qed
qed

text \<open>The symbols of length \<open>l\<close> before symbol \<open>k\<close>, and where they stand.\<close>

definition of_len_below :: "nat list \<Rightarrow> nat \<Rightarrow> nat \<Rightarrow> nat list" where
  "of_len_below lens l k = filter (\<lambda>s. lens ! s = l) [0..<k]"

abbreviation base_of :: "nat list \<Rightarrow> nat \<Rightarrow> nat" where
  "base_of lens l \<equiv> length (canon_upto lens (l - 1))"

definition sinv :: "nat list \<Rightarrow> nat \<Rightarrow> nat list \<Rightarrow> nat list \<Rightarrow> bool" where
  "sinv lens k offs work \<longleftrightarrow> length offs = MAXBITS \<and>
     (\<forall>l. 1 \<le> l \<and> l \<le> MAXBITS \<longrightarrow> offs ! (l - 1) = base_of lens l + length (of_len_below lens l k) \<and>
        (\<forall>j<length (of_len_below lens l k). work ! (base_of lens l + j) = of_len_below lens l k ! j))"

lemma of_len_below_Suc: "of_len_below lens l (Suc k) = of_len_below lens l k @ (if lens ! k = l then [k] else [])"
  by (simp add: of_len_below_def)

lemma of_len_below_all: "of_len_below lens l (length lens) = of_len lens l"
  by (simp add: of_len_below_def of_len_def)

lemma of_len_below_le: "k \<le> n \<Longrightarrow> length (of_len_below lens l k) \<le> length (of_len_below lens l n)"
  by (induction n) (auto simp: le_Suc_eq of_len_below_Suc)

lemma base_of_mono: "l \<le> m \<Longrightarrow> length (canon_upto lens l) \<le> length (canon_upto lens m)"
  by (induction m) (auto simp: le_Suc_eq)

lemma base_of_next: "1 \<le> l \<Longrightarrow> base_of lens l + length (of_len lens l) = length (canon_upto lens l)"
  using canon_upto_Suc [of lens "l - 1"] by simp

lemma sort_step_disjoint:
  assumes "1 \<le> l" "1 \<le> m" "l \<noteq> m" "i < length (of_len lens l)" "j < length (of_len lens m)"
  shows "base_of lens l + i \<noteq> base_of lens m + j"
proof (cases "l < m")
  case True
  then have "length (canon_upto lens l) \<le> base_of lens m" by (intro base_of_mono) simp
  then show ?thesis using base_of_next [OF assms(1), of lens] assms(4) by simp
next
  case False
  then have "length (canon_upto lens m) \<le> base_of lens l" using assms(3) by (intro base_of_mono) simp
  then show ?thesis using base_of_next [OF assms(2), of lens] assms(5) by simp
qed

lemma sort_syms_ok:
  "sinv lens k offs work \<Longrightarrow> k \<le> length lens \<Longrightarrow> \<forall>l\<in>set lens. l \<le> MAXBITS \<Longrightarrow> length lens \<le> length work \<Longrightarrow>
     \<exists>work' offs'. sort_syms (drop k lens) k offs work = Some work' \<and> length work' = length work \<and>
       sinv lens (length lens) offs' work'"
proof (induction "drop k lens" arbitrary: k offs work)
  case Nil
  then show ?case by auto
next
  case (Cons l ls)
  have k: "k < length lens" using Cons.hyps(2) by (metis drop_all leI list.discI)
  then have l: "l = lens ! k" "ls = drop (Suc k) lens"
    using Cons.hyps(2) by (simp_all add: Cons_nth_drop_Suc [symmetric])
  have l15: "l \<le> MAXBITS" using k l Cons.prems(3) by simp
  show ?case
  proof (cases "l = 0")
    case True
    then have "sinv lens (Suc k) offs work"
      using Cons.prems(1) l by (simp add: sinv_def of_len_below_Suc)
    from Cons.hyps(1) [OF l(2) this] k Cons.prems True l Cons.hyps(2) [symmetric] show ?thesis by simp
  next
    case False
    then have l1: "1 \<le> l" by simp
    let ?p = "base_of lens l + length (of_len_below lens l k)"
    have p: "offs ! (l - 1) = ?p" using Cons.prems(1) l1 l15 by (simp add: sinv_def)
    have cl: "length (of_len_below lens m (Suc k)) \<le> length (of_len lens m)" for m
      using of_len_below_le [of "Suc k" "length lens" lens m] k by (simp add: of_len_below_all)
    have lt: "length (of_len_below lens l k) < length (of_len lens l)"
      using cl [of l] l(1) by (simp add: of_len_below_Suc)
    have pw: "?p < length work"
      using base_of_next [OF l1, of lens] lt length_canon_upto [of lens l] Cons.prems(4) by simp
    let ?w = "work[?p := k]" and ?o = "offs[l - 1 := Suc ?p]"
    have lo: "length offs = MAXBITS" using Cons.prems(1) by (simp add: sinv_def)
    have "sinv lens (Suc k) ?o ?w"
      unfolding sinv_def
    proof (intro conjI allI impI)
      show "length ?o = MAXBITS" using lo by simp
      fix m assume m: "1 \<le> m \<and> m \<le> MAXBITS"
      have old: "offs ! (m - 1) = base_of lens m + length (of_len_below lens m k)"
        "\<And>j. j < length (of_len_below lens m k) \<Longrightarrow> work ! (base_of lens m + j) = of_len_below lens m k ! j"
        using Cons.prems(1) m by (simp_all add: sinv_def)
      show "?o ! (m - 1) = base_of lens m + length (of_len_below lens m (Suc k))"
      proof (cases "m = l")
        case True
        then show ?thesis using l1 l15 lo l(1) by (simp add: of_len_below_Suc)
      next
        case False
        then have "l - 1 \<noteq> m - 1" using l1 m by auto
        then show ?thesis using old(1) False l(1) by (simp add: of_len_below_Suc)
      qed
      fix j assume j: "j < length (of_len_below lens m (Suc k))"
      show "?w ! (base_of lens m + j) = of_len_below lens m (Suc k) ! j"
      proof (cases "m = l")
        case True
        then show ?thesis using j l(1) old(2) [of j] pw
          by (cases "j = length (of_len_below lens l k)") (auto simp: of_len_below_Suc nth_append)
      next
        case False
        have "base_of lens l + length (of_len_below lens l k) \<noteq> base_of lens m + j"
          using sort_step_disjoint [OF l1 _ _ lt, of m j] m False j cl [of m] by simp
        then show ?thesis using False j l(1) old(2) [of j] by (simp add: of_len_below_Suc)
      qed
    qed
    from Cons.hyps(1) [OF l(2) this] k Cons.prems(2-4) obtain w o' where r:
      "sort_syms (drop (Suc k) lens) (Suc k) ?o ?w = Some w" "length w = length work" "sinv lens (length lens) o' w"
      by auto
    have "sort_syms (drop k lens) k offs work = Some w"
      unfolding Cons.hyps(2) [symmetric] using False p pw r(1) l(2) by simp
    with r show ?thesis by blast
  qed
qed

lemma sinv_prefix:
  assumes "sinv lens (length lens) offs work"
  shows "n \<le> MAXBITS \<Longrightarrow> length (canon_upto lens n) \<le> length work \<Longrightarrow>
     take (length (canon_upto lens n)) work = canon_upto lens n"
proof (induction n)
  case (Suc n)
  let ?b = "length (canon_upto lens n)"
  have "take (length (of_len lens (Suc n))) (drop ?b work) = of_len lens (Suc n)"
  proof (rule nth_equalityI)
    show "length (take (length (of_len lens (Suc n))) (drop ?b work)) = length (of_len lens (Suc n))"
      using Suc.prems(2) by simp
    fix i assume "i < length (take (length (of_len lens (Suc n))) (drop ?b work))"
    then have i: "i < length (of_len lens (Suc n))" by simp
    have "\<forall>j<length (of_len lens (Suc n)). work ! (?b + j) = of_len lens (Suc n) ! j"
      using assms Suc.prems(1) unfolding sinv_def of_len_below_all by (auto dest: spec [of _ "Suc n"])
    then show "take (length (of_len lens (Suc n))) (drop ?b work) ! i = of_len lens (Suc n) ! i"
      using i Suc.prems(2) by simp
  qed
  then show ?case using Suc by (simp add: take_add)
qed simp

lemma sort_syms_canon:
  assumes "\<forall>l\<in>set lens. l \<le> MAXBITS" and "length lens \<le> 288" and "length cnt = Suc MAXBITS"
    and "\<And>l. 1 \<le> l \<Longrightarrow> l \<le> MAXBITS \<Longrightarrow> cnt ! l = length (of_len lens l)"
  obtains zs where "sort_syms lens 0 (offsets cnt 1 0) (replicate 288 0) = Some (canon lens @ zs)"
proof -
  have mb: "1 \<le> MAXBITS" by (simp add: MAXBITS_def)
  have "sinv lens 0 (offsets cnt 1 0) (replicate 288 0)"
    using offsets_nth [of 1 cnt lens 0] offsets_length [of 1 cnt 0] assms(4) mb
    by (simp add: sinv_def of_len_below_def)
  from sort_syms_ok [OF this] assms(1,2) obtain work' offs' where r:
    "sort_syms lens 0 (offsets cnt 1 0) (replicate 288 0) = Some work'" "length work' = 288"
    "sinv lens (length lens) offs' work'" by auto
  have "take (length (canon lens)) work' = canon lens"
    by (rule sinv_prefix [OF r(3)]) (use length_canon_upto [of lens MAXBITS] assms(2) r(2) in simp_all)
  then have "work' = canon lens @ drop (length (canon lens)) work'" by (metis append_take_drop_id)
  with r(1) that show thesis by metis
qed


section \<open>The table\<close>

text \<open>What decoding looks up, as \<open>inflate\<close> does: at most two steps, within the table.\<close>

definition tab_lookup :: "code list \<Rightarrow> nat \<Rightarrow> nat \<Rightarrow> code option" where
  "tab_lookup tab root x =
     (if x mod 2 ^ root < length tab then
        (let here = tab ! (x mod 2 ^ root) in
         if c_op here \<noteq> 0 \<and> c_op here AND 0xf0 = 0 then
           (let i = c_val here + x mod 2 ^ (c_bits here + c_op here) div 2 ^ c_bits here in
            if i < length tab
            then Some (Code (c_op (tab ! i)) (c_bits here + c_bits (tab ! i)) (c_val (tab ! i)))
            else None)
         else Some here)
      else None)"

text \<open>What the canonical Huffman code of \<open>lens\<close> says of the same 15 bits.\<close>

definition huff_entry :: "codetype \<Rightarrow> nat list \<Rightarrow> nat \<Rightarrow> code" where
  "huff_entry type lens x =
     (case sym_at lens (canon lens) (rv MAXBITS x) of
        None \<Rightarrow> Code 64 1 0
      | Some s \<Rightarrow> (case code_entry type s (lens ! s) of None \<Rightarrow> Code 64 1 0 | Some e \<Rightarrow> e))"

definition usable_lens :: "codetype \<Rightarrow> nat list \<Rightarrow> bool" where
  "usable_lens type lens \<longleftrightarrow> kraft lens = 2 ^ MAXBITS \<or> (\<forall>l\<in>set lens. l = 0) \<or>
     type \<noteq> CODES \<and> kraft lens < 2 ^ MAXBITS \<and> (\<forall>l\<in>set lens. l \<le> 1)"

fun max_syms :: "codetype \<Rightarrow> nat" where
  "max_syms CODES = 19" | "max_syms LENS = 288" | "max_syms DISTS = 32"

definition table_space :: "codetype \<Rightarrow> nat list \<Rightarrow> code list \<Rightarrow> nat \<Rightarrow> bool" where
  "table_space type lens tab bits \<longleftrightarrow>
     (case type of LENS \<Rightarrow> ENOUGH_LENS \<le> length tab | DISTS \<Rightarrow> ENOUGH_DISTS \<le> length tab
      | CODES \<Rightarrow> 1 \<le> bits \<and> (\<forall>l\<in>set lens. l \<le> bits) \<and> 2 ^ bits \<le> length tab)"

lemma base_lengths: "length lbase = 31" "length lext = 31" "length dbase = 32" "length dext = 32"
  by (simp_all add: lbase_def lext_def dbase_def dext_def)

lemma code_entry_total: "s < max_syms type \<Longrightarrow> code_entry type s b \<noteq> None"
  by (cases type) (auto simp: code_entry_def base_lengths Let_def)

lemma code_entry_bits: "code_entry type s b = Some e \<Longrightarrow> code_entry type s (k + b) = Some (Code (c_op e) (k + c_bits e) (c_val e))"
  by (auto simp: code_entry_def Let_def split: if_splits codetype.splits prod.splits)

lemma ext_ops: "i < 31 \<Longrightarrow> lext ! i AND 0xf0 \<noteq> 0" "i < 32 \<Longrightarrow> dext ! i AND 0xf0 \<noteq> 0"
proof -
  have "list_all (\<lambda>e. e AND 0xf0 \<noteq> 0) lext" "list_all (\<lambda>e. e AND 0xf0 \<noteq> 0) dext"
    by (simp_all add: lext_def dext_def list_all_iff)
  then show "i < 31 \<Longrightarrow> lext ! i AND 0xf0 \<noteq> 0" "i < 32 \<Longrightarrow> dext ! i AND 0xf0 \<noteq> 0"
    by (simp_all add: list_all_length base_lengths)
qed

lemma code_entry_op: "code_entry type s b = Some e \<Longrightarrow> c_op e = 0 \<or> c_op e AND 0xf0 \<noteq> 0"
  using ext_ops(1) [of "s - 257"] ext_ops(2) [of s]
  by (auto simp: code_entry_def base_lengths Let_def split: if_splits codetype.splits)

lemma small_op: "c \<le> MAXBITS \<Longrightarrow> c AND 0xf0 = (0 :: nat)"
proof -
  assume "c \<le> MAXBITS"
  then have c: "c < 16" by (simp add: MAXBITS_def)
  have "list_all (\<lambda>c. c AND 0xf0 = (0 :: nat)) [0..<16]" by code_simp
  then have "\<forall>i<16. [0..<16] ! i AND 0xf0 = (0 :: nat)" by (simp only: list_all_length) simp
  with c show ?thesis by force
qed

lemma ok_at_lookup:
  assumes "ok_at type lens tab root used x s" and "2 ^ root \<le> used" and "used \<le> length tab"
  shows "tab_lookup (take used tab) root x = code_entry type s (lens ! s)"
proof -
  have r: "x mod 2 ^ root < used" using assms(2) by (rule less_le_trans [rotated]) simp
  show ?thesis
  proof (cases "lens ! s \<le> root")
    case True
    then have "code_entry type s (lens ! s) = Some (tab ! (x mod 2 ^ root))" using assms(1) by (simp add: ok_at_def)
    then show ?thesis using r assms(3) code_entry_op [of type s "lens ! s"] by (auto simp: tab_lookup_def Let_def)
  next
    case False
    then obtain c v where e: "tab ! (x mod 2 ^ root) = Code c root v" "0 < c" "root + c \<le> MAXBITS" "v + 2 ^ c \<le> used"
      "code_entry type s (lens ! s - root) = Some (tab ! (v + x div 2 ^ root mod 2 ^ c))"
      using assms(1) by (auto simp: ok_at_def)
    have p: "x mod 2 ^ (root + c) div 2 ^ root = x div 2 ^ root mod 2 ^ c"
      by (simp add: power_add mod_mult2_eq)
    have "x div 2 ^ root mod 2 ^ c < 2 ^ c" by simp
    then have i: "v + x div 2 ^ root mod 2 ^ c < used" using e(4) by linarith
    have "code_entry type s (root + (lens ! s - root)) =
        Some (Code (c_op (tab ! (v + x div 2 ^ root mod 2 ^ c))) (root + c_bits (tab ! (v + x div 2 ^ root mod 2 ^ c)))
          (c_val (tab ! (v + x div 2 ^ root mod 2 ^ c))))"
      by (rule code_entry_bits [OF e(5)])
    then show ?thesis using False r i assms(3) e(1,2) small_op [OF le_trans [OF le_add2 e(3)]] p by (simp add: tab_lookup_def Let_def)
  qed
qed

lemma sym_at_none: "code_span lens ss \<le> y \<Longrightarrow> sym_at lens ss y = None"
  by (induction ss arbitrary: y) auto
text \<open>
  What \<open>inflate\<close> relies on: every index of the root table holds an entry that ends a code, or, except
  in the table of the code lengths, one that leads to a sub-table of such entries inside the table.
\<close>

fun end_entry :: "codetype \<Rightarrow> nat \<Rightarrow> code \<Rightarrow> bool" where
  "end_entry CODES n (Code op b v) = (1 \<le> b \<and> b \<le> n \<and> v \<le> 18 \<and> (op = 0 \<or> op = 64))"
| "end_entry LENS n (Code op b v) = (1 \<le> b \<and> b \<le> n \<and>
     (op = 0 \<or> op = 96 \<or> 16 \<le> op \<and> op \<le> 21 \<and> 3 \<le> v \<and> v + 2 ^ (op - 16) \<le> 259 \<or> op = 64 \<or> op = 77 \<or> op = 202))"
| "end_entry DISTS n (Code op b v) = (1 \<le> b \<and> b \<le> n \<and> (16 \<le> op \<and> op \<le> 29 \<and> 1 \<le> v \<and> v + 2 ^ (op - 16) \<le> 32769 \<or> op = 64))"

definition sub_entry :: "codetype \<Rightarrow> nat \<Rightarrow> code list \<Rightarrow> code \<Rightarrow> bool" where
  "sub_entry type root tab e \<longleftrightarrow> type \<noteq> CODES \<and> c_bits e = root \<and> 1 \<le> c_op e \<and> root + c_op e \<le> MAXBITS \<and>
     c_val e + 2 ^ c_op e \<le> length tab \<and> (\<forall>j<2 ^ c_op e. end_entry type (MAXBITS - root) (tab ! (c_val e + j)))"

text \<open>A code is decided by its own bits: other inputs that agree on them find the same entry.\<close>

definition prefix_ok :: "code list \<Rightarrow> nat \<Rightarrow> bool" where
  "prefix_ok tab root \<longleftrightarrow> (\<forall>x y n e. tab_lookup tab root x = Some e \<longrightarrow> c_bits e \<le> n \<longrightarrow>
     x mod 2 ^ n = y mod 2 ^ n \<longrightarrow> tab_lookup tab root y = Some e)"

definition table_wf :: "codetype \<Rightarrow> code list \<Rightarrow> nat \<Rightarrow> bool" where
  "table_wf type tab root \<longleftrightarrow> 1 \<le> root \<and> root \<le> MAXBITS \<and> 2 ^ root \<le> length tab \<and>
     (\<forall>i<2 ^ root. end_entry type root (tab ! i) \<or> sub_entry type root tab (tab ! i))"

lemma len_entry: "i < 31 \<Longrightarrow> end_entry LENS n (Code (lext ! i) b (lbase ! i)) \<longleftrightarrow> 1 \<le> b \<and> b \<le> n"
proof -
  have "list_all (\<lambda>(e, v). e = 77 \<or> e = 202 \<or> 16 \<le> e \<and> e \<le> 21 \<and> 3 \<le> v \<and> v + 2 ^ (e - 16) \<le> 259) (zip lext lbase)"
    by code_simp
  then have "\<forall>i<31. lext ! i = 77 \<or> lext ! i = 202 \<or> 16 \<le> lext ! i \<and> lext ! i \<le> 21 \<and> 3 \<le> lbase ! i \<and> lbase ! i + 2 ^ (lext ! i - 16) \<le> 259"
    unfolding list_all_length by (simp add: base_lengths)
  then show "i < 31 \<Longrightarrow> end_entry LENS n (Code (lext ! i) b (lbase ! i)) \<longleftrightarrow> 1 \<le> b \<and> b \<le> n" by auto
qed

lemma dist_entry: "i < 32 \<Longrightarrow> end_entry DISTS n (Code (dext ! i) b (dbase ! i)) \<longleftrightarrow> 1 \<le> b \<and> b \<le> n"
proof -
  have "list_all (\<lambda>(e, v). e = 64 \<or> 16 \<le> e \<and> e \<le> 29 \<and> 1 \<le> v \<and> v + 2 ^ (e - 16) \<le> 32769) (zip dext dbase)"
    by (simp add: dext_def dbase_def)
  then have "\<forall>i<32. dext ! i = 64 \<or> 16 \<le> dext ! i \<and> dext ! i \<le> 29 \<and> 1 \<le> dbase ! i \<and> dbase ! i + 2 ^ (dext ! i - 16) \<le> 32769"
    unfolding list_all_length by (simp add: base_lengths)
  then show "i < 32 \<Longrightarrow> end_entry DISTS n (Code (dext ! i) b (dbase ! i)) \<longleftrightarrow> 1 \<le> b \<and> b \<le> n" by auto
qed

lemma code_entry_end:
  assumes "code_entry type s b = Some e" and "s < max_syms type" and "1 \<le> b" and "b \<le> n"
  shows "end_entry type n e"
proof (cases type)
  case CODES
  then show ?thesis using assms by (auto simp: code_entry_def Let_def split: if_splits)
next
  case LENS
  then show ?thesis using assms len_entry [of "s - 257" n b]
    by (auto simp: code_entry_def Let_def base_lengths split: if_splits)
next
  case DISTS
  then show ?thesis using assms dist_entry [of s n b]
    by (auto simp: code_entry_def Let_def base_lengths split: if_splits)
qed

text \<open>A complete lookup makes a well-formed table.\<close>

lemma lookups_wf:
  assumes ok: "\<And>x. x < 2 ^ MAXBITS \<Longrightarrow> \<exists>s<max_syms type. 1 \<le> lens ! s \<and> lens ! s \<le> MAXBITS \<and>
       (type = CODES \<longrightarrow> lens ! s \<le> root) \<and> ok_at type lens tab root used x s"
    and r: "1 \<le> root" "root \<le> MAXBITS" "2 ^ root \<le> used" "used \<le> length tab"
  shows "table_wf type (take used tab) root"
proof -
  have "end_entry type root (tab ! i) \<or> sub_entry type root (take used tab) (tab ! i)" if i: "i < 2 ^ root" for i
  proof -
    have i15: "i < 2 ^ MAXBITS" using i r(2) by (rule less_le_trans [OF _ power_increasing]) simp_all
    obtain s where s: "s < max_syms type" "1 \<le> lens ! s" "lens ! s \<le> MAXBITS" "ok_at type lens tab root used i s"
      and codes: "type = CODES \<longrightarrow> lens ! s \<le> root"
      using ok [OF i15] by blast
    show ?thesis
    proof (cases "lens ! s \<le> root")
      case True
      then show ?thesis using s i code_entry_end [of type s "lens ! s" _ root] by (simp add: ok_at_def)
    next
      case False
      then obtain c v where e: "tab ! i = Code c root v" "0 < c" "root + c \<le> MAXBITS" "v + 2 ^ c \<le> used"
        using s(4) i by (auto simp: ok_at_def)
      have "end_entry type (MAXBITS - root) (tab ! (v + j))" if j: "j < 2 ^ c" for j
      proof -
        define x where "x = j * 2 ^ root + i"
        have parts: "x mod 2 ^ root = i" "x div 2 ^ root = j" using i by (simp_all add: x_def)
        have "x < 2 ^ c * 2 ^ root"
          using j i parts by (metis div_less_iff_less_mult zero_less_power zero_less_numeral)
        also have "2 ^ c * 2 ^ root \<le> (2 :: nat) ^ MAXBITS"
          using e(3) by (simp add: add.commute flip: power_add)
        finally obtain s' where s': "s' < max_syms type" "1 \<le> lens ! s'" "lens ! s' \<le> MAXBITS"
          "ok_at type lens tab root used x s'"
          using ok by blast
        have long: "\<not> lens ! s' \<le> root"
        proof
          assume "lens ! s' \<le> root"
          then have "code_entry type s' (lens ! s') = Some (Code c root v)"
            using s'(4) parts(1) e(1) by (simp add: ok_at_def)
          from code_entry_op [OF this] small_op [of c] e(2,3) show False by simp
        qed
        then have "code_entry type s' (lens ! s' - root) = Some (tab ! (v + j mod 2 ^ c))"
          using s'(4) parts e(1) by (auto simp: ok_at_def)
        then show ?thesis using code_entry_end [of type s' "lens ! s' - root"] s' long j by simp
      qed
      moreover have "type \<noteq> CODES" using codes False by blast
      moreover have "v + j < used" if "j < 2 ^ c" for j using that e(4) by linarith
      ultimately show ?thesis using e r(4) by (simp add: sub_entry_def)
    qed
  qed
  moreover have "i < used" if "i < 2 ^ root" for i using that r(3) by linarith
  ultimately show ?thesis using r by (simp add: table_wf_def)
qed

lemma sym_at_split:
  "sym_at lens ss u = Some s \<Longrightarrow> \<exists>ds rs. ss = ds @ s # rs \<and> code_span lens ds \<le> u \<and> u < code_span lens ds + code_wt lens s"
proof (induction ss arbitrary: u)
  case (Cons a ss)
  show ?case
  proof (cases "u < code_wt lens a")
    case True
    then have "a = s" using Cons.prems by simp
    then show ?thesis using True by (intro exI [of _ "[]"] exI [of _ ss]) simp
  next
    case False
    then obtain ds rs where "ss = ds @ s # rs" "code_span lens ds \<le> u - code_wt lens a"
      "u - code_wt lens a < code_span lens ds + code_wt lens s" using Cons by fastforce
    then show ?thesis using False by (intro exI [of _ "a # ds"] exI [of _ rs]) auto
  qed
qed simp

lemma sym_at_block:
  assumes srt: "dec_sorted lens ss" and u: "sym_at lens ss u = Some s"
    and eq: "u div code_wt lens s = v div code_wt lens s"
  shows "sym_at lens ss v = Some s"
proof -
  obtain ds rs where d: "ss = ds @ s # rs" "code_span lens ds \<le> u" "u < code_span lens ds + code_wt lens s"
    using sym_at_split [OF u] by blast
  let ?w = "code_wt lens s"
  have "lens ! s \<le> MAXBITS" "\<forall>x\<in>set ds. lens ! x \<le> lens ! s"
    using srt d(1) by (auto simp: dec_sorted_def sorted_append)
  then have "?w dvd code_span lens ds" unfolding code_wt_def by (intro span_dvd) auto
  then obtain k where k: "code_span lens ds = ?w * k" ..
  have "u div ?w = k" using d(2,3) k by (intro div_nat_eqI) (simp_all add: mult.commute)
  then have "v div ?w = k" using eq by simp
  then have "?w * k \<le> v" "v < ?w * k + ?w"
    using div_times_less_eq_dividend [of v ?w] dividend_less_div_times [of ?w v] by (simp_all add: mult.commute)
  then show ?thesis unfolding d(1) using k by (intro sym_at_next) simp_all
qed

lemma rv_mod_eq: "x mod 2 ^ b = y mod 2 ^ b \<Longrightarrow> rv b x = rv b y"
  using rv_mod [of b b x] rv_mod [of b b y] by simp

lemma end_entry_op: "end_entry type n e \<Longrightarrow> c_op e = 0 \<or> c_op e AND 0xf0 \<noteq> 0"
proof -
  have "list_all (\<lambda>k. k AND 0xf0 \<noteq> (0 :: nat)) [16..<30]" "list_all (\<lambda>k. k AND 0xf0 \<noteq> (0 :: nat)) [64, 77, 96, 202]"
    by code_simp+
  then have l: "\<forall>k\<in>{16..<30}. k AND 0xf0 \<noteq> (0 :: nat)" "\<forall>k\<in>{64, 77, 96, 202}. k AND 0xf0 \<noteq> (0 :: nat)"
    unfolding list_all_iff set_upt by simp_all
  have k: "16 \<le> k \<Longrightarrow> k \<le> 29 \<Longrightarrow> k AND 0xf0 \<noteq> (0 :: nat)" for k
    by (rule bspec [OF l(1)]) simp
  show "end_entry type n e \<Longrightarrow> c_op e = 0 \<or> c_op e AND 0xf0 \<noteq> 0"
    using k [of "c_op e"] l(2) by (cases type; cases e) auto
qed

lemma lookup_mod:
  assumes "table_wf type tab root" and "MAXBITS \<le> n"
  shows "tab_lookup tab root (x mod 2 ^ n) = tab_lookup tab root x"
proof -
  have r: "root \<le> MAXBITS" "x mod 2 ^ n mod 2 ^ root = x mod 2 ^ root"
    using assms by (simp_all add: table_wf_def mod_mod_cancel le_imp_power_dvd)
  let ?e = "tab ! (x mod 2 ^ root)"
  have "end_entry type root ?e \<or> sub_entry type root tab ?e" using assms(1) by (simp add: table_wf_def)
  then show ?thesis
  proof
    assume "sub_entry type root tab ?e"
    then have "c_bits ?e + c_op ?e \<le> n" using assms(2) by (simp add: sub_entry_def)
    then have "x mod 2 ^ n mod 2 ^ (c_bits ?e + c_op ?e) = x mod 2 ^ (c_bits ?e + c_op ?e)"
      by (simp add: mod_mod_cancel le_imp_power_dvd)
    then show ?thesis using r(2) by (simp add: tab_lookup_def Let_def)
  next
    assume "end_entry type root ?e"
    then show ?thesis using end_entry_op [of type root ?e] r(2) by (auto simp: tab_lookup_def Let_def)
  qed
qed

text \<open>The lookup finds what a function of the symbol gives, with the symbol's length.\<close>

lemma prefix_okI:
  assumes wf: "table_wf type tab root"
    and look: "\<And>x. x < 2 ^ MAXBITS \<Longrightarrow> \<exists>s. sym_at lens ss (rv MAXBITS x) = Some s \<and>
       tab_lookup tab root x = Some (g s) \<and> c_bits (g s) = lens ! s"
    and srt: "dec_sorted lens ss"
  shows "prefix_ok tab root"
  unfolding prefix_ok_def
proof (intro allI impI)
  fix x y n e
  assume x: "tab_lookup tab root x = Some e" and n: "c_bits e \<le> n" and eq: "x mod 2 ^ n = y mod 2 ^ n"
  let ?x = "x mod 2 ^ MAXBITS" and ?y = "y mod 2 ^ MAXBITS"
  have xy: "?x < 2 ^ MAXBITS" "?y < 2 ^ MAXBITS" by simp_all
  obtain s where s: "sym_at lens ss (rv MAXBITS ?x) = Some s" "tab_lookup tab root ?x = Some (g s)" "c_bits (g s) = lens ! s"
    using look [OF xy(1)] by blast
  have e: "e = g s" using s(2) x lookup_mod [OF wf order_refl, of x] by simp
  obtain ds rs where "ss = ds @ s # rs" using sym_at_split [OF s(1)] by blast
  then have l: "lens ! s \<le> MAXBITS" using srt by (auto simp: dec_sorted_def)
  have "x mod 2 ^ (lens ! s) = y mod 2 ^ (lens ! s)"
  proof -
    have "lens ! s \<le> n" using n e s(3) by simp
    then have "z mod 2 ^ (lens ! s) = z mod 2 ^ n mod 2 ^ (lens ! s)" for z :: nat
      by (simp add: mod_mod_cancel le_imp_power_dvd)
    then show ?thesis using eq by metis
  qed
  then have "?x mod 2 ^ (lens ! s) = ?y mod 2 ^ (lens ! s)"
    using l by (simp add: mod_mod_cancel le_imp_power_dvd)
  then have "rv (lens ! s) ?x = rv (lens ! s) ?y" by (rule rv_mod_eq)
  then have "rv MAXBITS ?x div code_wt lens s = rv MAXBITS ?y div code_wt lens s"
    using rv_prefix [OF l] unfolding code_wt_def by simp
  then have "sym_at lens ss (rv MAXBITS ?y) = Some s" by (rule sym_at_block [OF srt s(1)])
  then have "tab_lookup tab root ?y = Some (g s)" using look [OF xy(2)] by auto
  then show "tab_lookup tab root y = Some e" using lookup_mod [OF wf order_refl, of y] e by simp
qed

lemma flat_lookup:
  assumes "\<And>i. i < 2 ^ root \<Longrightarrow> end_entry type root (tab ! i)" and "2 ^ root \<le> length tab"
  shows "tab_lookup tab root z = Some (tab ! (z mod 2 ^ root))"
proof -
  have z: "z mod 2 ^ root < 2 ^ root" by simp
  then have "z mod 2 ^ root < length tab" using assms(2) by linarith
  then show ?thesis using end_entry_op [of type root "tab ! (z mod 2 ^ root)"] assms(1) [OF z]
    by (auto simp: tab_lookup_def Let_def)
qed

lemma prefix_ok_flat:
  assumes "\<And>i. i < 2 ^ root \<Longrightarrow> end_entry type root (tab ! i) \<and> c_bits (tab ! i) = root" and "2 ^ root \<le> length tab"
  shows "prefix_ok tab root"
  unfolding prefix_ok_def
proof (intro allI impI)
  fix x y n e
  assume x: "tab_lookup tab root x = Some e" and n: "c_bits e \<le> n" and eq: "x mod 2 ^ n = y mod 2 ^ n"
  note l = flat_lookup [of root type tab, OF conjunct1 [OF assms(1)] assms(2)]
  have "root \<le> n" using x l [of x] n assms(1) [of "x mod 2 ^ root"] by simp
  then have "z mod 2 ^ root = z mod 2 ^ n mod 2 ^ root" for z :: nat
    by (simp add: mod_mod_cancel le_imp_power_dvd)
  then have "x mod 2 ^ root = y mod 2 ^ root" using eq by metis
  then show "tab_lookup tab root y = Some e" using x l by simp
qed

lemma code_entry_length: "code_entry type s b = Some e \<Longrightarrow> c_bits e = b"
  by (auto simp: code_entry_def Let_def split: if_splits codetype.splits)

lemma kraft_zero: "kraft lens = 0 \<longleftrightarrow> (\<forall>l\<in>set lens. l = 0)"
  unfolding kraft_def by (induction lens) auto

lemma canon_nil: "(\<forall>l\<in>set lens. l = 0) \<Longrightarrow> canon lens = []"
proof -
  assume z: "\<forall>l\<in>set lens. l = 0"
  have "set (canon lens) = {}" unfolding set_canon_upto using z by (force dest: nth_mem)
  then show ?thesis by simp
qed

lemma kraft_ones:
  assumes "\<forall>l\<in>set lens. l \<le> 1" and "kraft lens < 2 ^ MAXBITS" and "kraft lens \<noteq> 0"
  shows "kraft lens = 2 ^ 14"
proof -
  have "\<forall>l\<in>set lens. l \<le> 1 \<Longrightarrow> kraft lens = length (filter (\<lambda>l. l = 1) lens) * 2 ^ 14"
    by (unfold kraft_def) (induction lens, auto simp: MAXBITS_def le_Suc_eq)
  then show ?thesis using assms by (cases "length (filter (\<lambda>l. l = 1) lens)") (auto simp: MAXBITS_def)
qed

lemma huff_entry_nil: "canon lens = [] \<Longrightarrow> huff_entry type lens x = Code 64 1 0"
  by (simp add: huff_entry_def)

text \<open>The counts hold how many symbols have each length.\<close>

definition counted :: "nat list \<Rightarrow> nat list \<Rightarrow> bool" where
  "counted lens cnt \<longleftrightarrow> (\<forall>l\<in>set lens. l \<le> MAXBITS) \<and> length cnt = Suc MAXBITS \<and>
     (\<forall>l. 1 \<le> l \<and> l \<le> MAXBITS \<longrightarrow> cnt ! l = length (of_len lens l))"

lemma counted_short: "counted lens cnt \<Longrightarrow> \<forall>l\<in>set lens. l \<le> MAXBITS"
  by (simp add: counted_def)

lemma cnt_zero: "counted lens cnt \<Longrightarrow> 1 \<le> l \<Longrightarrow> l \<le> MAXBITS \<Longrightarrow> cnt ! l = 0 \<longleftrightarrow> (\<forall>s<length lens. lens ! s \<noteq> l)"
  by (auto simp: counted_def of_len_def filter_empty_conv)

lemma mx_zero:
  assumes c: "counted lens cnt"
  shows "max_len cnt MAXBITS = 0 \<longleftrightarrow> (\<forall>l\<in>set lens. l = 0)"
proof
  assume m: "max_len cnt MAXBITS = 0"
  show "\<forall>l\<in>set lens. l = 0"
  proof
    fix l assume l: "l \<in> set lens"
    then obtain s where s: "s < length lens" "lens ! s = l" by (auto simp: in_set_conv_nth)
    show "l = 0"
    proof (rule ccontr)
      assume "l \<noteq> 0"
      moreover have "cnt ! l = 0"
        by (rule max_len_above [of l MAXBITS]) (use l counted_short [OF c] m \<open>l \<noteq> 0\<close> in auto)
      ultimately show False using cnt_zero [OF c, of l] s counted_short [OF c] l by auto
    qed
  qed
next
  assume z: "\<forall>l\<in>set lens. l = 0"
  show "max_len cnt MAXBITS = 0"
  proof (rule ccontr)
    assume "max_len cnt MAXBITS \<noteq> 0"
    then have p: "1 \<le> max_len cnt MAXBITS" "cnt ! max_len cnt MAXBITS \<noteq> 0" using max_len_pos [of cnt MAXBITS] by auto
    have "\<not> (\<forall>s<length lens. lens ! s \<noteq> max_len cnt MAXBITS)"
      using p(2) unfolding cnt_zero [OF c p(1) max_len_le] .
    then obtain s where "s < length lens" "lens ! s = max_len cnt MAXBITS" by blast
    then have "max_len cnt MAXBITS \<in> set lens" by (metis nth_mem)
    with z have "max_len cnt MAXBITS = 0" by blast
    with p(1) show False by simp
  qed
qed

lemma mx_max: "counted lens cnt \<Longrightarrow> s < length lens \<Longrightarrow> lens ! s \<le> max_len cnt MAXBITS"
proof (rule ccontr)
  assume c: "counted lens cnt" and s: "s < length lens" and "\<not> lens ! s \<le> max_len cnt MAXBITS"
  then have "cnt ! (lens ! s) = 0" "1 \<le> lens ! s" using max_len_above [of "lens ! s" MAXBITS cnt] counted_short [OF c] by auto
  then show False using cnt_zero [OF c, of "lens ! s"] s counted_short [OF c] by auto
qed

lemma mx_in: "counted lens cnt \<Longrightarrow> max_len cnt MAXBITS \<noteq> 0 \<Longrightarrow> \<exists>s<length lens. lens ! s = max_len cnt MAXBITS"
  using max_len_pos [of cnt MAXBITS] cnt_zero [of lens cnt "max_len cnt MAXBITS"] max_len_le [of cnt MAXBITS] by auto

lemma mn_facts:
  assumes c: "counted lens cnt" and m0: "max_len cnt MAXBITS \<noteq> 0"
  shows "1 \<le> min_len cnt (max_len cnt MAXBITS) 1" "min_len cnt (max_len cnt MAXBITS) 1 \<le> max_len cnt MAXBITS"
    "\<exists>s<length lens. lens ! s = min_len cnt (max_len cnt MAXBITS) 1"
    "s < length lens \<Longrightarrow> 1 \<le> lens ! s \<Longrightarrow> min_len cnt (max_len cnt MAXBITS) 1 \<le> lens ! s"
proof -
  let ?m = "min_len cnt (max_len cnt MAXBITS) 1"
  have m: "1 \<le> ?m \<and> ?m \<le> max_len cnt MAXBITS \<and> cnt ! ?m \<noteq> 0 \<and> (\<forall>l. 1 \<le> l \<and> l < ?m \<longrightarrow> cnt ! l = 0)"
    by (rule min_len_ok) (use m0 max_len_pos [of cnt MAXBITS] in auto)
  show "1 \<le> ?m" "?m \<le> max_len cnt MAXBITS" using m by auto
  show "\<exists>s<length lens. lens ! s = ?m" using m cnt_zero [OF c, of ?m] max_len_le [of cnt MAXBITS] by auto
  show "?m \<le> lens ! s" if s: "s < length lens" "1 \<le> lens ! s"
  proof (rule ccontr)
    assume "\<not> ?m \<le> lens ! s"
    then have "cnt ! (lens ! s) = 0" using m s(2) by auto
    then show False using cnt_zero [OF c, of "lens ! s"] s counted_short [OF c] by auto
  qed
qed

lemma canon_ends:
  assumes c: "counted lens cnt" and m0: "max_len cnt MAXBITS \<noteq> 0"
  shows "canon lens \<noteq> []" "lens ! hd (canon lens) = min_len cnt (max_len cnt MAXBITS) 1"
    "lens ! last (canon lens) = max_len cnt MAXBITS"
proof -
  note S = set_canon_upto [of lens MAXBITS]
  obtain s where s: "s < length lens" "lens ! s = max_len cnt MAXBITS" using mx_in [OF c m0] by blast
  then have sm: "s \<in> set (canon lens)" unfolding S using m0 max_len_le [of cnt MAXBITS] by simp
  then show ne: "canon lens \<noteq> []" by auto
  obtain u where u: "u < length lens" "lens ! u = min_len cnt (max_len cnt MAXBITS) 1" using mn_facts(3) [OF c m0] by blast
  then have um: "u \<in> set (canon lens)"
    unfolding S using mn_facts(1,2) [OF c m0] max_len_le [of cnt MAXBITS] by simp
  have srt: "sorted (map ((!) lens) (canon lens))" by (rule sorted_canon_upto)
  have "hd (canon lens) \<in> set (canon lens)" "last (canon lens) \<in> set (canon lens)" using ne by simp_all
  then have h: "hd (canon lens) < length lens" "1 \<le> lens ! hd (canon lens)" "last (canon lens) < length lens"
    unfolding S by auto
  have "\<forall>x\<in>set (canon lens). lens ! hd (canon lens) \<le> lens ! x"
    using srt ne by (cases "canon lens") auto
  with um u mn_facts(4) [OF c m0 h(1,2)] show "lens ! hd (canon lens) = min_len cnt (max_len cnt MAXBITS) 1" by fastforce
  have "\<forall>x\<in>set (canon lens). lens ! x \<le> lens ! last (canon lens)"
    using srt ne by (cases "canon lens" rule: rev_cases) (auto simp: sorted_append)
  with sm s mx_max [OF c h(3)] show "lens ! last (canon lens) = max_len cnt MAXBITS" by fastforce
qed


section \<open>The whole routine\<close>

lemma usable_iff:
  assumes c: "counted lens cnt" and m: "max_len cnt MAXBITS \<noteq> 0" and k: "kraft lens \<le> 2 ^ MAXBITS"
  shows "usable_lens type lens \<longleftrightarrow> \<not> (kraft lens < 2 ^ MAXBITS \<and> (type = CODES \<or> max_len cnt MAXBITS \<noteq> 1))"
proof -
  have "(\<forall>l\<in>set lens. l \<le> 1) \<longleftrightarrow> max_len cnt MAXBITS = 1"
  proof
    assume "\<forall>l\<in>set lens. l \<le> 1"
    then show "max_len cnt MAXBITS = 1" using mx_in [OF c m] m
      by (metis One_nat_def le_SucE le_zero_eq nth_mem)
  next
    assume "max_len cnt MAXBITS = 1"
    then show "\<forall>l\<in>set lens. l \<le> 1" using mx_max [OF c] by (auto simp: in_set_conv_nth)
  qed
  moreover have "\<not> (\<forall>l\<in>set lens. l = 0)" using mx_zero [OF c] m by simp
  ultimately show ?thesis using k by (auto simp: usable_lens_def)
qed

lemma done_symbol:
  assumes d: "tab_done type lens root mx (canon lens) t" and x: "x < 2 ^ MAXBITS"
    and lt: "rv MAXBITS x < code_span lens (canon lens)"
  obtains s where "sym_at lens (canon lens) (rv MAXBITS x) = Some s" "s \<in> set (canon lens)"
    "1 \<le> lens ! s" "lens ! s \<le> MAXBITS" "ok_at type lens (t_tab t) root (t_used t) x s"
proof -
  have g: "tab_good type lens (canon lens) root (code_span lens (canon lens)) (t_tab t) (t_used t) (t_used t) None"
    using d by (simp add: tab_done_def)
  obtain s where s': "sym_at lens (canon lens) (rv MAXBITS x) = Some s" "ok_at type lens (t_tab t) root (t_used t) x s"
    using goodE [OF g x lt] by auto
  have "sym_at lens ss y = Some s \<Longrightarrow> s \<in> set ss" for ss y
    by (induction ss arbitrary: y) (auto split: if_splits)
  with s'(1) have sc: "s \<in> set (canon lens)" by blast
  then have "1 \<le> lens ! s" "lens ! s \<le> MAXBITS" unfolding set_canon_upto by blast+
  with that s' sc show thesis by blast
qed

lemma done_lookup:
  assumes d: "tab_done type lens root mx (canon lens) t" and x: "x < 2 ^ MAXBITS"
    and s: "\<forall>s\<in>set (canon lens). s < max_syms type" and lt: "rv MAXBITS x < code_span lens (canon lens)"
  shows "tab_lookup (take (t_used t) (t_tab t)) root x = Some (huff_entry type lens x)"
proof -
  have g: "2 ^ root \<le> t_used t" "t_used t \<le> length (t_tab t)" using d by (simp_all add: tab_done_def)
  obtain s where s': "sym_at lens (canon lens) (rv MAXBITS x) = Some s" "s \<in> set (canon lens)"
    "ok_at type lens (t_tab t) root (t_used t) x s"
    by (rule done_symbol [OF d x lt])
  then have "code_entry type s (lens ! s) \<noteq> None" using assms(3) code_entry_total by blast
  with ok_at_lookup [OF s'(3) g] s'(1) show ?thesis by (auto simp: huff_entry_def)
qed

lemma done_wf:
  assumes d: "tab_done type lens root mx (canon lens) t" and s: "\<forall>s\<in>set (canon lens). s < max_syms type"
    and full: "code_span lens (canon lens) = 2 ^ MAXBITS" and r: "1 \<le> root" "root \<le> MAXBITS"
    and codes: "type = CODES \<longrightarrow> (\<forall>s\<in>set (canon lens). lens ! s \<le> root)"
  shows "table_wf type (take (t_used t) (t_tab t)) root"
proof (rule lookups_wf)
  fix x :: nat assume x: "x < 2 ^ MAXBITS"
  have "rv MAXBITS x < code_span lens (canon lens)" using full rv_lt by simp
  from done_symbol [OF d x this] show "\<exists>s<max_syms type. 1 \<le> lens ! s \<and> lens ! s \<le> MAXBITS \<and>
      (type = CODES \<longrightarrow> lens ! s \<le> root) \<and> ok_at type lens (t_tab t) root (t_used t) x s"
    using s codes by metis
qed (use d r in \<open>simp_all add: tab_done_def\<close>)

lemma done_prefix:
  assumes d: "tab_done type lens root mx (canon lens) t" and s: "\<forall>s\<in>set (canon lens). s < max_syms type"
    and full: "code_span lens (canon lens) = 2 ^ MAXBITS" and r: "1 \<le> root" "root \<le> MAXBITS"
    and codes: "type = CODES \<longrightarrow> (\<forall>s\<in>set (canon lens). lens ! s \<le> root)"
  shows "prefix_ok (take (t_used t) (t_tab t)) root"
proof (rule prefix_okI [OF done_wf [OF d s full r codes]])
  show "dec_sorted lens (canon lens)" by (rule dec_sorted_canon)
  fix x :: nat assume x: "x < 2 ^ MAXBITS"
  have lt: "rv MAXBITS x < code_span lens (canon lens)" using full rv_lt by simp
  have g: "2 ^ root \<le> t_used t" "t_used t \<le> length (t_tab t)" using d by (simp_all add: tab_done_def)
  obtain s' where s': "sym_at lens (canon lens) (rv MAXBITS x) = Some s'" "s' \<in> set (canon lens)"
    "ok_at type lens (t_tab t) root (t_used t) x s'"
    by (rule done_symbol [OF d x lt])
  then obtain e where e: "code_entry type s' (lens ! s') = Some e" using s code_entry_total by fastforce
  show "\<exists>s. sym_at lens (canon lens) (rv MAXBITS x) = Some s \<and>
      tab_lookup (take (t_used t) (t_tab t)) root x = Some (the (code_entry type s (lens ! s))) \<and>
      c_bits (the (code_entry type s (lens ! s))) = lens ! s"
    using ok_at_lookup [OF s'(3) g] s'(1) e code_entry_length [OF e] by auto
qed

lemma pair_prefix: "2 \<le> length tab \<Longrightarrow> end_entry type 1 (tab ! 0) \<Longrightarrow> end_entry type 1 (tab ! 1) \<Longrightarrow> prefix_ok tab 1"
proof (rule prefix_ok_flat)
  fix i :: nat assume *: "2 \<le> length tab" "end_entry type 1 (tab ! 0)" "end_entry type 1 (tab ! 1)" "i < 2 ^ 1"
  have "end_entry type 1 e \<Longrightarrow> c_bits e = 1" for e by (cases type; cases e) auto
  moreover have "i = 0 \<or> i = 1" using *(4) by auto
  ultimately show "end_entry type 1 (tab ! i) \<and> c_bits (tab ! i) = 1" using * by auto
qed simp

lemma pair_wf: "2 \<le> length tab \<Longrightarrow> end_entry type 1 (tab ! 0) \<Longrightarrow> end_entry type 1 (tab ! 1) \<Longrightarrow> table_wf type tab 1"
  by (auto simp: table_wf_def MAXBITS_def less_Suc_eq numeral_2_eq_2)

lemma end_invalid: "end_entry type 1 (Code 64 1 0)"
  by (cases type) simp_all

lemma start_state:
  assumes c: "counted lens cnt" and m: "max_len cnt MAXBITS \<noteq> 0" and k: "kraft lens \<le> 2 ^ MAXBITS"
    and len: "length lens \<le> max_syms type"
    and mn: "mn = min_len cnt (max_len cnt MAXBITS) 1" and root: "mn \<le> root" "root \<le> MAXBITS"
    and sp: "2 ^ root \<le> length tab" and nb: "\<not> too_big type (2 ^ root)"
  shows "tab_stat type lens root (max_len cnt MAXBITS) (canon lens)"
    and "tinv type lens root (canon lens) [] (canon lens)
      \<lparr>t_count = cnt, t_len = mn, t_huff = 0, t_next = 0, t_curr = root, t_drop = 0,
       t_low = None, t_used = 2 ^ root, t_tab = tab\<rparr>"
proof -
  note S = set_canon_upto [of lens MAXBITS]
  have "\<forall>s\<in>set (canon lens). lens ! s \<le> max_len cnt MAXBITS \<and> (\<forall>b. code_entry type s b \<noteq> None)"
  proof
    fix s assume "s \<in> set (canon lens)"
    then have "s < length lens" unfolding S by blast
    with mx_max [OF c this] code_entry_total [of s type] len
    show "lens ! s \<le> max_len cnt MAXBITS \<and> (\<forall>b. code_entry type s b \<noteq> None)" by simp
  qed
  then show "tab_stat type lens root (max_len cnt MAXBITS) (canon lens)"
    unfolding tab_stat_def span_canon [OF counted_short [OF c]]
    using dec_sorted_canon [of lens] k max_len_le [of cnt MAXBITS]
      mn_facts(1) [OF c m] canon_ends(3) [OF c m] mn root by linarith
  have "cnt_ok lens (canon lens) cnt"
    using c by (simp add: cnt_ok_def counted_def filter_canon_upto)
  then show "tinv type lens root (canon lens) [] (canon lens)
      \<lparr>t_count = cnt, t_len = mn, t_huff = 0, t_next = 0, t_curr = root, t_drop = 0,
       t_low = None, t_used = 2 ^ root, t_tab = tab\<rparr>"
    using canon_ends(1,2) [OF c m] mn root sp nb by (simp add: tinv_def tab_good_def phaseA_def)
qed

lemma codes_left_kraft:
  assumes "counted lens cnt"
  shows "codes_left cnt MAXBITS 1 =
     (if kraft lens \<le> 2 ^ MAXBITS then Some (2 ^ MAXBITS - int (kraft lens)) else None)"
  using codes_left_ok [of MAXBITS cnt lens 1] assms span_canon [of lens] by (simp add: counted_def)

text \<open>What the routine promises of a result.\<close>

definition table_ok :: "codetype \<Rightarrow> nat list \<Rightarrow> code list \<Rightarrow> int \<times> code list \<times> nat \<times> nat \<Rightarrow> bool" where
  "table_ok type lens tab = (\<lambda>(ret, tab', used, root).
     length tab' = length tab \<and> (ret = -1 \<longleftrightarrow> \<not> usable_lens type lens) \<and>
     (ret = 0 \<or> ret = -1 \<or> ret = 1 \<and> type \<noteq> CODES) \<and>
     (ret = 0 \<longrightarrow> used \<le> length tab \<and> 1 \<le> root \<and> root \<le> MAXBITS \<and> table_wf type (take used tab') root \<and>
        prefix_ok (take used tab') root \<and>
        (type = LENS \<longrightarrow> used \<le> ENOUGH_LENS) \<and>
        (\<forall>x<2 ^ MAXBITS. tab_lookup (take used tab') root x = Some (huff_entry type lens x))))"

lemma finish_complete:
  assumes d: "tab_done type lens root mx (canon lens) t" and L: "length (t_tab t) = length tab"
    and s: "\<forall>s\<in>set (canon lens). s < max_syms type" and sp: "code_span lens (canon lens) = 2 ^ MAXBITS"
    and u: "usable_lens type lens" and r: "1 \<le> root" "root \<le> MAXBITS"
    and codes: "type = CODES \<longrightarrow> (\<forall>s\<in>set (canon lens). lens ! s \<le> root)"
  shows "t_huff t = 0 \<and> table_ok type lens tab (0, t_tab t, t_used t, root)"
proof -
  have "tab_lookup (take (t_used t) (t_tab t)) root x = Some (huff_entry type lens x)" if "x < 2 ^ MAXBITS" for x
    using done_lookup [OF d that s] sp rv_lt by simp
  with done_wf [OF d s sp r codes] done_prefix [OF d s sp r codes] show ?thesis
    using d L u r sp by (auto simp: table_ok_def tab_done_def too_big_def)
qed

lemma pair_len: "ok_at type lens tab 1 2 x s \<Longrightarrow> lens ! s \<le> 1"
proof (rule ccontr)
  assume "ok_at type lens tab 1 2 x s" "\<not> lens ! s \<le> 1"
  then obtain c v where "0 < c" "2 \<le> v" "v + 2 ^ c \<le> (2 :: nat)" by (auto simp: ok_at_def)
  then show False using zero_less_power [of "2 :: nat" c] by linarith
qed

lemma finish_single:
  assumes d: "tab_done type lens 1 1 (canon lens) t" and L: "length (t_tab t) = length tab"
    and s: "\<forall>s\<in>set (canon lens). s < max_syms type" and sp: "code_span lens (canon lens) = 2 ^ 14"
    and u: "usable_lens type lens"
  shows "t_huff t = 1 \<and> t_next t = 0 \<and> t_drop t = 0 \<and> t_len t = 1 \<and> 1 < length (t_tab t) \<and>
     table_ok type lens tab (0, (t_tab t)[1 := Code 64 1 0], t_used t, 1)"
proof -
  have f: "t_next t = 0" "t_drop t = 0" "t_used t = 2" "t_used t \<le> length (t_tab t)" "t_huff t < 2"
    "rv MAXBITS (t_huff t) = 2 ^ 14" "t_len t = 1"
    using d sp by (simp_all add: tab_done_def phaseA_def MAXBITS_def)
  have "t_huff t \<noteq> 0"
  proof
    assume "t_huff t = 0"
    with f(6) show False by simp
  qed
  then have h: "t_huff t = 1" using f(5) by simp
  have bit: "rv MAXBITS x < 2 ^ 14 \<longleftrightarrow> x mod 2 = 0" for x
    using rv_prefix [of 1 MAXBITS x] rv_lt [of 14 "x div 2"] rv_add [of 1 14 x]
    by (auto simp: MAXBITS_def mod2_eq_if split: if_splits)
  have "tab_lookup (take 2 ((t_tab t)[1 := Code 64 1 0])) 1 x = Some (huff_entry type lens x)" if x: "x < 2 ^ MAXBITS" for x
  proof (cases "rv MAXBITS x < 2 ^ 14")
    case True
    have z: "sym_at lens ss y = Some s \<Longrightarrow> s \<in> set ss" for ss y s
      by (induction ss arbitrary: y) (auto split: if_splits)
    have "tab_good type lens (canon lens) 1 (2 ^ 14) (t_tab t) 2 2 None" using d sp f(3) by (simp add: tab_done_def)
    from goodE [OF this x True] obtain s' where s': "sym_at lens (canon lens) (rv MAXBITS x) = Some s'"
      "ok_at type lens (t_tab t) 1 2 x s'" by auto
    have "lens ! s' \<le> 1" by (rule pair_len [OF s'(2)])
    then have e: "code_entry type s' (lens ! s') = Some (t_tab t ! 0)" using s'(2) True bit [of x] by (simp add: ok_at_def)
    have "tab_lookup (take 2 ((t_tab t)[1 := Code 64 1 0])) 1 x = Some (t_tab t ! 0)"
      using True bit [of x] f(3,4) code_entry_op [OF e] by (auto simp: tab_lookup_def Let_def)
    then show ?thesis using s'(1) e by (simp add: huff_entry_def)
  next
    case False
    have "64 AND 0xf0 \<noteq> (0 :: nat)" by simp
    moreover have "x mod 2 = 1" using False bit [of x] by simp
    ultimately have "tab_lookup (take 2 ((t_tab t)[1 := Code 64 1 0])) 1 x = Some (Code 64 1 0)"
      using f(3,4) by (simp add: tab_lookup_def Let_def)
    moreover have "sym_at lens (canon lens) (rv MAXBITS x) = None"
      by (rule sym_at_none) (use False sp in simp)
    ultimately show ?thesis by (simp add: huff_entry_def)
  qed
  moreover have "table_wf type (take 2 ((t_tab t)[1 := Code 64 1 0])) 1 \<and>
      prefix_ok (take 2 ((t_tab t)[1 := Code 64 1 0])) 1"
  proof (intro conjI pair_wf pair_prefix)
    show "2 \<le> length (take 2 ((t_tab t)[1 := Code 64 1 0]))" using f(3,4) by simp
    then show "2 \<le> length (take 2 ((t_tab t)[1 := Code 64 1 0]))" .
    show i1: "end_entry type 1 (take 2 ((t_tab t)[1 := Code 64 1 0]) ! 1)" using f(3,4) end_invalid by simp
    show "end_entry type 1 (take 2 ((t_tab t)[1 := Code 64 1 0]) ! 1)" by (rule i1)
    have z: "rv MAXBITS 0 < code_span lens (canon lens)" by (simp add: sp)
    obtain s' where s': "s' \<in> set (canon lens)" "1 \<le> lens ! s'" "ok_at type lens (t_tab t) 1 (t_used t) 0 s'"
      by (rule done_symbol [OF d _ z]) (simp_all add: MAXBITS_def)
    have "lens ! s' \<le> 1" by (rule pair_len) (use s'(3) f(3) in simp)
    then have "code_entry type s' (lens ! s') = Some (t_tab t ! 0)" using s'(3) by (simp add: ok_at_def)
    then have "end_entry type 1 (t_tab t ! 0)"
      by (rule code_entry_end) (use s s' \<open>lens ! s' \<le> 1\<close> in auto)
    then show "end_entry type 1 (take 2 ((t_tab t)[1 := Code 64 1 0]) ! 0)" by simp
    then show "end_entry type 1 (take 2 ((t_tab t)[1 := Code 64 1 0]) ! 0)" .
  qed
  moreover have "type = LENS \<longrightarrow> 2 \<le> ENOUGH_LENS" by (simp add: ENOUGH_LENS_def)
  ultimately show ?thesis using f h L u by (simp add: table_ok_def MAXBITS_def)
qed


lemma root_fits:
  assumes "table_space type lens tab bits" and "counted lens cnt" and "max_len cnt MAXBITS \<noteq> 0"
    and "root = (if min bits (max_len cnt MAXBITS) < min_len cnt (max_len cnt MAXBITS) 1
           then min_len cnt (max_len cnt MAXBITS) 1 else min bits (max_len cnt MAXBITS))"
    and "\<not> too_big type (2 ^ root)"
  shows "2 ^ root \<le> length tab" and "1 \<le> root" and "root \<le> max_len cnt MAXBITS"
    and "max_len cnt MAXBITS \<le> root \<or> (\<forall>u. \<not> too_big type u \<longrightarrow> u \<le> length tab)"
    and "type = CODES \<Longrightarrow> max_len cnt MAXBITS \<le> root"
proof -
  note mn = mn_facts(1,2) [OF assms(2,3)]
  show r: "1 \<le> root" "root \<le> max_len cnt MAXBITS" using mn assms(4) by (simp_all split: if_splits)
  have b: "max_len cnt MAXBITS \<le> bits" if "type = CODES"
    using mx_in [OF assms(2,3)] assms(1) that by (auto simp: table_space_def dest: nth_mem)
  then show c: "type = CODES \<Longrightarrow> max_len cnt MAXBITS \<le> root" using mn assms(4) by auto
  show "max_len cnt MAXBITS \<le> root \<or> (\<forall>u. \<not> too_big type u \<longrightarrow> u \<le> length tab)"
    using c assms(1) by (cases type) (auto simp: table_space_def too_big_def)
  show "2 ^ root \<le> length tab"
  proof (cases "type = CODES")
    case True
    have "(2 :: nat) ^ root \<le> 2 ^ bits" using b [OF True] r(2) by (intro power_increasing) simp_all
    moreover have "2 ^ bits \<le> length tab" using assms(1) True by (simp add: table_space_def)
    ultimately show ?thesis by (rule order_trans)
  next
    case False
    then show ?thesis using assms(1,5) by (cases type) (auto simp: table_space_def too_big_def)
  qed
qed

lemma two_invalid:
  assumes "2 \<le> length tab"
  shows "tab_lookup (take 2 (tab[0 := Code 64 1 0, 1 := Code 64 1 0])) 1 x = Some (Code 64 1 0)"
proof -
  obtain a b r where "tab = a # b # r" using assms by (metis Suc_le_length_iff numeral_2_eq_2)
  then have t: "take 2 (tab[0 := Code 64 1 0, 1 := Code 64 1 0]) = replicate 2 (Code 64 1 0)"
    by (simp add: numeral_2_eq_2)
  have "x mod 2 ^ 1 < 2" by simp
  then have "replicate 2 (Code 64 1 0) ! (x mod 2 ^ 1) = Code 64 1 0" by (rule nth_replicate)
  moreover have "64 AND 0xf0 \<noteq> (0 :: nat)" by simp
  ultimately show ?thesis unfolding t by (simp add: tab_lookup_def)
qed

lemma two_invalid_wf:
  assumes "2 \<le> length tab"
  shows "table_wf type (take 2 (tab[0 := Code 64 1 0, 1 := Code 64 1 0])) 1 \<and>
    prefix_ok (take 2 (tab[0 := Code 64 1 0, 1 := Code 64 1 0])) 1"
proof -
  have "0 < length tab" using assms by linarith
  then show ?thesis by (intro conjI pair_wf pair_prefix [where type = type]) (use assms end_invalid [of type] in simp_all)
qed

lemma inflate_table_spec:
  assumes short: "\<forall>l\<in>set lens. l \<le> MAXBITS" and len: "length lens \<le> max_syms type"
    and space: "table_space type lens tab bits"
  shows "\<exists>res. inflate_table type lens tab bits = Some res \<and> table_ok type lens tab res"
proof -
  obtain cnt where cnt: "count_lens lens (replicate (MAXBITS + 1) 0) = Some cnt" "length cnt = Suc MAXBITS"
    "\<And>l. l \<le> MAXBITS \<Longrightarrow> cnt ! l = length (filter (\<lambda>s. lens ! s = l) [0..<length lens])"
    by (rule count_lens_some [OF short]) blast
  have c: "counted lens cnt" using short cnt(2,3) by (simp add: counted_def of_len_def)
  define mx where "mx = max_len cnt MAXBITS"
  define mn where "mn = min_len cnt mx 1"
  define root where "root = (if min bits mx < mn then mn else min bits mx)"
  define t where "t = \<lparr>t_count = cnt, t_len = mn, t_huff = 0, t_next = 0, t_curr = root, t_drop = 0,
       t_low = None, t_used = 2 ^ root, t_tab = tab\<rparr>"
  have l288: "length lens \<le> 288" using len by (cases type) auto
  obtain zs where zs: "sort_syms lens 0 (offsets cnt 1 0) (replicate 288 0) = Some (canon lens @ zs)"
    by (rule sort_syms_canon [OF short l288 cnt(2)]) (use c in \<open>auto simp: counted_def\<close>)
  have run: "inflate_table type lens tab bits =
     (if mx = 0 then
        (if 2 \<le> length tab then Some (0, tab[0 := Code 64 1 0, 1 := Code 64 1 0], 2, 1) else None)
      else if \<not> kraft lens \<le> 2 ^ MAXBITS \<or> kraft lens < 2 ^ MAXBITS \<and> (type = CODES \<or> mx \<noteq> 1) then Some (-1, tab, 0, bits)
      else if too_big type (2 ^ root) then Some (1, tab, 0, bits)
      else Option.bind (tab_loop type lens root mx (canon lens @ zs) t) (\<lambda>(ret, t1).
        if ret \<noteq> 0 then Some (ret, t_tab t1, 0, bits)
        else if t_huff t1 = 0 then Some (0, t_tab t1, t_used t1, root)
        else if t_next t1 + t_huff t1 < length (t_tab t1)
        then Some (0, (t_tab t1)[t_next t1 + t_huff t1 := Code 64 (t_len t1 - t_drop t1) 0], t_used t1, root)
        else None))"
  proof -
    have e: "(2 ^ MAXBITS - int (kraft lens) > 0) = (kraft lens < 2 ^ MAXBITS)"
      by (simp flip: of_nat_power)
    show ?thesis
      unfolding inflate_table_def cnt(1) Option.bind.bind_lunit Let_def mx_def [symmetric] mn_def [symmetric]
        root_def [symmetric] codes_left_kraft [OF c] zs t_def [symmetric]
      by (cases "kraft lens \<le> 2 ^ MAXBITS") (simp_all only: e if_True if_False option.case not_True_eq_False
        not_False_eq_True simp_thms tab_state.simps t_def)
  qed
  show ?thesis
  proof (cases "mx = 0")
    case True
    then have z: "\<forall>l\<in>set lens. l = 0" using mx_zero [OF c] by (simp add: mx_def)
    have L: "2 \<le> length tab"
    proof (cases type)
      case CODES
      then have "1 \<le> bits" "2 ^ bits \<le> length tab" using space by (simp_all add: table_space_def)
      then show ?thesis using power_increasing [of 1 bits "2 :: nat"] by simp
    qed (use space in \<open>simp_all add: table_space_def ENOUGH_LENS_def ENOUGH_DISTS_def\<close>)
    note two_invalid [OF L]
    then show ?thesis
      using run True L z huff_entry_nil [OF canon_nil [OF z]] two_invalid_wf [OF L, of type]
      by (simp add: table_ok_def usable_lens_def MAXBITS_def ENOUGH_LENS_def)
  next
    case m: False
    note m' = m [unfolded mx_def]
    have K: "\<not> kraft lens \<le> 2 ^ MAXBITS \<Longrightarrow> \<not> usable_lens type lens"
      using mx_zero [OF c] m' by (simp add: usable_lens_def)
    show ?thesis
    proof (cases "usable_lens type lens")
      case False
      have "\<not> kraft lens \<le> 2 ^ MAXBITS \<or> kraft lens < 2 ^ MAXBITS \<and> (type = CODES \<or> mx \<noteq> 1)"
        using False usable_iff [OF c m', of type] unfolding mx_def by blast
      then show ?thesis using run m False by (simp add: table_ok_def)
    next
      case u: True
      have k: "kraft lens \<le> 2 ^ MAXBITS" using K u by blast
      have nz: "\<not> (kraft lens < 2 ^ MAXBITS \<and> (type = CODES \<or> mx \<noteq> 1))"
        using u usable_iff [OF c m' k] unfolding mx_def by blast
      show ?thesis
      proof (cases "too_big type (2 ^ root)")
        case True
        then show ?thesis using run m k nz u by (auto simp: table_ok_def too_big_def)
      next
        case fit: False
        note rf = root_fits [OF space c m' root_def [unfolded mn_def mx_def] fit]
        have r15: "root \<le> MAXBITS" using rf(3) max_len_le [of cnt MAXBITS] by linarith
        have mr: "mn \<le> root" unfolding root_def by (simp only: not_less [symmetric] split: if_splits) simp
        note ss = start_state [OF c m' k len mn_def [unfolded mx_def] mr r15 rf(1) fit]
        have H: "max_len cnt MAXBITS \<le> root \<or> (\<forall>u. \<not> too_big type u \<longrightarrow> u \<le> length tab)" by (rule rf(4))
        obtain r t1 where L: "tab_loop type lens root mx (canon lens @ zs) t = Some (r, t1)" "length (t_tab t1) = length tab"
          "r = 0 \<and> tab_done type lens root mx (canon lens) t1 \<or> r = 1 \<and> \<not> mx \<le> root"
          using tab_loop_ok [OF ss(1) H ss(2), of zs] unfolding t_def mx_def by auto
        have nc: "\<not> (\<not> kraft lens \<le> 2 ^ MAXBITS \<or> kraft lens < 2 ^ MAXBITS \<and> (type = CODES \<or> mx \<noteq> 1))"
          using k nz by blast
        have run2: "inflate_table type lens tab bits =
          (if r \<noteq> 0 then Some (r, t_tab t1, 0, bits)
           else if t_huff t1 = 0 then Some (0, t_tab t1, t_used t1, root)
           else if t_next t1 + t_huff t1 < length (t_tab t1)
           then Some (0, (t_tab t1)[t_next t1 + t_huff t1 := Code 64 (t_len t1 - t_drop t1) 0], t_used t1, root)
           else None)"
          unfolding run if_not_P [OF m] if_not_P [OF nc] if_not_P [OF fit] L(1) by simp
        have sy: "\<forall>s\<in>set (canon lens). s < max_syms type" using len by (auto simp: set_canon_upto)
        have sp: "code_span lens (canon lens) = kraft lens" by (rule span_canon [OF short])
        consider "r = 1" "\<not> mx \<le> root" | "r = 0" "tab_done type lens root mx (canon lens) t1" "kraft lens = 2 ^ MAXBITS"
          | "r = 0" "tab_done type lens root mx (canon lens) t1" "kraft lens < 2 ^ MAXBITS" "mx = 1"
          using L(3) k nz by fastforce
        then show ?thesis
        proof cases
          case 1
          then have "type \<noteq> CODES" using rf(5) by (auto simp: mx_def)
          then show ?thesis using run2 L 1 u by (simp add: table_ok_def)
        next
          case 2
          have "type = CODES \<longrightarrow> (\<forall>s\<in>set (canon lens). lens ! s \<le> root)"
          proof (intro impI ballI)
            fix s assume "type = CODES" "s \<in> set (canon lens)"
            then have "s < length lens" "max_len cnt MAXBITS \<le> root" unfolding set_canon_upto using rf(5) by blast+
            with mx_max [OF c] show "lens ! s \<le> root" by fastforce
          qed
          from finish_complete [OF 2(2) L(2) sy sp [unfolded 2(3)] u rf(2) r15 this]
          show ?thesis using run2 2(1) by simp
        next
          case 3
          have "\<forall>l\<in>set lens. l \<le> 1"
            using mx_max [OF c] 3(4) by (auto simp: in_set_conv_nth mx_def)
          moreover have "kraft lens \<noteq> 0" using kraft_zero mx_zero [OF c] m' by simp
          ultimately have k14: "kraft lens = 2 ^ 14" using kraft_ones 3(3) by blast
          have r1: "root = 1" using rf(2,3) 3(4) by (simp add: mx_def)
          from finish_single [OF 3(2) [unfolded r1 3(4)] L(2) sy sp [unfolded k14] u]
          show ?thesis using run2 3(1) r1 by simp
        qed
      qed
    qed
  qed
qed

section \<open>The fixed tables are well formed\<close>

lemma lenfix_length: "length lenfix = 512"
  by (simp add: lenfix_def)

lemma lenfix_entries: "list_all (\<lambda>e. end_entry LENS 9 e \<and> 7 \<le> c_bits e) lenfix"
  by (simp add: lenfix_def)

lemma lenfix_halves:
  "list_all2 (\<lambda>c d. c_bits c \<le> 8 \<or> c_bits d \<le> 8 \<longrightarrow> c = d) (take 256 lenfix) (drop 256 lenfix)"
  by (simp add: lenfix_def)

lemma lenfix_quarters:
  "list_all2 (\<lambda>c d. c_bits c \<le> 7 \<or> c_bits d \<le> 7 \<longrightarrow> c = d) (take 128 lenfix) (take 128 (drop 128 lenfix))"
  by (simp add: lenfix_def)

lemma distfix_entries: "length distfix = 32" "list_all (\<lambda>e. end_entry DISTS 5 e \<and> c_bits e = 5) distfix"
  by (simp_all add: distfix_def)


lemma lenfix_end: "i < 512 \<Longrightarrow> end_entry LENS 9 (lenfix ! i) \<and> 7 \<le> c_bits (lenfix ! i)"
  using lenfix_entries by (simp add: list_all_length lenfix_length)

lemma lenfix_half: "i < 256 \<Longrightarrow> c_bits (lenfix ! i) \<le> 8 \<or> c_bits (lenfix ! (i + 256)) \<le> 8 \<Longrightarrow> lenfix ! i = lenfix ! (i + 256)"
  using lenfix_halves by (auto simp add: list_all2_conv_all_nth lenfix_length add.commute)

lemma lenfix_quarter: "i < 128 \<Longrightarrow> c_bits (lenfix ! i) \<le> 7 \<or> c_bits (lenfix ! (i + 128)) \<le> 7 \<Longrightarrow> lenfix ! i = lenfix ! (i + 128)"
  using lenfix_quarters by (auto simp add: list_all2_conv_all_nth lenfix_length add.commute)

lemma lenfix_8: "i < 512 \<Longrightarrow> c_bits (lenfix ! i) \<le> 8 \<or> c_bits (lenfix ! (i mod 256)) \<le> 8 \<Longrightarrow> lenfix ! i = lenfix ! (i mod 256)"
  using lenfix_half [of "i mod 256"] by (cases "i < 256") (auto simp: mod_if)

lemma lenfix_7: "i < 256 \<Longrightarrow> c_bits (lenfix ! i) \<le> 7 \<or> c_bits (lenfix ! (i mod 128)) \<le> 7 \<Longrightarrow> lenfix ! i = lenfix ! (i mod 128)"
  using lenfix_quarter [of "i mod 128"] by (cases "i < 128") (auto simp: mod_if)

lemma lenfix_prefix_nth:
  assumes "i < 512" "j < 512" "i mod 2 ^ c_bits (lenfix ! i) = j mod 2 ^ c_bits (lenfix ! i)"
  shows "lenfix ! j = lenfix ! i"
proof -
  let ?b = "c_bits (lenfix ! i)"
  have b: "7 \<le> ?b" "?b \<le> 9" using lenfix_end [OF assms(1)] by (cases "lenfix ! i"; auto)+
  then consider "?b = 9" | "?b = 8" | "?b = 7" by linarith
  then show ?thesis
  proof cases
    case 1
    then show ?thesis using assms by simp
  next
    case 2
    then have "i mod 256 = j mod 256" using assms(3) by simp
    moreover have "lenfix ! i = lenfix ! (i mod 256)" using lenfix_8 [OF assms(1)] 2 by simp
    ultimately show ?thesis using lenfix_8 [OF assms(2)] 2 by simp
  next
    case 3
    have m: "k mod 256 mod 128 = k mod 128" for k :: nat by (simp add: mod_mod_cancel)
    have ij: "i mod 128 = j mod 128" using assms(3) 3 by simp
    have "lenfix ! i = lenfix ! (i mod 256)" using lenfix_8 [OF assms(1)] 3 by simp
    then have i: "lenfix ! i = lenfix ! (i mod 128)" using lenfix_7 [of "i mod 256"] 3 m by simp
    then have "lenfix ! (j mod 256) = lenfix ! (j mod 128)" using lenfix_7 [of "j mod 256"] 3 ij m by simp
    then show ?thesis using lenfix_8 [OF assms(2)] i ij 3 by simp
  qed
qed

lemma lenfix_ok: "table_wf LENS lenfix 9" "prefix_ok lenfix 9"
proof -
  show "table_wf LENS lenfix 9" using lenfix_end by (simp add: table_wf_def MAXBITS_def lenfix_length)
  have l: "tab_lookup lenfix 9 z = Some (lenfix ! (z mod 512))" for z
    using flat_lookup [of 9 LENS lenfix z] lenfix_end by (simp add: lenfix_length)
  show "prefix_ok lenfix 9"
    unfolding prefix_ok_def l
  proof (intro allI impI)
    fix x y n e
    assume e: "Some (lenfix ! (x mod 512)) = Some e" and n: "c_bits e \<le> n" and eq: "(x :: nat) mod 2 ^ n = y mod 2 ^ n"
    have x: "x mod 512 < 512" and y: "y mod 512 < 512" by simp_all
    have b: "c_bits e \<le> 9" using lenfix_end [OF x] e by (cases e) auto
    have "z mod 512 mod 2 ^ c_bits e = z mod 2 ^ n mod 2 ^ c_bits e" for z :: nat
    proof -
      have "2 ^ c_bits e dvd (512 :: nat)" using le_imp_power_dvd [OF b, of "2 :: nat"] by simp
      then show ?thesis using n by (simp add: mod_mod_cancel le_imp_power_dvd)
    qed
    then have "x mod 512 mod 2 ^ c_bits e = y mod 512 mod 2 ^ c_bits e" using eq by simp
    then show "Some (lenfix ! (y mod 512)) = Some e" using lenfix_prefix_nth [OF x y] e by simp
  qed
qed

lemma distfix_ok: "table_wf DISTS distfix 5" "prefix_ok distfix 5"
proof -
  have e: "i < 32 \<Longrightarrow> end_entry DISTS 5 (distfix ! i) \<and> c_bits (distfix ! i) = 5" for i
    using distfix_entries by (simp add: list_all_length)
  then show "table_wf DISTS distfix 5" by (simp add: table_wf_def MAXBITS_def distfix_entries)
  show "prefix_ok distfix 5" by (rule prefix_ok_flat [where type = DISTS]) (use e in \<open>simp_all add: distfix_entries\<close>)
qed

section \<open>What a lookup gives\<close>

text \<open>An entry that ends a code, of up to 15 bits in all.\<close>

lemma lookup_entry:
  assumes "table_wf type tab root"
  obtains e where "tab_lookup tab root x = Some e" "end_entry type MAXBITS e"
    and "tab ! (x mod 2 ^ root) = e \<and> c_bits e \<le> root \<and> (c_op e = 0 \<or> c_op e AND 0xf0 \<noteq> 0) \<or>
      (\<exists>l. tab ! (x mod 2 ^ root) = l \<and> sub_entry type root tab l \<and> c_op l \<noteq> 0 \<and> c_op l AND 0xf0 = 0 \<and>
        (let i = c_val l + x mod 2 ^ (root + c_op l) div 2 ^ root in
         i < length tab \<and> end_entry type (MAXBITS - root) (tab ! i) \<and>
         e = Code (c_op (tab ! i)) (root + c_bits (tab ! i)) (c_val (tab ! i))))"
proof -
  have z: "x mod 2 ^ root < 2 ^ root" by simp
  have wf: "root \<le> MAXBITS" "2 ^ root \<le> length tab"
    "end_entry type root (tab ! (x mod 2 ^ root)) \<or> sub_entry type root tab (tab ! (x mod 2 ^ root))"
    using assms z by (auto simp: table_wf_def)
  have il: "x mod 2 ^ root < length tab" using z wf(2) by linarith
  have up: "end_entry type n e \<Longrightarrow> n \<le> m \<Longrightarrow> end_entry type m e" for n m e by (cases type; cases e) auto
  show thesis
  proof (cases "end_entry type root (tab ! (x mod 2 ^ root))")
    case True
    have "c_bits (tab ! (x mod 2 ^ root)) \<le> root" using True by (cases type; cases "tab ! (x mod 2 ^ root)") auto
    then show thesis
      using that [of "tab ! (x mod 2 ^ root)"] up [OF True wf(1)] end_entry_op [OF True] il
      by (auto simp: tab_lookup_def Let_def)
  next
    case False
    let ?l = "tab ! (x mod 2 ^ root)"
    have l: "sub_entry type root tab ?l" using False wf(3) by blast
    let ?i = "c_val ?l + x mod 2 ^ (root + c_op ?l) div 2 ^ root"
    have f: "c_bits ?l = root" "1 \<le> c_op ?l" "root + c_op ?l \<le> MAXBITS" "c_val ?l + 2 ^ c_op ?l \<le> length tab"
      "\<forall>j<2 ^ c_op ?l. end_entry type (MAXBITS - root) (tab ! (c_val ?l + j))"
      using l by (simp_all add: sub_entry_def)
    have j: "x mod 2 ^ (root + c_op ?l) div 2 ^ root < 2 ^ c_op ?l"
      by (simp add: power_add mod_mult2_eq)
    then have i: "?i < length tab" using f(4) by linarith
    have e: "end_entry type (MAXBITS - root) (tab ! ?i)" using f(5) j by blast
    have op: "c_op ?l \<noteq> 0" "c_op ?l AND 0xf0 = 0" using f(2) small_op [OF le_trans [OF le_add2 f(3)]] by simp_all
    let ?e = "Code (c_op (tab ! ?i)) (root + c_bits (tab ! ?i)) (c_val (tab ! ?i))"
    have "end_entry type MAXBITS ?e" using e wf(1) by (cases type; cases "tab ! ?i") auto
    moreover have "tab_lookup tab root x = Some ?e" using il i op f(1) by (simp add: tab_lookup_def Let_def)
    ultimately show thesis using that [of ?e] l op i e by (auto simp: Let_def)
  qed
qed

section \<open>Properties\<close>

text \<open>C8: \<open>inflate_table\<close> builds a decoder of the canonical Huffman code. For any code lengths of at
  most 15 bits and as much table space as the callers reserve, a return code 0 comes with a table on
  which the two-step lookup of every 15-bit input finds, inside the used part, the operation, the
  length and the value of the symbol whose canonical code the input starts with, and the invalid-code
  marker where there is none.\<close>

theorem inflate_table_decodes:
  assumes "\<forall>l\<in>set lens. l \<le> MAXBITS" and "length lens \<le> max_syms type" and "table_space type lens tab bits"
    and "inflate_table type lens tab bits = Some (0, tab', used, root)" and "x < 2 ^ MAXBITS"
  shows "tab_lookup (take used tab') root x = Some (huff_entry type lens x)"
  using inflate_table_spec [OF assms(1-3)] assms(4,5) by (simp add: table_ok_def)

text \<open>C37: \<open>inflate_table\<close> writes inside its table space only: with the space the callers reserve (852
  entries for literals and lengths, 592 for distances, a full root table for the code lengths) it
  returns, reports no more used entries than there are and leaves a root index of 1 to 15 bits.\<close>

theorem inflate_table_in_bounds:
  assumes "\<forall>l\<in>set lens. l \<le> MAXBITS" and "length lens \<le> max_syms type" and "table_space type lens tab bits"
  shows "\<exists>ret tab' used root. inflate_table type lens tab bits = Some (ret, tab', used, root) \<and>
     length tab' = length tab \<and> (ret = 0 \<longrightarrow> used \<le> length tab \<and> 1 \<le> root \<and> root \<le> MAXBITS)"
  using inflate_table_spec [OF assms] by (auto simp: table_ok_def)

text \<open>\<open>inflate_table\<close> refuses exactly the lengths that give no usable code: it returns -1 when the
  Kraft sum exceeds 1, or falls short of it and the set is neither empty nor, outside the code-length
  code, a single code of one bit.\<close>

theorem inflate_table_verdict:
  assumes "\<forall>l\<in>set lens. l \<le> MAXBITS" and "length lens \<le> max_syms type" and "table_space type lens tab bits"
    and "inflate_table type lens tab bits = Some (ret, rest)"
  shows "ret = -1 \<longleftrightarrow> \<not> usable_lens type lens"
  using inflate_table_spec [OF assms(1-3)] assms(4) by (cases rest) (auto simp: table_ok_def)

section \<open>Witnesses\<close>

lemma inflate_table_example:
  "inflate_table CODES [1, 2, 2] (replicate 4 (Code 0 0 0)) 2 =
     Some (0, [Code 0 1 0, Code 0 2 1, Code 0 1 0, Code 0 2 2], 4, 2)"
  by code_simp

lemma code_example_ok: "\<forall>l\<in>set [1, 2, 2 :: nat]. l \<le> MAXBITS" "length [1, 2, 2 :: nat] \<le> max_syms CODES"
  "table_space CODES [1, 2, 2] (replicate 4 (Code 0 0 0)) 2"
  by (simp_all add: MAXBITS_def table_space_def)

theorem inflate_table_decodes_witness:
  "tab_lookup (take 4 [Code 0 1 0, Code 0 2 1, Code 0 1 0, Code 0 2 2]) 2 3 = Some (huff_entry CODES [1, 2, 2] 3)"
  by (rule inflate_table_decodes [OF code_example_ok inflate_table_example]) (simp add: MAXBITS_def)

theorem inflate_table_in_bounds_witness:
  "\<exists>ret tab' used root. inflate_table CODES [1, 2, 2] (replicate 4 (Code 0 0 0)) 2 = Some (ret, tab', used, root) \<and>
     length tab' = length (replicate 4 (Code 0 0 0)) \<and>
     (ret = 0 \<longrightarrow> used \<le> length (replicate 4 (Code 0 0 0)) \<and> 1 \<le> root \<and> root \<le> MAXBITS)"
  by (rule inflate_table_in_bounds [OF code_example_ok])

lemma code_example_bad: "\<forall>l\<in>set [1, 1, 1 :: nat]. l \<le> MAXBITS" "length [1, 1, 1 :: nat] \<le> max_syms CODES"
  "table_space CODES [1, 1, 1] (replicate 4 (Code 0 0 0)) 2"
  by (simp_all add: MAXBITS_def table_space_def)

lemma inflate_table_bad: "inflate_table CODES [1, 1, 1] (replicate 4 (Code 0 0 0)) 2 =
     Some (-1, replicate 4 (Code 0 0 0), 0, 2)"
  by code_simp

theorem inflate_table_verdict_witness: "\<not> usable_lens CODES [1, 1, 1]"
  using inflate_table_verdict [OF code_example_bad inflate_table_bad] by simp
end
