(* ===== verification/Zl_Crc32.thy ===== *)
theory Zl_Crc32
  imports Ao_Prelude
begin

text \<open>
  The CRC-32 of \<open>util/zlib/crc32.c\<close>, which checks every file unpacked from an update package:
  the static tables of \<open>crc32.h\<close>, the loop \<open>make_crc_table\<close> that generated them, the plain
  byte-at-a-time loop, the two word-at-a-time loops and the combination of two checksums.
  \<open>unsigned long\<close> has 32 bits, as in the 32-bit layout of the rest of the development.

  Everything is compared with one linear map, \<open>crc_step\<close>: shifting the register by one bit.
\<close>

section \<open>The generating loop\<close>

definition crc_poly :: u32 where
  "crc_poly = foldl (\<lambda>poly p. poly OR push_bit (31 - p) 1) 0 [0, 1, 2, 4, 5, 7, 8, 10, 11, 12, 16, 22, 23, 26]"

definition crc_step :: "u32 \<Rightarrow> u32" where
  "crc_step c = (if c AND 1 \<noteq> 0 then crc_poly XOR drop_bit 1 c else drop_bit 1 c)"

definition ZSWAP32 :: "u32 \<Rightarrow> u32" where
  "ZSWAP32 q = (drop_bit 24 q AND 0xFF) + (drop_bit 8 q AND 0xFF00) +
     push_bit 8 (q AND 0xFF00) + push_bit 24 (q AND 0xFF)"

definition make_row :: "u32 list" where
  "make_row = map (\<lambda>n. (crc_step ^^ 8) (of_nat n)) [0..<256]"

definition next_row :: "u32 list \<Rightarrow> u32 \<Rightarrow> u32" where
  "next_row row c = row ! unat (c AND 0xFF) XOR drop_bit 8 c"

definition make_crc_table :: "u32 list list" where
  "make_crc_table =
     (let row = make_row; rows = map (\<lambda>k. map (next_row row ^^ k) row) [0..<4] in
      rows @ map (map ZSWAP32) rows)"

section \<open>The static tables\<close>

definition crc_table0 :: "u32 list" where
  "crc_table0 = [
     0x00000000, 0x77073096, 0xEE0E612C, 0x990951BA, 0x076DC419, 0x706AF48F, 0xE963A535, 0x9E6495A3,
     0x0EDB8832, 0x79DCB8A4, 0xE0D5E91E, 0x97D2D988, 0x09B64C2B, 0x7EB17CBD, 0xE7B82D07, 0x90BF1D91,
     0x1DB71064, 0x6AB020F2, 0xF3B97148, 0x84BE41DE, 0x1ADAD47D, 0x6DDDE4EB, 0xF4D4B551, 0x83D385C7,
     0x136C9856, 0x646BA8C0, 0xFD62F97A, 0x8A65C9EC, 0x14015C4F, 0x63066CD9, 0xFA0F3D63, 0x8D080DF5,
     0x3B6E20C8, 0x4C69105E, 0xD56041E4, 0xA2677172, 0x3C03E4D1, 0x4B04D447, 0xD20D85FD, 0xA50AB56B,
     0x35B5A8FA, 0x42B2986C, 0xDBBBC9D6, 0xACBCF940, 0x32D86CE3, 0x45DF5C75, 0xDCD60DCF, 0xABD13D59,
     0x26D930AC, 0x51DE003A, 0xC8D75180, 0xBFD06116, 0x21B4F4B5, 0x56B3C423, 0xCFBA9599, 0xB8BDA50F,
     0x2802B89E, 0x5F058808, 0xC60CD9B2, 0xB10BE924, 0x2F6F7C87, 0x58684C11, 0xC1611DAB, 0xB6662D3D,
     0x76DC4190, 0x01DB7106, 0x98D220BC, 0xEFD5102A, 0x71B18589, 0x06B6B51F, 0x9FBFE4A5, 0xE8B8D433,
     0x7807C9A2, 0x0F00F934, 0x9609A88E, 0xE10E9818, 0x7F6A0DBB, 0x086D3D2D, 0x91646C97, 0xE6635C01,
     0x6B6B51F4, 0x1C6C6162, 0x856530D8, 0xF262004E, 0x6C0695ED, 0x1B01A57B, 0x8208F4C1, 0xF50FC457,
     0x65B0D9C6, 0x12B7E950, 0x8BBEB8EA, 0xFCB9887C, 0x62DD1DDF, 0x15DA2D49, 0x8CD37CF3, 0xFBD44C65,
     0x4DB26158, 0x3AB551CE, 0xA3BC0074, 0xD4BB30E2, 0x4ADFA541, 0x3DD895D7, 0xA4D1C46D, 0xD3D6F4FB,
     0x4369E96A, 0x346ED9FC, 0xAD678846, 0xDA60B8D0, 0x44042D73, 0x33031DE5, 0xAA0A4C5F, 0xDD0D7CC9,
     0x5005713C, 0x270241AA, 0xBE0B1010, 0xC90C2086, 0x5768B525, 0x206F85B3, 0xB966D409, 0xCE61E49F,
     0x5EDEF90E, 0x29D9C998, 0xB0D09822, 0xC7D7A8B4, 0x59B33D17, 0x2EB40D81, 0xB7BD5C3B, 0xC0BA6CAD,
     0xEDB88320, 0x9ABFB3B6, 0x03B6E20C, 0x74B1D29A, 0xEAD54739, 0x9DD277AF, 0x04DB2615, 0x73DC1683,
     0xE3630B12, 0x94643B84, 0x0D6D6A3E, 0x7A6A5AA8, 0xE40ECF0B, 0x9309FF9D, 0x0A00AE27, 0x7D079EB1,
     0xF00F9344, 0x8708A3D2, 0x1E01F268, 0x6906C2FE, 0xF762575D, 0x806567CB, 0x196C3671, 0x6E6B06E7,
     0xFED41B76, 0x89D32BE0, 0x10DA7A5A, 0x67DD4ACC, 0xF9B9DF6F, 0x8EBEEFF9, 0x17B7BE43, 0x60B08ED5,
     0xD6D6A3E8, 0xA1D1937E, 0x38D8C2C4, 0x4FDFF252, 0xD1BB67F1, 0xA6BC5767, 0x3FB506DD, 0x48B2364B,
     0xD80D2BDA, 0xAF0A1B4C, 0x36034AF6, 0x41047A60, 0xDF60EFC3, 0xA867DF55, 0x316E8EEF, 0x4669BE79,
     0xCB61B38C, 0xBC66831A, 0x256FD2A0, 0x5268E236, 0xCC0C7795, 0xBB0B4703, 0x220216B9, 0x5505262F,
     0xC5BA3BBE, 0xB2BD0B28, 0x2BB45A92, 0x5CB36A04, 0xC2D7FFA7, 0xB5D0CF31, 0x2CD99E8B, 0x5BDEAE1D,
     0x9B64C2B0, 0xEC63F226, 0x756AA39C, 0x026D930A, 0x9C0906A9, 0xEB0E363F, 0x72076785, 0x05005713,
     0x95BF4A82, 0xE2B87A14, 0x7BB12BAE, 0x0CB61B38, 0x92D28E9B, 0xE5D5BE0D, 0x7CDCEFB7, 0x0BDBDF21,
     0x86D3D2D4, 0xF1D4E242, 0x68DDB3F8, 0x1FDA836E, 0x81BE16CD, 0xF6B9265B, 0x6FB077E1, 0x18B74777,
     0x88085AE6, 0xFF0F6A70, 0x66063BCA, 0x11010B5C, 0x8F659EFF, 0xF862AE69, 0x616BFFD3, 0x166CCF45,
     0xA00AE278, 0xD70DD2EE, 0x4E048354, 0x3903B3C2, 0xA7672661, 0xD06016F7, 0x4969474D, 0x3E6E77DB,
     0xAED16A4A, 0xD9D65ADC, 0x40DF0B66, 0x37D83BF0, 0xA9BCAE53, 0xDEBB9EC5, 0x47B2CF7F, 0x30B5FFE9,
     0xBDBDF21C, 0xCABAC28A, 0x53B39330, 0x24B4A3A6, 0xBAD03605, 0xCDD70693, 0x54DE5729, 0x23D967BF,
     0xB3667A2E, 0xC4614AB8, 0x5D681B02, 0x2A6F2B94, 0xB40BBE37, 0xC30C8EA1, 0x5A05DF1B, 0x2D02EF8D]"

definition crc_table1 :: "u32 list" where
  "crc_table1 = [
     0x00000000, 0x191B3141, 0x32366282, 0x2B2D53C3, 0x646CC504, 0x7D77F445, 0x565AA786, 0x4F4196C7,
     0xC8D98A08, 0xD1C2BB49, 0xFAEFE88A, 0xE3F4D9CB, 0xACB54F0C, 0xB5AE7E4D, 0x9E832D8E, 0x87981CCF,
     0x4AC21251, 0x53D92310, 0x78F470D3, 0x61EF4192, 0x2EAED755, 0x37B5E614, 0x1C98B5D7, 0x05838496,
     0x821B9859, 0x9B00A918, 0xB02DFADB, 0xA936CB9A, 0xE6775D5D, 0xFF6C6C1C, 0xD4413FDF, 0xCD5A0E9E,
     0x958424A2, 0x8C9F15E3, 0xA7B24620, 0xBEA97761, 0xF1E8E1A6, 0xE8F3D0E7, 0xC3DE8324, 0xDAC5B265,
     0x5D5DAEAA, 0x44469FEB, 0x6F6BCC28, 0x7670FD69, 0x39316BAE, 0x202A5AEF, 0x0B07092C, 0x121C386D,
     0xDF4636F3, 0xC65D07B2, 0xED705471, 0xF46B6530, 0xBB2AF3F7, 0xA231C2B6, 0x891C9175, 0x9007A034,
     0x179FBCFB, 0x0E848DBA, 0x25A9DE79, 0x3CB2EF38, 0x73F379FF, 0x6AE848BE, 0x41C51B7D, 0x58DE2A3C,
     0xF0794F05, 0xE9627E44, 0xC24F2D87, 0xDB541CC6, 0x94158A01, 0x8D0EBB40, 0xA623E883, 0xBF38D9C2,
     0x38A0C50D, 0x21BBF44C, 0x0A96A78F, 0x138D96CE, 0x5CCC0009, 0x45D73148, 0x6EFA628B, 0x77E153CA,
     0xBABB5D54, 0xA3A06C15, 0x888D3FD6, 0x91960E97, 0xDED79850, 0xC7CCA911, 0xECE1FAD2, 0xF5FACB93,
     0x7262D75C, 0x6B79E61D, 0x4054B5DE, 0x594F849F, 0x160E1258, 0x0F152319, 0x243870DA, 0x3D23419B,
     0x65FD6BA7, 0x7CE65AE6, 0x57CB0925, 0x4ED03864, 0x0191AEA3, 0x188A9FE2, 0x33A7CC21, 0x2ABCFD60,
     0xAD24E1AF, 0xB43FD0EE, 0x9F12832D, 0x8609B26C, 0xC94824AB, 0xD05315EA, 0xFB7E4629, 0xE2657768,
     0x2F3F79F6, 0x362448B7, 0x1D091B74, 0x04122A35, 0x4B53BCF2, 0x52488DB3, 0x7965DE70, 0x607EEF31,
     0xE7E6F3FE, 0xFEFDC2BF, 0xD5D0917C, 0xCCCBA03D, 0x838A36FA, 0x9A9107BB, 0xB1BC5478, 0xA8A76539,
     0x3B83984B, 0x2298A90A, 0x09B5FAC9, 0x10AECB88, 0x5FEF5D4F, 0x46F46C0E, 0x6DD93FCD, 0x74C20E8C,
     0xF35A1243, 0xEA412302, 0xC16C70C1, 0xD8774180, 0x9736D747, 0x8E2DE606, 0xA500B5C5, 0xBC1B8484,
     0x71418A1A, 0x685ABB5B, 0x4377E898, 0x5A6CD9D9, 0x152D4F1E, 0x0C367E5F, 0x271B2D9C, 0x3E001CDD,
     0xB9980012, 0xA0833153, 0x8BAE6290, 0x92B553D1, 0xDDF4C516, 0xC4EFF457, 0xEFC2A794, 0xF6D996D5,
     0xAE07BCE9, 0xB71C8DA8, 0x9C31DE6B, 0x852AEF2A, 0xCA6B79ED, 0xD37048AC, 0xF85D1B6F, 0xE1462A2E,
     0x66DE36E1, 0x7FC507A0, 0x54E85463, 0x4DF36522, 0x02B2F3E5, 0x1BA9C2A4, 0x30849167, 0x299FA026,
     0xE4C5AEB8, 0xFDDE9FF9, 0xD6F3CC3A, 0xCFE8FD7B, 0x80A96BBC, 0x99B25AFD, 0xB29F093E, 0xAB84387F,
     0x2C1C24B0, 0x350715F1, 0x1E2A4632, 0x07317773, 0x4870E1B4, 0x516BD0F5, 0x7A468336, 0x635DB277,
     0xCBFAD74E, 0xD2E1E60F, 0xF9CCB5CC, 0xE0D7848D, 0xAF96124A, 0xB68D230B, 0x9DA070C8, 0x84BB4189,
     0x03235D46, 0x1A386C07, 0x31153FC4, 0x280E0E85, 0x674F9842, 0x7E54A903, 0x5579FAC0, 0x4C62CB81,
     0x8138C51F, 0x9823F45E, 0xB30EA79D, 0xAA1596DC, 0xE554001B, 0xFC4F315A, 0xD7626299, 0xCE7953D8,
     0x49E14F17, 0x50FA7E56, 0x7BD72D95, 0x62CC1CD4, 0x2D8D8A13, 0x3496BB52, 0x1FBBE891, 0x06A0D9D0,
     0x5E7EF3EC, 0x4765C2AD, 0x6C48916E, 0x7553A02F, 0x3A1236E8, 0x230907A9, 0x0824546A, 0x113F652B,
     0x96A779E4, 0x8FBC48A5, 0xA4911B66, 0xBD8A2A27, 0xF2CBBCE0, 0xEBD08DA1, 0xC0FDDE62, 0xD9E6EF23,
     0x14BCE1BD, 0x0DA7D0FC, 0x268A833F, 0x3F91B27E, 0x70D024B9, 0x69CB15F8, 0x42E6463B, 0x5BFD777A,
     0xDC656BB5, 0xC57E5AF4, 0xEE530937, 0xF7483876, 0xB809AEB1, 0xA1129FF0, 0x8A3FCC33, 0x9324FD72]"

definition crc_table2 :: "u32 list" where
  "crc_table2 = [
     0x00000000, 0x01C26A37, 0x0384D46E, 0x0246BE59, 0x0709A8DC, 0x06CBC2EB, 0x048D7CB2, 0x054F1685,
     0x0E1351B8, 0x0FD13B8F, 0x0D9785D6, 0x0C55EFE1, 0x091AF964, 0x08D89353, 0x0A9E2D0A, 0x0B5C473D,
     0x1C26A370, 0x1DE4C947, 0x1FA2771E, 0x1E601D29, 0x1B2F0BAC, 0x1AED619B, 0x18ABDFC2, 0x1969B5F5,
     0x1235F2C8, 0x13F798FF, 0x11B126A6, 0x10734C91, 0x153C5A14, 0x14FE3023, 0x16B88E7A, 0x177AE44D,
     0x384D46E0, 0x398F2CD7, 0x3BC9928E, 0x3A0BF8B9, 0x3F44EE3C, 0x3E86840B, 0x3CC03A52, 0x3D025065,
     0x365E1758, 0x379C7D6F, 0x35DAC336, 0x3418A901, 0x3157BF84, 0x3095D5B3, 0x32D36BEA, 0x331101DD,
     0x246BE590, 0x25A98FA7, 0x27EF31FE, 0x262D5BC9, 0x23624D4C, 0x22A0277B, 0x20E69922, 0x2124F315,
     0x2A78B428, 0x2BBADE1F, 0x29FC6046, 0x283E0A71, 0x2D711CF4, 0x2CB376C3, 0x2EF5C89A, 0x2F37A2AD,
     0x709A8DC0, 0x7158E7F7, 0x731E59AE, 0x72DC3399, 0x7793251C, 0x76514F2B, 0x7417F172, 0x75D59B45,
     0x7E89DC78, 0x7F4BB64F, 0x7D0D0816, 0x7CCF6221, 0x798074A4, 0x78421E93, 0x7A04A0CA, 0x7BC6CAFD,
     0x6CBC2EB0, 0x6D7E4487, 0x6F38FADE, 0x6EFA90E9, 0x6BB5866C, 0x6A77EC5B, 0x68315202, 0x69F33835,
     0x62AF7F08, 0x636D153F, 0x612BAB66, 0x60E9C151, 0x65A6D7D4, 0x6464BDE3, 0x662203BA, 0x67E0698D,
     0x48D7CB20, 0x4915A117, 0x4B531F4E, 0x4A917579, 0x4FDE63FC, 0x4E1C09CB, 0x4C5AB792, 0x4D98DDA5,
     0x46C49A98, 0x4706F0AF, 0x45404EF6, 0x448224C1, 0x41CD3244, 0x400F5873, 0x4249E62A, 0x438B8C1D,
     0x54F16850, 0x55330267, 0x5775BC3E, 0x56B7D609, 0x53F8C08C, 0x523AAABB, 0x507C14E2, 0x51BE7ED5,
     0x5AE239E8, 0x5B2053DF, 0x5966ED86, 0x58A487B1, 0x5DEB9134, 0x5C29FB03, 0x5E6F455A, 0x5FAD2F6D,
     0xE1351B80, 0xE0F771B7, 0xE2B1CFEE, 0xE373A5D9, 0xE63CB35C, 0xE7FED96B, 0xE5B86732, 0xE47A0D05,
     0xEF264A38, 0xEEE4200F, 0xECA29E56, 0xED60F461, 0xE82FE2E4, 0xE9ED88D3, 0xEBAB368A, 0xEA695CBD,
     0xFD13B8F0, 0xFCD1D2C7, 0xFE976C9E, 0xFF5506A9, 0xFA1A102C, 0xFBD87A1B, 0xF99EC442, 0xF85CAE75,
     0xF300E948, 0xF2C2837F, 0xF0843D26, 0xF1465711, 0xF4094194, 0xF5CB2BA3, 0xF78D95FA, 0xF64FFFCD,
     0xD9785D60, 0xD8BA3757, 0xDAFC890E, 0xDB3EE339, 0xDE71F5BC, 0xDFB39F8B, 0xDDF521D2, 0xDC374BE5,
     0xD76B0CD8, 0xD6A966EF, 0xD4EFD8B6, 0xD52DB281, 0xD062A404, 0xD1A0CE33, 0xD3E6706A, 0xD2241A5D,
     0xC55EFE10, 0xC49C9427, 0xC6DA2A7E, 0xC7184049, 0xC25756CC, 0xC3953CFB, 0xC1D382A2, 0xC011E895,
     0xCB4DAFA8, 0xCA8FC59F, 0xC8C97BC6, 0xC90B11F1, 0xCC440774, 0xCD866D43, 0xCFC0D31A, 0xCE02B92D,
     0x91AF9640, 0x906DFC77, 0x922B422E, 0x93E92819, 0x96A63E9C, 0x976454AB, 0x9522EAF2, 0x94E080C5,
     0x9FBCC7F8, 0x9E7EADCF, 0x9C381396, 0x9DFA79A1, 0x98B56F24, 0x99770513, 0x9B31BB4A, 0x9AF3D17D,
     0x8D893530, 0x8C4B5F07, 0x8E0DE15E, 0x8FCF8B69, 0x8A809DEC, 0x8B42F7DB, 0x89044982, 0x88C623B5,
     0x839A6488, 0x82580EBF, 0x801EB0E6, 0x81DCDAD1, 0x8493CC54, 0x8551A663, 0x8717183A, 0x86D5720D,
     0xA9E2D0A0, 0xA820BA97, 0xAA6604CE, 0xABA46EF9, 0xAEEB787C, 0xAF29124B, 0xAD6FAC12, 0xACADC625,
     0xA7F18118, 0xA633EB2F, 0xA4755576, 0xA5B73F41, 0xA0F829C4, 0xA13A43F3, 0xA37CFDAA, 0xA2BE979D,
     0xB5C473D0, 0xB40619E7, 0xB640A7BE, 0xB782CD89, 0xB2CDDB0C, 0xB30FB13B, 0xB1490F62, 0xB08B6555,
     0xBBD72268, 0xBA15485F, 0xB853F606, 0xB9919C31, 0xBCDE8AB4, 0xBD1CE083, 0xBF5A5EDA, 0xBE9834ED]"

definition crc_table3 :: "u32 list" where
  "crc_table3 = [
     0x00000000, 0xB8BC6765, 0xAA09C88B, 0x12B5AFEE, 0x8F629757, 0x37DEF032, 0x256B5FDC, 0x9DD738B9,
     0xC5B428EF, 0x7D084F8A, 0x6FBDE064, 0xD7018701, 0x4AD6BFB8, 0xF26AD8DD, 0xE0DF7733, 0x58631056,
     0x5019579F, 0xE8A530FA, 0xFA109F14, 0x42ACF871, 0xDF7BC0C8, 0x67C7A7AD, 0x75720843, 0xCDCE6F26,
     0x95AD7F70, 0x2D111815, 0x3FA4B7FB, 0x8718D09E, 0x1ACFE827, 0xA2738F42, 0xB0C620AC, 0x087A47C9,
     0xA032AF3E, 0x188EC85B, 0x0A3B67B5, 0xB28700D0, 0x2F503869, 0x97EC5F0C, 0x8559F0E2, 0x3DE59787,
     0x658687D1, 0xDD3AE0B4, 0xCF8F4F5A, 0x7733283F, 0xEAE41086, 0x525877E3, 0x40EDD80D, 0xF851BF68,
     0xF02BF8A1, 0x48979FC4, 0x5A22302A, 0xE29E574F, 0x7F496FF6, 0xC7F50893, 0xD540A77D, 0x6DFCC018,
     0x359FD04E, 0x8D23B72B, 0x9F9618C5, 0x272A7FA0, 0xBAFD4719, 0x0241207C, 0x10F48F92, 0xA848E8F7,
     0x9B14583D, 0x23A83F58, 0x311D90B6, 0x89A1F7D3, 0x1476CF6A, 0xACCAA80F, 0xBE7F07E1, 0x06C36084,
     0x5EA070D2, 0xE61C17B7, 0xF4A9B859, 0x4C15DF3C, 0xD1C2E785, 0x697E80E0, 0x7BCB2F0E, 0xC377486B,
     0xCB0D0FA2, 0x73B168C7, 0x6104C729, 0xD9B8A04C, 0x446F98F5, 0xFCD3FF90, 0xEE66507E, 0x56DA371B,
     0x0EB9274D, 0xB6054028, 0xA4B0EFC6, 0x1C0C88A3, 0x81DBB01A, 0x3967D77F, 0x2BD27891, 0x936E1FF4,
     0x3B26F703, 0x839A9066, 0x912F3F88, 0x299358ED, 0xB4446054, 0x0CF80731, 0x1E4DA8DF, 0xA6F1CFBA,
     0xFE92DFEC, 0x462EB889, 0x549B1767, 0xEC277002, 0x71F048BB, 0xC94C2FDE, 0xDBF98030, 0x6345E755,
     0x6B3FA09C, 0xD383C7F9, 0xC1366817, 0x798A0F72, 0xE45D37CB, 0x5CE150AE, 0x4E54FF40, 0xF6E89825,
     0xAE8B8873, 0x1637EF16, 0x048240F8, 0xBC3E279D, 0x21E91F24, 0x99557841, 0x8BE0D7AF, 0x335CB0CA,
     0xED59B63B, 0x55E5D15E, 0x47507EB0, 0xFFEC19D5, 0x623B216C, 0xDA874609, 0xC832E9E7, 0x708E8E82,
     0x28ED9ED4, 0x9051F9B1, 0x82E4565F, 0x3A58313A, 0xA78F0983, 0x1F336EE6, 0x0D86C108, 0xB53AA66D,
     0xBD40E1A4, 0x05FC86C1, 0x1749292F, 0xAFF54E4A, 0x322276F3, 0x8A9E1196, 0x982BBE78, 0x2097D91D,
     0x78F4C94B, 0xC048AE2E, 0xD2FD01C0, 0x6A4166A5, 0xF7965E1C, 0x4F2A3979, 0x5D9F9697, 0xE523F1F2,
     0x4D6B1905, 0xF5D77E60, 0xE762D18E, 0x5FDEB6EB, 0xC2098E52, 0x7AB5E937, 0x680046D9, 0xD0BC21BC,
     0x88DF31EA, 0x3063568F, 0x22D6F961, 0x9A6A9E04, 0x07BDA6BD, 0xBF01C1D8, 0xADB46E36, 0x15080953,
     0x1D724E9A, 0xA5CE29FF, 0xB77B8611, 0x0FC7E174, 0x9210D9CD, 0x2AACBEA8, 0x38191146, 0x80A57623,
     0xD8C66675, 0x607A0110, 0x72CFAEFE, 0xCA73C99B, 0x57A4F122, 0xEF189647, 0xFDAD39A9, 0x45115ECC,
     0x764DEE06, 0xCEF18963, 0xDC44268D, 0x64F841E8, 0xF92F7951, 0x41931E34, 0x5326B1DA, 0xEB9AD6BF,
     0xB3F9C6E9, 0x0B45A18C, 0x19F00E62, 0xA14C6907, 0x3C9B51BE, 0x842736DB, 0x96929935, 0x2E2EFE50,
     0x2654B999, 0x9EE8DEFC, 0x8C5D7112, 0x34E11677, 0xA9362ECE, 0x118A49AB, 0x033FE645, 0xBB838120,
     0xE3E09176, 0x5B5CF613, 0x49E959FD, 0xF1553E98, 0x6C820621, 0xD43E6144, 0xC68BCEAA, 0x7E37A9CF,
     0xD67F4138, 0x6EC3265D, 0x7C7689B3, 0xC4CAEED6, 0x591DD66F, 0xE1A1B10A, 0xF3141EE4, 0x4BA87981,
     0x13CB69D7, 0xAB770EB2, 0xB9C2A15C, 0x017EC639, 0x9CA9FE80, 0x241599E5, 0x36A0360B, 0x8E1C516E,
     0x866616A7, 0x3EDA71C2, 0x2C6FDE2C, 0x94D3B949, 0x090481F0, 0xB1B8E695, 0xA30D497B, 0x1BB12E1E,
     0x43D23E48, 0xFB6E592D, 0xE9DBF6C3, 0x516791A6, 0xCCB0A91F, 0x740CCE7A, 0x66B96194, 0xDE0506F1]"

definition crc_table4 :: "u32 list" where
  "crc_table4 = [
     0x00000000, 0x96300777, 0x2C610EEE, 0xBA510999, 0x19C46D07, 0x8FF46A70, 0x35A563E9, 0xA395649E,
     0x3288DB0E, 0xA4B8DC79, 0x1EE9D5E0, 0x88D9D297, 0x2B4CB609, 0xBD7CB17E, 0x072DB8E7, 0x911DBF90,
     0x6410B71D, 0xF220B06A, 0x4871B9F3, 0xDE41BE84, 0x7DD4DA1A, 0xEBE4DD6D, 0x51B5D4F4, 0xC785D383,
     0x56986C13, 0xC0A86B64, 0x7AF962FD, 0xECC9658A, 0x4F5C0114, 0xD96C0663, 0x633D0FFA, 0xF50D088D,
     0xC8206E3B, 0x5E10694C, 0xE44160D5, 0x727167A2, 0xD1E4033C, 0x47D4044B, 0xFD850DD2, 0x6BB50AA5,
     0xFAA8B535, 0x6C98B242, 0xD6C9BBDB, 0x40F9BCAC, 0xE36CD832, 0x755CDF45, 0xCF0DD6DC, 0x593DD1AB,
     0xAC30D926, 0x3A00DE51, 0x8051D7C8, 0x1661D0BF, 0xB5F4B421, 0x23C4B356, 0x9995BACF, 0x0FA5BDB8,
     0x9EB80228, 0x0888055F, 0xB2D90CC6, 0x24E90BB1, 0x877C6F2F, 0x114C6858, 0xAB1D61C1, 0x3D2D66B6,
     0x9041DC76, 0x0671DB01, 0xBC20D298, 0x2A10D5EF, 0x8985B171, 0x1FB5B606, 0xA5E4BF9F, 0x33D4B8E8,
     0xA2C90778, 0x34F9000F, 0x8EA80996, 0x18980EE1, 0xBB0D6A7F, 0x2D3D6D08, 0x976C6491, 0x015C63E6,
     0xF4516B6B, 0x62616C1C, 0xD8306585, 0x4E0062F2, 0xED95066C, 0x7BA5011B, 0xC1F40882, 0x57C40FF5,
     0xC6D9B065, 0x50E9B712, 0xEAB8BE8B, 0x7C88B9FC, 0xDF1DDD62, 0x492DDA15, 0xF37CD38C, 0x654CD4FB,
     0x5861B24D, 0xCE51B53A, 0x7400BCA3, 0xE230BBD4, 0x41A5DF4A, 0xD795D83D, 0x6DC4D1A4, 0xFBF4D6D3,
     0x6AE96943, 0xFCD96E34, 0x468867AD, 0xD0B860DA, 0x732D0444, 0xE51D0333, 0x5F4C0AAA, 0xC97C0DDD,
     0x3C710550, 0xAA410227, 0x10100BBE, 0x86200CC9, 0x25B56857, 0xB3856F20, 0x09D466B9, 0x9FE461CE,
     0x0EF9DE5E, 0x98C9D929, 0x2298D0B0, 0xB4A8D7C7, 0x173DB359, 0x810DB42E, 0x3B5CBDB7, 0xAD6CBAC0,
     0x2083B8ED, 0xB6B3BF9A, 0x0CE2B603, 0x9AD2B174, 0x3947D5EA, 0xAF77D29D, 0x1526DB04, 0x8316DC73,
     0x120B63E3, 0x843B6494, 0x3E6A6D0D, 0xA85A6A7A, 0x0BCF0EE4, 0x9DFF0993, 0x27AE000A, 0xB19E077D,
     0x44930FF0, 0xD2A30887, 0x68F2011E, 0xFEC20669, 0x5D5762F7, 0xCB676580, 0x71366C19, 0xE7066B6E,
     0x761BD4FE, 0xE02BD389, 0x5A7ADA10, 0xCC4ADD67, 0x6FDFB9F9, 0xF9EFBE8E, 0x43BEB717, 0xD58EB060,
     0xE8A3D6D6, 0x7E93D1A1, 0xC4C2D838, 0x52F2DF4F, 0xF167BBD1, 0x6757BCA6, 0xDD06B53F, 0x4B36B248,
     0xDA2B0DD8, 0x4C1B0AAF, 0xF64A0336, 0x607A0441, 0xC3EF60DF, 0x55DF67A8, 0xEF8E6E31, 0x79BE6946,
     0x8CB361CB, 0x1A8366BC, 0xA0D26F25, 0x36E26852, 0x95770CCC, 0x03470BBB, 0xB9160222, 0x2F260555,
     0xBE3BBAC5, 0x280BBDB2, 0x925AB42B, 0x046AB35C, 0xA7FFD7C2, 0x31CFD0B5, 0x8B9ED92C, 0x1DAEDE5B,
     0xB0C2649B, 0x26F263EC, 0x9CA36A75, 0x0A936D02, 0xA906099C, 0x3F360EEB, 0x85670772, 0x13570005,
     0x824ABF95, 0x147AB8E2, 0xAE2BB17B, 0x381BB60C, 0x9B8ED292, 0x0DBED5E5, 0xB7EFDC7C, 0x21DFDB0B,
     0xD4D2D386, 0x42E2D4F1, 0xF8B3DD68, 0x6E83DA1F, 0xCD16BE81, 0x5B26B9F6, 0xE177B06F, 0x7747B718,
     0xE65A0888, 0x706A0FFF, 0xCA3B0666, 0x5C0B0111, 0xFF9E658F, 0x69AE62F8, 0xD3FF6B61, 0x45CF6C16,
     0x78E20AA0, 0xEED20DD7, 0x5483044E, 0xC2B30339, 0x612667A7, 0xF71660D0, 0x4D476949, 0xDB776E3E,
     0x4A6AD1AE, 0xDC5AD6D9, 0x660BDF40, 0xF03BD837, 0x53AEBCA9, 0xC59EBBDE, 0x7FCFB247, 0xE9FFB530,
     0x1CF2BDBD, 0x8AC2BACA, 0x3093B353, 0xA6A3B424, 0x0536D0BA, 0x9306D7CD, 0x2957DE54, 0xBF67D923,
     0x2E7A66B3, 0xB84A61C4, 0x021B685D, 0x942B6F2A, 0x37BE0BB4, 0xA18E0CC3, 0x1BDF055A, 0x8DEF022D]"

definition crc_table5 :: "u32 list" where
  "crc_table5 = [
     0x00000000, 0x41311B19, 0x82623632, 0xC3532D2B, 0x04C56C64, 0x45F4777D, 0x86A75A56, 0xC796414F,
     0x088AD9C8, 0x49BBC2D1, 0x8AE8EFFA, 0xCBD9F4E3, 0x0C4FB5AC, 0x4D7EAEB5, 0x8E2D839E, 0xCF1C9887,
     0x5112C24A, 0x1023D953, 0xD370F478, 0x9241EF61, 0x55D7AE2E, 0x14E6B537, 0xD7B5981C, 0x96848305,
     0x59981B82, 0x18A9009B, 0xDBFA2DB0, 0x9ACB36A9, 0x5D5D77E6, 0x1C6C6CFF, 0xDF3F41D4, 0x9E0E5ACD,
     0xA2248495, 0xE3159F8C, 0x2046B2A7, 0x6177A9BE, 0xA6E1E8F1, 0xE7D0F3E8, 0x2483DEC3, 0x65B2C5DA,
     0xAAAE5D5D, 0xEB9F4644, 0x28CC6B6F, 0x69FD7076, 0xAE6B3139, 0xEF5A2A20, 0x2C09070B, 0x6D381C12,
     0xF33646DF, 0xB2075DC6, 0x715470ED, 0x30656BF4, 0xF7F32ABB, 0xB6C231A2, 0x75911C89, 0x34A00790,
     0xFBBC9F17, 0xBA8D840E, 0x79DEA925, 0x38EFB23C, 0xFF79F373, 0xBE48E86A, 0x7D1BC541, 0x3C2ADE58,
     0x054F79F0, 0x447E62E9, 0x872D4FC2, 0xC61C54DB, 0x018A1594, 0x40BB0E8D, 0x83E823A6, 0xC2D938BF,
     0x0DC5A038, 0x4CF4BB21, 0x8FA7960A, 0xCE968D13, 0x0900CC5C, 0x4831D745, 0x8B62FA6E, 0xCA53E177,
     0x545DBBBA, 0x156CA0A3, 0xD63F8D88, 0x970E9691, 0x5098D7DE, 0x11A9CCC7, 0xD2FAE1EC, 0x93CBFAF5,
     0x5CD76272, 0x1DE6796B, 0xDEB55440, 0x9F844F59, 0x58120E16, 0x1923150F, 0xDA703824, 0x9B41233D,
     0xA76BFD65, 0xE65AE67C, 0x2509CB57, 0x6438D04E, 0xA3AE9101, 0xE29F8A18, 0x21CCA733, 0x60FDBC2A,
     0xAFE124AD, 0xEED03FB4, 0x2D83129F, 0x6CB20986, 0xAB2448C9, 0xEA1553D0, 0x29467EFB, 0x687765E2,
     0xF6793F2F, 0xB7482436, 0x741B091D, 0x352A1204, 0xF2BC534B, 0xB38D4852, 0x70DE6579, 0x31EF7E60,
     0xFEF3E6E7, 0xBFC2FDFE, 0x7C91D0D5, 0x3DA0CBCC, 0xFA368A83, 0xBB07919A, 0x7854BCB1, 0x3965A7A8,
     0x4B98833B, 0x0AA99822, 0xC9FAB509, 0x88CBAE10, 0x4F5DEF5F, 0x0E6CF446, 0xCD3FD96D, 0x8C0EC274,
     0x43125AF3, 0x022341EA, 0xC1706CC1, 0x804177D8, 0x47D73697, 0x06E62D8E, 0xC5B500A5, 0x84841BBC,
     0x1A8A4171, 0x5BBB5A68, 0x98E87743, 0xD9D96C5A, 0x1E4F2D15, 0x5F7E360C, 0x9C2D1B27, 0xDD1C003E,
     0x120098B9, 0x533183A0, 0x9062AE8B, 0xD153B592, 0x16C5F4DD, 0x57F4EFC4, 0x94A7C2EF, 0xD596D9F6,
     0xE9BC07AE, 0xA88D1CB7, 0x6BDE319C, 0x2AEF2A85, 0xED796BCA, 0xAC4870D3, 0x6F1B5DF8, 0x2E2A46E1,
     0xE136DE66, 0xA007C57F, 0x6354E854, 0x2265F34D, 0xE5F3B202, 0xA4C2A91B, 0x67918430, 0x26A09F29,
     0xB8AEC5E4, 0xF99FDEFD, 0x3ACCF3D6, 0x7BFDE8CF, 0xBC6BA980, 0xFD5AB299, 0x3E099FB2, 0x7F3884AB,
     0xB0241C2C, 0xF1150735, 0x32462A1E, 0x73773107, 0xB4E17048, 0xF5D06B51, 0x3683467A, 0x77B25D63,
     0x4ED7FACB, 0x0FE6E1D2, 0xCCB5CCF9, 0x8D84D7E0, 0x4A1296AF, 0x0B238DB6, 0xC870A09D, 0x8941BB84,
     0x465D2303, 0x076C381A, 0xC43F1531, 0x850E0E28, 0x42984F67, 0x03A9547E, 0xC0FA7955, 0x81CB624C,
     0x1FC53881, 0x5EF42398, 0x9DA70EB3, 0xDC9615AA, 0x1B0054E5, 0x5A314FFC, 0x996262D7, 0xD85379CE,
     0x174FE149, 0x567EFA50, 0x952DD77B, 0xD41CCC62, 0x138A8D2D, 0x52BB9634, 0x91E8BB1F, 0xD0D9A006,
     0xECF37E5E, 0xADC26547, 0x6E91486C, 0x2FA05375, 0xE836123A, 0xA9070923, 0x6A542408, 0x2B653F11,
     0xE479A796, 0xA548BC8F, 0x661B91A4, 0x272A8ABD, 0xE0BCCBF2, 0xA18DD0EB, 0x62DEFDC0, 0x23EFE6D9,
     0xBDE1BC14, 0xFCD0A70D, 0x3F838A26, 0x7EB2913F, 0xB924D070, 0xF815CB69, 0x3B46E642, 0x7A77FD5B,
     0xB56B65DC, 0xF45A7EC5, 0x370953EE, 0x763848F7, 0xB1AE09B8, 0xF09F12A1, 0x33CC3F8A, 0x72FD2493]"

definition crc_table6 :: "u32 list" where
  "crc_table6 = [
     0x00000000, 0x376AC201, 0x6ED48403, 0x59BE4602, 0xDCA80907, 0xEBC2CB06, 0xB27C8D04, 0x85164F05,
     0xB851130E, 0x8F3BD10F, 0xD685970D, 0xE1EF550C, 0x64F91A09, 0x5393D808, 0x0A2D9E0A, 0x3D475C0B,
     0x70A3261C, 0x47C9E41D, 0x1E77A21F, 0x291D601E, 0xAC0B2F1B, 0x9B61ED1A, 0xC2DFAB18, 0xF5B56919,
     0xC8F23512, 0xFF98F713, 0xA626B111, 0x914C7310, 0x145A3C15, 0x2330FE14, 0x7A8EB816, 0x4DE47A17,
     0xE0464D38, 0xD72C8F39, 0x8E92C93B, 0xB9F80B3A, 0x3CEE443F, 0x0B84863E, 0x523AC03C, 0x6550023D,
     0x58175E36, 0x6F7D9C37, 0x36C3DA35, 0x01A91834, 0x84BF5731, 0xB3D59530, 0xEA6BD332, 0xDD011133,
     0x90E56B24, 0xA78FA925, 0xFE31EF27, 0xC95B2D26, 0x4C4D6223, 0x7B27A022, 0x2299E620, 0x15F32421,
     0x28B4782A, 0x1FDEBA2B, 0x4660FC29, 0x710A3E28, 0xF41C712D, 0xC376B32C, 0x9AC8F52E, 0xADA2372F,
     0xC08D9A70, 0xF7E75871, 0xAE591E73, 0x9933DC72, 0x1C259377, 0x2B4F5176, 0x72F11774, 0x459BD575,
     0x78DC897E, 0x4FB64B7F, 0x16080D7D, 0x2162CF7C, 0xA4748079, 0x931E4278, 0xCAA0047A, 0xFDCAC67B,
     0xB02EBC6C, 0x87447E6D, 0xDEFA386F, 0xE990FA6E, 0x6C86B56B, 0x5BEC776A, 0x02523168, 0x3538F369,
     0x087FAF62, 0x3F156D63, 0x66AB2B61, 0x51C1E960, 0xD4D7A665, 0xE3BD6464, 0xBA032266, 0x8D69E067,
     0x20CBD748, 0x17A11549, 0x4E1F534B, 0x7975914A, 0xFC63DE4F, 0xCB091C4E, 0x92B75A4C, 0xA5DD984D,
     0x989AC446, 0xAFF00647, 0xF64E4045, 0xC1248244, 0x4432CD41, 0x73580F40, 0x2AE64942, 0x1D8C8B43,
     0x5068F154, 0x67023355, 0x3EBC7557, 0x09D6B756, 0x8CC0F853, 0xBBAA3A52, 0xE2147C50, 0xD57EBE51,
     0xE839E25A, 0xDF53205B, 0x86ED6659, 0xB187A458, 0x3491EB5D, 0x03FB295C, 0x5A456F5E, 0x6D2FAD5F,
     0x801B35E1, 0xB771F7E0, 0xEECFB1E2, 0xD9A573E3, 0x5CB33CE6, 0x6BD9FEE7, 0x3267B8E5, 0x050D7AE4,
     0x384A26EF, 0x0F20E4EE, 0x569EA2EC, 0x61F460ED, 0xE4E22FE8, 0xD388EDE9, 0x8A36ABEB, 0xBD5C69EA,
     0xF0B813FD, 0xC7D2D1FC, 0x9E6C97FE, 0xA90655FF, 0x2C101AFA, 0x1B7AD8FB, 0x42C49EF9, 0x75AE5CF8,
     0x48E900F3, 0x7F83C2F2, 0x263D84F0, 0x115746F1, 0x944109F4, 0xA32BCBF5, 0xFA958DF7, 0xCDFF4FF6,
     0x605D78D9, 0x5737BAD8, 0x0E89FCDA, 0x39E33EDB, 0xBCF571DE, 0x8B9FB3DF, 0xD221F5DD, 0xE54B37DC,
     0xD80C6BD7, 0xEF66A9D6, 0xB6D8EFD4, 0x81B22DD5, 0x04A462D0, 0x33CEA0D1, 0x6A70E6D3, 0x5D1A24D2,
     0x10FE5EC5, 0x27949CC4, 0x7E2ADAC6, 0x494018C7, 0xCC5657C2, 0xFB3C95C3, 0xA282D3C1, 0x95E811C0,
     0xA8AF4DCB, 0x9FC58FCA, 0xC67BC9C8, 0xF1110BC9, 0x740744CC, 0x436D86CD, 0x1AD3C0CF, 0x2DB902CE,
     0x4096AF91, 0x77FC6D90, 0x2E422B92, 0x1928E993, 0x9C3EA696, 0xAB546497, 0xF2EA2295, 0xC580E094,
     0xF8C7BC9F, 0xCFAD7E9E, 0x9613389C, 0xA179FA9D, 0x246FB598, 0x13057799, 0x4ABB319B, 0x7DD1F39A,
     0x3035898D, 0x075F4B8C, 0x5EE10D8E, 0x698BCF8F, 0xEC9D808A, 0xDBF7428B, 0x82490489, 0xB523C688,
     0x88649A83, 0xBF0E5882, 0xE6B01E80, 0xD1DADC81, 0x54CC9384, 0x63A65185, 0x3A181787, 0x0D72D586,
     0xA0D0E2A9, 0x97BA20A8, 0xCE0466AA, 0xF96EA4AB, 0x7C78EBAE, 0x4B1229AF, 0x12AC6FAD, 0x25C6ADAC,
     0x1881F1A7, 0x2FEB33A6, 0x765575A4, 0x413FB7A5, 0xC429F8A0, 0xF3433AA1, 0xAAFD7CA3, 0x9D97BEA2,
     0xD073C4B5, 0xE71906B4, 0xBEA740B6, 0x89CD82B7, 0x0CDBCDB2, 0x3BB10FB3, 0x620F49B1, 0x55658BB0,
     0x6822D7BB, 0x5F4815BA, 0x06F653B8, 0x319C91B9, 0xB48ADEBC, 0x83E01CBD, 0xDA5E5ABF, 0xED3498BE]"

definition crc_table7 :: "u32 list" where
  "crc_table7 = [
     0x00000000, 0x6567BCB8, 0x8BC809AA, 0xEEAFB512, 0x5797628F, 0x32F0DE37, 0xDC5F6B25, 0xB938D79D,
     0xEF28B4C5, 0x8A4F087D, 0x64E0BD6F, 0x018701D7, 0xB8BFD64A, 0xDDD86AF2, 0x3377DFE0, 0x56106358,
     0x9F571950, 0xFA30A5E8, 0x149F10FA, 0x71F8AC42, 0xC8C07BDF, 0xADA7C767, 0x43087275, 0x266FCECD,
     0x707FAD95, 0x1518112D, 0xFBB7A43F, 0x9ED01887, 0x27E8CF1A, 0x428F73A2, 0xAC20C6B0, 0xC9477A08,
     0x3EAF32A0, 0x5BC88E18, 0xB5673B0A, 0xD00087B2, 0x6938502F, 0x0C5FEC97, 0xE2F05985, 0x8797E53D,
     0xD1878665, 0xB4E03ADD, 0x5A4F8FCF, 0x3F283377, 0x8610E4EA, 0xE3775852, 0x0DD8ED40, 0x68BF51F8,
     0xA1F82BF0, 0xC49F9748, 0x2A30225A, 0x4F579EE2, 0xF66F497F, 0x9308F5C7, 0x7DA740D5, 0x18C0FC6D,
     0x4ED09F35, 0x2BB7238D, 0xC518969F, 0xA07F2A27, 0x1947FDBA, 0x7C204102, 0x928FF410, 0xF7E848A8,
     0x3D58149B, 0x583FA823, 0xB6901D31, 0xD3F7A189, 0x6ACF7614, 0x0FA8CAAC, 0xE1077FBE, 0x8460C306,
     0xD270A05E, 0xB7171CE6, 0x59B8A9F4, 0x3CDF154C, 0x85E7C2D1, 0xE0807E69, 0x0E2FCB7B, 0x6B4877C3,
     0xA20F0DCB, 0xC768B173, 0x29C70461, 0x4CA0B8D9, 0xF5986F44, 0x90FFD3FC, 0x7E5066EE, 0x1B37DA56,
     0x4D27B90E, 0x284005B6, 0xC6EFB0A4, 0xA3880C1C, 0x1AB0DB81, 0x7FD76739, 0x9178D22B, 0xF41F6E93,
     0x03F7263B, 0x66909A83, 0x883F2F91, 0xED589329, 0x546044B4, 0x3107F80C, 0xDFA84D1E, 0xBACFF1A6,
     0xECDF92FE, 0x89B82E46, 0x67179B54, 0x027027EC, 0xBB48F071, 0xDE2F4CC9, 0x3080F9DB, 0x55E74563,
     0x9CA03F6B, 0xF9C783D3, 0x176836C1, 0x720F8A79, 0xCB375DE4, 0xAE50E15C, 0x40FF544E, 0x2598E8F6,
     0x73888BAE, 0x16EF3716, 0xF8408204, 0x9D273EBC, 0x241FE921, 0x41785599, 0xAFD7E08B, 0xCAB05C33,
     0x3BB659ED, 0x5ED1E555, 0xB07E5047, 0xD519ECFF, 0x6C213B62, 0x094687DA, 0xE7E932C8, 0x828E8E70,
     0xD49EED28, 0xB1F95190, 0x5F56E482, 0x3A31583A, 0x83098FA7, 0xE66E331F, 0x08C1860D, 0x6DA63AB5,
     0xA4E140BD, 0xC186FC05, 0x2F294917, 0x4A4EF5AF, 0xF3762232, 0x96119E8A, 0x78BE2B98, 0x1DD99720,
     0x4BC9F478, 0x2EAE48C0, 0xC001FDD2, 0xA566416A, 0x1C5E96F7, 0x79392A4F, 0x97969F5D, 0xF2F123E5,
     0x05196B4D, 0x607ED7F5, 0x8ED162E7, 0xEBB6DE5F, 0x528E09C2, 0x37E9B57A, 0xD9460068, 0xBC21BCD0,
     0xEA31DF88, 0x8F566330, 0x61F9D622, 0x049E6A9A, 0xBDA6BD07, 0xD8C101BF, 0x366EB4AD, 0x53090815,
     0x9A4E721D, 0xFF29CEA5, 0x11867BB7, 0x74E1C70F, 0xCDD91092, 0xA8BEAC2A, 0x46111938, 0x2376A580,
     0x7566C6D8, 0x10017A60, 0xFEAECF72, 0x9BC973CA, 0x22F1A457, 0x479618EF, 0xA939ADFD, 0xCC5E1145,
     0x06EE4D76, 0x6389F1CE, 0x8D2644DC, 0xE841F864, 0x51792FF9, 0x341E9341, 0xDAB12653, 0xBFD69AEB,
     0xE9C6F9B3, 0x8CA1450B, 0x620EF019, 0x07694CA1, 0xBE519B3C, 0xDB362784, 0x35999296, 0x50FE2E2E,
     0x99B95426, 0xFCDEE89E, 0x12715D8C, 0x7716E134, 0xCE2E36A9, 0xAB498A11, 0x45E63F03, 0x208183BB,
     0x7691E0E3, 0x13F65C5B, 0xFD59E949, 0x983E55F1, 0x2106826C, 0x44613ED4, 0xAACE8BC6, 0xCFA9377E,
     0x38417FD6, 0x5D26C36E, 0xB389767C, 0xD6EECAC4, 0x6FD61D59, 0x0AB1A1E1, 0xE41E14F3, 0x8179A84B,
     0xD769CB13, 0xB20E77AB, 0x5CA1C2B9, 0x39C67E01, 0x80FEA99C, 0xE5991524, 0x0B36A036, 0x6E511C8E,
     0xA7166686, 0xC271DA3E, 0x2CDE6F2C, 0x49B9D394, 0xF0810409, 0x95E6B8B1, 0x7B490DA3, 0x1E2EB11B,
     0x483ED243, 0x2D596EFB, 0xC3F6DBE9, 0xA6916751, 0x1FA9B0CC, 0x7ACE0C74, 0x9461B966, 0xF10605DE]"

definition crc_table :: "u32 list list" where
  "crc_table = [crc_table0, crc_table1, crc_table2, crc_table3,
     crc_table4, crc_table5, crc_table6, crc_table7]"

section \<open>The loops\<close>

definition crc_do1 :: "u32 \<Rightarrow> u8 \<Rightarrow> u32" where
  "crc_do1 crc b = crc_table0 ! unat ((crc XOR ucast b) AND 0xFF) XOR drop_bit 8 crc"

fun crc_do8 :: "u32 \<Rightarrow> bytes \<Rightarrow> u32" where
  "crc_do8 crc buf =
     (if length buf \<ge> 8 then crc_do8 (foldl crc_do1 crc (take 8 buf)) (drop 8 buf)
      else foldl crc_do1 crc buf)"

declare crc_do8.simps [simp del]

definition crc32_bytewise :: "u32 \<Rightarrow> bytes \<Rightarrow> u32" where
  "crc32_bytewise crc buf = crc_do8 (crc XOR 0xFFFFFFFF) buf XOR 0xFFFFFFFF"

text \<open>The bytes before the first address that is a multiple of 4.\<close>

fun crc_align :: "('a \<Rightarrow> u8 \<Rightarrow> 'a) \<Rightarrow> nat \<Rightarrow> 'a \<Rightarrow> bytes \<Rightarrow> 'a \<times> bytes" where
  "crc_align do1 addr c [] = (c, [])"
| "crc_align do1 addr c (b # buf) =
     (if addr mod 4 \<noteq> 0 then crc_align do1 (Suc addr) (do1 c b) buf else (c, b # buf))"

fun crc_words :: "('a \<Rightarrow> bytes \<Rightarrow> 'a) \<Rightarrow> ('a \<Rightarrow> u8 \<Rightarrow> 'a) \<Rightarrow> 'a \<Rightarrow> bytes \<Rightarrow> 'a" where
  "crc_words do4 do1 c (a # b # d # e # buf) = crc_words do4 do1 (do4 c [a, b, d, e]) buf"
| "crc_words do4 do1 c buf = foldl do1 c buf"

text \<open>\<open>DOLIT32\<close> and \<open>DOBIG32\<close> are eight steps of four bytes.\<close>

fun crc_blocks :: "('a \<Rightarrow> bytes \<Rightarrow> 'a) \<Rightarrow> ('a \<Rightarrow> u8 \<Rightarrow> 'a) \<Rightarrow> 'a \<Rightarrow> bytes \<Rightarrow> 'a" where
  "crc_blocks do4 do1 c buf =
     (if length buf \<ge> 32
      then crc_blocks do4 do1 (crc_words do4 do1 c (take 32 buf)) (drop 32 buf)
      else crc_words do4 do1 c buf)"

declare crc_blocks.simps [simp del]

definition DOLIT4 :: "u32 \<Rightarrow> bytes \<Rightarrow> u32" where
  "DOLIT4 c0 w =
     (let c = c0 XOR un_le32 (w ! 0) (w ! 1) (w ! 2) (w ! 3) in
      crc_table3 ! unat (c AND 0xFF) XOR crc_table2 ! unat (drop_bit 8 c AND 0xFF) XOR
      crc_table1 ! unat (drop_bit 16 c AND 0xFF) XOR crc_table0 ! unat (drop_bit 24 c))"

definition crc32_little :: "nat \<Rightarrow> u32 \<Rightarrow> bytes \<Rightarrow> u32" where
  "crc32_little addr crc buf =
     (let (c, rest) = crc_align crc_do1 addr (NOT crc) buf in NOT (crc_blocks DOLIT4 crc_do1 c rest))"

definition crc_big1 :: "u32 \<Rightarrow> u8 \<Rightarrow> u32" where
  "crc_big1 c b = crc_table4 ! unat (drop_bit 24 c XOR ucast b) XOR push_bit 8 c"

definition DOBIG4 :: "u32 \<Rightarrow> bytes \<Rightarrow> u32" where
  "DOBIG4 c0 w =
     (let c = c0 XOR un_le32 (w ! 3) (w ! 2) (w ! 1) (w ! 0) in
      crc_table4 ! unat (c AND 0xFF) XOR crc_table5 ! unat (drop_bit 8 c AND 0xFF) XOR
      crc_table6 ! unat (drop_bit 16 c AND 0xFF) XOR crc_table7 ! unat (drop_bit 24 c))"

definition crc32_big :: "nat \<Rightarrow> u32 \<Rightarrow> bytes \<Rightarrow> u32" where
  "crc32_big addr crc buf =
     (let (c, rest) = crc_align crc_big1 addr (NOT (ZSWAP32 crc)) buf in
      ZSWAP32 (NOT (crc_blocks DOBIG4 crc_big1 c rest)))"

text \<open>\<open>crc32\<close> on a machine of the given byte order; \<^term>\<open>None\<close> is the null buffer.\<close>

definition crc32_z :: "bool \<Rightarrow> nat \<Rightarrow> u32 \<Rightarrow> bytes option \<Rightarrow> u32" where
  "crc32_z little addr crc buf =
     (case buf of None \<Rightarrow> 0
      | Some b \<Rightarrow> if little then crc32_little addr crc b else crc32_big addr crc b)"

section \<open>Combining two checksums\<close>

text \<open>The matrix has 32 rows, so the walk ends with the vector at the latest.\<close>

fun gf2_times_loop :: "u32 \<Rightarrow> u32 list \<Rightarrow> u32 \<Rightarrow> u32" where
  "gf2_times_loop acc [] vec = acc"
| "gf2_times_loop acc (m # mat) vec =
     (if vec = 0 then acc
      else gf2_times_loop (if vec AND 1 \<noteq> 0 then acc XOR m else acc) mat (drop_bit 1 vec))"

definition gf2_matrix_times :: "u32 list \<Rightarrow> u32 \<Rightarrow> u32" where
  "gf2_matrix_times mat vec = gf2_times_loop 0 mat vec"

definition gf2_matrix_square :: "u32 list \<Rightarrow> u32 list" where
  "gf2_matrix_square mat = map (gf2_matrix_times mat) mat"

fun combine_loop :: "u32 list \<Rightarrow> u32 \<Rightarrow> nat \<Rightarrow> u32" where
  "combine_loop mo crc1 len2 =
     (let me = gf2_matrix_square mo;
          c1 = (if len2 mod 2 = 1 then gf2_matrix_times me crc1 else crc1);
          l1 = len2 div 2 in
      if l1 = 0 then c1
      else (let mo' = gf2_matrix_square me;
                c2 = (if l1 mod 2 = 1 then gf2_matrix_times mo' c1 else c1);
                l2 = l1 div 2 in
            if l2 = 0 then c2 else combine_loop mo' c2 l2))"

declare combine_loop.simps [simp del]

definition crc32_combine :: "u32 \<Rightarrow> u32 \<Rightarrow> int \<Rightarrow> u32" where
  "crc32_combine crc1 crc2 len2 =
     (if len2 \<le> 0 then crc1
      else (let one = 0xEDB88320 # map (\<lambda>n. push_bit (n - 1) 1) [1..<32];
                four = gf2_matrix_square (gf2_matrix_square one) in
            combine_loop four crc1 (nat len2) XOR crc2))"

section \<open>Linear maps\<close>

definition xlin :: "(u32 \<Rightarrow> u32) \<Rightarrow> bool" where
  "xlin f \<longleftrightarrow> (\<forall>a b. f (a XOR b) = f a XOR f b)"

lemma xlinD: "xlin f \<Longrightarrow> f (a XOR b) = f a XOR f b"
  by (simp add: xlin_def)

lemma xlin_zero: "xlin f \<Longrightarrow> f 0 = 0"
  using xlinD [of f 0 0] by simp

lemma xlin_comp: "xlin f \<Longrightarrow> xlin g \<Longrightarrow> xlin (f \<circ> g)"
  by (simp add: xlin_def)

lemma xlin_funpow: "xlin f \<Longrightarrow> xlin (f ^^ n)"
  by (induction n) (simp_all add: xlin_def)

lemma crc_poly_eq: "crc_poly = 0xEDB88320"
  by (simp add: crc_poly_def)

lemma crc_step_bit: "crc_step c = (if bit c 0 then crc_poly XOR drop_bit 1 c else drop_bit 1 c)"
  by (simp add: crc_step_def and_one_eq bit_0 odd_iff_mod_2_eq_one)

lemma drop_bit_xor_word: "drop_bit n (a XOR b) = drop_bit n a XOR drop_bit n b" for a b :: "'a::len word"
  by (rule bit_word_eqI) (simp add: bit_simps)

lemma push_bit_xor_word: "push_bit n (a XOR b) = push_bit n a XOR push_bit n b" for a b :: "'a::len word"
  by (rule bit_word_eqI) (auto simp: bit_simps)

lemma and_xor_word: "(a XOR b) AND m = (a AND m) XOR (b AND m)" for a b :: "'a::len word"
  by (rule bit_word_eqI) (auto simp: bit_simps)

lemma xlin_step: "xlin crc_step"
  unfolding xlin_def crc_step_bit by (auto simp: bit_xor_iff drop_bit_xor_word xor.assoc xor.left_commute)

lemma step_low:
  "\<forall>i<n. \<not> bit c i \<Longrightarrow> n \<le> 32 \<Longrightarrow> (crc_step ^^ n) c = drop_bit n c"
proof (induction n)
  case (Suc n)
  then have "(crc_step ^^ n) c = drop_bit n c" by simp
  moreover have "\<not> bit (drop_bit n c) 0" using Suc.prems by (simp add: bit_simps)
  ultimately show ?case
    by (simp only: funpow.simps o_apply crc_step_bit [of "drop_bit n c"] if_False)
      (simp add: drop_bit_drop_bit)
qed simp

lemma step_push: "n + k \<le> 32 \<Longrightarrow> (crc_step ^^ n) (push_bit n (c AND mask k)) = c AND mask k"
proof -
  assume n: "n + k \<le> 32"
  have "(crc_step ^^ n) (push_bit n (c AND mask k)) = drop_bit n (push_bit n (c AND mask k))"
    by (rule step_low) (use n in \<open>auto simp: bit_simps\<close>)
  also have "\<dots> = c AND mask k"
    by (rule bit_word_eqI) (use n in \<open>auto simp: bit_simps\<close>)
  finally show ?thesis .
qed

lemma disjoint_add: "(a :: 'a::len word) AND b = 0 \<Longrightarrow> a + b = a XOR b"
  by (metis disjunctive_add_eq_or disjunctive_xor_eq_or)

lemma ZSWAP32_xor:
  "ZSWAP32 q = (drop_bit 24 q AND 0xFF) XOR (drop_bit 8 q AND 0xFF00) XOR
     push_bit 8 (q AND 0xFF00) XOR push_bit 24 (q AND 0xFF)"
proof -
  have m: "(0xFF :: u32) = mask 8" "(0xFF00 :: u32) = push_bit 8 (mask 8)"
    by (simp_all add: mask_eq_exp_minus_1)
  let ?a = "drop_bit 24 q AND 0xFF" and ?b = "drop_bit 8 q AND 0xFF00"
    and ?c = "push_bit 8 (q AND 0xFF00)" and ?d = "push_bit 24 (q AND 0xFF)"
  have ab: "?a AND ?b = 0" unfolding m by (rule bit_word_eqI) (auto simp: bit_simps)
  have abc: "(?a XOR ?b) AND ?c = 0" unfolding m by (rule bit_word_eqI) (auto simp: bit_simps)
  have abcd: "(?a XOR ?b XOR ?c) AND ?d = 0" unfolding m by (rule bit_word_eqI) (auto simp: bit_simps)
  show ?thesis
    unfolding ZSWAP32_def disjoint_add [OF ab] disjoint_add [OF abc] disjoint_add [OF abcd [folded xor.assoc]]
    by (simp only: xor.assoc)
qed

lemma xlin_swap: "xlin ZSWAP32"
  unfolding xlin_def ZSWAP32_xor
  by (simp add: drop_bit_xor_word push_bit_xor_word and_xor_word xor.assoc xor.left_commute)

section \<open>The rows\<close>

definition dbl :: "u32 list \<Rightarrow> u32 \<Rightarrow> u32 list" where
  "dbl xs p = xs @ map (\<lambda>x. x XOR p) xs"

lemma of_nat_add_pow:
  assumes "i < 2 ^ k" and "k < 32" shows "(of_nat (i + 2 ^ k) :: u32) = of_nat i XOR 2 ^ k"
proof -
  have "\<not> bit i n" if "k \<le> n" for n
    using assms(1) that by (metis bit_iff_odd div_less dvd_0_right less_le_trans one_le_numeral power_increasing even_zero)
  then have "(of_nat i :: u32) AND 2 ^ k = 0"
    by (intro bit_word_eqI) (auto simp: bit_simps bit_of_nat_iff exp_eq_0_imp_not_bit)
  from disjoint_add [OF this] show ?thesis by simp
qed

lemma span_map:
  assumes f: "xlin f" and "k \<le> 32"
  shows "foldl dbl [0] (map (\<lambda>j. f (2 ^ j)) [0..<k]) = map (\<lambda>n. f (of_nat n)) [0..<2 ^ k]"
  using assms(2)
proof (induction k)
  case 0
  then show ?case using xlin_zero [OF f] by simp
next
  case (Suc k)
  have "map (\<lambda>n. f (of_nat n)) [2 ^ k..<2 ^ k + 2 ^ k] = map (\<lambda>n. f (of_nat (n + 2 ^ k))) [0..<2 ^ k]"
    by (simp add: map_add_upt [symmetric] del: of_nat_add)
  also have "\<dots> = map (\<lambda>n. f (of_nat n) XOR f (2 ^ k)) [0..<2 ^ k]"
    using Suc.prems by (intro map_cong) (simp_all add: of_nat_add_pow xlinD [OF f] del: of_nat_add)
  finally have e: "map (\<lambda>n. f (of_nat n)) [2 ^ k..<2 ^ k + 2 ^ k] = map (\<lambda>n. f (of_nat n) XOR f (2 ^ k)) [0..<2 ^ k]" .
  have "[0..<2 ^ Suc k] = [0..<2 ^ k] @ [2 ^ k..<2 ^ k + 2 ^ k]"
    by (simp add: upt_add_eq_append [symmetric] mult_2)
  with Suc e show ?case by (simp add: dbl_def o_def)
qed

definition crc_pows :: "u32 list" where
  "crc_pows = [
     0xEDB88320, 0x76DC4190, 0x3B6E20C8, 0x1DB71064, 0x0EDB8832, 0x076DC419, 0xEE0E612C, 0x77073096,
     0x3B83984B, 0xF0794F05, 0x958424A2, 0x4AC21251, 0xC8D98A08, 0x646CC504, 0x32366282, 0x191B3141,
     0xE1351B80, 0x709A8DC0, 0x384D46E0, 0x1C26A370, 0x0E1351B8, 0x0709A8DC, 0x0384D46E, 0x01C26A37,
     0xED59B63B, 0x9B14583D, 0xA032AF3E, 0x5019579F, 0xC5B428EF, 0x8F629757, 0xAA09C88B, 0xB8BC6765]"

lemma crc_pows_step: "map crc_step (butlast crc_pows) = tl crc_pows"
  by (simp add: crc_pows_def crc_step_def crc_poly_eq)

lemma length_crc_pows: "length crc_pows = 32"
  by (simp add: crc_pows_def)

lemma crc_pows_nth: "i < 32 \<Longrightarrow> crc_pows ! i = (crc_step ^^ i) crc_poly"
proof (induction i)
  case 0
  show ?case by (simp add: crc_pows_def crc_poly_eq)
next
  case (Suc i)
  have "tl crc_pows ! i = map crc_step (butlast crc_pows) ! i" by (simp only: crc_pows_step)
  then show ?case using Suc by (simp add: nth_tl nth_butlast length_crc_pows)
qed

lemma step_pow2:
  assumes "j < m" and "j < 32" shows "(crc_step ^^ m) (2 ^ j) = (crc_step ^^ (m - j - 1)) crc_poly"
proof -
  have "(crc_step ^^ j) (2 ^ j) = drop_bit j (2 ^ j)"
    by (rule step_low) (use assms(2) in \<open>auto simp: bit_simps\<close>)
  also have "drop_bit j (2 ^ j) = (1 :: u32)"
    by (rule bit_word_eqI) (use assms(2) in \<open>auto simp: bit_simps\<close>)
  finally have "(crc_step ^^ Suc j) (2 ^ j) = crc_poly" by (simp add: crc_step_def)
  moreover have "crc_step ^^ m = crc_step ^^ (m - j - 1 + Suc j)" using assms(1) by simp
  ultimately show ?thesis by (simp only: funpow_add o_apply)
qed

lemma row_eq:
  assumes "k < 4"
  shows "map (\<lambda>n. (crc_step ^^ (8 * Suc k)) (of_nat n)) [0..<256] =
     foldl dbl [0] (map (\<lambda>j. crc_pows ! (8 * k + 7 - j)) [0..<8])"
proof -
  have e: "map (\<lambda>j. (crc_step ^^ (8 * Suc k)) (2 ^ j)) [0..<8] = map (\<lambda>j. crc_pows ! (8 * k + 7 - j)) [0..<8]"
    using assms by (intro map_cong) (simp_all add: step_pow2 crc_pows_nth add.commute)
  show ?thesis
    using span_map [OF xlin_funpow [OF xlin_step], of 8 "8 * Suc k"] unfolding e by simp
qed

lemma swap_row_eq:
  assumes "k < 4"
  shows "map (\<lambda>n. ZSWAP32 ((crc_step ^^ (8 * Suc k)) (of_nat n))) [0..<256] =
     foldl dbl [0] (map (\<lambda>j. ZSWAP32 (crc_pows ! (8 * k + 7 - j))) [0..<8])"
proof -
  have e: "map (\<lambda>j. (ZSWAP32 \<circ> crc_step ^^ (8 * Suc k)) (2 ^ j)) [0..<8] =
      map (\<lambda>j. ZSWAP32 (crc_pows ! (8 * k + 7 - j))) [0..<8]"
    using assms by (intro map_cong) (simp_all add: step_pow2 crc_pows_nth add.commute)
  show ?thesis
    using span_map [OF xlin_comp [OF xlin_swap xlin_funpow [OF xlin_step]], of 8 "8 * Suc k"]
    unfolding e by simp
qed

lemma upt8: "[0..<8] = [0, 1, 2, 3, 4, 5, 6, 7 :: nat]"
  by (simp add: upt_rec)

definition row_seed :: "nat \<Rightarrow> u32 list" where
  "row_seed k = map (\<lambda>j. crc_pows ! (8 * k + 7 - j)) [0..<8]"

lemma row_seeds:
  "row_seed 0 = [0x77073096, 0xEE0E612C, 0x076DC419, 0x0EDB8832, 0x1DB71064, 0x3B6E20C8, 0x76DC4190, 0xEDB88320]"
  "row_seed (Suc 0) = [0x191B3141, 0x32366282, 0x646CC504, 0xC8D98A08, 0x4AC21251, 0x958424A2, 0xF0794F05, 0x3B83984B]"
  "row_seed 2 = [0x01C26A37, 0x0384D46E, 0x0709A8DC, 0x0E1351B8, 0x1C26A370, 0x384D46E0, 0x709A8DC0, 0xE1351B80]"
  "row_seed 3 = [0xB8BC6765, 0xAA09C88B, 0x8F629757, 0xC5B428EF, 0x5019579F, 0xA032AF3E, 0x9B14583D, 0xED59B63B]"
  by (simp_all add: row_seed_def crc_pows_def upt8)

lemma swap_row_seed:
  assumes "k < 4"
  shows "map (\<lambda>n. ZSWAP32 ((crc_step ^^ (8 * Suc k)) (of_nat n))) [0..<256] =
     foldl dbl [0] (map ZSWAP32 (row_seed k))"
  using swap_row_eq [OF assms] by (simp add: row_seed_def o_def del: mult_Suc_right funpow.simps)

lemma row_eqs:
  "map (\<lambda>n. (crc_step ^^ 8) (of_nat n)) [0..<256] = foldl dbl [0] (row_seed 0)"
  "map (\<lambda>n. (crc_step ^^ 16) (of_nat n)) [0..<256] = foldl dbl [0] (row_seed (Suc 0))"
  "map (\<lambda>n. (crc_step ^^ 24) (of_nat n)) [0..<256] = foldl dbl [0] (row_seed 2)"
  "map (\<lambda>n. (crc_step ^^ 32) (of_nat n)) [0..<256] = foldl dbl [0] (row_seed 3)"
  using row_eq [of 0, folded row_seed_def] row_eq [of 1, folded row_seed_def]
    row_eq [of 2, folded row_seed_def] row_eq [of 3, folded row_seed_def] by simp_all

lemma swap_row_eqs:
  "map (\<lambda>n. ZSWAP32 ((crc_step ^^ 8) (of_nat n))) [0..<256] = foldl dbl [0] (map ZSWAP32 (row_seed 0))"
  "map (\<lambda>n. ZSWAP32 ((crc_step ^^ 16) (of_nat n))) [0..<256] = foldl dbl [0] (map ZSWAP32 (row_seed (Suc 0)))"
  "map (\<lambda>n. ZSWAP32 ((crc_step ^^ 24) (of_nat n))) [0..<256] = foldl dbl [0] (map ZSWAP32 (row_seed 2))"
  "map (\<lambda>n. ZSWAP32 ((crc_step ^^ 32) (of_nat n))) [0..<256] = foldl dbl [0] (map ZSWAP32 (row_seed 3))"
  using swap_row_seed [of 0] swap_row_seed [of 1] swap_row_seed [of 2] swap_row_seed [of 3] by simp_all

lemma swap_seeds:
  "map ZSWAP32 (row_seed 0) =
    [0x96300777, 0x2C610EEE, 0x19C46D07, 0x3288DB0E, 0x6410B71D, 0xC8206E3B, 0x9041DC76, 0x2083B8ED]"
  "map ZSWAP32 (row_seed (Suc 0)) =
    [0x41311B19, 0x82623632, 0x04C56C64, 0x088AD9C8, 0x5112C24A, 0xA2248495, 0x054F79F0, 0x4B98833B]"
  "map ZSWAP32 (row_seed 2) =
    [0x376AC201, 0x6ED48403, 0xDCA80907, 0xB851130E, 0x70A3261C, 0xE0464D38, 0xC08D9A70, 0x801B35E1]"
  "map ZSWAP32 (row_seed 3) =
    [0x6567BCB8, 0x8BC809AA, 0x5797628F, 0xEF28B4C5, 0x9F571950, 0x3EAF32A0, 0x3D58149B, 0x3BB659ED]"
  by (simp_all add: row_seeds ZSWAP32_def)

lemmas row_table = dbl_def row_eqs swap_row_eqs swap_seeds

lemma table0: "crc_table0 = map (\<lambda>n. (crc_step ^^ 8) (of_nat n)) [0..<256]"
  by (simp only: row_table row_seeds) (simp add: crc_table0_def dbl_def)

lemma table1: "crc_table1 = map (\<lambda>n. (crc_step ^^ 16) (of_nat n)) [0..<256]"
  by (simp only: row_table row_seeds) (simp add: crc_table1_def dbl_def)

lemma table2: "crc_table2 = map (\<lambda>n. (crc_step ^^ 24) (of_nat n)) [0..<256]"
  by (simp only: row_table row_seeds) (simp add: crc_table2_def dbl_def)

lemma table3: "crc_table3 = map (\<lambda>n. (crc_step ^^ 32) (of_nat n)) [0..<256]"
  by (simp only: row_table row_seeds) (simp add: crc_table3_def dbl_def)

lemma table4: "crc_table4 = map (\<lambda>n. ZSWAP32 ((crc_step ^^ 8) (of_nat n))) [0..<256]"
  by (simp only: row_table) (simp add: crc_table4_def dbl_def)

lemma table5: "crc_table5 = map (\<lambda>n. ZSWAP32 ((crc_step ^^ 16) (of_nat n))) [0..<256]"
  by (simp only: row_table) (simp add: crc_table5_def dbl_def)

lemma table6: "crc_table6 = map (\<lambda>n. ZSWAP32 ((crc_step ^^ 24) (of_nat n))) [0..<256]"
  by (simp only: row_table) (simp add: crc_table6_def dbl_def)

lemma table7: "crc_table7 = map (\<lambda>n. ZSWAP32 ((crc_step ^^ 32) (of_nat n))) [0..<256]"
  by (simp only: row_table) (simp add: crc_table7_def dbl_def)

section \<open>Bytes and words\<close>

lemma byte_lt: "unat ((c :: u32) AND 0xFF) < 256"
proof -
  have "c AND 0xFF \<le> 0xFF" by (rule word_and_le1)
  then show ?thesis by (simp add: word_le_nat_alt)
qed

lemma table_nth:
  assumes "unat x < 256"
  shows "crc_table0 ! unat x = (crc_step ^^ 8) x" "crc_table1 ! unat x = (crc_step ^^ 16) x"
    "crc_table2 ! unat x = (crc_step ^^ 24) x" "crc_table3 ! unat x = (crc_step ^^ 32) x"
    "crc_table4 ! unat x = ZSWAP32 ((crc_step ^^ 8) x)" "crc_table5 ! unat x = ZSWAP32 ((crc_step ^^ 16) x)"
    "crc_table6 ! unat x = ZSWAP32 ((crc_step ^^ 24) x)" "crc_table7 ! unat x = ZSWAP32 ((crc_step ^^ 32) x)"
  using assms by (simp_all only: table0 table1 table2 table3 table4 table5 table6 table7, simp_all)

lemma split_low: "c = (c AND mask k) XOR push_bit k (drop_bit k c)" for c :: u32
  by (rule bit_word_eqI) (auto simp: bit_simps)

lemma step_split: "k \<le> 32 \<Longrightarrow> (crc_step ^^ k) c = (crc_step ^^ k) (c AND mask k) XOR drop_bit k c"
proof -
  assume k: "k \<le> 32"
  have "(crc_step ^^ k) (push_bit k (drop_bit k c)) = drop_bit k (push_bit k (drop_bit k c))"
    by (rule step_low) (use k in \<open>auto simp: bit_simps\<close>)
  also have "\<dots> = drop_bit k c"
    by (rule bit_word_eqI) (auto simp: bit_simps dest: bit_imp_le_length)
  finally show ?thesis
    using xlinD [OF xlin_funpow [OF xlin_step]] split_low [of c k] by metis
qed

lemma FF_mask: "(0xFF :: u32) = mask 8"
  by (simp add: mask_eq_exp_minus_1)

lemma do1_step: "crc_do1 c b = (crc_step ^^ 8) (c XOR ucast b)"
proof -
  have "drop_bit 8 (c XOR ucast b) = drop_bit 8 c"
    by (rule bit_word_eqI) (auto simp: bit_simps dest: bit_imp_le_length)
  with step_split [of 8 "c XOR ucast b"] show ?thesis
    unfolding crc_do1_def table_nth(1) [OF byte_lt] by (simp add: FF_mask)
qed

definition crc_upd :: "u32 \<Rightarrow> bytes \<Rightarrow> u32" where
  "crc_upd = foldl (\<lambda>c b. (crc_step ^^ 8) (c XOR ucast b))"

lemma foldl_do1: "foldl crc_do1 c bs = crc_upd c bs"
  by (simp add: crc_upd_def do1_step [abs_def])

lemma crc_upd_append: "crc_upd c (a @ b) = crc_upd (crc_upd c a) b"
  by (simp add: crc_upd_def)

lemma do8_upd: "crc_do8 c bs = crc_upd c bs"
proof (induction c bs rule: crc_do8.induct)
  case (1 c bs)
  then show ?case
    by (subst crc_do8.simps) (auto simp: foldl_do1 crc_upd_append [symmetric])
qed

text \<open>A linear map taken apart along the bytes of its argument.\<close>

lemma word_bytes:
  "c = (c AND 0xFF) XOR push_bit 8 (drop_bit 8 c AND 0xFF) XOR push_bit 16 (drop_bit 16 c AND 0xFF) XOR
       push_bit 24 (drop_bit 24 c)" for c :: u32
  unfolding FF_mask
proof (rule bit_word_eqI)
  fix n assume "n < LENGTH(32)"
  then show "bit c n = bit ((c AND mask 8) XOR push_bit 8 (drop_bit 8 c AND mask 8) XOR
      push_bit 16 (drop_bit 16 c AND mask 8) XOR push_bit 24 (drop_bit 24 c)) n"
    by (cases "n < 8"; cases "n < 16"; cases "n < 24") (auto simp: bit_simps)
qed

lemma step_add: "(crc_step ^^ m) ((crc_step ^^ n) c) = (crc_step ^^ (m + n)) c"
  by (simp add: funpow_add)

lemma step_shift: "n \<le> 24 \<Longrightarrow> n \<le> m \<Longrightarrow> (crc_step ^^ m) (push_bit n (c AND 0xFF)) = (crc_step ^^ (m - n)) (c AND 0xFF)"
  using step_push [of n 8 c] step_add [of "m - n" n "push_bit n (c AND 0xFF)"] by (simp add: FF_mask)

lemma drop24_FF: "drop_bit 24 c AND 0xFF = drop_bit 24 c" for c :: u32
  unfolding FF_mask by (rule bit_word_eqI) (auto simp: bit_simps dest: bit_imp_le_length)

lemma step32_bytes:
  "(crc_step ^^ 32) c = (crc_step ^^ 32) (c AND 0xFF) XOR (crc_step ^^ 24) (drop_bit 8 c AND 0xFF) XOR
     (crc_step ^^ 16) (drop_bit 16 c AND 0xFF) XOR (crc_step ^^ 8) (drop_bit 24 c AND 0xFF)"
proof -
  have "(crc_step ^^ 32) c = (crc_step ^^ 32) ((c AND 0xFF) XOR push_bit 8 (drop_bit 8 c AND 0xFF) XOR
      push_bit 16 (drop_bit 16 c AND 0xFF) XOR push_bit 24 (drop_bit 24 c AND 0xFF))"
    using word_bytes [of c] by (simp only: drop24_FF)
  then show ?thesis
    by (simp only: xlinD [OF xlin_funpow [OF xlin_step]] step_shift) simp
qed

section \<open>The word loops\<close>

lemma un_le32_xor:
  "un_le32 a b c d = ucast a XOR push_bit 8 (ucast b) XOR push_bit 16 (ucast c) XOR push_bit 24 (ucast d)"
proof (rule bit_word_eqI)
  fix n assume "n < LENGTH(32)"
  then show "bit (un_le32 a b c d) n =
      bit (ucast a XOR push_bit 8 (ucast b) XOR push_bit 16 (ucast c) XOR push_bit 24 (ucast d) :: u32) n"
    by (cases "n < 8"; cases "n < 16"; cases "n < 24") (auto simp: un_le32_def bit_simps dest: bit_imp_le_length)
qed

lemma ucast_FF: "(ucast b :: u32) AND 0xFF = ucast b" for b :: u8
  unfolding FF_mask by (rule bit_word_eqI) (auto simp: bit_simps dest: bit_imp_le_length)

lemma upd_four: "crc_upd c [a, b, d, e] = (crc_step ^^ 32) (c XOR un_le32 a b d e)"
proof -
  have st: "(crc_step ^^ 32) (push_bit 8 (ucast x)) = (crc_step ^^ 24) (ucast x)"
    "(crc_step ^^ 32) (push_bit 16 (ucast x)) = (crc_step ^^ 16) (ucast x)"
    "(crc_step ^^ 32) (push_bit 24 (ucast x)) = (crc_step ^^ 8) (ucast x)" for x :: u8
    using step_shift [of 8 32 "ucast x"] step_shift [of 16 32 "ucast x"] step_shift [of 24 32 "ucast x"]
    by (simp_all add: ucast_FF)
  note lin = xlinD [OF xlin_funpow [OF xlin_step]]
  have "crc_upd c [a, b, d, e] = (crc_step ^^ 32) (c XOR ucast a) XOR (crc_step ^^ 24) (ucast b) XOR
      (crc_step ^^ 16) (ucast d) XOR (crc_step ^^ 8) (ucast e)"
    by (simp add: crc_upd_def lin step_add xor.assoc)
  also have "\<dots> = (crc_step ^^ 32) (c XOR un_le32 a b d e)"
    by (simp only: un_le32_xor lin st xor.assoc)
  finally show ?thesis .
qed

lemma top_lt: "unat (drop_bit 24 c :: u32) < 256"
  using byte_lt [of "drop_bit 24 c"] by (simp only: drop24_FF)

lemma DOLIT4_upd: "DOLIT4 c [a, b, d, e] = crc_upd c [a, b, d, e]"
proof -
  have w: "[a, b, d, e] ! 0 = a" "[a, b, d, e] ! 1 = b" "[a, b, d, e] ! 2 = d" "[a, b, d, e] ! 3 = e" by simp_all
  show ?thesis
    unfolding upd_four DOLIT4_def Let_def w
    by (simp only: table_nth byte_lt top_lt step32_bytes [of "c XOR un_le32 a b d e"] drop24_FF)
qed

lemma words_upd:
  "(\<And>c a b d e. do4 c [a, b, d, e] = foldl do1 c [a, b, d, e]) \<Longrightarrow>
     crc_words do4 do1 c buf = foldl do1 c buf"
  by (induction do4 do1 c buf rule: crc_words.induct) simp_all

lemma blocks_upd:
  "(\<And>c a b d e. do4 c [a, b, d, e] = foldl do1 c [a, b, d, e]) \<Longrightarrow>
     crc_blocks do4 do1 c buf = foldl do1 c buf"
proof (induction do4 do1 c buf rule: crc_blocks.induct)
  case (1 do4 do1 c buf)
  have w: "crc_words do4 do1 c' b = foldl do1 c' b" for c' b
    by (rule words_upd) (rule "1.prems")
  show ?case
  proof (cases "32 \<le> length buf")
    case True
    have "crc_blocks do4 do1 (foldl do1 c (take 32 buf)) (drop 32 buf) =
        foldl do1 (foldl do1 c (take 32 buf)) (drop 32 buf)"
      using "1.IH" [OF True "1.prems"] by (simp only: w)
    then show ?thesis using True by (subst crc_blocks.simps) (simp add: w foldl_append [symmetric] del: foldl_append)
  next
    case False
    then show ?thesis by (subst crc_blocks.simps) (simp add: w)
  qed
qed

lemma align_upd: "crc_align do1 addr c buf = (c', rest) \<Longrightarrow> foldl do1 c' rest = foldl do1 c buf"
  by (induction do1 addr c buf rule: crc_align.induct) (auto split: if_splits)

lemma little_upd: "crc32_little addr crc buf = NOT (crc_upd (NOT crc) buf)"
proof -
  have b: "crc_blocks DOLIT4 crc_do1 c rest = crc_upd c rest" for c rest
    using blocks_upd [of DOLIT4 crc_do1] by (simp only: DOLIT4_upd foldl_do1)
  show ?thesis
    using align_upd [of crc_do1 addr "NOT crc" buf]
    by (auto simp: crc32_little_def b foldl_do1 split: prod.splits)
qed

section \<open>The big-endian loop\<close>

lemma FF00_mask: "(0xFF00 :: u32) = push_bit 8 (mask 8)"
  by (simp add: mask_eq_exp_minus_1)

lemma swap_bit: "n < 32 \<Longrightarrow> bit (ZSWAP32 q) n = bit q (24 - n div 8 * 8 + n mod 8)"
proof -
  assume n: "n < 32"
  have "n div 8 = 0 \<and> n < 8 \<or> n div 8 = 1 \<and> 8 \<le> n \<and> n < 16 \<or> n div 8 = 2 \<and> 16 \<le> n \<and> n < 24 \<or>
      n div 8 = 3 \<and> 24 \<le> n"
    using n by auto
  then show ?thesis
    unfolding ZSWAP32_xor FF_mask FF00_mask using n
    by (elim disjE conjE) (auto simp: bit_simps modulo_nat_def)
qed

lemma div_mod_cases: "n < 32 \<Longrightarrow> n div 8 < 4 \<and> n mod 8 < 8 \<and> n = 8 * (n div 8) + n mod 8" for n :: nat
  by simp

lemma swap_swap [simp]: "ZSWAP32 (ZSWAP32 q) = q"
proof (rule bit_word_eqI)
  fix n assume "n < LENGTH(32)"
  then have n: "n < 32" by simp
  then have k: "n div 8 = 0 \<or> n div 8 = 1 \<or> n div 8 = 2 \<or> n div 8 = 3" by auto
  have "24 - n div 8 * 8 + n mod 8 < 32" by simp
  moreover have e: "24 - n div 8 * 8 + n mod 8 = n mod 8 + 8 * (3 - n div 8)" using k by (elim disjE) simp_all
  have "(24 - n div 8 * 8 + n mod 8) div 8 = 3 - n div 8" unfolding e by simp
  moreover have "(24 - n div 8 * 8 + n mod 8) mod 8 = n mod 8" unfolding e by simp
  moreover have "24 - (3 - n div 8) * 8 + n mod 8 = n" using k n by (elim disjE) (simp_all, presburger+)
  ultimately show "bit (ZSWAP32 (ZSWAP32 q)) n = bit q n"
    using n by (simp add: swap_bit)
qed

lemma not_xor: "NOT q = q XOR - 1" for q :: u32
  by (rule bit_word_eqI) (simp add: bit_simps)

lemma swap_not: "ZSWAP32 (NOT q) = NOT (ZSWAP32 q)"
proof -
  have "ZSWAP32 0xFFFFFFFF = 0xFFFFFFFF" by (simp add: ZSWAP32_def)
  moreover have "(- 1 :: u32) = 0xFFFFFFFF" by simp
  ultimately show ?thesis by (simp only: not_xor xlinD [OF xlin_swap])
qed

lemma swap_top: "drop_bit 24 (ZSWAP32 q) = q AND 0xFF"
  unfolding FF_mask
proof (rule bit_word_eqI)
  fix n assume "n < LENGTH(32)"
  moreover have "(24 + n) div 8 = 3 \<and> (24 + n) mod 8 = n" if "n < 8" using that by presburger
  ultimately show "bit (drop_bit 24 (ZSWAP32 q)) n = bit (q AND mask 8) n"
    by (cases "n < 8") (auto simp: bit_drop_bit_eq bit_and_iff bit_mask_iff swap_bit dest: bit_imp_le_length)
qed

lemma swap_mid: "drop_bit 8 (ZSWAP32 q) AND 0xFF = drop_bit 16 q AND 0xFF"
  unfolding FF_mask
proof (rule bit_word_eqI)
  fix n assume "n < LENGTH(32)"
  moreover have "(8 + n) div 8 = 1 \<and> (8 + n) mod 8 = n" if "n < 8" using that by simp
  ultimately show "bit (drop_bit 8 (ZSWAP32 q) AND mask 8) n = bit (drop_bit 16 q AND mask 8) n"
    by (cases "n < 8") (auto simp: bit_drop_bit_eq bit_and_iff bit_mask_iff swap_bit)
qed

lemma swap_drop: "ZSWAP32 (drop_bit 8 q) = push_bit 8 (ZSWAP32 q)"
proof (rule bit_word_eqI)
  fix n assume "n < LENGTH(32)"
  then have n: "n < 32" by simp
  show "bit (ZSWAP32 (drop_bit 8 q)) n = bit (push_bit 8 (ZSWAP32 q)) n"
  proof (cases "n < 8")
    case True
    then show ?thesis using n
      by (auto simp: bit_push_bit_iff bit_drop_bit_eq swap_bit dest: bit_imp_le_length)
  next
    case False
    then obtain m where m: "n = m + 8" by (metis add.commute le_iff_add not_less)
    then have "m div 8 = 0 \<or> m div 8 = 1 \<or> m div 8 = 2" using n by auto
    moreover have "n div 8 = m div 8 + 1" "n mod 8 = m mod 8" unfolding m by simp_all
    ultimately have "8 + (24 - n div 8 * 8 + n mod 8) = 24 - m div 8 * 8 + m mod 8"
      by (elim disjE) simp_all
    then show ?thesis using n m by (auto simp: bit_push_bit_iff bit_drop_bit_eq swap_bit)
  qed
qed

lemmas swap_masks = swap_top swap_top [of "ZSWAP32 q" for q, unfolded swap_swap, symmetric]
  swap_mid swap_mid [of "ZSWAP32 q" for q, unfolded swap_swap, symmetric] swap_drop

lemma swap_un_le32: "ZSWAP32 (un_le32 a b d e) = un_le32 e d b a"
proof -
  have u: "un_le32 a b d e AND 0xFF = ucast a" "drop_bit 8 (un_le32 a b d e) AND 0xFF = ucast b"
    "drop_bit 16 (un_le32 a b d e) AND 0xFF = ucast d" "drop_bit 24 (un_le32 a b d e) = ucast e"
    for a b d e :: u8
    unfolding un_le32_def FF_mask by (rule bit_word_eqI; auto simp: bit_simps dest: bit_imp_le_length)+
  have "ZSWAP32 (un_le32 a b d e) = (ZSWAP32 (un_le32 a b d e) AND 0xFF) XOR
      push_bit 8 (drop_bit 8 (ZSWAP32 (un_le32 a b d e)) AND 0xFF) XOR
      push_bit 16 (drop_bit 16 (ZSWAP32 (un_le32 a b d e)) AND 0xFF) XOR
      push_bit 24 (drop_bit 24 (ZSWAP32 (un_le32 a b d e)))"
    by (rule word_bytes)
  also have "\<dots> = ucast e XOR push_bit 8 (ucast d) XOR push_bit 16 (ucast b) XOR push_bit 24 (ucast a)"
    by (simp only: swap_masks u)
  also have "\<dots> = un_le32 e d b a" by (rule un_le32_xor [symmetric])
  finally show ?thesis .
qed

lemma big1_swap: "crc_big1 (ZSWAP32 c) b = ZSWAP32 (crc_do1 c b)"
proof -
  have "(c AND 0xFF) XOR ucast b = (c XOR ucast b) AND 0xFF"
    by (simp add: and_xor_word ucast_FF)
  then show ?thesis
    unfolding crc_big1_def crc_do1_def swap_masks
    by (simp add: table_nth byte_lt xlinD [OF xlin_swap] swap_masks)
qed

lemma big4_swap: "DOBIG4 (ZSWAP32 c) [a, b, d, e] = ZSWAP32 (DOLIT4 c [a, b, d, e])"
proof -
  have w: "[a, b, d, e] ! 0 = a" "[a, b, d, e] ! 1 = b" "[a, b, d, e] ! 2 = d" "[a, b, d, e] ! 3 = e" by simp_all
  have x: "ZSWAP32 c XOR un_le32 e d b a = ZSWAP32 (c XOR un_le32 a b d e)"
    by (simp only: xlinD [OF xlin_swap] swap_un_le32)
  show ?thesis
    unfolding DOBIG4_def DOLIT4_def Let_def w x swap_masks
    by (simp only: table_nth byte_lt top_lt xlinD [OF xlin_swap] xor.assoc xor.commute xor.left_commute)
qed

lemma foldl_big1: "foldl crc_big1 (ZSWAP32 c) bs = ZSWAP32 (crc_upd c bs)"
  by (induction bs arbitrary: c) (simp_all add: big1_swap crc_upd_def do1_step)

lemma big_upd: "crc32_big addr crc buf = NOT (crc_upd (NOT crc) buf)"
proof -
  have "DOBIG4 c [a, b, d, e] = foldl crc_big1 c [a, b, d, e]" for c a b d e
    using big4_swap [of "ZSWAP32 c" a b d e] foldl_big1 [of "ZSWAP32 c" "[a, b, d, e]"]
    by (simp only: DOLIT4_upd swap_swap)
  then have b: "crc_blocks DOBIG4 crc_big1 c rest = foldl crc_big1 c rest" for c rest
    by (rule blocks_upd)
  show ?thesis
    using align_upd [of crc_big1 addr "NOT (ZSWAP32 crc)" buf] foldl_big1 [of "NOT crc" buf]
    by (auto simp: crc32_big_def b swap_not split: prod.splits)
qed

section \<open>Combination\<close>

lemma upd_linear: "crc_upd (a XOR b) bs = (crc_step ^^ (8 * length bs)) a XOR crc_upd b bs"
proof (induction bs arbitrary: a b)
  case (Cons x bs)
  have "(crc_step ^^ 8) (a XOR b XOR ucast x) = (crc_step ^^ 8) a XOR (crc_step ^^ 8) (b XOR ucast x)"
    by (rule xlinD [OF xlin_funpow [OF xlin_step]])
  with Cons [of "(crc_step ^^ 8) a" "(crc_step ^^ 8) (b XOR ucast x)"] show ?case
    by (simp add: crc_upd_def xor.assoc step_add add.commute)
qed (simp add: crc_upd_def)

definition mat_of :: "(u32 \<Rightarrow> u32) \<Rightarrow> u32 list \<Rightarrow> bool" where
  "mat_of f mat \<longleftrightarrow> xlin f \<and> mat = map (\<lambda>i. f (2 ^ i)) [0..<32]"

lemma times_loop:
  assumes f: "xlin f"
  shows "\<forall>i\<ge>m. \<not> bit v i \<Longrightarrow>
     gf2_times_loop acc (map (\<lambda>i. f (2 ^ (i + k))) [0..<m]) v = acc XOR f (push_bit k v)"
proof (induction m arbitrary: k v acc)
  case 0
  then have "v = 0" by (intro bit_word_eqI) simp
  then show ?case using xlin_zero [OF f] by simp
next
  case (Suc m)
  have mat: "map (\<lambda>i. f (2 ^ (i + k))) [0..<Suc m] = f (2 ^ k) # map (\<lambda>i. f (2 ^ (i + Suc k))) [0..<m]"
    by (simp add: upt_conv_Cons map_Suc_upt [symmetric] del: upt_Suc)
  show ?case
  proof (cases "v = 0")
    case True
    then show ?thesis unfolding mat using xlin_zero [OF f] by simp
  next
    case False
    have "\<forall>i\<ge>m. \<not> bit (drop_bit 1 v) i" using Suc.prems by (simp add: bit_simps)
    from Suc.IH [OF this] have ih: "gf2_times_loop a (map (\<lambda>i. f (2 ^ (i + Suc k))) [0..<m]) (drop_bit 1 v) =
        a XOR f (push_bit (Suc k) (drop_bit 1 v))" for a .
    have "push_bit k v = push_bit k (v AND 1) XOR push_bit (Suc k) (drop_bit 1 v)"
    proof -
      have "push_bit k v = push_bit k ((v AND mask 1) XOR push_bit 1 (drop_bit 1 v))"
        by (rule arg_cong [OF split_low])
      then show ?thesis by (simp only: push_bit_xor_word push_bit_push_bit mask_1 Suc_eq_plus1)
    qed
    then have fv: "f (push_bit k v) = f (push_bit k (v AND 1)) XOR f (push_bit (Suc k) (drop_bit 1 v))"
      by (rule trans [OF arg_cong [where f = f] xlinD [OF f]])
    show ?thesis
    proof (cases "v AND 1 = 0")
      case True
      then show ?thesis unfolding mat using False ih fv xlin_zero [OF f] by simp
    next
      case odd: False
      then have one: "v AND 1 = 1" by (simp add: and_one_eq odd_iff_mod_2_eq_one)
      have "push_bit k (1 :: u32) = 2 ^ k" by (simp add: push_bit_eq_mult)
      then show ?thesis unfolding mat using False ih fv one by (simp add: xor.assoc)
    qed
  qed
qed

lemma times_mat: "mat_of f mat \<Longrightarrow> gf2_matrix_times mat v = f v"
proof -
  have "\<forall>i\<ge>32. \<not> bit v i" by (auto dest: bit_imp_le_length)
  then show "mat_of f mat \<Longrightarrow> gf2_matrix_times mat v = f v"
    using times_loop [of f 32 v 0 0] by (simp add: mat_of_def gf2_matrix_times_def)
qed

lemma square_mat: "mat_of f mat \<Longrightarrow> mat_of (f \<circ> f) (gf2_matrix_square mat)"
  by (auto simp: mat_of_def gf2_matrix_square_def times_mat xlin_comp)

lemma combine_loop_steps:
  "0 < n \<Longrightarrow> mat_of (crc_step ^^ m) mo \<Longrightarrow> combine_loop mo c n = (crc_step ^^ (2 * m * n)) c"
proof (induction mo c n arbitrary: m rule: combine_loop.induct)
  case (1 mo c n)
  define me where "me = gf2_matrix_square mo"
  define mo' where "mo' = gf2_matrix_square me"
  have me: "mat_of (crc_step ^^ (2 * m)) me"
    using square_mat [OF "1.prems"(2)] by (simp add: me_def funpow_add [symmetric] mult_2)
  have mo': "mat_of (crc_step ^^ (4 * m)) mo'"
    using square_mat [OF me] by (simp add: mo'_def funpow_add [symmetric])
  define c1 where "c1 = (if n mod 2 = 1 then gf2_matrix_times me c else c)"
  have c1: "c1 = (crc_step ^^ (2 * m * (n mod 2))) c" by (auto simp: c1_def times_mat [OF me])
  define c2 where "c2 = (if n div 2 mod 2 = 1 then gf2_matrix_times mo' c1 else c1)"
  have c2: "c2 = (crc_step ^^ (4 * m * (n div 2 mod 2))) c1" by (auto simp: c2_def times_mat [OF mo'])
  have eq: "combine_loop mo c n = (if n div 2 = 0 then c1 else if n div 2 div 2 = 0 then c2
      else combine_loop mo' c2 (n div 2 div 2))"
    by (subst combine_loop.simps) (simp only: Let_def me_def mo'_def c1_def c2_def)
  have sum: "(crc_step ^^ a) ((crc_step ^^ b) x) = (crc_step ^^ (a + b)) x" for a b x
    by (simp add: funpow_add)
  consider "n div 2 = 0" | "n div 2 \<noteq> 0" "n div 2 div 2 = 0" | "n div 2 \<noteq> 0" "n div 2 div 2 \<noteq> 0" by blast
  then show ?case
  proof cases
    case 1
    then have "n mod 2 = n" by presburger
    with 1 show ?thesis unfolding eq c1 by simp
  next
    case 2
    then have "n = n mod 2 + 2 * (n div 2 mod 2)" by presburger
    then have "2 * m * n = 2 * m * (n mod 2 + 2 * (n div 2 mod 2))" by (rule arg_cong)
    then have "4 * m * (n div 2 mod 2) + 2 * m * (n mod 2) = 2 * m * n"
      by (simp add: algebra_simps)
    with 2 show ?thesis unfolding eq c2 c1 sum by simp
  next
    case 3
    have "combine_loop mo' c2 (n div 2 div 2) = (crc_step ^^ (2 * (4 * m) * (n div 2 div 2))) c2"
      by (rule "1.IH" [OF me_def c1_def refl _ mo'_def c2_def refl]) (use 3 mo' in simp_all)
    moreover have "2 * (4 * m) * (n div 2 div 2) + (4 * m * (n div 2 mod 2) + 2 * m * (n mod 2)) = 2 * m * n"
    proof -
      have "n = n mod 2 + 2 * (n div 2 mod 2) + 4 * (n div 2 div 2)" by presburger
      then have "2 * m * n = 2 * m * (n mod 2 + 2 * (n div 2 mod 2) + 4 * (n div 2 div 2))" by (rule arg_cong)
      then show ?thesis by (simp only: distrib_left mult.assoc)
    qed
    ultimately have "combine_loop mo' c2 (n div 2 div 2) = (crc_step ^^ (2 * m * n)) c"
      unfolding c2 c1 sum by (simp only:)
    with 3 show ?thesis unfolding eq by (simp only: if_False)
  qed
qed

lemma bytewise_upd: "crc32_bytewise crc buf = NOT (crc_upd (NOT crc) buf)"
proof -
  have "(0xFFFFFFFF :: u32) = - 1" by simp
  then show ?thesis by (simp only: crc32_bytewise_def do8_upd not_xor)
qed

lemma crc32_z_upd: "crc32_z little addr crc (Some buf) = NOT (crc_upd (NOT crc) buf)"
  by (simp add: crc32_z_def little_upd big_upd)

lemma combine_matrix:
  "mat_of (crc_step ^^ 1) (0xEDB88320 # map (\<lambda>n. push_bit (n - 1) 1) [1..<32])"
proof -
  have step: "crc_step (2 ^ Suc i) = 2 ^ i" if "i < 31" for i
  proof -
    have "crc_step (2 ^ Suc i) = drop_bit 1 (2 ^ Suc i)" by (simp add: crc_step_bit bit_simps)
    also have "\<dots> = 2 ^ i" using that by (intro bit_word_eqI) (auto simp: bit_simps)
    finally show ?thesis .
  qed
  have u: "[1..<32] = map Suc [0..<31]" by (simp only: map_Suc_upt) simp
  have "map (\<lambda>n. push_bit (n - 1) (1 :: u32)) [1..<32] = map (\<lambda>n. push_bit n 1) [0..<31]"
    unfolding u map_map o_def by simp
  also have "\<dots> = map (\<lambda>n. crc_step (2 ^ Suc n)) [0..<31]"
    by (intro map_cong) (simp_all add: step push_bit_eq_mult del: power_Suc)
  also have "\<dots> = map (\<lambda>i. crc_step (2 ^ i)) [1..<32]"
    unfolding u map_map o_def ..
  finally have m: "map (\<lambda>n. push_bit (n - 1) (1 :: u32)) [1..<32] = map (\<lambda>i. crc_step (2 ^ i)) [1..<32]" .
  have "crc_step (2 ^ 0) = 0xEDB88320" by (simp add: crc_step_def crc_poly_eq)
  then show ?thesis using m xlin_step by (simp add: mat_of_def upt_conv_Cons)
qed

lemma crc32_combine_steps:
  "crc32_combine crc1 crc2 (int n) = (if n = 0 then crc1 else (crc_step ^^ (8 * n)) crc1 XOR crc2)"
proof (cases "n = 0")
  case False
  let ?one = "0xEDB88320 # map (\<lambda>n. push_bit (n - 1) 1) [1..<32] :: u32 list"
  have "mat_of (crc_step ^^ 4) (gf2_matrix_square (gf2_matrix_square ?one))"
    using square_mat [OF square_mat [OF combine_matrix]] by (simp add: funpow_add [symmetric] o_assoc numeral_eq_Suc)
  with False show ?thesis
    by (simp add: crc32_combine_def Let_def combine_loop_steps)
qed (simp add: crc32_combine_def)

section \<open>Properties\<close>

text \<open>The table in \<open>crc32.h\<close> is the one \<open>make_crc_table\<close> generates, row by row: the second to
  fourth are the first followed by one to three zero bytes, the last four the byte reversals.\<close>

theorem static_tables_generated: "crc_table = make_crc_table"
proof -
  have row: "make_row = crc_table0" by (simp only: make_row_def table0)
  have nx: "next_row crc_table0 c = (crc_step ^^ 8) c" for c
    using step_split [of 8 c] by (simp add: next_row_def table_nth byte_lt FF_mask [symmetric])
  have nxk: "(next_row crc_table0 ^^ k) c = (crc_step ^^ (8 * k)) c" for k c
    by (induction k) (simp_all add: nx step_add)
  have "map (\<lambda>k. map (next_row crc_table0 ^^ k) crc_table0) [0..<4] =
      [crc_table0, crc_table1, crc_table2, crc_table3]"
  proof -
    have u: "[0..<4] = [0, 1, 2, 3 :: nat]" by (simp add: upt_rec)
    have "map ((crc_step ^^ k)) crc_table0 = map (\<lambda>n. (crc_step ^^ (k + 8)) (of_nat n)) [0..<256]" for k
      by (simp add: table0 step_add)
    from this [of 0] this [of 8] this [of 16] this [of 24] show ?thesis
      unfolding u by (simp add: nxk [abs_def] table1 table2 table3 flip: table0)
  qed
  moreover have "map ZSWAP32 crc_table0 = crc_table4" "map ZSWAP32 crc_table1 = crc_table5"
    "map ZSWAP32 crc_table2 = crc_table6" "map ZSWAP32 crc_table3 = crc_table7"
    by (simp_all add: table0 table1 table2 table3 table4 table5 table6 table7)
  ultimately show ?thesis
    by (simp only: make_crc_table_def Let_def row crc_table_def list.map append_Cons append_Nil)
qed

text \<open>C36: On a machine of either byte order, wherever the buffer lies, \<open>crc32\<close> computes what the plain
  loop over its bytes computes.\<close>

theorem crc32_word_at_a_time: "crc32_z little addr crc (Some buf) = crc32_bytewise crc buf"
  by (simp only: crc32_z_upd bytewise_upd)

text \<open>Checksums compose. Feeding a second buffer to the checksum of a first gives the checksum of
  their concatenation, and \<open>crc32_combine\<close> computes the same from the two separate checksums and
  the length of the second buffer, whatever the byte order and the addresses.\<close>

theorem crc32_composes:
  "crc32_z little addr2 (crc32_z little addr1 crc (Some a)) (Some b) = crc32_z little addr1 crc (Some (a @ b)) \<and>
   crc32_combine (crc32_z little addr1 crc (Some a)) (crc32_z little addr2 0 (Some b)) (int (length b)) =
     crc32_z little addr1 crc (Some (a @ b))"
proof
  show "crc32_z little addr2 (crc32_z little addr1 crc (Some a)) (Some b) = crc32_z little addr1 crc (Some (a @ b))"
    by (simp add: crc32_z_upd crc_upd_append)
next
  let ?c = "NOT (crc_upd (NOT crc) a)"
  have "NOT ?c = ?c XOR NOT 0" by (rule bit_word_eqI) (simp add: bit_simps)
  then have "crc_upd (NOT ?c) b = (crc_step ^^ (8 * length b)) ?c XOR crc_upd (NOT 0) b"
    using upd_linear [of ?c "NOT 0" b] by (simp only:)
  then have "NOT (crc_upd (NOT ?c) b) = (crc_step ^^ (8 * length b)) ?c XOR NOT (crc_upd (NOT 0) b)"
    by (simp only: not_xor xor.assoc)
  moreover have "b = [] \<Longrightarrow> NOT (crc_upd (NOT ?c) b) = ?c" by (simp add: crc_upd_def)
  ultimately show "crc32_combine (crc32_z little addr1 crc (Some a)) (crc32_z little addr2 0 (Some b)) (int (length b)) =
     crc32_z little addr1 crc (Some (a @ b))"
    unfolding crc32_z_upd crc32_combine_steps crc_upd_append by (cases "b = []") simp_all
qed

end
