(* ===== verification/Zl_Adler32.thy ===== *)
theory Zl_Adler32
  imports Ao_Prelude
begin

text \<open>
  The Adler-32 checksum of \<open>util/zlib/adler32.c\<close>, which \<open>inflate\<close> keeps of zlib streams. Both sums
  are \<open>unsigned long\<close>, 32 bits as in the rest of the development, and are reduced only once in
  \<open>NMAX\<close> bytes; the lemmas show that they do not wrap in between, so that the code computes the
  sums modulo 65521, and that checksums of consecutive buffers combine.
\<close>

unbundle bit_operations_syntax

section \<open>The code\<close>

definition BASE :: u32 where "BASE = 65521"
definition NMAX :: nat where "NMAX = 5552"

definition adl_do1 :: "u32 \<times> u32 \<Rightarrow> u8 \<Rightarrow> u32 \<times> u32" where
  "adl_do1 = (\<lambda>(adler, sum2) b. (adler + ucast b, sum2 + (adler + ucast b)))"

definition adl_mod :: "u32 \<times> u32 \<Rightarrow> u32 \<times> u32" where
  "adl_mod = (\<lambda>(adler, sum2). (adler mod BASE, sum2 mod BASE))"

definition adl_do16 :: "u32 \<times> u32 \<Rightarrow> bytes \<Rightarrow> u32 \<times> u32" where
  "adl_do16 st buf = foldl adl_do1 st (take 16 buf)"

primrec adl_16s :: "nat \<Rightarrow> u32 \<times> u32 \<Rightarrow> bytes \<Rightarrow> u32 \<times> u32" where
  "adl_16s 0 st buf = st"
| "adl_16s (Suc n) st buf = adl_16s n (adl_do16 st buf) (drop 16 buf)"

function adl_blocks :: "u32 \<times> u32 \<Rightarrow> bytes \<Rightarrow> (u32 \<times> u32) \<times> bytes" where
  "adl_blocks st buf =
     (if NMAX \<le> length buf
      then adl_blocks (adl_mod (adl_16s (NMAX div 16) st buf)) (drop NMAX buf)
      else (st, buf))"
  by auto
termination by (relation "measure (\<lambda>(st, buf). length buf)") (auto simp: NMAX_def)

declare adl_blocks.simps [simp del]

function adl_tail :: "u32 \<times> u32 \<Rightarrow> bytes \<Rightarrow> u32 \<times> u32" where
  "adl_tail st buf =
     (if 16 \<le> length buf then adl_tail (adl_do16 st buf) (drop 16 buf) else foldl adl_do1 st buf)"
  by auto
termination by (relation "measure (\<lambda>(st, buf). length buf)") auto

declare adl_tail.simps [simp del]

definition adl_join :: "u32 \<times> u32 \<Rightarrow> u32" where
  "adl_join = (\<lambda>(adler, sum2). adler OR push_bit 16 sum2)"

text \<open>\<^term>\<open>None\<close> is \<open>Z_NULL\<close>, with length 0.\<close>

definition adler32_z :: "u32 \<Rightarrow> bytes option \<Rightarrow> u32" where
  "adler32_z adler buf =
     (let sum2 = drop_bit 16 adler AND 0xffff; adler = adler AND 0xffff in
      case buf of None \<Rightarrow> 1
      | Some [b] \<Rightarrow>
          (let a = adler + ucast b; a = (if BASE \<le> a then a - BASE else a);
               s = sum2 + a; s = (if BASE \<le> s then s - BASE else s) in adl_join (a, s))
      | Some bs \<Rightarrow>
          if length bs < 16 then
            (let (a, s) = foldl adl_do1 (adler, sum2) bs in
             adl_join (if BASE \<le> a then a - BASE else a, s mod BASE))
          else
            (let (st, rest) = adl_blocks (adler, sum2) bs in
             adl_join (if rest = [] then st else adl_mod (adl_tail st rest))))"

definition adler32_combine :: "u32 \<Rightarrow> u32 \<Rightarrow> int \<Rightarrow> u32" where
  "adler32_combine adler1 adler2 len2 =
     (if len2 < 0 then 0xffffffff
      else
        (let rem = of_int (len2 mod 65521);
             sum1 = adler1 AND 0xffff;
             sum2 = (rem * sum1) mod BASE;
             sum1 = sum1 + ((adler2 AND 0xffff) + BASE - 1);
             sum2 = sum2 + ((drop_bit 16 adler1 AND 0xffff) + (drop_bit 16 adler2 AND 0xffff) + BASE - rem);
             sum1 = (if BASE \<le> sum1 then sum1 - BASE else sum1);
             sum1 = (if BASE \<le> sum1 then sum1 - BASE else sum1);
             sum2 = (if push_bit 1 BASE \<le> sum2 then sum2 - push_bit 1 BASE else sum2);
             sum2 = (if BASE \<le> sum2 then sum2 - BASE else sum2) in
         sum1 OR push_bit 16 sum2))"

section \<open>The sums modulo 65521\<close>

abbreviation adl_base :: nat where "adl_base \<equiv> 65521"

fun adl_step :: "nat \<times> nat \<Rightarrow> u8 \<Rightarrow> nat \<times> nat" where
  "adl_step (a, s) b = ((a + unat b) mod adl_base, (s + a + unat b) mod adl_base)"

definition adl_sums :: "nat \<times> nat \<Rightarrow> bytes \<Rightarrow> nat \<times> nat" where
  "adl_sums = foldl adl_step"

definition adl_pack :: "nat \<times> nat \<Rightarrow> u32" where
  "adl_pack = (\<lambda>(a, s). of_nat (a + s * 65536))"

definition adl_parts :: "u32 \<Rightarrow> nat \<times> nat" where
  "adl_parts w = (unat w mod 65536, unat w div 65536)"

definition adl_ok :: "nat \<times> nat \<Rightarrow> bool" where
  "adl_ok = (\<lambda>(a, s). a < adl_base \<and> s < adl_base)"

fun adl_is :: "u32 \<times> u32 \<Rightarrow> nat \<times> nat \<Rightarrow> bool" where
  "adl_is (wa, ws) (a, s) = (unat wa = a \<and> unat ws = s)"

fun adl_raw :: "nat \<times> nat \<Rightarrow> u8 \<Rightarrow> nat \<times> nat" where
  "adl_raw (a, s) b = (a + unat b, s + (a + unat b))"

lemma byte_le: "unat (b :: u8) \<le> 255"
  using unat_lt [of b] by simp

lemma unat_ucast_byte: "unat (ucast b :: u32) = unat (b :: u8)"
  by (simp add: unsigned_ucast_eq take_bit_nat_eq_self less_le_trans [OF unat_lt])

lemma adl_do1_raw:
  assumes "adl_is w (a, s)" and "a + unat b < 2 ^ 32" and "s + (a + unat b) < 2 ^ 32"
  shows "adl_is (adl_do1 w b) (adl_raw (a, s) b)"
proof -
  obtain wa ws where w: "w = (wa, ws)" "unat wa = a" "unat ws = s" using assms(1) by (cases w) auto
  have a: "unat (wa + ucast b) = a + unat b"
    using assms(2) w(2) by (subst unat_plus_no_wrap) (simp_all add: unat_ucast_byte)
  moreover have "unat (ws + (wa + ucast b)) = s + (a + unat b)"
    using assms(3) w(3) a by (subst unat_plus_no_wrap) simp_all
  ultimately show ?thesis by (simp add: w(1) adl_do1_def)
qed

lemma adl_fold_raw:
  "adl_is w (a, s) \<Longrightarrow> a + 255 * length bs < 2 ^ 32 \<Longrightarrow>
     2 * s + 2 * length bs * a + 255 * length bs * (length bs + 1) < 2 ^ 33 \<Longrightarrow>
     adl_is (foldl adl_do1 w bs) (foldl adl_raw (a, s) bs)"
proof (induction bs arbitrary: w a s)
  case (Cons b bs)
  let ?n = "length bs"
  have b: "unat b \<le> 255" by (rule byte_le)
  have e: "2 * s + 2 * Suc ?n * a + 255 * Suc ?n * (Suc ?n + 1) =
      2 * s + 2 * a + 2 * ?n * a + 510 + 510 * ?n + (255 * ?n * (?n + 1))"
    by (simp add: algebra_simps)
  have m: "2 * ?n * unat b \<le> 510 * ?n" using mult_le_mono2 [OF b, of "2 * ?n"] by simp
  have bound: "2 * s + 2 * a + 2 * ?n * a + 510 + 510 * ?n + (255 * ?n * (?n + 1)) < 2 ^ 33"
    using Cons.prems(3) e by simp
  have "adl_is (adl_do1 w b) (a + unat b, s + (a + unat b))"
    using adl_do1_raw [OF Cons.prems(1), of b] Cons.prems(2) bound b by simp
  moreover have "a + unat b + 255 * ?n < 2 ^ 32" using Cons.prems(2) b by simp
  moreover have "2 * (s + (a + unat b)) + 2 * ?n * (a + unat b) + 255 * ?n * (?n + 1) < 2 ^ 33"
  proof -
    define q where "q = 255 * ?n * (?n + 1)"
    have "2 * (s + (a + unat b)) + 2 * ?n * (a + unat b) + q =
        2 * s + 2 * a + 2 * unat b + 2 * ?n * a + 2 * ?n * unat b + q" by (simp add: distrib_left)
    also have "\<dots> \<le> 2 * s + 2 * a + 2 * ?n * a + 510 + 510 * ?n + q" using b m by linarith
    finally show ?thesis using bound unfolding q_def by (rule le_less_trans)
  qed
  ultimately show ?case using Cons.IH by simp
qed simp

lemma mod_sum3: "(x mod m + y mod m + z) mod m = (x + (y + z)) mod m" for x y z m :: nat
proof -
  have "(x mod m + y mod m + z) mod m = ((x mod m + y mod m) mod m + z) mod m" by (rule mod_add_left_eq [symmetric])
  also have "\<dots> = ((x + y) mod m + z) mod m" by (simp only: mod_add_eq)
  also have "\<dots> = (x + y + z) mod m" by (rule mod_add_left_eq)
  finally show ?thesis by (simp add: add.assoc)
qed

lemma adl_raw_mod:
  "(case foldl adl_raw (a, s) bs of (a', s') \<Rightarrow> (a' mod adl_base, s' mod adl_base)) =
     adl_sums (a mod adl_base, s mod adl_base) bs"
proof (induction bs arbitrary: a s)
  case (Cons b bs)
  have "adl_step (a mod adl_base, s mod adl_base) b = ((a + unat b) mod adl_base, (s + (a + unat b)) mod adl_base)"
    using mod_sum3 [of s adl_base a "unat b"] by (simp add: mod_simps)
  with Cons [of "a + unat b" "s + (a + unat b)"] show ?case by (simp add: adl_sums_def)
qed (simp add: adl_sums_def)


lemma adl_step_ok: "adl_ok (adl_step st b)"
  by (cases st) (simp add: adl_ok_def)

lemma adl_sums_ok: "adl_ok st \<Longrightarrow> adl_ok (adl_sums st bs)"
  unfolding adl_sums_def by (induction bs rule: rev_induct) (simp_all add: adl_step_ok)

lemma adl_sums_append: "adl_sums st (a @ b) = adl_sums (adl_sums st a) b"
  by (simp add: adl_sums_def)

text \<open>The unreduced sums of up to \<open>NMAX\<close> bytes stay below \<open>2 ^ 32\<close>.\<close>

lemma adl_fold_fits:
  assumes "adl_is w st" and "adl_ok st" and "length bs \<le> NMAX"
  shows "adl_is (foldl adl_do1 w bs) (foldl adl_raw st bs)"
proof -
  obtain a s where st: "st = (a, s)" by (cases st) auto
  have as: "a \<le> 65520" "s \<le> 65520" using assms(2) by (simp_all add: adl_ok_def st)
  let ?n = "length bs"
  have n: "?n \<le> 5552" using assms(3) by (simp add: NMAX_def)
  have "2 * ?n * a \<le> 2 * 5552 * 65520" by (intro mult_le_mono) (use n as in simp_all)
  moreover have "255 * ?n * (?n + 1) \<le> 255 * 5552 * (5552 + 1)" by (intro mult_le_mono) (use n in simp_all)
  ultimately have "2 * s + 2 * ?n * a + 255 * ?n * (?n + 1) \<le> 2 * 65520 + 2 * 5552 * 65520 + 255 * 5552 * (5552 + 1)"
    using as(2) by (intro add_mono) simp_all
  then have "2 * s + 2 * ?n * a + 255 * ?n * (?n + 1) < 2 ^ 33" by (rule le_less_trans) simp
  moreover have "a + 255 * ?n < 2 ^ 32" using as n by simp
  ultimately show ?thesis using adl_fold_raw [of w a s bs] assms(1) by (simp add: st)
qed

lemma adl_mod_is: "adl_is w (a, s) \<Longrightarrow> adl_is (adl_mod w) (a mod adl_base, s mod adl_base)"
  by (cases w) (auto simp: adl_mod_def BASE_def unat_mod)

lemma adl_fold_mod:
  assumes "adl_is w st" and "adl_ok st" and "length bs \<le> NMAX"
  shows "adl_is (adl_mod (foldl adl_do1 w bs)) (adl_sums st bs)"
proof -
  obtain a s where st: "st = (a, s)" by (cases st) auto
  obtain a' s' where r: "foldl adl_raw st bs = (a', s')" by (cases "foldl adl_raw st bs") auto
  have "adl_is (adl_mod (foldl adl_do1 w bs)) (a' mod adl_base, s' mod adl_base)"
    using adl_fold_fits [OF assms] r by (simp add: adl_mod_is)
  moreover have "a mod adl_base = a" "s mod adl_base = s" using assms(2) by (simp_all add: adl_ok_def st)
  ultimately show ?thesis using adl_raw_mod [of a s bs] r st by simp
qed

section \<open>The loops\<close>

lemma adl_16s_fold: "16 * n \<le> length buf \<Longrightarrow> adl_16s n st buf = foldl adl_do1 st (take (16 * n) buf)"
proof (induction n arbitrary: st buf)
  case (Suc n)
  have "take (16 * Suc n) buf = take 16 buf @ take (16 * n) (drop 16 buf)"
    by (simp add: take_add [symmetric])
  with Suc show ?case by (simp add: adl_do16_def)
qed simp

lemma adl_tail_fold: "adl_tail st buf = foldl adl_do1 st buf"
proof (induction st buf rule: adl_tail.induct)
  case (1 st buf)
  show ?case
  proof (cases "16 \<le> length buf")
    case True
    then have "adl_tail st buf = foldl adl_do1 (adl_do16 st buf) (drop 16 buf)"
      using 1 by (subst adl_tail.simps) simp
    also have "\<dots> = foldl adl_do1 st (take 16 buf @ drop 16 buf)" by (simp only: adl_do16_def foldl_append)
    finally show ?thesis by simp
  next
    case False
    then show ?thesis by (subst adl_tail.simps) simp
  qed
qed

lemma adl_blocks_sums:
  "adl_is st s \<Longrightarrow> adl_ok s \<Longrightarrow> adl_blocks st buf = (st', rest) \<Longrightarrow>
     \<exists>pre. buf = pre @ rest \<and> length rest < NMAX \<and> adl_is st' (adl_sums s pre)"
proof (induction st buf arbitrary: s rule: adl_blocks.induct)
  case (1 st buf)
  show ?case
  proof (cases "NMAX \<le> length buf")
    case True
    have e: "adl_16s (NMAX div 16) st buf = foldl adl_do1 st (take NMAX buf)"
      using adl_16s_fold [of "NMAX div 16" buf st] True by (simp add: NMAX_def)
    have "adl_is (adl_mod (adl_16s (NMAX div 16) st buf)) (adl_sums s (take NMAX buf))"
      unfolding e by (rule adl_fold_mod [OF "1.prems"(1,2)]) simp
    from "1.IH" [OF True this adl_sums_ok [OF "1.prems"(2)]] "1.prems"(3) True obtain pre where
      "drop NMAX buf = pre @ rest" "length rest < NMAX" "adl_is st' (adl_sums (adl_sums s (take NMAX buf)) pre)"
      by (auto simp: adl_blocks.simps [of st buf])
    then have "buf = (take NMAX buf @ pre) @ rest \<and> length rest < NMAX \<and> adl_is st' (adl_sums s (take NMAX buf @ pre))"
      by (metis append_take_drop_id append.assoc adl_sums_append)
    then show ?thesis by blast
  next
    case False
    then have "st' = st \<and> rest = buf" using "1.prems"(3) by (simp add: adl_blocks.simps [of st buf])
    then show ?thesis using "1.prems" False by (intro exI [of _ "[]"]) (simp add: adl_sums_def)
  qed
qed

lemma adl_join_pack: "adl_is w s \<Longrightarrow> adl_ok s \<Longrightarrow> adl_join w = adl_pack s"
proof -
  assume w: "adl_is w s" and s: "adl_ok s"
  obtain wa ws where p: "w = (wa, ws)" by (cases w) auto
  obtain a b where q: "s = (a, b)" by (cases s) auto
  have u: "unat wa = a" "unat ws = b" "a < adl_base" "b < adl_base" using w s by (auto simp: p q adl_ok_def)
  have small: "unat wa < 2 ^ 16" using u by simp
  have "wa OR push_bit 16 ws = wa + push_bit 16 ws"
  proof (rule disjunctive_add [symmetric])
    fix n
    have "bit wa n \<Longrightarrow> n < 16"
    proof -
      assume "bit wa n"
      then have "bit (take_bit 16 (unat wa)) n" using small by (simp add: take_bit_nat_eq_self bit_unsigned_iff)
      then show "n < 16" by (simp add: bit_take_bit_iff)
    qed
    then show "\<not> bit wa n \<or> \<not> bit (push_bit 16 ws) n" by (auto simp: bit_push_bit_iff)
  qed
  also have "\<dots> = of_nat (unat wa + unat ws * 65536)" by (simp add: push_bit_eq_mult)
  finally show ?thesis by (simp add: p q adl_join_def adl_pack_def u)
qed

lemma unat_low16: "unat (w AND 0xffff) = unat w mod 65536" for w :: u32
proof -
  have "w AND 0xffff = take_bit 16 w" by (simp add: take_bit_eq_mask mask_eq_exp_minus_1)
  then show ?thesis by (simp add: unsigned_take_bit_eq take_bit_eq_mod unat_mod)
qed

lemma unat_high16: "unat (drop_bit 16 w AND 0xffff) = unat w div 65536" for w :: u32
proof -
  have "unat (drop_bit 16 w) = unat w div 65536"
    by (simp add: drop_bit_eq_div unat_div)
  moreover have "unat w div 65536 < 65536" using unat_lt [of w] by (simp add: div_less_iff_less_mult)
  ultimately show ?thesis by (simp only: unat_low16) simp
qed

lemma adl_parts_is: "adl_is (w AND 0xffff, drop_bit 16 w AND 0xffff) (adl_parts w)"
  using unat_low16 [of w] unat_high16 [of w] by (simp only: adl_parts_def adl_is.simps simp_thms)

lemma adl_parts_pack: "adl_ok s \<Longrightarrow> adl_parts (adl_pack s) = s"
proof -
  assume "adl_ok s"
  then obtain a b where s: "s = (a, b)" "a < adl_base" "b < adl_base" by (auto simp: adl_ok_def)
  then have "a + b * 65536 < 2 ^ 32" by simp
  then have "unat (of_nat (a + b * 65536) :: u32) = a + b * 65536" by (simp only: unsigned_of_nat take_bit_nat_eq_self_iff) (simp add: take_bit_nat_eq_self)
  then show ?thesis using s by (simp add: adl_parts_def adl_pack_def)
qed

lemma sub_base: "unat w < 2 * adl_base \<Longrightarrow> unat (if BASE \<le> w then w - BASE else w) = unat w mod adl_base" for w :: u32
  by (auto simp: BASE_def word_le_nat_alt unat_minus_no_wrap mod_if)

lemma adler32_sums:
  assumes ok: "adl_ok (adl_parts adler)"
  shows "adler32_z adler (Some buf) = adl_pack (adl_sums (adl_parts adler) buf)"
proof -
  let ?w = "(adler AND 0xffff, drop_bit 16 adler AND 0xffff)"
  note isp = adl_parts_is [of adler]
  obtain a s where p: "adl_parts adler = (a, s)" by (cases "adl_parts adler") auto
  have as: "a < adl_base" "s < adl_base" "unat (adler AND 0xffff) = a" "unat (drop_bit 16 adler AND 0xffff) = s"
    using ok isp by (simp_all add: adl_ok_def p)
  consider (one) b where "buf = [b]" | (short) "length buf < 16" "length buf \<noteq> 1" | (long) "16 \<le> length buf"
  proof (cases "length buf = 1")
    case True
    then show ?thesis using one by (auto simp: length_Suc_conv)
  next
    case False
    then show ?thesis using short long by linarith
  qed
  then show ?thesis
  proof cases
    case one
    let ?a = "(adler AND 0xffff) + ucast b"
    have ua: "unat ?a = a + unat b"
      using as byte_le [of b] by (subst unat_plus_no_wrap) (simp_all add: unat_ucast_byte)
    let ?a' = "if BASE \<le> ?a then ?a - BASE else ?a"
    have a': "unat ?a' = (a + unat b) mod adl_base"
      using sub_base [of ?a] ua as byte_le [of b] by simp
    let ?s = "(drop_bit 16 adler AND 0xffff) + ?a'"
    have us: "unat ?s = s + (a + unat b) mod adl_base"
      using as a' by (subst unat_plus_no_wrap) (simp_all add: less_le_trans [OF mod_less_divisor])
    have "unat (if BASE \<le> ?s then ?s - BASE else ?s) = (s + (a + unat b) mod adl_base) mod adl_base"
      using sub_base [of ?s] us as(2) by (simp add: add_strict_mono)
    then have "adl_is (?a', if BASE \<le> ?s then ?s - BASE else ?s) (adl_sums (a, s) [b])"
      using a' by (simp add: adl_sums_def mod_simps add.assoc)
    from adl_join_pack [OF this adl_sums_ok] ok show ?thesis
      by (simp add: adler32_z_def one p Let_def)
  next
    case short
    obtain x y where f: "foldl adl_do1 ?w buf = (x, y)" by (cases "foldl adl_do1 ?w buf") auto
    have m: "adl_is (adl_mod (x, y)) (adl_sums (a, s) buf)"
      using adl_fold_mod [OF isp ok, of buf] short(1) f by (simp add: p NMAX_def)
    have "unat x < 2 * adl_base"
    proof -
      have "adl_is (x, y) (foldl adl_raw (a, s) buf)"
        using adl_fold_fits [OF isp ok, of buf] short(1) f by (simp add: p NMAX_def)
      moreover have "fst (foldl adl_raw (a, s) bs) \<le> a + 255 * length bs" for a s bs
      proof (induction bs arbitrary: a s)
        case (Cons b bs)
        have "fst (foldl adl_raw (a + unat b, s + (a + unat b)) bs) \<le> a + unat b + 255 * length bs" by (rule Cons)
        then show ?case using byte_le [of b] by simp
      qed simp
      then have "fst (foldl adl_raw (a, s) buf) \<le> a + 255 * length buf" .
      ultimately show ?thesis using as(1) short(1) by (cases "foldl adl_raw (a, s) buf") simp
    qed
    then have "(if BASE \<le> x then x - BASE else x) = x mod BASE"
      by (simp only: word_unat_eq_iff sub_base) (simp add: unat_mod BASE_def)
    then have "adler32_z adler (Some buf) = adl_join (adl_mod (x, y))"
      using short f by (cases buf rule: remdups_adj.cases) (simp_all add: adler32_z_def Let_def adl_mod_def)
    then show ?thesis using adl_join_pack [OF m adl_sums_ok] ok p by simp
  next
    case long
    obtain st rest where bl: "adl_blocks ?w buf = (st, rest)" by (cases "adl_blocks ?w buf") auto
    from adl_blocks_sums [OF isp ok this] obtain pre where pre: "buf = pre @ rest" "length rest < NMAX"
      "adl_is st (adl_sums (adl_parts adler) pre)" by blast
    have eq: "adler32_z adler (Some buf) = adl_join (if rest = [] then st else adl_mod (adl_tail st rest))"
      using long bl by (cases buf rule: remdups_adj.cases) (simp_all add: adler32_z_def Let_def)
    have "adl_is (if rest = [] then st else adl_mod (adl_tail st rest)) (adl_sums (adl_parts adler) buf)"
      using adl_fold_mod [OF pre(3) adl_sums_ok [OF ok], of rest] pre
      by (cases "rest = []") (simp_all add: adl_tail_fold adl_sums_append [symmetric])
    from adl_join_pack [OF this adl_sums_ok [OF ok]] show ?thesis using eq by simp
  qed
qed


section \<open>Closed form and concatenation\<close>

fun weighted :: "bytes \<Rightarrow> nat" where
  "weighted [] = 0"
| "weighted (b # bs) = Suc (length bs) * unat b + weighted bs"

lemma adl_raw_sums:
  "foldl adl_raw (a, s) bs = (a + sum_list (map unat bs), s + length bs * a + weighted bs)"
  by (induction bs arbitrary: a s) (simp_all add: algebra_simps)

lemma adl_sums_closed:
  "a < adl_base \<Longrightarrow> s < adl_base \<Longrightarrow> adl_sums (a, s) bs =
     ((a + sum_list (map unat bs)) mod adl_base, (s + length bs * a + weighted bs) mod adl_base)"
  using adl_raw_mod [of a s bs] by (simp add: adl_raw_sums)

lemma adl_parts_1: "adl_parts 1 = (1, 0)"
  by (simp add: adl_parts_def)

lemma adler32_new: "adler32_z 1 (Some buf) = adl_pack (adl_sums (1, 0) buf)"
  using adler32_sums [of 1 buf] by (simp add: adl_parts_1 adl_ok_def)

lemma weighted_append: "weighted (a @ b) = weighted a + length b * sum_list (map unat a) + weighted b"
  by (induction a) (simp_all add: algebra_simps)

lemma unat_of_int_mod: "unat (of_int (n mod 65521) :: u32) = nat (n mod 65521)"
proof -
  have "0 \<le> n mod 65521" "n mod 65521 < 65521" by simp_all
  then have "uint (of_int (n mod 65521) :: u32) = n mod 65521"
    by (simp add: uint_word_of_int_eq take_bit_int_eq_self)
  then show ?thesis by (metis unat_eq_nat_uint)
qed

lemma push_base: "push_bit 1 BASE = 131042"
  by (simp add: BASE_def)

lemma chop2: "unat (w :: u32) < 4 * adl_base \<Longrightarrow>
    unat (let s = (if push_bit 1 BASE \<le> w then w - push_bit 1 BASE else w) in if BASE \<le> s then s - BASE else s) = unat w mod adl_base"
proof -
  assume w: "unat w < 4 * adl_base"
  let ?s = "if push_bit 1 BASE \<le> w then w - push_bit 1 BASE else w"
  have s: "unat ?s = (if 131042 \<le> unat w then unat w - 131042 else unat w)"
    unfolding push_base by (simp add: word_le_nat_alt unat_minus_no_wrap)
  then have "unat ?s < 2 * adl_base" using w by (simp split: if_splits)
  then have "unat (if BASE \<le> ?s then ?s - BASE else ?s) = unat ?s mod adl_base" by (rule sub_base)
  also have "\<dots> = unat w mod adl_base"
    unfolding s by (auto simp: le_mod_geq)
  finally show ?thesis by (simp only: Let_def)
qed

lemma chop3: "unat (w :: u32) < 3 * adl_base \<Longrightarrow>
    unat (let s = (if BASE \<le> w then w - BASE else w) in if BASE \<le> s then s - BASE else s) = unat w mod adl_base"
proof -
  assume w: "unat w < 3 * adl_base"
  let ?s = "if BASE \<le> w then w - BASE else w"
  have s: "unat ?s = (if adl_base \<le> unat w then unat w - adl_base else unat w)"
    by (simp add: BASE_def word_le_nat_alt unat_minus_no_wrap)
  then have "unat ?s < 2 * adl_base" using w by (simp split: if_splits)
  then have "unat (if BASE \<le> ?s then ?s - BASE else ?s) = unat ?s mod adl_base" by (rule sub_base)
  also have "\<dots> = unat w mod adl_base" unfolding s by (auto simp: le_mod_geq)
  finally show ?thesis by (simp only: Let_def)
qed


lemma combine_sums:
  "adl_sums (1, 0) (a @ b) =
     ((fst (adl_sums (1, 0) a) + (fst (adl_sums (1, 0) b) + 65520)) mod adl_base,
      ((length b mod 65521 * fst (adl_sums (1, 0) a)) mod adl_base +
        (snd (adl_sums (1, 0) a) + snd (adl_sums (1, 0) b) + adl_base - length b mod 65521)) mod adl_base)"
proof -
  define A where "A = sum_list (map unat a)"
  define B where "B = sum_list (map unat b)"
  have m1: "((1 + A) mod m + ((1 + B) mod m + (m - 1))) mod m = (1 + (A + B)) mod m" if "1 \<le> m" for m
  proof -
    have "((1 + A) mod m + ((1 + B) mod m + (m - 1))) mod m = (1 + A + (1 + B + (m - 1))) mod m"
      by (simp only: mod_add_left_eq mod_add_right_eq)
        (metis mod_add_left_eq mod_add_right_eq)
    also have "1 + A + (1 + B + (m - 1)) = 1 + (A + B) + m" using that by simp
    finally show ?thesis by (simp only: mod_add_self2)
  qed
  define k where "k = length b"
  define x where "x = length a + weighted a"
  define y where "y = k + weighted b"
  have m2: "((k mod m * ((1 + A) mod m)) mod m + (x mod m + y mod m + m - k mod m)) mod m =
      (length a + weighted a + k * A + weighted b + k) mod m" if "1 \<le> m" for m
  proof -
    let ?l = "(k mod m * ((1 + A) mod m)) mod m + (x mod m + y mod m + m - k mod m)"
    have "int ?l = (int k mod int m * ((1 + int A) mod int m)) mod int m +
        (int x mod int m + int y mod int m + int m - int k mod int m)"
    proof -
      have "k mod m \<le> x mod m + y mod m + m" using that by (simp add: trans_le_add2)
      then show ?thesis by (simp add: of_nat_diff zmod_int)
    qed
    moreover have "(X mod M * (Z mod M) mod M + (U mod M + V mod M + M - X mod M)) mod M = (X * Z + (U + V + M - X)) mod M"
      for X Z U V M :: int
    proof -
      have "(X mod M * (Z mod M) mod M + (U mod M + V mod M + M - X mod M)) mod M =
          (X * Z + (U mod M + V mod M + M - X mod M)) mod M"
        by (simp only: mod_mult_eq mod_add_left_eq)
      also have "\<dots> = (X * Z + M + (U mod M) + (V mod M) - X mod M) mod M" by (simp only: algebra_simps)
      also have "\<dots> = (X * Z + M + U + V - X) mod M"
        by (intro mod_diff_cong mod_add_cong refl mod_mod_trivial)
      finally show ?thesis by (simp add: algebra_simps)
    qed
    ultimately have "int ?l mod int m = (int k * (1 + int A) + (int x + int y + int m - int k)) mod int m"
      by (simp only:)
    also have "int k * (1 + int A) + (int x + int y + int m - int k) =
        int (length a + weighted a + k * A + weighted b + k) + int m"
      by (simp add: x_def y_def algebra_simps)
    finally have "int (?l mod m) = int ((length a + weighted a + k * A + weighted b + k) mod m)"
      by (simp only: zmod_int mod_add_self2)
    then show ?thesis by (simp only: of_nat_eq_iff)
  qed
  show ?thesis
  proof -
    have f: "adl_sums (1, 0) a = ((1 + A) mod adl_base, x mod adl_base)"
      "adl_sums (1, 0) b = ((1 + B) mod adl_base, y mod adl_base)"
      "adl_sums (1, 0) (a @ b) = ((1 + (A + B)) mod adl_base,
         (length a + weighted a + k * A + weighted b + k) mod adl_base)"
      by (simp_all add: adl_sums_closed weighted_append A_def B_def k_def x_def y_def ac_simps)
    have "(65521 :: nat) - 1 = 65520" "1 \<le> (65521 :: nat)" by simp_all
    then show ?thesis unfolding f fst_conv snd_conv k_def [symmetric]
      using m1 [of adl_base] m2 [of adl_base] by (simp only:)
  qed
qed

lemma combine_words:
  assumes "adl_ok p" and "adl_ok q"
  shows "adler32_combine (adl_pack p) (adl_pack q) (int n) =
     adl_pack ((fst p + (fst q + 65520)) mod adl_base,
       ((n mod 65521 * fst p) mod adl_base + (snd p + snd q + adl_base - n mod 65521)) mod adl_base)"
proof -
  obtain a s where p: "p = (a, s)" by (cases p) auto
  obtain b t where q: "q = (b, t)" by (cases q) auto
  have as: "a < adl_base" "s < adl_base" "b < adl_base" "t < adl_base"
    using assms by (simp_all add: p q adl_ok_def)
  have u: "unat (adl_pack p AND 0xffff) = a" "unat (drop_bit 16 (adl_pack p) AND 0xffff) = s"
    "unat (adl_pack q AND 0xffff) = b" "unat (drop_bit 16 (adl_pack q) AND 0xffff) = t"
    using adl_parts_is [of "adl_pack p", unfolded adl_parts_pack [OF assms(1)], unfolded p]
      adl_parts_is [of "adl_pack q", unfolded adl_parts_pack [OF assms(2)], unfolded q]
    unfolding p q by simp_all
  define rem where "rem = (of_int (int n mod 65521) :: u32)"
  have r: "unat rem = n mod 65521" unfolding rem_def unat_of_int_mod by (simp add: nat_mod_distrib)
  have rl: "n mod 65521 < 65521" by simp
  let ?x = "adl_pack p AND 0xffff" and ?y = "adl_pack q AND 0xffff"
  let ?s1 = "?x + (?y + BASE - 1)"
  have "unat (?y + BASE - 1) = b + 65520"
  proof -
    have "?y + BASE - 1 = ?y + 65520" by (simp add: BASE_def)
    then show ?thesis using u(3) as by (simp only:) (subst unat_plus_no_wrap, simp_all)
  qed
  then have s1: "unat ?s1 = a + (b + 65520)" using u(1) as by (subst unat_plus_no_wrap) simp_all
  let ?m = "(rem * ?x) mod BASE"
  have mm: "unat ?m = (n mod 65521 * a) mod adl_base"
  proof -
    have "n mod 65521 * a \<le> 65520 * 65520" by (intro mult_le_mono) (use rl as in linarith)+
    then have "unat (rem * ?x) = n mod 65521 * a" using r u(1) by (subst unat_mult_lem [THEN iffD1]) simp_all
    then show ?thesis by (simp add: unat_mod BASE_def)
  qed
  let ?d = "drop_bit 16 (adl_pack p) AND 0xffff" and ?e = "drop_bit 16 (adl_pack q) AND 0xffff"
  have "unat (?d + ?e) = s + t" using u(2,4) as by (subst unat_plus_no_wrap) simp_all
  then have "unat (?d + ?e + BASE) = s + t + 65521" using as by (subst unat_plus_no_wrap) (simp_all add: BASE_def)
  then have de: "unat (?d + ?e + BASE - rem) = s + t + 65521 - n mod 65521"
    using r rl by (subst unat_minus_no_wrap) (simp_all add: word_le_nat_alt)
  let ?s2 = "?m + (?d + ?e + BASE - rem)"
  have ml: "unat ?m < adl_base" unfolding mm by simp
  have s2: "unat ?s2 = (n mod 65521 * a) mod adl_base + (s + t + 65521 - n mod 65521)"
    using mm ml de as by (subst unat_plus_no_wrap) simp_all
  have l1: "unat ?s1 < 3 * adl_base" using s1 as by simp
  have l2: "unat ?s2 < 4 * adl_base" using s2 mm ml as by linarith
  have "adler32_combine (adl_pack p) (adl_pack q) (int n) =
      adl_join (let s = (if BASE \<le> ?s1 then ?s1 - BASE else ?s1) in if BASE \<le> s then s - BASE else s,
        let s = (if push_bit 1 BASE \<le> ?s2 then ?s2 - push_bit 1 BASE else ?s2) in if BASE \<le> s then s - BASE else s)"
    unfolding adler32_combine_def adl_join_def rem_def [symmetric] Let_def by (simp only: prod.case) simp
  also have "\<dots> = adl_pack ((a + (b + 65520)) mod adl_base,
      ((n mod 65521 * a) mod adl_base + (s + t + 65521 - n mod 65521)) mod adl_base)"
    by (rule adl_join_pack)
      (simp_all only: adl_is.simps chop3 [OF l1] chop2 [OF l2] s1 s2 adl_ok_def prod.case simp_thms mod_less_divisor zero_less_numeral)
  finally show ?thesis by (simp add: p q)
qed

section \<open>Properties\<close>

text \<open>The Adler-32 loops compute the checksum the format defines, whatever the length of the buffer
  and whichever of the three paths it takes: the low half is 1 plus the sum of the bytes, the high half
  the sum of the low halves after every byte, both modulo 65521. The 32-bit accumulators, reduced once
  in 5552 bytes, never wrap.\<close>

theorem adler32_checksum:
  "adler32_z 1 (Some buf) =
     of_nat ((1 + sum_list (map unat buf)) mod 65521 + (length buf + weighted buf) mod 65521 * 65536)"
  by (simp add: adler32_new adl_sums_closed adl_pack_def)

text \<open>Checksums compose. Continuing from the checksum of one buffer over the next gives the checksum
  of both, and \<open>adler32_combine\<close> computes it from the two separate checksums and the second length.\<close>

theorem adler32_composes:
  "adler32_z (adler32_z 1 (Some a)) (Some b) = adler32_z 1 (Some (a @ b)) \<and>
   adler32_combine (adler32_z 1 (Some a)) (adler32_z 1 (Some b)) (int (length b)) = adler32_z 1 (Some (a @ b))"
proof
  have ok: "adl_ok (adl_sums (1, 0) c)" for c by (rule adl_sums_ok) (simp add: adl_ok_def)
  show "adler32_z (adler32_z 1 (Some a)) (Some b) = adler32_z 1 (Some (a @ b))"
    using adler32_sums [of "adl_pack (adl_sums (1, 0) a)" b] ok
    by (simp add: adler32_new adl_parts_pack adl_sums_append)
  show "adler32_combine (adler32_z 1 (Some a)) (adler32_z 1 (Some b)) (int (length b)) = adler32_z 1 (Some (a @ b))"
    unfolding adler32_new combine_words [OF ok ok] combine_sums [of a b] ..
qed

end
