(* ===== verification/Zl_InfState.thy ===== *)
theory Zl_InfState
  imports Zl_InfTrees Zl_Crc32 Zl_Adler32
begin

text \<open>
  The state of a decompression stream (\<open>util/zlib/inflate.h\<close> and the fields of \<open>z_stream\<close> that
  \<open>inflate\<close> uses) and the macros of \<open>util/zlib/inflate.c\<close> every mode is written with.

  A stream and its \<open>inflate_state\<close> are one record. The fields \<open>z_*\<close> are those of \<open>z_stream\<close>: the
  input is the list of the \<open>avail_in\<close> bytes at \<open>next_in\<close>, the output the list \<open>z_put\<close> of the bytes
  written in the current call and the space \<open>avail_out\<close> left. The fields \<open>i_*\<close> are those of
  \<open>inflate_state\<close>; \<open>hold\<close> and \<open>bits\<close> stand for the local copies too, since every path that changes
  them restores them. The fields \<open>r_*\<close> are the locals \<open>in\<close>, \<open>out\<close> and \<open>ret\<close> of \<open>inflate\<close> and the bytes
  \<open>inflate_fast\<close> has taken. \<open>work\<close> is no field: \<open>inflate_table\<close> initialises what it reads of it.
  \<open>unsigned long\<close> has 32 bits; counters that stay far below their width are natural numbers. The
  modes carry the prefix \<open>M_\<close>; \<open>COPY_\<close> and \<open>LEN_\<close> are \<open>M_COPY0\<close> and \<open>M_LEN0\<close>.

  What the C standard leaves undefined is the outcome \<open>S_undef\<close>: an access outside an array or
  buffer, a bit count that would wrap, a copying loop of length zero.
\<close>

unbundle bit_operations_syntax

section \<open>The state\<close>

datatype inflate_mode =
    M_HEAD | M_FLAGS | M_TIME | M_OS | M_EXLEN | M_EXTRA | M_NAME | M_COMMENT | M_HCRC | M_DICTID | M_DICT
  | M_TYPE | M_TYPEDO | M_STORED | M_COPY0 | M_COPY | M_TABLE | M_LENLENS | M_CODELENS
  | M_LEN0 | M_LEN | M_LENEXT | M_DIST | M_DISTEXT | M_MATCH | M_LIT
  | M_CHECK | M_LENGTH | M_DONE | M_BAD | M_MEM | M_SYNC

text \<open>The modes in their order.\<close>

fun mode_no :: "inflate_mode \<Rightarrow> nat" where
  "mode_no M_HEAD = 0" | "mode_no M_FLAGS = 1" | "mode_no M_TIME = 2" | "mode_no M_OS = 3"
| "mode_no M_EXLEN = 4" | "mode_no M_EXTRA = 5" | "mode_no M_NAME = 6" | "mode_no M_COMMENT = 7"
| "mode_no M_HCRC = 8" | "mode_no M_DICTID = 9" | "mode_no M_DICT = 10" | "mode_no M_TYPE = 11"
| "mode_no M_TYPEDO = 12" | "mode_no M_STORED = 13" | "mode_no M_COPY0 = 14" | "mode_no M_COPY = 15"
| "mode_no M_TABLE = 16" | "mode_no M_LENLENS = 17" | "mode_no M_CODELENS = 18" | "mode_no M_LEN0 = 19"
| "mode_no M_LEN = 20" | "mode_no M_LENEXT = 21" | "mode_no M_DIST = 22" | "mode_no M_DISTEXT = 23"
| "mode_no M_MATCH = 24" | "mode_no M_LIT = 25" | "mode_no M_CHECK = 26" | "mode_no M_LENGTH = 27"
| "mode_no M_DONE = 28" | "mode_no M_BAD = 29" | "mode_no M_MEM = 30" | "mode_no M_SYNC = 31"

record gz_header =
  h_text :: nat
  h_time :: u32
  h_xflags :: u32
  h_os :: u32
  h_extra :: "bytes option"
  h_extra_len :: nat
  h_extra_max :: nat
  h_name :: "bytes option"
  h_name_max :: nat
  h_comment :: "bytes option"
  h_comm_max :: nat
  h_hcrc :: nat
  h_done :: int

text \<open>A code table is one of the fixed tables or starts at an index of \<open>codes\<close>.\<close>

datatype tab_ptr = P_lenfix | P_distfix | P_codes nat

record zstrm =
  z_in_null :: bool
  z_next_in :: bytes
  z_total_in :: u32
  z_out_null :: bool
  z_put :: bytes
  z_avail_out :: nat
  z_total_out :: u32
  z_msg :: "string option"
  z_data_type :: nat
  z_adler :: u32
  i_mode :: inflate_mode
  i_last :: nat
  i_wrap :: nat
  i_havedict :: bool
  i_flags :: u32
  i_dmax :: nat
  i_check :: u32
  i_total :: u32
  i_head :: "gz_header option"
  i_wbits :: nat
  i_wsize :: nat
  i_whave :: nat
  i_wnext :: nat
  i_window :: "bytes option"
  i_hold :: u32
  i_bits :: nat
  i_length :: nat
  i_offset :: nat
  i_extra :: nat
  i_lencode :: tab_ptr
  i_distcode :: tab_ptr
  i_lenbits :: nat
  i_distbits :: nat
  i_ncode :: nat
  i_nlen :: nat
  i_ndist :: nat
  i_have :: nat
  i_next :: nat
  i_lens :: "nat list"
  i_codes :: "code list"
  i_sane :: bool
  i_back :: int
  i_was :: nat
  r_in :: nat
  r_out :: nat
  r_ret :: int
  r_seen :: bytes

section \<open>Outcomes of a step\<close>

text \<open>Go on with the loop, \<open>goto inf_leave\<close>, return at once, or undefined.\<close>

datatype step = S_go zstrm | S_leave zstrm | S_ret int zstrm | S_undef

fun then_go :: "step \<Rightarrow> (zstrm \<Rightarrow> step) \<Rightarrow> step" where
  "then_go (S_go s) k = k s"
| "then_go (S_leave s) k = S_leave s"
| "then_go (S_ret r s) k = S_ret r s"
| "then_go S_undef k = S_undef"

definition of_opt :: "'a option \<Rightarrow> ('a \<Rightarrow> step) \<Rightarrow> step" where
  "of_opt x k = (case x of None \<Rightarrow> S_undef | Some y \<Rightarrow> k y)"

definition bad :: "string \<Rightarrow> zstrm \<Rightarrow> zstrm" where
  "bad msg s = s\<lparr>z_msg := Some msg, i_mode := M_BAD\<rparr>"

section \<open>Bits\<close>

definition INITBITS :: "zstrm \<Rightarrow> zstrm" where
  "INITBITS s = s\<lparr>i_hold := 0, i_bits := 0\<rparr>"

fun pull_bytes :: "nat \<Rightarrow> bytes \<Rightarrow> u32 \<Rightarrow> nat \<Rightarrow> bool \<times> bytes \<times> u32 \<times> nat" where
  "pull_bytes n [] hold bits = (n \<le> bits, [], hold, bits)"
| "pull_bytes n (b # r) hold bits =
     (if n \<le> bits then (True, b # r, hold, bits)
      else pull_bytes n r (hold + push_bit bits (ucast b)) (bits + 8))"

definition NEEDBITS :: "nat \<Rightarrow> zstrm \<Rightarrow> step" where
  "NEEDBITS n s =
     (let (ok, inp, hold, bits) = pull_bytes n (z_next_in s) (i_hold s) (i_bits s);
          s' = s\<lparr>z_next_in := inp, i_hold := hold, i_bits := bits\<rparr> in
      if ok then S_go s' else S_leave s')"

definition mask_bits :: "nat \<Rightarrow> u32 \<Rightarrow> nat" where
  "mask_bits n hold = unat (hold AND (push_bit n 1 - 1))"

abbreviation BITS :: "nat \<Rightarrow> zstrm \<Rightarrow> nat" where
  "BITS n s \<equiv> mask_bits n (i_hold s)"

definition DROPBITS :: "nat \<Rightarrow> zstrm \<Rightarrow> zstrm" where
  "DROPBITS n s = s\<lparr>i_hold := drop_bit n (i_hold s), i_bits := i_bits s - n\<rparr>"

definition BYTEBITS :: "zstrm \<Rightarrow> zstrm" where
  "BYTEBITS s = s\<lparr>i_hold := drop_bit (i_bits s mod 8) (i_hold s), i_bits := i_bits s - i_bits s mod 8\<rparr>"

section \<open>Table lookups\<close>

definition tab_at :: "code list \<Rightarrow> tab_ptr \<Rightarrow> nat \<Rightarrow> code option" where
  "tab_at codes p i =
     (let (tab, k) = (case p of P_lenfix \<Rightarrow> (lenfix, i) | P_distfix \<Rightarrow> (distfix, i) | P_codes j \<Rightarrow> (codes, j + i)) in
      if k < length tab then Some (tab ! k) else None)"

text \<open>
  The loop \<open>for (;;) { here = ...; if (drop + here.bits <= bits) break; PULLBYTE(); }\<close>: undefined, or the
  entry (none when the input ran out) with the input and the bit buffer.
\<close>

fun pull_code :: "(u32 \<Rightarrow> code option) \<Rightarrow> nat \<Rightarrow> bytes \<Rightarrow> u32 \<Rightarrow> nat \<Rightarrow>
    (code option \<times> bytes \<times> u32 \<times> nat) option" where
  "pull_code look dr inp hold bits =
     (case look hold of None \<Rightarrow> None
      | Some here \<Rightarrow>
          if dr + c_bits here \<le> bits then Some (Some here, inp, hold, bits)
          else (case inp of [] \<Rightarrow> Some (None, [], hold, bits)
                | b # r \<Rightarrow> pull_code look dr r (hold + push_bit bits (ucast b)) (bits + 8)))"

declare pull_code.simps [simp del]

definition get_code :: "(u32 \<Rightarrow> code option) \<Rightarrow> nat \<Rightarrow> zstrm \<Rightarrow> (code \<Rightarrow> zstrm \<Rightarrow> step) \<Rightarrow> step" where
  "get_code look dr s k =
     (case pull_code look dr (z_next_in s) (i_hold s) (i_bits s) of None \<Rightarrow> S_undef
      | Some (here, inp, hold, bits) \<Rightarrow>
          let s' = s\<lparr>z_next_in := inp, i_hold := hold, i_bits := bits\<rparr> in
          (case here of None \<Rightarrow> S_leave s' | Some e \<Rightarrow> k e s'))"

definition look_root :: "tab_ptr \<Rightarrow> nat \<Rightarrow> zstrm \<Rightarrow> u32 \<Rightarrow> code option" where
  "look_root p n s hold = tab_at (i_codes s) p (mask_bits n hold)"

definition look_sub :: "tab_ptr \<Rightarrow> code \<Rightarrow> zstrm \<Rightarrow> u32 \<Rightarrow> code option" where
  "look_sub p e s hold =
     tab_at (i_codes s) p (c_val e + mask_bits (c_bits e + c_op e) hold div 2 ^ c_bits e)"

section \<open>Copying\<close>

datatype match_src = From_out nat | From_win nat

definition put_byte :: "u8 \<Rightarrow> zstrm \<Rightarrow> zstrm option" where
  "put_byte b s =
     (if z_avail_out s = 0 then None
      else Some (s\<lparr>z_put := z_put s @ [b], z_avail_out := z_avail_out s - 1\<rparr>))"

text \<open>\<open>*put++ = *from++\<close>, with \<open>from\<close> a distance behind \<open>put\<close> or inside the window.\<close>

fun copy1 :: "match_src \<times> zstrm \<Rightarrow> (match_src \<times> zstrm) option" where
  "copy1 (From_out d, s) =
     (if 0 < d \<and> d \<le> length (z_put s)
      then map_option (\<lambda>s'. (From_out d, s')) (put_byte (z_put s ! (length (z_put s) - d)) s) else None)"
| "copy1 (From_win i, s) =
     (case i_window s of None \<Rightarrow> None
      | Some w \<Rightarrow> if i < length w then map_option (\<lambda>s'. (From_win (Suc i), s')) (put_byte (w ! i) s) else None)"

fun copy_n :: "nat \<Rightarrow> match_src \<times> zstrm \<Rightarrow> (match_src \<times> zstrm) option" where
  "copy_n 0 x = Some x"
| "copy_n (Suc n) x = Option.bind (copy1 x) (copy_n n)"

text \<open>\<open>do { ... } while (--n)\<close> with an unsigned \<open>n\<close>.\<close>

definition copy_do :: "nat \<Rightarrow> match_src \<times> zstrm \<Rightarrow> (match_src \<times> zstrm) option" where
  "copy_do n x = (if n = 0 then None else copy_n n x)"

section \<open>Check values\<close>

definition crc32 :: "u32 \<Rightarrow> bytes option \<Rightarrow> u32" where
  "crc32 crc buf = crc32_z True 0 crc buf"

definition UPDATE :: "zstrm \<Rightarrow> bytes \<Rightarrow> u32" where
  "UPDATE s b = (if i_flags s \<noteq> 0 then crc32 (i_check s) (Some b) else adler32_z (i_check s) (Some b))"

definition CRC2 :: "u32 \<Rightarrow> u32 \<Rightarrow> u32" where
  "CRC2 check w = crc32 check (Some [ucast w, ucast (drop_bit 8 w)])"

definition CRC4 :: "u32 \<Rightarrow> u32 \<Rightarrow> u32" where
  "CRC4 check w =
     crc32 check (Some [ucast w, ucast (drop_bit 8 w), ucast (drop_bit 16 w), ucast (drop_bit 24 w)])"

text \<open>The last \<open>n\<close> bytes written.\<close>

definition last_put :: "nat \<Rightarrow> zstrm \<Rightarrow> bytes option" where
  "last_put n s = (if n \<le> length (z_put s) then Some (drop (length (z_put s) - n) (z_put s)) else None)"

end
