(* ===== verification/Zl_InfFast.thy ===== *)
theory Zl_InfFast
  imports Zl_InfState
begin

text \<open>
  \<open>inflate_fast\<close> of \<open>util/zlib/inffast.c\<close>: decoding without checks for input and output, entered with at
  least 6 bytes of input and 258 bytes of output space. Reading a byte that is not there, writing past
  the space and dropping more bits than there are is undefined here; the lemmas of \<open>Zl_InfCodes\<close> show
  that it does not happen.
\<close>

unbundle bit_operations_syntax

section \<open>Input and bits\<close>

text \<open>\<open>hold += (unsigned long)( *in++ ) << bits; bits += 8;\<close>\<close>

definition fast_byte :: "zstrm \<Rightarrow> zstrm option" where
  "fast_byte s =
     (case z_next_in s of [] \<Rightarrow> None
      | b # r \<Rightarrow> Some (s\<lparr>z_next_in := r, r_seen := b # r_seen s,
                        i_hold := i_hold s + push_bit (i_bits s) (ucast b), i_bits := i_bits s + 8\<rparr>))"

definition fast_fill :: "zstrm \<Rightarrow> zstrm option" where
  "fast_fill s = (if i_bits s < 15 then Option.bind (fast_byte s) fast_byte else Some s)"

definition fast_need :: "nat \<Rightarrow> zstrm \<Rightarrow> zstrm option" where
  "fast_need n s = (if i_bits s < n then fast_byte s else Some s)"

definition fast_drop :: "nat \<Rightarrow> zstrm \<Rightarrow> zstrm option" where
  "fast_drop n s = (if n \<le> i_bits s then Some (DROPBITS n s) else None)"

section \<open>Copying a match\<close>

text \<open>\<open>while (len > 2)\<close> three bytes at a time, then the rest.\<close>

fun unrolled :: "nat \<Rightarrow> match_src \<times> zstrm \<Rightarrow> (match_src \<times> zstrm) option" where
  "unrolled len x =
     (if len > 2 then do { x \<leftarrow> copy1 x; x \<leftarrow> copy1 x; x \<leftarrow> copy1 x; unrolled (len - 3) x }
      else if len \<noteq> 0 then do { x \<leftarrow> copy1 x; if len > 1 then copy1 x else Some x }
      else Some x)"

declare unrolled.simps [simp del]

text \<open>Some from the window, the rest from the output.\<close>

definition part_then_out :: "nat \<Rightarrow> nat \<Rightarrow> nat \<Rightarrow> match_src \<times> zstrm \<Rightarrow> (match_src \<times> zstrm) option" where
  "part_then_out op len dist x =
     (if op < len then do { (src, s) \<leftarrow> copy_do op x; unrolled (len - op) (From_out dist, s) }
      else unrolled len x)"

definition window_copy :: "nat \<Rightarrow> nat \<Rightarrow> nat \<Rightarrow> zstrm \<Rightarrow> (match_src \<times> zstrm) option" where
  "window_copy op len dist s =
     (let wsize = i_wsize s; wnext = i_wnext s in
      if wnext = 0 then
        (if op \<le> wsize then part_then_out op len dist (From_win (wsize - op), s) else None)
      else if wnext < op then
        (if op \<le> wsize + wnext then
           (let from = From_win (wsize + wnext - op); op = op - wnext in
            if op < len then do {
              (src, s) \<leftarrow> copy_do op (from, s);
              part_then_out wnext (len - op) dist (From_win 0, s) }
            else unrolled len (from, s))
         else None)
      else part_then_out op len dist (From_win (wnext - op), s))"

definition fast_copy :: "nat \<Rightarrow> nat \<Rightarrow> zstrm \<Rightarrow> step" where
  "fast_copy len dist s =
     (let op = r_out s - z_avail_out s in
      if dist > op then
        (let op = dist - op in
         if op > i_whave s \<and> i_sane s then S_leave (bad ''invalid distance too far back'' s)
         else of_opt (window_copy op len dist s) (\<lambda>(src, s). S_go s))
      else if len < 3 then S_undef
      else of_opt (unrolled len (From_out dist, s)) (\<lambda>(src, s). S_go s))"

section \<open>Decoding one symbol\<close>

definition fast_dist_base :: "nat \<Rightarrow> code \<Rightarrow> zstrm \<Rightarrow> step" where
  "fast_dist_base len here s =
     (let op = c_op here AND 15 in
      of_opt (Option.bind (fast_need op s) (fast_need op)) (\<lambda>s.
        let dist = c_val here + BITS op s in
        of_opt (fast_drop op s) (\<lambda>s. fast_copy len dist s)))"

partial_function (option) fast_dist :: "nat \<Rightarrow> code \<Rightarrow> zstrm \<Rightarrow> step option" where
  "fast_dist len here s =
     (case fast_drop (c_bits here) s of None \<Rightarrow> Some S_undef
      | Some s \<Rightarrow>
          let op = c_op here in
          if op AND 16 \<noteq> 0 then Some (fast_dist_base len here s)
          else if op AND 64 = 0 then
            (case tab_at (i_codes s) (i_distcode s) (c_val here + BITS op s) of None \<Rightarrow> Some S_undef
             | Some here \<Rightarrow> fast_dist len here s)
          else Some (S_leave (bad ''invalid distance code'' s)))"

declare fast_dist.simps [code]

definition fast_len_base :: "code \<Rightarrow> zstrm \<Rightarrow> step option" where
  "fast_len_base here s =
     (let op = c_op here AND 15 in
      case (if op \<noteq> 0 then do {
              s \<leftarrow> fast_need op s;
              let len = c_val here + BITS op s;
              s \<leftarrow> fast_drop op s;
              Some (len, s) }
            else Some (c_val here, s)) of
        None \<Rightarrow> Some S_undef
      | Some (len, s) \<Rightarrow>
          (case fast_fill s of None \<Rightarrow> Some S_undef
           | Some s \<Rightarrow>
               (case tab_at (i_codes s) (i_distcode s) (BITS (i_distbits s) s) of None \<Rightarrow> Some S_undef
                | Some here \<Rightarrow> fast_dist len here s)))"

partial_function (option) fast_len :: "code \<Rightarrow> zstrm \<Rightarrow> step option" where
  "fast_len here s =
     (case fast_drop (c_bits here) s of None \<Rightarrow> Some S_undef
      | Some s \<Rightarrow>
          let op = c_op here in
          if op = 0 then Some (of_opt (put_byte (of_nat (c_val here)) s) S_go)
          else if op AND 16 \<noteq> 0 then fast_len_base here s
          else if op AND 64 = 0 then
            (case tab_at (i_codes s) (i_lencode s) (c_val here + BITS op s) of None \<Rightarrow> Some S_undef
             | Some here \<Rightarrow> fast_len here s)
          else if op AND 32 \<noteq> 0 then Some (S_leave (s\<lparr>i_mode := M_TYPE\<rparr>))
          else Some (S_leave (bad ''invalid literal/length code'' s)))"

declare fast_len.simps [code]

definition fast_iter :: "zstrm \<Rightarrow> step option" where
  "fast_iter s =
     (case fast_fill s of None \<Rightarrow> Some S_undef
      | Some s \<Rightarrow>
          (case tab_at (i_codes s) (i_lencode s) (BITS (i_lenbits s) s) of None \<Rightarrow> Some S_undef
           | Some here \<Rightarrow> fast_len here s))"

section \<open>The loop\<close>

text \<open>\<open>in < last && out < end\<close>, the condition it is entered with.\<close>

definition fast_room :: "zstrm \<Rightarrow> bool" where
  "fast_room s \<longleftrightarrow> 6 \<le> length (z_next_in s) \<and> 258 \<le> z_avail_out s"

partial_function (option) fast_loop :: "zstrm \<Rightarrow> step option" where
  "fast_loop s = Option.bind (fast_iter s) (\<lambda>r.
     case r of S_go s' \<Rightarrow> if fast_room s' then fast_loop s' else Some (S_leave s')
     | S_leave s' \<Rightarrow> Some r | S_ret v s' \<Rightarrow> Some r | S_undef \<Rightarrow> Some r)"

declare fast_loop.simps [code]

definition fast_return :: "zstrm \<Rightarrow> step" where
  "fast_return s =
     (let len = i_bits s div 8; bits = i_bits s - len * 8 in
      if len \<le> length (r_seen s)
      then S_go (s\<lparr>z_next_in := rev (take len (r_seen s)) @ z_next_in s, r_seen := [],
                  i_hold := of_nat (mask_bits bits (i_hold s)), i_bits := bits\<rparr>)
      else S_undef)"

definition inflate_fast :: "zstrm \<Rightarrow> step option" where
  "inflate_fast s = Option.bind (fast_loop (s\<lparr>r_seen := []\<rparr>)) (\<lambda>r.
     case r of S_leave s' \<Rightarrow> Some (fast_return s') | _ \<Rightarrow> Some S_undef)"

end
