(* ===== verification/Zl_Inflate.thy ===== *)
theory Zl_Inflate
  imports Zl_InfFast
begin

text \<open>
  The decompressor \<open>util/zlib/inflate.c\<close>: one definition per mode of the state machine of \<open>inflate\<close>,
  the loop over the modes, the sliding window, the work after \<open>inf_leave\<close>, and the other operations
  on a stream. A mode that falls through to the next one after setting \<open>mode\<close> is a step that goes on
  with the loop, which dispatches on \<open>mode\<close>; \<open>TYPE\<close>, which falls through without setting it, calls
  \<open>TYPEDO\<close>. A NULL stream or state is \<^term>\<open>None\<close>.
\<close>

unbundle bit_operations_syntax

section \<open>Constants\<close>

definition Z_FINISH :: int where "Z_FINISH = 4"
definition Z_BLOCK :: int where "Z_BLOCK = 5"
definition Z_TREES :: int where "Z_TREES = 6"
definition Z_OK :: int where "Z_OK = 0"
definition Z_STREAM_END :: int where "Z_STREAM_END = 1"
definition Z_NEED_DICT :: int where "Z_NEED_DICT = 2"
definition Z_STREAM_ERROR :: int where "Z_STREAM_ERROR = -2"
definition Z_DATA_ERROR :: int where "Z_DATA_ERROR = -3"
definition Z_MEM_ERROR :: int where "Z_MEM_ERROR = -4"
definition Z_BUF_ERROR :: int where "Z_BUF_ERROR = -5"

definition len_order :: "nat list" where
  "len_order = [16, 17, 18, 0, 8, 7, 9, 6, 10, 5, 11, 4, 12, 3, 13, 2, 14, 1, 15]"

section \<open>The header\<close>

definition hdr_crc :: "zstrm \<Rightarrow> bool" where
  "hdr_crc s \<longleftrightarrow> i_flags s AND 0x0200 \<noteq> 0 \<and> i_wrap s AND 4 \<noteq> 0"

definition crc2_hold :: "zstrm \<Rightarrow> zstrm" where
  "crc2_hold s = (if hdr_crc s then s\<lparr>i_check := CRC2 (i_check s) (i_hold s)\<rparr> else s)"

definition on_head :: "(gz_header \<Rightarrow> gz_header) \<Rightarrow> zstrm \<Rightarrow> zstrm" where
  "on_head f s = s\<lparr>i_head := map_option f (i_head s)\<rparr>"

definition do_HEAD :: "zstrm \<Rightarrow> step" where
  "do_HEAD s =
     (if i_wrap s = 0 then S_go (s\<lparr>i_mode := M_TYPEDO\<rparr>)
      else then_go (NEEDBITS 16 s) (\<lambda>s.
        if i_wrap s AND 2 \<noteq> 0 \<and> i_hold s = 0x8b1f then
          S_go (INITBITS (s\<lparr>i_wbits := (if i_wbits s = 0 then 15 else i_wbits s),
                          i_check := CRC2 (crc32 0 None) (i_hold s), i_mode := M_FLAGS\<rparr>))
        else
          (let s = on_head (\<lambda>h. h\<lparr>h_done := -1\<rparr>) (s\<lparr>i_flags := 0\<rparr>) in
           if i_wrap s AND 1 = 0 \<or> (BITS 8 s * 256 + unat (drop_bit 8 (i_hold s))) mod 31 \<noteq> 0
           then S_go (bad ''incorrect header check'' s)
           else if BITS 4 s \<noteq> 8 then S_go (bad ''unknown compression method'' s)
           else
             (let s = DROPBITS 4 s; len = BITS 4 s + 8;
                  s = s\<lparr>i_wbits := (if i_wbits s = 0 then len else i_wbits s)\<rparr> in
              if len > 15 \<or> len > i_wbits s then S_go (bad ''invalid window size'' s)
              else S_go (INITBITS (s\<lparr>i_dmax := 2 ^ len, z_adler := adler32_z 0 None, i_check := adler32_z 0 None,
                     i_mode := (if i_hold s AND 0x200 \<noteq> 0 then M_DICTID else M_TYPE)\<rparr>))))))"

definition do_FLAGS :: "zstrm \<Rightarrow> step" where
  "do_FLAGS s = then_go (NEEDBITS 16 s) (\<lambda>s.
     let s = s\<lparr>i_flags := i_hold s\<rparr> in
     if i_flags s AND 0xff \<noteq> 8 then S_go (bad ''unknown compression method'' s)
     else if i_flags s AND 0xe000 \<noteq> 0 then S_go (bad ''unknown header flags set'' s)
     else S_go (INITBITS (crc2_hold (on_head (\<lambda>h. h\<lparr>h_text := unat (drop_bit 8 (i_hold s) AND 1)\<rparr>) s))
                 \<lparr>i_mode := M_TIME\<rparr>))"

definition do_TIME :: "zstrm \<Rightarrow> step" where
  "do_TIME s = then_go (NEEDBITS 32 s) (\<lambda>s.
     let s = on_head (\<lambda>h. h\<lparr>h_time := i_hold s\<rparr>) s;
         s = (if hdr_crc s then s\<lparr>i_check := CRC4 (i_check s) (i_hold s)\<rparr> else s) in
     S_go ((INITBITS s)\<lparr>i_mode := M_OS\<rparr>))"

definition do_OS :: "zstrm \<Rightarrow> step" where
  "do_OS s = then_go (NEEDBITS 16 s) (\<lambda>s.
     let s = on_head (\<lambda>h. h\<lparr>h_xflags := i_hold s AND 0xff, h_os := drop_bit 8 (i_hold s)\<rparr>) s in
     S_go ((INITBITS (crc2_hold s))\<lparr>i_mode := M_EXLEN\<rparr>))"

definition do_EXLEN :: "zstrm \<Rightarrow> step" where
  "do_EXLEN s =
     (if i_flags s AND 0x0400 \<noteq> 0 then
        then_go (NEEDBITS 16 s) (\<lambda>s.
          let s = s\<lparr>i_length := unat (i_hold s)\<rparr>;
              s = on_head (\<lambda>h. h\<lparr>h_extra_len := unat (i_hold s)\<rparr>) s in
          S_go ((INITBITS (crc2_hold s))\<lparr>i_mode := M_EXTRA\<rparr>))
      else S_go (on_head (\<lambda>h. h\<lparr>h_extra := None\<rparr>) s\<lparr>i_mode := M_EXTRA\<rparr>))"

text \<open>
  The extra field is copied to \<open>head->extra\<close>; \<open>extra_max - len\<close> is unsigned, so that with \<open>len\<close> beyond
  \<open>extra_max\<close> it is a huge count, the copy of which is undefined, as is any other that leaves a block.
\<close>

definition extra_copy :: "nat \<Rightarrow> zstrm \<Rightarrow> zstrm option" where
  "extra_copy n s =
     (case i_head s of None \<Rightarrow> Some s
      | Some h \<Rightarrow>
          (case h_extra h of None \<Rightarrow> Some s
           | Some blk \<Rightarrow>
               (let len = unat (of_nat (h_extra_len h) - of_nat (i_length s) :: u32);
                    cnt = (if len + n > h_extra_max h
                           then unat (of_nat (h_extra_max h) - of_nat len :: u32) else n) in
                map_option (\<lambda>blk'. s\<lparr>i_head := Some (h\<lparr>h_extra := Some blk'\<rparr>)\<rparr>)
                  (blit blk len (z_next_in s) cnt))))"

definition do_EXTRA :: "zstrm \<Rightarrow> step" where
  "do_EXTRA s =
     (if i_flags s AND 0x0400 \<noteq> 0 then
        (let n = min (i_length s) (length (z_next_in s)) in
         of_opt (if n \<noteq> 0 then extra_copy n s else Some s) (\<lambda>s.
           let s = (if hdr_crc s \<and> n \<noteq> 0 then s\<lparr>i_check := crc32 (i_check s) (Some (take n (z_next_in s)))\<rparr> else s);
               s = s\<lparr>z_next_in := drop n (z_next_in s), i_length := i_length s - n\<rparr> in
           if i_length s \<noteq> 0 then S_leave s else S_go (s\<lparr>i_length := 0, i_mode := M_NAME\<rparr>)))
      else S_go (s\<lparr>i_length := 0, i_mode := M_NAME\<rparr>))"

text \<open>The bytes up to and including the first NUL, and whether it is there.\<close>

fun upto_nul :: "bytes \<Rightarrow> bytes \<times> bool" where
  "upto_nul [] = ([], False)"
| "upto_nul (b # r) = (if b = 0 then ([b], True) else (let (c, f) = upto_nul r in (b # c, f)))"

text \<open>Storing them in a block of which \<open>mx\<close> bytes may be used, from index \<open>length\<close> on.\<close>

fun store_str :: "nat \<Rightarrow> bytes \<Rightarrow> nat \<Rightarrow> bytes \<Rightarrow> (bytes \<times> nat) option" where
  "store_str mx blk n [] = Some (blk, n)"
| "store_str mx blk n (b # r) =
     (if n < mx then (if n < length blk then store_str mx (blk[n := b]) (Suc n) r else None)
      else store_str mx blk n r)"

definition name_copy :: "bytes \<Rightarrow> zstrm \<Rightarrow> zstrm option" where
  "name_copy b s =
     (case i_head s of None \<Rightarrow> Some s
      | Some h \<Rightarrow> (case h_name h of None \<Rightarrow> Some s
        | Some blk \<Rightarrow> map_option (\<lambda>(blk', n). s\<lparr>i_head := Some (h\<lparr>h_name := Some blk'\<rparr>), i_length := n\<rparr>)
            (store_str (h_name_max h) blk (i_length s) b)))"

definition comment_copy :: "bytes \<Rightarrow> zstrm \<Rightarrow> zstrm option" where
  "comment_copy b s =
     (case i_head s of None \<Rightarrow> Some s
      | Some h \<Rightarrow> (case h_comment h of None \<Rightarrow> Some s
        | Some blk \<Rightarrow> map_option (\<lambda>(blk', n). s\<lparr>i_head := Some (h\<lparr>h_comment := Some blk'\<rparr>), i_length := n\<rparr>)
            (store_str (h_comm_max h) blk (i_length s) b)))"

definition take_str :: "(bytes \<Rightarrow> zstrm \<Rightarrow> zstrm option) \<Rightarrow> zstrm \<Rightarrow> (zstrm \<Rightarrow> step) \<Rightarrow> step" where
  "take_str store s k =
     (if z_next_in s = [] then S_leave s
      else
        (let (b, found) = upto_nul (z_next_in s) in
         of_opt (store b s) (\<lambda>s.
           let s = (if hdr_crc s then s\<lparr>i_check := crc32 (i_check s) (Some b)\<rparr> else s);
               s = s\<lparr>z_next_in := drop (length b) (z_next_in s)\<rparr> in
           if found then k s else S_leave s)))"

definition do_NAME :: "zstrm \<Rightarrow> step" where
  "do_NAME s =
     (if i_flags s AND 0x0800 \<noteq> 0
      then take_str name_copy s (\<lambda>s. S_go (s\<lparr>i_length := 0, i_mode := M_COMMENT\<rparr>))
      else S_go (on_head (\<lambda>h. h\<lparr>h_name := None\<rparr>) s\<lparr>i_length := 0, i_mode := M_COMMENT\<rparr>))"

definition do_COMMENT :: "zstrm \<Rightarrow> step" where
  "do_COMMENT s =
     (if i_flags s AND 0x1000 \<noteq> 0
      then take_str comment_copy s (\<lambda>s. S_go (s\<lparr>i_mode := M_HCRC\<rparr>))
      else S_go (on_head (\<lambda>h. h\<lparr>h_comment := None\<rparr>) s\<lparr>i_mode := M_HCRC\<rparr>))"

definition do_HCRC :: "zstrm \<Rightarrow> step" where
  "do_HCRC s =
     (let k = (\<lambda>s. S_go (on_head (\<lambda>h. h\<lparr>h_hcrc := unat (drop_bit 9 (i_flags s) AND 1), h_done := 1\<rparr>) s
                \<lparr>z_adler := crc32 0 None, i_check := crc32 0 None, i_mode := M_TYPE\<rparr>)) in
      if i_flags s AND 0x0200 \<noteq> 0 then
        then_go (NEEDBITS 16 s) (\<lambda>s.
          if i_wrap s AND 4 \<noteq> 0 \<and> i_hold s \<noteq> i_check s AND 0xffff
          then S_go (bad ''header crc mismatch'' s) else k (INITBITS s))
      else k s)"

definition do_DICTID :: "zstrm \<Rightarrow> step" where
  "do_DICTID s = then_go (NEEDBITS 32 s) (\<lambda>s.
     S_go ((INITBITS (s\<lparr>z_adler := ZSWAP32 (i_hold s), i_check := ZSWAP32 (i_hold s)\<rparr>))\<lparr>i_mode := M_DICT\<rparr>))"

definition do_DICT :: "zstrm \<Rightarrow> step" where
  "do_DICT s =
     (if \<not> i_havedict s then S_ret Z_NEED_DICT s
      else S_go (s\<lparr>z_adler := adler32_z 0 None, i_check := adler32_z 0 None, i_mode := M_TYPE\<rparr>))"

section \<open>Block headers and stored blocks\<close>

definition fixedtables :: "zstrm \<Rightarrow> zstrm" where
  "fixedtables s = s\<lparr>i_lencode := P_lenfix, i_lenbits := 9, i_distcode := P_distfix, i_distbits := 5\<rparr>"

definition do_TYPEDO :: "int \<Rightarrow> zstrm \<Rightarrow> step" where
  "do_TYPEDO flush s =
     (if i_last s \<noteq> 0 then S_go ((BYTEBITS s)\<lparr>i_mode := M_CHECK\<rparr>)
      else then_go (NEEDBITS 3 s) (\<lambda>s.
        let s = DROPBITS 1 (s\<lparr>i_last := BITS 1 s\<rparr>) in
        if BITS 2 s = 0 then S_go (DROPBITS 2 (s\<lparr>i_mode := M_STORED\<rparr>))
        else if BITS 2 s = 1 then
          (let s = DROPBITS 2 ((fixedtables s)\<lparr>i_mode := M_LEN0\<rparr>) in
           if flush = Z_TREES then S_leave s else S_go s)
        else if BITS 2 s = 2 then S_go (DROPBITS 2 (s\<lparr>i_mode := M_TABLE\<rparr>))
        else S_go (DROPBITS 2 (bad ''invalid block type'' s))))"

definition do_TYPE :: "int \<Rightarrow> zstrm \<Rightarrow> step" where
  "do_TYPE flush s = (if flush = Z_BLOCK \<or> flush = Z_TREES then S_leave s else do_TYPEDO flush s)"

definition do_STORED :: "int \<Rightarrow> zstrm \<Rightarrow> step" where
  "do_STORED flush s = then_go (NEEDBITS 32 (BYTEBITS s)) (\<lambda>s.
     if i_hold s AND 0xffff \<noteq> (drop_bit 16 (i_hold s)) XOR 0xffff
     then S_go (bad ''invalid stored block lengths'' s)
     else
       (let s = (INITBITS (s\<lparr>i_length := unat (i_hold s AND 0xffff)\<rparr>))\<lparr>i_mode := M_COPY0\<rparr> in
        if flush = Z_TREES then S_leave s else S_go s))"

definition do_COPY :: "zstrm \<Rightarrow> step" where
  "do_COPY s =
     (if i_length s = 0 then S_go (s\<lparr>i_mode := M_TYPE\<rparr>)
      else
        (let n = min (min (i_length s) (length (z_next_in s))) (z_avail_out s) in
         if n = 0 then S_leave s
         else S_go (s\<lparr>z_put := z_put s @ take n (z_next_in s), z_next_in := drop n (z_next_in s),
                     z_avail_out := z_avail_out s - n, i_length := i_length s - n\<rparr>)))"

section \<open>Dynamic tables\<close>

definition do_TABLE :: "zstrm \<Rightarrow> step" where
  "do_TABLE s = then_go (NEEDBITS 14 s) (\<lambda>s.
     let s = DROPBITS 5 (s\<lparr>i_nlen := BITS 5 s + 257\<rparr>);
         s = DROPBITS 5 (s\<lparr>i_ndist := BITS 5 s + 1\<rparr>);
         s = DROPBITS 4 (s\<lparr>i_ncode := BITS 4 s + 4\<rparr>) in
     if i_nlen s > 286 \<or> i_ndist s > 30
     then S_go (bad ''too many length or distance symbols'' s)
     else S_go (s\<lparr>i_have := 0, i_mode := M_LENLENS\<rparr>))"

text \<open>The loop over the code length codes still to come, of which there are \<open>n\<close>.\<close>

fun lenlens_loop :: "nat \<Rightarrow> zstrm \<Rightarrow> step" where
  "lenlens_loop 0 s = S_go s"
| "lenlens_loop (Suc n) s = then_go (NEEDBITS 3 s) (\<lambda>s.
     if i_have s < length len_order \<and> len_order ! i_have s < length (i_lens s)
     then lenlens_loop n (DROPBITS 3 (s\<lparr>i_lens := (i_lens s)[len_order ! i_have s := BITS 3 s],
                                       i_have := Suc (i_have s)\<rparr>))
     else S_undef)"

definition zero_rest :: "zstrm \<Rightarrow> zstrm" where
  "zero_rest s = s\<lparr>i_lens := foldl (\<lambda>ls i. ls[i := 0]) (i_lens s) (drop (i_have s) len_order),
                  i_have := max 19 (i_have s)\<rparr>"

definition do_LENLENS :: "zstrm \<Rightarrow> step" where
  "do_LENLENS s = then_go (lenlens_loop (i_ncode s - i_have s) s) (\<lambda>s.
     let s = zero_rest s in
     of_opt (inflate_table CODES (take 19 (i_lens s)) (i_codes s) 7) (\<lambda>(ret, codes, used, bits).
       let s = s\<lparr>i_codes := codes, i_next := used, i_lencode := P_codes 0, i_lenbits := bits, r_ret := ret\<rparr> in
       if ret \<noteq> 0 then S_go (bad ''invalid code lengths set'' s)
       else S_go (s\<lparr>i_have := 0, i_mode := M_CODELENS\<rparr>)))"

text \<open>\<open>while (copy--) lens[have++] = len\<close>\<close>

fun repeat_len :: "nat \<Rightarrow> nat \<Rightarrow> zstrm \<Rightarrow> step" where
  "repeat_len 0 len s = S_go s"
| "repeat_len (Suc n) len s =
     (if i_have s < length (i_lens s)
      then repeat_len n len (s\<lparr>i_lens := (i_lens s)[i_have s := len], i_have := Suc (i_have s)\<rparr>)
      else S_undef)"

definition put_repeat :: "nat \<Rightarrow> nat \<Rightarrow> zstrm \<Rightarrow> step" where
  "put_repeat n len s =
     (if i_have s + n > i_nlen s + i_ndist s then S_go (bad ''invalid bit length repeat'' s)
      else repeat_len n len s)"

definition codelens_iter :: "zstrm \<Rightarrow> step" where
  "codelens_iter s = get_code (look_root (i_lencode s) (i_lenbits s) s) 0 s (\<lambda>here s.
     if c_val here < 16 then repeat_len 1 (c_val here) (DROPBITS (c_bits here) s)
     else if c_val here = 16 then
       then_go (NEEDBITS (c_bits here + 2) s) (\<lambda>s.
         let s = DROPBITS (c_bits here) s in
         if i_have s = 0 then S_go (bad ''invalid bit length repeat'' s)
         else if i_have s - 1 < length (i_lens s)
         then put_repeat (3 + BITS 2 s) (i_lens s ! (i_have s - 1)) (DROPBITS 2 s)
         else S_undef)
     else if c_val here = 17 then
       then_go (NEEDBITS (c_bits here + 3) s) (\<lambda>s.
         let s = DROPBITS (c_bits here) s in put_repeat (3 + BITS 3 s) 0 (DROPBITS 3 s))
     else
       then_go (NEEDBITS (c_bits here + 7) s) (\<lambda>s.
         let s = DROPBITS (c_bits here) s in put_repeat (11 + BITS 7 s) 0 (DROPBITS 7 s)))"

text \<open>Every round but an erroneous one adds a length, so \<open>nlen + ndist - have\<close> rounds are enough.\<close>

fun codelens_loop :: "nat \<Rightarrow> zstrm \<Rightarrow> step" where
  "codelens_loop 0 s = S_go s"
| "codelens_loop (Suc n) s =
     (if i_have s < i_nlen s + i_ndist s
      then then_go (codelens_iter s) (\<lambda>s. if i_mode s = M_BAD then S_go s else codelens_loop n s)
      else S_go s)"

definition do_CODELENS :: "int \<Rightarrow> zstrm \<Rightarrow> step" where
  "do_CODELENS flush s = then_go (codelens_loop (i_nlen s + i_ndist s - i_have s) s) (\<lambda>s.
     if i_mode s = M_BAD then S_go s
     else if \<not> 256 < length (i_lens s) then S_undef
     else if i_lens s ! 256 = 0 then S_go (bad ''invalid code -- missing end-of-block'' s)
     else of_opt (inflate_table LENS (take (i_nlen s) (i_lens s)) (i_codes s) 9) (\<lambda>(ret, codes, used, bits).
       let s = s\<lparr>i_codes := codes, i_next := used, i_lencode := P_codes 0, i_lenbits := bits, r_ret := ret\<rparr> in
       if ret \<noteq> 0 then S_go (bad ''invalid literal/lengths set'' s)
       else of_opt (inflate_table DISTS (take (i_ndist s) (drop (i_nlen s) (i_lens s))) (drop used (i_codes s)) 6)
         (\<lambda>(ret, codes, used', bits).
           let s = s\<lparr>i_codes := take used (i_codes s) @ codes, i_next := used + used',
                     i_distcode := P_codes used, i_distbits := bits, r_ret := ret\<rparr> in
           if ret \<noteq> 0 then S_go (bad ''invalid distances set'' s)
           else (let s = s\<lparr>i_mode := M_LEN0\<rparr> in if flush = Z_TREES then S_leave s else S_go s))))"

section \<open>Codes\<close>

text \<open>After the code itself: a literal, the end of the block, an error or a length.\<close>

definition len_symbol :: "code \<Rightarrow> zstrm \<Rightarrow> step" where
  "len_symbol here s =
     (let s = DROPBITS (c_bits here) (s\<lparr>i_back := i_back s + int (c_bits here), i_length := c_val here\<rparr>) in
      if c_op here = 0 then S_go (s\<lparr>i_mode := M_LIT\<rparr>)
      else if c_op here AND 32 \<noteq> 0 then S_go (s\<lparr>i_back := -1, i_mode := M_TYPE\<rparr>)
      else if c_op here AND 64 \<noteq> 0 then S_go (bad ''invalid literal/length code'' s)
      else S_go (s\<lparr>i_extra := c_op here AND 15, i_mode := M_LENEXT\<rparr>))"

definition do_LEN :: "zstrm \<Rightarrow> step option" where
  "do_LEN s =
     (if 6 \<le> length (z_next_in s) \<and> 258 \<le> z_avail_out s then
        map_option (\<lambda>r. then_go r (\<lambda>s. S_go (if i_mode s = M_TYPE then s\<lparr>i_back := -1\<rparr> else s))) (inflate_fast s)
      else Some
        (let s = s\<lparr>i_back := 0\<rparr> in
         get_code (look_root (i_lencode s) (i_lenbits s) s) 0 s (\<lambda>here s.
           if c_op here \<noteq> 0 \<and> c_op here AND 0xf0 = 0 then
             get_code (look_sub (i_lencode s) here s) (c_bits here) s (\<lambda>here' s.
               len_symbol here' (DROPBITS (c_bits here) (s\<lparr>i_back := i_back s + int (c_bits here)\<rparr>)))
           else len_symbol here s)))"

definition do_LENEXT :: "zstrm \<Rightarrow> step" where
  "do_LENEXT s =
     (let k = (\<lambda>s. S_go (s\<lparr>i_was := i_length s, i_mode := M_DIST\<rparr>)) in
      if i_extra s \<noteq> 0 then
        then_go (NEEDBITS (i_extra s) s) (\<lambda>s.
          k (DROPBITS (i_extra s) (s\<lparr>i_length := i_length s + BITS (i_extra s) s,
                                     i_back := i_back s + int (i_extra s)\<rparr>)))
      else k s)"

definition dist_symbol :: "code \<Rightarrow> zstrm \<Rightarrow> step" where
  "dist_symbol here s =
     (let s = DROPBITS (c_bits here) (s\<lparr>i_back := i_back s + int (c_bits here)\<rparr>) in
      if c_op here AND 64 \<noteq> 0 then S_go (bad ''invalid distance code'' s)
      else S_go (s\<lparr>i_offset := c_val here, i_extra := c_op here AND 15, i_mode := M_DISTEXT\<rparr>))"

definition do_DIST :: "zstrm \<Rightarrow> step" where
  "do_DIST s =
     get_code (look_root (i_distcode s) (i_distbits s) s) 0 s (\<lambda>here s.
       if c_op here AND 0xf0 = 0 then
         get_code (look_sub (i_distcode s) here s) (c_bits here) s (\<lambda>here' s.
           dist_symbol here' (DROPBITS (c_bits here) (s\<lparr>i_back := i_back s + int (c_bits here)\<rparr>)))
       else dist_symbol here s)"

definition do_DISTEXT :: "zstrm \<Rightarrow> step" where
  "do_DISTEXT s =
     (let k = (\<lambda>s. S_go (s\<lparr>i_mode := M_MATCH\<rparr>)) in
      if i_extra s \<noteq> 0 then
        then_go (NEEDBITS (i_extra s) s) (\<lambda>s.
          k (DROPBITS (i_extra s) (s\<lparr>i_offset := i_offset s + BITS (i_extra s) s,
                                     i_back := i_back s + int (i_extra s)\<rparr>)))
      else k s)"

definition do_MATCH :: "zstrm \<Rightarrow> step" where
  "do_MATCH s =
     (if z_avail_out s = 0 then S_leave s
      else
        (let n = r_out s - z_avail_out s in
         if i_offset s > n \<and> i_offset s - n > i_whave s \<and> i_sane s
         then S_go (bad ''invalid distance too far back'' s)
         else of_opt
           (if i_offset s > n then
              (let n = i_offset s - n in
               if n > i_wnext s then
                 (let n = n - i_wnext s in
                  if n \<le> i_wsize s then Some (From_win (i_wsize s - n), min n (i_length s)) else None)
               else Some (From_win (i_wnext s - n), min n (i_length s)))
            else Some (From_out (i_offset s), i_length s))
           (\<lambda>(from, n).
             let n = min n (z_avail_out s) in
             of_opt (copy_do n (from, s)) (\<lambda>(from, s).
               let s = s\<lparr>i_length := i_length s - n\<rparr> in
               S_go (if i_length s = 0 then s\<lparr>i_mode := M_LEN\<rparr> else s)))))"

definition do_LIT :: "zstrm \<Rightarrow> step" where
  "do_LIT s =
     (if z_avail_out s = 0 then S_leave s
      else of_opt (put_byte (of_nat (i_length s)) s) (\<lambda>s. S_go (s\<lparr>i_mode := M_LEN\<rparr>)))"

section \<open>The trailer\<close>

definition do_CHECK :: "zstrm \<Rightarrow> step" where
  "do_CHECK s =
     (let k = (\<lambda>s. S_go (s\<lparr>i_mode := M_LENGTH\<rparr>)) in
      if i_wrap s \<noteq> 0 then
        then_go (NEEDBITS 32 s) (\<lambda>s.
          let n = r_out s - z_avail_out s;
              s = s\<lparr>z_total_out := z_total_out s + of_nat n, i_total := i_total s + of_nat n\<rparr> in
          of_opt (if i_wrap s AND 4 \<noteq> 0 \<and> n \<noteq> 0
                  then map_option (\<lambda>b. s\<lparr>z_adler := UPDATE s b, i_check := UPDATE s b\<rparr>) (last_put n s)
                  else Some s) (\<lambda>s.
            let s = s\<lparr>r_out := z_avail_out s\<rparr> in
            if i_wrap s AND 4 \<noteq> 0 \<and> (if i_flags s \<noteq> 0 then i_hold s else ZSWAP32 (i_hold s)) \<noteq> i_check s
            then S_go (bad ''incorrect data check'' s)
            else k (INITBITS s)))
      else k s)"

definition do_LENGTH :: "zstrm \<Rightarrow> step" where
  "do_LENGTH s =
     (let k = (\<lambda>s. S_go (s\<lparr>i_mode := M_DONE\<rparr>)) in
      if i_wrap s \<noteq> 0 \<and> i_flags s \<noteq> 0 then
        then_go (NEEDBITS 32 s) (\<lambda>s.
          if i_hold s \<noteq> i_total s then S_go (bad ''incorrect length check'' s) else k (INITBITS s))
      else k s)"

section \<open>The loop\<close>

definition inflate_step :: "int \<Rightarrow> zstrm \<Rightarrow> step option" where
  "inflate_step flush s =
     (case i_mode s of
        M_HEAD \<Rightarrow> Some (do_HEAD s) | M_FLAGS \<Rightarrow> Some (do_FLAGS s) | M_TIME \<Rightarrow> Some (do_TIME s)
      | M_OS \<Rightarrow> Some (do_OS s) | M_EXLEN \<Rightarrow> Some (do_EXLEN s) | M_EXTRA \<Rightarrow> Some (do_EXTRA s)
      | M_NAME \<Rightarrow> Some (do_NAME s) | M_COMMENT \<Rightarrow> Some (do_COMMENT s) | M_HCRC \<Rightarrow> Some (do_HCRC s)
      | M_DICTID \<Rightarrow> Some (do_DICTID s) | M_DICT \<Rightarrow> Some (do_DICT s)
      | M_TYPE \<Rightarrow> Some (do_TYPE flush s) | M_TYPEDO \<Rightarrow> Some (do_TYPEDO flush s)
      | M_STORED \<Rightarrow> Some (do_STORED flush s)
      | M_COPY0 \<Rightarrow> Some (S_go (s\<lparr>i_mode := M_COPY\<rparr>)) | M_COPY \<Rightarrow> Some (do_COPY s)
      | M_TABLE \<Rightarrow> Some (do_TABLE s) | M_LENLENS \<Rightarrow> Some (do_LENLENS s)
      | M_CODELENS \<Rightarrow> Some (do_CODELENS flush s)
      | M_LEN0 \<Rightarrow> Some (S_go (s\<lparr>i_mode := M_LEN\<rparr>)) | M_LEN \<Rightarrow> do_LEN s
      | M_LENEXT \<Rightarrow> Some (do_LENEXT s) | M_DIST \<Rightarrow> Some (do_DIST s) | M_DISTEXT \<Rightarrow> Some (do_DISTEXT s)
      | M_MATCH \<Rightarrow> Some (do_MATCH s) | M_LIT \<Rightarrow> Some (do_LIT s)
      | M_CHECK \<Rightarrow> Some (do_CHECK s) | M_LENGTH \<Rightarrow> Some (do_LENGTH s)
      | M_DONE \<Rightarrow> Some (S_leave (s\<lparr>r_ret := Z_STREAM_END\<rparr>))
      | M_BAD \<Rightarrow> Some (S_leave (s\<lparr>r_ret := Z_DATA_ERROR\<rparr>))
      | M_MEM \<Rightarrow> Some (S_ret Z_MEM_ERROR s) | M_SYNC \<Rightarrow> Some (S_ret Z_STREAM_ERROR s))"

partial_function (option) inflate_loop :: "int \<Rightarrow> zstrm \<Rightarrow> step option" where
  "inflate_loop flush s = Option.bind (inflate_step flush s) (\<lambda>r.
     case r of S_go s' \<Rightarrow> inflate_loop flush s'
     | S_leave s' \<Rightarrow> Some r | S_ret v s' \<Rightarrow> Some r | S_undef \<Rightarrow> Some r)"

declare inflate_loop.simps [code]

section \<open>The sliding window\<close>

text \<open>
  \<open>updatewindow(strm, end, copy)\<close>, with the list of the \<open>copy\<close> bytes before \<open>end\<close>. The allocator is a
  parameter; the first component of the result is the return value.
\<close>

definition window_alloc :: "(nat \<Rightarrow> bytes option) \<Rightarrow> zstrm \<Rightarrow> zstrm option" where
  "window_alloc zalloc s =
     (if i_window s = None
      then map_option (\<lambda>w. s\<lparr>i_window := Some w\<rparr>) (zalloc (2 ^ i_wbits s)) else Some s)"

definition window_put :: "bytes \<Rightarrow> zstrm \<Rightarrow> zstrm option" where
  "window_put out s = do {
     w \<leftarrow> i_window s;
     let copy = length out;
     let wsize = i_wsize s;
     if copy \<ge> wsize then do {
       w \<leftarrow> blit w 0 (drop (copy - wsize) out) wsize;
       Some (s\<lparr>i_window := Some w, i_wnext := 0, i_whave := wsize\<rparr>) }
     else do {
       let dist = min (wsize - i_wnext s) copy;
       w \<leftarrow> blit w (i_wnext s) out dist;
       let copy = copy - dist;
       if copy \<noteq> 0 then do {
         w \<leftarrow> blit w 0 (drop dist out) copy;
         Some (s\<lparr>i_window := Some w, i_wnext := copy, i_whave := wsize\<rparr>) }
       else
         (let next = i_wnext s + dist in
          Some (s\<lparr>i_window := Some w, i_wnext := (if next = wsize then 0 else next),
                 i_whave := (if i_whave s < wsize then i_whave s + dist else i_whave s)\<rparr>)) } }"

definition updatewindow :: "(nat \<Rightarrow> bytes option) \<Rightarrow> bytes \<Rightarrow> zstrm \<Rightarrow> (nat \<times> zstrm) option" where
  "updatewindow zalloc out s =
     (case window_alloc zalloc s of None \<Rightarrow> Some (1, s)
      | Some s \<Rightarrow>
          let s = (if i_wsize s = 0 then s\<lparr>i_wsize := 2 ^ i_wbits s, i_wnext := 0, i_whave := 0\<rparr> else s) in
          map_option (Pair 0) (window_put out s))"

section \<open>inflate\<close>

text \<open>What a call gives: its return value and the stream, or undefined behaviour.\<close>

datatype result = I_ret int zstrm | I_undef

definition leave_totals :: "int \<Rightarrow> zstrm \<Rightarrow> result" where
  "leave_totals flush s =
     (let nin = r_in s - length (z_next_in s); out = r_out s - z_avail_out s;
          s = s\<lparr>z_total_in := z_total_in s + of_nat nin, z_total_out := z_total_out s + of_nat out,
                i_total := i_total s + of_nat out\<rparr> in
      case (if i_wrap s AND 4 \<noteq> 0 \<and> out \<noteq> 0
            then map_option (\<lambda>b. s\<lparr>z_adler := UPDATE s b, i_check := UPDATE s b\<rparr>) (last_put out s)
            else Some s) of None \<Rightarrow> I_undef
      | Some s \<Rightarrow>
          let s = s\<lparr>z_data_type := i_bits s + (if i_last s \<noteq> 0 then 64 else 0) +
                (if i_mode s = M_TYPE then 128 else 0) +
                (if i_mode s = M_LEN0 \<or> i_mode s = M_COPY0 then 256 else 0)\<rparr> in
          I_ret (if (nin = 0 \<and> out = 0 \<or> flush = Z_FINISH) \<and> r_ret s = Z_OK then Z_BUF_ERROR else r_ret s) s)"

definition inf_leave :: "(nat \<Rightarrow> bytes option) \<Rightarrow> int \<Rightarrow> zstrm \<Rightarrow> result" where
  "inf_leave zalloc flush s =
     (let out = r_out s - z_avail_out s in
      if i_wsize s \<noteq> 0 \<or> out \<noteq> 0 \<and> mode_no (i_mode s) < mode_no M_BAD \<and>
           (mode_no (i_mode s) < mode_no M_CHECK \<or> flush \<noteq> Z_FINISH)
      then (case Option.bind (last_put out s) (\<lambda>b. updatewindow zalloc b s) of None \<Rightarrow> I_undef
            | Some (ret, s) \<Rightarrow> if ret \<noteq> 0 then I_ret Z_MEM_ERROR (s\<lparr>i_mode := M_MEM\<rparr>) else leave_totals flush s)
      else leave_totals flush s)"

definition inflate_start :: "zstrm \<Rightarrow> zstrm" where
  "inflate_start s = s\<lparr>i_mode := (if i_mode s = M_TYPE then M_TYPEDO else i_mode s), z_put := [],
     r_in := length (z_next_in s), r_out := z_avail_out s, r_ret := Z_OK\<rparr>"

definition inflate :: "(nat \<Rightarrow> bytes option) \<Rightarrow> int \<Rightarrow> zstrm \<Rightarrow> result option" where
  "inflate zalloc flush s =
     (if z_out_null s \<or> z_in_null s \<and> z_next_in s \<noteq> [] then Some (I_ret Z_STREAM_ERROR s)
      else map_option (\<lambda>r. case r of S_leave s' \<Rightarrow> inf_leave zalloc flush s' | S_ret v s' \<Rightarrow> I_ret v s' | _ \<Rightarrow> I_undef)
             (inflate_loop flush (inflate_start s)))"

section \<open>Starting and resetting\<close>

definition inflateResetKeep :: "zstrm \<Rightarrow> int \<times> zstrm" where
  "inflateResetKeep s =
     (let s = s\<lparr>z_total_in := 0, z_total_out := 0, i_total := 0, z_msg := None\<rparr>;
          s = (if i_wrap s \<noteq> 0 then s\<lparr>z_adler := of_nat (i_wrap s AND 1)\<rparr> else s) in
      (Z_OK, s\<lparr>i_mode := M_HEAD, i_last := 0, i_havedict := False, i_dmax := 32768, i_head := None,
              i_hold := 0, i_bits := 0, i_lencode := P_codes 0, i_distcode := P_codes 0, i_next := 0,
              i_sane := True, i_back := -1\<rparr>))"

definition inflateReset :: "zstrm \<Rightarrow> int \<times> zstrm" where
  "inflateReset s = inflateResetKeep (s\<lparr>i_wsize := 0, i_whave := 0, i_wnext := 0\<rparr>)"

definition inflateReset2 :: "int \<Rightarrow> zstrm \<Rightarrow> int \<times> zstrm" where
  "inflateReset2 windowBits s =
     (let (wrap, wb) =
        (if windowBits < 0 then (0, - windowBits)
         else (nat (drop_bit 4 windowBits) + 5, if windowBits < 48 then windowBits AND 15 else windowBits)) in
      if wb \<noteq> 0 \<and> (wb < 8 \<or> wb > 15) then (Z_STREAM_ERROR, s)
      else
        inflateReset (s\<lparr>i_window := (if i_window s \<noteq> None \<and> i_wbits s \<noteq> nat wb then None else i_window s),
                        i_wrap := wrap, i_wbits := nat wb\<rparr>))"

text \<open>\<open>inflateInit2_\<close> with a matching version: \<open>g\<close> is the fresh block for the state, if there is one.\<close>

definition inflateInit2 :: "int \<Rightarrow> zstrm option \<Rightarrow> int \<times> zstrm option" where
  "inflateInit2 windowBits g =
     (case g of None \<Rightarrow> (Z_MEM_ERROR, None)
      | Some s \<Rightarrow>
          let (ret, s) = inflateReset2 windowBits (s\<lparr>z_msg := None, i_window := None, i_mode := M_HEAD\<rparr>) in
          if ret \<noteq> Z_OK then (ret, None) else (ret, Some s))"

definition inflateInit :: "zstrm option \<Rightarrow> int \<times> zstrm option" where
  "inflateInit = inflateInit2 15"

definition inflatePrime :: "int \<Rightarrow> int \<Rightarrow> zstrm \<Rightarrow> int \<times> zstrm" where
  "inflatePrime n val s =
     (if n < 0 then (Z_OK, s\<lparr>i_hold := 0, i_bits := 0\<rparr>)
      else if n > 16 \<or> i_bits s + nat n > 32 then (Z_STREAM_ERROR, s)
      else (Z_OK, s\<lparr>i_hold := i_hold s + push_bit (i_bits s) (of_int (val AND (2 ^ nat n - 1))),
                   i_bits := i_bits s + nat n\<rparr>))"

definition inflateEnd :: "zstrm option \<Rightarrow> int \<times> zstrm option" where
  "inflateEnd h = (case h of None \<Rightarrow> (Z_STREAM_ERROR, None) | Some s \<Rightarrow> (Z_OK, None))"

section \<open>The other operations\<close>

definition inflateGetDictionary :: "zstrm \<Rightarrow> bytes option" where
  "inflateGetDictionary s =
     (if i_whave s \<noteq> 0 then do {
        w \<leftarrow> i_window s;
        if i_wnext s \<le> i_whave s then do {
          a \<leftarrow> bslice w (i_wnext s) (i_whave s - i_wnext s);
          b \<leftarrow> bslice w 0 (i_wnext s);
          Some (a @ b) }
        else None }
      else Some [])"

definition inflateSetDictionary :: "(nat \<Rightarrow> bytes option) \<Rightarrow> bytes \<Rightarrow> zstrm \<Rightarrow> (int \<times> zstrm) option" where
  "inflateSetDictionary zalloc dict s =
     (if i_wrap s \<noteq> 0 \<and> i_mode s \<noteq> M_DICT then Some (Z_STREAM_ERROR, s)
      else if i_mode s = M_DICT \<and> adler32_z (adler32_z 0 None) (Some dict) \<noteq> i_check s then Some (Z_DATA_ERROR, s)
      else map_option (\<lambda>(ret, s). if ret \<noteq> 0 then (Z_MEM_ERROR, s\<lparr>i_mode := M_MEM\<rparr>)
                                  else (Z_OK, s\<lparr>i_havedict := True\<rparr>))
             (updatewindow zalloc dict s))"

definition inflateGetHeader :: "gz_header \<Rightarrow> zstrm \<Rightarrow> int \<times> zstrm" where
  "inflateGetHeader h s =
     (if i_wrap s AND 2 = 0 then (Z_STREAM_ERROR, s) else (Z_OK, s\<lparr>i_head := Some (h\<lparr>h_done := 0\<rparr>)\<rparr>))"

text \<open>The pattern bytes found so far and the bytes looked at.\<close>

fun syncsearch :: "nat \<Rightarrow> bytes \<Rightarrow> nat \<times> nat" where
  "syncsearch got [] = (got, 0)"
| "syncsearch got (b # r) =
     (if 4 \<le> got then (got, 0)
      else
        (let got' = (if b = (if got < 2 then 0 else 0xff) then Suc got else if b \<noteq> 0 then 0 else 4 - got);
             (g, n) = syncsearch got' r in (g, Suc n)))"

fun hold_bytes :: "nat \<Rightarrow> u32 \<Rightarrow> bytes" where
  "hold_bytes 0 hold = []"
| "hold_bytes (Suc n) hold = ucast hold # hold_bytes n (drop_bit 8 hold)"

definition inflateSync :: "zstrm \<Rightarrow> int \<times> zstrm" where
  "inflateSync s =
     (if z_next_in s = [] \<and> i_bits s < 8 then (Z_BUF_ERROR, s)
      else
        (let s = (if i_mode s \<noteq> M_SYNC then
               (let hold = push_bit (i_bits s mod 8) (i_hold s); n = i_bits s div 8 in
                s\<lparr>i_mode := M_SYNC, i_hold := drop_bit (8 * n) hold, i_bits := 0,
                  i_have := fst (syncsearch 0 (hold_bytes n hold))\<rparr>) else s);
             (got, n) = syncsearch (i_have s) (z_next_in s);
             s = s\<lparr>i_have := got, z_next_in := drop n (z_next_in s), z_total_in := z_total_in s + of_nat n\<rparr> in
         if got \<noteq> 4 then (Z_DATA_ERROR, s)
         else (Z_OK, (snd (inflateReset s))\<lparr>z_total_in := z_total_in s, z_total_out := z_total_out s, i_mode := M_TYPE\<rparr>)))"

definition inflateSyncPoint :: "zstrm \<Rightarrow> bool" where
  "inflateSyncPoint s \<longleftrightarrow> i_mode s = M_STORED \<and> i_bits s = 0"

text \<open>The copy, given whether the state block was there and the block for the window.\<close>

definition inflateCopy :: "bool \<Rightarrow> (nat \<Rightarrow> bytes option) \<Rightarrow> zstrm \<Rightarrow> (int \<times> zstrm option) option" where
  "inflateCopy got zalloc s =
     (if \<not> got then Some (Z_MEM_ERROR, None)
      else
        (case i_window s of None \<Rightarrow> Some (Z_OK, Some s)
         | Some w \<Rightarrow>
             (case zalloc (2 ^ i_wbits s) of None \<Rightarrow> Some (Z_MEM_ERROR, None)
              | Some blk \<Rightarrow> map_option (\<lambda>w'. (Z_OK, Some (s\<lparr>i_window := Some w'\<rparr>))) (blit blk 0 w (2 ^ i_wbits s)))))"

definition inflateUndermine :: "bool \<Rightarrow> zstrm \<Rightarrow> int \<times> zstrm" where
  "inflateUndermine subvert s = (Z_DATA_ERROR, s\<lparr>i_sane := True\<rparr>)"

definition inflateValidate :: "bool \<Rightarrow> zstrm \<Rightarrow> int \<times> zstrm" where
  "inflateValidate check s =
     (Z_OK, s\<lparr>i_wrap := (if check then i_wrap s OR 4 else i_wrap s - (i_wrap s AND 4))\<rparr>)"

definition inflateMark :: "zstrm \<Rightarrow> int" where
  "inflateMark s = sint (push_bit 16 (of_int (i_back s)) +
     (of_nat (if i_mode s = M_COPY then i_length s
      else if i_mode s = M_MATCH then i_was s - i_length s else 0)) :: u32)"

definition inflateCodesUsed :: "zstrm \<Rightarrow> nat" where
  "inflateCodesUsed s = i_next s"

end
