(* ===== verification/Zl_InfLookup.thy ===== *)
theory Zl_InfLookup
  imports Zl_Inflate
begin

text \<open>
  Facts on the bit buffer of \<open>inflate\<close>: what \<open>NEEDBITS\<close> and the loops that pull bytes until a code is
  complete give, and the two stages of a code lookup as one rule. The bits already in the buffer stay
  what they are, so by \<open>prefix_ok\<close> an entry that they decide is the one found.
\<close>

section \<open>Bits and pulls\<close>

abbreviation in_bits :: "bytes \<Rightarrow> nat \<Rightarrow> nat" where
  "in_bits inp bits \<equiv> bits + 8 * length inp"

abbreviation left_bits :: "zstrm \<Rightarrow> nat" where
  "left_bits s \<equiv> in_bits (z_next_in s) (i_bits s)"

lemma mask_bits_mod: "mask_bits n hold = unat hold mod 2 ^ n"
proof -
  have "hold AND (push_bit n 1 - 1) = take_bit n hold"
    by (simp add: take_bit_eq_mask mask_eq_exp_minus_1 push_bit_of_1)
  then have "mask_bits n hold = take_bit n (unat hold)" by (simp only: mask_bits_def unsigned_take_bit_eq)
  then show ?thesis by (simp only: take_bit_eq_mod)
qed

lemma mask_bits_lt: "mask_bits n hold < 2 ^ n"
  by (simp add: mask_bits_mod)

lemma pull_low: "unat (hold + push_bit bits (ucast b) :: u32) mod 2 ^ bits = unat hold mod 2 ^ bits"
proof (cases "bits \<le> 32")
  case True
  have e: "hold + push_bit bits (ucast b) = of_nat (unat hold + unat (ucast b :: u32) * 2 ^ bits)"
    by (simp add: push_bit_eq_mult)
  have "unat (hold + push_bit bits (ucast b) :: u32) = (unat hold + unat (ucast b :: u32) * 2 ^ bits) mod 2 ^ 32"
    unfolding e by (simp only: unsigned_of_nat take_bit_eq_mod) simp
  moreover have "(2 :: nat) ^ bits dvd 2 ^ 32" using True by (rule le_imp_power_dvd)
  ultimately show ?thesis by (simp add: mod_mod_cancel)
next
  case False
  then have "push_bit bits (ucast b :: u32) = 0" by (simp add: bit_eq_iff bit_push_bit_iff)
  then show ?thesis by simp
qed

lemma unat_drop: "unat (drop_bit n hold) = unat hold div 2 ^ n" for hold :: u32
  by (simp only: unat_drop_bit_eq) (simp only: drop_bit_eq_div)

lemma low_trans: "x mod 2 ^ n = y mod 2 ^ n \<Longrightarrow> m \<le> n \<Longrightarrow> x mod 2 ^ m = y mod 2 ^ m" for x y :: nat
  by (metis le_imp_power_dvd mod_mod_cancel)

lemma pull_bytes_spec:
  "pull_bytes n inp hold bits = (ok, inp', hold', bits') \<Longrightarrow>
     in_bits inp' bits' = in_bits inp bits \<and> (ok \<longleftrightarrow> n \<le> bits') \<and> (\<not> ok \<longrightarrow> inp' = []) \<and>
     (bits' = bits \<and> hold' = hold \<and> inp' = inp \<or> bits' < n + 8) \<and> bits \<le> bits' \<and>
     unat hold' mod 2 ^ bits = unat hold mod 2 ^ bits"
proof (induction n inp hold bits rule: pull_bytes.induct)
  case (2 n b r hold bits)
  show ?case
  proof (cases "n \<le> bits")
    case False
    let ?h = "hold + push_bit bits (ucast b)"
    from 2 False have *: "in_bits inp' bits' = in_bits r (bits + 8) \<and> (ok \<longleftrightarrow> n \<le> bits') \<and> (\<not> ok \<longrightarrow> inp' = []) \<and>
       (bits' = bits + 8 \<and> hold' = ?h \<and> inp' = r \<or> bits' < n + 8) \<and> bits + 8 \<le> bits' \<and>
       unat hold' mod 2 ^ (bits + 8) = unat ?h mod 2 ^ (bits + 8)" by simp
    then have "unat hold' mod 2 ^ bits = unat ?h mod 2 ^ bits" by (metis low_trans le_add1)
    then show ?thesis using * False pull_low [of hold bits b] by auto
  qed (use 2 in auto)
qed auto

text \<open>A NEEDBITS either goes on with enough bits or has used up the input.\<close>

definition pulled :: "zstrm \<Rightarrow> bytes \<Rightarrow> u32 \<Rightarrow> nat \<Rightarrow> zstrm" where
  "pulled s inp hold bits = s\<lparr>z_next_in := inp, i_hold := hold, i_bits := bits\<rparr>"

lemma needbits_rule:
  assumes go: "\<And>inp hold bits. in_bits inp bits = left_bits s \<Longrightarrow> n \<le> bits \<Longrightarrow>
      bits = i_bits s \<and> hold = i_hold s \<and> inp = z_next_in s \<or> bits < n + 8 \<Longrightarrow>
      unat hold mod 2 ^ i_bits s = unat (i_hold s) mod 2 ^ i_bits s \<Longrightarrow> P (k (pulled s inp hold bits))"
    and leave: "\<And>inp hold bits. in_bits inp bits = left_bits s \<Longrightarrow> bits < n \<Longrightarrow> i_bits s \<le> bits \<Longrightarrow>
      unat hold mod 2 ^ i_bits s = unat (i_hold s) mod 2 ^ i_bits s \<Longrightarrow> P (S_leave (pulled s inp hold bits))"
  shows "P (then_go (NEEDBITS n s) k)"
proof -
  obtain ok inp hold bits where p: "pull_bytes n (z_next_in s) (i_hold s) (i_bits s) = (ok, inp, hold, bits)"
    by (metis prod_cases4)
  have n: "NEEDBITS n s = (if ok then S_go (pulled s inp hold bits) else S_leave (pulled s inp hold bits))"
    by (simp add: NEEDBITS_def p pulled_def)
  from pull_bytes_spec [OF p] show ?thesis
    using go [of bits inp hold] leave [of bits inp hold] by (cases ok) (auto simp: n)
qed

lemma pull_code_spec:
  assumes look: "\<And>h. unat h mod 2 ^ d = c \<Longrightarrow> \<exists>e. look h = Some e \<and> dr + c_bits e \<le> N h"
    and pre: "\<And>h h' n. unat h mod 2 ^ d = c \<Longrightarrow> unat h' mod 2 ^ d = c \<Longrightarrow> N h \<le> n \<Longrightarrow>
        unat h mod 2 ^ n = unat h' mod 2 ^ n \<Longrightarrow> N h' = N h"
  shows "d \<le> bits \<Longrightarrow> unat hold mod 2 ^ d = c \<Longrightarrow> \<exists>r inp' hold' bits'.
     pull_code look dr inp hold bits = Some (r, inp', hold', bits') \<and>
     in_bits inp' bits' = in_bits inp bits \<and> bits \<le> bits' \<and>
     unat hold' mod 2 ^ bits = unat hold mod 2 ^ bits \<and>
     (case r of None \<Rightarrow> bits' < N hold' | Some e \<Rightarrow> look hold' = Some e \<and> dr + c_bits e \<le> bits') \<and>
     (bits' = bits \<and> hold' = hold \<or> bits' < N hold' + 8)"
proof (induction inp arbitrary: hold bits)
  case Nil
  obtain e where e: "look hold = Some e" "dr + c_bits e \<le> N hold" using look Nil by blast
  then show ?case by (subst pull_code.simps) auto
next
  case (Cons b inp)
  obtain e where e: "look hold = Some e" "dr + c_bits e \<le> N hold" using look Cons.prems by blast
  show ?case
  proof (cases "dr + c_bits e \<le> bits")
    case True
    then show ?thesis using e by (subst pull_code.simps) auto
  next
    case False
    let ?h = "hold + push_bit bits (ucast b)"
    have low: "unat ?h mod 2 ^ bits = unat hold mod 2 ^ bits" by (rule pull_low)
    have hd: "unat ?h mod 2 ^ d = c" using low_trans [OF low Cons.prems(1)] Cons.prems(2) by simp
    have run: "pull_code look dr (b # inp) hold bits = pull_code look dr inp ?h (bits + 8)"
      using e False by (subst pull_code.simps) simp
    obtain r inp' hold' bits' where r: "pull_code look dr inp ?h (bits + 8) = Some (r, inp', hold', bits')"
      "in_bits inp' bits' = in_bits inp (bits + 8)" "bits + 8 \<le> bits'"
      "unat hold' mod 2 ^ (bits + 8) = unat ?h mod 2 ^ (bits + 8)"
      "case r of None \<Rightarrow> bits' < N hold' | Some e \<Rightarrow> look hold' = Some e \<and> dr + c_bits e \<le> bits'"
      "bits' = bits + 8 \<and> hold' = ?h \<or> bits' < N hold' + 8"
      using Cons.IH [of "bits + 8" ?h] Cons.prems(1) hd by auto
    have low': "unat hold' mod 2 ^ bits = unat hold mod 2 ^ bits"
      using low_trans [OF r(4), of bits] low by simp
    have "bits' < N hold' + 8"
    proof (rule ccontr)
      assume n: "\<not> bits' < N hold' + 8"
      then have "bits' = bits + 8" "N hold' \<le> bits" using r(6) by auto
      moreover have "unat hold' mod 2 ^ d = c" using low_trans [OF low' Cons.prems(1)] Cons.prems(2) by simp
      ultimately have "N hold = N hold'" using pre [of hold' hold bits] Cons.prems(2) low' by simp
      then show False using e(2) False \<open>N hold' \<le> bits\<close> by simp
    qed
    then show ?thesis using run r low' by (cases r) auto
  qed
qed

section \<open>The two-level lookup\<close>

definition tab_of :: "code list \<Rightarrow> tab_ptr \<Rightarrow> code list" where
  "tab_of codes p = (case p of P_lenfix \<Rightarrow> lenfix | P_distfix \<Rightarrow> distfix | P_codes k \<Rightarrow> drop k codes)"

lemma tab_at_of: "tab_at codes p i = (if i < length (tab_of codes p) then Some (tab_of codes p ! i) else None)"
  by (auto simp: tab_at_def tab_of_def split: tab_ptr.splits)

definition good_table :: "codetype \<Rightarrow> code list \<Rightarrow> tab_ptr \<Rightarrow> nat \<Rightarrow> bool" where
  "good_table type codes p root \<longleftrightarrow> table_wf type (tab_of codes p) root \<and> prefix_ok (tab_of codes p) root"

definition entry_of :: "code list \<Rightarrow> tab_ptr \<Rightarrow> nat \<Rightarrow> u32 \<Rightarrow> code" where
  "entry_of codes p root hold = the (tab_lookup (tab_of codes p) root (unat hold))"

abbreviation need_of :: "code list \<Rightarrow> tab_ptr \<Rightarrow> nat \<Rightarrow> u32 \<Rightarrow> nat" where
  "need_of codes p root hold \<equiv> c_bits (entry_of codes p root hold)"

lemma entry_prefix:
  assumes "good_table type codes p root" and "need_of codes p root h \<le> n" and "unat h mod 2 ^ n = unat h' mod 2 ^ n"
  shows "entry_of codes p root h' = entry_of codes p root h"
proof -
  have wf: "table_wf type (tab_of codes p) root" "prefix_ok (tab_of codes p) root"
    using assms(1) by (simp_all add: good_table_def)
  obtain e where e: "tab_lookup (tab_of codes p) root (unat h) = Some e" by (rule lookup_entry [OF wf(1)])
  then have "c_bits e \<le> n" using assms(2) by (simp add: entry_of_def)
  with wf(2) e assms(3) have "tab_lookup (tab_of codes p) root (unat h') = Some e"
    unfolding prefix_ok_def by blast
  then show ?thesis using e by (simp add: entry_of_def)
qed

text \<open>The entry a bit buffer selects in the root table, and in the sub-table it leads to.\<close>

lemma root_entry:
  assumes "good_table type codes p root"
  obtains (last) e where "tab_at codes p (mask_bits root h) = Some e" "end_entry type root e"
      "entry_of codes p root h = e"
  | (sub) l e where "tab_at codes p (mask_bits root h) = Some l" "sub_entry type root (tab_of codes p) l"
      "tab_at codes p (c_val l + mask_bits (root + c_op l) h div 2 ^ root) = Some e"
      "end_entry type (MAXBITS - root) e"
      "entry_of codes p root h = Code (c_op e) (root + c_bits e) (c_val e)"
proof -
  have wf: "table_wf type (tab_of codes p) root" using assms by (simp add: good_table_def)
  have i: "mask_bits root h < length (tab_of codes p)"
    using mask_bits_lt [of root h] wf unfolding table_wf_def by linarith
  have r: "root \<le> MAXBITS" using wf by (simp add: table_wf_def)
  show thesis
  proof (rule lookup_entry [OF wf, of "unat h"])
    fix e assume e: "tab_lookup (tab_of codes p) root (unat h) = Some e" "end_entry type MAXBITS e"
    let ?t = "tab_of codes p ! (unat h mod 2 ^ root)"
    have at: "tab_at codes p (mask_bits root h) = Some ?t" using i by (simp add: tab_at_of mask_bits_mod)
    have eo: "entry_of codes p root h = e" using e(1) by (simp add: entry_of_def)
    assume "?t = e \<and> c_bits e \<le> root \<and> (c_op e = 0 \<or> c_op e AND 0xf0 \<noteq> 0) \<or>
      (\<exists>l. ?t = l \<and> sub_entry type root (tab_of codes p) l \<and> c_op l \<noteq> 0 \<and> c_op l AND 0xf0 = 0 \<and>
        (let i = c_val l + unat h mod 2 ^ (root + c_op l) div 2 ^ root in
         i < length (tab_of codes p) \<and> end_entry type (MAXBITS - root) (tab_of codes p ! i) \<and>
         e = Code (c_op (tab_of codes p ! i)) (root + c_bits (tab_of codes p ! i)) (c_val (tab_of codes p ! i))))"
    then show thesis
    proof (elim disjE exE conjE)
      assume t: "?t = e" "c_bits e \<le> root"
      have "end_entry type root e" using e(2) t(2) by (cases type; cases e) auto
      then show thesis using last [of e] at eo t(1) by simp
    next
      assume t: "?t = e" "c_bits e \<le> root"
      have "end_entry type root e" using e(2) t(2) by (cases type; cases e) auto
      then show thesis using last [of e] at eo t(1) by simp
    next
      fix l assume l: "?t = l" "sub_entry type root (tab_of codes p) l"
        "let i = c_val l + unat h mod 2 ^ (root + c_op l) div 2 ^ root in
         i < length (tab_of codes p) \<and> end_entry type (MAXBITS - root) (tab_of codes p ! i) \<and>
         e = Code (c_op (tab_of codes p ! i)) (root + c_bits (tab_of codes p ! i)) (c_val (tab_of codes p ! i))"
      then show thesis using sub [of l] at eo by (simp add: tab_at_of mask_bits_mod Let_def)
    qed
  qed
qed

lemma pulled_simps [simp]:
  "pulled (pulled s a b c) d e f = pulled s d e f"
  "i_codes (pulled s inp hold bits) = i_codes s" "z_next_in (pulled s inp hold bits) = inp"
  "i_hold (pulled s inp hold bits) = hold" "i_bits (pulled s inp hold bits) = bits"
  by (simp_all add: pulled_def)

lemma get_code_eq:
  "get_code look dr s k =
     (case pull_code look dr (z_next_in s) (i_hold s) (i_bits s) of None \<Rightarrow> S_undef
      | Some (None, inp, hold, bits) \<Rightarrow> S_leave (pulled s inp hold bits)
      | Some (Some e, inp, hold, bits) \<Rightarrow> k e (pulled s inp hold bits))"
  by (auto simp: get_code_def pulled_def split: option.splits prod.splits)

lemma two_level:
  assumes good: "good_table type (i_codes s) p root"
    and t: "\<And>e. end_entry type root e \<Longrightarrow> \<not> t e" "\<And>e. sub_entry type root (tab_of (i_codes s) p) e \<Longrightarrow> t e"
    and leave: "\<And>inp hold bits. in_bits inp bits = left_bits s \<Longrightarrow> bits < need_of (i_codes s) p root hold \<Longrightarrow>
       P (S_leave (pulled s inp hold bits))"
    and one: "\<And>inp hold bits e. in_bits inp bits = left_bits s \<Longrightarrow> e = entry_of (i_codes s) p root hold \<Longrightarrow>
       end_entry type root e \<Longrightarrow> c_bits e \<le> bits \<Longrightarrow>
       bits = i_bits s \<and> hold = i_hold s \<or> bits < c_bits e + 8 \<Longrightarrow> P (k1 e (pulled s inp hold bits))"
    and two: "\<And>inp hold bits l e. in_bits inp bits = left_bits s \<Longrightarrow> sub_entry type root (tab_of (i_codes s) p) l \<Longrightarrow>
       entry_of (i_codes s) p root hold = Code (c_op e) (root + c_bits e) (c_val e) \<Longrightarrow>
       end_entry type (MAXBITS - root) e \<Longrightarrow> root + c_bits e \<le> bits \<Longrightarrow>
       bits = i_bits s \<and> hold = i_hold s \<or> bits < root + c_bits e + 8 \<Longrightarrow> P (k2 l e (pulled s inp hold bits))"
  shows "P (get_code (look_root p root s) 0 s (\<lambda>here s.
       if t here then get_code (look_sub p here s) (c_bits here) s (k2 here) else k1 here s))"
proof -
  let ?N = "need_of (i_codes s) p root"
  have sb: "sub_entry type root (tab_of (i_codes s) p) l \<Longrightarrow> c_bits l = root" for l by (simp add: sub_entry_def)
  have look: "\<exists>e. look_root p root s h = Some e \<and> 0 + c_bits e \<le> ?N h" for h
    by (rule root_entry [OF good, of h]) (auto simp: look_root_def dest: sb)
  obtain r inp hold bits where p1: "pull_code (look_root p root s) 0 (z_next_in s) (i_hold s) (i_bits s) = Some (r, inp, hold, bits)"
    "in_bits inp bits = left_bits s" "i_bits s \<le> bits"
    "case r of None \<Rightarrow> bits < ?N hold | Some e \<Rightarrow> look_root p root s hold = Some e \<and> 0 + c_bits e \<le> bits"
    "bits = i_bits s \<and> hold = i_hold s \<or> bits < ?N hold + 8"
  proof -
    have pre: "?N h \<le> n \<Longrightarrow> unat h mod 2 ^ n = unat h' mod 2 ^ n \<Longrightarrow> ?N h' = ?N h" for h h' n
      using entry_prefix [OF good, of h n h'] by simp
    have "\<exists>r inp hold bits. pull_code (look_root p root s) 0 (z_next_in s) (i_hold s) (i_bits s) = Some (r, inp, hold, bits) \<and>
      in_bits inp bits = left_bits s \<and> i_bits s \<le> bits \<and>
      unat hold mod 2 ^ i_bits s = unat (i_hold s) mod 2 ^ i_bits s \<and>
      (case r of None \<Rightarrow> bits < ?N hold | Some e \<Rightarrow> look_root p root s hold = Some e \<and> 0 + c_bits e \<le> bits) \<and>
      (bits = i_bits s \<and> hold = i_hold s \<or> bits < ?N hold + 8)"
    proof (rule pull_code_spec [where d = 0 and c = 0])
      show "\<exists>e. look_root p root s h = Some e \<and> 0 + c_bits e \<le> ?N h" for h by (rule look)
      show "?N h' = ?N h" if "?N h \<le> n" "unat h mod 2 ^ n = unat h' mod 2 ^ n" for h h' n by (rule pre [OF that])
    qed simp_all
    then show thesis by (elim exE conjE) (rule that)
  qed
  show ?thesis
  proof (cases r)
    case None
    then show ?thesis using p1 leave by (simp add: get_code_eq)
  next
    case (Some here)
    show ?thesis
    proof (rule root_entry [OF good, of hold])
      fix e assume e: "tab_at (i_codes s) p (mask_bits root hold) = Some e" "end_entry type root e"
        "entry_of (i_codes s) p root hold = e"
      then have "here = e" using p1(4) Some by (simp add: look_root_def)
      then show ?thesis using p1 Some e t(1) one [of bits inp e hold] by (simp add: get_code_eq)
    next
      fix l e assume e: "tab_at (i_codes s) p (mask_bits root hold) = Some l"
        "sub_entry type root (tab_of (i_codes s) p) l"
        "tab_at (i_codes s) p (c_val l + mask_bits (root + c_op l) hold div 2 ^ root) = Some e"
      then have hl: "here = l" and br: "root \<le> bits" using p1(4) Some sb by (auto simp: look_root_def)
      let ?s = "pulled s inp hold bits"
      have sub: "\<exists>e. look_sub p l ?s h = Some e \<and> end_entry type (MAXBITS - root) e \<and>
          entry_of (i_codes s) p root h = Code (c_op e) (root + c_bits e) (c_val e)"
        if h: "unat h mod 2 ^ root = unat hold mod 2 ^ root" for h
      proof (rule root_entry [OF good, of h])
        have same: "mask_bits root h = mask_bits root hold" using h by (simp add: mask_bits_mod)
        fix e' assume e': "tab_at (i_codes s) p (mask_bits root h) = Some e'" "end_entry type root e'"
        then have "e' = l" using e(1) same by simp
        then have False using t e(2) e'(2) by blast
        then show ?thesis ..
      next
        have same: "mask_bits root h = mask_bits root hold" using h by (simp add: mask_bits_mod)
        fix l' e' assume e': "tab_at (i_codes s) p (mask_bits root h) = Some l'"
          "tab_at (i_codes s) p (c_val l' + mask_bits (root + c_op l') h div 2 ^ root) = Some e'"
          "end_entry type (MAXBITS - root) e'" "entry_of (i_codes s) p root h = Code (c_op e') (root + c_bits e') (c_val e')"
        then have "l' = l" using e(1) same by simp
        then show ?thesis using e' sb [OF e(2)] by (simp add: look_sub_def)
      qed
      have look2: "\<exists>e. look_sub p l ?s h = Some e \<and> root + c_bits e \<le> ?N h"
        if "unat h mod 2 ^ root = unat hold mod 2 ^ root" for h
        using sub [OF that] by auto
      obtain r2 inp2 hold2 bits2 where p2: "pull_code (look_sub p l ?s) root inp hold bits = Some (r2, inp2, hold2, bits2)"
        "in_bits inp2 bits2 = in_bits inp bits" "bits \<le> bits2"
        "unat hold2 mod 2 ^ bits = unat hold mod 2 ^ bits"
        "case r2 of None \<Rightarrow> bits2 < ?N hold2 | Some e \<Rightarrow> look_sub p l ?s hold2 = Some e \<and> root + c_bits e \<le> bits2"
        "bits2 = bits \<and> hold2 = hold \<or> bits2 < ?N hold2 + 8"
      proof -
        have pre: "?N h \<le> n \<Longrightarrow> unat h mod 2 ^ n = unat h' mod 2 ^ n \<Longrightarrow> ?N h' = ?N h" for h h' n
          using entry_prefix [OF good, of h n h'] by simp
        have "\<exists>r2 inp2 hold2 bits2. pull_code (look_sub p l ?s) root inp hold bits = Some (r2, inp2, hold2, bits2) \<and>
          in_bits inp2 bits2 = in_bits inp bits \<and> bits \<le> bits2 \<and>
          unat hold2 mod 2 ^ bits = unat hold mod 2 ^ bits \<and>
          (case r2 of None \<Rightarrow> bits2 < ?N hold2 | Some e \<Rightarrow> look_sub p l ?s hold2 = Some e \<and> root + c_bits e \<le> bits2) \<and>
          (bits2 = bits \<and> hold2 = hold \<or> bits2 < ?N hold2 + 8)"
        proof (rule pull_code_spec [where d = root and c = "unat hold mod 2 ^ root"])
          show "\<exists>e. look_sub p l ?s h = Some e \<and> root + c_bits e \<le> ?N h"
            if "unat h mod 2 ^ root = unat hold mod 2 ^ root" for h by (rule look2 [OF that])
          show "?N h' = ?N h" if "?N h \<le> n" "unat h mod 2 ^ n = unat h' mod 2 ^ n" for h h' n by (rule pre [OF that])
          show "root \<le> bits" by (rule br)
        qed simp
        then show thesis by (elim exE conjE) (rule that)
      qed
      have h2: "unat hold2 mod 2 ^ root = unat hold mod 2 ^ root" by (rule low_trans [OF p2(4) br])
      show ?thesis
      proof (cases r2)
        case None
        then show ?thesis
          using p1 Some hl t(2) [OF e(2)] sb [OF e(2)] p2 leave [of bits2 inp2 hold2] by (simp add: get_code_eq)
      next
        case r2: (Some e2)
        obtain e' where e': "look_sub p l ?s hold2 = Some e'" "end_entry type (MAXBITS - root) e'"
          "entry_of (i_codes s) p root hold2 = Code (c_op e') (root + c_bits e') (c_val e')" using sub [OF h2] by blast
        then have ee: "e2 = e'" using p2(5) r2 by simp
        have "bits2 = i_bits s \<and> hold2 = i_hold s \<or> bits2 < root + c_bits e' + 8"
          using p2(6) p1(5) e'(3) by auto
        then show ?thesis
          using p1 Some hl t(2) [OF e(2)] e(2) sb [OF e(2)] p2 r2 e' ee two [of bits2 inp2 l hold2 e'] by (simp add: get_code_eq)
      qed
    qed
  qed
qed

end
