(* ===== verification/Zl_InfModes.thy ===== *)
theory Zl_InfModes
  imports Zl_InfLookup
begin

text \<open>
  The invariant of the state machine of \<open>inflate\<close>, one condition per mode, a measure that every step
  makes smaller, and the proofs of the modes that read headers, stored blocks and trailers.
\<close>

section \<open>The invariant\<close>

definition win_ok :: "zstrm \<Rightarrow> bool" where
  "win_ok s \<longleftrightarrow> i_whave s \<le> i_wsize s \<and> (i_whave s < i_wsize s \<longrightarrow> i_wnext s = i_whave s) \<and>
     (i_wsize s \<noteq> 0 \<longrightarrow> i_wnext s < i_wsize s \<and> i_wsize s = 2 ^ i_wbits s \<and> i_window s \<noteq> None) \<and>
     (\<forall>w. i_window s = Some w \<longrightarrow> length w = 2 ^ i_wbits s \<and> i_wbits s \<noteq> 0)"

definition base_ok :: "zstrm \<Rightarrow> bool" where
  "base_ok s \<longleftrightarrow> i_head s = None \<and> i_sane s \<and> length (i_lens s) = 320 \<and> length (i_codes s) = ENOUGH \<and>
     z_avail_out s \<le> r_out s \<and> r_out s - z_avail_out s \<le> length (z_put s) \<and> win_ok s \<and>
     (i_wrap s = 0 \<longrightarrow> i_wbits s \<noteq> 0)"

definition tables_ok :: "zstrm \<Rightarrow> bool" where
  "tables_ok s \<longleftrightarrow> good_table LENS (i_codes s) (i_lencode s) (i_lenbits s) \<and>
     good_table DISTS (i_codes s) (i_distcode s) (i_distbits s)"

text \<open>The bits a code length and what follows it take.\<close>

definition cl_need :: "code \<Rightarrow> nat" where
  "cl_need e = c_bits e + (if c_val e < 16 then 0 else if c_val e = 16 then 2 else if c_val e = 17 then 3 else 7)"

definition sizes_ok :: "zstrm \<Rightarrow> bool" where
  "sizes_ok s \<longleftrightarrow> 257 \<le> i_nlen s \<and> i_nlen s \<le> 286 \<and> 1 \<le> i_ndist s \<and> i_ndist s \<le> 30"

text \<open>
  Fewer than eight bits are left between two symbols; more only while the input has run out in the
  middle of one, and then not enough to end it.
\<close>

abbreviation few :: "zstrm \<Rightarrow> nat \<Rightarrow> bool" where
  "few s n \<equiv> i_bits s < 8 \<or> i_bits s < n"

fun mode_ok :: "inflate_mode \<Rightarrow> zstrm \<Rightarrow> bool" where
  "mode_ok M_HEAD s = ((i_wrap s = 0 \<longrightarrow> i_bits s < 8) \<and> r_out s = z_avail_out s)"
| "mode_ok M_FLAGS s = (i_wbits s \<noteq> 0)"
| "mode_ok M_TIME s = (i_wbits s \<noteq> 0)"
| "mode_ok M_OS s = (i_wbits s \<noteq> 0)"
| "mode_ok M_EXLEN s = (i_wbits s \<noteq> 0 \<and> (i_flags s AND 0x0400 = 0 \<longrightarrow> i_bits s < 8))"
| "mode_ok M_EXTRA s = (i_wbits s \<noteq> 0 \<and> i_bits s < 8)"
| "mode_ok M_NAME s = (i_wbits s \<noteq> 0 \<and> i_bits s < 8)"
| "mode_ok M_COMMENT s = (i_wbits s \<noteq> 0 \<and> i_bits s < 8)"
| "mode_ok M_HCRC s = (i_wbits s \<noteq> 0 \<and> (i_flags s AND 0x0200 = 0 \<longrightarrow> i_bits s < 8))"
| "mode_ok M_DICTID s = (i_wbits s \<noteq> 0)"
| "mode_ok M_DICT s = (i_wbits s \<noteq> 0 \<and> i_bits s < 8)"
| "mode_ok M_TYPE s = (i_wbits s \<noteq> 0 \<and> i_bits s < 8)"
| "mode_ok M_TYPEDO s = (i_wbits s \<noteq> 0 \<and> i_bits s < 8)"
| "mode_ok M_STORED s = (i_wbits s \<noteq> 0)"
| "mode_ok M_COPY0 s = (i_wbits s \<noteq> 0 \<and> i_bits s < 8)"
| "mode_ok M_COPY s = (i_wbits s \<noteq> 0 \<and> i_bits s < 8)"
| "mode_ok M_TABLE s = (i_wbits s \<noteq> 0 \<and> i_bits s < 14)"
| "mode_ok M_LENLENS s = (i_wbits s \<noteq> 0 \<and> i_bits s < 8 \<and> sizes_ok s \<and> i_have s \<le> i_ncode s \<and> i_ncode s \<le> 19 \<and>
     (\<forall>i<i_have s. i_lens s ! (len_order ! i) \<le> 7))"
| "mode_ok M_CODELENS s = (i_wbits s \<noteq> 0 \<and> sizes_ok s \<and> i_have s \<le> i_nlen s + i_ndist s \<and>
     (\<forall>i<i_have s. i_lens s ! i \<le> 15) \<and> good_table CODES (i_codes s) (i_lencode s) (i_lenbits s) \<and>
     (i_bits s < 8 \<or> i_have s < i_nlen s + i_ndist s \<and>
       i_bits s < cl_need (entry_of (i_codes s) (i_lencode s) (i_lenbits s) (i_hold s))))"
| "mode_ok M_LEN0 s = (i_wbits s \<noteq> 0 \<and> tables_ok s \<and> i_bits s < 8)"
| "mode_ok M_LEN s = (i_wbits s \<noteq> 0 \<and> tables_ok s \<and>
     few s (need_of (i_codes s) (i_lencode s) (i_lenbits s) (i_hold s)))"
| "mode_ok M_LENEXT s = (i_wbits s \<noteq> 0 \<and> tables_ok s \<and> 3 \<le> i_length s \<and> i_extra s \<le> 5 \<and> few s (i_extra s))"
| "mode_ok M_DIST s = (i_wbits s \<noteq> 0 \<and> tables_ok s \<and> 3 \<le> i_length s \<and>
     few s (need_of (i_codes s) (i_distcode s) (i_distbits s) (i_hold s)))"
| "mode_ok M_DISTEXT s = (i_wbits s \<noteq> 0 \<and> tables_ok s \<and> 3 \<le> i_length s \<and> 1 \<le> i_offset s \<and> i_extra s \<le> 13 \<and>
     few s (i_extra s))"
| "mode_ok M_MATCH s = (i_wbits s \<noteq> 0 \<and> tables_ok s \<and> 1 \<le> i_length s \<and> 1 \<le> i_offset s \<and> i_bits s < 8)"
| "mode_ok M_LIT s = (i_wbits s \<noteq> 0 \<and> tables_ok s \<and> i_bits s < 8)"
| "mode_ok M_CHECK s = (i_wbits s \<noteq> 0)"
| "mode_ok M_LENGTH s = (i_wbits s \<noteq> 0)"
| "mode_ok M_DONE s = (i_wbits s \<noteq> 0)"
| "mode_ok M_BAD s = True"
| "mode_ok M_MEM s = True"
| "mode_ok M_SYNC s = True"

definition inflate_inv :: "zstrm \<Rightarrow> bool" where
  "inflate_inv s \<longleftrightarrow> base_ok s \<and> mode_ok (i_mode s) s"

section \<open>The measure\<close>

fun mode_rank :: "inflate_mode \<Rightarrow> nat" where
  "mode_rank M_HEAD = 10" | "mode_rank M_FLAGS = 1" | "mode_rank M_TIME = 1" | "mode_rank M_OS = 1"
| "mode_rank M_EXLEN = 9" | "mode_rank M_EXTRA = 8" | "mode_rank M_NAME = 7" | "mode_rank M_COMMENT = 6"
| "mode_rank M_HCRC = 5" | "mode_rank M_DICTID = 1" | "mode_rank M_DICT = 5" | "mode_rank M_TYPE = 4"
| "mode_rank M_TYPEDO = 3" | "mode_rank M_STORED = 1" | "mode_rank M_COPY0 = 6" | "mode_rank M_COPY = 5"
| "mode_rank M_TABLE = 1" | "mode_rank M_LENLENS = 8" | "mode_rank M_CODELENS = 7" | "mode_rank M_LEN0 = 6"
| "mode_rank M_LEN = 5" | "mode_rank M_LENEXT = 4" | "mode_rank M_DIST = 3" | "mode_rank M_DISTEXT = 2"
| "mode_rank M_MATCH = 1" | "mode_rank M_LIT = 1" | "mode_rank M_CHECK = 2" | "mode_rank M_LENGTH = 1"
| "mode_rank M_DONE = 0" | "mode_rank M_BAD = 0" | "mode_rank M_MEM = 0" | "mode_rank M_SYNC = 0"

text \<open>Less input, or as much and less output space, or both alike and a later mode.\<close>

definition smaller :: "zstrm \<Rightarrow> zstrm \<Rightarrow> bool" where
  "smaller s' s \<longleftrightarrow> left_bits s' < left_bits s \<or>
     left_bits s' = left_bits s \<and> (z_avail_out s' < z_avail_out s \<or>
       z_avail_out s' = z_avail_out s \<and> mode_rank (i_mode s') < mode_rank (i_mode s))"

definition fine :: "zstrm \<Rightarrow> step \<Rightarrow> bool" where
  "fine s0 r = (case r of S_go s \<Rightarrow> inflate_inv s \<and> smaller s s0 | S_leave s \<Rightarrow> inflate_inv s
     | S_ret v s \<Rightarrow> inflate_inv s | S_undef \<Rightarrow> False)"

lemma fine_simps [simp]:
  "fine s0 (S_go s) \<longleftrightarrow> inflate_inv s \<and> smaller s s0" "fine s0 (S_leave s) \<longleftrightarrow> inflate_inv s"
  "fine s0 (S_ret v s) \<longleftrightarrow> inflate_inv s" "\<not> fine s0 S_undef"
  by (simp_all add: fine_def)

lemma fine_if: "fine s a \<Longrightarrow> fine s b \<Longrightarrow> fine s (if c then a else b)"
  by simp

text \<open>What an assignment to another field leaves alone.\<close>

lemma base_ok_update [simp]:
  "base_ok (z_next_in_update f1 s) = base_ok s" "base_ok (z_total_in_update f2 s) = base_ok s"
  "base_ok (z_total_out_update f3 s) = base_ok s" "base_ok (z_msg_update f4 s) = base_ok s"
  "base_ok (z_data_type_update f5 s) = base_ok s" "base_ok (z_adler_update f6 s) = base_ok s"
  "base_ok (i_mode_update f7 s) = base_ok s" "base_ok (i_last_update f8 s) = base_ok s"
  "base_ok (i_havedict_update f9 s) = base_ok s" "base_ok (i_flags_update f10 s) = base_ok s"
  "base_ok (i_dmax_update f11 s) = base_ok s" "base_ok (i_check_update f12 s) = base_ok s"
  "base_ok (i_total_update f13 s) = base_ok s" "base_ok (i_hold_update f14 s) = base_ok s"
  "base_ok (i_bits_update f15 s) = base_ok s" "base_ok (i_length_update f16 s) = base_ok s"
  "base_ok (i_offset_update f17 s) = base_ok s" "base_ok (i_extra_update f18 s) = base_ok s"
  "base_ok (i_lencode_update f19 s) = base_ok s" "base_ok (i_distcode_update f20 s) = base_ok s"
  "base_ok (i_lenbits_update f21 s) = base_ok s" "base_ok (i_distbits_update f22 s) = base_ok s"
  "base_ok (i_ncode_update f23 s) = base_ok s" "base_ok (i_nlen_update f24 s) = base_ok s"
  "base_ok (i_ndist_update f25 s) = base_ok s" "base_ok (i_have_update f26 s) = base_ok s"
  "base_ok (i_next_update f27 s) = base_ok s" "base_ok (i_back_update f28 s) = base_ok s"
  "base_ok (i_was_update f29 s) = base_ok s" "base_ok (r_in_update f30 s) = base_ok s"
  "base_ok (r_ret_update f31 s) = base_ok s" "base_ok (r_seen_update f32 s) = base_ok s"
  by (simp_all add: base_ok_def win_ok_def)

lemma tables_ok_update [simp]:
  "tables_ok (z_next_in_update f33 s) = tables_ok s" "tables_ok (z_put_update f34 s) = tables_ok s"
  "tables_ok (z_avail_out_update f35 s) = tables_ok s" "tables_ok (z_total_out_update f36 s) = tables_ok s"
  "tables_ok (z_msg_update f37 s) = tables_ok s" "tables_ok (z_data_type_update f38 s) = tables_ok s"
  "tables_ok (z_adler_update f39 s) = tables_ok s" "tables_ok (i_mode_update f40 s) = tables_ok s"
  "tables_ok (i_last_update f41 s) = tables_ok s" "tables_ok (i_havedict_update f42 s) = tables_ok s"
  "tables_ok (i_flags_update f43 s) = tables_ok s" "tables_ok (i_dmax_update f44 s) = tables_ok s"
  "tables_ok (i_check_update f45 s) = tables_ok s" "tables_ok (i_total_update f46 s) = tables_ok s"
  "tables_ok (i_hold_update f47 s) = tables_ok s" "tables_ok (i_bits_update f48 s) = tables_ok s"
  "tables_ok (i_length_update f49 s) = tables_ok s" "tables_ok (i_offset_update f50 s) = tables_ok s"
  "tables_ok (i_extra_update f51 s) = tables_ok s" "tables_ok (i_ncode_update f52 s) = tables_ok s"
  "tables_ok (i_nlen_update f53 s) = tables_ok s" "tables_ok (i_ndist_update f54 s) = tables_ok s"
  "tables_ok (i_have_update f55 s) = tables_ok s" "tables_ok (i_lens_update f56 s) = tables_ok s"
  "tables_ok (i_next_update f57 s) = tables_ok s" "tables_ok (i_back_update f58 s) = tables_ok s"
  "tables_ok (i_was_update f59 s) = tables_ok s" "tables_ok (r_in_update f60 s) = tables_ok s"
  "tables_ok (r_out_update f61 s) = tables_ok s" "tables_ok (r_ret_update f62 s) = tables_ok s"
  "tables_ok (r_seen_update f63 s) = tables_ok s" "tables_ok (i_head_update f64 s) = tables_ok s"
  "tables_ok (i_wbits_update f65 s) = tables_ok s"
  by (simp_all add: tables_ok_def)

lemma base_ok_wbits:
  "base_ok s \<Longrightarrow> i_wbits s = 0 \<Longrightarrow> 0 < n \<Longrightarrow> base_ok (s\<lparr>i_wbits := n\<rparr>)"
  by (auto simp: base_ok_def win_ok_def)

lemma on_head_None [simp]: "i_head s = None \<Longrightarrow> on_head f s = s"
  by (simp add: on_head_def)

lemma base_okD:
  assumes "base_ok s"
  shows "i_head s = None" "i_sane s" "length (i_lens s) = 320" "length (i_codes s) = ENOUGH" "z_avail_out s \<le> r_out s"
    "r_out s - z_avail_out s \<le> length (z_put s)" "win_ok s" "i_wrap s = 0 \<Longrightarrow> i_wbits s \<noteq> 0"
  using assms by (simp_all add: base_ok_def)

lemmas inf_defs = inflate_inv_def smaller_def pulled_def INITBITS_def DROPBITS_def BYTEBITS_def bad_def crc2_hold_def

section \<open>The header modes\<close>

lemma fixed_good: "good_table LENS codes P_lenfix 9" "good_table DISTS codes P_distfix 5"
  by (simp_all add: good_table_def tab_of_def lenfix_ok distfix_ok)

lemma base_ok_put:
  "base_ok s \<Longrightarrow> length b = z_avail_out s - a \<Longrightarrow> a \<le> z_avail_out s \<Longrightarrow>
     base_ok (s\<lparr>z_put := z_put s @ b, z_avail_out := a\<rparr>)"
  by (auto simp: base_ok_def win_ok_def)

lemma do_HEAD_ok: "inflate_inv s \<Longrightarrow> i_mode s = M_HEAD \<Longrightarrow> fine s (do_HEAD s)"
proof (cases "i_wrap s = 0")
  case True
  assume "inflate_inv s" "i_mode s = M_HEAD"
  then show ?thesis using True by (simp add: do_HEAD_def inf_defs base_okD)
next
  case False
  assume inv: "inflate_inv s" and m: "i_mode s = M_HEAD"
  then have b: "base_ok s" by (simp add: inflate_inv_def)
  show ?thesis
    unfolding do_HEAD_def Let_def if_not_P [OF False]
    by (rule needbits_rule [where P = "fine s"]; (intro fine_if)?; insert inv m False; simp add: inf_defs base_okD base_ok_wbits mask_bits_lt; auto?)
qed

lemma do_FLAGS_ok: "inflate_inv s \<Longrightarrow> i_mode s = M_FLAGS \<Longrightarrow> fine s (do_FLAGS s)"
  unfolding do_FLAGS_def Let_def by (rule needbits_rule) (auto simp: inf_defs base_okD)

lemma do_TIME_ok: "inflate_inv s \<Longrightarrow> i_mode s = M_TIME \<Longrightarrow> fine s (do_TIME s)"
  unfolding do_TIME_def Let_def by (rule needbits_rule) (auto simp: inf_defs base_okD)

lemma do_OS_ok: "inflate_inv s \<Longrightarrow> i_mode s = M_OS \<Longrightarrow> fine s (do_OS s)"
  unfolding do_OS_def Let_def by (rule needbits_rule) (auto simp: inf_defs base_okD)

lemma do_HCRC_ok: "inflate_inv s \<Longrightarrow> i_mode s = M_HCRC \<Longrightarrow> fine s (do_HCRC s)"
  unfolding do_HCRC_def Let_def
  by (cases "i_flags s AND 0x0200 = 0") (auto intro!: needbits_rule [where P = "fine s"] simp: inf_defs base_okD)

lemma do_TYPEDO_ok: "inflate_inv s \<Longrightarrow> i_mode s = M_TYPEDO \<or> i_mode s = M_TYPE \<Longrightarrow> fine s (do_TYPEDO flush s)"
proof (cases "i_last s = 0")
  case False
  assume "inflate_inv s" "i_mode s = M_TYPEDO \<or> i_mode s = M_TYPE"
  then show ?thesis using False by (auto simp: do_TYPEDO_def inf_defs)
next
  case True
  assume inv: "inflate_inv s" and m: "i_mode s = M_TYPEDO \<or> i_mode s = M_TYPE"
  have nz: "\<not> i_last s \<noteq> 0" using True by simp
  show ?thesis
    unfolding do_TYPEDO_def if_not_P [OF nz] Let_def
    by (rule needbits_rule [where P = "fine s"]; (intro fine_if)?; insert inv m; elim disjE;
      simp add: inf_defs fixedtables_def tables_ok_def fixed_good; linarith?)
qed
lemma do_TABLE_ok: "inflate_inv s \<Longrightarrow> i_mode s = M_TABLE \<Longrightarrow> fine s (do_TABLE s)"
proof -
  assume inv: "inflate_inv s" and m: "i_mode s = M_TABLE"
  have b': "mask_bits 4 h \<le> 15" for h using mask_bits_lt [of 4 h] by simp
  show ?thesis
    unfolding do_TABLE_def Let_def
    by (rule needbits_rule) (use inv m b' in \<open>auto simp: inf_defs sizes_ok_def\<close>)
qed
lemma check_rule:
  assumes "n \<le> length (z_put s)" and "\<And>b. P (k (f b))" and "P (k s')"
  shows "P (of_opt (if c then map_option f (last_put n s) else Some s') k)"
  using assms by (simp add: of_opt_def last_put_def)

lemma do_CHECK_ok: "inflate_inv s \<Longrightarrow> i_mode s = M_CHECK \<Longrightarrow> fine s (do_CHECK s)"
proof -
  assume inv: "inflate_inv s" and m: "i_mode s = M_CHECK"
  have b: "base_ok s" using inv by (simp add: inflate_inv_def)
  have r: "base_ok (t\<lparr>r_out := n\<rparr>)" if "base_ok t" "n = z_avail_out t" for t n using that by (simp add: base_ok_def win_ok_def)
  show ?thesis
  proof (cases "i_wrap s = 0")
    case True
    then show ?thesis using inv m by (simp add: do_CHECK_def inf_defs)
  next
    case False
    show ?thesis
      unfolding do_CHECK_def Let_def if_P [OF False]
    proof (rule needbits_rule [where P = "fine s"], goal_cases)
      case (1 inp hold bits)
      show ?case
        by (rule check_rule [where P = "fine s"]; (rule fine_if)?; insert inv m b 1; simp add: inf_defs base_okD r)
    next
      case 2
      then show ?case using inv m by (simp add: inf_defs)
    qed
  qed
qed
lemma do_EXLEN_ok: "inflate_inv s \<Longrightarrow> i_mode s = M_EXLEN \<Longrightarrow> fine s (do_EXLEN s)"
  unfolding do_EXLEN_def Let_def
  by (cases "i_flags s AND 0x0400 = 0") (auto intro!: needbits_rule [where P = "fine s"] simp: inf_defs base_okD)

lemma do_EXTRA_ok: "inflate_inv s \<Longrightarrow> i_mode s = M_EXTRA \<Longrightarrow> fine s (do_EXTRA s)"
  unfolding do_EXTRA_def Let_def extra_copy_def of_opt_def
  by (auto simp: inf_defs base_okD)

lemma upto_nul_nonempty: "inp \<noteq> [] \<Longrightarrow> upto_nul inp = (b, f) \<Longrightarrow> b \<noteq> []"
  by (cases inp) (auto split: if_splits prod.splits)

lemma do_NAME_ok: "inflate_inv s \<Longrightarrow> i_mode s = M_NAME \<Longrightarrow> fine s (do_NAME s)"
  unfolding do_NAME_def take_str_def Let_def name_copy_def of_opt_def
  by (auto simp: inf_defs base_okD split: prod.splits)

lemma do_COMMENT_ok: "inflate_inv s \<Longrightarrow> i_mode s = M_COMMENT \<Longrightarrow> fine s (do_COMMENT s)"
  unfolding do_COMMENT_def take_str_def Let_def comment_copy_def of_opt_def
  by (auto simp: inf_defs base_okD split: prod.splits)

lemma do_DICTID_ok: "inflate_inv s \<Longrightarrow> i_mode s = M_DICTID \<Longrightarrow> fine s (do_DICTID s)"
  unfolding do_DICTID_def by (rule needbits_rule) (auto simp: inf_defs base_okD)

lemma do_DICT_ok: "inflate_inv s \<Longrightarrow> i_mode s = M_DICT \<Longrightarrow> fine s (do_DICT s)"
  by (auto simp: do_DICT_def inf_defs base_okD)

lemma do_LENEXT_ok: "inflate_inv s \<Longrightarrow> i_mode s = M_LENEXT \<Longrightarrow> fine s (do_LENEXT s)"
  unfolding do_LENEXT_def Let_def
  by (cases "i_extra s = 0") (auto intro!: needbits_rule [where P = "fine s"] simp: inf_defs base_okD)

lemma do_DISTEXT_ok: "inflate_inv s \<Longrightarrow> i_mode s = M_DISTEXT \<Longrightarrow> fine s (do_DISTEXT s)"
  unfolding do_DISTEXT_def Let_def
  by (cases "i_extra s = 0") (auto intro!: needbits_rule [where P = "fine s"] simp: inf_defs base_okD)

lemma do_LIT_ok: "inflate_inv s \<Longrightarrow> i_mode s = M_LIT \<Longrightarrow> fine s (do_LIT s)"
  by (auto simp: do_LIT_def put_byte_def of_opt_def inf_defs base_okD base_ok_put)

lemma do_COPY_ok: "inflate_inv s \<Longrightarrow> i_mode s = M_COPY \<Longrightarrow> fine s (do_COPY s)"
proof -
  assume inv: "inflate_inv s" and m: "i_mode s = M_COPY"
  define n where "n = min (min (i_length s) (length (z_next_in s))) (z_avail_out s)"
  have n: "n \<le> length (z_next_in s)" "n \<le> z_avail_out s" by (simp_all add: n_def)
  have sm: "n \<noteq> 0 \<Longrightarrow> 8 * (length (z_next_in s) - n) < 8 * length (z_next_in s)" using n by arith
  have d: "do_COPY s = (if i_length s = 0 then S_go (s\<lparr>i_mode := M_TYPE\<rparr>) else if n = 0 then S_leave s
      else S_go (s\<lparr>z_put := z_put s @ take n (z_next_in s), z_next_in := drop n (z_next_in s),
                     z_avail_out := z_avail_out s - n, i_length := i_length s - n\<rparr>))"
    by (simp only: do_COPY_def n_def Let_def)
  show ?thesis
    unfolding d using inv m n sm
    by (cases "i_length s = 0"; cases "n = 0"; simp add: inf_defs base_ok_def win_ok_def; linarith?)
qed

lemma do_TYPE_ok: "inflate_inv s \<Longrightarrow> i_mode s = M_TYPE \<Longrightarrow> fine s (do_TYPE flush s)"
  using do_TYPEDO_ok by (simp add: do_TYPE_def)

lemma BYTEBITS_simps [simp]:
  "base_ok (BYTEBITS s) = base_ok s" "i_mode (BYTEBITS s) = i_mode s" "i_wbits (BYTEBITS s) = i_wbits s"
  "z_avail_out (BYTEBITS s) = z_avail_out s"
  by (simp_all add: BYTEBITS_def)

lemma do_STORED_ok: "inflate_inv s \<Longrightarrow> i_mode s = M_STORED \<Longrightarrow> fine s (do_STORED flush s)"
proof -
  assume inv: "inflate_inv s" and m: "i_mode s = M_STORED"
  have l: "left_bits (BYTEBITS s) \<le> left_bits s" by (simp add: BYTEBITS_def)
  show ?thesis
    unfolding do_STORED_def Let_def
  proof (rule needbits_rule [where P = "fine s"], goal_cases)
    case (1 inp hold bits)
    then have "8 * length inp < left_bits s" "in_bits inp bits - 32 < left_bits s" using l by linarith+
    then show ?case
      by (intro fine_if; insert inv m; simp add: inflate_inv_def smaller_def pulled_def INITBITS_def bad_def; insert 1 l; linarith?)
  next
    case (2 inp hold bits)
    then show ?case using inv m by (simp add: inflate_inv_def pulled_def)
  qed
qed

lemma do_LENGTH_ok: "inflate_inv s \<Longrightarrow> i_mode s = M_LENGTH \<Longrightarrow> fine s (do_LENGTH s)"
  unfolding do_LENGTH_def Let_def
  by (rule fine_if; (rule needbits_rule [where P = "fine s"])?; (intro fine_if)?; simp add: inf_defs; (linarith | auto)?)

end
