(* ===== verification/Zl_InfDynamic.thy ===== *)
theory Zl_InfDynamic
  imports Zl_InfModes
begin

text \<open>
  The modes that read the tables of a dynamic block. The code lengths read are within the bounds that
  \<open>inflate_table\<close> needs, and the tables it builds in \<open>codes\<close>, one behind the other, decode every input.
\<close>

section \<open>Dynamic tables\<close>

lemma base_ok_lens: "base_ok s \<Longrightarrow> length ls = 320 \<Longrightarrow> base_ok (s\<lparr>i_lens := ls\<rparr>)"
  by (simp add: base_ok_def win_ok_def)

lemma base_ok_codes: "base_ok s \<Longrightarrow> length cs = ENOUGH \<Longrightarrow> base_ok (s\<lparr>i_codes := cs\<rparr>)"
  by (simp add: base_ok_def win_ok_def)

text \<open>A table is as good with more codes behind it.\<close>

lemma table_wf_append: "table_wf type t root \<Longrightarrow> table_wf type (t @ r) root"
  unfolding table_wf_def sub_entry_def by (auto simp: nth_append)

lemma lookup_append: "table_wf type t root \<Longrightarrow> tab_lookup (t @ r) root x = tab_lookup t root x"
proof -
  assume wf: "table_wf type t root"
  let ?i = "x mod 2 ^ root"
  have i: "?i < 2 ^ root" by simp
  then have l: "?i < length t" using wf unfolding table_wf_def by linarith
  have "end_entry type root (t ! ?i) \<or> sub_entry type root t (t ! ?i)" using wf i by (simp add: table_wf_def)
  then show ?thesis
  proof
    assume e: "end_entry type root (t ! ?i)"
    have "\<not> (c_op (t ! ?i) \<noteq> 0 \<and> c_op (t ! ?i) AND 0xf0 = 0)" using end_entry_op [OF e] by auto
    then show ?thesis using l by (auto simp: tab_lookup_def nth_append Let_def)
  next
    assume s: "sub_entry type root t (t ! ?i)"
    have "x mod 2 ^ (root + c_op (t ! ?i)) div 2 ^ root < 2 ^ c_op (t ! ?i)"
      by (simp add: less_mult_imp_div_less power_add mult.commute)
    then have "c_val (t ! ?i) + x mod 2 ^ (c_bits (t ! ?i) + c_op (t ! ?i)) div 2 ^ c_bits (t ! ?i) < length t"
      using s unfolding sub_entry_def by simp
    then show ?thesis using l by (simp add: tab_lookup_def nth_append Let_def)
  qed
qed

lemma good_append: "table_wf type t root \<Longrightarrow> prefix_ok t root \<Longrightarrow> table_wf type (t @ r) root \<and> prefix_ok (t @ r) root"
proof -
  assume wf: "table_wf type t root" and p: "prefix_ok t root"
  have e: "tab_lookup (t @ r) root = tab_lookup t root" by (rule ext) (rule lookup_append [OF wf])
  show ?thesis using table_wf_append [OF wf] p unfolding prefix_ok_def e by blast
qed

lemma good_take:
  assumes "table_wf type (take n t) root" "prefix_ok (take n t) root" "tab_of codes p = take n t @ r"
  shows "good_table type codes p root"
  using good_append [OF assms(1,2), of r] assms(3) by (simp add: good_table_def)

text \<open>What a loop inside a mode gives.\<close>

definition gives :: "(zstrm \<Rightarrow> bool) \<Rightarrow> step \<Rightarrow> bool" where
  "gives G r = (case r of S_go s \<Rightarrow> G s | S_leave s \<Rightarrow> inflate_inv s | S_ret v s \<Rightarrow> False | S_undef \<Rightarrow> False)"

lemma gives_simps [simp]: "gives G (S_go s) = G s" "gives G (S_leave s) = inflate_inv s"
  by (simp_all add: gives_def)

lemma gives_then:
  assumes "gives G r" and "\<And>s. G s \<Longrightarrow> fine s0 (k s)"
  shows "fine s0 (then_go r k)"
  using assms by (cases r) (auto simp: gives_def)

lemma gives_gives:
  assumes "gives G r" and "\<And>s. G s \<Longrightarrow> gives H (k s)"
  shows "gives H (then_go r k)"
  using assms by (cases r) (auto simp: gives_def)

definition lenlens_inv :: "zstrm \<Rightarrow> zstrm \<Rightarrow> bool" where
  "lenlens_inv s0 s \<longleftrightarrow> base_ok s \<and> i_mode s = M_LENLENS \<and> mode_ok M_LENLENS s \<and>
     left_bits s \<le> left_bits s0 \<and> z_avail_out s = z_avail_out s0"

lemma len_order_lt: "i < 19 \<Longrightarrow> len_order ! i < 19"
proof -
  have "list_all (\<lambda>i. i < 19) len_order" by (simp add: len_order_def)
  then show "i < 19 \<Longrightarrow> len_order ! i < 19" by (simp add: list_all_length len_order_def)
qed

lemma len_order_length: "length len_order = 19" by (simp add: len_order_def)

lemma lenlens_loop_ok:
  "lenlens_inv s0 s \<Longrightarrow> i_have s + n = i_ncode s \<Longrightarrow> gives (lenlens_inv s0) (lenlens_loop n s)"
proof (induction n arbitrary: s)
  case (Suc n)
  have h: "i_have s < 19" using Suc.prems by (simp add: lenlens_inv_def)
  have l: "len_order ! i_have s < length (i_lens s)"
    using len_order_lt [OF h] Suc.prems by (simp add: lenlens_inv_def base_okD)
  show ?case
    unfolding lenlens_loop.simps
  proof (rule needbits_rule, goal_cases)
    case (1 inp hold bits)
    have m7: "mask_bits 3 hold \<le> 7" using mask_bits_lt [of 3 hold] by simp
    let ?s = "DROPBITS 3 (pulled s inp hold bits\<lparr>i_lens := (i_lens s)[len_order ! i_have s := mask_bits 3 hold],
        i_have := Suc (i_have s)\<rparr>)"
    have v: "(i_lens s)[len_order ! i_have s := mask_bits 3 hold] ! (len_order ! i) \<le> 7" if "i < Suc (i_have s)" for i
    proof (cases "len_order ! i = len_order ! i_have s")
      case True
      then show ?thesis using m7 l by simp
    next
      case False
      then have "i < i_have s" using that by (cases "i = i_have s") auto
      then show ?thesis using False Suc.prems(1) by (simp add: lenlens_inv_def)
    qed
    have "lenlens_inv s0 ?s"
      using Suc.prems 1 v by (auto simp: lenlens_inv_def pulled_def DROPBITS_def base_ok_lens base_okD sizes_ok_def)
    moreover have "i_have ?s + n = i_ncode ?s" using Suc.prems(2) by (simp add: pulled_def DROPBITS_def)
    ultimately have "gives (lenlens_inv s0) (lenlens_loop n ?s)" by (rule Suc.IH)
    then show ?case using h l by (simp add: pulled_def len_order_length)
  next
    case 2
    then show ?case using Suc.prems(1) by (simp add: inflate_inv_def lenlens_inv_def pulled_def sizes_ok_def)
  qed
qed (simp add: lenlens_inv_def)

lemma foldl_zero:
  "j < length ls \<Longrightarrow> foldl (\<lambda>ls i. ls[i := 0]) ls js ! j = (if j \<in> set js then 0 else ls ! j :: nat)"
  "length (foldl (\<lambda>ls i. ls[i := 0]) ls js) = length ls"
  by (induction js arbitrary: ls) (auto simp: nth_list_update)

lemma zero_rest_lens:
  assumes "length (i_lens s) = 320" and "\<forall>i<i_have s. i_lens s ! (len_order ! i) \<le> 7" and "j < 19"
  shows "i_lens (zero_rest s) ! j \<le> 7"
proof (cases "j \<in> set (drop (i_have s) len_order)")
  case True
  then show ?thesis using assms by (simp add: zero_rest_def foldl_zero)
next
  case False
  have "set len_order = {0..<19}" by code_simp
  moreover have "set (take (i_have s) len_order) \<union> set (drop (i_have s) len_order) = set len_order"
    by (metis append_take_drop_id set_append)
  ultimately have "j \<in> set (take (i_have s) len_order)" using False assms(3) by auto
  then show ?thesis using assms False by (auto simp: zero_rest_def foldl_zero in_set_conv_nth)
qed

lemma do_LENLENS_ok: "inflate_inv s \<Longrightarrow> i_mode s = M_LENLENS \<Longrightarrow> fine s (do_LENLENS s)"
proof -
  assume inv: "inflate_inv s" and m: "i_mode s = M_LENLENS"
  have L: "lenlens_inv s s" using inv m by (simp add: lenlens_inv_def inflate_inv_def)
  have n: "i_have s + (i_ncode s - i_have s) = i_ncode s" using inv m by (simp add: inflate_inv_def)
  show ?thesis
    unfolding do_LENLENS_def
  proof (rule gives_then [OF lenlens_loop_ok [OF L n]])
    fix t assume t: "lenlens_inv s t"
    let ?t = "zero_rest t"
    let ?lens = "take 19 (i_lens ?t)"
    have b: "base_ok t" and h: "\<forall>i<i_have t. i_lens t ! (len_order ! i) \<le> 7" using t by (simp_all add: lenlens_inv_def)
    have b': "base_ok ?t" using b by (simp add: zero_rest_def base_ok_lens foldl_zero base_okD)
    have l7: "\<forall>l\<in>set ?lens. l \<le> 7"
      using zero_rest_lens [OF base_okD(3) [OF b] h] by (auto simp: in_set_conv_nth)
    have sp: "table_space CODES ?lens (i_codes ?t) 7"
      using l7 base_okD(4) [OF b'] by (simp add: table_space_def ENOUGH_def ENOUGH_LENS_def ENOUGH_DISTS_def)
    obtain ret codes used root where r: "inflate_table CODES ?lens (i_codes ?t) 7 = Some (ret, codes, used, root)"
      "table_ok CODES ?lens (i_codes ?t) (ret, codes, used, root)"
      using inflate_table_spec [OF _ _ sp] l7 by (force simp: MAXBITS_def)
    have lc: "length codes = ENOUGH" using r(2) base_okD(4) [OF b'] by (simp add: table_ok_def)
    have g: "ret = 0 \<Longrightarrow> good_table CODES codes (P_codes 0) root"
      using r(2) by (intro good_take [where n = used and t = codes and r = "drop used codes"])
        (simp_all add: table_ok_def tab_of_def)
    have zr: "i_wbits ?t = i_wbits t" "i_bits ?t = i_bits t" "z_next_in ?t = z_next_in t" "z_avail_out ?t = z_avail_out t"
      "i_nlen ?t = i_nlen t" "i_ndist ?t = i_ndist t" by (simp_all add: zero_rest_def)
    show "fine s (let s = zero_rest t in of_opt (inflate_table CODES (take 19 (i_lens s)) (i_codes s) 7) (\<lambda>(ret, codes, used, bits).
       let s = s\<lparr>i_codes := codes, i_next := used, i_lencode := P_codes 0, i_lenbits := bits, r_ret := ret\<rparr> in
       if ret \<noteq> 0 then S_go (bad ''invalid code lengths set'' s)
       else S_go (s\<lparr>i_have := 0, i_mode := M_CODELENS\<rparr>)))"
      using t g m b' lc
      by (cases "ret = 0")
        (auto simp: Let_def r(1) of_opt_def lenlens_inv_def inflate_inv_def smaller_def bad_def base_ok_codes sizes_ok_def zr)
  qed
qed

section \<open>The code lengths\<close>

definition cl_inv :: "zstrm \<Rightarrow> zstrm \<Rightarrow> bool" where
  "cl_inv s0 s \<longleftrightarrow> base_ok s \<and> i_mode s = M_CODELENS \<and> mode_ok M_CODELENS s \<and>
     left_bits s \<le> left_bits s0 \<and> z_avail_out s = z_avail_out s0"

definition cl_bad :: "zstrm \<Rightarrow> zstrm \<Rightarrow> bool" where
  "cl_bad s0 s \<longleftrightarrow> base_ok s \<and> i_mode s = M_BAD \<and> left_bits s \<le> left_bits s0 \<and> z_avail_out s = z_avail_out s0"

text \<open>Before lengths are stored: fewer than eight bits are left over.\<close>

definition cl_put :: "zstrm \<Rightarrow> zstrm \<Rightarrow> bool" where
  "cl_put s0 s \<longleftrightarrow> base_ok s \<and> i_mode s = M_CODELENS \<and> i_wbits s \<noteq> 0 \<and> sizes_ok s \<and>
     (\<forall>i<i_have s. i_lens s ! i \<le> 15) \<and> good_table CODES (i_codes s) (i_lencode s) (i_lenbits s) \<and> i_bits s < 8 \<and>
     left_bits s \<le> left_bits s0 \<and> z_avail_out s = z_avail_out s0"

lemma repeat_len_ok:
  "cl_put s0 s \<Longrightarrow> len \<le> 15 \<Longrightarrow> i_have s + n \<le> i_nlen s + i_ndist s \<Longrightarrow>
     gives (\<lambda>t. cl_inv s0 t \<and> i_have t = i_have s + n \<and> i_nlen t + i_ndist t = i_nlen s + i_ndist s) (repeat_len n len s)"
proof (induction n arbitrary: s)
  case 0
  then show ?case by (simp add: cl_put_def cl_inv_def)
next
  case (Suc n)
  let ?s = "s\<lparr>i_lens := (i_lens s)[i_have s := len], i_have := Suc (i_have s)\<rparr>"
  have h: "i_have s < length (i_lens s)" using Suc.prems by (simp add: cl_put_def sizes_ok_def base_okD)
  have v: "(i_lens s)[i_have s := len] ! i \<le> 15" if "i < Suc (i_have s)" for i
    using that Suc.prems(1,2) h by (cases "i = i_have s") (simp_all add: cl_put_def)
  have "cl_put s0 ?s" using Suc.prems(1) v by (simp add: cl_put_def base_ok_lens base_okD sizes_ok_def)
  then have "gives (\<lambda>t. cl_inv s0 t \<and> i_have t = i_have ?s + n \<and> i_nlen t + i_ndist t = i_nlen ?s + i_ndist ?s)
      (repeat_len n len ?s)"
    using Suc.prems by (intro Suc.IH) simp_all
  then show ?case using h by simp
qed

definition cl_next :: "zstrm \<Rightarrow> zstrm \<Rightarrow> zstrm \<Rightarrow> bool" where
  "cl_next s0 s t \<longleftrightarrow> cl_bad s0 t \<or> cl_inv s0 t \<and> i_have s < i_have t \<and> i_nlen t + i_ndist t = i_nlen s + i_ndist s"

lemma put_repeat_ok:
  assumes "cl_put s0 s" and "len \<le> 15" and "0 < n" and s: "i_have s = i_have s1" "i_nlen s = i_nlen s1" "i_ndist s = i_ndist s1"
  shows "gives (cl_next s0 s1) (put_repeat n len s)"
proof (cases "i_have s + n > i_nlen s + i_ndist s")
  case True
  then show ?thesis using assms(1) by (simp add: put_repeat_def cl_next_def cl_bad_def cl_put_def bad_def)
next
  case False
  then have "gives (\<lambda>t. cl_inv s0 t \<and> i_have t = i_have s + n \<and> i_nlen t + i_ndist t = i_nlen s + i_ndist s) (repeat_len n len s)"
    using assms by (intro repeat_len_ok) simp_all
  then have "gives (cl_next s0 s1) (repeat_len n len s)"
    using assms(3) s by (cases "repeat_len n len s") (auto simp: gives_def cl_next_def)
  then show ?thesis using False by (simp add: put_repeat_def)
qed

lemma one_level:
  assumes "good_table CODES (i_codes s) p root"
    and "\<And>inp hold bits. in_bits inp bits = left_bits s \<Longrightarrow> bits < need_of (i_codes s) p root hold \<Longrightarrow>
       P (S_leave (pulled s inp hold bits))"
    and "\<And>inp hold bits e. in_bits inp bits = left_bits s \<Longrightarrow> e = entry_of (i_codes s) p root hold \<Longrightarrow>
       end_entry CODES root e \<Longrightarrow> c_bits e \<le> bits \<Longrightarrow>
       bits = i_bits s \<and> hold = i_hold s \<or> bits < c_bits e + 8 \<Longrightarrow> P (k1 e (pulled s inp hold bits))"
  shows "P (get_code (look_root p root s) 0 s k1)"
  by (rule two_level [where t = "\<lambda>_. False" and P = P and s = s and type = CODES and p = p and root = root,
      unfolded if_False]) (use assms in \<open>simp_all add: sub_entry_def\<close>)

lemma codelens_iter_ok:
  assumes inv: "cl_inv s0 s" and h: "i_have s < i_nlen s + i_ndist s"
  shows "gives (cl_next s0 s) (codelens_iter s)"
proof -
  let ?p = "i_lencode s" and ?r = "i_lenbits s"
  have good: "good_table CODES (i_codes s) ?p ?r" and few: "few s (cl_need (entry_of (i_codes s) ?p ?r (i_hold s)))"
    using inv by (auto simp: cl_inv_def)
  have leave: "inflate_inv (pulled s inp hold bits)"
    if "in_bits inp bits = left_bits s" "bits < cl_need (entry_of (i_codes s) ?p ?r hold)" for inp hold bits
    using inv that h by (simp add: cl_inv_def inflate_inv_def pulled_def sizes_ok_def)
  have put: "cl_put s0 (DROPBITS m (DROPBITS n (pulled s inp hold bits)))"
    if "in_bits inp bits = left_bits s" "bits < n + m + 8" "n + m \<le> bits" for inp hold bits n m
    using inv that by (simp add: cl_inv_def cl_put_def pulled_def DROPBITS_def sizes_ok_def, linarith)
  have put0: "cl_put s0 (DROPBITS n (pulled s inp hold bits))"
    if "in_bits inp bits = left_bits s" "bits < n + 8" "n \<le> bits" for inp hold bits n
    using inv that by (simp add: cl_inv_def cl_put_def pulled_def DROPBITS_def sizes_ok_def, linarith)
  have lens: "i_have s - 1 < length (i_lens s)" "i_have s \<noteq> 0 \<Longrightarrow> i_lens s ! (i_have s - 1) \<le> 15"
    using inv h by (simp_all add: cl_inv_def sizes_ok_def base_okD, linarith+)
  have rep: "gives (cl_next s0 s) (then_go (NEEDBITS (c_bits e + x) (pulled s inp hold bits)) k)"
    if e: "in_bits inp bits = left_bits s" "e = entry_of (i_codes s) ?p ?r hold" "c_bits e \<le> bits"
      "bits = i_bits s \<and> hold = i_hold s \<or> bits < c_bits e + 8"
      and x: "cl_need e = c_bits e + x"
      and k: "\<And>inp hold bits. in_bits inp bits = left_bits s \<Longrightarrow> cl_put s0 (DROPBITS x (DROPBITS (c_bits e) (pulled s inp hold bits))) \<Longrightarrow>
         gives (cl_next s0 s) (k (pulled s inp hold bits))" for e x k inp hold bits
  proof (rule needbits_rule, goal_cases)
    case (1 inp' hold' bits')
    have "bits' < c_bits e + x + 8" using 1(3) few e x by auto
    then have "cl_put s0 (DROPBITS x (DROPBITS (c_bits e) (pulled s inp' hold' bits')))"
      using put [of bits' inp' "c_bits e" x hold'] 1 e(1) by simp
    then show ?case using k [OF trans [OF 1(1)]] e(1) by simp
  next
    case (2 inp' hold' bits')
    have "unat hold mod 2 ^ bits = unat hold' mod 2 ^ bits" using 2(4) by simp
    then have "entry_of (i_codes s) ?p ?r hold' = e" using entry_prefix [OF good, of hold bits hold'] e by simp
    then show ?case using leave [of bits' inp' hold'] 2 e(1) x by simp
  qed
  show ?thesis
    unfolding codelens_iter_def
  proof (rule one_level [OF good], goal_cases)
    case (1 inp hold bits)
    then show ?case using leave [of bits inp hold] by (simp add: cl_need_def)
  next
    case (2 inp hold bits e)
    consider "c_val e < 16" | "c_val e = 16" | "c_val e = 17" | "17 < c_val e" by linarith
    then show ?case
    proof cases
      case v: 1
      have b8: "bits < c_bits e + 8" using 2 few v by (auto simp: cl_need_def)
      let ?s = "DROPBITS (c_bits e) (pulled s inp hold bits)"
      have hv: "i_have ?s = i_have s" "i_nlen ?s = i_nlen s" "i_ndist ?s = i_ndist s" by (simp_all add: DROPBITS_def pulled_def)
      have "gives (\<lambda>t. cl_inv s0 t \<and> i_have t = i_have ?s + 1 \<and> i_nlen t + i_ndist t = i_nlen ?s + i_ndist ?s)
          (repeat_len 1 (c_val e) ?s)"
        by (rule repeat_len_ok) (use put0 b8 2 v h hv in simp_all)
      then show ?thesis using v hv by (cases "repeat_len 1 (c_val e) ?s") (auto simp: gives_def cl_next_def)
    next
      case v: 2
      have k: "gives (cl_next s0 s) (let t = DROPBITS (c_bits e) u in
          if i_have t = 0 then S_go (bad ''invalid bit length repeat'' t)
          else if i_have t - 1 < length (i_lens t)
          then put_repeat (3 + BITS 2 t) (i_lens t ! (i_have t - 1)) (DROPBITS 2 t) else S_undef)"
        if l: "in_bits inp bits = left_bits s" and p: "cl_put s0 (DROPBITS 2 (DROPBITS (c_bits e) u))" and u: "u = pulled s inp hold bits" for u inp hold bits
      proof (cases "i_have s = 0")
        case True
        then show ?thesis
          using p l inv unfolding u
          by (simp add: DROPBITS_def pulled_def cl_next_def cl_bad_def cl_put_def cl_inv_def bad_def Let_def, linarith)
      next
        case False
        have "gives (cl_next s0 s) (put_repeat (3 + x) (i_lens s ! (i_have s - 1)) (DROPBITS 2 (DROPBITS (c_bits e) u)))" for x
          by (rule put_repeat_ok [OF p]) (use lens False u in \<open>simp_all add: DROPBITS_def pulled_def\<close>)
        then show ?thesis using False lens u by (simp add: Let_def DROPBITS_def pulled_def)
      qed
      have n: "\<not> c_val e < 16" using v by simp_all
      show ?thesis
        unfolding if_not_P [OF n] if_P [OF v] by (rule rep [OF 2(1,2,4,5)]; (rule k)?; simp add: cl_need_def v n)
    next
      case v: 3
      have k: "gives (cl_next s0 s) (let t = DROPBITS (c_bits e) u in put_repeat (3 + BITS 3 t) 0 (DROPBITS 3 t))"
        if l: "in_bits inp bits = left_bits s" and p: "cl_put s0 (DROPBITS 3 (DROPBITS (c_bits e) u))" and u: "u = pulled s inp hold bits" for u inp hold bits
        unfolding Let_def by (rule put_repeat_ok [OF p]) (use u in \<open>simp_all add: DROPBITS_def pulled_def\<close>)
      have n: "\<not> c_val e < 16" "c_val e \<noteq> 16" using v by simp_all
      show ?thesis
        unfolding if_not_P [OF n(1)] if_not_P [OF n(2)] if_P [OF v] by (rule rep [OF 2(1,2,4,5)]; (rule k)?; simp add: cl_need_def v n)
    next
      case v: 4
      have k: "gives (cl_next s0 s) (let t = DROPBITS (c_bits e) u in put_repeat (11 + BITS 7 t) 0 (DROPBITS 7 t))"
        if l: "in_bits inp bits = left_bits s" and p: "cl_put s0 (DROPBITS 7 (DROPBITS (c_bits e) u))" and u: "u = pulled s inp hold bits" for u inp hold bits
        unfolding Let_def by (rule put_repeat_ok [OF p]) (use u in \<open>simp_all add: DROPBITS_def pulled_def\<close>)
      have n: "\<not> c_val e < 16" "c_val e \<noteq> 16" "c_val e \<noteq> 17" using v by simp_all
      show ?thesis
        unfolding if_not_P [OF n(1)] if_not_P [OF n(2)] if_not_P [OF n(3)] by (rule rep [OF 2(1,2,4,5)]; (rule k)?; simp add: cl_need_def v n)
    qed
  qed
qed

lemma codelens_loop_ok:
  "cl_inv s0 s \<Longrightarrow> i_nlen s + i_ndist s - i_have s \<le> n \<Longrightarrow>
     gives (\<lambda>t. cl_bad s0 t \<or> cl_inv s0 t \<and> i_have t = i_nlen t + i_ndist t) (codelens_loop n s)"
proof (induction n arbitrary: s)
  case 0
  then show ?case by (simp add: cl_inv_def)
next
  case (Suc n)
  show ?case
  proof (cases "i_have s < i_nlen s + i_ndist s")
    case True
    have "gives (\<lambda>t. cl_bad s0 t \<or> cl_inv s0 t \<and> i_have t = i_nlen t + i_ndist t)
      (then_go (codelens_iter s) (\<lambda>s. if i_mode s = M_BAD then S_go s else codelens_loop n s))"
    proof (rule gives_gives [OF codelens_iter_ok [OF Suc.prems(1) True]])
      fix t assume t: "cl_next s0 s t"
      show "gives (\<lambda>t. cl_bad s0 t \<or> cl_inv s0 t \<and> i_have t = i_nlen t + i_ndist t)
          (if i_mode t = M_BAD then S_go t else codelens_loop n t)"
      proof (cases "cl_bad s0 t")
        case True
        then show ?thesis by (simp add: cl_bad_def)
      next
        case False
        then have c: "cl_inv s0 t" "i_have s < i_have t" "i_nlen t + i_ndist t = i_nlen s + i_ndist s"
          using t by (simp_all add: cl_next_def)
        then have "gives (\<lambda>t. cl_bad s0 t \<or> cl_inv s0 t \<and> i_have t = i_nlen t + i_ndist t) (codelens_loop n t)"
          using Suc.prems(2) True by (intro Suc.IH) simp_all
        then show ?thesis using c by (simp add: cl_inv_def)
      qed
    qed
    then show ?thesis using True by simp
  next
    case False
    then show ?thesis using Suc.prems by (simp add: cl_inv_def)
  qed
qed

lemma do_CODELENS_ok: "inflate_inv s \<Longrightarrow> i_mode s = M_CODELENS \<Longrightarrow> fine s (do_CODELENS flush s)"
proof -
  assume inv: "inflate_inv s" and m: "i_mode s = M_CODELENS"
  have c: "cl_inv s s" using inv m by (simp add: cl_inv_def inflate_inv_def)
  show ?thesis
    unfolding do_CODELENS_def
  proof (rule gives_then [OF codelens_loop_ok [OF c order_refl]], elim disjE conjE)
    fix t assume t: "cl_bad s t"
    then show "fine s (if i_mode t = M_BAD then S_go t else x)" for x
      using m by (simp add: cl_bad_def inflate_inv_def smaller_def, linarith)
  next
    fix t assume t: "cl_inv s t" and h: "i_have t = i_nlen t + i_ndist t"
    let ?ll = "take (i_nlen t) (i_lens t)"
    let ?dl = "take (i_ndist t) (drop (i_nlen t) (i_lens t))"
    have b: "base_ok t" and sz: "sizes_ok t" and v: "\<forall>i<i_nlen t + i_ndist t. i_lens t ! i \<le> 15"
      using t h by (simp_all add: cl_inv_def)
    note bo = base_okD [OF b]
    have z: "257 \<le> i_nlen t" "i_nlen t \<le> 286" "i_ndist t \<le> 30" using sz by (simp_all add: sizes_ok_def)
    have l15: "\<forall>l\<in>set ?ll. l \<le> MAXBITS" "\<forall>l\<in>set ?dl. l \<le> MAXBITS"
      using v bo(3) z by (auto simp: in_set_conv_nth MAXBITS_def)
    have E: "length (i_codes t) = 1444" using bo(4) by (simp add: ENOUGH_def ENOUGH_LENS_def ENOUGH_DISTS_def)
    obtain ret codes used root where r: "inflate_table LENS ?ll (i_codes t) 9 = Some (ret, codes, used, root)"
      "table_ok LENS ?ll (i_codes t) (ret, codes, used, root)"
      using inflate_table_spec [OF l15(1), of LENS "i_codes t" 9] z E
      by (force simp: table_space_def ENOUGH_LENS_def)
    have lc: "length codes = 1444" using r(2) E by (simp add: table_ok_def)
    have u: "ret = 0 \<Longrightarrow> used \<le> 852" using r(2) by (simp add: table_ok_def ENOUGH_LENS_def)
    have EN: "ENOUGH = 1444" by (simp add: ENOUGH_def ENOUGH_LENS_def ENOUGH_DISTS_def)
    have dist: "\<exists>ret' codes' used' root'. inflate_table DISTS ?dl (drop used codes) 6 = Some (ret', codes', used', root') \<and>
        length codes' = 1444 - used \<and> (ret' = 0 \<longrightarrow>
          good_table LENS (take used codes @ codes') (P_codes 0) root \<and>
          good_table DISTS (take used codes @ codes') (P_codes used) root')" if ret: "ret = 0"
    proof -
      obtain ret' codes' used' root' where r': "inflate_table DISTS ?dl (drop used codes) 6 = Some (ret', codes', used', root')"
        "table_ok DISTS ?dl (drop used codes) (ret', codes', used', root')"
        using inflate_table_spec [OF l15(2), of DISTS "drop used codes" 6] z lc u [OF ret]
        by (force simp: table_space_def ENOUGH_DISTS_def)
      have g: "good_table LENS (take used codes @ codes') (P_codes 0) root"
        using r(2) ret by (intro good_take [where n = used and t = codes and r = codes']) (simp_all add: table_ok_def tab_of_def)
      have "ret' = 0 \<Longrightarrow> good_table DISTS (take used codes @ codes') (P_codes used) root'"
        using r'(2) lc u [OF ret]
        by (intro good_take [where n = used' and t = codes' and r = "drop used' codes'"])
          (simp_all add: table_ok_def tab_of_def)
      then show ?thesis using r' g lc by (simp add: table_ok_def)
    qed
    have m256: "256 < length (i_lens t)" using bo(3) by simp
    have T: "left_bits t \<le> left_bits s" "z_avail_out t = z_avail_out s" "i_wbits t \<noteq> 0" "i_mode t = M_CODELENS"
      using t by (simp_all add: cl_inv_def)
    have i8: "i_bits t < 8" using t h by (simp add: cl_inv_def)
    show "fine s (if i_mode t = M_BAD then S_go t
     else if \<not> 256 < length (i_lens t) then S_undef
     else if i_lens t ! 256 = 0 then S_go (bad ''invalid code -- missing end-of-block'' t)
     else of_opt (inflate_table LENS ?ll (i_codes t) 9) (\<lambda>(ret, codes, used, bits).
       let s = t\<lparr>i_codes := codes, i_next := used, i_lencode := P_codes 0, i_lenbits := bits, r_ret := ret\<rparr> in
       if ret \<noteq> 0 then S_go (bad ''invalid literal/lengths set'' s)
       else of_opt (inflate_table DISTS (take (i_ndist s) (drop (i_nlen s) (i_lens s))) (drop used (i_codes s)) 6)
         (\<lambda>(ret, codes, used', bits).
           let s = s\<lparr>i_codes := take used (i_codes s) @ codes, i_next := used + used',
                     i_distcode := P_codes used, i_distbits := bits, r_ret := ret\<rparr> in
           if ret \<noteq> 0 then S_go (bad ''invalid distances set'' s)
           else (let s = s\<lparr>i_mode := M_LEN0\<rparr> in if flush = Z_TREES then S_leave s else S_go s))))"
    proof (cases "ret = 0")
      case False
      then show ?thesis using T m b m256 lc EN r(1)
        by (simp add: of_opt_def inflate_inv_def smaller_def bad_def base_ok_codes, linarith)
    next
      case True
      obtain ret' codes' used' root' where d: "inflate_table DISTS ?dl (drop used codes) 6 = Some (ret', codes', used', root')"
        "length codes' = 1444 - used" "ret' = 0 \<Longrightarrow>
          good_table LENS (take used codes @ codes') (P_codes 0) root \<and>
          good_table DISTS (take used codes @ codes') (P_codes used) root'"
        using dist [OF True] by blast
      have L: "length (take used codes @ codes') = ENOUGH" using d(2) lc u [OF True] EN by simp
      have r0: "inflate_table LENS ?ll (i_codes t) 9 = Some (0, codes, used, root)" using r(1) True by simp
      show ?thesis
        using T m b m256 d(3) i8 L
        by (cases "ret' = 0")
          (auto simp: r0 d(1) of_opt_def inflate_inv_def smaller_def bad_def base_ok_codes tables_ok_def Let_def)
    qed
  qed
qed

end
