(* ===== verification/Zl_InfCodes.thy ===== *)
theory Zl_InfCodes
  imports Zl_InfDynamic
begin

text \<open>
  The modes that decode symbols and copy matches, and \<open>inflate_fast\<close>: its reads stay in the input, its
  copies inside the window and the space for the output, it takes at least one symbol and puts back only
  bytes it has taken. The unrolled copy is the plain one.
\<close>

section \<open>Codes\<close>

text \<open>The kinds of entries that end a code.\<close>

lemma base_op: "16 \<le> op \<Longrightarrow> op \<le> 29 \<Longrightarrow> op AND 15 = op - 16 \<and> op AND 16 \<noteq> 0 \<and> op AND 32 = 0 \<and> op AND 64 = (0 :: nat)"
proof -
  have "list_all (\<lambda>op. op AND 15 = op - 16 \<and> op AND 16 \<noteq> 0 \<and> op AND 32 = 0 \<and> op AND 64 = (0 :: nat)) [16..<30]" by code_simp
  then show "16 \<le> op \<Longrightarrow> op \<le> 29 \<Longrightarrow> ?thesis" by (simp only: list_all_iff set_upt) simp
qed

lemma lens_entry:
  assumes "end_entry LENS n e"
  obtains (lit) "c_op e = 0" | (eob) "c_op e = 96"
  | (invalid) "c_op e \<noteq> 0" "c_op e AND 16 = 0" "c_op e AND 32 = 0" "c_op e AND 64 \<noteq> 0"
  | (base) "16 \<le> c_op e" "c_op e \<le> 21" "3 \<le> c_val e" "c_val e + 2 ^ (c_op e - 16) \<le> 259"
proof -
  have "(77 :: nat) AND 16 = 0" "(77 :: nat) AND 32 = 0" "(77 :: nat) AND 64 \<noteq> 0"
    "(202 :: nat) AND 16 = 0" "(202 :: nat) AND 32 = 0" "(202 :: nat) AND 64 \<noteq> 0"
    "(64 :: nat) AND 16 = 0" "(64 :: nat) AND 32 = 0" "(64 :: nat) AND 64 \<noteq> 0" by simp_all
  then show thesis using assms that by (cases e) auto
qed

lemma dists_entry:
  assumes "end_entry DISTS n e"
  obtains (invalid) "c_op e = 64"
  | (base) "16 \<le> c_op e" "c_op e \<le> 29" "1 \<le> c_val e" "c_val e + 2 ^ (c_op e - 16) \<le> 32769"
  using assms by (cases e) auto

lemma end_bits: "end_entry type n e \<Longrightarrow> 1 \<le> c_bits e \<and> c_bits e \<le> n"
  by (cases type; cases e) auto

lemma sub_op: "sub_entry type root tab e \<Longrightarrow> c_op e \<noteq> 0 \<and> c_op e AND 0xf0 = 0 \<and> c_bits e = root"
  using small_op [of "c_op e"] by (auto simp: sub_entry_def)

definition sym_inv :: "zstrm \<Rightarrow> zstrm \<Rightarrow> bool" where
  "sym_inv s0 s \<longleftrightarrow> base_ok s \<and> i_wbits s \<noteq> 0 \<and> tables_ok s \<and> left_bits s \<le> left_bits s0 \<and>
     z_avail_out s = z_avail_out s0"

lemma len_symbol_ok:
  assumes e: "end_entry LENS n e" and s: "sym_inv s0 s" and b: "c_bits e \<le> i_bits s" "i_bits s < c_bits e + 8"
  shows "fine s0 (len_symbol e s)"
proof -
  note eb = end_bits [OF e]
  show ?thesis
  proof (rule lens_entry [OF e])
    assume "c_op e = 0"
    then show ?thesis using s b eb
      by (simp add: len_symbol_def DROPBITS_def inflate_inv_def smaller_def sym_inv_def, linarith)
  next
    assume "c_op e = 96"
    then show ?thesis using s b eb
      by (simp add: len_symbol_def DROPBITS_def inflate_inv_def smaller_def sym_inv_def, linarith)
  next
    assume "c_op e \<noteq> 0" "c_op e AND 16 = 0" "c_op e AND 32 = 0" "c_op e AND 64 \<noteq> 0"
    then show ?thesis using s b eb
      by (simp add: len_symbol_def DROPBITS_def inflate_inv_def smaller_def sym_inv_def bad_def, linarith)
  next
    assume o: "16 \<le> c_op e" "c_op e \<le> 21" "3 \<le> c_val e"
    have x: "c_op e AND 32 = 0" "c_op e AND 64 = 0" "c_op e AND 15 \<le> 5" using base_op [of "c_op e"] o by simp_all
    have nz: "c_op e \<noteq> 0" using o by simp
    have "i_bits s - c_bits e < 8" using b by linarith
    then show ?thesis using s b eb o x nz
      by (simp add: len_symbol_def DROPBITS_def inflate_inv_def smaller_def sym_inv_def, linarith)
  qed
qed

lemma dist_symbol_ok:
  assumes e: "end_entry DISTS n e" and s: "sym_inv s0 s" and l: "3 \<le> i_length s"
    and b: "c_bits e \<le> i_bits s" "i_bits s < c_bits e + 8"
  shows "fine s0 (dist_symbol e s)"
proof -
  note eb = end_bits [OF e]
  show ?thesis
  proof (rule dists_entry [OF e])
    assume "c_op e = 64"
    then show ?thesis using s b eb
      by (simp add: dist_symbol_def DROPBITS_def inflate_inv_def smaller_def sym_inv_def bad_def, linarith)
  next
    assume o: "16 \<le> c_op e" "c_op e \<le> 29" "1 \<le> c_val e"
    have x: "c_op e AND 64 = 0" "c_op e AND 15 \<le> 13" using base_op [of "c_op e"] o by simp_all
    have "i_bits s - c_bits e < 8" using b by linarith
    then show ?thesis using s b eb o x l
      by (simp add: dist_symbol_def DROPBITS_def inflate_inv_def smaller_def sym_inv_def, linarith)
  qed
qed

lemma get_code_cong:
  "(\<And>e inp hold bits. k e (pulled s inp hold bits) = k' e (pulled s inp hold bits)) \<Longrightarrow>
     get_code look dr s k = get_code look dr s k'"
  unfolding get_code_eq by (simp split: option.splits prod.splits)

lemma slow_LEN_ok:
  assumes inv: "inflate_inv s" and m: "i_mode s = M_LEN"
  shows "fine s (let s = s\<lparr>i_back := 0\<rparr> in
         get_code (look_root (i_lencode s) (i_lenbits s) s) 0 s (\<lambda>here s.
           if c_op here \<noteq> 0 \<and> c_op here AND 0xf0 = 0 then
             get_code (look_sub (i_lencode s) here s) (c_bits here) s (\<lambda>here' s.
               len_symbol here' (DROPBITS (c_bits here) (s\<lparr>i_back := i_back s + int (c_bits here)\<rparr>)))
           else len_symbol here s))"
proof -
  let ?t = "s\<lparr>i_back := 0\<rparr>"
  have good: "good_table LENS (i_codes ?t) (i_lencode s) (i_lenbits s)" and w: "i_wbits s \<noteq> 0" and b: "base_ok s"
    and tb: "tables_ok s" and few: "few s (need_of (i_codes s) (i_lencode s) (i_lenbits s) (i_hold s))"
    using inv m by (simp_all add: inflate_inv_def tables_ok_def)
  have pl: "i_lencode (pulled ?t inp hold bits) = i_lencode s" for inp hold bits by (simp add: pulled_def)
  have "fine s (get_code (look_root (i_lencode s) (i_lenbits s) ?t) 0 ?t (\<lambda>here s'.
           if c_op here \<noteq> 0 \<and> c_op here AND 0xf0 = 0 then
             get_code (look_sub (i_lencode s) here s') (c_bits here) s' (\<lambda>here' s.
               len_symbol here' (DROPBITS (c_bits here) (s\<lparr>i_back := i_back s + int (c_bits here)\<rparr>)))
           else len_symbol here s'))"
  proof (rule two_level [OF good], goal_cases)
    case (1 e)
    show ?case using end_entry_op [OF 1] by auto
  next
    case (2 e)
    then show ?case using sub_op by blast
  next
    case (3 inp hold bits)
    then show ?case using b w tb m by (simp add: inflate_inv_def pulled_def)
  next
    case (4 inp hold bits e)
    have "bits < c_bits e + 8" using 4 few by auto
    then show ?case
      using 4 b w tb by (intro len_symbol_ok [OF 4(3)]) (simp_all add: sym_inv_def pulled_def)
  next
    case (5 inp hold bits l e)
    have "bits < i_lenbits s + c_bits e + 8" using 5 few by auto
    then show ?case
      using 5 b w tb sub_op [OF 5(2)]
      by (intro len_symbol_ok [OF 5(4)]; simp add: sym_inv_def pulled_def DROPBITS_def; linarith?)
  qed
  then show ?thesis unfolding Let_def by (subst get_code_cong) (auto simp: pl)
qed

lemma do_DIST_ok:
  assumes inv: "inflate_inv s" and m: "i_mode s = M_DIST"
  shows "fine s (do_DIST s)"
proof -
  have good: "good_table DISTS (i_codes s) (i_distcode s) (i_distbits s)" and w: "i_wbits s \<noteq> 0" and b: "base_ok s"
    and tb: "tables_ok s" and few: "few s (need_of (i_codes s) (i_distcode s) (i_distbits s) (i_hold s))"
    and l: "3 \<le> i_length s"
    using inv m by (simp_all add: inflate_inv_def tables_ok_def)
  have pl: "i_distcode (pulled s inp hold bits) = i_distcode s" for inp hold bits by (simp add: pulled_def)
  have "fine s (get_code (look_root (i_distcode s) (i_distbits s) s) 0 s (\<lambda>here s'.
           if c_op here AND 0xf0 = 0 then
             get_code (look_sub (i_distcode s) here s') (c_bits here) s' (\<lambda>here' s.
               dist_symbol here' (DROPBITS (c_bits here) (s\<lparr>i_back := i_back s + int (c_bits here)\<rparr>)))
           else dist_symbol here s'))"
  proof (rule two_level [OF good], goal_cases)
    case (1 e)
    show ?case by (rule dists_entry [OF 1]) (use end_entry_op [OF 1] in auto)
  next
    case (2 e)
    then show ?case using sub_op by blast
  next
    case (3 inp hold bits)
    then show ?case using b w tb m l by (simp add: inflate_inv_def pulled_def)
  next
    case (4 inp hold bits e)
    have "bits < c_bits e + 8" using 4 few by auto
    then show ?case
      using 4 b w tb l by (intro dist_symbol_ok [OF 4(3)]) (simp_all add: sym_inv_def pulled_def)
  next
    case (5 inp hold bits l e)
    have "bits < i_distbits s + c_bits e + 8" using 5 few by auto
    then show ?case
      using 5 b w tb sub_op [OF 5(2)] \<open>3 \<le> i_length s\<close>
      by (intro dist_symbol_ok [OF 5(4)]; simp add: sym_inv_def pulled_def DROPBITS_def; linarith?)
  qed
  then show ?thesis unfolding do_DIST_def by (subst get_code_cong) (auto simp: pl)
qed

section \<open>Copying a match\<close>

text \<open>\<open>n\<close> bytes more are written.\<close>

definition wrote :: "bytes \<Rightarrow> zstrm \<Rightarrow> zstrm" where
  "wrote p s = s\<lparr>z_put := z_put s @ p, z_avail_out := z_avail_out s - length p\<rparr>"

lemma wrote_simps [simp]:
  "z_put (wrote p s) = z_put s @ p" "z_avail_out (wrote p s) = z_avail_out s - length p"
  "i_window (wrote p s) = i_window s" "wrote [] s = s" "i_mode (wrote p s) = i_mode s" "i_wbits (wrote p s) = i_wbits s"
  "i_bits (wrote p s) = i_bits s" "z_next_in (wrote p s) = z_next_in s" "tables_ok (wrote p s) = tables_ok s"
  "i_wsize (wrote p s) = i_wsize s" "i_wnext (wrote p s) = i_wnext s" "i_hold (wrote p s) = i_hold s"
  "r_seen (wrote p s) = r_seen s" "i_length (wrote p s) = i_length s" "i_offset (wrote p s) = i_offset s"
  by (simp_all add: wrote_def)

lemma wrote_wrote: "wrote q (wrote p s) = wrote (p @ q) s"
  by (simp add: wrote_def)

lemma base_ok_wrote: "base_ok s \<Longrightarrow> length p \<le> z_avail_out s \<Longrightarrow> base_ok (wrote p s)"
  unfolding wrote_def by (rule base_ok_put) simp_all

text \<open>The bytes a copy from a distance \<open>d\<close> behind the end of the output writes.\<close>

fun lz_copy :: "nat \<Rightarrow> nat \<Rightarrow> bytes \<Rightarrow> bytes" where
  "lz_copy 0 d out = []"
| "lz_copy (Suc n) d out = (let b = out ! (length out - d) in b # lz_copy n d (out @ [b]))"

lemma lz_copy_length [simp]: "length (lz_copy n d out) = n"
  by (induction n d out rule: lz_copy.induct) (simp_all add: Let_def)

lemma copy_out:
  "0 < d \<Longrightarrow> d \<le> length (z_put s) \<Longrightarrow> n \<le> z_avail_out s \<Longrightarrow>
     copy_n n (From_out d, s) = Some (From_out d, wrote (lz_copy n d (z_put s)) s)"
proof (induction n arbitrary: s)
  case (Suc n)
  let ?b = "z_put s ! (length (z_put s) - d)"
  have "copy1 (From_out d, s) = Some (From_out d, wrote [?b] s)" using Suc.prems by (simp add: put_byte_def wrote_def)
  moreover have "copy_n n (From_out d, wrote [?b] s) = Some (From_out d, wrote (lz_copy n d (z_put s @ [?b])) (wrote [?b] s))"
    using Suc.prems Suc.IH [of "wrote [?b] s"] by simp
  ultimately show ?case by (simp add: Let_def wrote_wrote)
qed simp

lemma copy_win:
  "i_window s = Some w \<Longrightarrow> i + n \<le> length w \<Longrightarrow> n \<le> z_avail_out s \<Longrightarrow>
     copy_n n (From_win i, s) = Some (From_win (i + n), wrote (take n (drop i w)) s)"
proof (induction n arbitrary: s i)
  case (Suc n)
  have "copy1 (From_win i, s) = Some (From_win (Suc i), wrote [w ! i] s)" using Suc.prems by (simp add: put_byte_def wrote_def)
  moreover have "copy_n n (From_win (Suc i), wrote [w ! i] s) =
      Some (From_win (Suc i + n), wrote (take n (drop (Suc i) w)) (wrote [w ! i] s))"
    using Suc.prems Suc.IH [of "wrote [w ! i] s" "Suc i"] by simp
  moreover have "take (Suc n) (drop i w) = w ! i # take n (drop (Suc i) w)"
    using Suc.prems by (simp add: Cons_nth_drop_Suc [symmetric])
  ultimately show ?case by (simp add: wrote_wrote)
qed simp

lemma copy_n_add: "copy_n (m + n) x = Option.bind (copy_n m x) (copy_n n)"
proof (induction m arbitrary: x)
  case (Suc m)
  show ?case by (cases "copy1 x") (simp_all add: Suc.IH)
qed simp

text \<open>The loop unrolled three times copies what the plain loop does.\<close>

lemma unrolled_eq: "unrolled len x = copy_n len x"
proof (induction len x rule: unrolled.induct)
  case (1 len x)
  show ?case
  proof (cases "len > 2")
    case True
    have c1: "copy_n (Suc 0) = copy1"
    proof
      show "copy_n (Suc 0) y = copy1 y" for y by (cases "copy1 y") simp_all
    qed
    have 3: "copy_n 3 x = Option.bind (copy1 x) (\<lambda>x. Option.bind (copy1 x) copy1)"
      unfolding numeral_3_eq_3 copy_n.simps(2) [of "Suc (Suc 0)"] copy_n.simps(2) [of "Suc 0"] c1
      by (rule arg_cong [where f = "Option.bind (copy1 x)"], rule ext) (simp only: copy_n.simps(2) c1)
    have "copy_n len x = Option.bind (copy_n 3 x) (copy_n (len - 3))"
      using copy_n_add [of 3 "len - 3" x] True by simp
    then show ?thesis
      using 1 True by (subst unrolled.simps) (auto simp: 3 bind_eq_Some_conv split: Option.bind_splits)
  next
    case False
    then have "len = 0 \<or> len = 1 \<or> len = 2" by arith
    then show ?thesis by (subst unrolled.simps) (auto simp: numeral_2_eq_2 split: Option.bind_splits)
  qed
qed

lemma match_ok:
  assumes b: "base_ok s" and o: "1 \<le> i_offset s" and far: "\<not> (i_offset s > r_out s - z_avail_out s \<and>
      i_offset s - (r_out s - z_avail_out s) > i_whave s)"
  obtains src n where "(let n = r_out s - z_avail_out s in if i_offset s > n then
              (let n = i_offset s - n in
               if n > i_wnext s then
                 (let n = n - i_wnext s in
                  if n \<le> i_wsize s then Some (From_win (i_wsize s - n), min n (i_length s)) else None)
               else Some (From_win (i_wnext s - n), min n (i_length s)))
            else Some (From_out (i_offset s), i_length s)) = Some (src, n)"
    "n \<le> i_length s" "1 \<le> i_length s \<longrightarrow> 1 \<le> n"
    "\<And>m. m \<le> n \<Longrightarrow> m \<le> z_avail_out s \<Longrightarrow> \<exists>src' p. length p = m \<and> copy_n m (src, s) = Some (src', wrote p s)"
proof -
  note bo = base_okD [OF b]
  let ?out = "r_out s - z_avail_out s"
  show thesis
  proof (cases "i_offset s > ?out")
    case False
    show thesis
    proof (rule that [of "From_out (i_offset s)" "i_length s"])
      show "\<exists>src' p. length p = m \<and> copy_n m (From_out (i_offset s), s) = Some (src', wrote p s)"
        if "m \<le> z_avail_out s" for m
        using copy_out [of "i_offset s" s m] o False bo(6) that by (intro exI conjI) auto
    qed (use False in \<open>simp_all add: Let_def\<close>)
  next
    case True
    define op where "op = i_offset s - ?out"
    have op: "1 \<le> op" "op \<le> i_whave s" using True far by (simp_all add: op_def)
    have w: "i_whave s \<le> i_wsize s" "i_wsize s \<noteq> 0 \<longrightarrow> i_wnext s < i_wsize s"
      "i_whave s < i_wsize s \<longrightarrow> i_wnext s = i_whave s" using bo(7) by (simp_all add: win_ok_def)
    have nz: "i_wsize s \<noteq> 0" using op w(1) by linarith
    obtain win where win: "i_window s = Some win" "length win = i_wsize s" using bo(7) nz by (auto simp: win_ok_def)
    have cp: "\<exists>src' p. length p = m \<and> copy_n m (From_win i, s) = Some (src', wrote p s)"
      if "m \<le> z_avail_out s" "i + m \<le> i_wsize s" for m i
      using copy_win [of s win i m] win that by (intro exI conjI) auto
    show thesis
    proof (cases "op > i_wnext s")
      case t2: True
      show thesis
      proof (rule that [of "From_win (i_wsize s - (op - i_wnext s))" "min (op - i_wnext s) (i_length s)"])
        show "\<exists>src' p. length p = m \<and> copy_n m (From_win (i_wsize s - (op - i_wnext s)), s) = Some (src', wrote p s)"
          if "m \<le> min (op - i_wnext s) (i_length s)" "m \<le> z_avail_out s" for m
          by (rule cp [OF that(2)]) (use that op w in linarith)
      qed (use True t2 op w in \<open>simp_all add: Let_def op_def [symmetric] Suc_le_eq\<close>)
    next
      case f2: False
      show thesis
      proof (rule that [of "From_win (i_wnext s - op)" "min op (i_length s)"])
        show "\<exists>src' p. length p = m \<and> copy_n m (From_win (i_wnext s - op), s) = Some (src', wrote p s)"
          if "m \<le> min op (i_length s)" "m \<le> z_avail_out s" for m
          by (rule cp [OF that(2)]) (use that f2 w nz in linarith)
      qed (use True f2 op w nz in \<open>simp_all add: Let_def op_def [symmetric]\<close>)
    qed
  qed
qed

lemma do_MATCH_ok:
  assumes inv: "inflate_inv s" and m: "i_mode s = M_MATCH"
  shows "fine s (do_MATCH s)"
proof -
  have b: "base_ok s" and o: "1 \<le> i_offset s" and l: "1 \<le> i_length s" and w: "i_wbits s \<noteq> 0" and tb: "tables_ok s"
    and b8: "i_bits s < 8" using inv m by (simp_all add: inflate_inv_def)
  have sane: "i_sane s" using b by (simp add: base_okD)
  show ?thesis
  proof (cases "z_avail_out s = 0")
    case True
    then show ?thesis using inv by (simp add: do_MATCH_def)
  next
    case av: False
    show ?thesis
    proof (cases "i_offset s > r_out s - z_avail_out s \<and> i_offset s - (r_out s - z_avail_out s) > i_whave s")
      case True
      then show ?thesis using av sane b m by (simp add: do_MATCH_def Let_def inflate_inv_def smaller_def bad_def)
    next
      case False
      obtain src n where sel: "(let n = r_out s - z_avail_out s in if i_offset s > n then
              (let n = i_offset s - n in
               if n > i_wnext s then
                 (let n = n - i_wnext s in
                  if n \<le> i_wsize s then Some (From_win (i_wsize s - n), min n (i_length s)) else None)
               else Some (From_win (i_wnext s - n), min n (i_length s)))
            else Some (From_out (i_offset s), i_length s)) = Some (src, n)"
        and n: "n \<le> i_length s" "1 \<le> i_length s \<longrightarrow> 1 \<le> n"
        and cp: "\<And>m. m \<le> n \<Longrightarrow> m \<le> z_avail_out s \<Longrightarrow> \<exists>src' p. length p = m \<and> copy_n m (src, s) = Some (src', wrote p s)"
        by (rule match_ok [OF b o False]) (rule that)
      define k where "k = min n (z_avail_out s)"
      obtain src' p where p: "length p = k" "copy_n k (src, s) = Some (src', wrote p s)" using cp [of k] by (auto simp: k_def)
      have k: "1 \<le> k" "k \<le> z_avail_out s" "k \<le> i_length s" using n l av by (auto simp: k_def)
      have sel': "(if i_offset s > r_out s - z_avail_out s then
              (let n = i_offset s - (r_out s - z_avail_out s) in
               if n > i_wnext s then
                 (let n = n - i_wnext s in
                  if n \<le> i_wsize s then Some (From_win (i_wsize s - n), min n (i_length s)) else None)
               else Some (From_win (i_wnext s - n), min n (i_length s)))
            else Some (From_out (i_offset s), i_length s)) = Some (src, n)" using sel by (simp only: Let_def)
      have f: "\<not> (i_offset s > r_out s - z_avail_out s \<and> i_offset s - (r_out s - z_avail_out s) > i_whave s \<and> i_sane s)"
        using False by blast
      have r: "do_MATCH s = S_go (let t = (wrote p s)\<lparr>i_length := i_length s - k\<rparr> in
          if i_length t = 0 then t\<lparr>i_mode := M_LEN\<rparr> else t)"
        unfolding do_MATCH_def if_not_P [OF av] Let_def [of "r_out s - z_avail_out s"] if_not_P [OF f] sel'
        using p k(1) by (simp add: of_opt_def copy_do_def k_def [symmetric] Let_def)
      have b': "base_ok (wrote p s)" using b p(1) k(2) by (simp add: base_ok_wrote)
      show ?thesis
        unfolding r using b' w tb b8 o m p(1) k by (simp add: Let_def inflate_inv_def smaller_def, arith)
    qed
  qed
qed

section \<open>inflate_fast\<close>

text \<open>Between two symbols: what the loop needs and keeps.\<close>

definition fast_inv :: "zstrm \<Rightarrow> bool" where
  "fast_inv s \<longleftrightarrow> base_ok s \<and> tables_ok s \<and> i_wbits s \<noteq> 0 \<and> i_mode s = M_LEN"

text \<open>Bytes taken are put back whole: at most so many bits are left as came from them, and seven.\<close>

abbreviation seen_bits :: "zstrm \<Rightarrow> nat" where
  "seen_bits s \<equiv> 8 * length (r_seen s)"

definition took :: "zstrm \<Rightarrow> zstrm \<Rightarrow> bool" where
  "took s t \<longleftrightarrow> (\<exists>inp hold bits seen. t = pulled s inp hold bits\<lparr>r_seen := seen\<rparr> \<and>
     in_bits inp bits = left_bits s \<and> i_bits s \<le> bits \<and> bits + seen_bits s = i_bits s + 8 * length seen \<and>
     unat hold mod 2 ^ i_bits s = unat (i_hold s) mod 2 ^ i_bits s)"

definition fast_pulled :: "nat \<Rightarrow> zstrm \<Rightarrow> zstrm \<Rightarrow> bool" where
  "fast_pulled n s t \<longleftrightarrow> n \<le> i_bits t \<and> took s t"

lemma fast_byte_spec:
  "z_next_in s = b # r \<Longrightarrow> fast_byte s = Some (pulled s r (i_hold s + push_bit (i_bits s) (ucast b)) (i_bits s + 8)\<lparr>r_seen := b # r_seen s\<rparr>)"
  by (simp add: fast_byte_def pulled_def)

lemma fast_byte_ok: "8 \<le> left_bits s - i_bits s \<Longrightarrow> \<exists>t. fast_byte s = Some t \<and> fast_pulled (i_bits s + 8) s t"
proof -
  assume "8 \<le> left_bits s - i_bits s"
  then obtain b r where b: "z_next_in s = b # r" by (cases "z_next_in s") auto
  show ?thesis
    unfolding fast_byte_spec [OF b] fast_pulled_def took_def
    by (rule exI, rule conjI [OF refl], rule conjI, simp, intro exI conjI, rule refl) (auto simp: b pull_low)
qed

lemma took_refl: "took s s"
  unfolding took_def
  by (intro exI [of _ "z_next_in s"] exI [of _ "i_hold s"] exI [of _ "i_bits s"] exI [of _ "r_seen s"]) (simp add: pulled_def)

lemma took_trans:
  assumes "took s t" and "took t u"
  shows "took s u"
proof -
  obtain inp hold bits seen where t: "t = pulled s inp hold bits\<lparr>r_seen := seen\<rparr>"
    "in_bits inp bits = left_bits s" "i_bits s \<le> bits" "bits + seen_bits s = i_bits s + 8 * length seen"
    "unat hold mod 2 ^ i_bits s = unat (i_hold s) mod 2 ^ i_bits s" using assms(1) unfolding took_def by blast
  obtain inp' hold' bits' seen' where u: "u = pulled t inp' hold' bits'\<lparr>r_seen := seen'\<rparr>"
    "in_bits inp' bits' = left_bits t" "i_bits t \<le> bits'" "bits' + seen_bits t = i_bits t + 8 * length seen'"
    "unat hold' mod 2 ^ i_bits t = unat (i_hold t) mod 2 ^ i_bits t" using assms(2) unfolding took_def by blast
  have l: "unat hold' mod 2 ^ i_bits s = unat (i_hold s) mod 2 ^ i_bits s"
    using low_trans [of "unat hold'" bits "unat hold" "i_bits s"] t u(5) by (simp add: pulled_def)
  have "u = pulled s inp' hold' bits'\<lparr>r_seen := seen'\<rparr>" unfolding u(1) t(1) by (simp add: pulled_def)
  moreover have "in_bits inp' bits' = left_bits s" "i_bits s \<le> bits'" "bits' + seen_bits s = i_bits s + 8 * length seen'"
    using t u(2,3,4) by (simp_all add: pulled_def)
  ultimately show ?thesis using l unfolding took_def by blast
qed

lemma fast_pulled_refl: "n \<le> i_bits s \<Longrightarrow> fast_pulled n s s"
  by (simp add: fast_pulled_def took_refl)

lemma fast_pulledD:
  assumes "fast_pulled n s t"
  shows "left_bits t = left_bits s" "n \<le> i_bits t" "i_bits s \<le> i_bits t" "i_bits t + seen_bits s = i_bits s + seen_bits t"
    "unat (i_hold t) mod 2 ^ i_bits s = unat (i_hold s) mod 2 ^ i_bits s"
    "i_codes t = i_codes s" "i_lencode t = i_lencode s" "i_lenbits t = i_lenbits s"
    "i_distcode t = i_distcode s" "i_distbits t = i_distbits s" "z_avail_out t = z_avail_out s"
    "fast_inv t = fast_inv s"
  using assms by (auto simp: fast_pulled_def took_def pulled_def fast_inv_def)

lemma fast_fill_ok:
  assumes "28 \<le> left_bits s"
  shows "\<exists>t. fast_fill s = Some t \<and> fast_pulled 15 s t"
proof (cases "i_bits s < 15")
  case False
  then show ?thesis using fast_pulled_refl [of 15 s] by (simp add: fast_fill_def)
next
  case True
  then have "2 \<le> length (z_next_in s)" using assms by simp
  then obtain a b r where i: "z_next_in s = a # b # r" by (cases "z_next_in s"; cases "tl (z_next_in s)") auto
  obtain t where t: "fast_byte s = Some t" "fast_pulled (i_bits s + 8) s t" using fast_byte_ok [of s] i by auto
  have l: "left_bits t = left_bits s" "i_bits t = i_bits s + 8"
    using t(1) unfolding fast_byte_spec [OF i] by (auto simp: i)
  then obtain u where u: "fast_byte t = Some u" "fast_pulled (i_bits t + 8) t u" using fast_byte_ok [of t] i by auto
  have "fast_pulled 15 s u"
    using took_trans [of s t u] t(2) u(2) l(2) by (simp add: fast_pulled_def)
  then show ?thesis using True t(1) u(1) by (simp add: fast_fill_def)
qed

lemma fast_need_ok:
  assumes "n \<le> left_bits s"
  shows "\<exists>t. fast_need n s = Some t \<and> fast_pulled (min n (i_bits s + 8)) s t"
proof (cases "i_bits s < n")
  case False
  then show ?thesis using fast_pulled_refl [of n s] by (auto simp: fast_need_def)
next
  case True
  then have "z_next_in s \<noteq> []" using assms by auto
  then have "8 \<le> left_bits s - i_bits s" by (cases "z_next_in s") auto
  then obtain t where "fast_byte s = Some t" "fast_pulled (i_bits s + 8) s t" using fast_byte_ok by blast
  then show ?thesis using True by (auto simp: fast_need_def fast_pulled_def)
qed

lemma fast_drop_ok: "n \<le> i_bits s \<Longrightarrow> fast_drop n s = Some (DROPBITS n s)"
  by (simp add: fast_drop_def)

definition fast_mid :: "zstrm \<Rightarrow> zstrm \<Rightarrow> bool" where
  "fast_mid s0 s \<longleftrightarrow> fast_inv s \<and> left_bits s < left_bits s0 \<and> i_bits s < 8 + seen_bits s"

definition fast_res :: "zstrm \<Rightarrow> step \<Rightarrow> bool" where
  "fast_res s0 r = (case r of S_go s \<Rightarrow> fast_mid s0 s
     | S_leave s \<Rightarrow> base_ok s \<and> i_wbits s \<noteq> 0 \<and> (i_mode s = M_BAD \<or> i_mode s = M_TYPE) \<and> left_bits s < left_bits s0 \<and>
         i_bits s < 8 + seen_bits s
     | S_ret v s \<Rightarrow> False | S_undef \<Rightarrow> False)"

lemma fast_mid_pulled: "fast_mid s0 s \<Longrightarrow> fast_pulled n s t \<Longrightarrow> fast_mid s0 t"
proof -
  assume m: "fast_mid s0 s" and p: "fast_pulled n s t"
  note d = fast_pulledD [OF p]
  show ?thesis using m d(1,4,12) unfolding fast_mid_def by linarith
qed

lemma DROPBITS_simps [simp]:
  "i_bits (DROPBITS n s) = i_bits s - n" "i_hold (DROPBITS n s) = drop_bit n (i_hold s)" "r_seen (DROPBITS n s) = r_seen s"
  "z_next_in (DROPBITS n s) = z_next_in s" "i_codes (DROPBITS n s) = i_codes s" "z_avail_out (DROPBITS n s) = z_avail_out s"
  "base_ok (DROPBITS n s) = base_ok s" "tables_ok (DROPBITS n s) = tables_ok s" "i_wbits (DROPBITS n s) = i_wbits s"
  "i_mode (DROPBITS n s) = i_mode s" "i_distcode (DROPBITS n s) = i_distcode s" "i_lencode (DROPBITS n s) = i_lencode s"
  "i_distbits (DROPBITS n s) = i_distbits s" "i_lenbits (DROPBITS n s) = i_lenbits s"
  by (simp_all add: DROPBITS_def)

lemma fast_inv_drop [simp]: "fast_inv (DROPBITS n s) = fast_inv s"
  by (simp add: fast_inv_def)

lemma fast_mid_drop: "fast_mid s0 s \<Longrightarrow> fast_mid s0 (DROPBITS n s)"
  by (simp add: fast_mid_def, linarith)

lemma fast_mid_wrote: "fast_mid s0 s \<Longrightarrow> length p \<le> z_avail_out s \<Longrightarrow> fast_mid s0 (wrote p s)"
  by (simp add: fast_mid_def fast_inv_def base_ok_wrote)

lemma part_then_out_ok:
  assumes w: "i_window s = Some w" "i + min op len \<le> length w" and op: "1 \<le> op"
    and d: "1 \<le> dist" "dist \<le> length (z_put s) + op" and l: "len \<le> z_avail_out s"
  shows "\<exists>src p. length p = len \<and> part_then_out op len dist (From_win i, s) = Some (src, wrote p s)"
proof (cases "op < len")
  case False
  then show ?thesis
    using copy_win [of s w i len] assms by (intro exI conjI) (auto simp: part_then_out_def unrolled_eq)
next
  case True
  let ?p = "take op (drop i w)"
  have lp: "length ?p = op" using True w by simp
  have c: "copy_do op (From_win i, s) = Some (From_win (i + op), wrote ?p s)"
    using copy_win [of s w i op] True w op l by (simp add: copy_do_def)
  have "copy_n (len - op) (From_out dist, wrote ?p s) = Some (From_out dist, wrote (lz_copy (len - op) dist (z_put (wrote ?p s))) (wrote ?p s))"
    using d l lp by (intro copy_out) simp_all
  then show ?thesis
    using True c lp by (intro exI conjI) (auto simp: part_then_out_def unrolled_eq wrote_wrote)
qed

lemma window_copy_ok:
  assumes b: "base_ok s" and op: "1 \<le> op" "op \<le> i_whave s" and l: "3 \<le> len" "len \<le> z_avail_out s"
    and d: "dist \<le> length (z_put s) + op" "1 \<le> dist"
  shows "\<exists>src p. length p = len \<and> window_copy op len dist s = Some (src, wrote p s)"
proof -
  have wk: "win_ok s" using b by (simp add: base_ok_def)
  have w: "i_whave s \<le> i_wsize s" "i_wsize s \<noteq> 0 \<longrightarrow> i_wnext s < i_wsize s"
    "i_whave s < i_wsize s \<longrightarrow> i_wnext s = i_whave s" using wk by (simp_all add: win_ok_def)
  have nz: "i_wsize s \<noteq> 0" using op w(1) by linarith
  obtain win where win: "i_window s = Some win" "length win = i_wsize s" using wk nz by (auto simp: win_ok_def)
  consider (zero) "i_wnext s = 0" | (wrap) "0 < i_wnext s" "i_wnext s < op" | (inside) "0 < i_wnext s" "op \<le> i_wnext s" by linarith
  then show ?thesis
  proof cases
    case zero
    then have "\<exists>src p. length p = len \<and> part_then_out op len dist (From_win (i_wsize s - op), s) = Some (src, wrote p s)"
      using win op w l d by (intro part_then_out_ok; simp?; arith?)
    then show ?thesis using zero op w by (simp add: window_copy_def)
  next
    case inside
    then have "\<exists>src p. length p = len \<and> part_then_out op len dist (From_win (i_wnext s - op), s) = Some (src, wrote p s)"
      using win op w l d nz by (intro part_then_out_ok; simp?; arith?)
    then show ?thesis using inside by (simp add: window_copy_def)
  next
    case wrap
    have full: "i_whave s = i_wsize s" using wrap op w by linarith
    let ?i = "i_wsize s + i_wnext s - op" and ?o = "op - i_wnext s"
    show ?thesis
    proof (cases "?o < len")
      case False
      have "?i + len \<le> length win" using wrap op w win False by linarith
      then have "copy_n len (From_win ?i, s) = Some (From_win (?i + len), wrote (take len (drop ?i win)) s)"
        using copy_win [of s win ?i len] win l by simp
      then have "window_copy op len dist s = Some (From_win (?i + len), wrote (take len (drop ?i win)) s)"
        using False wrap op w by (simp add: window_copy_def unrolled_eq Let_def)
      moreover have "length (take len (drop ?i win)) = len" using \<open>?i + len \<le> length win\<close> by simp
      ultimately show ?thesis by blast
    next
      case True
      let ?p = "take ?o (drop ?i win)"
      have i: "?i + ?o = length win" using wrap op w win by linarith
      have lp: "length ?p = ?o" using i by simp
      have c: "copy_do ?o (From_win ?i, s) = Some (From_win (?i + ?o), wrote ?p s)"
        using copy_win [of s win ?i ?o] i win l True wrap by (simp add: copy_do_def)
      have "\<exists>src p. length p = len - ?o \<and> part_then_out (i_wnext s) (len - ?o) dist (From_win 0, wrote ?p s) = Some (src, wrote p (wrote ?p s))"
        using win w nz wrap lp l d by (intro part_then_out_ok; simp?; arith?)
      then obtain src p where p: "length p = len - ?o"
        "part_then_out (i_wnext s) (len - ?o) dist (From_win 0, wrote ?p s) = Some (src, wrote p (wrote ?p s))" by blast
      have "window_copy op len dist s = Some (src, wrote (?p @ p) s)"
        using True wrap op w full c p(2) by (simp add: window_copy_def Let_def wrote_wrote)
      moreover have "length (?p @ p) = len" using lp p(1) True by simp
      ultimately show ?thesis by blast
    qed
  qed
qed

lemma fast_copy_ok:
  assumes m: "fast_mid s0 s" and l: "3 \<le> len" "len \<le> z_avail_out s" and d: "1 \<le> dist"
  shows "fast_res s0 (fast_copy len dist s)"
proof -
  have b: "base_ok s" using m by (simp add: fast_mid_def fast_inv_def)
  note bo = base_okD [OF b]
  let ?out = "r_out s - z_avail_out s"
  show ?thesis
  proof (cases "dist > ?out")
    case False
    have "copy_n len (From_out dist, s) = Some (From_out dist, wrote (lz_copy len dist (z_put s)) s)"
      using False bo(6) d l by (intro copy_out) linarith+
    then show ?thesis
      using False l fast_mid_wrote [OF m, of "lz_copy len dist (z_put s)"]
      by (simp add: fast_copy_def Let_def unrolled_eq of_opt_def fast_res_def)
  next
    case True
    show ?thesis
    proof (cases "dist - ?out > i_whave s")
      case far: True
      then show ?thesis using True bo(2) m by (simp add: fast_copy_def Let_def fast_res_def bad_def fast_mid_def fast_inv_def)
    next
      case False
      have o: "1 \<le> dist - ?out" "dist - ?out \<le> i_whave s" "dist \<le> length (z_put s) + (dist - ?out)"
        using True False bo(6) by linarith+
      obtain src p where p: "length p = len" "window_copy (dist - ?out) len dist s = Some (src, wrote p s)"
        using window_copy_ok [OF b o(1,2) l o(3) d] by blast
      then show ?thesis
        using True False l fast_mid_wrote [OF m, of p] by (simp add: fast_copy_def Let_def of_opt_def fast_res_def)
    qed
  qed
qed

lemma fast_midD:
  assumes "fast_mid s0 s"
  shows "fast_inv s" "left_bits s < left_bits s0" "i_bits s < 8 + seen_bits s"
  using assms by (simp_all add: fast_mid_def)

lemma op_mask: "op < 16 \<Longrightarrow> mask_bits op h < 2 ^ op"
  by (rule mask_bits_lt)

lemma fast_dist_base_ok:
  assumes m: "fast_mid s0 s" and e: "16 \<le> c_op e" "c_op e \<le> 29" "1 \<le> c_val e" and k: "13 \<le> left_bits s"
    and l: "3 \<le> len" "len \<le> z_avail_out s"
  shows "fast_res s0 (fast_dist_base len e s)"
proof -
  have op: "c_op e AND 15 = c_op e - 16" using base_op e by simp
  let ?op = "c_op e - 16"
  have o13: "?op \<le> 13" using e by simp
  obtain t where t: "fast_need ?op s = Some t" "fast_pulled (min ?op (i_bits s + 8)) s t"
    using fast_need_ok [of ?op s] k o13 by auto
  obtain u where u: "fast_need ?op t = Some u" "fast_pulled (min ?op (i_bits t + 8)) t u"
    using fast_need_ok [of ?op t] fast_pulledD [OF t(2)] k o13 by auto
  note tD = fast_pulledD [OF t(2)] and uD = fast_pulledD [OF u(2)]
  have mu: "fast_mid s0 u" by (rule fast_mid_pulled [OF fast_mid_pulled [OF m t(2)] u(2)])
  have b: "?op \<le> i_bits u" using uD(2,3) tD(2) o13 by linarith
  have "fast_res s0 (fast_copy len (c_val e + mask_bits ?op (i_hold u)) (DROPBITS ?op u))"
    by (rule fast_copy_ok [OF fast_mid_drop [OF mu] l(1)]) (use l(2) tD(11) uD(11) e(3) in simp_all)
  then show ?thesis
    unfolding fast_dist_base_def op Let_def by (simp add: of_opt_def t(1) u(1) fast_drop_ok [OF b])
qed

lemma fast_dist_end:
  assumes m: "fast_mid s0 s" and e: "end_entry DISTS n e" and b: "c_bits e \<le> i_bits s" and k: "c_bits e + 13 \<le> left_bits s"
    and l: "3 \<le> len" "len \<le> z_avail_out s"
  shows "\<exists>r. fast_dist len e s = Some r \<and> fast_res s0 r"
proof (rule dists_entry [OF e])
  assume "c_op e = 64"
  then have "c_op e AND 16 = 0" "c_op e AND 64 \<noteq> 0" by simp_all
  then show ?thesis
    using fast_mid_drop [OF m, of "c_bits e"]
    by (subst fast_dist.simps) (simp add: fast_drop_ok [OF b] Let_def fast_res_def bad_def fast_mid_def fast_inv_def)
next
  assume o: "16 \<le> c_op e" "c_op e \<le> 29" "1 \<le> c_val e"
  have "fast_res s0 (fast_dist_base len e (DROPBITS (c_bits e) s))"
    by (rule fast_dist_base_ok [OF fast_mid_drop [OF m] o _ l(1)]) (use k l b in simp_all)
  then show ?thesis
    using base_op [of "c_op e"] o by (subst fast_dist.simps) (simp add: fast_drop_ok [OF b] Let_def)
qed

lemma mask_split: "mask_bits n (drop_bit m h) = mask_bits (m + n) h div 2 ^ m"
proof -
  have "unat h mod 2 ^ (m + n) div 2 ^ m = unat h div 2 ^ m mod 2 ^ n"
    by (simp add: power_add mod_mult2_eq)
  then show ?thesis by (simp add: mask_bits_mod unat_drop)
qed

lemma sub_ops: "sub_entry type root tab e \<Longrightarrow> c_op e AND 16 = 0 \<and> c_op e AND 64 = 0 \<and> c_op e \<noteq> 0"
proof -
  assume s: "sub_entry type root tab e"
  have "list_all (\<lambda>op. op AND 16 = 0 \<and> op AND 64 = (0 :: nat)) [0..<16]" by code_simp
  then have "\<forall>op<16. op AND 16 = 0 \<and> op AND 64 = (0 :: nat)" by (simp only: list_all_iff set_upt) simp
  moreover have "c_op e < 16" "c_op e \<noteq> 0" using s by (auto simp: sub_entry_def MAXBITS_def)
  ultimately show ?thesis by blast
qed

lemma fast_dist_ok:
  assumes m: "fast_mid s0 s" and b: "15 \<le> i_bits s" and k: "28 \<le> left_bits s" and l: "3 \<le> len" "len \<le> z_avail_out s"
  shows "\<exists>here r. tab_at (i_codes s) (i_distcode s) (BITS (i_distbits s) s) = Some here \<and>
    fast_dist len here s = Some r \<and> fast_res s0 r"
proof -
  let ?root = "i_distbits s"
  have good: "good_table DISTS (i_codes s) (i_distcode s) ?root"
    using m by (simp add: fast_mid_def fast_inv_def tables_ok_def)
  then have root: "?root \<le> 15" by (simp add: good_table_def table_wf_def MAXBITS_def)
  show ?thesis
  proof (rule root_entry [OF good, of "i_hold s"])
    fix e assume e: "tab_at (i_codes s) (i_distcode s) (BITS ?root s) = Some e" "end_entry DISTS ?root e"
    then have "c_bits e \<le> 15" using end_bits [OF e(2)] root by linarith
    then show ?thesis using e fast_dist_end [OF m e(2) _ _ l] b k by auto
  next
    fix g e assume g: "tab_at (i_codes s) (i_distcode s) (BITS ?root s) = Some g" "sub_entry DISTS ?root (tab_of (i_codes s) (i_distcode s)) g"
      and e: "tab_at (i_codes s) (i_distcode s) (c_val g + mask_bits (?root + c_op g) (i_hold s) div 2 ^ ?root) = Some e"
      "end_entry DISTS (MAXBITS - ?root) e"
    have c: "c_bits e \<le> 15 - ?root" using end_bits [OF e(2)] by (simp add: MAXBITS_def)
    have cb: "c_bits g = ?root" using sub_op [OF g(2)] by simp
    have d: "c_bits g \<le> i_bits s" using cb root b by linarith
    have "\<exists>r. fast_dist len e (DROPBITS ?root s) = Some r \<and> fast_res s0 r"
      by (rule fast_dist_end [OF fast_mid_drop [OF m] e(2) _ _ l(1)]) (use c root b k l in simp_all)
    moreover have "fast_dist len g s = fast_dist len e (DROPBITS ?root s)"
      using sub_ops [OF g(2)] e(1)
      by (subst fast_dist.simps) (simp add: fast_drop_ok [OF d [unfolded cb]] cb Let_def mask_split)
    ultimately show ?thesis using g(1) by simp
  qed
qed

lemma fast_len_base_ok:
  assumes m: "fast_mid s0 s" and e: "16 \<le> c_op e" "c_op e \<le> 21" "3 \<le> c_val e" "c_val e + 2 ^ (c_op e - 16) \<le> 259"
    and k: "33 \<le> left_bits s" and a: "258 \<le> z_avail_out s"
  shows "\<exists>r. fast_len_base e s = Some r \<and> fast_res s0 r"
proof -
  have op: "c_op e AND 15 = c_op e - 16" using base_op e by simp
  let ?op = "c_op e - 16"
  obtain len t where t: "(if ?op \<noteq> 0 then do {
              s \<leftarrow> fast_need ?op s;
              let len = c_val e + BITS ?op s;
              s \<leftarrow> fast_drop ?op s;
              Some (len, s) }
            else Some (c_val e, s)) = Some (len, t)" "3 \<le> len" "len \<le> 258" "fast_mid s0 t" "28 \<le> left_bits t" "258 \<le> z_avail_out t"
  proof (cases "?op = 0")
    case True
    then show ?thesis using that [of "c_val e" s] m e k a by simp
  next
    case False
    obtain u where u: "fast_need ?op s = Some u" "fast_pulled (min ?op (i_bits s + 8)) s u"
    proof -
      have "?op \<le> left_bits s" using k e by linarith
      then show thesis using that fast_need_ok by blast
    qed
    note uD = fast_pulledD [OF u(2)]
    have b: "?op \<le> i_bits u" using uD(2) e by linarith
    have "mask_bits ?op (i_hold u) < 2 ^ ?op" by (rule mask_bits_lt)
    then have lt: "c_val e + mask_bits ?op (i_hold u) \<le> 258" using e(4) by linarith
    show ?thesis
      by (rule that [of "c_val e + mask_bits ?op (i_hold u)" "DROPBITS ?op u"])
        (use False u(1) b lt e k a uD fast_mid_drop [OF fast_mid_pulled [OF m u(2)]] in \<open>simp_all add: fast_drop_ok\<close>)
  qed
  obtain u where u: "fast_fill t = Some u" "fast_pulled 15 t u" using fast_fill_ok [OF t(5)] by blast
  note uD = fast_pulledD [OF u(2)]
  have "\<exists>here r. tab_at (i_codes u) (i_distcode u) (BITS (i_distbits u) u) = Some here \<and>
    fast_dist len here u = Some r \<and> fast_res s0 r"
    by (rule fast_dist_ok [OF fast_mid_pulled [OF t(4) u(2)] uD(2) _ t(2)]) (use uD t in simp_all)
  then show ?thesis unfolding fast_len_base_def op Let_def [of ?op] t(1) using u(1) by auto
qed

text \<open>\<open>s1\<close> is where the code starts, \<open>s\<close> where the entry that ends it is used.\<close>

lemma fast_len_end:
  assumes i: "fast_inv s" and e: "end_entry LENS n e" and b: "c_bits e \<le> i_bits s"
    and lo: "i_bits s < c_bits e + 8 + seen_bits s" and lt: "left_bits s - c_bits e < left_bits s0"
    and k: "c_bits e + 33 \<le> left_bits s" and a: "258 \<le> z_avail_out s"
  shows "\<exists>r. fast_len e s = Some r \<and> fast_res s0 r"
proof -
  let ?t = "DROPBITS (c_bits e) s"
  have m: "fast_mid s0 ?t" using i lo lt b by (simp add: fast_mid_def; linarith?)
  note sm = fast_drop_ok [OF b] Let_def fast_res_def
  show ?thesis
  proof (rule lens_entry [OF e])
    assume "c_op e = 0"
    moreover have "put_byte (of_nat (c_val e)) ?t = Some (wrote [of_nat (c_val e)] ?t)"
      using a by (simp add: put_byte_def wrote_def)
    ultimately show ?thesis
      using fast_mid_wrote [OF m, of "[of_nat (c_val e)]"] a by (subst fast_len.simps) (simp add: sm of_opt_def)
  next
    assume "c_op e = 96"
    then show ?thesis using m by (subst fast_len.simps) (simp add: sm fast_mid_def fast_inv_def)
  next
    assume "c_op e \<noteq> 0" "c_op e AND 16 = 0" "c_op e AND 32 = 0" "c_op e AND 64 \<noteq> 0"
    then show ?thesis using m by (subst fast_len.simps) (simp add: sm fast_mid_def fast_inv_def bad_def)
  next
    assume o: "16 \<le> c_op e" "c_op e \<le> 21" "3 \<le> c_val e" "c_val e + 2 ^ (c_op e - 16) \<le> 259"
    have "c_op e \<noteq> 0" "c_op e AND 16 \<noteq> 0" using o base_op [of "c_op e"] by simp_all
    then show ?thesis
      using fast_len_base_ok [OF m o] k a b by (subst fast_len.simps) (simp add: fast_drop_ok [OF b] Let_def)
  qed
qed

lemma fast_iter_ok:
  assumes i: "fast_inv s" and room: "fast_room s"
    and few: "i_bits s < 8 + seen_bits s \<or> i_bits s < need_of (i_codes s) (i_lencode s) (i_lenbits s) (i_hold s)"
  shows "\<exists>r. fast_iter s = Some r \<and> fast_res s r"
proof -
  let ?root = "i_lenbits s" and ?p = "i_lencode s"
  have left: "48 \<le> left_bits s" and av: "258 \<le> z_avail_out s" using room by (simp_all add: fast_room_def)
  obtain t where t: "fast_fill s = Some t" "fast_pulled 15 s t" using fast_fill_ok [of s] left by auto
  note tD = fast_pulledD [OF t(2)]
  have i': "fast_inv t" using i tD(12) by simp
  have good: "good_table LENS (i_codes t) (i_lencode t) (i_lenbits t)"
    using i' by (simp add: fast_inv_def tables_ok_def)
  let ?e = "entry_of (i_codes t) (i_lencode t) (i_lenbits t) (i_hold t)"
  have root: "i_lenbits t \<le> 15" using good by (simp add: good_table_def table_wf_def MAXBITS_def)
  have lo: "i_bits t < c_bits ?e + 8 + seen_bits t"
  proof (cases "i_bits s < 8 + seen_bits s")
    case True
    then show ?thesis using tD(4) by linarith
  next
    case False
    then have f: "i_bits s < need_of (i_codes t) (i_lencode t) (i_lenbits t) (i_hold s)" using few tD by simp
    have "i_bits s < c_bits ?e"
    proof (rule ccontr)
      assume n: "\<not> i_bits s < c_bits ?e"
      then have "entry_of (i_codes t) (i_lencode t) (i_lenbits t) (i_hold s) = ?e"
        using entry_prefix [OF good, of "i_hold t" "i_bits s" "i_hold s"] tD(5) by simp
      then show False using f n by simp
    qed
    then show ?thesis using tD(4) by linarith
  qed
  have k: "c_bits ?e + 33 \<le> left_bits t" if "c_bits ?e \<le> 15" using that left tD(1) by linarith
  have "\<exists>here r. tab_at (i_codes t) (i_lencode t) (BITS (i_lenbits t) t) = Some here \<and> fast_len here t = Some r \<and> fast_res s r"
  proof (rule root_entry [OF good, of "i_hold t"])
    fix e assume e: "tab_at (i_codes t) (i_lencode t) (BITS (i_lenbits t) t) = Some e" "end_entry LENS (i_lenbits t) e" "?e = e"
    have c: "1 \<le> c_bits e" "c_bits e \<le> 15" using end_bits [OF e(2)] root by linarith+
    have "\<exists>r. fast_len e t = Some r \<and> fast_res s r"
      by (rule fast_len_end [OF i' e(2)]; use c tD(1,2,11) left av lo [unfolded e(3)] in linarith)
    then show ?thesis using e(1) by blast
  next
    fix g e assume g: "tab_at (i_codes t) (i_lencode t) (BITS (i_lenbits t) t) = Some g"
      "sub_entry LENS (i_lenbits t) (tab_of (i_codes t) (i_lencode t)) g"
      and e: "tab_at (i_codes t) (i_lencode t) (c_val g + mask_bits (i_lenbits t + c_op g) (i_hold t) div 2 ^ i_lenbits t) = Some e"
      "end_entry LENS (MAXBITS - i_lenbits t) e" "?e = Code (c_op e) (i_lenbits t + c_bits e) (c_val e)"
    have c: "1 \<le> c_bits e" "c_bits e \<le> 15 - i_lenbits t" using end_bits [OF e(2)] by (simp_all add: MAXBITS_def)
    have cb: "c_bits g = i_lenbits t" using sub_op [OF g(2)] by simp
    have d: "i_lenbits t \<le> i_bits t" using root tD(2) by linarith
    have lo': "i_bits t < i_lenbits t + c_bits e + 8 + seen_bits t" using lo e(3) by simp
    have "\<exists>r. fast_len e (DROPBITS (i_lenbits t) t) = Some r \<and> fast_res s r"
    proof (rule fast_len_end [OF _ e(2)])
      show "c_bits e \<le> i_bits (DROPBITS (i_lenbits t) t)" using c root tD(2) by simp
      show "left_bits (DROPBITS (i_lenbits t) t) - c_bits e < left_bits s" using c tD(1) d left by simp
      show "c_bits e + 33 \<le> left_bits (DROPBITS (i_lenbits t) t)" using c tD(1) d left root by simp
      show "i_bits (DROPBITS (i_lenbits t) t) < c_bits e + 8 + seen_bits (DROPBITS (i_lenbits t) t)" using lo' c by simp
    qed (use i' av tD in simp_all)
    moreover have "fast_len g t = fast_len e (DROPBITS (i_lenbits t) t)"
      using sub_ops [OF g(2)] e(1)
      by (subst fast_len.simps) (simp add: fast_drop_ok [OF d] cb Let_def mask_split)
    ultimately show ?thesis using g(1) by simp
  qed
  then show ?thesis unfolding fast_iter_def by (auto simp: t(1))
qed

lemma fast_loop_ok:
  assumes "fast_inv s" and "fast_room s"
    and "i_bits s < 8 + seen_bits s \<or> i_bits s < need_of (i_codes s) (i_lencode s) (i_lenbits s) (i_hold s)"
  shows "\<exists>t. fast_loop s = Some (S_leave t) \<and> base_ok t \<and> i_wbits t \<noteq> 0 \<and>
    (i_mode t = M_BAD \<or> i_mode t = M_TYPE \<or> i_mode t = M_LEN \<and> tables_ok t) \<and>
    left_bits t < left_bits s \<and> i_bits t < 8 + seen_bits t"
  using assms
proof (induction "left_bits s" arbitrary: s rule: less_induct)
  case less
  obtain r where r: "fast_iter s = Some r" "fast_res s r" using fast_iter_ok [OF less.prems] by blast
  show ?case
  proof (cases r)
    case (S_go t)
    then have m: "fast_mid s t" using r(2) by (simp add: fast_res_def)
    note mD = fast_midD [OF m]
    show ?thesis
    proof (cases "fast_room t")
      case True
      obtain u where u: "fast_loop t = Some (S_leave u)" "base_ok u" "i_wbits u \<noteq> 0"
        "i_mode u = M_BAD \<or> i_mode u = M_TYPE \<or> i_mode u = M_LEN \<and> tables_ok u"
        "left_bits u < left_bits t" "i_bits u < 8 + seen_bits u"
        using less.hyps [OF mD(2,1) True] mD(3) by blast
      have "fast_loop s = Some (S_leave u)" using u(1) True by (subst fast_loop.simps) (simp add: r(1) S_go)
      then show ?thesis using u mD(2) by auto
    next
      case False
      then have "fast_loop s = Some (S_leave t)" by (subst fast_loop.simps) (simp add: r(1) S_go)
      then show ?thesis using mD by (auto simp: fast_inv_def)
    qed
  next
    case (S_leave t)
    then have "fast_loop s = Some (S_leave t)" by (subst fast_loop.simps) (simp add: r(1))
    then show ?thesis using r(2) S_leave by (auto simp: fast_res_def)
  qed (use r(2) in \<open>simp_all add: fast_res_def\<close>)
qed

lemma seen_update [simp]:
  "base_ok (r_seen_update f s) = base_ok s" "tables_ok (r_seen_update f s) = tables_ok s"
  by (simp_all add: base_ok_def win_ok_def tables_ok_def)

lemma do_LEN_ok:
  assumes inv: "inflate_inv s" and m: "i_mode s = M_LEN"
  shows "\<exists>r. do_LEN s = Some r \<and> fine s r"
proof (cases "6 \<le> length (z_next_in s) \<and> 258 \<le> z_avail_out s")
  case False
  show ?thesis unfolding do_LEN_def if_not_P [OF False] using slow_LEN_ok [OF inv m] by blast
next
  case True
  let ?s = "s\<lparr>r_seen := []\<rparr>"
  have f: "fast_inv ?s" "fast_room ?s" using inv m True by (simp_all add: inflate_inv_def fast_inv_def fast_room_def)
  have few: "i_bits ?s < 8 + seen_bits ?s \<or> i_bits ?s < need_of (i_codes ?s) (i_lencode ?s) (i_lenbits ?s) (i_hold ?s)"
    using inv m by (simp add: inflate_inv_def)
  obtain t where t: "fast_loop ?s = Some (S_leave t)" "base_ok t" "i_wbits t \<noteq> 0"
    "i_mode t = M_BAD \<or> i_mode t = M_TYPE \<or> i_mode t = M_LEN \<and> tables_ok t"
    "left_bits t < left_bits s" "i_bits t < 8 + seen_bits t"
    using fast_loop_ok [OF f few] by auto
  let ?len = "i_bits t div 8"
  let ?u = "t\<lparr>z_next_in := rev (take ?len (r_seen t)) @ z_next_in t, r_seen := [],
      i_hold := of_nat (mask_bits (i_bits t - ?len * 8) (i_hold t)), i_bits := i_bits t - ?len * 8\<rparr>"
  have len: "?len \<le> length (r_seen t)" using t(6) by linarith
  have fr: "inflate_fast s = Some (S_go ?u)" by (simp add: inflate_fast_def t(1) fast_return_def Let_def len)
  have b8: "i_bits ?u < 8" by simp
  have lb: "left_bits ?u = left_bits t"
  proof -
    have "length (rev (take ?len (r_seen t)) @ z_next_in t) = ?len + length (z_next_in t)" using len by simp
    moreover have "?len * 8 \<le> i_bits t" by simp
    ultimately show ?thesis by simp
  qed
  have "do_LEN s = Some (S_go (if i_mode ?u = M_TYPE then ?u\<lparr>i_back := -1\<rparr> else ?u))"
    using True fr by (simp add: do_LEN_def)
  moreover have "fine s (S_go (if i_mode ?u = M_TYPE then ?u\<lparr>i_back := -1\<rparr> else ?u))"
    using t lb b8 by (auto simp: inflate_inv_def smaller_def)
  ultimately show ?thesis by blast
qed

end
