(* ===== verification/Zl_InfStream.thy ===== *)
theory Zl_InfStream
  imports Zl_InfCodes
begin

text \<open>
  The loop of \<open>inflate\<close> keeps the invariant and ends; the window holds the last bytes of the output; a
  stream stays well formed over every sequence of calls.
\<close>

section \<open>Every step\<close>

lemma inflate_step_ok: "inflate_inv s \<Longrightarrow> \<exists>r. inflate_step flush s = Some r \<and> fine s r"
proof (cases "i_mode s")
  case M_LEN
  assume "inflate_inv s"
  then show ?thesis using M_LEN do_LEN_ok [of s] by (simp add: inflate_step_def)
next
  case M_COPY0
  assume "inflate_inv s"
  then show ?thesis using M_COPY0 by (simp add: inflate_step_def inflate_inv_def smaller_def)
next
  case M_LEN0
  assume "inflate_inv s"
  then show ?thesis using M_LEN0 by (simp add: inflate_step_def inflate_inv_def smaller_def)
next
  case M_DONE
  assume "inflate_inv s"
  then show ?thesis using M_DONE by (simp add: inflate_step_def inflate_inv_def)
next
  case M_BAD
  assume "inflate_inv s"
  then show ?thesis using M_BAD by (simp add: inflate_step_def inflate_inv_def)
qed (simp_all add: inflate_step_def do_HEAD_ok do_FLAGS_ok do_TIME_ok do_OS_ok do_EXLEN_ok do_EXTRA_ok do_NAME_ok
  do_COMMENT_ok do_HCRC_ok do_DICTID_ok do_DICT_ok do_TYPE_ok do_TYPEDO_ok do_STORED_ok do_COPY_ok do_TABLE_ok
  do_LENLENS_ok do_CODELENS_ok do_LENEXT_ok do_DIST_ok do_DISTEXT_ok do_MATCH_ok do_LIT_ok do_CHECK_ok do_LENGTH_ok)

lemma smaller_wf: "smaller t s \<longleftrightarrow> (t, s) \<in> measures [left_bits, z_avail_out, \<lambda>s. mode_rank (i_mode s)]"
  by (simp add: smaller_def)

definition left_ok :: "step \<Rightarrow> bool" where
  "left_ok r = (case r of S_leave t \<Rightarrow> inflate_inv t | S_ret v t \<Rightarrow> inflate_inv t | _ \<Rightarrow> False)"

lemma inflate_loop_ok: "inflate_inv s \<Longrightarrow> \<exists>r. inflate_loop flush s = Some r \<and> left_ok r"
proof (induction s rule: wf_induct_rule [OF wf_measures [of "[left_bits, z_avail_out, \<lambda>s. mode_rank (i_mode s)]"]])
  case (1 s)
  obtain r where r: "inflate_step flush s = Some r" "fine s r" using inflate_step_ok [OF 1(2)] by blast
  show ?case
  proof (cases r)
    case (S_go t)
    then have t: "inflate_inv t" "smaller t s" using r(2) by simp_all
    then obtain q where "inflate_loop flush t = Some q" "left_ok q" using 1(1) [of t] by (auto simp: smaller_wf)
    then show ?thesis using r(1) S_go by (subst inflate_loop.simps) simp
  next
    case (S_leave t)
    then show ?thesis using r by (subst inflate_loop.simps) (simp add: left_ok_def)
  next
    case (S_ret v t)
    then show ?thesis using r by (subst inflate_loop.simps) (simp add: left_ok_def)
  next
    case S_undef
    then show ?thesis using r by simp
  qed
qed

section \<open>The window\<close>

definition zalloc_ok :: "(nat \<Rightarrow> bytes option) \<Rightarrow> bool" where
  "zalloc_ok zalloc \<longleftrightarrow> (\<forall>n w. zalloc n = Some w \<longrightarrow> length w = n)"

text \<open>The bytes of the window, oldest first.\<close>

definition history :: "zstrm \<Rightarrow> bytes" where
  "history s = (case i_window s of None \<Rightarrow> []
     | Some w \<Rightarrow> if i_whave s < i_wsize s then take (i_whave s) w else drop (i_wnext s) w @ take (i_wnext s) w)"

definition last_bytes :: "nat \<Rightarrow> bytes \<Rightarrow> bytes" where
  "last_bytes n b = drop (length b - n) b"

definition win_full :: "zstrm \<Rightarrow> bytes \<Rightarrow> bool" where
  "win_full s w \<longleftrightarrow> i_window s = Some w \<and> length w = i_wsize s \<and> i_whave s \<le> i_wsize s \<and>
     i_wnext s < i_wsize s \<and> (i_whave s < i_wsize s \<longrightarrow> i_wnext s = i_whave s)"

lemma history_length: "win_full s w \<Longrightarrow> length (history s) = i_whave s"
  by (auto simp: win_full_def history_def)

lemma window_put_ok:
  assumes w: "win_full s w"
  shows "\<exists>w' n h. window_put out s = Some (s\<lparr>i_window := Some w', i_wnext := n, i_whave := h\<rparr>) \<and>
    win_full (s\<lparr>i_window := Some w', i_wnext := n, i_whave := h\<rparr>) w' \<and>
    history (s\<lparr>i_window := Some w', i_wnext := n, i_whave := h\<rparr>) = last_bytes (i_wsize s) (history s @ out)"
proof -
  have W: "i_window s = Some w" "length w = i_wsize s" "i_whave s \<le> i_wsize s" "i_wnext s < i_wsize s"
    "i_whave s < i_wsize s \<longrightarrow> i_wnext s = i_whave s" using w by (simp_all add: win_full_def)
  let ?c = "length out" and ?n = "i_wnext s" and ?z = "i_wsize s"
  have h: "history s = (if i_whave s < ?z then take ?n w else drop ?n w @ take ?n w)"
    using W(1,5) by (auto simp: history_def)
  have hl: "length (history s) = i_whave s" by (rule history_length [OF w])
  show ?thesis
  proof (cases "?c \<ge> ?z")
    case True
    have "blit w 0 (drop (?c - ?z) out) ?z = Some (drop (?c - ?z) out)" using True W(2) by (simp add: blit_def)
    then have "window_put out s = Some (s\<lparr>i_window := Some (drop (?c - ?z) out), i_wnext := 0, i_whave := ?z\<rparr>)"
      using True W(1) by (simp add: window_put_def Let_def)
    moreover have "last_bytes ?z (history s @ out) = drop (?c - ?z) out" using True by (simp add: last_bytes_def)
    ultimately show ?thesis using True W(4)
      by (intro exI [of _ "drop (?c - ?z) out"] exI [of _ 0] exI [of _ ?z]) (auto simp: win_full_def history_def)
  next
    case less: False
    let ?d = "min (?z - ?n) ?c"
    let ?w1 = "take ?n w @ take ?d out @ drop (?n + ?d) w"
    have b1: "blit w ?n out ?d = Some ?w1" using W(2,4) by (simp add: blit_def)
    show ?thesis
    proof (cases "?c - ?d \<noteq> 0")
      case True
      then have d: "?d = ?z - ?n" "?z - ?n < ?c" by linarith+
      let ?e = "?c - ?d"
      have e: "?e < ?n" using d less W(4) by linarith
      define w1 where "w1 = take ?n w @ take ?d out"
      define w2 where "w2 = drop ?d out @ drop ?e w1"
      have w1: "?w1 = w1" using d W(2,4) by (simp add: w1_def)
      have l1: "length w1 = ?z" using d W(2,4) by (simp add: w1_def)
      have ld: "length (drop ?d out) = ?e" by simp
      have l2: "length w2 = ?z" unfolding w2_def length_append ld length_drop l1 using e W(4) by linarith
      have "blit w1 0 (drop ?d out) ?e = Some w2" using l1 e d W(4) by (simp add: blit_def w2_def)
      then have r: "window_put out s = Some (s\<lparr>i_window := Some w2, i_wnext := ?e, i_whave := ?z\<rparr>)"
        using less True W(1) b1 unfolding w1 by (simp add: window_put_def Let_def)
      have full: "win_full (s\<lparr>i_window := Some w2, i_wnext := ?e, i_whave := ?z\<rparr>) w2"
        using l2 e W(4) by (simp add: win_full_def)
      have "drop ?e w2 = drop ?e w1" "take ?e w2 = drop ?d out" using ld by (simp_all add: w2_def)
      then have "history (s\<lparr>i_window := Some w2, i_wnext := ?e, i_whave := ?z\<rparr>) = drop ?e w1 @ drop ?d out"
        by (simp add: history_def)
      also have "\<dots> = drop ?e (take ?n w) @ out" using e W(2,4) by (simp add: w1_def)
      also have "\<dots> = last_bytes ?z (history s @ out)"
        using W d less h hl by (cases "i_whave s < ?z") (simp_all add: last_bytes_def add.commute)
      finally show ?thesis using r full by blast
    next
      case False
      then have d: "?d = ?c" "?n + ?c \<le> ?z" using W(4) by linarith+
      let ?n' = "if ?n + ?c = ?z then 0 else ?n + ?c"
      let ?h' = "if i_whave s < ?z then i_whave s + ?c else i_whave s"
      have w1: "?w1 = take ?n w @ out @ drop (?n + ?c) w" using d(1) by simp
      have r: "window_put out s = Some (s\<lparr>i_window := Some ?w1, i_wnext := ?n', i_whave := ?h'\<rparr>)"
        using less False W(1) b1 d(1) by (simp add: window_put_def Let_def)
      have l: "length ?w1 = ?z" unfolding w1 using d W(2) by simp
      have full: "win_full (s\<lparr>i_window := Some ?w1, i_wnext := ?n', i_whave := ?h'\<rparr>) ?w1"
        using l W d by (auto simp: win_full_def)
      have "history (s\<lparr>i_window := Some ?w1, i_wnext := ?n', i_whave := ?h'\<rparr>) = last_bytes ?z (history s @ out)"
      proof (cases "i_whave s < ?z")
        case True
        then show ?thesis using W d less unfolding w1 h by (auto simp: history_def last_bytes_def)
      next
        case False
        then show ?thesis using W d less unfolding w1 h by (auto simp: history_def last_bytes_def add.commute)
      qed
      then show ?thesis using r full by blast
    qed
  qed
qed

lemma win_ok_full: "win_ok s \<Longrightarrow> i_wsize s \<noteq> 0 \<Longrightarrow> i_window s = Some w \<Longrightarrow> win_full s w"
  by (auto simp: win_ok_def win_full_def)

lemma full_win_ok: "win_full s w \<Longrightarrow> i_wsize s = 2 ^ i_wbits s \<Longrightarrow> i_wbits s \<noteq> 0 \<Longrightarrow> win_ok s"
  by (auto simp: win_ok_def win_full_def)

lemma updatewindow_ok:
  assumes z: "zalloc_ok zalloc" and w: "win_ok s" and b: "i_wbits s \<noteq> 0"
  shows "updatewindow zalloc out s = Some (1, s) \<or>
    (\<exists>w' n h. updatewindow zalloc out s = Some (0, s\<lparr>i_wsize := 2 ^ i_wbits s, i_window := Some w', i_wnext := n, i_whave := h\<rparr>) \<and>
      win_ok (s\<lparr>i_wsize := 2 ^ i_wbits s, i_window := Some w', i_wnext := n, i_whave := h\<rparr>) \<and>
      history (s\<lparr>i_wsize := 2 ^ i_wbits s, i_window := Some w', i_wnext := n, i_whave := h\<rparr>) =
        last_bytes (2 ^ i_wbits s) ((if i_wsize s = 0 then [] else history s) @ out))"
proof (cases "window_alloc zalloc s")
  case None
  then show ?thesis by (simp add: updatewindow_def)
next
  case (Some t)
  then obtain v where v: "t = s\<lparr>i_window := Some v\<rparr>" "length v = 2 ^ i_wbits s" "i_window s = None \<or> i_window s = Some v"
    using z w by (auto simp: window_alloc_def zalloc_ok_def win_ok_def split: if_splits)
  let ?u = "if i_wsize t = 0 then t\<lparr>i_wsize := 2 ^ i_wbits t, i_wnext := 0, i_whave := 0\<rparr> else t"
  have full: "win_full ?u v"
    using v w by (cases "i_wsize s = 0") (auto simp: win_full_def win_ok_def)
  have sz: "i_wsize ?u = 2 ^ i_wbits s" using v w by (auto simp: win_ok_def)
  have hs: "history ?u = (if i_wsize s = 0 then [] else history s)"
    using v w by (auto simp: history_def win_ok_def)
  obtain w' n h where r: "window_put out ?u = Some (?u\<lparr>i_window := Some w', i_wnext := n, i_whave := h\<rparr>)"
    "win_full (?u\<lparr>i_window := Some w', i_wnext := n, i_whave := h\<rparr>) w'"
    "history (?u\<lparr>i_window := Some w', i_wnext := n, i_whave := h\<rparr>) = last_bytes (i_wsize ?u) (history ?u @ out)"
    using window_put_ok [OF full, of out] by blast
  have eq: "?u\<lparr>i_window := Some w', i_wnext := n, i_whave := h\<rparr> =
      s\<lparr>i_wsize := 2 ^ i_wbits s, i_window := Some w', i_wnext := n, i_whave := h\<rparr>"
    using sz by (cases "i_wsize s = 0") (simp_all add: v(1))
  have "win_ok (s\<lparr>i_wsize := 2 ^ i_wbits s, i_window := Some w', i_wnext := n, i_whave := h\<rparr>)"
    by (rule full_win_ok [OF r(2) [unfolded eq]]) (use b in simp_all)
  moreover have "updatewindow zalloc out s = Some (0, s\<lparr>i_wsize := 2 ^ i_wbits s, i_window := Some w', i_wnext := n, i_whave := h\<rparr>)"
    using r(1) unfolding updatewindow_def Some eq by (simp add: Let_def)
  ultimately show ?thesis using r(3) unfolding eq sz hs by blast
qed

section \<open>After the loop\<close>

text \<open>Between two calls: what a call keeps, whatever input and space the next one gets.\<close>

definition stream_ok :: "zstrm \<Rightarrow> bool" where
  "stream_ok s \<longleftrightarrow> inflate_inv (inflate_start s)"

lemma win_ok_update:
  "win_ok s \<Longrightarrow> i_whave t = i_whave s \<Longrightarrow> i_wsize t = i_wsize s \<Longrightarrow> i_wnext t = i_wnext s \<Longrightarrow>
     i_wbits t = i_wbits s \<Longrightarrow> i_window t = i_window s \<Longrightarrow> win_ok t"
  by (simp add: win_ok_def)

lemma inflate_start_ok:
  assumes b: "base_ok s" and m: "mode_ok (i_mode s) s \<or> i_mode s = M_MEM"
  shows "stream_ok s"
proof -
  have b': "base_ok (inflate_start s)"
    using b win_ok_update [of s "inflate_start s"] by (simp add: base_ok_def inflate_start_def)
  show ?thesis
  proof (cases "i_mode s = M_TYPE")
    case True
    then show ?thesis using b' m by (simp add: stream_ok_def inflate_inv_def inflate_start_def)
  next
    case False
    have "mode_ok (i_mode s) (inflate_start s)"
      using m by (cases "i_mode s") (simp_all add: inflate_start_def sizes_ok_def False)
    then show ?thesis using b' False by (simp add: stream_ok_def inflate_inv_def inflate_start_def)
  qed
qed

lemma mode_ok_update [simp]:
  "mode_ok m (z_total_in_update f1 s) = mode_ok m s" "mode_ok m (z_total_out_update f2 s) = mode_ok m s"
  "mode_ok m (i_total_update f3 s) = mode_ok m s" "mode_ok m (z_adler_update f4 s) = mode_ok m s"
  "mode_ok m (i_check_update f5 s) = mode_ok m s" "mode_ok m (z_data_type_update f6 s) = mode_ok m s"
  "mode_ok m (i_window_update f7 s) = mode_ok m s" "mode_ok m (i_wnext_update f8 s) = mode_ok m s"
  "mode_ok m (i_whave_update f9 s) = mode_ok m s" "mode_ok m (i_wsize_update f10 s) = mode_ok m s"
  "mode_ok m (z_msg_update f11 s) = mode_ok m s" "mode_ok m (i_sane_update f13 s) = mode_ok m s"
  "mode_ok m (i_havedict_update f12 s) = mode_ok m s"
  by (cases m; simp add: sizes_ok_def tables_ok_def)+

lemma opt_if: "x = Some b \<Longrightarrow> (case (if c then map_option f x else Some s) of None \<Rightarrow> d | Some u \<Rightarrow> k u) = k (if c then f b else s)"
  by simp

lemma leave_totals_ok:
  assumes b: "base_ok s" and m: "mode_ok (i_mode s) s \<or> i_mode s = M_MEM"
  shows "\<exists>r t. leave_totals flush s = I_ret r t \<and> stream_ok t"
proof -
  note l = base_okD(6) [OF b]
  let ?n = "r_out s - z_avail_out s"
  define k where "k u = (let q = u\<lparr>z_data_type := i_bits u + (if i_last u \<noteq> 0 then 64 else 0) + (if i_mode u = M_TYPE then 128 else 0) +
                (if i_mode u = M_LEN0 \<or> i_mode u = M_COPY0 then 256 else 0)\<rparr> in
      I_ret (if (r_in s - length (z_next_in s) = 0 \<and> ?n = 0 \<or> flush = Z_FINISH) \<and> r_ret q = Z_OK then Z_BUF_ERROR else r_ret q) q)" for u
  let ?s = "s\<lparr>z_total_in := z_total_in s + of_nat (r_in s - length (z_next_in s)), z_total_out := z_total_out s + of_nat ?n,
      i_total := i_total s + of_nat ?n\<rparr>"
  let ?cond = "i_wrap ?s AND 4 \<noteq> 0 \<and> ?n \<noteq> 0"
  have eq: "leave_totals flush s = (case (if i_wrap ?s AND 4 \<noteq> 0 \<and> ?n \<noteq> 0
            then map_option (\<lambda>b. ?s\<lparr>z_adler := UPDATE ?s b, i_check := UPDATE ?s b\<rparr>) (last_put ?n ?s)
            else Some ?s) of None \<Rightarrow> I_undef | Some s' \<Rightarrow> k s')"
    by (simp only: leave_totals_def Let_def k_def)
  obtain o' where o: "last_put ?n ?s = Some o'" using l by (simp add: last_put_def)
  define s' where "s' = (if ?cond then ?s\<lparr>z_adler := UPDATE ?s o', i_check := UPDATE ?s o'\<rparr> else ?s)"
  have s': "leave_totals flush s = k s'" unfolding s'_def by (rule trans [OF eq opt_if [OF o]])
  have "base_ok s'" "i_mode s' = i_mode s" "mode_ok (i_mode s) s' \<longleftrightarrow> mode_ok (i_mode s) s"
    using b by (cases ?cond; simp add: s'_def)+
  then have "stream_ok (s'\<lparr>z_data_type := x\<rparr>)" for x using m by (intro inflate_start_ok) simp_all
  then show ?thesis unfolding s' k_def Let_def by blast
qed

lemma base_ok_window:
  "base_ok s \<Longrightarrow> win_ok (s\<lparr>i_wsize := a, i_window := b, i_wnext := c, i_whave := d\<rparr>) \<Longrightarrow>
     base_ok (s\<lparr>i_wsize := a, i_window := b, i_wnext := c, i_whave := d\<rparr>)"
  by (simp add: base_ok_def)

lemma inf_leave_ok:
  assumes z: "zalloc_ok zalloc" and inv: "inflate_inv s"
  shows "\<exists>r t. inf_leave zalloc flush s = I_ret r t \<and> stream_ok t"
proof -
  have b: "base_ok s" and m: "mode_ok (i_mode s) s" using inv by (simp_all add: inflate_inv_def)
  let ?n = "r_out s - z_avail_out s"
  let ?c = "i_wsize s \<noteq> 0 \<or> ?n \<noteq> 0 \<and> mode_no (i_mode s) < mode_no M_BAD \<and>
           (mode_no (i_mode s) < mode_no M_CHECK \<or> flush \<noteq> Z_FINISH)"
  show ?thesis
  proof (cases ?c)
    case False
    then show ?thesis using leave_totals_ok [OF b, of flush] m unfolding inf_leave_def Let_def if_not_P [OF False] by blast
  next
    case True
    have wk: "win_ok s" using b by (simp add: base_ok_def)
    have wb: "i_wbits s \<noteq> 0"
    proof (cases "i_wsize s = 0")
      case False
      then show ?thesis using wk by (auto simp: win_ok_def)
    next
      case 0: True
      then have "?n \<noteq> 0" "mode_no (i_mode s) < mode_no M_BAD" using True by auto
      then show ?thesis using m by (cases "i_mode s") simp_all
    qed
    obtain o' where o: "last_put ?n s = Some o'" using base_okD(6) [OF b] by (simp add: last_put_def)
    show ?thesis
      using updatewindow_ok [OF z wk wb, of o']
    proof (elim disjE exE conjE)
      assume u: "updatewindow zalloc o' s = Some (1, s)"
      have "stream_ok (s\<lparr>i_mode := M_MEM\<rparr>)" by (rule inflate_start_ok) (use b in simp_all)
      then show ?thesis unfolding inf_leave_def Let_def if_P [OF True] using o u by simp
    next
      fix w' n h
      let ?t = "s\<lparr>i_wsize := 2 ^ i_wbits s, i_window := Some w', i_wnext := n, i_whave := h\<rparr>"
      assume u: "updatewindow zalloc o' s = Some (0, ?t)" "win_ok ?t"
      have "\<exists>r t. leave_totals flush ?t = I_ret r t \<and> stream_ok t"
        by (rule leave_totals_ok) (use base_ok_window [OF b u(2)] m in simp_all)
      then show ?thesis unfolding inf_leave_def Let_def if_P [OF True] using o u by simp
    qed
  qed
qed

lemma inflate_ok:
  assumes z: "zalloc_ok zalloc" and s: "stream_ok s"
  shows "\<exists>r t. inflate zalloc flush s = Some (I_ret r t) \<and> stream_ok t"
proof (cases "z_out_null s \<or> z_in_null s \<and> z_next_in s \<noteq> []")
  case True
  then show ?thesis using s by (auto simp: inflate_def)
next
  case False
  obtain r where r: "inflate_loop flush (inflate_start s) = Some r" "left_ok r"
    using inflate_loop_ok s unfolding stream_ok_def by blast
  show ?thesis
  proof (cases r)
    case (S_leave t)
    then show ?thesis using r inf_leave_ok [OF z, of t flush] False by (auto simp: inflate_def left_ok_def)
  next
    case (S_ret v t)
    then have "inflate_inv t" using r(2) by (simp add: left_ok_def)
    then have "stream_ok t" by (intro inflate_start_ok) (simp_all add: inflate_inv_def)
    then show ?thesis using r S_ret False by (auto simp: inflate_def)
  qed (use r(2) in \<open>simp_all add: left_ok_def\<close>)
qed

section \<open>Sessions\<close>

text \<open>A stream after any sequence of calls of its client, each with the input and the space it likes.\<close>

inductive zstream :: "(nat \<Rightarrow> bytes option) \<Rightarrow> zstrm \<Rightarrow> bool" for zalloc where
  init: "inflateInit2 w (Some g) = (Z_OK, Some s) \<Longrightarrow> length (i_lens g) = 320 \<Longrightarrow> length (i_codes g) = ENOUGH \<Longrightarrow>
    zstream zalloc s"
| feed: "zstream zalloc s \<Longrightarrow>
    zstream zalloc (s\<lparr>z_in_null := a, z_next_in := inp, z_out_null := b, z_avail_out := n\<rparr>)"
| inflate: "zstream zalloc s \<Longrightarrow> inflate zalloc flush s = Some (I_ret r t) \<Longrightarrow> zstream zalloc t"
| reset: "zstream zalloc s \<Longrightarrow> inflateReset s = (r, t) \<Longrightarrow> zstream zalloc t"
| reset_keep: "zstream zalloc s \<Longrightarrow> inflateResetKeep s = (r, t) \<Longrightarrow> zstream zalloc t"
| reset2: "zstream zalloc s \<Longrightarrow> inflateReset2 w s = (r, t) \<Longrightarrow> zstream zalloc t"
| dictionary: "zstream zalloc s \<Longrightarrow> inflateSetDictionary zalloc d s = Some (r, t) \<Longrightarrow> zstream zalloc t"
| sync: "zstream zalloc s \<Longrightarrow> i_wbits s \<noteq> 0 \<Longrightarrow> inflateSync s = (r, t) \<Longrightarrow> zstream zalloc t"
| prime: "zstream zalloc s \<Longrightarrow> i_bits s = 0 \<Longrightarrow> n < 8 \<Longrightarrow> inflatePrime n val s = (r, t) \<Longrightarrow> zstream zalloc t"
| undermine: "zstream zalloc s \<Longrightarrow> inflateUndermine v s = (r, t) \<Longrightarrow> zstream zalloc t"

text \<open>The part of the invariant that does not depend on where in a call the stream is.\<close>

definition kept_ok :: "zstrm \<Rightarrow> bool" where
  "kept_ok s \<longleftrightarrow> i_head s = None \<and> i_sane s \<and> length (i_lens s) = 320 \<and> length (i_codes s) = ENOUGH \<and> win_ok s \<and>
     (i_wrap s = 0 \<longrightarrow> i_wbits s \<noteq> 0)"

lemma stream_ok_eq:
  "stream_ok s \<longleftrightarrow> kept_ok s \<and> (mode_ok (i_mode s) s \<or> i_mode s = M_HEAD \<and> (i_wrap s = 0 \<longrightarrow> i_bits s < 8))"
proof -
  have b: "base_ok (inflate_start s) \<longleftrightarrow> kept_ok s"
    by (simp add: base_ok_def kept_ok_def inflate_start_def win_ok_def)
  have m: "mode_ok (i_mode (inflate_start s)) (inflate_start s) \<longleftrightarrow>
      mode_ok (i_mode s) s \<or> i_mode s = M_HEAD \<and> (i_wrap s = 0 \<longrightarrow> i_bits s < 8)"
    by (cases "i_mode s") (auto simp: inflate_start_def sizes_ok_def tables_ok_def)
  show ?thesis unfolding stream_ok_def inflate_inv_def b m ..
qed

lemma mode_ok_feed [simp]:
  "m \<noteq> M_HEAD \<Longrightarrow> mode_ok m (z_next_in_update f1 s) = mode_ok m s"
  "m \<noteq> M_HEAD \<Longrightarrow> mode_ok m (z_avail_out_update f2 s) = mode_ok m s"
  "mode_ok m (z_in_null_update f3 s) = mode_ok m s" "mode_ok m (z_out_null_update f4 s) = mode_ok m s"
  by (cases m; simp add: sizes_ok_def tables_ok_def)+

lemma mode_ok_bits: "mode_ok m s \<Longrightarrow> b < 8 \<Longrightarrow> mode_ok m (s\<lparr>i_hold := h, i_bits := b\<rparr>)"
  by (cases m) (simp_all add: sizes_ok_def tables_ok_def)

lemma kept_ok_feed [simp]: "kept_ok (s\<lparr>z_in_null := a, z_next_in := inp, z_out_null := b, z_avail_out := n\<rparr>) = kept_ok s"
  by (simp add: kept_ok_def win_ok_def)

lemma reset_keep_ok:
  "length (i_lens s) = 320 \<Longrightarrow> length (i_codes s) = ENOUGH \<Longrightarrow> win_ok s \<Longrightarrow> (i_wrap s = 0 \<longrightarrow> i_wbits s \<noteq> 0) \<Longrightarrow>
     stream_ok (snd (inflateResetKeep s))"
  by (simp add: stream_ok_eq inflateResetKeep_def Let_def kept_ok_def win_ok_def)

lemma reset_ok: "kept_ok s \<Longrightarrow> stream_ok (snd (inflateReset s))"
  unfolding inflateReset_def by (rule reset_keep_ok) (auto simp: kept_ok_def win_ok_def)

lemma reset2_ok:
  assumes "length (i_lens s) = 320" "length (i_codes s) = ENOUGH"
    and "\<forall>w. i_window s = Some w \<longrightarrow> length w = 2 ^ i_wbits s \<and> i_wbits s \<noteq> 0"
    and r: "inflateReset2 w s = (r, t)" "r = Z_OK"
  shows "stream_ok t"
proof -
  obtain wrap wb where p: "(if w < 0 then (0, - w) else (nat (drop_bit 4 w) + 5, if w < 48 then w AND 15 else w)) = (wrap, wb)"
    by (metis surj_pair)
  have pw: "wrap = 0 \<Longrightarrow> 0 < wb" using p by (auto split: if_splits)
  have ok: "\<not> (wb \<noteq> 0 \<and> (wb < 8 \<or> wb > 15))" using r by (auto simp: inflateReset2_def p Z_OK_def Z_STREAM_ERROR_def)
  let ?s = "s\<lparr>i_window := (if i_window s \<noteq> None \<and> i_wbits s \<noteq> nat wb then None else i_window s), i_wrap := wrap, i_wbits := nat wb\<rparr>"
  have t: "t = snd (inflateReset ?s)" using r(1) unfolding inflateReset2_def Let_def p prod.case if_not_P [OF ok] by simp
  show ?thesis unfolding t inflateReset_def by (rule reset_keep_ok) (use assms(1-3) pw in \<open>auto simp: win_ok_def\<close>)
qed

lemma dictionary_ok:
  assumes z: "zalloc_ok zalloc" and s: "stream_ok s" and r: "inflateSetDictionary zalloc d s = Some (r, t)"
  shows "stream_ok t"
proof (cases "i_wrap s \<noteq> 0 \<and> i_mode s \<noteq> M_DICT \<or>
    i_mode s = M_DICT \<and> adler32_z (adler32_z 0 None) (Some d) \<noteq> i_check s")
  case True
  then show ?thesis using r s by (auto simp: inflateSetDictionary_def split: if_splits)
next
  case False
  have k: "kept_ok s" and m: "mode_ok (i_mode s) s \<or> i_mode s = M_HEAD \<and> (i_wrap s = 0 \<longrightarrow> i_bits s < 8)"
    using s by (simp_all add: stream_ok_eq)
  have wk: "win_ok s" using k by (simp add: kept_ok_def)
  have wb: "i_wbits s \<noteq> 0" using False k m by (auto simp: kept_ok_def)
  obtain v u where u: "updatewindow zalloc d s = Some (v, u)" "r = (if v \<noteq> 0 then Z_MEM_ERROR else Z_OK)"
    "t = (if v \<noteq> 0 then u\<lparr>i_mode := M_MEM\<rparr> else u\<lparr>i_havedict := True\<rparr>)"
    using r False by (auto simp: inflateSetDictionary_def split: if_splits)
  show ?thesis
    using updatewindow_ok [OF z wk wb, of d]
  proof (elim disjE exE conjE)
    assume "updatewindow zalloc d s = Some (1, s)"
    then have "t = s\<lparr>i_mode := M_MEM\<rparr>" using u by simp
    then show ?thesis using k by (simp add: stream_ok_eq kept_ok_def win_ok_def)
  next
    fix w' n h
    let ?t = "s\<lparr>i_wsize := 2 ^ i_wbits s, i_window := Some w', i_wnext := n, i_whave := h\<rparr>"
    assume "updatewindow zalloc d s = Some (0, ?t)" and w: "win_ok ?t"
    then have t: "t = ?t\<lparr>i_havedict := True\<rparr>" using u by simp
    have "kept_ok ?t" using k w by (simp add: kept_ok_def)
    then have "kept_ok t" unfolding t by (simp add: kept_ok_def win_ok_def)
    then show ?thesis using m unfolding t by (simp add: stream_ok_eq)
  qed
qed

lemma sync_ok:
  assumes s: "stream_ok s" and wb: "i_wbits s \<noteq> 0" and r: "inflateSync s = (r, t)"
  shows "stream_ok t"
proof (cases "z_next_in s = [] \<and> i_bits s < 8")
  case True
  then show ?thesis using r s by (simp add: inflateSync_def)
next
  case False
  have k: "kept_ok s" using s by (simp add: stream_ok_eq)
  let ?u = "(if i_mode s \<noteq> M_SYNC then
                s\<lparr>i_mode := M_SYNC, i_hold := drop_bit (8 * (i_bits s div 8)) (push_bit (i_bits s mod 8) (i_hold s)), i_bits := 0,
                  i_have := fst (syncsearch 0 (hold_bytes (i_bits s div 8) (push_bit (i_bits s mod 8) (i_hold s))))\<rparr> else s)"
  define u where "u = ?u"
  have ku: "kept_ok u" "i_mode u = M_SYNC" "i_wbits u \<noteq> 0" using k wb by (simp_all add: u_def kept_ok_def win_ok_def)
  obtain got n where g: "syncsearch (i_have u) (z_next_in u) = (got, n)" by (metis surj_pair)
  define v where "v = u\<lparr>i_have := got, z_next_in := drop n (z_next_in u), z_total_in := z_total_in u + of_nat n\<rparr>"
  have kv: "kept_ok v" "i_mode v = M_SYNC" "i_wbits v \<noteq> 0" using ku by (simp_all add: v_def kept_ok_def win_ok_def)
  have e: "inflateSync s = (if got \<noteq> 4 then (Z_DATA_ERROR, v)
         else (Z_OK, (snd (inflateReset v))\<lparr>z_total_in := z_total_in v, z_total_out := z_total_out v, i_mode := M_TYPE\<rparr>))"
    by (simp only: inflateSync_def if_not_P [OF False] Let_def u_def [symmetric] g prod.case v_def [symmetric])
  show ?thesis
  proof (cases "got \<noteq> 4")
    case True
    then have "t = v" using r e by simp
    then show ?thesis using kv by (simp add: stream_ok_eq)
  next
    case False
    then have t: "t = (snd (inflateReset v))\<lparr>z_total_in := z_total_in v, z_total_out := z_total_out v, i_mode := M_TYPE\<rparr>"
      using r e by simp
    have "stream_ok (snd (inflateReset v))" by (rule reset_ok [OF kv(1)])
    then have "kept_ok t" unfolding t by (simp add: stream_ok_eq kept_ok_def win_ok_def)
    moreover have "i_mode t = M_TYPE" "i_bits t = 0" "i_wbits t \<noteq> 0"
      using kv(3) unfolding t by (simp_all add: inflateReset_def inflateResetKeep_def Let_def)
    ultimately show ?thesis by (simp add: stream_ok_eq)
  qed
qed

lemma prime_ok:
  assumes s: "stream_ok s" and b: "i_bits s = 0" "n < 8" and r: "inflatePrime n val s = (r, t)"
  shows "stream_ok t"
proof -
  obtain h c where t: "t = s\<lparr>i_hold := h, i_bits := c\<rparr>" "c < 8"
  proof (cases "n < 0")
    case True
    then show ?thesis using r that [of 0 0] by (simp add: inflatePrime_def)
  next
    case False
    have "nat n \<le> 32" using b by simp
    then show ?thesis using False r b that [of "nat n" "i_hold s + push_bit (i_bits s) (of_int (val AND (2 ^ nat n - 1)))"]
      by (auto simp: inflatePrime_def)
  qed
  have "kept_ok t" using s by (simp add: t(1) stream_ok_eq kept_ok_def win_ok_def)
  moreover have "mode_ok (i_mode t) t \<or> i_mode t = M_HEAD \<and> (i_wrap t = 0 \<longrightarrow> i_bits t < 8)"
    using s mode_ok_bits [OF _ t(2)] t by (auto simp: stream_ok_eq)
  ultimately show ?thesis by (simp add: stream_ok_eq)
qed

lemma zstream_ok:
  assumes z: "zalloc_ok zalloc" and s: "zstream zalloc s"
  shows "stream_ok s"
  using s
proof (induction rule: zstream.induct)
  case (init w g s)
  let ?g = "g\<lparr>z_msg := None, i_window := None, i_mode := M_HEAD\<rparr>"
  obtain r t where r: "inflateReset2 w ?g = (r, t)" by (metis surj_pair)
  then have "r = Z_OK" "t = s" using init(1) by (auto simp: inflateInit2_def Let_def split: if_splits)
  then show ?case using r init by (intro reset2_ok [of ?g w r s]) auto
next
  case (feed s a inp b n)
  then show ?case by (cases "i_mode s = M_HEAD") (auto simp: stream_ok_eq)
next
  case (inflate s flush r t)
  then show ?case using inflate_ok [OF z, of s flush] by auto
next
  case (reset s r t)
  then show ?case using reset_ok [of s] by (simp add: stream_ok_eq)
next
  case (reset_keep s r t)
  then show ?case using reset_keep_ok [of s] by (simp add: stream_ok_eq kept_ok_def)
next
  case (reset2 s w r t)
  show ?case
  proof (cases "r = Z_OK")
    case True
    then show ?thesis using reset2 by (intro reset2_ok [of s w r t]) (auto simp: stream_ok_eq kept_ok_def win_ok_def)
  next
    case False
    then have "t = s" using reset2(2)
      by (auto simp: inflateReset2_def Let_def inflateReset_def inflateResetKeep_def split: if_splits)
    then show ?thesis using reset2 by simp
  qed
next
  case (dictionary s d r t)
  then show ?case using dictionary_ok [OF z] by blast
next
  case (sync s r t)
  then show ?case using sync_ok by blast
next
  case (prime s n val r t)
  then show ?case using prime_ok by blast
next
  case (undermine s v r t)
  then have t: "t = s\<lparr>i_sane := True\<rparr>" by (simp add: inflateUndermine_def)
  have "kept_ok t" using undermine.IH unfolding t by (simp add: stream_ok_eq kept_ok_def win_ok_def)
  then show ?case using undermine.IH unfolding t by (simp add: stream_ok_eq)
qed

section \<open>The properties\<close>

text \<open>A fresh block for a stream, an allocator and a stream as \<open>inflateInit2\<close> leaves it, for the witnesses.\<close>

definition blank_block :: zstrm where
  "blank_block = \<lparr>z_in_null = False, z_next_in = [], z_total_in = 0, z_out_null = False, z_put = [], z_avail_out = 0,
     z_total_out = 0, z_msg = None, z_data_type = 0, z_adler = 0, i_mode = M_HEAD, i_last = 0, i_wrap = 0,
     i_havedict = False, i_flags = 0, i_dmax = 0, i_check = 0, i_total = 0, i_head = None, i_wbits = 0, i_wsize = 0,
     i_whave = 0, i_wnext = 0, i_window = None, i_hold = 0, i_bits = 0, i_length = 0, i_offset = 0, i_extra = 0,
     i_lencode = P_lenfix, i_distcode = P_distfix, i_lenbits = 0, i_distbits = 0, i_ncode = 0, i_nlen = 0, i_ndist = 0,
     i_have = 0, i_next = 0, i_lens = replicate 320 0, i_codes = replicate ENOUGH (Code 0 0 0), i_sane = False,
     i_back = 0, i_was = 0, r_in = 0, r_out = 0, r_ret = 0, r_seen = []\<rparr>"

definition zeros :: "nat \<Rightarrow> bytes option" where
  "zeros n = Some (replicate n 0)"

definition opened :: "int \<Rightarrow> zstrm" where
  "opened w = the (snd (inflateInit2 w (Some blank_block)))"

lemma zeros_ok: "zalloc_ok zeros"
  by (simp add: zalloc_ok_def zeros_def)

lemma opened_zstream: "w = 15 \<or> w = -15 \<Longrightarrow> zstream zalloc (opened w)"
  by (rule zstream.init [of w blank_block])
    (auto simp: opened_def inflateInit2_def inflateReset2_def inflateReset_def inflateResetKeep_def Let_def Z_OK_def blank_block_def)







lemma get_dictionary:
  "win_ok s \<Longrightarrow> i_wsize s \<noteq> 0 \<Longrightarrow> inflateGetDictionary s = Some (history s)"
  by (auto simp: win_ok_def inflateGetDictionary_def history_def bslice_def)

text \<open>C20: \<open>updatewindow\<close> implements the sliding window: read from the oldest byte on, the window holds the last
  \<open>2 ^ wbits\<close> bytes of what it held followed by the new output, and \<open>inflateGetDictionary\<close> returns just these.\<close>

lemma window_slides:
  assumes "zalloc_ok zalloc" and "zstream zalloc s" and "i_wbits s \<noteq> 0" and "updatewindow zalloc out s = Some (0, t)"
  shows "inflateGetDictionary t = Some (last_bytes (2 ^ i_wbits s) ((if i_wsize s = 0 then [] else history s) @ out))"
proof -
  have w: "win_ok s" using zstream_ok [OF assms(1,2)] by (simp add: stream_ok_eq kept_ok_def)
  show ?thesis
    using updatewindow_ok [OF assms(1) w assms(3), of out] assms(4) get_dictionary [of t] by auto
qed

lemma window_slides_witness:
  "inflateGetDictionary (snd (the (updatewindow zeros [1, 2, 3] (opened (-15))))) = Some [1, 2, 3]"
proof -
  have s: "i_wbits (opened (-15)) = 15" "i_wsize (opened (-15)) = 0" "i_window (opened (-15)) = None" "win_ok (opened (-15))"
    by (simp_all add: opened_def inflateInit2_def inflateReset2_def inflateReset_def inflateResetKeep_def Let_def Z_OK_def win_ok_def)
  have "\<exists>t. updatewindow zeros [1, 2, 3] (opened (-15)) = Some (0, t)"
    using updatewindow_ok [OF zeros_ok s(4), of "[1, 2, 3]"] s
    by (auto simp: updatewindow_def window_alloc_def zeros_def)
  then obtain t where t: "updatewindow zeros [1, 2, 3] (opened (-15)) = Some (0, t)" ..
  have "inflateGetDictionary t = Some (last_bytes (2 ^ i_wbits (opened (-15))) ((if i_wsize (opened (-15)) = 0 then [] else history (opened (-15))) @ [1, 2, 3]))"
    by (rule window_slides [OF zeros_ok opened_zstream _ t]) (simp_all add: s)
  then show ?thesis by (simp add: t s last_bytes_def)
qed

end
