(* ===== verification/Zl_InfStored.thy ===== *)
theory Zl_InfStored
  imports Zl_InfStream
begin

text \<open>
  The round trip of stored blocks: what \<open>inflate\<close> makes of a raw stream of them, step by step, and what the
  work after its loop leaves alone.
\<close>

unbundle bit_operations_syntax

section \<open>Stored blocks\<close>

text \<open>The encoding of a block that is not compressed: a header, the length and its complement, and the data.\<close>

definition stored_block :: "bool \<Rightarrow> bytes \<Rightarrow> bytes" where
  "stored_block final data =
     (let n = of_nat (length data) :: 16 word in
      [if final then 1 else 0, ucast n, ucast (drop_bit 8 n), ucast (NOT n), ucast (drop_bit 8 (NOT n))] @ data)"

fun stored_stream :: "bytes list \<Rightarrow> bytes" where
  "stored_stream [] = []"
| "stored_stream [b] = stored_block True b"
| "stored_stream (b # bs) = stored_block False b @ stored_stream bs"

lemma unat16: "unat n < 65536" for n :: "16 word"
proof -
  have "unat n < 2 ^ LENGTH(16)" by (rule unsigned_less)
  then show ?thesis by simp
qed

lemma low_byte: "ucast (ucast n :: u8) = (of_nat (unat n mod 256) :: u32)" for n :: "16 word"
proof -
  have "unat (ucast n :: u8) = unat n mod 256" by (simp add: unsigned_ucast_eq take_bit_eq_mod)
  moreover have "ucast (ucast n :: u8) = (of_nat (unat (ucast n :: u8)) :: u32)" by (rule of_nat_unat [symmetric])
  ultimately show ?thesis by simp
qed

lemma high_byte: "ucast (ucast (drop_bit 8 n) :: u8) = (of_nat (unat n div 256) :: u32)" for n :: "16 word"
proof -
  have "unat (drop_bit 8 n) = unat n div 2 ^ 8" by (simp only: unat_drop_bit_eq) (simp only: drop_bit_eq_div)
  then show ?thesis using unat16 [of n] low_byte [of "drop_bit 8 n"] by simp
qed

lemma ucast32: "unat (ucast n :: u32) = unat n" for n :: "16 word"
  using unat16 [of n] by (simp add: unsigned_ucast_eq take_bit_nat_eq_self_iff)

lemma four_bytes:
  fixes n m :: "16 word"
  defines "h \<equiv> 0 + push_bit 0 (ucast (ucast n :: u8)) + push_bit 8 (ucast (ucast (drop_bit 8 n) :: u8)) +
      push_bit 16 (ucast (ucast m :: u8)) + push_bit 24 (ucast (ucast (drop_bit 8 m) :: u8)) :: u32"
  shows "unat h = unat n + 65536 * unat m"
proof -
  have lt: "unat n < 65536" "unat m < 65536" by (rule unat16)+
  have sum: "0 + push_bit 0 (of_nat a) + push_bit 8 (of_nat b) + push_bit 16 (of_nat c) + push_bit 24 (of_nat d) =
      (of_nat (a + b * 256 + c * 65536 + d * 16777216) :: u32)" for a b c d
    by (simp add: push_bit_eq_mult)
  have "h = of_nat (unat n mod 256 + unat n div 256 * 256 + unat m mod 256 * 65536 + unat m div 256 * 16777216)"
    unfolding h_def unfolding high_byte unfolding low_byte by (rule sum)
  also have "unat n mod 256 + unat n div 256 * 256 + unat m mod 256 * 65536 + unat m div 256 * 16777216 =
      unat n + 65536 * unat m"
    using mod_div_mult_eq [of "unat n" 256] mod_div_mult_eq [of "unat m" 256] by linarith
  finally have e: "h = of_nat (unat n + 65536 * unat m)" .
  have "take_bit LENGTH(32) (unat n + 65536 * unat m) = unat n + 65536 * unat m"
    by (rule take_bit_nat_eq_self) (use lt in simp)
  then show ?thesis by (simp only: e unsigned_of_nat of_nat_id)
qed

lemma stored_check:
  fixes n :: "16 word" and h :: u32
  assumes "unat h = unat n + 65536 * unat (NOT n)"
  shows "h AND 0xffff = drop_bit 16 h XOR 0xffff" and "unat (h AND 0xffff) = unat n"
proof -
  have lt: "unat n < 65536" "unat (NOT n) < 65536" by (rule unat16)+
  have m: "(0xffff :: u32) = mask 16" by (simp add: mask_eq_exp_minus_1)
  have "unat (h AND 0xffff) = unat h mod 2 ^ 16"
    unfolding m take_bit_eq_mask [symmetric] unsigned_take_bit_eq by (simp only: take_bit_eq_mod)
  then show u: "unat (h AND 0xffff) = unat n" using assms lt by simp
  have lo: "h AND 0xffff = ucast n" using u by (simp only: word_unat_eq_iff ucast32)
  have "unat (drop_bit 16 h) = unat (NOT n)" using assms lt by (simp add: unat_drop)
  then have "drop_bit 16 h = ucast (NOT n)" by (simp only: word_unat_eq_iff ucast32)
  moreover have "(ucast (NOT n) :: u32) XOR mask 16 = ucast n"
    by (rule bit_word_eqI) (auto simp: bit_simps dest: bit_imp_le_length)
  ultimately show "h AND 0xffff = drop_bit 16 h XOR 0xffff" using lo m by simp
qed

lemma pull_done: "n \<le> bits \<Longrightarrow> pull_bytes n inp hold bits = (True, inp, hold, bits)"
  by (cases inp) simp_all

lemma loop_go: "inflate_step flush s = Some (S_go t) \<Longrightarrow> inflate_loop flush s = inflate_loop flush t"
  by (subst inflate_loop.simps) simp

text \<open>Ready for the header of a block, or after its data.\<close>

definition at_block :: "bytes \<Rightarrow> zstrm \<Rightarrow> bool" where
  "at_block inp s \<longleftrightarrow> (i_mode s = M_TYPE \<or> i_mode s = M_TYPEDO) \<and> i_last s = 0 \<and> i_hold s = 0 \<and> i_bits s = 0 \<and>
     z_next_in s = inp"

lemma stored_header:
  assumes s: "at_block (stored_block final data @ rest) s" and l: "length data < 65536"
    and f: "flush \<noteq> Z_BLOCK" "flush \<noteq> Z_TREES"
  shows "inflate_loop flush s = inflate_loop flush (s\<lparr>z_next_in := data @ rest, i_last := (if final then 1 else 0),
    i_mode := M_COPY, i_length := length data\<rparr>)"
proof -
  let ?n = "of_nat (length data) :: 16 word"
  let ?b = "(if final then 1 else 0) :: u8"
  let ?l = "if final then 1 else 0 :: nat"
  let ?m = "[ucast ?n, ucast (drop_bit 8 ?n), ucast (NOT ?n), ucast (drop_bit 8 (NOT ?n))] @ data @ rest"
  let ?s1 = "s\<lparr>z_next_in := ?m, i_last := ?l, i_mode := M_STORED, i_hold := 0, i_bits := 5\<rparr>"
  have in0: "z_next_in s = ?b # ?m" using s by (simp add: at_block_def stored_block_def Let_def)
  have "inflate_step flush s = Some (do_TYPEDO flush s)"
    using s f by (auto simp: at_block_def inflate_step_def do_TYPE_def)
  moreover have "do_TYPEDO flush s = S_go ?s1"
    using s in0 by (cases final) (simp_all add: do_TYPEDO_def NEEDBITS_def Let_def at_block_def mask_bits_def DROPBITS_def)
  ultimately have 1: "inflate_loop flush s = inflate_loop flush ?s1" by (intro loop_go) simp
  let ?h = "0 + push_bit 0 (ucast (ucast ?n :: u8)) + push_bit 8 (ucast (ucast (drop_bit 8 ?n) :: u8)) +
      push_bit 16 (ucast (ucast (NOT ?n) :: u8)) + push_bit 24 (ucast (ucast (drop_bit 8 (NOT ?n)) :: u8)) :: u32"
  have un: "unat ?n = length data" using l by (simp add: unsigned_of_nat take_bit_nat_eq_self_iff)
  have c: "?h AND 0xffff = drop_bit 16 ?h XOR 0xffff" "unat (?h AND 0xffff) = length data"
    by (rule stored_check(1) [OF four_bytes], rule trans [OF stored_check(2) [OF four_bytes] un])
  define h where "h = ?h"
  have pull: "pull_bytes 32 ?m 0 0 = (True, data @ rest, h, 32)" by (simp add: h_def pull_done)
  let ?s2 = "s\<lparr>z_next_in := data @ rest, i_last := ?l, i_mode := M_COPY0, i_length := length data, i_hold := 0, i_bits := 0\<rparr>"
  have "do_STORED flush ?s1 = S_go ?s2"
    using pull c f(2) unfolding h_def [symmetric]
    by (simp add: do_STORED_def NEEDBITS_def Let_def BYTEBITS_def INITBITS_def)
  then have 2: "inflate_loop flush ?s1 = inflate_loop flush ?s2"
    by (intro loop_go) (simp add: inflate_step_def)
  have 3: "inflate_loop flush ?s2 = inflate_loop flush (?s2\<lparr>i_mode := M_COPY\<rparr>)"
    by (intro loop_go) (simp add: inflate_step_def)
  have "?s2\<lparr>i_mode := M_COPY\<rparr> = s\<lparr>z_next_in := data @ rest, i_last := ?l, i_mode := M_COPY, i_length := length data\<rparr>"
    using s by (simp add: at_block_def)
  then show ?thesis using 1 2 3 by simp
qed

lemma stored_data:
  assumes "i_mode s = M_COPY" and "i_length s = length data" and "z_next_in s = data @ rest" and "length data \<le> z_avail_out s"
  shows "inflate_loop flush s = inflate_loop flush (s\<lparr>z_put := z_put s @ data, z_next_in := rest,
    z_avail_out := z_avail_out s - length data, i_length := 0, i_mode := M_TYPE\<rparr>)"
proof (cases "data = []")
  case True
  have "inflate_step flush s = Some (S_go (s\<lparr>i_mode := M_TYPE\<rparr>))"
    using assms True by (simp add: inflate_step_def do_COPY_def)
  moreover have "s\<lparr>i_mode := M_TYPE\<rparr> = s\<lparr>z_put := z_put s @ data, z_next_in := rest,
    z_avail_out := z_avail_out s - length data, i_length := 0, i_mode := M_TYPE\<rparr>" using assms True by simp
  ultimately show ?thesis by (metis loop_go)
next
  case False
  let ?t = "s\<lparr>z_put := z_put s @ data, z_next_in := rest, z_avail_out := z_avail_out s - length data, i_length := 0\<rparr>"
  have "min (min (i_length s) (length (z_next_in s))) (z_avail_out s) = length data" using assms by simp
  then have "inflate_step flush s = Some (S_go ?t)"
    using assms False by (simp add: inflate_step_def do_COPY_def Let_def)
  then have 1: "inflate_loop flush s = inflate_loop flush ?t" by (rule loop_go)
  have "inflate_step flush ?t = Some (S_go (?t\<lparr>i_mode := M_TYPE\<rparr>))"
    using assms by (simp add: inflate_step_def do_COPY_def)
  then have 2: "inflate_loop flush ?t = inflate_loop flush (?t\<lparr>i_mode := M_TYPE\<rparr>)" by (rule loop_go)
  show ?thesis using 1 2 by simp
qed

definition after_block :: "bool \<Rightarrow> bytes \<Rightarrow> bytes \<Rightarrow> zstrm \<Rightarrow> zstrm" where
  "after_block final data rest s = s\<lparr>i_last := (if final then 1 else 0), z_put := z_put s @ data, z_next_in := rest,
     z_avail_out := z_avail_out s - length data, i_length := 0, i_mode := M_TYPE\<rparr>"

lemma stored_block_loop:
  assumes "at_block (stored_block final data @ rest) s" and "length data < 65536"
    and "flush \<noteq> Z_BLOCK" "flush \<noteq> Z_TREES" and "length data \<le> z_avail_out s"
  shows "inflate_loop flush s = inflate_loop flush (after_block final data rest s)"
  unfolding stored_header [OF assms(1-4)]
  by (subst stored_data [of _ data rest]) (use assms(5) in \<open>simp_all add: after_block_def\<close>)

lemma stored_stream_loop:
  "at_block (stored_stream bs @ rest) s \<Longrightarrow> bs \<noteq> [] \<Longrightarrow> \<forall>b\<in>set bs. length b < 65536 \<Longrightarrow>
     flush \<noteq> Z_BLOCK \<Longrightarrow> flush \<noteq> Z_TREES \<Longrightarrow> length (concat bs) \<le> z_avail_out s \<Longrightarrow>
     inflate_loop flush s = inflate_loop flush (after_block True (concat bs) rest s)"
proof (induction bs arbitrary: s rule: stored_stream.induct)
  case (2 b)
  then show ?case using stored_block_loop [of True b rest s flush] by simp
next
  case (3 b c bs)
  let ?t = "after_block False b (stored_stream (c # bs) @ rest) s"
  have 1: "inflate_loop flush s = inflate_loop flush ?t"
    using 3(2-) by (intro stored_block_loop) simp_all
  have "at_block (stored_stream (c # bs) @ rest) ?t" using 3(2) by (simp add: at_block_def after_block_def)
  moreover have "length (concat (c # bs)) \<le> z_avail_out ?t" using 3(7) by (simp add: after_block_def)
  ultimately have 2: "inflate_loop flush ?t = inflate_loop flush (after_block True (concat (c # bs)) rest ?t)"
    using 3(4-6) by (intro 3(1)) simp_all
  have "after_block True (concat (c # bs)) rest ?t = after_block True (concat (b # c # bs)) rest s"
    by (simp add: after_block_def)
  then show ?case using 1 2 by simp
qed simp

lemma last_block_loop:
  assumes "i_mode s = M_TYPE" and "i_last s = 1" and "i_bits s = 0" and "i_wrap s = 0" and "flush \<noteq> Z_BLOCK" "flush \<noteq> Z_TREES"
  shows "inflate_loop flush s = Some (S_leave (s\<lparr>i_hold := i_hold s, i_mode := M_DONE, r_ret := Z_STREAM_END\<rparr>))"
proof -
  have "inflate_step flush s = Some (S_go (s\<lparr>i_mode := M_CHECK\<rparr>))"
    using assms by (simp add: inflate_step_def do_TYPE_def do_TYPEDO_def BYTEBITS_def)
  moreover have "inflate_step flush (s\<lparr>i_mode := M_CHECK\<rparr>) = Some (S_go (s\<lparr>i_mode := M_LENGTH\<rparr>))"
    using assms(4) by (simp add: inflate_step_def do_CHECK_def)
  moreover have "inflate_step flush (s\<lparr>i_mode := M_LENGTH\<rparr>) = Some (S_go (s\<lparr>i_mode := M_DONE\<rparr>))"
    using assms(4) by (simp add: inflate_step_def do_LENGTH_def)
  moreover have "inflate_loop flush (s\<lparr>i_mode := M_DONE\<rparr>) = Some (S_leave (s\<lparr>i_mode := M_DONE, r_ret := Z_STREAM_END\<rparr>))"
    by (subst inflate_loop.simps) (simp add: inflate_step_def)
  ultimately show ?thesis by (simp add: loop_go)
qed

section \<open>What the work after the loop leaves alone\<close>

lemma window_put_keep:
  assumes "window_put out s = Some t"
  shows "z_put t = z_put s \<and> z_next_in t = z_next_in s \<and> r_ret t = r_ret s"
proof -
  obtain w where w: "i_window s = Some w" using assms by (cases "i_window s") (auto simp: window_put_def)
  let ?d = "min (i_wsize s - i_wnext s) (length out)"
  show ?thesis
  proof (cases "i_wsize s \<le> length out")
    case True
    then show ?thesis using assms w
      by (cases "blit w 0 (drop (length out - i_wsize s) out) (i_wsize s)") (auto simp: window_put_def Let_def)
  next
    case False
    then obtain w1 where b: "blit w (i_wnext s) out ?d = Some w1"
      using assms w by (cases "blit w (i_wnext s) out ?d") (simp_all add: window_put_def Let_def)
    show ?thesis
    proof (cases "length out - ?d = 0")
      case 0: True
      show ?thesis using assms w False b 0 by (simp add: window_put_def Let_def) (elim subst, simp)
    next
      case n: False
      then obtain w2 where "blit w1 0 (drop ?d out) (length out - ?d) = Some w2"
        using assms w False b by (cases "blit w1 0 (drop ?d out) (length out - ?d)") (simp_all add: window_put_def Let_def)
      then show ?thesis using assms w False b n by (simp add: window_put_def Let_def) (elim subst, simp)
    qed
  qed
qed

lemma updatewindow_keep:
  assumes "updatewindow zalloc out s = Some (r, t)"
  shows "z_put t = z_put s \<and> z_next_in t = z_next_in s \<and> r_ret t = r_ret s \<and> ((\<forall>n. zalloc n \<noteq> None) \<longrightarrow> r = 0)"
proof (cases "window_alloc zalloc s")
  case None
  then show ?thesis using assms by (auto simp: updatewindow_def window_alloc_def split: if_splits)
next
  case (Some u)
  then have u: "z_put u = z_put s \<and> z_next_in u = z_next_in s \<and> r_ret u = r_ret s"
    by (auto simp: window_alloc_def split: if_splits)
  then show ?thesis
    using assms window_put_keep [of out _ t] by (cases "i_wsize u = 0") (auto simp: updatewindow_def Some Let_def)
qed

lemma if_map: "(if c then map_option f x else Some s) = Some u \<Longrightarrow> u = s \<or> (\<exists>b. u = f b)"
  by (cases c) auto

lemma leave_totals_keep:
  assumes "leave_totals flush s = I_ret r t"
  shows "z_put t = z_put s \<and> z_next_in t = z_next_in s \<and> (r = r_ret s \<or> r = Z_BUF_ERROR \<and> r_ret s = Z_OK)"
proof -
  let ?n = "r_out s - z_avail_out s"
  define k where "k u = (let q = u\<lparr>z_data_type := i_bits u + (if i_last u \<noteq> 0 then 64 else 0) + (if i_mode u = M_TYPE then 128 else 0) +
                (if i_mode u = M_LEN0 \<or> i_mode u = M_COPY0 then 256 else 0)\<rparr> in
      I_ret (if (r_in s - length (z_next_in s) = 0 \<and> ?n = 0 \<or> flush = Z_FINISH) \<and> r_ret q = Z_OK then Z_BUF_ERROR else r_ret q) q)" for u
  define w where "w = s\<lparr>z_total_in := z_total_in s + of_nat (r_in s - length (z_next_in s)), z_total_out := z_total_out s + of_nat ?n,
      i_total := i_total s + of_nat ?n\<rparr>"
  define x where "x = (if i_wrap w AND 4 \<noteq> 0 \<and> ?n \<noteq> 0
            then map_option (\<lambda>b. w\<lparr>z_adler := UPDATE w b, i_check := UPDATE w b\<rparr>) (last_put ?n w) else Some w)"
  have "leave_totals flush s = (case x of None \<Rightarrow> I_undef | Some u \<Rightarrow> k u)"
    unfolding x_def w_def by (simp only: leave_totals_def Let_def k_def)
  then obtain u where u: "x = Some u" "k u = I_ret r t" using assms by (cases x) simp_all
  have "u = w \<or> (\<exists>b. u = w\<lparr>z_adler := UPDATE w b, i_check := UPDATE w b\<rparr>)" using u(1) unfolding x_def by (rule if_map)
  then have us: "z_put u = z_put s" "z_next_in u = z_next_in s" "r_ret u = r_ret s" by (auto simp: w_def)
  define q where "q = u\<lparr>z_data_type := i_bits u + (if i_last u \<noteq> 0 then 64 else 0) + (if i_mode u = M_TYPE then 128 else 0) +
                (if i_mode u = M_LEN0 \<or> i_mode u = M_COPY0 then 256 else 0)\<rparr>"
  have q: "z_put q = z_put s" "z_next_in q = z_next_in s" "r_ret q = r_ret s" using us by (simp_all add: q_def)
  have "I_ret (if (r_in s - length (z_next_in s) = 0 \<and> ?n = 0 \<or> flush = Z_FINISH) \<and> r_ret q = Z_OK then Z_BUF_ERROR else r_ret q) q
      = I_ret r t" using u(2) unfolding k_def Let_def q_def [symmetric] .
  then have "t = q" "r = (if (r_in s - length (z_next_in s) = 0 \<and> ?n = 0 \<or> flush = Z_FINISH) \<and> r_ret q = Z_OK
      then Z_BUF_ERROR else r_ret q)" by blast+
  then show ?thesis using q by (auto split: if_splits)
qed

lemma inf_leave_keep:
  assumes "inf_leave zalloc flush s = I_ret r t" and "\<forall>n. zalloc n \<noteq> None"
  shows "z_put t = z_put s \<and> z_next_in t = z_next_in s \<and> (r = r_ret s \<or> r = Z_BUF_ERROR \<and> r_ret s = Z_OK)"
proof (cases "i_wsize s \<noteq> 0 \<or> r_out s - z_avail_out s \<noteq> 0 \<and> mode_no (i_mode s) < mode_no M_BAD \<and>
           (mode_no (i_mode s) < mode_no M_CHECK \<or> flush \<noteq> Z_FINISH)")
  case False
  have "leave_totals flush s = I_ret r t" using assms(1) unfolding inf_leave_def Let_def if_not_P [OF False] .
  then show ?thesis by (rule leave_totals_keep)
next
  case True
  note e = assms(1) [unfolded inf_leave_def Let_def if_P [OF True]]
  obtain o' where o: "last_put (r_out s - z_avail_out s) s = Some o'" using e by (cases "last_put (r_out s - z_avail_out s) s") simp_all
  obtain v u where u: "updatewindow zalloc o' s = Some (v, u)" using e o by (cases "updatewindow zalloc o' s") auto
  note k = updatewindow_keep [OF u]
  have "leave_totals flush u = I_ret r t" using e o u k assms(2) by simp
  then show ?thesis using leave_totals_keep k by fastforce
qed

section \<open>The round trip\<close>

definition next_call :: "bytes \<Rightarrow> nat \<Rightarrow> zstrm \<Rightarrow> zstrm" where
  "next_call inp n s = s\<lparr>z_in_null := False, z_next_in := inp, z_out_null := False, z_avail_out := n\<rparr>"

lemma init_raw:
  assumes "inflateInit2 w (Some g) = (Z_OK, Some s)" and "w < 0"
  shows "i_mode s = M_HEAD" "i_last s = 0" "i_hold s = 0" "i_bits s = 0" "i_wrap s = 0"
  using assms
  by (auto simp: inflateInit2_def inflateReset2_def inflateReset_def inflateResetKeep_def Let_def Z_OK_def Z_STREAM_ERROR_def
      split: if_splits)

text \<open>C19: a raw stream of stored blocks, however long and however many, decodes to just the data of the blocks,
  ends the stream and leaves what follows it in the input.\<close>

lemma stored_roundtrip:
  assumes z: "zalloc_ok zalloc" "\<forall>n. zalloc n \<noteq> None"
    and g: "length (i_lens g) = 320" "length (i_codes g) = ENOUGH" and s: "inflateInit2 w (Some g) = (Z_OK, Some s)" "w < 0"
    and bs: "bs \<noteq> []" "\<forall>b\<in>set bs. length b < 65536" and n: "length (concat bs) \<le> n"
    and f: "flush \<noteq> Z_BLOCK" "flush \<noteq> Z_TREES"
  shows "\<exists>t. inflate zalloc flush (next_call (stored_stream bs @ rest) n s) = Some (I_ret Z_STREAM_END t) \<and>
    z_put t = concat bs \<and> z_next_in t = rest"
proof -
  let ?s = "next_call (stored_stream bs @ rest) n s"
  let ?a = "inflate_start ?s"
  note i = init_raw [OF s]
  have "zstream zalloc ?s" unfolding next_call_def by (rule zstream.feed [OF zstream.init [OF s(1) g]])
  then have ok: "stream_ok ?s" by (rule zstream_ok [OF z(1)])
  let ?b = "?a\<lparr>i_mode := M_TYPEDO\<rparr>"
  have "inflate_step flush ?a = Some (S_go ?b)"
    using i by (simp add: inflate_step_def do_HEAD_def inflate_start_def next_call_def)
  then have 1: "inflate_loop flush ?a = inflate_loop flush ?b" by (rule loop_go)
  let ?c = "after_block True (concat bs) rest ?b"
  have "at_block (stored_stream bs @ rest) ?b" using i by (simp add: at_block_def inflate_start_def next_call_def)
  then have 2: "inflate_loop flush ?b = inflate_loop flush ?c"
    using bs n f by (intro stored_stream_loop) (simp_all add: inflate_start_def next_call_def)
  let ?d = "?c\<lparr>i_hold := i_hold ?c, i_mode := M_DONE, r_ret := Z_STREAM_END\<rparr>"
  have 3: "inflate_loop flush ?c = Some (S_leave ?d)"
    using i f by (intro last_block_loop) (simp_all add: after_block_def inflate_start_def next_call_def)
  have inf: "inflate zalloc flush ?s = Some (inf_leave zalloc flush ?d)"
    using 1 2 3 by (simp add: inflate_def next_call_def)
  obtain r t where r: "inflate zalloc flush ?s = Some (I_ret r t)" using inflate_ok [OF z(1) ok] by blast
  then have l: "inf_leave zalloc flush ?d = I_ret r t" using inf by simp
  have "z_put t = z_put ?d" "z_next_in t = z_next_in ?d" "r = r_ret ?d"
    using inf_leave_keep [OF l z(2)] by (auto simp: Z_STREAM_END_def Z_OK_def)
  then show ?thesis using r by (simp add: after_block_def inflate_start_def)
qed

lemma stored_roundtrip_witness:
  "\<exists>t. inflate zeros 4 (next_call (stored_stream [[1, 2, 3], [], [4]] @ [9, 9]) 4 (opened (-15))) = Some (I_ret Z_STREAM_END t) \<and>
    z_put t = [1, 2, 3, 4] \<and> z_next_in t = [9, 9]"
proof -
  have s: "inflateInit2 (-15) (Some blank_block) = (Z_OK, Some (opened (-15)))"
    by (simp add: opened_def inflateInit2_def inflateReset2_def inflateReset_def inflateResetKeep_def Let_def Z_OK_def)
  have "\<exists>t. inflate zeros 4 (next_call (stored_stream [[1, 2, 3], [], [4]] @ [9, 9]) 4 (opened (-15))) = Some (I_ret Z_STREAM_END t) \<and>
    z_put t = concat [[1, 2, 3], [], [4]] \<and> z_next_in t = [9, 9]"
    by (rule stored_roundtrip [OF zeros_ok _ _ _ s]) (simp_all add: zeros_def blank_block_def Z_BLOCK_def Z_TREES_def)
  then show ?thesis by simp
qed

end
