(* ===== verification/Zl_InfMisuse.thy ===== *)
theory Zl_InfMisuse
  imports Zl_InfStored
begin

text \<open>
  Two interfaces of \<open>inflate.c\<close> that break its invariant: the buffer for the extra field of a gzip header and
  bits put in front of the input.
\<close>

unbundle bit_operations_syntax

section \<open>What a client can do wrong\<close>

text \<open>
  The bytes that \<open>inflateGetHeader\<close> and \<open>inflatePrime\<close> bring in are outside the invariant. Two ways in which
  they lead to undefined behaviour, although their interface allows them:
\<close>

lemma blit_outside: "length d < off \<Longrightarrow> blit d off src n = None"
  by (simp add: blit_def)

lemma undefined_step: "inflate_step flush (inflate_start s) = Some S_undef \<Longrightarrow> \<not> z_out_null s \<Longrightarrow> \<not> z_in_null s \<Longrightarrow>
    inflate zalloc flush s = Some I_undef"
  by (simp add: inflate_def) (subst inflate_loop.simps, simp)



lemma lenfix_0: "tab_at codes P_lenfix 0 = Some (Code 96 7 0)"
  by (simp add: tab_at_def lenfix_def)

text \<open>Two calls of \<open>inflatePrime\<close> with 16 bits each, which it allows, followed by enough input for
  \<open>inflate_fast\<close>: the whole bytes left over when the block ends were never taken from the input, and putting
  them back moves \<open>next_in\<close> in front of the client's buffer.\<close>

lemma prime_underruns_input:
  assumes g: "inflateInit2 w (Some g) = (Z_OK, Some s)" "w < 0" and f: "flush \<noteq> Z_BLOCK" "flush \<noteq> Z_TREES"
    and inp: "6 \<le> length inp" "258 \<le> n"
  shows "inflate zalloc flush (next_call inp n (snd (inflatePrime 16 0 (snd (inflatePrime 16 3 s))))) = Some I_undef"
proof -
  note i = init_raw [OF g]
  let ?p = "s\<lparr>i_hold := 3, i_bits := 32\<rparr>"
  have p: "snd (inflatePrime 16 0 (snd (inflatePrime 16 3 s))) = ?p"
    using i by (simp add: inflatePrime_def)
  let ?s = "next_call inp n ?p"
  let ?a = "inflate_start ?s"
  let ?b = "?a\<lparr>i_mode := M_TYPEDO\<rparr>"
  have 1: "inflate_loop flush ?a = inflate_loop flush ?b"
    using i by (intro loop_go) (simp add: inflate_step_def do_HEAD_def inflate_start_def next_call_def)
  let ?c = "?b\<lparr>i_last := 1, i_mode := M_LEN0, i_lencode := P_lenfix, i_lenbits := 9, i_distcode := P_distfix, i_distbits := 5,
      i_hold := 0, i_bits := 29\<rparr>"
  have 2: "inflate_loop flush ?b = inflate_loop flush ?c"
    using i f
    by (intro loop_go) (simp add: inflate_step_def do_TYPEDO_def inflate_start_def next_call_def NEEDBITS_def pull_done
        mask_bits_def DROPBITS_def fixedtables_def Let_def)
  let ?d = "?c\<lparr>i_mode := M_LEN\<rparr>"
  have 3: "inflate_loop flush ?c = inflate_loop flush ?d"
    by (intro loop_go) (simp add: inflate_step_def)
  let ?e = "?d\<lparr>r_seen := []\<rparr>"
  have "fast_iter ?e = Some (S_leave (?e\<lparr>i_bits := 22, i_mode := M_TYPE\<rparr>))"
    by (simp add: fast_iter_def fast_fill_def mask_bits_def lenfix_0)
      (subst fast_len.simps, simp add: fast_drop_def DROPBITS_def Let_def)
  then have "fast_loop ?e = Some (S_leave (?e\<lparr>i_bits := 22, i_mode := M_TYPE\<rparr>))"
    by (subst fast_loop.simps) simp
  then have "inflate_fast ?d = Some S_undef" by (simp add: inflate_fast_def fast_return_def Let_def)
  then have "inflate_step flush ?d = Some S_undef"
    using inp by (simp add: inflate_step_def do_LEN_def inflate_start_def next_call_def)
  then have "inflate_loop flush ?d = Some S_undef" by (subst inflate_loop.simps) simp
  then show ?thesis unfolding p using 1 2 3 by (simp add: inflate_def next_call_def)
qed

lemma prime_underruns_input_witness:
  "inflate zeros 0 (next_call [0, 0, 0, 0, 0, 0] 300 (snd (inflatePrime 16 0 (snd (inflatePrime 16 3 (opened (-15))))))) = Some I_undef"
proof -
  have s: "inflateInit2 (-15) (Some blank_block) = (Z_OK, Some (opened (-15)))"
    by (simp add: opened_def inflateInit2_def inflateReset2_def inflateReset_def inflateResetKeep_def Let_def Z_OK_def)
  show ?thesis by (rule prime_underruns_input [OF s]) (simp_all add: Z_BLOCK_def Z_TREES_def)
qed

end
