(* ===== verification/Ao_Hash.thy ===== *)
theory Ao_Hash
  imports Zl_Crc32
begin

text \<open>
  \<open>util/AoHash.h\<close> and \<open>util/AoHash.cpp\<close>: the XOR checksum of the licence codes, the program's own
  CRC-32 loop, and SHA-256. The text of the code comes first, each routine on explicit buffers
  whose out-of-range accesses are \<^term>\<open>None\<close>; then the digest as FIPS 180-4 defines it, with its
  constants computed from the primes, and the proof that the streaming code computes it.
\<close>

section \<open>Checksums\<close>

text \<open>\<open>CalcCrc8\<close> reads its first byte whatever the length says.\<close>

function crc8_loop :: "bytes \<Rightarrow> nat \<Rightarrow> nat \<Rightarrow> u8 \<Rightarrow> u8 option" where
  "crc8_loop pucData n unDataLen ucCrc =
     (if n < unDataLen
      then if n < length pucData
           then crc8_loop pucData (Suc n) unDataLen (ucCrc XOR pucData ! n) else None
      else Some ucCrc)"
  by pat_completeness auto
termination by (relation "measure (\<lambda>(b, n, l, c). l - n)") auto

declare crc8_loop.simps [simp del]

definition CalcCrc8 :: "bytes \<Rightarrow> u32 \<Rightarrow> u8 option" where
  "CalcCrc8 pucData unDataLen =
     (if pucData = [] then None else crc8_loop pucData 1 (unat unDataLen) (pucData ! 0))"

definition aoh_crc_table :: "u32 list" where
  "aoh_crc_table =
    [0x00000000, 0x77073096, 0xEE0E612C, 0x990951BA, 0x076DC419, 0x706AF48F, 0xE963A535,
     0x9E6495A3, 0x0EDB8832, 0x79DCB8A4, 0xE0D5E91E, 0x97D2D988, 0x09B64C2B, 0x7EB17CBD,
     0xE7B82D07, 0x90BF1D91, 0x1DB71064, 0x6AB020F2, 0xF3B97148, 0x84BE41DE, 0x1ADAD47D,
     0x6DDDE4EB, 0xF4D4B551, 0x83D385C7, 0x136C9856, 0x646BA8C0, 0xFD62F97A, 0x8A65C9EC,
     0x14015C4F, 0x63066CD9, 0xFA0F3D63, 0x8D080DF5, 0x3B6E20C8, 0x4C69105E, 0xD56041E4,
     0xA2677172, 0x3C03E4D1, 0x4B04D447, 0xD20D85FD, 0xA50AB56B, 0x35B5A8FA, 0x42B2986C,
     0xDBBBC9D6, 0xACBCF940, 0x32D86CE3, 0x45DF5C75, 0xDCD60DCF, 0xABD13D59, 0x26D930AC,
     0x51DE003A, 0xC8D75180, 0xBFD06116, 0x21B4F4B5, 0x56B3C423, 0xCFBA9599, 0xB8BDA50F,
     0x2802B89E, 0x5F058808, 0xC60CD9B2, 0xB10BE924, 0x2F6F7C87, 0x58684C11, 0xC1611DAB,
     0xB6662D3D, 0x76DC4190, 0x01DB7106, 0x98D220BC, 0xEFD5102A, 0x71B18589, 0x06B6B51F,
     0x9FBFE4A5, 0xE8B8D433, 0x7807C9A2, 0x0F00F934, 0x9609A88E, 0xE10E9818, 0x7F6A0DBB,
     0x086D3D2D, 0x91646C97, 0xE6635C01, 0x6B6B51F4, 0x1C6C6162, 0x856530D8, 0xF262004E,
     0x6C0695ED, 0x1B01A57B, 0x8208F4C1, 0xF50FC457, 0x65B0D9C6, 0x12B7E950, 0x8BBEB8EA,
     0xFCB9887C, 0x62DD1DDF, 0x15DA2D49, 0x8CD37CF3, 0xFBD44C65, 0x4DB26158, 0x3AB551CE,
     0xA3BC0074, 0xD4BB30E2, 0x4ADFA541, 0x3DD895D7, 0xA4D1C46D, 0xD3D6F4FB, 0x4369E96A,
     0x346ED9FC, 0xAD678846, 0xDA60B8D0, 0x44042D73, 0x33031DE5, 0xAA0A4C5F, 0xDD0D7CC9,
     0x5005713C, 0x270241AA, 0xBE0B1010, 0xC90C2086, 0x5768B525, 0x206F85B3, 0xB966D409,
     0xCE61E49F, 0x5EDEF90E, 0x29D9C998, 0xB0D09822, 0xC7D7A8B4, 0x59B33D17, 0x2EB40D81,
     0xB7BD5C3B, 0xC0BA6CAD, 0xEDB88320, 0x9ABFB3B6, 0x03B6E20C, 0x74B1D29A, 0xEAD54739,
     0x9DD277AF, 0x04DB2615, 0x73DC1683, 0xE3630B12, 0x94643B84, 0x0D6D6A3E, 0x7A6A5AA8,
     0xE40ECF0B, 0x9309FF9D, 0x0A00AE27, 0x7D079EB1, 0xF00F9344, 0x8708A3D2, 0x1E01F268,
     0x6906C2FE, 0xF762575D, 0x806567CB, 0x196C3671, 0x6E6B06E7, 0xFED41B76, 0x89D32BE0,
     0x10DA7A5A, 0x67DD4ACC, 0xF9B9DF6F, 0x8EBEEFF9, 0x17B7BE43, 0x60B08ED5, 0xD6D6A3E8,
     0xA1D1937E, 0x38D8C2C4, 0x4FDFF252, 0xD1BB67F1, 0xA6BC5767, 0x3FB506DD, 0x48B2364B,
     0xD80D2BDA, 0xAF0A1B4C, 0x36034AF6, 0x41047A60, 0xDF60EFC3, 0xA867DF55, 0x316E8EEF,
     0x4669BE79, 0xCB61B38C, 0xBC66831A, 0x256FD2A0, 0x5268E236, 0xCC0C7795, 0xBB0B4703,
     0x220216B9, 0x5505262F, 0xC5BA3BBE, 0xB2BD0B28, 0x2BB45A92, 0x5CB36A04, 0xC2D7FFA7,
     0xB5D0CF31, 0x2CD99E8B, 0x5BDEAE1D, 0x9B64C2B0, 0xEC63F226, 0x756AA39C, 0x026D930A,
     0x9C0906A9, 0xEB0E363F, 0x72076785, 0x05005713, 0x95BF4A82, 0xE2B87A14, 0x7BB12BAE,
     0x0CB61B38, 0x92D28E9B, 0xE5D5BE0D, 0x7CDCEFB7, 0x0BDBDF21, 0x86D3D2D4, 0xF1D4E242,
     0x68DDB3F8, 0x1FDA836E, 0x81BE16CD, 0xF6B9265B, 0x6FB077E1, 0x18B74777, 0x88085AE6,
     0xFF0F6A70, 0x66063BCA, 0x11010B5C, 0x8F659EFF, 0xF862AE69, 0x616BFFD3, 0x166CCF45,
     0xA00AE278, 0xD70DD2EE, 0x4E048354, 0x3903B3C2, 0xA7672661, 0xD06016F7, 0x4969474D,
     0x3E6E77DB, 0xAED16A4A, 0xD9D65ADC, 0x40DF0B66, 0x37D83BF0, 0xA9BCAE53, 0xDEBB9EC5,
     0x47B2CF7F, 0x30B5FFE9, 0xBDBDF21C, 0xCABAC28A, 0x53B39330, 0x24B4A3A6, 0xBAD03605,
     0xCDD70693, 0x54DE5729, 0x23D967BF, 0xB3667A2E, 0xC4614AB8, 0x5D681B02, 0x2A6F2B94,
     0xB40BBE37, 0xC30C8EA1, 0x5A05DF1B, 0x2D02EF8D]"

text \<open>The macros: the checksum so far and the bytes the pointer has not passed.\<close>

definition CRC_DO1 :: "u32 \<times> bytes \<Rightarrow> (u32 \<times> bytes) option" where
  "CRC_DO1 s = (case snd s of [] \<Rightarrow> None
     | b # buf \<Rightarrow> Some (aoh_crc_table ! unat ((fst s XOR ucast b) AND 0xFF) XOR drop_bit 8 (fst s), buf))"

definition CRC_DO2 :: "u32 \<times> bytes \<Rightarrow> (u32 \<times> bytes) option" where
  "CRC_DO2 s = CRC_DO1 s \<bind> CRC_DO1"

definition CRC_DO4 :: "u32 \<times> bytes \<Rightarrow> (u32 \<times> bytes) option" where
  "CRC_DO4 s = CRC_DO2 s \<bind> CRC_DO2"

definition CRC_DO8 :: "u32 \<times> bytes \<Rightarrow> (u32 \<times> bytes) option" where
  "CRC_DO8 s = CRC_DO4 s \<bind> CRC_DO4"

function crc_while8 :: "u32 \<times> bytes \<Rightarrow> int \<Rightarrow> ((u32 \<times> bytes) \<times> int) option" where
  "crc_while8 s nLen =
     (if nLen \<ge> 8 then CRC_DO8 s \<bind> (\<lambda>s. crc_while8 s (nLen - 8)) else Some (s, nLen))"
  by pat_completeness auto
termination by (relation "measure (\<lambda>(s, n). nat n)") auto

function crc_for :: "u32 \<times> bytes \<Rightarrow> int \<Rightarrow> (u32 \<times> bytes) option" where
  "crc_for s nLen = (if nLen > 0 then CRC_DO1 s \<bind> (\<lambda>s. crc_for s (nLen - 1)) else Some s)"
  by pat_completeness auto
termination by (relation "measure (\<lambda>(s, n). nat n)") auto

declare crc_while8.simps [simp del] crc_for.simps [simp del]

definition CalcCrc32 :: "u32 \<Rightarrow> bytes \<Rightarrow> int \<Rightarrow> u32 option" where
  "CalcCrc32 unCrc32 pszBuf nLen =
     crc_while8 (unCrc32 XOR 0xFFFFFFFF, pszBuf) nLen \<bind> (\<lambda>(s, nLen).
     crc_for s nLen \<bind> (\<lambda>s. Some (fst s XOR 0xFFFFFFFF)))"

text \<open>
  \<open>Crc32\<close> takes one character, sign-extended, and shifts that character where the step above
  shifts the checksum.
\<close>

definition Crc32 :: "u32 \<Rightarrow> u8 \<Rightarrow> u32" where
  "Crc32 unCrc c =
     aoh_crc_table ! unat ((scast c XOR unCrc) AND 0xFF) XOR signed_drop_bit 8 (scast c)"

section \<open>SHA-256\<close>

record SHA256_CTX =
  ucData :: bytes
  unDataLen :: u32
  unBitLen0 :: u32
  unBitLen1 :: u32
  unState :: "u32 list"

definition sha_k :: "u32 list" where
  "sha_k =
    [0x428A2F98, 0x71374491, 0xB5C0FBCF, 0xE9B5DBA5, 0x3956C25B, 0x59F111F1, 0x923F82A4,
     0xAB1C5ED5, 0xD807AA98, 0x12835B01, 0x243185BE, 0x550C7DC3, 0x72BE5D74, 0x80DEB1FE,
     0x9BDC06A7, 0xC19BF174, 0xE49B69C1, 0xEFBE4786, 0x0FC19DC6, 0x240CA1CC, 0x2DE92C6F,
     0x4A7484AA, 0x5CB0A9DC, 0x76F988DA, 0x983E5152, 0xA831C66D, 0xB00327C8, 0xBF597FC7,
     0xC6E00BF3, 0xD5A79147, 0x06CA6351, 0x14292967, 0x27B70A85, 0x2E1B2138, 0x4D2C6DFC,
     0x53380D13, 0x650A7354, 0x766A0ABB, 0x81C2C92E, 0x92722C85, 0xA2BFE8A1, 0xA81A664B,
     0xC24B8B70, 0xC76C51A3, 0xD192E819, 0xD6990624, 0xF40E3585, 0x106AA070, 0x19A4C116,
     0x1E376C08, 0x2748774C, 0x34B0BCB5, 0x391C0CB3, 0x4ED8AA4A, 0x5B9CCA4F, 0x682E6FF3,
     0x748F82EE, 0x78A5636F, 0x84C87814, 0x8CC70208, 0x90BEFFFA, 0xA4506CEB, 0xBEF9A3F7,
     0xC67178F2]"

definition DBL_INT_ADD :: "u32 \<Rightarrow> u32 \<Rightarrow> u32 \<Rightarrow> u32 \<times> u32" where
  "DBL_INT_ADD a b c = (a + c, if a > 0xFFFFFFFF - c then b + 1 else b)"

definition ROTRIGHT :: "u32 \<Rightarrow> nat \<Rightarrow> u32" where
  "ROTRIGHT a b = drop_bit b a OR push_bit (32 - b) a"

definition CH :: "u32 \<Rightarrow> u32 \<Rightarrow> u32 \<Rightarrow> u32" where
  "CH x y z = (x AND y) XOR (NOT x AND z)"

definition MAJ :: "u32 \<Rightarrow> u32 \<Rightarrow> u32 \<Rightarrow> u32" where
  "MAJ x y z = (x AND y) XOR (x AND z) XOR (y AND z)"

definition EP0 :: "u32 \<Rightarrow> u32" where
  "EP0 x = ROTRIGHT x 2 XOR ROTRIGHT x 13 XOR ROTRIGHT x 22"

definition EP1 :: "u32 \<Rightarrow> u32" where
  "EP1 x = ROTRIGHT x 6 XOR ROTRIGHT x 11 XOR ROTRIGHT x 25"

definition SIG0 :: "u32 \<Rightarrow> u32" where
  "SIG0 x = ROTRIGHT x 7 XOR ROTRIGHT x 18 XOR drop_bit 3 x"

definition SIG1 :: "u32 \<Rightarrow> u32" where
  "SIG1 x = ROTRIGHT x 17 XOR ROTRIGHT x 19 XOR drop_bit 10 x"

definition Sha256Init :: "SHA256_CTX \<Rightarrow> SHA256_CTX" where
  "Sha256Init pCtx = pCtx\<lparr>unDataLen := 0, unBitLen0 := 0, unBitLen1 := 0,
     unState := [0x6A09E667, 0xBB67AE85, 0x3C6EF372, 0xA54FF53A,
                 0x510E527F, 0x9B05688C, 0x1F83D9AB, 0x5BE0CD19]\<rparr>"

text \<open>
  The schedule \<open>m[64]\<close> is filled from the front, so the list of the words written so far stands
  for it: sixteen words from the block, the rest from earlier ones.
\<close>

definition sha_load :: "bytes \<Rightarrow> u32 list" where
  "sha_load pucData = map (\<lambda>i. push_bit 24 (ucast (pucData ! (4 * i))) OR
     push_bit 16 (ucast (pucData ! (4 * i + 1))) OR push_bit 8 (ucast (pucData ! (4 * i + 2))) OR
     ucast (pucData ! (4 * i + 3))) [0..<16]"

definition sha_extend :: "u32 list \<Rightarrow> nat \<Rightarrow> u32 list" where
  "sha_extend m i = m @ [SIG1 (m ! (i - 2)) + m ! (i - 7) + SIG0 (m ! (i - 15)) + m ! (i - 16)]"

type_synonym sha_regs = "u32 \<times> u32 \<times> u32 \<times> u32 \<times> u32 \<times> u32 \<times> u32 \<times> u32"

definition sha_round :: "u32 list \<Rightarrow> sha_regs \<Rightarrow> nat \<Rightarrow> sha_regs" where
  "sha_round m = (\<lambda>(a, b, c, d, e, f, g, h) i.
     let t1 = h + EP1 e + CH e f g + sha_k ! i + m ! i;
         t2 = EP0 a + MAJ a b c
     in (t1 + t2, a, b, c, d + t1, e, f, g))"

definition Sha256Transform :: "SHA256_CTX \<Rightarrow> bytes \<Rightarrow> SHA256_CTX" where
  "Sha256Transform pCtx pucData =
     (let m = foldl sha_extend (sha_load pucData) [16..<64];
          s = unState pCtx;
          (a, b, c, d, e, f, g, h) = foldl (sha_round m)
             (s ! 0, s ! 1, s ! 2, s ! 3, s ! 4, s ! 5, s ! 6, s ! 7) [0..<64]
      in pCtx\<lparr>unState := [s ! 0 + a, s ! 1 + b, s ! 2 + c, s ! 3 + d,
                          s ! 4 + e, s ! 5 + f, s ! 6 + g, s ! 7 + h]\<rparr>)"

text \<open>One byte of \<open>Sha256Update\<close>; a length outside the block array writes past it.\<close>

definition sha_put :: "SHA256_CTX \<Rightarrow> u8 \<Rightarrow> SHA256_CTX option" where
  "sha_put pCtx b =
     (if unat (unDataLen pCtx) < length (ucData pCtx) then
        let p1 = pCtx\<lparr>ucData := (ucData pCtx)[unat (unDataLen pCtx) := b], unDataLen := unDataLen pCtx + 1\<rparr>
        in if unDataLen p1 = 64 then
             let p2 = Sha256Transform p1 (ucData p1);
                 (lo, hi) = DBL_INT_ADD (unBitLen0 p2) (unBitLen1 p2) 512
             in Some (p2\<lparr>unBitLen0 := lo, unBitLen1 := hi, unDataLen := 0\<rparr>)
           else Some p1
      else None)"

fun sha_update_loop :: "SHA256_CTX \<Rightarrow> bytes \<Rightarrow> nat \<Rightarrow> SHA256_CTX option" where
  "sha_update_loop pCtx pucData 0 = Some pCtx"
| "sha_update_loop pCtx [] (Suc n) = None"
| "sha_update_loop pCtx (b # pucData) (Suc n) =
     sha_put pCtx b \<bind> (\<lambda>p. sha_update_loop p pucData n)"

definition Sha256Update :: "SHA256_CTX \<Rightarrow> bytes \<Rightarrow> int \<Rightarrow> SHA256_CTX option" where
  "Sha256Update pCtx pucData nLen = sha_update_loop pCtx pucData (nat nLen)"

function sha_fill :: "bytes \<Rightarrow> nat \<Rightarrow> nat \<Rightarrow> bytes" where
  "sha_fill buf i lim = (if i < lim then sha_fill (buf[i := 0]) (Suc i) lim else buf)"
  by pat_completeness auto
termination by (relation "measure (\<lambda>(b, i, lim). lim - i)") auto

declare sha_fill.simps [simp del]

definition sha_close :: "SHA256_CTX \<Rightarrow> SHA256_CTX option" where
  "sha_close pCtx =
     (let i = unat (unDataLen pCtx) in
      if unDataLen pCtx < 56 then
        Some (pCtx\<lparr>ucData := sha_fill ((ucData pCtx)[i := 0x80]) (Suc i) 56\<rparr>)
      else if i < length (ucData pCtx) then
        let p1 = pCtx\<lparr>ucData := sha_fill ((ucData pCtx)[i := 0x80]) (Suc i) 64\<rparr>;
            p2 = Sha256Transform p1 (ucData p1)
        in Some (p2\<lparr>ucData := sha_fill (ucData p2) 0 56\<rparr>)
      else None)"

definition sha_length :: "SHA256_CTX \<Rightarrow> SHA256_CTX" where
  "sha_length pCtx =
     (let (lo, hi) = DBL_INT_ADD (unBitLen0 pCtx) (unBitLen1 pCtx) (unDataLen pCtx * 8)
      in pCtx\<lparr>unBitLen0 := lo, unBitLen1 := hi,
        ucData := (ucData pCtx)[63 := ucast lo, 62 := ucast (drop_bit 8 lo),
          61 := ucast (drop_bit 16 lo), 60 := ucast (drop_bit 24 lo),
          59 := ucast hi, 58 := ucast (drop_bit 8 hi),
          57 := ucast (drop_bit 16 hi), 56 := ucast (drop_bit 24 hi)]\<rparr>)"

definition sha_output :: "u32 list \<Rightarrow> bytes \<Rightarrow> bytes" where
  "sha_output st pucHash =
     foldl (\<lambda>h i. foldl (\<lambda>h j. h[i + 4 * j := ucast (drop_bit (24 - i * 8) (st ! j) AND 0xFF)]) h [0..<8])
       pucHash [0..<4]"

definition Sha256Final :: "SHA256_CTX \<Rightarrow> bytes \<Rightarrow> (SHA256_CTX \<times> bytes) option" where
  "Sha256Final pCtx pucHash =
     sha_close pCtx \<bind> (\<lambda>p.
     let p1 = sha_length p; p2 = Sha256Transform p1 (ucData p1)
     in Some (p2, sha_output (unState p2) pucHash))"

text \<open>\<open>CalcSha256\<close> appends two lower-case digits per byte to the string in the caller's buffer.\<close>

definition strcat :: "bytes \<Rightarrow> bytes \<Rightarrow> bytes option" where
  "strcat dst s = strlen dst \<bind> (\<lambda>n. blit dst n (cstr s) (Suc (length s)))"

definition hex_lower :: "nat \<Rightarrow> u8" where
  "hex_lower n = (if n < 10 then 48 + of_nat n else 87 + of_nat n)"

definition fmt_02x :: "u8 \<Rightarrow> bytes" where
  "fmt_02x b = [hex_lower (unat b div 16), hex_lower (unat b mod 16)]"

fun sha_print :: "bytes \<Rightarrow> bytes \<Rightarrow> bytes option" where
  "sha_print [] dst = Some dst"
| "sha_print (b # hash) dst = strcat dst (fmt_02x b) \<bind> sha_print hash"

text \<open>\<open>ctx0\<close> and \<open>hash0\<close> are the uninitialised locals of the routine.\<close>

definition CalcSha256 :: "SHA256_CTX \<Rightarrow> bytes \<Rightarrow> bytes \<Rightarrow> int \<Rightarrow> bytes \<Rightarrow> bytes option" where
  "CalcSha256 ctx0 hash0 pszData nDataLen pszSha256 =
     Sha256Update (Sha256Init ctx0) pszData nDataLen \<bind> (\<lambda>ctx.
     Sha256Final ctx hash0 \<bind> (\<lambda>(ctx, ucHash). sha_print ucHash pszSha256))"

lemma list8_ex: "length s = 8 \<Longrightarrow> \<exists>a b c d e f g h. s = [a, b, c, d, e, f, g, h]"
  by (auto simp: numeral_eq_Suc length_Suc_conv)

section \<open>The checksums\<close>

lemma crc8_loop_eq:
  "n \<le> l \<Longrightarrow> l \<le> length d \<Longrightarrow> crc8_loop d n l c = Some (foldl (XOR) c (drop n (take l d)))"
proof (induction d n l c rule: crc8_loop.induct)
  case (1 d n l c)
  then show ?case
    by (subst crc8_loop.simps) (auto simp: Cons_nth_drop_Suc [symmetric])
qed

lemma CalcCrc8_xor:
  "0 < unat n \<Longrightarrow> unat n \<le> length d \<Longrightarrow> CalcCrc8 d n = Some (foldl (XOR) 0 (take (unat n) d))"
  by (cases d; cases "unat n") (auto simp: CalcCrc8_def crc8_loop_eq)

lemma aoh_crc_table_eq: "aoh_crc_table = crc_table0"
  by (simp add: aoh_crc_table_def crc_table0_def)

lemma CRC_DO1_eq: "CRC_DO1 (c, b # buf) = Some (crc_do1 c b, buf)"
  by (simp add: CRC_DO1_def crc_do1_def aoh_crc_table_eq)

lemma CRC_DO8_eq: "8 \<le> length buf \<Longrightarrow> CRC_DO8 (c, buf) = Some (foldl crc_do1 c (take 8 buf), drop 8 buf)"
proof -
  assume l: "8 \<le> length buf"
  then have "length (take 8 buf) = 8" by simp
  then obtain a0 a1 a2 a3 a4 a5 a6 a7 where t: "take 8 buf = [a0, a1, a2, a3, a4, a5, a6, a7]"
    using list8_ex by blast
  then have "buf = [a0, a1, a2, a3, a4, a5, a6, a7] @ drop 8 buf" by (metis append_take_drop_id)
  then obtain r where "buf = [a0, a1, a2, a3, a4, a5, a6, a7] @ r" by blast
  then show ?thesis by (simp add: CRC_DO8_def CRC_DO4_def CRC_DO2_def CRC_DO1_eq)
qed

lemma crc_while8_eq:
  "0 \<le> n \<Longrightarrow> nat n \<le> length buf \<Longrightarrow>
     crc_while8 (c, buf) n =
     Some ((foldl crc_do1 c (take (nat n div 8 * 8) buf), drop (nat n div 8 * 8) buf), n mod 8)"
proof (induction "nat n div 8" arbitrary: n c buf)
  case 0
  then have "\<not> 8 \<le> n" by linarith
  moreover from this 0 have "n mod 8 = n" by simp
  ultimately show ?case using 0 by (subst crc_while8.simps) simp
next
  case (Suc q)
  then have n: "8 \<le> n" by linarith
  define n' where "n' = n - 8"
  have n': "n = n' + 8" "nat n = nat n' + 8" "0 \<le> n'" using n by (simp_all add: n'_def)
  have ih: "crc_while8 (foldl crc_do1 c (take 8 buf), drop 8 buf) n' =
      Some ((foldl crc_do1 (foldl crc_do1 c (take 8 buf)) (take (nat n' div 8 * 8) (drop 8 buf)),
        drop (nat n' div 8 * 8) (drop 8 buf)), n' mod 8)"
    by (rule Suc.hyps(1)) (use Suc n' in auto)
  have "take (nat n div 8 * 8) buf = take 8 buf @ take (nat n' div 8 * 8) (drop 8 buf)"
    unfolding n'(2) by (simp add: take_add [symmetric] div_add_self2)
  moreover have "drop (nat n div 8 * 8) buf = drop (nat n' div 8 * 8) (drop 8 buf)"
    unfolding n'(2) by (simp add: div_add_self2 add.commute)
  ultimately show ?case using n ih Suc.prems n'
    by (subst crc_while8.simps) (simp add: CRC_DO8_eq n'_def [symmetric])
qed

lemma crc_for_eq:
  "n \<le> length buf \<Longrightarrow> crc_for (c, buf) (int n) = Some (foldl crc_do1 c (take n buf), drop n buf)"
proof (induction n arbitrary: c buf)
  case (Suc n)
  then show ?case by (cases buf) (simp_all add: crc_for.simps [of "(c, _)"] CRC_DO1_eq)
qed (simp add: crc_for.simps)

lemma CalcCrc32_zlib:
  assumes "n \<le> length buf"
  shows "CalcCrc32 c buf (int n) = Some (crc32_bytewise c (take n buf))"
proof -
  define m where "m = n div 8 * 8"
  have "crc_for (foldl crc_do1 (c XOR 0xFFFFFFFF) (take m buf), drop m buf) (int (n mod 8)) =
      Some (foldl crc_do1 (c XOR 0xFFFFFFFF) (take n buf), drop n buf)"
  proof -
    have nm: "n = m + n mod 8" by (simp add: m_def)
    have nm2: "n mod 8 \<le> length (drop m buf)"
      unfolding length_drop using assms nm by linarith
    have "take n buf = take m buf @ take (n mod 8) (drop m buf)"
      by (metis nm take_add)
    moreover have "drop (n mod 8) (drop m buf) = drop n buf" by (metis nm add.commute drop_drop)
    ultimately show ?thesis using crc_for_eq [OF nm2] by simp
  qed
  then show ?thesis
    using assms crc_while8_eq [of "int n" buf "c XOR 0xFFFFFFFF"]
    by (simp add: CalcCrc32_def crc32_bytewise_def do8_upd foldl_do1 m_def [symmetric] of_nat_mod)
qed

section \<open>The digest of the standard\<close>

text \<open>
  FIPS 180-4. The constants are the first 32 bits of the fractional parts of the cube roots of
  the first 64 primes and of the square roots of the first 8; \<open>iroot\<close> finds the integer root bit
  by bit.
\<close>

fun root_bits :: "nat \<Rightarrow> int \<Rightarrow> nat \<Rightarrow> int \<Rightarrow> int" where
  "root_bits e n 0 r = r"
| "root_bits e n (Suc b) r = root_bits e n b (if (r + 2 ^ b) ^ e \<le> n then r + 2 ^ b else r)"

definition iroot :: "nat \<Rightarrow> int \<Rightarrow> int" where
  "iroot e n = root_bits e n 38 0"

definition first_primes :: "int list" where
  "first_primes = [2, 3, 5, 7, 11, 13, 17, 19, 23, 29, 31, 37, 41, 43, 47, 53, 59, 61, 67,
     71, 73, 79, 83, 89, 97, 101, 103, 107, 109, 113, 127, 131, 137, 139, 149, 151, 157, 163, 167, 173,
     179, 181, 191, 193, 197, 199, 211, 223, 227, 229, 233, 239, 241, 251, 257, 263, 269, 271, 277, 281,
     283, 293, 307, 311]"

definition fips_K :: "u32 list" where
  "fips_K = map (\<lambda>p. word_of_int (iroot 3 (p * 2 ^ 96))) first_primes"

definition fips_H0 :: "u32 list" where
  "fips_H0 = map (\<lambda>p. word_of_int (iroot 2 (p * 2 ^ 64))) (take 8 first_primes)"

definition Sigma0 :: "u32 \<Rightarrow> u32" where
  "Sigma0 x = word_rotr 2 x XOR word_rotr 13 x XOR word_rotr 22 x"

definition Sigma1 :: "u32 \<Rightarrow> u32" where
  "Sigma1 x = word_rotr 6 x XOR word_rotr 11 x XOR word_rotr 25 x"

definition sigma0 :: "u32 \<Rightarrow> u32" where
  "sigma0 x = word_rotr 7 x XOR word_rotr 18 x XOR drop_bit 3 x"

definition sigma1 :: "u32 \<Rightarrow> u32" where
  "sigma1 x = word_rotr 17 x XOR word_rotr 19 x XOR drop_bit 10 x"

definition be_word :: "bytes \<Rightarrow> u32" where
  "be_word b = of_nat (foldl (\<lambda>n x. 256 * n + unat x) 0 b)"

definition be_bytes :: "nat \<Rightarrow> nat \<Rightarrow> bytes" where
  "be_bytes k n = map (\<lambda>i. of_nat (n div 256 ^ (k - Suc i))) [0..<k]"

text \<open>The message schedule as a recursive function, and the compression of one block.\<close>

fun fips_W :: "bytes \<Rightarrow> nat \<Rightarrow> u32" where
  "fips_W M t =
     (if t < 16 then be_word (take 4 (drop (4 * t) M))
      else sigma1 (fips_W M (t - 2)) + fips_W M (t - 7) + sigma0 (fips_W M (t - 15)) + fips_W M (t - 16))"

declare fips_W.simps [simp del]

definition fips_round :: "bytes \<Rightarrow> u32 list \<Rightarrow> nat \<Rightarrow> u32 list" where
  "fips_round M v t =
     (let T1 = v ! 7 + Sigma1 (v ! 4) + ((v ! 4 AND v ! 5) XOR (NOT (v ! 4) AND v ! 6)) +
               fips_K ! t + fips_W M t;
          T2 = Sigma0 (v ! 0) + ((v ! 0 AND v ! 1) XOR (v ! 0 AND v ! 2) XOR (v ! 1 AND v ! 2))
      in [T1 + T2, v ! 0, v ! 1, v ! 2, v ! 3 + T1, v ! 4, v ! 5, v ! 6])"

definition fips_block :: "u32 list \<Rightarrow> bytes \<Rightarrow> u32 list" where
  "fips_block H M = map2 (+) H (foldl (fips_round M) H [0..<64])"

function fips_parse :: "bytes \<Rightarrow> bytes list" where
  "fips_parse m = (if length m < 64 then [] else take 64 m # fips_parse (drop 64 m))"
  by pat_completeness auto
termination by (relation "measure length") auto

declare fips_parse.simps [simp del]

definition fips_pad :: "bytes \<Rightarrow> bytes" where
  "fips_pad m = m @ 0x80 # replicate ((119 - length m mod 64) mod 64) 0 @ be_bytes 8 (8 * length m)"

definition sha256 :: "bytes \<Rightarrow> bytes" where
  "sha256 m = concat (map (be_bytes 4 \<circ> unat) (foldl fips_block fips_H0 (fips_parse (fips_pad m))))"


section \<open>The code computes it\<close>

lemma root_bits_bracket:
  assumes "0 \<le> r" "r ^ e \<le> n" "n < (r + 2 ^ b) ^ e"
  shows "r \<le> root_bits e n b r \<and> root_bits e n b r ^ e \<le> n \<and> n < (root_bits e n b r + 1) ^ e"
  using assms
proof (induction b arbitrary: r)
  case 0
  then show ?case by simp
next
  case (Suc b)
  show ?case
  proof (cases "(r + 2 ^ b) ^ e \<le> n")
    case True
    have d: "r + 2 ^ b + 2 ^ b = r + 2 ^ Suc b" by simp
    have p: "0 \<le> r + 2 ^ b" "r \<le> r + 2 ^ b" using Suc.prems(1) by simp_all
    have "n < (r + 2 ^ b + 2 ^ b) ^ e" unfolding d by (rule Suc.prems(3))
    from Suc.IH [OF p(1) True this] p(2) show ?thesis using True by (simp, linarith)
  next
    case False
    then have "n < (r + 2 ^ b) ^ e" by simp
    from Suc.IH [OF Suc.prems(1,2) this] False show ?thesis by simp
  qed
qed

lemma root_unique:
  assumes e: "0 < e" and x: "0 \<le> x" "x ^ e \<le> n" "n < (x + 1) ^ e"
    and y: "0 \<le> y" "y ^ e \<le> n" "n < (y + 1) ^ e"
  shows "x = (y :: int)"
proof -
  have "x ^ e < (y + 1) ^ e" "y ^ e < (x + 1) ^ e" using x y by linarith+
  then have "x < y + 1" "y < x + 1"
    using x(1) y(1) power_less_imp_less_base [of x e "y + 1"] power_less_imp_less_base [of y e "x + 1"]
    by simp_all
  then show ?thesis by simp
qed

lemma iroot_eq:
  assumes e: "0 < e" and r: "0 \<le> r" "r ^ e \<le> n" "n < (r + 1) ^ e" "r < 2 ^ 38"
  shows "iroot e n = r"
proof -
  have z: "(0 :: int) ^ e \<le> n" using e r(1,2) by (metis order_trans zero_le_power zero_power)
  have "(r + 1) ^ e \<le> (2 ^ 38) ^ e" using r(1,4) by (intro power_mono) auto
  then have u: "n < (0 + 2 ^ 38) ^ e" using r(3) by simp
  show ?thesis unfolding iroot_def
    using root_bits_bracket [of 0 e n 38, OF _ z u] r
    by (intro root_unique [OF e, where n = n]; simp)
qed

lemma sha_h_eq: "fips_H0 = [0x6A09E667, 0xBB67AE85, 0x3C6EF372, 0xA54FF53A,
                 0x510E527F, 0x9B05688C, 0x1F83D9AB, 0x5BE0CD19]"
proof -
  have "map (\<lambda>p. iroot 2 (p * 2 ^ 64)) (take 8 first_primes) = [6074000999, 7439101573, 9603838834, 11363415354, 14244795007, 15485724812,
      17708603819, 18721328409]"
    by (simp add: first_primes_def, intro conjI; rule iroot_eq; simp)
  then have "map word_of_int (map (\<lambda>p. iroot 2 (p * 2 ^ 64)) (take 8 first_primes)) = (map word_of_int [6074000999, 7439101573, 9603838834, 11363415354, 14244795007, 15485724812,
      17708603819, 18721328409] :: u32 list)"
    by simp
  then show ?thesis by (simp add: fips_H0_def comp_def del: take_Suc_Cons)
qed

lemma sha_k_eq: "sha_k = fips_K"
proof -
  have "map (\<lambda>p. iroot 3 (p * 2 ^ 96)) first_primes = [5411319704, 6194414737, 7344290767, 8215976869, 9551921755, 10098905585,
      11043570340, 11460697813, 12214315672, 13195500289, 13492127166, 14311783875,
      14809980276, 15046980094, 15499789991, 16133124468, 16720292289, 16907126662,
      17444216262, 17784676812, 17950125167, 18429019306, 18734950876, 19175934170,
      19734090066, 20001703533, 20132865992, 20390182855, 20516441075, 20764397895,
      21588763473, 21813078375, 22141143685, 22248366392, 22769593852, 22871018771,
      23170020180, 23461497531, 23651862830, 23931792517, 24205322401, 24295138891,
      24734567280, 24820601251, 24990902297, 25075189284, 25569408389, 26045227120,
      26200031510, 26276752392, 26428864332, 26653801653, 26727943347, 27092625994,
      27306805839, 27517677555, 27725365998, 27793908591, 27997534228, 28131656200,
      28198240250, 28526537963, 28973835255, 29099129074]"
    by (simp add: first_primes_def, intro conjI; rule iroot_eq; simp)
  then have "map word_of_int (map (\<lambda>p. iroot 3 (p * 2 ^ 96)) first_primes) = (map word_of_int [5411319704, 6194414737, 7344290767, 8215976869, 9551921755, 10098905585,
      11043570340, 11460697813, 12214315672, 13195500289, 13492127166, 14311783875,
      14809980276, 15046980094, 15499789991, 16133124468, 16720292289, 16907126662,
      17444216262, 17784676812, 17950125167, 18429019306, 18734950876, 19175934170,
      19734090066, 20001703533, 20132865992, 20390182855, 20516441075, 20764397895,
      21588763473, 21813078375, 22141143685, 22248366392, 22769593852, 22871018771,
      23170020180, 23461497531, 23651862830, 23931792517, 24205322401, 24295138891,
      24734567280, 24820601251, 24990902297, 25075189284, 25569408389, 26045227120,
      26200031510, 26276752392, 26428864332, 26653801653, 26727943347, 27092625994,
      27306805839, 27517677555, 27725365998, 27793908591, 27997534228, 28131656200,
      28198240250, 28526537963, 28973835255, 29099129074] :: u32 list)"
    by simp
  then show ?thesis by (simp add: fips_K_def sha_k_def comp_def)
qed
lemma rotr_eq: "0 < n \<Longrightarrow> n < 32 \<Longrightarrow> ROTRIGHT w n = word_rotr n w"
  unfolding ROTRIGHT_def
  apply (rule bit_word_eqI)
  subgoal for m
    by (cases "m + n < 32") (auto simp: bit_simps bit_word_rotr_iff mod_nat_eqI less_diff_conv not_less add.commute le_mod_geq dest: bit_imp_le_length)
  done

lemma sigmas: "EP0 = Sigma0" "EP1 = Sigma1" "SIG0 = sigma0" "SIG1 = sigma1"
  by (simp_all add: fun_eq_iff EP0_def EP1_def SIG0_def SIG1_def Sigma0_def Sigma1_def
      sigma0_def sigma1_def rotr_eq)

lemma be_word4: "be_word [a, b, c, d] =
    push_bit 24 (ucast a) OR push_bit 16 (ucast b) OR push_bit 8 (ucast c) OR ucast d"
proof -
  have u: "of_nat (unat x) = (ucast x :: u32)" for x :: u8 by simp
  have "be_word [a, b, c, d] = 
    push_bit 24 (ucast a) + (push_bit 16 (ucast b) + (push_bit 8 (ucast c) + ucast d))"
    by (simp add: be_word_def push_bit_eq_mult u algebra_simps)
  also have "push_bit 8 (ucast c) + ucast d = (push_bit 8 (ucast c) OR ucast d :: u32)"
    by (rule disjunctive_add) (auto simp: bit_simps dest!: bit_imp_le_length)
  also have "push_bit 16 (ucast b) + (push_bit 8 (ucast c) OR ucast d) = (push_bit 16 (ucast b) OR push_bit 8 (ucast c) OR ucast d :: u32)"
    by (rule disjunctive_add) (auto simp: bit_simps dest!: bit_imp_le_length)
  also have "push_bit 24 (ucast a) + (push_bit 16 (ucast b) OR push_bit 8 (ucast c) OR ucast d) = (push_bit 24 (ucast a) OR push_bit 16 (ucast b) OR push_bit 8 (ucast c) OR ucast d :: u32)"
    by (rule disjunctive_add) (auto simp: bit_simps dest!: bit_imp_le_length)
  finally show ?thesis .
qed

lemma take4_drop: "4 * t + 4 \<le> length M \<Longrightarrow>
    take 4 (drop (4 * t) M) = [M ! (4 * t), M ! (4 * t + 1), M ! (4 * t + 2), M ! (4 * t + 3)]"
  by (rule nth_equalityI) (auto simp: nth_Cons' numeral_eq_Suc less_Suc_eq)

lemma sha_load_W: "length M = 64 \<Longrightarrow> sha_load M = map (fips_W M) [0..<16]"
  unfolding sha_load_def by (rule map_cong) (auto simp: fips_W.simps take4_drop be_word4)

lemma schedule_W:
  assumes M: "length M = 64"
  shows "16 \<le> n \<Longrightarrow> foldl sha_extend (sha_load M) [16..<n] = map (fips_W M) [0..<n]"
proof (induction n)
  case (Suc n)
  show ?case
  proof (cases "n = 15")
    case True
    with M show ?thesis by (simp add: sha_load_W)
  next
    case False
    with Suc have ih: "foldl sha_extend (sha_load M) [16..<n] = map (fips_W M) [0..<n]" and n: "16 \<le> n"
      by auto
    have "fips_W M n = sigma1 (fips_W M (n - 2)) + fips_W M (n - 7) + sigma0 (fips_W M (n - 15)) + fips_W M (n - 16)"
      using n by (subst fips_W.simps) simp
    then have "sha_extend (map (fips_W M) [0..<n]) n = map (fips_W M) [0..<Suc n]"
      using n by (simp add: sha_extend_def sigmas)
    then show ?thesis using ih n by (simp del: upt_Suc add: upt_Suc_append [of 16 n])
  qed
qed simp

definition regs_list :: "sha_regs \<Rightarrow> u32 list" where
  "regs_list = (\<lambda>(a, b, c, d, e, f, g, h). [a, b, c, d, e, f, g, h])"

lemma round_eq:
  assumes t: "t < length m" "m ! t = fips_W M t"
  shows "regs_list (sha_round m r t) = fips_round M (regs_list r) t"
proof -
  obtain a b c d e f g h where r: "r = (a, b, c, d, e, f, g, h)" by (metis surj_pair)
  show ?thesis using t unfolding r
    by (simp add: sha_round_def fips_round_def regs_list_def Let_def sigmas sha_k_eq CH_def MAJ_def)
qed

lemma rounds_eq:
  "n \<le> 64 \<Longrightarrow> regs_list (foldl (sha_round (map (fips_W M) [0..<64])) r [0..<n]) =
     foldl (fips_round M) (regs_list r) [0..<n]"
  by (induction n) (simp_all add: round_eq)

lemma list8: "length s = 8 \<Longrightarrow> s = [s ! 0, s ! 1, s ! 2, s ! 3, s ! 4, s ! 5, s ! 6, s ! 7]"
  by (rule nth_equalityI) (auto simp: nth_Cons' numeral_eq_Suc less_Suc_eq)

lemma transform_eq:
  assumes "length M = 64" "length (unState p) = 8"
  shows "Sha256Transform p M = p\<lparr>unState := fips_block (unState p) M\<rparr>"
proof -
  define s where "s = unState p"
  have s: "regs_list (s ! 0, s ! 1, s ! 2, s ! 3, s ! 4, s ! 5, s ! 6, s ! 7) = s"
    using list8 [of s] assms(2) by (simp add: s_def regs_list_def)
  obtain a b c d e f g h where r: "foldl (sha_round (map (fips_W M) [0..<64]))
      (s ! 0, s ! 1, s ! 2, s ! 3, s ! 4, s ! 5, s ! 6, s ! 7) [0..<64] = (a, b, c, d, e, f, g, h)"
    by (metis surj_pair)
  from rounds_eq [of 64 M "(s ! 0, s ! 1, s ! 2, s ! 3, s ! 4, s ! 5, s ! 6, s ! 7)"] r
  have "foldl (fips_round M) s [0..<64] = [a, b, c, d, e, f, g, h]"
    unfolding s by (simp add: regs_list_def del: upt_Suc)
  then have "fips_block s M = [s ! 0 + a, s ! 1 + b, s ! 2 + c, s ! 3 + d, s ! 4 + e, s ! 5 + f, s ! 6 + g, s ! 7 + h]"
    unfolding fips_block_def by (subst (1) list8) (simp_all add: s_def assms(2))
  moreover have "foldl sha_extend (sha_load M) [16..<64] = map (fips_W M) [0..<64]"
    by (rule schedule_W [OF assms(1)]) simp
  ultimately show ?thesis
    unfolding Sha256Transform_def Let_def s_def [symmetric] by (simp only: r split_conv)
qed

lemma length_fips_rounds: "length v = 8 \<Longrightarrow> length (foldl (fips_round M) v ts) = 8"
  by (induction ts arbitrary: v) (simp_all add: fips_round_def Let_def)

lemma length_fips_state: "length H = 8 \<Longrightarrow> length (foldl fips_block H bs) = 8"
  by (induction bs arbitrary: H) (simp_all add: fips_block_def length_fips_rounds del: upt_Suc upt_rec_numeral)

lemma parse_append: "length a = 64 * q \<Longrightarrow> fips_parse (a @ b) = fips_parse a @ fips_parse b"
proof (induction q arbitrary: a)
  case 0
  then show ?case by (simp add: fips_parse.simps [of "[]"])
next
  case (Suc q)
  then have "fips_parse (drop 64 a @ b) = fips_parse (drop 64 a) @ fips_parse b" by simp
  with Suc.prems show ?case by (simp add: fips_parse.simps [of a] fips_parse.simps [of "a @ b"])
qed

lemma parse_short: "length r < 64 \<Longrightarrow> fips_parse r = []"
  by (simp add: fips_parse.simps)

lemma parse_one: "length r = 64 \<Longrightarrow> fips_parse r = [r]"
  by (simp add: fips_parse.simps [of r] parse_short)

lemma DBL_INT_ADD_sum:
  assumes "unat b * 2 ^ 32 + unat a + unat c < 2 ^ 64"
  shows "case DBL_INT_ADD a b c of (lo, hi) \<Rightarrow> unat hi * 2 ^ 32 + unat lo = unat b * 2 ^ 32 + unat a + unat c"
proof -
  have w: "a > 0xFFFFFFFF - c \<longleftrightarrow> 2 ^ 32 \<le> unat a + unat c"
  proof -
    have "(0xFFFFFFFF :: u32) = - 1" by simp
    then have "c \<le> 0xFFFFFFFF" by (metis word_n1_ge)
    then have "unat (0xFFFFFFFF - c) = 2 ^ 32 - 1 - unat c" by (simp add: unat_minus_no_wrap word_le_nat_alt)
    then show ?thesis using unat_lt [of c] by (auto simp: word_less_nat_alt)
  qed
  show ?thesis
  proof (cases "2 ^ 32 \<le> unat a + unat c")
    case True
    then have "unat (a + c) = unat a + unat c - 2 ^ 32"
      using unat_lt [of a] unat_lt [of c] by (simp add: unat_word_ariths mod_if [of "unat a + unat c"])
    moreover have "unat (b + 1) = unat b + 1"
      using assms True by (intro unat_plus_no_wrap [THEN trans]) auto
    ultimately show ?thesis using True w by (simp add: DBL_INT_ADD_def)
  next
    case False
    then have "unat (a + c) = unat a + unat c" by (intro unat_plus_no_wrap) simp
    then show ?thesis using False w by (simp add: DBL_INT_ADD_def)
  qed
qed

definition sha_inv :: "bytes \<Rightarrow> SHA256_CTX \<Rightarrow> bool" where
  "sha_inv m c \<longleftrightarrow> (\<exists>q a r. m = a @ r \<and> length a = 64 * q \<and> length r < 64 \<and>
     length (ucData c) = 64 \<and> unDataLen c = of_nat (length r) \<and> take (length r) (ucData c) = r \<and>
     unat (unBitLen1 c) * 2 ^ 32 + unat (unBitLen0 c) = 512 * q \<and>
     unState c = foldl fips_block fips_H0 (fips_parse a))"

lemma length_H0: "length fips_H0 = 8"
  by (simp add: fips_H0_def first_primes_def)

lemma sha_inv_init: "length (ucData c) = 64 \<Longrightarrow> sha_inv [] (Sha256Init c)"
  by (simp add: sha_inv_def Sha256Init_def sha_h_eq fips_parse.simps [of "[]"])

lemma sha_inv_put:
  assumes inv: "sha_inv m c" and n: "length m < 2 ^ 32"
  shows "\<exists>c'. sha_put c b = Some c' \<and> sha_inv (m @ [b]) c'"
proof -
  obtain q a r where m: "m = a @ r" "length a = 64 * q" and r: "length r < 64"
    and d: "length (ucData c) = 64" "unDataLen c = of_nat (length r)" "take (length r) (ucData c) = r"
    and bits: "unat (unBitLen1 c) * 2 ^ 32 + unat (unBitLen0 c) = 512 * q"
    and st: "unState c = foldl fips_block fips_H0 (fips_parse a)"
    using inv unfolding sha_inv_def by blast
  define p1 where "p1 = c\<lparr>ucData := (ucData c)[length r := b], unDataLen := unDataLen c + 1\<rparr>"
  have u: "unat (unDataLen c) = length r" using d r by (simp add: unat_of_nat)
  have put: "sha_put c b = (if unDataLen p1 = 64 then
      let p2 = Sha256Transform p1 (ucData p1); (lo, hi) = DBL_INT_ADD (unBitLen0 p2) (unBitLen1 p2) 512
      in Some (p2\<lparr>unBitLen0 := lo, unBitLen1 := hi, unDataLen := 0\<rparr>) else Some p1)"
    unfolding sha_put_def u p1_def Let_def using d(1) r by (simp only: if_True simp_thms)
  have t1: "take (Suc (length r)) (ucData p1) = r @ [b]"
    using d r by (simp add: p1_def take_Suc_conv_app_nth)
  have p1: "length (ucData p1) = 64" "unDataLen p1 = of_nat (Suc (length r))"
    "unBitLen0 p1 = unBitLen0 c" "unBitLen1 p1 = unBitLen1 c" "unState p1 = unState c"
    using d by (simp_all add: p1_def)
  show ?thesis
  proof (cases "length r = 63")
    case False
    with r have r': "length (r @ [b]) < 64" by simp
    have "unat (unDataLen p1) = Suc (length r)" using r' unfolding p1(2) by (subst unat_of_nat) simp
    then have "unDataLen p1 \<noteq> 64" using r' by auto
    then have "sha_put c b = Some p1" unfolding put by simp
    moreover have "sha_inv (m @ [b]) p1"
      unfolding sha_inv_def using m r' p1 t1 bits st
      by (intro exI [of _ q] exI [of _ a] exI [of _ "r @ [b]"]) simp
    ultimately show ?thesis by blast
  next
    case True
    define p2 where "p2 = p1\<lparr>unState := fips_block (unState p1) (r @ [b])\<rparr>"
    have blk: "ucData p1 = r @ [b]" using t1 True p1 by simp
    have "Sha256Transform p1 (ucData p1) = p2"
      using blk True p1 st by (simp add: p2_def transform_eq length_fips_state length_H0)
    moreover have "unDataLen p1 = 64" using p1 True by simp
    moreover obtain lo hi where lh: "DBL_INT_ADD (unBitLen0 c) (unBitLen1 c) 512 = (lo, hi)"
      by (metis surj_pair)
    ultimately have "sha_put c b = Some (p2\<lparr>unBitLen0 := lo, unBitLen1 := hi, unDataLen := 0\<rparr>)"
      unfolding put using p1 by (simp add: p2_def)
    moreover have "unat hi * 2 ^ 32 + unat lo = 512 * Suc q"
      using DBL_INT_ADD_sum [of "unBitLen1 c" "unBitLen0 c" 512] lh bits n m by simp
    moreover have "fips_parse (m @ [b]) = fips_parse a @ [r @ [b]]"
      using m True by (simp add: parse_append parse_one)
    moreover have "sha_inv (m @ [b]) (p2\<lparr>unBitLen0 := lo, unBitLen1 := hi, unDataLen := 0\<rparr>)"
      if "unat hi * 2 ^ 32 + unat lo = 512 * Suc q" "fips_parse (m @ [b]) = fips_parse a @ [r @ [b]]"
      unfolding sha_inv_def using m True p1 st that
      by (intro exI [of _ "Suc q"] exI [of _ "m @ [b]"] exI [of _ "[]"]) (simp add: p2_def)
    ultimately show ?thesis by blast
  qed
qed

lemma sha_inv_update:
  "sha_inv m c \<Longrightarrow> length m + length data < 2 ^ 32 \<Longrightarrow>
     \<exists>c'. sha_update_loop c data (length data) = Some c' \<and> sha_inv (m @ data) c'"
proof (induction data arbitrary: m c)
  case (Cons b data)
  then obtain c1 where "sha_put c b = Some c1" "sha_inv (m @ [b]) c1" using sha_inv_put [of m c b] by auto
  with Cons.IH [of "m @ [b]" c1] Cons.prems show ?case by simp
qed simp

lemma sha_fill_eq:
  "i \<le> lim \<Longrightarrow> lim \<le> length buf \<Longrightarrow>
     sha_fill buf i lim = take i buf @ replicate (lim - i) 0 @ drop lim buf"
proof (induction buf i lim rule: sha_fill.induct)
  case (1 buf i lim)
  show ?case
  proof (cases "i < lim")
    case True
    have "sha_fill buf i lim = take (Suc i) (buf[i := 0]) @ replicate (lim - Suc i) 0 @ drop lim (buf[i := 0])"
      using 1 True by (subst sha_fill.simps) simp
    moreover have "take (Suc i) (buf[i := 0]) = take i buf @ [0]"
      using 1 True by (simp add: take_Suc_conv_app_nth)
    moreover have "replicate (lim - i) (0 :: u8) = 0 # replicate (lim - Suc i) 0"
      using True by (metis Suc_diff_Suc replicate_Suc)
    ultimately show ?thesis using True by simp
  next
    case False
    with 1 show ?thesis by (simp add: sha_fill.simps)
  qed
qed

lemma fill_after:
  assumes r: "take (length r) buf = r" and l: "length r < lim" "lim \<le> length buf"
  shows "sha_fill (buf[length r := x]) (Suc (length r)) lim =
     r @ x # replicate (lim - Suc (length r)) 0 @ drop lim buf"
proof -
  have "take (Suc (length r)) (buf[length r := x]) = r @ [x]"
    using l r by (simp add: take_Suc_conv_app_nth)
  then show ?thesis using l by (simp add: sha_fill_eq)
qed

lemma byte_of_low: "k \<le> 24 \<Longrightarrow> (of_nat (n div 2 ^ k) :: u8) = ucast (drop_bit k (of_nat n :: u32))"
  by (rule bit_word_eqI) (auto simp: drop_bit_eq_div [symmetric] bit_simps)

lemma be_bytes8:
  fixes hi lo :: u32
  assumes "unat hi * 2 ^ 32 + unat lo = n"
  shows "be_bytes 8 n = [ucast (drop_bit 24 hi), ucast (drop_bit 16 hi), ucast (drop_bit 8 hi), ucast hi,
    ucast (drop_bit 24 lo), ucast (drop_bit 16 lo), ucast (drop_bit 8 lo), ucast lo]"
proof -
  have hi: "hi = of_nat (n div 2 ^ 32)" using assms unat_lt [of lo] by (simp flip: assms)
  have "(of_nat n :: u32) = of_nat (unat hi) * of_nat (2 ^ 32) + of_nat (unat lo)"
    unfolding assms [symmetric] by (simp only: of_nat_add of_nat_mult)
  moreover have "(of_nat (2 ^ 32) :: u32) = 0" by simp
  ultimately have lo: "lo = of_nat n" by (simp only: mult_zero_right add_0_left) simp
  have p: "n div 256 ^ (8 - Suc i) = (if i < 4 then n div 2 ^ 32 div 2 ^ (24 - 8 * i) else n div 2 ^ (56 - 8 * i))"
    if "i < 8" for i
  proof -
    have "(256 :: nat) ^ (8 - Suc i) = 2 ^ (8 * (8 - Suc i))" by (simp add: power_mult)
    also have "8 * (8 - Suc i) = 56 - 8 * i" by simp
    finally have e: "(256 :: nat) ^ (8 - Suc i) = 2 ^ (56 - 8 * i)" .
    show ?thesis
    proof (cases "i < 4")
      case True
      then have "(2 :: nat) ^ (56 - 8 * i) = 2 ^ 32 * 2 ^ (24 - 8 * i)" by (subst power_add [symmetric]) simp
      then show ?thesis unfolding e using True by (simp add: div_mult2_eq del: power_add)
    next
      case False
      then show ?thesis unfolding e by simp
    qed
  qed
  have "be_bytes 8 n = map (\<lambda>i. if i < 4 then ucast (drop_bit (24 - 8 * i) hi) else ucast (drop_bit (56 - 8 * i) lo)) [0..<8]"
    unfolding be_bytes_def
  proof (rule map_cong [OF refl])
    fix i assume "i \<in> set [0..<8]"
    then have i: "i < 8" by simp
    show "(of_nat (n div 256 ^ (8 - Suc i)) :: u8) =
      (if i < 4 then ucast (drop_bit (24 - 8 * i) hi) else ucast (drop_bit (56 - 8 * i) lo))"
      unfolding p [OF i] using i byte_of_low [of "24 - 8 * i" "n div 2 ^ 32"] byte_of_low [of "56 - 8 * i" n]
      unfolding hi lo by simp
  qed
  then show ?thesis by (simp add: upt_rec)
qed

lemma eight_updates:
  assumes "length b = 64"
  shows "b[63 := x7, 62 := x6, 61 := x5, 60 := x4, 59 := x3, 58 := x2, 57 := x1, 56 := x0] =
     take 56 b @ [x0, x1, x2, x3, x4, x5, x6, x7]"
proof -
  define t where "t = take 56 b"
  define d where "d = drop 56 b"
  have "length d = 8" using assms by (simp add: d_def)
  then have "d = [d ! 0, d ! 1, d ! 2, d ! 3, d ! 4, d ! 5, d ! 6, d ! 7]"
    by (rule list8)
  then obtain y0 y1 y2 y3 y4 y5 y6 y7 where d: "d = [y0, y1, y2, y3, y4, y5, y6, y7]" by blast
  have b: "b = t @ d" "length t = 56" using assms by (simp_all add: t_def d_def)
  show ?thesis unfolding t_def [symmetric] unfolding b(1) d by (simp add: list_update_append b(2))
qed

lemma be_byte_unat: "ucast (drop_bit n w AND 0xFF) = (of_nat (unat w div 2 ^ n) :: u8)" for w :: u32
proof -
  have "w AND 0xFF = take_bit 8 w" for w :: u32 by (simp add: take_bit_eq_mask mask_eq_exp_minus_1)
  then show ?thesis
    by (intro bit_word_eqI) (auto simp: drop_bit_eq_div [symmetric] bit_simps)
qed

lemma column_nth:
  "i < 4 \<Longrightarrow> p < length h \<Longrightarrow> foldl (\<lambda>h j. h[i + 4 * j := f j]) h [0..<n] ! p =
     (if p mod 4 = i \<and> p div 4 < n then f (p div 4) else h ! p)"
proof (induction n)
  case (Suc n)
  have l: "length (foldl (\<lambda>h j. h[i + 4 * j := f j]) h [0..<n]) = length h"
    by (induction n) simp_all
  have "i + 4 * n = p \<longleftrightarrow> p mod 4 = i \<and> p div 4 = n" using Suc.prems(1) by auto
  with Suc l show ?case by (auto simp: nth_list_update less_Suc_eq)
qed simp

lemma length_column: "length (foldl (\<lambda>h j. h[i + 4 * j := f j]) h [0..<n]) = length h"
  by (induction n) simp_all

lemma rows_nth:
  "n \<le> 4 \<Longrightarrow> p < length h \<Longrightarrow>
     foldl (\<lambda>h i. foldl (\<lambda>h j. h[i + 4 * j := f i j]) h [0..<k']) h [0..<n] ! p =
     (if p mod 4 < n \<and> p div 4 < k' then f (p mod 4) (p div 4) else h ! p) \<and>
     length (foldl (\<lambda>h i. foldl (\<lambda>h j. h[i + 4 * j := f i j]) h [0..<k']) h [0..<n]) = length h"
proof (induction n)
  case (Suc n)
  then show ?case by (auto simp: column_nth length_column less_Suc_eq)
qed simp

lemma concat4_nth:
  "(\<And>x. length (g x) = 4) \<Longrightarrow> p < 4 * length st \<Longrightarrow> concat (map g st) ! p = g (st ! (p div 4)) ! (p mod 4)"
proof (induction st arbitrary: p)
  case (Cons x st)
  then show ?case
    by (cases "p < 4") (auto simp: nth_append div_if le_mod_geq)
qed simp

lemma concat4_length: "(\<And>x. length (g x) = 4) \<Longrightarrow> length (concat (map g st)) = 4 * length st"
  by (induction st) simp_all

lemma sha_output_eq:
  assumes "length st = 8" "length h0 = 32"
  shows "sha_output st h0 = concat (map (be_bytes 4 \<circ> unat) st)"
proof (rule nth_equalityI)
  have b: "length ((be_bytes 4 \<circ> unat) x) = 4" for x :: u32 by (simp add: be_bytes_def)
  have rows: "p < 32 \<Longrightarrow> sha_output st h0 ! p = of_nat (unat (st ! (p div 4)) div 2 ^ (24 - p mod 4 * 8))"
    for p
    unfolding sha_output_def be_byte_unat
    using rows_nth [of 4 p h0 "\<lambda>i j. of_nat (unat (st ! j) div 2 ^ (24 - i * 8))" 8] assms(2)
    by (simp add: div_less_iff_less_mult)
  show l: "length (sha_output st h0) = length (concat (map (be_bytes 4 \<circ> unat) st))"
    using rows_nth [of 4 0 h0 "\<lambda>i j. ucast (drop_bit (24 - i * 8) (st ! j) AND 0xFF)" 8] assms
    unfolding concat4_length [OF b] sha_output_def by simp
  fix p assume "p < length (sha_output st h0)"
  then have p: "p < 4 * length st" "p < 32" using l assms concat4_length [OF b, where st = st] by simp_all
  have "(256 :: nat) ^ (4 - Suc i) = 2 ^ (24 - i * 8)" if "i < 4" for i
  proof -
    have "(256 :: nat) ^ (4 - Suc i) = 2 ^ (8 * (4 - Suc i))" by (simp add: power_mult)
    also have "8 * (4 - Suc i) = 24 - i * 8" by simp
    finally show ?thesis .
  qed
  from this [of "p mod 4"] show "sha_output st h0 ! p = concat (map (be_bytes 4 \<circ> unat) st) ! p"
    unfolding concat4_nth [OF b p(1)] rows [OF p(2)] by (simp add: be_bytes_def)
qed

lemma hex_lower_nz: "n < 16 \<Longrightarrow> hex_lower n \<noteq> 0"
proof -
  assume "n < 16"
  then have "unat (48 + of_nat n :: u8) = 48 + n" "unat (87 + of_nat n :: u8) = 87 + n"
    by (simp_all add: unat_plus_no_wrap unat_of_nat)
  then show ?thesis unfolding hex_lower_def by (auto simp: unat_eq_zero [symmetric] simp del: unat_eq_zero)
qed

lemma fmt_nul_free: "nul_free (fmt_02x b)"
  using unat_lt [of b] hex_lower_nz [of "unat b div 16"] hex_lower_nz [of "unat b mod 16"]
  by (auto simp: fmt_02x_def nul_free_def)

lemma sha_print_eq:
  "nul_free p \<Longrightarrow> 2 * length bs \<le> length rest \<Longrightarrow>
     sha_print bs (p @ 0 # rest) = Some (p @ concat (map fmt_02x bs) @ 0 # drop (2 * length bs) rest)"
proof (induction bs arbitrary: p rest)
  case (Cons b bs)
  obtain x y rest' where rest: "rest = x # y # rest'" using Cons.prems(2)
    by (cases rest; cases "tl rest") auto
  have len: "length (fmt_02x b) = 2" by (simp add: fmt_02x_def)
  have "strcat (p @ 0 # rest) (fmt_02x b) = Some ((p @ fmt_02x b) @ 0 # rest')"
    using Cons.prems len unfolding strcat_def rest by (simp add: cstr_simps blit_def cstr_def)
  moreover have "sha_print bs ((p @ fmt_02x b) @ 0 # rest') =
      Some ((p @ fmt_02x b) @ concat (map fmt_02x bs) @ 0 # drop (2 * length bs) rest')"
    by (rule Cons.IH) (use Cons.prems rest fmt_nul_free [of b] in \<open>auto simp: nul_free_def\<close>)
  ultimately show ?case by (simp add: rest)
qed simp

lemma Sha256Final_eq:
  assumes inv: "sha_inv m c" and m: "length m < 2 ^ 31" and h0: "length h0 = 32"
  shows "\<exists>c'. Sha256Final c h0 = Some (c', sha256 m)"
proof -
  obtain q a r where mar: "m = a @ r" "length a = 64 * q" and r: "length r < 64"
    and d: "length (ucData c) = 64" "unDataLen c = of_nat (length r)" "take (length r) (ucData c) = r"
    and bits: "unat (unBitLen1 c) * 2 ^ 32 + unat (unBitLen0 c) = 512 * q"
    and st: "unState c = foldl fips_block fips_H0 (fips_parse a)"
    using inv unfolding sha_inv_def by blast
  have u: "unat (unDataLen c) = length r" using d r by (simp add: unat_of_nat)
  have rm: "length m mod 64 = length r" using mar r by simp
  have u8: "unat (unDataLen c * 8) = 8 * length r" using u r by (simp add: unat_word_ariths)
  have lt: "unDataLen c < 56 \<longleftrightarrow> length r < 56" using u by (simp add: word_less_nat_alt)
  have len8: "length (foldl fips_block fips_H0 bs) = 8" for bs by (simp add: length_fips_state length_H0)
  obtain lo hi where lh: "DBL_INT_ADD (unBitLen0 c) (unBitLen1 c) (unDataLen c * 8) = (lo, hi)"
    by (metis surj_pair)
  have tot: "unat hi * 2 ^ 32 + unat lo = 8 * length m"
    using DBL_INT_ADD_sum [of "unBitLen1 c" "unBitLen0 c" "unDataLen c * 8"] lh bits u8 m mar by simp
  define blk where "blk = be_bytes 8 (8 * length m)"
  have lblk: "length blk = 8" by (simp add: blk_def be_bytes_def)
  have len: "sha_length p = p\<lparr>unBitLen0 := lo, unBitLen1 := hi, ucData := take 56 (ucData p) @ blk\<rparr>"
    if "length (ucData p) = 64" "unBitLen0 p = unBitLen0 c" "unBitLen1 p = unBitLen1 c" "unDataLen p = unDataLen c" for p
    unfolding sha_length_def that lh blk_def be_bytes8 [OF tot] using that(1) by (simp add: eight_updates)
  have fin: "Sha256Final c h0 = Some (c', sha256 m)"
    if p: "sha_close c = Some p" "length (ucData p) = 64" "unBitLen0 p = unBitLen0 c"
      "unBitLen1 p = unBitLen1 c" "unDataLen p = unDataLen c" "unState p = foldl fips_block fips_H0 bs"
      and bs: "fips_parse (fips_pad m) = bs @ [take 56 (ucData p) @ blk]"
      and c': "c' = Sha256Transform (sha_length p) (ucData (sha_length p))" for p bs c'
    using p bs lblk unfolding Sha256Final_def c' sha256_def
    by (simp add: len [OF p(2-5)] transform_eq len8 sha_output_eq h0 Let_def)
      (simp add: fips_block_def length_fips_rounds len8 sha_output_eq h0 del: upt_Suc upt_rec_numeral)
  show ?thesis
  proof (cases "length r < 56")
    case True
    define w where "w = r @ 0x80 # replicate (55 - length r) 0"
    have lw: "length w = 56" using True by (simp add: w_def)
    define p where "p = c\<lparr>ucData := w @ drop 56 (ucData c)\<rparr>"
    have close: "sha_close c = Some p"
      using True lt u d r by (simp add: sha_close_def p_def Let_def fill_after w_def)
    have k: "(119 - length r) mod 64 = 55 - length r"
    proof -
      have "119 - length r = 64 + (55 - length r)" using True by simp
      then show ?thesis by (simp only: mod_add_self1) simp
    qed
    have "fips_pad m = a @ (w @ blk)"
      unfolding fips_pad_def rm k blk_def [symmetric] w_def using mar(1) by simp
    then have "fips_parse (fips_pad m) = fips_parse a @ [take 56 (ucData p) @ blk]"
      using lw lblk by (simp add: parse_append [OF mar(2)] parse_one p_def)
    from fin [OF close _ _ _ _ _ this refl] show ?thesis using d lw st by (simp add: p_def)
  next
    case False
    define b1 where "b1 = r @ 0x80 # replicate (63 - length r) 0"
    define p where "p = c\<lparr>ucData := replicate 56 0 @ drop 56 b1, unState := fips_block (unState c) b1\<rparr>"
    have lb1: "length b1 = 64" using False r by (simp add: b1_def)
    have fill: "sha_fill ((ucData c)[length r := 0x80]) (Suc (length r)) 64 = b1"
      using fill_after [OF d(3), of 64 "0x80"] d(1) r by (simp add: b1_def)
    have close: "sha_close c = Some p"
      using False lt u d(1) r lb1 st
      by (simp add: sha_close_def p_def Let_def fill transform_eq len8 sha_fill_eq)
    have k: "(119 - length r) mod 64 = 119 - length r" using False by simp
    have "replicate (119 - length r) (0 :: u8) = replicate (63 - length r) 0 @ replicate 56 0"
      using r by (subst replicate_add [symmetric]) simp
    then have "fips_pad m = a @ (b1 @ (replicate 56 0 @ blk))"
      unfolding fips_pad_def rm k blk_def [symmetric] b1_def using mar(1) by simp
    then have "fips_parse (fips_pad m) = (fips_parse a @ [b1]) @ [take 56 (ucData p) @ blk]"
      using lb1 lblk parse_append [of b1 1 "replicate 56 0 @ blk"]
      by (simp add: parse_append [OF mar(2)] parse_one p_def)
    from fin [OF close _ _ _ _ _ this refl] show ?thesis using d lb1 st by (simp add: p_def)
  qed
qed

text \<open>C22: \<open>CalcSha256\<close> computes the SHA-256 digest of FIPS 180-4. For any message the
  signed length can give, below 2^31 bytes, the string in the caller's buffer is extended by the 64 lower-case hexadecimal digits
  of the digest and its terminator: the byte-wise buffering, the padding that needs one or two
  more blocks, the 64-bit length kept in two words, the compression and all its constants agree
  with the standard.
\<close>

theorem calc_sha256_standard:
  assumes "length m < 2 ^ 31" and "length (ucData ctx0) = 64" and "length hash0 = 32"
    and "nul_free p" and "64 \<le> length rest"
  shows "CalcSha256 ctx0 hash0 m (int (length m)) (p @ 0 # rest) =
     Some (p @ concat (map fmt_02x (sha256 m)) @ 0 # drop 64 rest)"
proof -
  obtain c where c: "sha_update_loop (Sha256Init ctx0) m (length m) = Some c" "sha_inv m c"
    using sha_inv_update [OF sha_inv_init [OF assms(2)], of m] assms(1) by auto
  obtain c' where "Sha256Final c hash0 = Some (c', sha256 m)"
    using Sha256Final_eq [OF c(2) assms(1,3)] by blast
  moreover have "length (sha256 m) = 32"
    unfolding sha256_def by (simp add: concat4_length be_bytes_def length_fips_state length_H0)
  ultimately show ?thesis
    using c(1) assms(4,5) by (simp add: CalcSha256_def Sha256Update_def sha_print_eq)
qed

lemma calc_sha256_witness:
  "CalcSha256 \<lparr>ucData = replicate 64 7, unDataLen = 9, unBitLen0 = 9, unBitLen1 = 9, unState = []\<rparr>
     (replicate 32 5) [97, 98, 99] 3 (0 # replicate 64 1) =
   Some (concat (map fmt_02x (sha256 [97, 98, 99])) @ [0])"
  using calc_sha256_standard [of "[97, 98, 99]"
      "\<lparr>ucData = replicate 64 7, unDataLen = 9, unBitLen0 = 9, unBitLen1 = 9, unState = []\<rparr>"
      "replicate 32 5" "[]" "replicate 64 1"] by (simp add: nul_free_def)

end
