(* ===== verification/Ao_FileControl.thy ===== *)
theory Ao_FileControl
  imports Ao_Hash Ao_Encrypt
begin

text \<open>
  \<open>util/AoFile.cpp\<close> and \<open>util/AoFileControl.cpp\<close>: the file wrapper over a store of file contents,
  the three checksums by which an update package is verified, and the path routines.

  A file store maps names to contents. \<open>deny\<close> stands for the reasons of the operating system to
  refuse a name; an unreadable, missing or refused file fails to open. As the standard says of
  regular files, \<open>fread\<close> returns fewer bytes than asked for only at the end of the file.
\<close>

type_synonym file_store = "bytes \<Rightarrow> bytes option"

datatype fmode = ModeRb | ModeWb

section \<open>CAoFile\<close>

text \<open>An open stream: the name of the file and the position in it.\<close>

record CAoFile =
  m_pFile :: "(bytes \<times> nat) option"

definition af_new :: CAoFile where
  "af_new = \<lparr>m_pFile = None\<rparr>"

text \<open>\<open>Open\<close> gives \<open>EN_NOERROR\<close> (here \<^term>\<open>True\<close>) or \<open>errno\<close>.\<close>

definition af_open :: "(bytes \<Rightarrow> bool) \<Rightarrow> file_store \<Rightarrow> bytes \<Rightarrow> fmode \<Rightarrow> file_store \<times> CAoFile \<times> bool" where
  "af_open deny fs name mode =
     (case mode of
        ModeRb \<Rightarrow> if deny name \<or> fs name = None then (fs, af_new, False)
                  else (fs, \<lparr>m_pFile = Some (name, 0)\<rparr>, True)
      | ModeWb \<Rightarrow> if deny name then (fs, af_new, False)
                  else (fs(name \<mapsto> []), \<lparr>m_pFile = Some (name, 0)\<rparr>, True))"

definition file_bytes :: "file_store \<Rightarrow> bytes \<Rightarrow> bytes" where
  "file_bytes fs name = (case fs name of None \<Rightarrow> [] | Some d \<Rightarrow> d)"

definition EN_SEEK_SET :: int where "EN_SEEK_SET = 0"
definition EN_SEEK_CUR :: int where "EN_SEEK_CUR = 1"
definition EN_SEEK_END :: int where "EN_SEEK_END = 2"

definition af_seek :: "file_store \<Rightarrow> CAoFile \<Rightarrow> int \<Rightarrow> int \<Rightarrow> CAoFile \<times> bool" where
  "af_seek fs af astOffset astSeek =
     (case m_pFile af of
        None \<Rightarrow> (af, False)
      | Some (name, pos) \<Rightarrow>
          let base = (if astSeek = EN_SEEK_SET then Some 0
                      else if astSeek = EN_SEEK_CUR then Some (int pos)
                      else if astSeek = EN_SEEK_END then Some (int (length (file_bytes fs name)))
                      else None)
          in case base of
               None \<Rightarrow> (af, False)
             | Some b \<Rightarrow> if b + astOffset < 0 then (af, False)
                          else (\<lparr>m_pFile = Some (name, nat (b + astOffset))\<rparr>, True))"

definition af_tell :: "CAoFile \<Rightarrow> int" where
  "af_tell af = (case m_pFile af of None \<Rightarrow> - 1 | Some (name, pos) \<Rightarrow> int pos)"

text \<open>The bytes \<open>Read\<close> stores; their number is what it returns, but \<open>-1\<close> without a stream.\<close>

definition af_read :: "file_store \<Rightarrow> CAoFile \<Rightarrow> nat \<Rightarrow> CAoFile \<times> bytes option" where
  "af_read fs af astLen =
     (case m_pFile af of
        None \<Rightarrow> (af, None)
      | Some (name, pos) \<Rightarrow>
          let d = take astLen (drop pos (file_bytes fs name))
          in (\<lparr>m_pFile = Some (name, pos + length d)\<rparr>, Some d))"

definition af_write :: "file_store \<Rightarrow> CAoFile \<Rightarrow> bytes \<Rightarrow> file_store \<times> CAoFile \<times> int" where
  "af_write fs af buf =
     (case m_pFile af of
        None \<Rightarrow> (fs, af, - 1)
      | Some (name, pos) \<Rightarrow>
          let d = file_bytes fs name
          in (fs(name \<mapsto> take pos d @ replicate (pos - length d) 0 @ buf @ drop (pos + length buf) d),
              \<lparr>m_pFile = Some (name, pos + length buf)\<rparr>, int (length buf)))"

definition af_close :: "CAoFile \<Rightarrow> CAoFile" where
  "af_close af = \<lparr>m_pFile = None\<rparr>"

section \<open>Checksums of a file\<close>

text \<open>
  The loop of \<open>CalcFileCrc32_3\<close> and \<open>CalcFileCrc32Hash\<close>. The buffer holds what the last read
  stored: a routine that looked past it would see stale bytes, here it is \<^term>\<open>None\<close>.
\<close>

definition EN_READ_LEN :: nat where "EN_READ_LEN = 10240"

definition crc3_chunk :: "int \<Rightarrow> int \<Rightarrow> bytes \<Rightarrow> u32 \<times> u32 \<times> u32 \<Rightarrow> (u32 \<times> u32 \<times> u32) option" where
  "crc3_chunk nHalfFileLen nReadedLen szData = (\<lambda>(unCrc1, unCrc2, unCrc3).
     let nReadLen = int (length szData) in
     CalcCrc32 unCrc3 szData nReadLen \<bind> (\<lambda>unCrc3.
     if nReadedLen + nReadLen < nHalfFileLen then
       CalcCrc32 unCrc1 szData nReadLen \<bind> (\<lambda>unCrc1. Some (unCrc1, unCrc2, unCrc3))
     else if nReadedLen \<ge> nHalfFileLen then
       CalcCrc32 unCrc2 szData nReadLen \<bind> (\<lambda>unCrc2. Some (unCrc1, unCrc2, unCrc3))
     else
       CalcCrc32 unCrc1 szData (nHalfFileLen - nReadedLen) \<bind> (\<lambda>unCrc1.
       CalcCrc32 unCrc2 (drop (nat (nHalfFileLen - nReadedLen)) szData)
         (nReadLen - (nHalfFileLen - nReadedLen)) \<bind> (\<lambda>unCrc2.
       Some (unCrc1, unCrc2, unCrc3)))))"

lemma take_drop_Cons: "take k (drop n d) = b # r \<Longrightarrow> n < length d"
  by (cases "n < length d") simp_all

function crc3_loop :: "file_store \<Rightarrow> CAoFile \<Rightarrow> int \<Rightarrow> int \<Rightarrow> u32 \<times> u32 \<times> u32 \<Rightarrow> (u32 \<times> u32 \<times> u32) option" where
  "crc3_loop fs af nHalfFileLen nReadedLen crcs =
     (case af_read fs af EN_READ_LEN of
        (af', Some (b # d)) \<Rightarrow>
          crc3_chunk nHalfFileLen nReadedLen (b # d) crcs \<bind>
            crc3_loop fs af' nHalfFileLen (nReadedLen + int (length (b # d)))
      | _ \<Rightarrow> Some crcs)"
  by pat_completeness auto
termination
  by (relation "measure (\<lambda>(fs, af, h, r, c). case m_pFile af of None \<Rightarrow> 0
        | Some (name, pos) \<Rightarrow> length (file_bytes fs name) - pos)")
    (auto simp: af_read_def Let_def EN_READ_LEN_def split: option.splits prod.splits dest: take_drop_Cons take_drop_Cons [OF sym])

declare crc3_loop.simps [simp del]

text \<open>
  \<open>unFileLen\<close> and the checksums are references; when the file does not open they keep their
  values. The sums are kept in \<open>int\<close>s, so a file of 2 GB or more is outside the model.
\<close>

definition CalcFileCrc32_3 ::
  "(bytes \<Rightarrow> bool) \<Rightarrow> file_store \<Rightarrow> bytes \<Rightarrow> (u32 \<times> u32 \<times> u32) \<times> u32 \<Rightarrow> (bool \<times> (u32 \<times> u32 \<times> u32) \<times> u32) option" where
  "CalcFileCrc32_3 deny fs pszFileName refs =
     (let (_, af, ok) = af_open deny fs pszFileName ModeRb in
      if \<not> ok then Some (False, refs)
      else
        let (af, _) = af_seek fs af 0 EN_SEEK_END;
            unFileLen = word_of_int (af_tell af) :: u32;
            nHalfFileLen = sint (unFileLen div 2);
            (af, _) = af_seek fs af 0 EN_SEEK_SET
        in crc3_loop fs af nHalfFileLen 0 (0, 0, 0) \<bind> (\<lambda>crcs. Some (True, crcs, unFileLen)))"

definition fmt_08x :: "u32 \<Rightarrow> bytes" where
  "fmt_08x w = map (\<lambda>i. hex_lower (unat w div 16 ^ (7 - i) mod 16)) [0..<8]"

text \<open>\<open>CalcFileCrc32Hash\<close> takes the whole length where the routine above takes half of it.\<close>

definition CalcFileCrc32Hash :: "(bytes \<Rightarrow> bool) \<Rightarrow> file_store \<Rightarrow> bytes \<Rightarrow> (bool \<times> bytes) option" where
  "CalcFileCrc32Hash deny fs pszFileName =
     (let (_, af, ok) = af_open deny fs pszFileName ModeRb in
      if \<not> ok then Some (False, [])
      else
        let (af, _) = af_seek fs af 0 EN_SEEK_END;
            unFileLen = word_of_int (af_tell af) :: u32;
            (af, _) = af_seek fs af 0 EN_SEEK_SET
        in crc3_loop fs af (sint unFileLen) 0 (0, 0, 0) \<bind> (\<lambda>(unCrc1, unCrc2, unCrc3).
           Some (True, fmt_08x unFileLen @ fmt_08x unCrc1 @ fmt_08x unCrc2 @ fmt_08x unCrc3)))"

section \<open>The checksums do not depend on the reads\<close>

lemma crc32_bytewise_append: "crc32_bytewise (crc32_bytewise c a) b = crc32_bytewise c (a @ b)"
  by (simp add: bytewise_upd crc_upd_append)

lemma crc32_bytewise_Nil: "crc32_bytewise c [] = c"
  by (simp add: bytewise_upd crc_upd_def)

definition split_crcs :: "nat \<Rightarrow> bytes \<Rightarrow> u32 \<times> u32 \<times> u32" where
  "split_crcs h d = (crc32_bytewise 0 (take h d), crc32_bytewise 0 (drop h d), crc32_bytewise 0 d)"

lemma CalcCrc32_all: "n = int (length d) \<Longrightarrow> CalcCrc32 c d n = Some (crc32_bytewise c d)"
  using CalcCrc32_zlib [of "length d" d c] by simp

lemma crc3_chunk_eq:
  assumes "n = length p"
  shows "crc3_chunk (int h) (int n) x (split_crcs h p) = Some (split_crcs h (p @ x))"
proof -
  consider (first) "n + length x < h" | (second) "h \<le> n" | (both) "n < h" "h \<le> n + length x" by linarith
  then show ?thesis
  proof cases
    case first
    with assms show ?thesis
      by (simp add: crc3_chunk_def split_crcs_def CalcCrc32_all crc32_bytewise_append)
  next
    case second
    with assms show ?thesis
      by (simp add: crc3_chunk_def split_crcs_def CalcCrc32_all crc32_bytewise_append)
  next
    case both
    then have "int h - int n = int (h - n)" "nat (int h - int n) = h - n" by simp_all
    with both assms show ?thesis
      using CalcCrc32_zlib [of "h - n" x]
      by (simp add: crc3_chunk_def split_crcs_def CalcCrc32_all crc32_bytewise_append crc32_bytewise_Nil)
  qed
qed

lemma crc3_loop_eq:
  assumes "fs name = Some d" "n \<le> length d"
  shows "crc3_loop fs \<lparr>m_pFile = Some (name, n)\<rparr> (int h) (int n) (split_crcs h (take n d)) = Some (split_crcs h d)"
  using assms(2)
proof (induction "length d - n" arbitrary: n rule: less_induct)
  case less
  define x where "x = take EN_READ_LEN (drop n d)"
  have rd: "af_read fs \<lparr>m_pFile = Some (name, n)\<rparr> EN_READ_LEN = (\<lparr>m_pFile = Some (name, n + length x)\<rparr>, Some x)"
    using assms(1) by (simp add: af_read_def file_bytes_def x_def Let_def)
  show ?case
  proof (cases x)
    case Nil
    then have "n = length d" using less.prems by (simp add: x_def EN_READ_LEN_def)
    with Nil rd show ?thesis by (simp add: crc3_loop.simps)
  next
    case (Cons b r)
    have l: "length x \<le> length d - n" "x = take (length x) (drop n d)"
      by (simp add: x_def) (metis append_eq_conv_conj append_take_drop_id x_def)
    have "take (n + length x) d = take n d @ x" by (subst take_add) (simp add: l(2) [symmetric])
    moreover have "crc3_loop fs \<lparr>m_pFile = Some (name, n + length x)\<rparr> (int h) (int (n + length x))
        (split_crcs h (take (n + length x) d)) = Some (split_crcs h d)"
      by (rule less.hyps) (use l(1) less.prems Cons in auto)
    ultimately show ?thesis using Cons rd less.prems
      by (subst crc3_loop.simps) (simp add: crc3_chunk_eq ac_simps)
  qed
qed

lemma CalcFileCrc32_3_eq:
  assumes "fs name = Some d" "\<not> deny name" "length d < 2 ^ 31"
  shows "CalcFileCrc32_3 deny fs name refs = Some (True, split_crcs (length d div 2) d, of_nat (length d))"
proof -
  have u: "unat (of_nat (length d) :: u32) = length d" using assms(3) by (simp add: unat_of_nat)
  have h: "sint ((of_nat (length d) :: u32) div 2) = int (length d div 2)"
    using assms(3) u by (subst sint_small) (simp_all add: unat_div)
  show ?thesis
    using crc3_loop_eq [of fs name d 0 "length d div 2"] assms h
    by (simp add: CalcFileCrc32_3_def af_open_def af_seek_def af_tell_def file_bytes_def
        EN_SEEK_SET_def EN_SEEK_CUR_def EN_SEEK_END_def split_crcs_def crc32_bytewise_Nil)
qed

lemma CalcFileCrc32Hash_eq:
  assumes "fs name = Some d" "\<not> deny name" "length d < 2 ^ 31"
  shows "CalcFileCrc32Hash deny fs name = Some (True, fmt_08x (of_nat (length d)) @
     fmt_08x (crc32_bytewise 0 d) @ fmt_08x 0 @ fmt_08x (crc32_bytewise 0 d))"
  using crc3_loop_eq [of fs name d 0 "length d"] assms
  by (simp add: CalcFileCrc32Hash_def af_open_def af_seek_def af_tell_def file_bytes_def sint_of_nat32
        EN_SEEK_SET_def EN_SEEK_CUR_def EN_SEEK_END_def split_crcs_def crc32_bytewise_Nil)

section \<open>Path routines\<close>

text \<open>
  The mode every directory is made with: the constants are the octal permission bits written in
  hexadecimal, so the owner is left without the right to write or enter.
\<close>

definition EN_S_IRWXU :: u32 where
  "EN_S_IRWXU = 0x400 OR 0x200 OR 0x100"

lemma created_dirs_not_writable: "EN_S_IRWXU AND 0xC0 = 0" (is "_ AND ?owner_write_search = 0")
  by (simp add: EN_S_IRWXU_def)

definition is_sep :: "u8 \<Rightarrow> bool" where
  "is_sep c \<longleftrightarrow> c = 92 \<or> c = 47"

definition dot1 :: bytes where "dot1 = [46]"
definition dot2 :: bytes where "dot2 = [46, 46]"

text \<open>\<open>CreateDirs\<close>: the scan, then the names passed to \<open>CreateDir\<close> one after the other.\<close>

definition push_dir :: "bytes \<Rightarrow> bytes list \<Rightarrow> bytes list" where
  "push_dir strDirName lstDir =
     (if strDirName = dot2 then if length lstDir > 0 then butlast lstDir else lstDir
      else if strDirName \<noteq> dot1 then lstDir @ [strDirName] else lstDir)"

function dirs_scan :: "bytes \<Rightarrow> nat \<Rightarrow> bytes list \<Rightarrow> bytes \<times> bytes list" where
  "dirs_scan strDir nIndex lstDir =
     (if length strDir > 0 \<and> nIndex < length strDir then
        if is_sep (strDir ! nIndex)
        then dirs_scan (drop (nIndex + 1) strDir) (0 + 1) (push_dir (take nIndex strDir) lstDir)
        else dirs_scan strDir (nIndex + 1) lstDir
      else (strDir, lstDir))"
  by pat_completeness auto
termination by (relation "measures [\<lambda>(s, n, l). length s, \<lambda>(s, n, l). length s - n]") auto

declare dirs_scan.simps [simp del]

fun dirs_made :: "bytes \<Rightarrow> bytes list \<Rightarrow> bytes list" where
  "dirs_made strDir [] = []"
| "dirs_made strDir (d # ds) = (let s = strDir @ d @ [47] in s # dirs_made s ds)"

definition CreateDirs :: "bytes \<Rightarrow> bytes list" where
  "CreateDirs pszDir =
     (let (strDir, lstDir) = dirs_scan pszDir 0 []
      in dirs_made [] (if length strDir > 0 then lstDir @ [strDir] else lstDir))"

text \<open>
  \<open>Split\<close> walks back to the last separator. Its loop reads the character before it tests the
  index, so without a separator it reads in front of the string.
\<close>

function split_back :: "bytes \<Rightarrow> int \<Rightarrow> int option" where
  "split_back s n =
     (if n < 0 \<or> n \<ge> int (length s) then None
      else if \<not> is_sep (s ! nat n) then split_back s (n - 1) else Some n)"
  by pat_completeness auto
termination by (relation "measure (\<lambda>(s, n). nat (n + 1))") auto

declare split_back.simps [simp del]

definition Split :: "bytes \<Rightarrow> (bytes \<times> bytes) option" where
  "Split pszPathFileName =
     map_option (\<lambda>n. (take (nat n) pszPathFileName, drop (nat n + 1) pszPathFileName))
       (split_back pszPathFileName (int (length pszPathFileName) - 1))"

text \<open>\<open>ToStandardlPath\<close>: \<open>cur\<close> holds the characters from \<open>pszStart\<close> to \<open>pszCur\<close>.\<close>

definition push_std :: "bytes \<Rightarrow> bytes list \<Rightarrow> bytes list" where
  "push_std strDir lstDirs =
     (if strDir = dot2 then if length lstDirs > 0 then butlast lstDirs else lstDirs
      else if strDir \<noteq> dot1 \<and> (length strDir > 0 \<or> length lstDirs = 0) then lstDirs @ [strDir]
      else lstDirs)"

fun std_scan :: "bytes \<Rightarrow> bytes \<Rightarrow> bytes list \<Rightarrow> bytes list" where
  "std_scan [] cur lstDirs = (if cur \<noteq> [] then lstDirs @ [cur] else lstDirs)"
| "std_scan (c # cs) cur lstDirs =
     (if is_sep c then std_scan cs [] (push_std cur lstDirs) else std_scan cs (cur @ [c]) lstDirs)"

fun join_path :: "bytes \<Rightarrow> bytes list \<Rightarrow> bytes" where
  "join_path pszSplit [] = []"
| "join_path pszSplit [d] = d"
| "join_path pszSplit (d # e # ds) = d @ pszSplit @ join_path pszSplit (e # ds)"

definition standard_path :: "bytes \<Rightarrow> bytes \<Rightarrow> bytes" where
  "standard_path pszSplit pszSrc = join_path pszSplit (std_scan pszSrc [] [])"

text \<open>The result is printed into the caller's buffer without a bound.\<close>

definition ToStandardlPath :: "bytes \<Rightarrow> bytes \<Rightarrow> bytes \<Rightarrow> bytes option" where
  "ToStandardlPath pszSrc pszDest pszSplit =
     (let s = standard_path pszSplit pszSrc in blit pszDest 0 (cstr s) (Suc (length s)))"

subsection \<open>What they compute\<close>

text \<open>A path as the list of its pieces.\<close>

definition piece :: "bytes \<Rightarrow> bool" where
  "piece p \<longleftrightarrow> (\<forall>c \<in> set p. \<not> is_sep c)"

lemma std_scan_piece: "piece p \<Longrightarrow> std_scan (p @ r) cur l = std_scan r (cur @ p) l"
  by (induction p arbitrary: cur) (auto simp: piece_def)

lemma std_scan_join:
  "(\<And>p. p \<in> set (ps @ [q]) \<Longrightarrow> piece p) \<Longrightarrow>
     std_scan (join_path [47] (ps @ [q])) [] l =
     (let l' = foldl (\<lambda>l p. push_std p l) l ps in if q \<noteq> [] then l' @ [q] else l')"
proof (induction ps arbitrary: l)
  case Nil
  then show ?case using std_scan_piece [of q "[]" "[]" l] by (simp add: Let_def)
next
  case (Cons p ps)
  have "join_path [47] ((p # ps) @ [q]) = p @ 47 # join_path [47] (ps @ [q])"
    by (cases ps) simp_all
  moreover have "piece p" using Cons.prems by simp
  ultimately show ?case using Cons by (simp add: std_scan_piece is_sep_def)
qed

definition plain :: "bytes \<Rightarrow> bool" where
  "plain p \<longleftrightarrow> piece p \<and> p \<noteq> [] \<and> p \<noteq> dot1 \<and> p \<noteq> dot2"

lemma foldl_plain: "(\<And>p. p \<in> set ps \<Longrightarrow> plain p) \<Longrightarrow> foldl (\<lambda>l p. push_std p l) l ps = l @ ps"
  by (induction ps arbitrary: l) (auto simp: plain_def push_std_def)

lemma foldl_up: "foldl (\<lambda>l p. push_std p l) l (replicate k dot2) = take (length l - k) l"
  by (induction k arbitrary: l) (auto simp: push_std_def butlast_conv_take min_def)

text \<open>A path without dots is its own standard form, whatever mixture of separators it had.\<close>

lemma standard_plain:
  assumes "\<And>p. p \<in> set ps \<Longrightarrow> plain p" "ps \<noteq> []"
  shows "std_scan (join_path [47] ps) [] [] = ps"
proof -
  obtain ps' q where ps: "ps = ps' @ [q]" using assms(2) by (metis append_butlast_last_id)
  then have "plain q" "\<And>p. p \<in> set ps' \<Longrightarrow> plain p" using assms(1) by auto
  then show ?thesis unfolding ps
    using std_scan_join [of ps' q "[]"] foldl_plain [of ps' "[]"] by (auto simp: plain_def Let_def)
qed

text \<open>
  Each leading \<open>..\<close> of the name of an archive member takes one directory off the place the
  archive is unpacked to: nothing keeps the result below that place.
\<close>

lemma standard_escapes:
  assumes "\<And>p. p \<in> set dir \<Longrightarrow> plain p" "plain q"
  shows "standard_path [47] (join_path [47] (dir @ replicate k dot2 @ [q])) =
     join_path [47] (take (length dir - k) dir @ [q])"
proof -
  have d2: "piece dot2" by (simp add: piece_def dot2_def is_sep_def)
  have "std_scan (join_path [47] ((dir @ replicate k dot2) @ [q])) [] [] = take (length dir - k) dir @ [q]"
    by (subst std_scan_join) (use assms d2 in \<open>auto simp: plain_def foldl_plain foldl_up Let_def\<close>)
  then show ?thesis by (simp add: standard_path_def)
qed

end
