(* ===== verification/Ao_Helper.thy ===== *)
theory Ao_Helper
  imports Ao_Prelude
begin

text \<open>
  The buffer helpers of \<open>util/AoHelper.cpp\<close>: searching, and the hexadecimal notation of licence
  and resource numbers. Lengths are the signed integers of the code.
\<close>

section \<open>Searching\<close>

text \<open>\<open>memcmp\<close> of \<open>nFindLen\<close> bytes; a block that is too short is an access outside it.\<close>

definition memeq :: "bytes \<Rightarrow> nat \<Rightarrow> bytes \<Rightarrow> nat \<Rightarrow> bool option" where
  "memeq a off b n =
     (if off + n \<le> length a \<and> n \<le> length b then Some (take n (drop off a) = take n b) else None)"

function find_first_loop :: "bytes \<Rightarrow> int \<Rightarrow> bytes \<Rightarrow> nat \<Rightarrow> nat \<Rightarrow> int option" where
  "find_first_loop pszSrc nSrcLen pszFind nFindLen n =
     (if int n < nSrcLen - int nFindLen + 1 then
        case memeq pszSrc n pszFind nFindLen of
          None \<Rightarrow> None
        | Some True \<Rightarrow> Some (int n)
        | Some False \<Rightarrow> find_first_loop pszSrc nSrcLen pszFind nFindLen (Suc n)
      else Some (- 1))"
  by pat_completeness auto
termination by (relation "measure (\<lambda>(s, l, f, k, n). nat (l - int k + 1 - int n))") auto

declare find_first_loop.simps [simp del]

definition FindFirstBuf :: "bytes \<Rightarrow> int \<Rightarrow> bytes option \<Rightarrow> nat \<Rightarrow> int option" where
  "FindFirstBuf pszSrc nSrcLen pszFind nFindLen =
     (case pszFind of
        None \<Rightarrow> Some (- 2)
      | Some f \<Rightarrow> if nFindLen = 0 then Some (- 2) else find_first_loop pszSrc nSrcLen f nFindLen 0)"

function find_last_loop :: "bytes \<Rightarrow> bytes \<Rightarrow> nat \<Rightarrow> int \<Rightarrow> int option" where
  "find_last_loop pszSrc pszFind nFindLen n =
     (if n \<ge> 0 then
        case memeq pszSrc (nat n) pszFind nFindLen of
          None \<Rightarrow> None
        | Some True \<Rightarrow> Some n
        | Some False \<Rightarrow> find_last_loop pszSrc pszFind nFindLen (n - 1)
      else Some (- 1))"
  by pat_completeness auto
termination by (relation "measure (\<lambda>(s, f, k, n). nat (n + 1))") auto

declare find_last_loop.simps [simp del]

definition FindLastBuf :: "bytes \<Rightarrow> int \<Rightarrow> bytes \<Rightarrow> nat \<Rightarrow> int option" where
  "FindLastBuf pszSrc nSrcLen pszFind nFindLen =
     find_last_loop pszSrc pszFind nFindLen (nSrcLen - int nFindLen)"

text \<open>\<open>CAoFindFile::SetPath\<close> keeps the directory part of a search pattern.\<close>

definition SetPath :: "bytes \<Rightarrow> bytes option" where
  "SetPath pszFindPath =
     FindLastBuf pszFindPath (int (length pszFindPath)) [92] 1 \<bind> (\<lambda>nIndex1.
     FindLastBuf pszFindPath (int (length pszFindPath)) [47] 1 \<bind> (\<lambda>nIndex2.
     let n = (if nIndex2 < nIndex1 then nIndex1 else nIndex2) in
     if n > 0 then blit (replicate 256 0) 0 pszFindPath (nat n + 1) else Some (replicate 256 0)))"

section \<open>Hexadecimal notation\<close>

definition HexChar :: "u8 \<Rightarrow> u8" where
  "HexChar ucHexData =
     (if ucHexData \<le> 9 then ucHexData + 48 else if ucHexData < 16 then ucHexData - 10 + 97 else 48)"

text \<open>\<open>char\<close> is signed, so the comparisons are.\<close>

definition HexData :: "u8 \<Rightarrow> u8" where
  "HexData c =
     (if sint c \<ge> 48 \<and> sint c \<le> 57 then c - 48
      else if sint c \<ge> 97 \<and> sint c \<le> 102 then c - 97 + 10
      else if sint c \<ge> 65 \<and> sint c \<le> 70 then c - 65 + 10 else 0)"

function hex_string_loop :: "bytes \<Rightarrow> bytes \<Rightarrow> nat \<Rightarrow> nat \<Rightarrow> bytes option" where
  "hex_string_loop pszHex pucData ucLen n =
     (if n < ucLen then
        if n < length pucData \<and> 2 * n + 1 < length pszHex then
          hex_string_loop (pszHex[2 * n := HexChar (drop_bit 4 (pucData ! n) AND 0xF),
             2 * n + 1 := HexChar (pucData ! n AND 0xF)]) pucData ucLen (Suc n)
        else None
      else if 2 * n < length pszHex then Some (pszHex[2 * n := 0]) else None)"
  by pat_completeness auto
termination by (relation "measure (\<lambda>(h, d, l, n). l - n)") auto

declare hex_string_loop.simps [simp del]

definition GetHexString :: "bytes \<Rightarrow> bytes \<Rightarrow> u16 \<Rightarrow> bytes option" where
  "GetHexString pszHex pucData ucLen = hex_string_loop pszHex pucData (unat ucLen) 0"

text \<open>\<open>GetHexData\<close> takes the length of the string as an \<open>unsigned short\<close>.\<close>

function hex_data_loop :: "bytes \<Rightarrow> bytes \<Rightarrow> nat \<Rightarrow> nat \<Rightarrow> bytes option" where
  "hex_data_loop pucData s nLen n =
     (if n < nLen div 2 then
        if n < length pucData then
          hex_data_loop (pucData[n := push_bit 4 (HexData (s ! (2 * n))) + HexData (s ! (2 * n + 1))]) s nLen (Suc n)
        else None
      else Some pucData)"
  by pat_completeness auto
termination by (relation "measure (\<lambda>(d, s, l, n). l div 2 - n)") auto

declare hex_data_loop.simps [simp del]

definition GetHexData :: "bytes \<Rightarrow> bytes \<Rightarrow> bytes option" where
  "GetHexData pucData pszHexString =
     strlen pszHexString \<bind> (\<lambda>len.
     let nLen = unat (of_nat len :: u16) in
     if nLen mod 2 \<noteq> 0 then Some pucData else hex_data_loop pucData pszHexString nLen 0)"

text \<open>\<open>Toupper\<close> stops at the terminator; \<open>islower\<close> and \<open>toupper\<close> are those of the C locale.\<close>

fun Toupper :: "bytes \<Rightarrow> bytes option" where
  "Toupper [] = None"
| "Toupper (c # cs) =
     (if c = 0 then Some (c # cs)
      else map_option ((#) (if 97 \<le> c \<and> c \<le> 122 then c - 32 else c)) (Toupper cs))"

section \<open>What they compute\<close>

text \<open>The first place a pattern occurs at.\<close>

fun find_sub :: "bytes \<Rightarrow> bytes \<Rightarrow> nat option" where
  "find_sub f [] = (if f = [] then Some 0 else None)"
| "find_sub f (x # xs) = (if take (length f) (x # xs) = f then Some 0 else map_option Suc (find_sub f xs))"

lemma find_sub_short: "length xs < length f \<Longrightarrow> find_sub f xs = None"
  by (induction xs) (auto dest: arg_cong [of _ _ length])

lemma find_first_loop_eq:
  assumes "f \<noteq> []" "m \<le> length s"
  shows "n \<le> m \<Longrightarrow> find_first_loop s (int m) f (length f) n =
     Some (case find_sub f (drop n (take m s)) of None \<Rightarrow> - 1 | Some i \<Rightarrow> int (n + i))"
proof (induction "m - n" arbitrary: n)
  case 0
  with assms show ?case by (simp add: find_first_loop.simps)
next
  case (Suc k)
  then have n: "n < m" by simp
  show ?case
  proof (cases "n + length f \<le> m")
    case False
    then have "m - n < length f" using n by linarith
    then have "length (drop n (take m s)) < length f" using assms by simp
    with False show ?thesis by (simp add: find_first_loop.simps find_sub_short)
  next
    case True
    have d: "drop n (take m s) = s ! n # drop (Suc n) (take m s)"
      using n assms by (simp add: Cons_nth_drop_Suc [symmetric])
    have "take (length f) (drop n s) = take (length f) (drop n (take m s))"
      using True by (simp add: drop_take)
    then have me: "memeq s n f (length f) = Some (take (length f) (drop n (take m s)) = f)"
      using True assms by (simp add: memeq_def)
    have ih: "find_first_loop s (int m) f (length f) (Suc n) =
        Some (case find_sub f (drop (Suc n) (take m s)) of None \<Rightarrow> - 1 | Some i \<Rightarrow> int (Suc n + i))"
      by (rule Suc.hyps(1)) (use Suc.hyps n in auto)
    show ?thesis
      using True me ih by (subst find_first_loop.simps) (auto simp: d split: option.splits)
  qed
qed

lemma FindFirstBuf_eq:
  "f \<noteq> [] \<Longrightarrow> m \<le> length s \<Longrightarrow> FindFirstBuf s (int m) (Some f) (length f) =
     Some (case find_sub f (take m s) of None \<Rightarrow> - 1 | Some i \<Rightarrow> int i)"
  using find_first_loop_eq [of f m s 0] by (auto simp: FindFirstBuf_def split: option.splits)

lemma find_sub_Some: "find_sub f xs = Some i \<Longrightarrow> take (length f) (drop i xs) = f \<and> i + length f \<le> length xs"
proof (induction xs arbitrary: i)
  case (Cons x xs)
  show ?case
  proof (cases "take (length f) (x # xs) = f")
    case True
    with Cons.prems have "i = 0" by simp
    moreover have "length f \<le> length (x # xs)"
      using True by (metis length_take min.cobounded1)
    ultimately show ?thesis using True by simp
  qed (use Cons in \<open>auto\<close>)
qed (auto split: if_splits)

text \<open>A pattern cannot start in a stretch that its first byte does not occur in.\<close>

lemma find_sub_skip: "f \<noteq> [] \<Longrightarrow> hd f \<notin> set a \<Longrightarrow> find_sub f (a @ r) = map_option ((+) (length a)) (find_sub f r)"
proof (induction a)
  case Nil
  then show ?case by (simp add: map_option.id [unfolded id_def])
next
  case (Cons x a)
  then have "take (length f) (x # a @ r) \<noteq> f" by (cases f) auto
  with Cons show ?case by (simp add: option.map_comp comp_def)
qed

text \<open>Nor can it cross a byte that does not occur in it.\<close>

lemma find_sub_cross:
  "f \<noteq> [] \<Longrightarrow> c \<notin> set f \<Longrightarrow> find_sub f a = None \<Longrightarrow>
     find_sub f (a @ c # r) = map_option ((+) (Suc (length a))) (find_sub f r)"
proof (induction a)
  case Nil
  then have "take (length f) (c # r) \<noteq> f" by (cases f) auto
  then show ?case by simp
next
  case (Cons x a)
  have "take (length f) (x # a @ c # r) \<noteq> f"
  proof
    assume t: "take (length f) (x # a @ c # r) = f"
    show False
    proof (cases "length f \<le> length (x # a)")
      case True
      have "take (length f) ((x # a) @ c # r) = f" using t by simp
      then have "take (length f) (x # a) = f" using True unfolding take_append by simp
      with Cons.prems show False by simp
    next
      case False
      with t have "c \<in> set f" by (metis append_Cons append_take_drop_id in_set_conv_decomp take_append
            take_all_iff linorder_not_le less_imp_le_nat take_Cons' zero_less_diff less_irrefl)
      with Cons.prems show False by simp
    qed
  qed
  with Cons show ?case by (auto simp: option.map_comp comp_def split: if_splits)
qed


text \<open>The hexadecimal text of a block, and the way back.\<close>

definition hexs :: "bytes \<Rightarrow> bytes" where
  "hexs d = concat (map (\<lambda>b. [HexChar (drop_bit 4 b AND 0xF), HexChar (b AND 0xF)]) d)"

lemma length_hexs [simp]: "length (hexs d) = 2 * length d"
  by (induction d) (simp_all add: hexs_def)

lemma hexs_snoc: "hexs (d @ [b]) = hexs d @ [HexChar (drop_bit 4 b AND 0xF), HexChar (b AND 0xF)]"
  by (simp add: hexs_def)

lemma small_byte: "unat y < 16 \<Longrightarrow> y \<in> {0, 1, 2, 3, 4, 5, 6, 7, 8, 9, 10, 11, 12, 13, 14, 15}" for y :: u8
proof -
  assume "unat y < 16"
  then have n: "unat y \<in> {0, 1, 2, 3, 4, 5, 6, 7, 8, 9, 10, 11, 12, 13, 14, 15}"
    unfolding insert_iff empty_iff by presburger
  have w: "y = of_nat k" if "unat y = k" for k
    using that [symmetric] by simp
  show ?thesis using n by (auto dest!: w)
qed

lemma nibble_cases: "x AND 0xF \<in> {0, 1, 2, 3, 4, 5, 6, 7, 8, 9, 10, 11, 12, 13, 14, 15}" for x :: u8
proof (rule small_byte)
  have "x AND 0xF = take_bit 4 x" by (simp add: take_bit_eq_mask mask_eq_exp_minus_1)
  then show "unat (x AND 0xF) < 16"
    using take_bit_nat_less_exp [of 4 "unat x"] by (simp add: unsigned_take_bit_eq)
qed

lemma HexData_HexChar: "HexData (HexChar (x AND 0xF)) = x AND 0xF"
  using nibble_cases [of x] by (elim insertE emptyE) (simp_all add: HexChar_def HexData_def)

lemma HexChar_nonzero: "HexChar (x AND 0xF) \<noteq> 0"
  using nibble_cases [of x] by (elim insertE emptyE) (simp_all add: HexChar_def)

lemma nibbles_join: "push_bit 4 (drop_bit 4 b AND 0xF) + (b AND 0xF) = b" for b :: u8
proof -
  have m: "(0xF :: u8) = mask 4" by (simp add: mask_eq_exp_minus_1)
  have "push_bit 4 (drop_bit 4 b AND 0xF) + (b AND 0xF) = push_bit 4 (drop_bit 4 b AND 0xF) OR (b AND 0xF)"
    unfolding m by (rule disjunctive_add) (auto simp: bit_simps)
  also have "\<dots> = b"
    unfolding m by (rule bit_word_eqI) (auto simp: bit_simps)
  finally show ?thesis .
qed

lemma hex_string_loop_eq:
  "n \<le> l \<Longrightarrow> l \<le> length d \<Longrightarrow> 2 * l < length h \<Longrightarrow> take (2 * n) h = hexs (take n d) \<Longrightarrow>
     hex_string_loop h d l n = Some (hexs (take l d) @ 0 # drop (2 * l + 1) h)"
proof (induction "l - n" arbitrary: n h)
  case 0
  then have "n = l" by simp
  with 0 show ?case
    by (subst hex_string_loop.simps) (simp add: upd_conv_take_nth_drop)
next
  case (Suc k)
  define h' where "h' = h[2 * n := HexChar (drop_bit 4 (d ! n) AND 0xF), 2 * n + 1 := HexChar (d ! n AND 0xF)]"
  have n: "n < l" "n < length d" "2 * n + 1 < length h" using Suc by auto
  have "take (2 * Suc n) h' = take (2 * n) h @ [HexChar (drop_bit 4 (d ! n) AND 0xF), HexChar (d ! n AND 0xF)]"
    using n by (simp add: h'_def take_Suc_conv_app_nth)
  also have "\<dots> = hexs (take (Suc n) d)"
    using Suc.prems n by (simp add: take_Suc_conv_app_nth hexs_snoc)
  finally have "hex_string_loop h' d l (Suc n) = Some (hexs (take l d) @ 0 # drop (2 * l + 1) h')"
    by (intro Suc.hyps(1)) (use Suc n in \<open>auto simp: h'_def\<close>)
  moreover have "drop (2 * l + 1) h' = drop (2 * l + 1) h" using n by (simp add: h'_def)
  ultimately show ?case using n by (subst hex_string_loop.simps) (simp add: h'_def)
qed

lemma GetHexString_eq:
  assumes "length d < 65536" "2 * length d < length h"
  shows "GetHexString h d (of_nat (length d)) = Some (hexs d @ 0 # drop (2 * length d + 1) h)"
proof -
  have "unat (of_nat (length d) :: u16) = length d" using assms(1) by (simp add: unat_of_nat)
  then show ?thesis using hex_string_loop_eq [of 0 "length d" d h] assms(2) by (simp add: GetHexString_def hexs_def)
qed

lemma hexs_nth: "n < length d \<Longrightarrow> (hexs d @ r) ! (2 * n) = HexChar (drop_bit 4 (d ! n) AND 0xF) \<and>
    (hexs d @ r) ! (2 * n + 1) = HexChar (d ! n AND 0xF)"
proof (induction d arbitrary: n)
  case (Cons b d)
  then show ?case by (cases n) (simp_all add: hexs_def)
qed simp

lemma hex_data_loop_eq:
  "n \<le> length d \<Longrightarrow> length d \<le> length o' \<Longrightarrow> take n o' = take n d \<Longrightarrow>
     hex_data_loop o' (hexs d @ r) (2 * length d) n = Some (d @ drop (length d) o')"
proof (induction "length d - n" arbitrary: n o')
  case 0
  then have "n = length d" by simp
  with 0 show ?case by (subst hex_data_loop.simps) (simp, metis append_take_drop_id)
next
  case (Suc k)
  then have n: "n < length d" by simp
  define o2 where "o2 = o'[n := d ! n]"
  have "push_bit 4 (HexData ((hexs d @ r) ! (2 * n))) + HexData ((hexs d @ r) ! (2 * n + 1)) = d ! n"
    using hexs_nth [OF n, of r] by (simp only: HexData_HexChar nibbles_join)
  moreover have "hex_data_loop o2 (hexs d @ r) (2 * length d) (Suc n) = Some (d @ drop (length d) o2)"
    by (rule Suc.hyps(1)) (use Suc n in \<open>auto simp: o2_def take_Suc_conv_app_nth\<close>)
  ultimately show ?case
    using n Suc.prems by (subst hex_data_loop.simps) (simp add: o2_def)
qed

lemma hex_roundtrip:
  assumes d: "length d < 32768" and l: "length d \<le> length out"
  shows "GetHexData out (hexs d @ 0 # r) = Some (d @ drop (length d) out)"
proof -
  have "nul_free (hexs d)"
    by (induction d) (auto simp: hexs_def nul_free_def HexChar_nonzero [symmetric])
  then have "strlen (hexs d @ 0 # r) = Some (2 * length d)" by (simp add: strlen_app)
  moreover have "unat (of_nat (2 * length d) :: u16) = 2 * length d" using d by (simp add: unat_of_nat del: of_nat_mult)
  ultimately show ?thesis
    using hex_data_loop_eq [of 0 d out "0 # r"] l by (simp add: GetHexData_def Let_def del: of_nat_mult)
qed

end
