(* ===== verification/Ao_Http.thy ===== *)
theory Ao_Http
  imports Ao_Helper Ao_Hash Ao_CJson
begin

text \<open>
  The HTTP client of \<open>util/AoHttp.cpp\<close>, by which update packages are fetched: splitting the
  address, building the request, and reading the answer. What the peer sends is a list of results
  of \<open>Recv\<close>: the bytes of one read, at most the size of the buffer; nothing when it has closed or
  an error (\<^term>\<open>None\<close>, the code's \<open>-1\<close>). When the list is used up the connection is closed.

  \<open>isalnum\<close>, \<open>sscanf\<close> and \<open>sprintf\<close> are those of the C locale; \<open>sscanf\<close> of a \<open>%f\<close> is
  modelled for decimal fractions.
\<close>

record CAoHttp =
  m_unOffset :: u64
  m_unContentLen :: u64
  m_nHttpErrcode :: int
  m_strReqHeader :: bytes
  m_strRequestData :: bytes
  m_ucEncode :: u8

definition EN_ENCODE_GB2312 :: u8 where "EN_ENCODE_GB2312 = 0"
definition EN_ENCDOE_UTF8 :: u8 where "EN_ENCDOE_UTF8 = 2"

definition http_clear :: "CAoHttp \<Rightarrow> CAoHttp" where
  "http_clear h = h\<lparr>m_unOffset := 0, m_unContentLen := 0, m_nHttpErrcode := 0,
     m_strReqHeader := [], m_strRequestData := [], m_ucEncode := EN_ENCDOE_UTF8\<rparr>"

section \<open>The address\<close>

text \<open>\<open>std::string::find\<close> and \<open>find_first_of\<close> from a position; \<open>npos\<close> is \<^term>\<open>None\<close>.\<close>

definition str_find :: "bytes \<Rightarrow> bytes \<Rightarrow> nat \<Rightarrow> nat option" where
  "str_find s f k = map_option ((+) k) (find_sub f (drop k s))"

fun find_char :: "u8 \<Rightarrow> bytes \<Rightarrow> nat option" where
  "find_char c [] = None"
| "find_char c (x # xs) = (if x = c then Some 0 else map_option Suc (find_char c xs))"

definition str_find_of :: "bytes \<Rightarrow> u8 \<Rightarrow> nat \<Rightarrow> nat option" where
  "str_find_of s c k = map_option ((+) k) (find_char c (drop k s))"

definition is_alpha :: "u8 \<Rightarrow> bool" where
  "is_alpha c \<longleftrightarrow> (65 \<le> c \<and> c \<le> 90) \<or> (97 \<le> c \<and> c \<le> 122)"

definition is_dig :: "u8 \<Rightarrow> bool" where
  "is_dig c \<longleftrightarrow> 48 \<le> c \<and> c \<le> 57"

definition is_alnum :: "u8 \<Rightarrow> bool" where
  "is_alnum c \<longleftrightarrow> is_alpha c \<or> is_dig c"

definition is_space :: "u8 \<Rightarrow> bool" where
  "is_space c \<longleftrightarrow> c = 32 \<or> (9 \<le> c \<and> c \<le> 13)"

fun CheckHostName :: "bytes \<Rightarrow> bool" where
  "CheckHostName [] = True"
| "CheckHostName (c # cs) =
     (if c = 0 then True
      else if \<not> is_alnum c \<and> \<not> is_alpha c \<and> c \<noteq> 45 \<and> c \<noteq> 46 then False else CheckHostName cs)"

definition http_head :: bytes where "http_head = [104, 116, 116, 112, 58, 47, 47]"
definition https_head :: bytes where "https_head = [104, 116, 116, 112, 115, 58, 47, 47]"

text \<open>The host name, or \<^term>\<open>None\<close> where the routine answers \<open>false\<close>.\<close>

definition CrashHostName :: "bytes \<Rightarrow> bytes option" where
  "CrashHostName strUrl =
     (case str_find strUrl [47, 47] 0 of
        None \<Rightarrow> None
      | Some i \<Rightarrow>
          let nIndex = i + 2; strProHead = take nIndex strUrl in
          if strProHead \<noteq> http_head \<and> strProHead \<noteq> https_head then None
          else
            let unEndPos = (case str_find_of strUrl 58 nIndex of None \<Rightarrow> length strUrl | Some p \<Rightarrow> p);
                unStartObjPos = (case str_find_of strUrl 47 nIndex of None \<Rightarrow> length strUrl | Some p \<Rightarrow> p);
                strHostName = take (min unEndPos unStartObjPos - nIndex) (drop nIndex strUrl)
            in if CheckHostName strHostName then Some strHostName else None)"

fun span_digits :: "bytes \<Rightarrow> bytes \<times> bytes" where
  "span_digits [] = ([], [])"
| "span_digits (c # cs) = (if is_dig c then let (d, r) = span_digits cs in (c # d, r) else ([], c # cs))"

definition digits_val :: "bytes \<Rightarrow> nat" where
  "digits_val d = foldl (\<lambda>n c. 10 * n + unat (c - 48)) 0 d"

text \<open>
  \<open>sscanf("%d")\<close>: leading blanks, a sign, digits. No digits leave the variable as it was; a value
  outside the type is undefined.
\<close>

datatype 'a scan = NoMatch | Match 'a bytes

definition scan_sign :: "bytes \<Rightarrow> bool \<times> bytes" where
  "scan_sign s = (case s of [] \<Rightarrow> (False, []) | c # cs \<Rightarrow>
     if c = 45 then (True, cs) else if c = 43 then (False, cs) else (False, s))"

definition scan_d :: "bytes \<Rightarrow> int scan option" where
  "scan_d s =
     (let (neg, s1) = scan_sign (dropWhile is_space s); (d, r) = span_digits s1;
          v = (if neg then - int (digits_val d) else int (digits_val d))
      in if d = [] then Some NoMatch
         else if - (2 ^ 31) \<le> v \<and> v < 2 ^ 31 then Some (Match v r) else None)"

text \<open>\<open>sscanf("%llu")\<close> as \<open>strtoull\<close>: too large is the largest value, a minus sign negates.\<close>

definition scan_llu :: "bytes \<Rightarrow> u64 scan" where
  "scan_llu s =
     (let (neg, s1) = scan_sign (dropWhile is_space s); (d, r) = span_digits s1;
          v = (if digits_val d < 2 ^ 64 then of_nat (digits_val d) else - 1 :: u64)
      in if d = [] then NoMatch else Match (if neg \<and> digits_val d < 2 ^ 64 then - v else v) r)"

definition scan_f :: "bytes \<Rightarrow> bytes option" where
  "scan_f s =
     (let (neg, s1) = scan_sign (dropWhile is_space s); (d, r) = span_digits s1;
          (e, r1) = (case r of [] \<Rightarrow> ([], []) | c # cs \<Rightarrow> if c = 46 then span_digits cs else ([], r))
      in if d = [] \<and> e = [] then None else Some r1)"

definition CrashPort :: "bytes \<Rightarrow> u16 option option" where
  "CrashPort strObj =
     (if length strObj = 0 \<or> strObj ! 0 \<noteq> 58 then Some (Some 80)
      else
        let nIndex = (case find_char 47 strObj of None \<Rightarrow> length strObj | Some i \<Rightarrow> i) in
        if nIndex = 1 then Some (Some 80)
        else
          let strPort = take (nIndex - 1) (drop 1 strObj) in
          if \<not> list_all is_alnum strPort then Some None
          else case scan_d strPort of
                 None \<Rightarrow> None
               | Some m \<Rightarrow>
                   let nNum = (case m of NoMatch \<Rightarrow> 0 | Match v r \<Rightarrow> v) in
                   if nNum < 0 \<or> nNum > 65535 then Some None else Some (Some (word_of_int nNum)))"

text \<open>Host, object and port; the object stays empty when the address has no path.\<close>

definition CrashUrl :: "bytes \<Rightarrow> (bytes \<times> bytes \<times> u16) option option" where
  "CrashUrl strUrl =
     (case CrashHostName strUrl of
        None \<Rightarrow> Some None
      | Some strTempHostName \<Rightarrow>
          let nIndex = (case find_char 47 strUrl of None \<Rightarrow> 1 | Some i \<Rightarrow> i + 2) + length strTempHostName;
              strObj = drop nIndex strUrl
          in case CrashPort strObj of
               None \<Rightarrow> None
             | Some None \<Rightarrow> Some None
             | Some (Some usTempPort) \<Rightarrow>
                 Some (Some (strTempHostName,
                   (case find_char 47 strObj of None \<Rightarrow> [] | Some i \<Rightarrow> drop i strObj), usTempPort)))"

section \<open>The request\<close>

text \<open>
  \<open>Encode\<close> in the default encoding. Outside Windows \<open>Gb2312CvtUtf8\<close> is the constant \<open>false\<close>: it
  leaves the length at 10 and the buffer zero, so two bytes above \<open>0x7f\<close> become ten times \<open>%00\<close>.
\<close>

definition pct00 :: bytes where "pct00 = [37, 48, 48]"

fun encode_utf8 :: "bytes \<Rightarrow> bytes" where
  "encode_utf8 [] = []"
| "encode_utf8 (c # cs) =
     (if c > 0x7F then concat (replicate 10 pct00) @ encode_utf8 (drop 1 cs)
      else (if c = 0 then [] else [c]) @ encode_utf8 cs)"

fun encode_gb :: "bytes \<Rightarrow> bytes" where
  "encode_gb [] = []"
| "encode_gb (c # cs) =
     (if c > 0x7F then 37 # fmt_02x c else if c = 0 then [] else [c]) @ encode_gb cs"

definition Encode :: "CAoHttp \<Rightarrow> bytes \<Rightarrow> u16 \<Rightarrow> bytes" where
  "Encode h pucSrc usLen =
     (if m_ucEncode h = EN_ENCODE_GB2312 then encode_gb (take (unat usLen) pucSrc)
      else if m_ucEncode h = EN_ENCDOE_UTF8 then encode_utf8 (take (unat usLen) pucSrc) else [])"

definition SetRequestData :: "bytes \<Rightarrow> CAoHttp \<Rightarrow> CAoHttp" where
  "SetRequestData s h = h\<lparr>m_strRequestData := m_strRequestData h @ Encode h s (of_nat (length s))\<rparr>"

datatype ENHttpMethod = EN_HTTP_METHOD_GET | EN_HTTP_METHOD_POST | EN_HTTP_METHOD_PUT

definition str :: "string \<Rightarrow> bytes" where
  "str s = map (\<lambda>c. of_nat (of_char c)) s"

definition MethodString :: "ENHttpMethod \<Rightarrow> bytes" where
  "MethodString m = (case m of EN_HTTP_METHOD_GET \<Rightarrow> str ''GET ''
     | EN_HTTP_METHOD_POST \<Rightarrow> str ''POST '' | EN_HTTP_METHOD_PUT \<Rightarrow> str ''PUT '')"

definition crlf :: bytes where "crlf = [13, 10]"

definition FormatRange :: "CAoHttp \<Rightarrow> bytes" where
  "FormatRange h =
     (if m_unOffset h \<noteq> 0 then str ''Range: bytes='' @ dec (unat (m_unOffset h)) @ str ''-'' @ crlf else [])"

text \<open>The host line is printed into 255 bytes.\<close>

definition FormatRequest :: "CAoHttp \<Rightarrow> ENHttpMethod \<Rightarrow> bytes \<Rightarrow> bytes \<Rightarrow> bytes option" where
  "FormatRequest h enMth pszObj pszHost =
     (let host = str ''Host: '' @ pszHost @ crlf in
      if Suc (length host) > 255 then None
      else Some (MethodString enMth @ Encode h pszObj (of_nat (length pszObj)) @ str '' HTTP/1.1'' @ crlf @
        host @ str ''Connection: Keep-Alive'' @ crlf @ str ''Pragma:no-cache'' @ crlf @ FormatRange h @
        (if m_strReqHeader h = [] then [] else m_strReqHeader h @ crlf) @
        (if m_strRequestData h = [] then []
         else str ''Content-Length: '' @ dec (length (m_strRequestData h)) @ crlf @ crlf @
              m_strRequestData h @ crlf) @ crlf))"

section \<open>The answer\<close>

definition EN_1K :: nat where "EN_1K = 2048"

definition content_length_key :: bytes where "content_length_key = str ''Content-Length:''"

text \<open>
  \<open>ParseResponse\<close> on the buffer and the number of bytes read: whether it accepts the answer, the
  length of the header, the status and the content length. \<^term>\<open>None\<close>: a line does not fit the
  256 bytes it is copied to.
\<close>

definition copy_line :: "bytes \<Rightarrow> int \<Rightarrow> bytes \<Rightarrow> bytes option" where
  "copy_line szCnt nEndPos src =
     blit szCnt 0 src (nat nEndPos) \<bind> (\<lambda>s.
     if nat nEndPos < length s then Some (s[nat nEndPos := 0]) else None)"

text \<open>\<open>sscanf(szCnt, "HTTP/%f %d", ...)\<close> with both fields read.\<close>

definition scan_status :: "bytes \<Rightarrow> int scan option" where
  "scan_status s =
     (if take 5 s = str ''HTTP/'' then
        case scan_f (drop 5 s) of None \<Rightarrow> Some NoMatch | Some r \<Rightarrow> scan_d r
      else Some NoMatch)"

definition ParseResponse :: "CAoHttp \<Rightarrow> bytes \<Rightarrow> int \<Rightarrow> (bool \<times> CAoHttp \<times> int) option" where
  "ParseResponse h pszRep nRepLen =
     FindFirstBuf pszRep nRepLen (Some (crlf @ crlf)) 4 \<bind> (\<lambda>nIndex.
     if nIndex < 0 then Some (False, h, nRepLen)
     else
       let nRepLen = nIndex + 4 in
       FindFirstBuf pszRep nRepLen (Some crlf) 2 \<bind> (\<lambda>nEndPos.
       if nEndPos < 0 then Some (False, h, nRepLen)
       else
         copy_line (replicate 256 0) nEndPos pszRep \<bind> (\<lambda>szCnt.
         cstr_at szCnt 0 \<bind> (\<lambda>line.
         scan_status line \<bind> (\<lambda>st.
         case st of
           NoMatch \<Rightarrow> Some (False, h, nRepLen)
         | Match code _ \<Rightarrow>
             let h = h\<lparr>m_nHttpErrcode := code\<rparr>; nOneCntLen = int (length content_length_key) in
             FindFirstBuf pszRep nRepLen (Some content_length_key) (length content_length_key) \<bind> (\<lambda>i.
             let nIndex = i + nOneCntLen in
             if nIndex < nOneCntLen then Some (False, h, nRepLen)
             else
               FindFirstBuf (drop (nat nIndex) pszRep) (nRepLen - nIndex) (Some crlf) 2 \<bind> (\<lambda>nEndPos.
               if nEndPos < 0 then Some (False, h, nRepLen)
               else
                 copy_line szCnt nEndPos (drop (nat nIndex) pszRep) \<bind> (\<lambda>szCnt.
                 cstr_at szCnt 0 \<bind> (\<lambda>line.
                 Some (True, (case scan_llu line of NoMatch \<Rightarrow> h | Match v _ \<Rightarrow> h\<lparr>m_unContentLen := v\<rparr>),
                   nRepLen))))))))))"

text \<open>
  \<open>ReadData\<close>. The stream is what has been written to it and the room it has left: \<open>Write\<close> stores
  what fits.
\<close>

record out_stream =
  written :: bytes
  room :: nat

definition st_write :: "bytes \<Rightarrow> out_stream \<Rightarrow> out_stream \<times> bool" where
  "st_write d s = (s\<lparr>written := written s @ take (room s) d, room := room s - length d\<rparr>, length d \<le> room s)"

fun read_loop :: "CAoHttp \<Rightarrow> u64 \<Rightarrow> bytes option list \<Rightarrow> out_stream \<Rightarrow> bool \<times> CAoHttp \<times> out_stream" where
  "read_loop h unHas rs s =
     (if unHas < m_unContentLen h then
        case rs of
          Some (b # d) # rs' \<Rightarrow>
            let (s, ok) = st_write (b # d) s in
            if \<not> ok then (False, h, s)
            else read_loop (h\<lparr>m_unOffset := m_unOffset h + of_nat (length (b # d))\<rparr>)
                   (unHas + of_nat (length (b # d))) rs' s
        | _ \<Rightarrow> (False, h, s)
      else (True, h, s))"

declare read_loop.simps [simp del]

definition ReadData :: "CAoHttp \<Rightarrow> bytes option list \<Rightarrow> out_stream option \<Rightarrow> (bool \<times> CAoHttp \<times> out_stream option) option" where
  "ReadData h rs pAoStream =
     (let first = (case rs of [] \<Rightarrow> Some [] | r # _ \<Rightarrow> r) in
      case first of
        Some [] \<Rightarrow> Some (False, h, pAoStream)
      | _ \<Rightarrow>
          let buf = (case first of None \<Rightarrow> [] | Some d \<Rightarrow> d);
              nReadLen = (case first of None \<Rightarrow> - 1 | Some d \<Rightarrow> int (length d)) in
          ParseResponse h (buf @ replicate (EN_1K - length buf) 0) nReadLen \<bind> (\<lambda>(ok, h, nRepLen).
          if \<not> ok then Some (False, h, pAoStream)
          else case pAoStream of
            None \<Rightarrow> Some (True, h, None)
          | Some s \<Rightarrow>
              if m_unContentLen h = 0 then Some (True, h, Some s)
              else if nRepLen < nReadLen then
                let d = drop (nat nRepLen) buf; (s, w) = st_write d s in
                if \<not> w then Some (False, h, Some s)
                else
                  let (r, h, s) = read_loop (h\<lparr>m_unOffset := m_unOffset h + of_nat (length d)\<rparr>)
                        (of_nat (length d)) (tl rs) s
                  in Some (r, h, Some s)
              else let (r, h, s) = read_loop h 0 (tl rs) s in Some (r, h, Some s)))"

text \<open>
  \<open>HttpRun\<close>: the network answers a connection to a host and port with \<^term>\<open>None\<close> or with a
  function from the request to whether \<open>Send\<close> took all of it and the reads that follow. The
  error codes are those of \<open>AoDef.h\<close>.
\<close>

definition EN_NOERROR :: u32 where "EN_NOERROR = 0"
definition EN_ERROR_INVALID_PARA :: u32 where "EN_ERROR_INVALID_PARA = 1"
definition EN_ERROR_HTTP_CRASH_URL_FAIL :: u32 where "EN_ERROR_HTTP_CRASH_URL_FAIL = 0x3004"
definition EN_ERROR_HTTP_CONNECT_FAIL :: u32 where "EN_ERROR_HTTP_CONNECT_FAIL = 0x3005"
definition EN_ERROR_HTTP_DLOAD_FILE_FAIL :: u32 where "EN_ERROR_HTTP_DLOAD_FILE_FAIL = 0x3006"
definition EN_ERROR_HTTP_SEND_REQUEST_FAIL :: u32 where "EN_ERROR_HTTP_SEND_REQUEST_FAIL = 0x3007"

type_synonym network = "bytes \<Rightarrow> u16 \<Rightarrow> (bytes \<Rightarrow> bool \<times> bytes option list) option"

definition HttpRun :: "network \<Rightarrow> CAoHttp \<Rightarrow> bytes option \<Rightarrow> ENHttpMethod \<Rightarrow> out_stream option \<Rightarrow>
    (u32 \<times> CAoHttp \<times> out_stream option) option" where
  "HttpRun net h pszUrl enMt pAS =
     (case pszUrl of
        None \<Rightarrow> Some (EN_ERROR_INVALID_PARA, h, pAS)
      | Some url \<Rightarrow>
          CrashUrl url \<bind> (\<lambda>u. case u of
            None \<Rightarrow> Some (EN_ERROR_HTTP_CRASH_URL_FAIL, h, pAS)
          | Some (strHostName, strObjName, usPort) \<Rightarrow>
              (case net strHostName usPort of
                 None \<Rightarrow> Some (EN_ERROR_HTTP_CONNECT_FAIL, h, pAS)
               | Some conn \<Rightarrow>
                   FormatRequest h enMt strObjName strHostName \<bind> (\<lambda>strRequest.
                   let (sent, rs) = conn strRequest in
                   if \<not> sent then Some (EN_ERROR_HTTP_SEND_REQUEST_FAIL, h, pAS)
                   else ReadData h rs pAS \<bind> (\<lambda>(ok, h, pAS).
                     Some (if ok then EN_NOERROR else EN_ERROR_HTTP_DLOAD_FILE_FAIL, h, pAS))))))"

section \<open>Reading a well-formed answer\<close>

lemma length_crlf [simp]: "length crlf = 2" "crlf \<noteq> []"
  by (simp_all add: crlf_def)

text \<open>Decimal numbers are read back.\<close>

lemma dec_digit: "k < 10 \<Longrightarrow> is_dig (48 + of_nat k) \<and> unat ((48 + of_nat k :: u8) - 48) = k"
proof -
  assume k: "k < 10"
  then have u: "unat (48 + of_nat k :: u8) = 48 + k"
    by (simp add: unat_plus_no_wrap unat_of_nat)
  then show ?thesis using k by (simp add: is_dig_def word_le_nat_alt unat_of_nat)
qed

lemma dec_scan:
  "(\<forall>c \<in> set (dec n). is_dig c) \<and> foldl (\<lambda>n c. 10 * n + unat (c - 48)) 0 (dec n) = n \<and> dec n \<noteq> []"
proof (induction n rule: less_induct)
  case (less n)
  show ?case
  proof (cases "n < 10")
    case True
    then show ?thesis using dec_digit [of n] by (subst (1 2 3) dec.simps) simp
  next
    case False
    then have ih: "(\<forall>c \<in> set (dec (n div 10)). is_dig c) \<and>
        foldl (\<lambda>n c. 10 * n + unat (c - 48)) 0 (dec (n div 10)) = n div 10"
      using less [of "n div 10"] by simp
    have "dec n = dec (n div 10) @ [48 + of_nat (n mod 10)]" using False by (subst dec.simps) simp
    with ih dec_digit [of "n mod 10"] show ?thesis by simp
  qed
qed

lemma span_digits_app:
  "\<forall>c \<in> set d. is_dig c \<Longrightarrow> (\<And>c t. r = c # t \<Longrightarrow> \<not> is_dig c) \<Longrightarrow> span_digits (d @ r) = (d, r)"
proof (induction d)
  case Nil
  then show ?case by (cases r) auto
qed auto

lemma span_dec: "(\<And>c t. r = c # t \<Longrightarrow> \<not> is_dig c) \<Longrightarrow> span_digits (dec n @ r) = (dec n, r)"
  using dec_scan [of n] by (intro span_digits_app) auto

lemma digits_val_dec: "digits_val (dec n) = n"
  using dec_scan [of n] by (simp add: digits_val_def)

lemma dec_Cons: "\<exists>c t. dec n = c # t \<and> is_dig c"
  using dec_scan [of n] by (cases "dec n") auto

lemma dig_plain: "is_dig c \<Longrightarrow> \<not> is_space c \<and> c \<noteq> 45 \<and> c \<noteq> 43 \<and> c \<noteq> 13 \<and> c \<noteq> 0 \<and> c \<noteq> 10 \<and> c \<noteq> 46"
  by (auto simp: is_dig_def is_space_def word_le_nat_alt)

lemma scan_sign_dec: "scan_sign (dropWhile is_space (32 # dec n @ r)) = (False, dec n @ r)"
proof -
  obtain c t where "dec n = c # t" "is_dig c" using dec_Cons by blast
  then show ?thesis using dig_plain [of c] by (simp add: scan_sign_def is_space_def [of 32])
qed

lemma scan_d_dec: "n < 2 ^ 31 \<Longrightarrow> (\<And>c t. r = c # t \<Longrightarrow> \<not> is_dig c) \<Longrightarrow> scan_d (32 # dec n @ r) = Some (Match (int n) r)"
  unfolding scan_d_def scan_sign_dec using dec_scan [of n] by (simp add: span_dec digits_val_dec)

lemma scan_llu_dec: "n < 2 ^ 64 \<Longrightarrow> scan_llu (32 # dec n) = Match (of_nat n) []"
  using scan_sign_dec [of n "[]"] span_dec [of "[]" n] dec_scan [of n]
  by (simp add: scan_llu_def digits_val_dec)

text \<open>The header: a status line, fields, the length, more fields.\<close>

definition status_line :: "nat \<Rightarrow> bytes \<Rightarrow> bytes" where
  "status_line code reason = str ''HTTP/1.1 '' @ dec code @ 32 # reason"

definition length_line :: "nat \<Rightarrow> bytes" where
  "length_line n = content_length_key @ 32 # dec n"

definition line_block :: "bytes list \<Rightarrow> bytes" where
  "line_block ls = concat (map (\<lambda>l. l @ crlf) ls)"

definition http_line :: "bytes \<Rightarrow> bool" where
  "http_line l \<longleftrightarrow> l \<noteq> [] \<and> 13 \<notin> set l"

definition http_header :: "nat \<Rightarrow> bytes \<Rightarrow> bytes list \<Rightarrow> nat \<Rightarrow> bytes list \<Rightarrow> bytes" where
  "http_header code reason fs n gs =
     line_block (status_line code reason # fs @ length_line n # gs) @ crlf"

lemma scan_status_line: "code < 2 ^ 31 \<Longrightarrow> scan_status (status_line code reason) = Some (Match (int code) (32 # reason))"
proof -
  assume c: "code < 2 ^ 31"
  have h: "str ''HTTP/1.1 '' = [72, 84, 84, 80, 47, 49, 46, 49, 32]" "str ''HTTP/'' = [72, 84, 84, 80, 47]"
    by (simp_all add: str_def)
  have "scan_f ([49, 46, 49, 32] @ dec code @ 32 # reason) = Some (32 # dec code @ 32 # reason)"
    by (simp add: scan_f_def scan_sign_def is_space_def is_dig_def)
  moreover have "scan_d (32 # dec code @ 32 # reason) = Some (Match (int code) (32 # reason))"
    by (rule scan_d_dec [OF c]) (auto simp: is_dig_def)
  ultimately show ?thesis by (simp add: scan_status_def status_line_def h)
qed

text \<open>The blank line is found where the block ends.\<close>

lemma find_crlf_line: "13 \<notin> set l \<Longrightarrow> find_sub crlf (l @ crlf @ r) = Some (length l)"
  using find_sub_skip [of crlf l "crlf @ r"] by (simp add: crlf_def)

lemma find_blank_line:
  "ls \<noteq> [] \<Longrightarrow> (\<And>l. l \<in> set ls \<Longrightarrow> http_line l) \<Longrightarrow>
     find_sub (crlf @ crlf) (line_block ls @ crlf @ r) = Some (length (line_block ls) - 2)"
proof (induction ls)
  case (Cons l ls)
  have l: "hd (crlf @ crlf) \<notin> set l" using Cons.prems by (simp add: http_line_def crlf_def)
  show ?case
  proof (cases ls)
    case Nil
    then show ?thesis using find_sub_skip [OF _ l, of "crlf @ crlf @ r"] by (simp add: line_block_def crlf_def)
  next
    case (Cons m ls')
    then obtain x t where x: "line_block ls = x # t" "x \<noteq> 13"
      using Cons.prems(2) [of m] by (cases m) (auto simp: line_block_def http_line_def)
    have ih: "find_sub (crlf @ crlf) (line_block ls @ crlf @ r) = Some (length (line_block ls) - 2)"
      using Cons.IH Cons.prems Cons by simp
    have "length (line_block ls) \<ge> 2" using Cons by (simp add: line_block_def)
    moreover have "find_sub (crlf @ crlf) (crlf @ line_block ls @ crlf @ r) = Some (2 + (length (line_block ls) - 2))"
      using ih x by (simp add: crlf_def)
    ultimately show ?thesis
      using find_sub_skip [OF _ l, of "crlf @ line_block ls @ crlf @ r"]
      by (simp add: line_block_def crlf_def)
  qed
qed simp

lemma find_key_line:
  assumes "find_sub content_length_key l = None"
  shows "find_sub content_length_key (l @ crlf @ r) = map_option ((+) (length l + 2)) (find_sub content_length_key r)"
proof -
  have k: "content_length_key = [67, 111, 110, 116, 101, 110, 116, 45, 76, 101, 110, 103, 116, 104, 58]"
    by (simp add: content_length_key_def str_def)
  have "find_sub content_length_key (l @ 13 # (10 # r)) =
      map_option ((+) (Suc (length l))) (find_sub content_length_key (10 # r))"
    by (rule find_sub_cross) (use assms in \<open>auto simp: k\<close>)
  moreover have "find_sub content_length_key (10 # r) = map_option Suc (find_sub content_length_key r)"
    by (simp add: k)
  ultimately show ?thesis
    by (cases "find_sub content_length_key r") (simp_all add: crlf_def)
qed

lemma find_key_block:
  "(\<And>l. l \<in> set ls \<Longrightarrow> find_sub content_length_key l = None) \<Longrightarrow>
     find_sub content_length_key (line_block ls @ r) =
     map_option ((+) (length (line_block ls))) (find_sub content_length_key r)"
proof (induction ls)
  case Nil
  then show ?case by (simp add: line_block_def map_option.id [unfolded id_def])
next
  case (Cons l ls)
  then show ?case
    using find_key_line [of l "line_block ls @ r"]
    by (simp add: line_block_def option.map_comp comp_def add.assoc)
qed

lemma copy_line_eq:
  "length szCnt = 256 \<Longrightarrow> length l < 256 \<Longrightarrow> nul_free l \<Longrightarrow>
     \<exists>s. copy_line szCnt (int (length l)) (l @ r) = Some s \<and> length s = 256 \<and> cstr_at s 0 = Some l"
  using cstr_at_app0 [of l "drop (Suc (length l)) szCnt"]
  by (auto simp: copy_line_def blit_def cstr_def list_update_append upd_conv_take_nth_drop
      Cons_nth_drop_Suc [symmetric])

lemma nul_free_dec: "nul_free (dec n)"
  using dec_scan [of n] dig_plain by (auto simp: nul_free_def)

lemma http_line_dec: "13 \<notin> set (dec n)"
  using dec_scan [of n] dig_plain by auto

lemma key_bytes: "content_length_key = [67, 111, 110, 116, 101, 110, 116, 45, 76, 101, 110, 103, 116, 104, 58]"
  by (simp add: content_length_key_def str_def)

lemma length_key [simp]: "length content_length_key = 15" "content_length_key \<noteq> []"
  by (simp_all add: key_bytes)

lemma status_bytes: "status_line code reason = [72, 84, 84, 80, 47, 49, 46, 49, 32] @ dec code @ 32 # reason"
  by (simp add: status_line_def str_def)

lemma ParseResponse_header:
  assumes code: "code < 2 ^ 31" and n: "n < 2 ^ 64"
    and status: "length (status_line code reason) < 256" "13 \<notin> set reason" "nul_free reason"
    and fs: "\<And>l. l \<in> set fs \<Longrightarrow> http_line l \<and> find_sub content_length_key l = None"
    and gs: "\<And>l. l \<in> set gs \<Longrightarrow> http_line l"
    and key: "find_sub content_length_key (status_line code reason) = None"
    and buf: "buf = http_header code reason fs n gs @ b" and m: "m = length buf"
  shows "ParseResponse h (buf @ junk) (int m) =
     Some (True, h\<lparr>m_nHttpErrcode := int code, m_unContentLen := of_nat n\<rparr>,
       int (length (http_header code reason fs n gs)))"
proof -
  define hdr where "hdr = http_header code reason fs n gs"
  define ls where "ls = status_line code reason # fs @ length_line n # gs"
  define sl where "sl = status_line code reason"
  have hdr: "hdr = line_block ls @ crlf" by (simp add: hdr_def http_header_def ls_def)
  have lines: "l \<in> set ls \<Longrightarrow> http_line l" for l
    using fs gs status http_line_dec
    by (auto simp: ls_def http_line_def status_bytes length_line_def key_bytes)
  have lb: "2 \<le> length (line_block ls)" by (simp add: ls_def line_block_def)
  have blank: "FindFirstBuf (buf @ junk) (int m) (Some (crlf @ crlf)) 4 = Some (int (length hdr - 4))"
  proof -
    have "find_sub (crlf @ crlf) (line_block ls @ crlf @ b) = Some (length (line_block ls) - 2)"
      by (rule find_blank_line) (use lines in \<open>auto simp: ls_def\<close>)
    then show ?thesis
      using FindFirstBuf_eq [of "crlf @ crlf" m "buf @ junk"]
      by (simp add: m buf hdr_def [symmetric] hdr)
  qed
  have l4: "int (length hdr - 4) + 4 = int (length hdr)" using lb by (simp add: hdr)
  have mh: "length hdr \<le> length (buf @ junk)" "take (length hdr) (buf @ junk) = hdr"
    by (simp_all add: buf hdr_def [symmetric])
  have hs: "hdr = sl @ crlf @ (line_block fs @ length_line n @ crlf @ line_block gs @ crlf)"
    by (simp add: hdr ls_def sl_def line_block_def)
  have first: "FindFirstBuf (buf @ junk) (int (length hdr)) (Some crlf) 2 = Some (int (length sl))"
  proof -
    have "find_sub crlf hdr = Some (length sl)"
      unfolding hs by (rule find_crlf_line) (use lines [of sl] in \<open>auto simp: http_line_def ls_def sl_def\<close>)
    then show ?thesis using FindFirstBuf_eq [of crlf "length hdr" "buf @ junk"] mh by simp
  qed
  obtain r1 where r1: "buf @ junk = sl @ r1" by (simp add: buf hdr_def [symmetric] hs)
  have "nul_free sl" using status(3) nul_free_dec by (auto simp: sl_def status_bytes nul_free_def)
  then obtain s1 where s1: "copy_line (replicate 256 0) (int (length sl)) (buf @ junk) = Some s1"
    "length s1 = 256" "cstr_at s1 0 = Some sl"
    using copy_line_eq [of "replicate 256 0" sl r1] status(1) by (auto simp: r1 sl_def)
  define p where "p = length sl + 2 + length (line_block fs)"
  have keyat: "FindFirstBuf (buf @ junk) (int (length hdr)) (Some content_length_key) 15 = Some (int p)"
  proof -
    define rest where "rest = crlf @ line_block gs @ crlf"
    have "find_sub content_length_key (length_line n @ rest) = Some 0"
      by (simp add: length_line_def key_bytes)
    then have "find_sub content_length_key (sl @ crlf @ line_block fs @ length_line n @ rest) = Some p"
      using find_key_line [of sl "line_block fs @ length_line n @ rest"]
        find_key_block [of fs "length_line n @ rest"] key fs
      by (simp add: p_def sl_def)
    then have "find_sub content_length_key hdr = Some p" by (simp add: hs rest_def)
    then show ?thesis
      using FindFirstBuf_eq [of content_length_key "length hdr" "buf @ junk"] mh
      by simp
  qed
  define q where "q = p + 15"
  obtain r2 where r2: "drop q hdr = 32 # dec n @ crlf @ r2" "q \<le> length hdr"
    by (simp add: hs p_def q_def length_line_def)
  have dq: "drop q (buf @ junk) = 32 # dec n @ crlf @ (r2 @ b @ junk)"
    using r2 by (simp add: buf hdr_def [symmetric])
  have second: "FindFirstBuf (drop q (buf @ junk)) (int (length hdr) - int q) (Some crlf) 2 =
      Some (int (length (32 # dec n)))"
  proof -
    have eq: "int (length hdr) - int q = int (length hdr - q)" using r2(2) by simp
    have le: "length hdr - q \<le> length (drop q (buf @ junk))"
      and tk: "take (length hdr - q) (drop q (buf @ junk)) = drop q hdr"
      using r2(2) by (simp_all add: buf hdr_def [symmetric])
    have fd: "find_sub crlf (32 # dec n @ crlf @ r2) = Some (length (32 # dec n))"
      using find_crlf_line [of "32 # dec n" r2] http_line_dec by simp
    show ?thesis
      using FindFirstBuf_eq [OF length_crlf(2) le]
      by (simp only: eq tk r2(1) fd option.case length_crlf(1))
  qed
  have "length (dec n) \<le> 20" using n by (intro length_dec_le) auto
  moreover have "nul_free (32 # dec n)" using nul_free_dec by (simp add: nul_free_def)
  ultimately obtain s2 where s2: "copy_line s1 (int (length (32 # dec n))) (drop q (buf @ junk)) = Some s2"
    "cstr_at s2 0 = Some (32 # dec n)"
    unfolding dq using copy_line_eq [of s1 "32 # dec n" "crlf @ r2 @ b @ junk"] s1(2) by auto
  have nn: "int p + int 15 = int q" "\<not> int q < int 15" by (simp_all add: q_def)
  show ?thesis
    unfolding hdr_def [symmetric]
    by (simp only: ParseResponse_def blank bind.bind_lunit Let_def l4 first of_nat_less_0_iff not_less0 if_False
        s1 scan_status_line [OF code, of reason, folded sl_def] scan.case length_key keyat nn nat_int second s2
        scan_llu_dec [OF n])
qed

lemma read_loop_eq:
  "(\<And>d. d \<in> set ds \<Longrightarrow> d \<noteq> []) \<Longrightarrow> unat has + length (concat ds) = unat (m_unContentLen h) \<Longrightarrow>
     length (concat ds) \<le> room s \<Longrightarrow>
     read_loop h has (map Some ds @ later) s =
     (True, h\<lparr>m_unOffset := m_unOffset h + of_nat (length (concat ds))\<rparr>,
      s\<lparr>written := written s @ concat ds, room := room s - length (concat ds)\<rparr>)"
proof (induction ds arbitrary: has h s)
  case Nil
  then have "\<not> has < m_unContentLen h" by (simp add: word_less_nat_alt)
  then show ?case by (simp add: read_loop.simps)
next
  case (Cons d ds)
  obtain x t where d: "d = x # t" using Cons.prems(1) [of d] by (cases d) auto
  have lt: "has < m_unContentLen h" using Cons.prems(2) d by (simp add: word_less_nat_alt)
  have u: "unat (has + of_nat (length d)) = unat has + length d"
  proof -
    have b: "unat has + length d < 2 ^ 64" using Cons.prems(2) unat_lt [of "m_unContentLen h"] by simp
    then have "unat (of_nat (length d) :: u64) = length d" by (simp add: unat_of_nat)
    then show ?thesis using b unat_plus_no_wrap [of has "of_nat (length d)"] by simp
  qed
  define s' where "s' = s\<lparr>written := written s @ d, room := room s - length d\<rparr>"
  define h' where "h' = h\<lparr>m_unOffset := m_unOffset h + of_nat (length d)\<rparr>"
  have w: "st_write d s = (s', True)" using Cons.prems(3) by (simp add: st_write_def s'_def)
  have "read_loop h has (map Some (d # ds) @ later) s = read_loop h' (has + of_nat (length d)) (map Some ds @ later) s'"
    using lt w by (subst read_loop.simps) (simp add: d h'_def)
  also have "\<dots> = (True, h'\<lparr>m_unOffset := m_unOffset h' + of_nat (length (concat ds))\<rparr>,
      s'\<lparr>written := written s' @ concat ds, room := room s' - length (concat ds)\<rparr>)"
    by (rule Cons.IH) (use Cons.prems u in \<open>auto simp: h'_def s'_def\<close>)
  finally show ?case by (simp add: h'_def s'_def add.assoc)
qed

text \<open>
  Downloading is exact. When the header of the answer arrives whole in the first read, with a
  status line below 256 bytes, then however the peer cuts the announced number of body bytes into
  reads, \<open>ReadData\<close> succeeds, the stream receives exactly the body, the status and the length are
  recorded and the resume offset advances by the length; what follows on the connection is not read.
\<close>

lemma ReadData_exact:
  assumes "code < 2 ^ 31" and "length (status_line code reason) < 256"
    and "13 \<notin> set reason" and "nul_free reason"
    and "\<And>l. l \<in> set fs \<Longrightarrow> http_line l \<and> find_sub content_length_key l = None"
    and "\<And>l. l \<in> set gs \<Longrightarrow> http_line l"
    and "find_sub content_length_key (status_line code reason) = None"
    and "length body < 2 ^ 64" and "body \<noteq> []" and "body = b @ concat ds"
    and "\<And>d. d \<in> set ds \<Longrightarrow> d \<noteq> []" and "length body \<le> room s"
  shows "ReadData h (Some (http_header code reason fs (length body) gs @ b) # map Some ds @ later) (Some s) =
     Some (True, h\<lparr>m_unOffset := m_unOffset h + of_nat (length body), m_unContentLen := of_nat (length body),
         m_nHttpErrcode := int code\<rparr>,
       Some (s\<lparr>written := written s @ body, room := room s - length body\<rparr>))"
proof -
  define hdr where "hdr = http_header code reason fs (length body) gs"
  define h1 where "h1 = h\<lparr>m_nHttpErrcode := int code, m_unContentLen := of_nat (length body) :: u64\<rparr>"
  have parse: "ParseResponse h ((hdr @ b) @ junk) (int (length (hdr @ b))) = Some (True, h1, int (length hdr))" for junk
    using ParseResponse_header [OF assms(1,8,2,3,4,5,6,7) refl refl] unfolding hdr_def h1_def by auto
  obtain x t where hb: "hdr = x # t" by (simp add: hdr_def http_header_def line_block_def status_bytes)
  have len: "unat (m_unContentLen h1) = length body" using assms(8) by (simp add: h1_def unat_of_nat)
  then have nz: "m_unContentLen h1 \<noteq> 0" using assms(9) by auto
  show ?thesis
  proof (cases "b = []")
    case True
    have "read_loop h1 0 (map Some ds @ later) s =
      (True, h1\<lparr>m_unOffset := m_unOffset h1 + of_nat (length (concat ds))\<rparr>,
        s\<lparr>written := written s @ concat ds, room := room s - length (concat ds)\<rparr>)"
      by (rule read_loop_eq) (use assms True len in auto)
    then show ?thesis
      using parse [of "replicate (EN_1K - length hdr) 0"] nz hb True assms(10)
      unfolding hdr_def [symmetric] by (simp add: ReadData_def Let_def) (simp add: h1_def)
  next
    case False
    define s1 where "s1 = s\<lparr>written := written s @ b, room := room s - length b\<rparr>"
    define h2 where "h2 = h1\<lparr>m_unOffset := m_unOffset h1 + of_nat (length b)\<rparr>"
    have w: "st_write b s = (s1, True)" using assms(10,12) by (simp add: st_write_def s1_def)
    have "read_loop h2 (of_nat (length b)) (map Some ds @ later) s1 =
      (True, h2\<lparr>m_unOffset := m_unOffset h2 + of_nat (length (concat ds))\<rparr>,
        s1\<lparr>written := written s1 @ concat ds, room := room s1 - length (concat ds)\<rparr>)"
    proof (rule read_loop_eq)
      have "unat (of_nat (length b) :: u64) = length b" using assms(8,10) by (simp add: unat_of_nat)
      then show "unat (of_nat (length b) :: u64) + length (concat ds) = unat (m_unContentLen h2)"
        using len assms(10) by (simp add: h2_def)
    qed (use assms in \<open>auto simp: s1_def\<close>)
    moreover have "drop (nat (int (length hdr))) (hdr @ b) = b" by simp
    ultimately show ?thesis
      using parse [of "replicate (EN_1K - length (hdr @ b)) 0"] nz hb False w assms(10)
      unfolding hdr_def [symmetric] by (simp add: ReadData_def Let_def h2_def [symmetric])
        (simp add: h2_def s1_def h1_def add.assoc)
  qed
qed

text \<open>
  A first line of 256 bytes or more is copied past the end of the 256-byte array on the stack,
  whatever follows.
\<close>

lemma long_status_line_overflows:
  assumes "find_sub (crlf @ crlf) buf = Some i" "find_sub crlf (take (i + 4) buf) = Some n" "256 \<le> n"
  shows "ParseResponse h buf (int (length buf)) = None"
proof -
  have l: "i + 4 \<le> length buf" using find_sub_Some [OF assms(1)] by (simp add: crlf_def)
  have "FindFirstBuf buf (int (length buf)) (Some (crlf @ crlf)) 4 = Some (int i)"
    using FindFirstBuf_eq [of "crlf @ crlf" "length buf" buf] assms(1) by simp
  moreover have "FindFirstBuf buf (int i + 4) (Some crlf) 2 = Some (int n)"
    using FindFirstBuf_eq [of crlf "i + 4" buf] assms(2) l by simp
  moreover have "copy_line (replicate 256 0) (int n) buf = None"
    using assms(3) by (auto simp: copy_line_def blit_def)
  ultimately show ?thesis by (simp add: ParseResponse_def)
qed

end
