(* ===== verification/Ao_Licence.thy ===== *)
theory Ao_Licence
  imports Ao_FileControl Ao_Http Ao_Dispatcher
begin

text \<open>
  Activation and authentication, the parts both sides share and the client's side: the wire
  records of \<open>AodsAodcMsgDef.h\<close>, the activation code, the licence file the installer writes
  (\<open>install/AodsActiveModule.cpp\<close>) and the deployed service reads back
  (\<open>aods/AodsAuthModule.cpp\<close>).

  A handler is a function from its module's state and the data of the message it is given; reading
  past the data is \<^term>\<open>None\<close>. What it sends is a list of receiving module, message code and data.
  \<open>ae0\<close> is a cipher object before its constructor ran, and memory is taken to suffice.
\<close>

type_synonym out_msg = "u32 \<times> u32 \<times> bytes"

definition EN_MODULE_ID_COMMU :: u32 where "EN_MODULE_ID_COMMU = 3"
definition EN_MODULE_ID_KAFKA :: u32 where "EN_MODULE_ID_KAFKA = 0x103"

definition EN_AO_MSG_CHANNEL_FREE :: u32 where "EN_AO_MSG_CHANNEL_FREE = 21"
definition EN_AO_MSG_CHANNEL_SEND_DATA :: u32 where "EN_AO_MSG_CHANNEL_SEND_DATA = 24"
definition EN_AO_MSG_AUTH_SUC :: u32 where "EN_AO_MSG_AUTH_SUC = 0x200"
definition EN_AO_MSG_SND2KAFKA :: u32 where "EN_AO_MSG_SND2KAFKA = 0x201"
definition EN_AO_MSG_AUTHEN_SUC :: u32 where "EN_AO_MSG_AUTHEN_SUC = 0x200"

definition EN_AODS_AODC_ACTV :: u32 where "EN_AODS_AODC_ACTV = 1"
definition EN_AODC_AODS_ACTV :: u32 where "EN_AODC_AODS_ACTV = 2"
definition EN_AODS_AODC_AUTH :: u32 where "EN_AODS_AODC_AUTH = 3"
definition EN_AODC_AODS_AUTH :: u32 where "EN_AODC_AODS_AUTH = 4"
definition EN_AODS_AODC_KEEPALIVE :: u32 where "EN_AODS_AODC_KEEPALIVE = 13"
definition EN_AODC_AODS_KEEPALIVE :: u32 where "EN_AODC_AODS_KEEPALIVE = 14"

definition EN_AUTH_RESULT_SUC :: u8 where "EN_AUTH_RESULT_SUC = 0"
definition EN_AUTH_RESULT_FAI :: u8 where "EN_AUTH_RESULT_FAI = 1"
definition EN_AUTH_RESULT_DIF :: u8 where "EN_AUTH_RESULT_DIF = 2"
definition EN_AUTH_RESULT_BUS :: u8 where "EN_AUTH_RESULT_BUS = 3"

definition EN_RES_ID_LEN :: nat where "EN_RES_ID_LEN = 6"
definition EN_RD_SERIAL_LEN :: nat where "EN_RD_SERIAL_LEN = 14"
definition EN_ACT_CODE_LEN :: nat where "EN_ACT_CODE_LEN = EN_RES_ID_LEN + EN_RD_SERIAL_LEN"
definition EN_IP_BYTES :: nat where "EN_IP_BYTES = 16 * 4"
definition EN_AODS_AODC_MSG_SIZE :: nat where "EN_AODS_AODC_MSG_SIZE = 4"

text \<open>\<open>strcmp(p, s) == 0\<close> with a literal \<open>s\<close>: it stops at the first difference.\<close>

fun same_str :: "bytes \<Rightarrow> bytes \<Rightarrow> bool option" where
  "same_str [] s = None"
| "same_str (c # b) [] = Some (c = 0)"
| "same_str (c # b) (d # s) = (if c = d then same_str b s else Some False)"

lemma same_str_cstr: "nul_free n \<Longrightarrow> nul_free s \<Longrightarrow> same_str (cstr n @ r) s = Some (n = s)"
proof (induction n arbitrary: s)
  case Nil
  then show ?case by (cases s) (auto simp: cstr_def nul_free_def)
next
  case (Cons c n)
  then show ?case by (cases s) (auto simp: cstr_def nul_free_def)
qed

text \<open>The channel names, and the header every message carries.\<close>

definition aodc_client :: bytes where "aodc_client = str ''AodcClient''"
definition aods_server :: bytes where "aods_server = str ''AodsServer''"

definition aam :: "u32 \<Rightarrow> bytes \<Rightarrow> bytes" where
  "aam msgcode szMsg = le32 msgcode @ szMsg"

section \<open>Wire records\<close>

record AODS_AODC_AUTHEN =
  ucIpNum :: u8
  unIpAddr :: bytes
  ucResId :: bytes
  ucRDSerial :: bytes
  ucActCode :: bytes

definition authen_wf :: "AODS_AODC_AUTHEN \<Rightarrow> bool" where
  "authen_wf a \<longleftrightarrow> length (unIpAddr a) = EN_IP_BYTES \<and> length (ucResId a) = EN_RES_ID_LEN \<and>
     length (ucRDSerial a) = EN_RD_SERIAL_LEN \<and> length (ucActCode a) = EN_ACT_CODE_LEN"

definition EN_AODS_AODC_AUTHEN_SIZE :: nat where
  "EN_AODS_AODC_AUTHEN_SIZE = 1 + EN_IP_BYTES + EN_RES_ID_LEN + EN_RD_SERIAL_LEN + EN_ACT_CODE_LEN"

definition authen_bytes :: "AODS_AODC_AUTHEN \<Rightarrow> bytes" where
  "authen_bytes a = ucIpNum a # unIpAddr a @ ucResId a @ ucRDSerial a @ ucActCode a"

text \<open>The cast of a buffer of that size.\<close>

definition authen_of :: "bytes \<Rightarrow> AODS_AODC_AUTHEN" where
  "authen_of d = \<lparr>ucIpNum = d ! 0, unIpAddr = take EN_IP_BYTES (drop 1 d),
     ucResId = take EN_RES_ID_LEN (drop 65 d), ucRDSerial = take EN_RD_SERIAL_LEN (drop 71 d),
     ucActCode = take EN_ACT_CODE_LEN (drop 85 d)\<rparr>"

lemmas len_defs = EN_RES_ID_LEN_def EN_RD_SERIAL_LEN_def EN_ACT_CODE_LEN_def EN_IP_BYTES_def
  EN_AODS_AODC_AUTHEN_SIZE_def EN_AODS_AODC_MSG_SIZE_def

lemma authen_of_bytes: "authen_wf a \<Longrightarrow> authen_of (authen_bytes a) = a"
  by (cases a) (simp add: authen_of_def authen_bytes_def authen_wf_def len_defs drop_Cons')

lemma length_authen_bytes: "authen_wf a \<Longrightarrow> length (authen_bytes a) = EN_AODS_AODC_AUTHEN_SIZE"
  by (simp add: authen_bytes_def authen_wf_def len_defs)

section \<open>The activation code\<close>

text \<open>
  \<open>CalcActiveCode\<close>, the same in both modules of the centre: the last of the twenty bytes becomes
  the XOR of the others, and the whole is enciphered under a built-in key.
\<close>

definition ramp_key :: "nat \<Rightarrow> nat \<Rightarrow> u8" where
  "ramp_key base n = of_nat n + of_nat base"

definition CalcActiveCode :: "ao_encrypt \<Rightarrow> bytes \<Rightarrow> bytes option" where
  "CalcActiveCode ae0 pszActiveCode =
     CalcCrc8 pszActiveCode (of_nat (EN_ACT_CODE_LEN - 1)) \<bind> (\<lambda>crc.
     Some (ae_encode (ae_set_key (ramp_key 0x3F) 16 (ae_default ae0))
       (pszActiveCode[EN_ACT_CODE_LEN - 1 := crc])))"

section \<open>Addresses of the machine\<close>

text \<open>
  \<open>GetIpAddrs\<close>, the same in both programs: the IPv4 addresses of the interfaces as the operating
  system lists them, or a failure; at most \<open>ucNum\<close> of them are stored from the start of the array,
  and the count is a reference that keeps its value when the call fails. \<^term>\<open>None\<close> is a store
  outside the array.
\<close>

fun put_ips :: "u32 list \<Rightarrow> nat \<Rightarrow> nat \<Rightarrow> bytes \<Rightarrow> (nat \<times> bytes) option" where
  "put_ips [] num i arr = Some (i, arr)"
| "put_ips (a # as) num i arr =
     (if i \<ge> num then Some (i, arr)
      else blit arr (4 * i) (le32 a) 4 \<bind> put_ips as num (Suc i))"

definition GetIpAddrs :: "u32 list option \<Rightarrow> u8 \<Rightarrow> bytes \<Rightarrow> (bool \<times> u8 \<times> bytes) option" where
  "GetIpAddrs ifs ucNum punIpAddrs =
     (case ifs of
        None \<Rightarrow> Some (False, ucNum, punIpAddrs)
      | Some as \<Rightarrow> map_option (\<lambda>(n, arr). (True, of_nat n, arr)) (put_ips as (unat ucNum) 0 punIpAddrs))"

lemma put_ips_ok:
  "i \<le> num \<Longrightarrow> 4 * num \<le> length arr \<Longrightarrow>
     \<exists>n arr'. put_ips as num i arr = Some (n, arr') \<and> n \<le> num \<and> length arr' = length arr"
proof (induction as arbitrary: i arr)
  case (Cons a as)
  show ?case
  proof (cases "i \<ge> num")
    case False
    then obtain arr1 where "blit arr (4 * i) (le32 a) 4 = Some arr1" "length arr1 = length arr"
      using Cons.prems by (auto simp: blit_def)
    with Cons.IH [of "Suc i" arr1] Cons.prems False show ?thesis by simp
  qed (use Cons.prems in simp)
qed simp

lemma GetIpAddrs_ok:
  assumes "ifs = Some as" and "4 * unat num \<le> length arr"
  obtains n arr' where "GetIpAddrs ifs num arr = Some (True, n, arr')" "n \<le> num" "length arr' = length arr"
proof -
  obtain n arr' where "put_ips as (unat num) 0 arr = Some (n, arr')" "n \<le> unat num" "length arr' = length arr"
    using put_ips_ok [of 0 "unat num" arr as] assms(2) by auto
  moreover from this have "(of_nat n :: u8) \<le> num"
    using unat_lt [of num] by (simp add: word_le_nat_alt unat_of_nat)
  ultimately show thesis using assms(1) by (intro that [of "of_nat n" arr']) (simp_all add: GetIpAddrs_def)
qed

section \<open>The installer\<close>

record install_module =
  m_bActived :: bool
  m_ucIndex :: u8
  m_ucRDSerial :: bytes
  m_ucIpNum :: u8
  m_unIpAddr :: bytes

text \<open>The constructor leaves the index and the serial as they are in memory.\<close>

definition install_new :: "u8 \<Rightarrow> bytes \<Rightarrow> install_module" where
  "install_new idx serial = \<lparr>m_bActived = False, m_ucIndex = idx, m_ucRDSerial = serial,
     m_ucIpNum = 0, m_unIpAddr = replicate EN_IP_BYTES 0\<rparr>"

definition OnSetActivePara :: "install_module \<Rightarrow> bytes \<Rightarrow> install_module option" where
  "OnSetActivePara m msg = (case msg of [] \<Rightarrow> None | b # _ \<Rightarrow> Some (m\<lparr>m_ucIndex := b\<rparr>))"

text \<open>
  The activation request: a fresh random serial (\<open>rnd\<close>) and the addresses of the machine; whether
  they could be found is not looked at.
\<close>

definition active_bytes :: "u8 \<Rightarrow> u8 \<Rightarrow> bytes \<Rightarrow> bytes \<Rightarrow> bytes \<Rightarrow> bytes" where
  "active_bytes idx num ips resid serial = idx # num # ips @ resid @ serial"

definition ins_OnChannelBuild ::
  "bytes \<Rightarrow> u32 list option \<Rightarrow> install_module \<Rightarrow> bytes \<Rightarrow> (install_module \<times> out_msg list) option" where
  "ins_OnChannelBuild rnd ifs m msg =
     (if m_bActived m then Some (m, [])
      else
        same_str msg aodc_client \<bind> (\<lambda>same.
        if \<not> same then Some (m, [])
        else
          GetIpAddrs ifs 16 (m_unIpAddr m) \<bind> (\<lambda>(_, n, ips).
          Some (m\<lparr>m_ucRDSerial := rnd, m_ucIpNum := n, m_unIpAddr := ips\<rparr>,
             [(EN_MODULE_ID_COMMU, EN_AO_MSG_CHANNEL_SEND_DATA,
               cstr aodc_client @ aam EN_AODS_AODC_ACTV
                 (active_bytes (m_ucIndex m) n ips (replicate EN_RES_ID_LEN 0) rnd))]))))"

text \<open>\<open>SaveActive\<close>: the file \<open>data/aoauth.db\<close> under the program's directory, enciphered.\<close>

definition licence_file :: "bytes \<Rightarrow> bytes" where
  "licence_file szDir = szDir @ str ''/data/aoauth.db''"

definition SaveActive ::
  "(bytes \<Rightarrow> bool) \<Rightarrow> ao_encrypt \<Rightarrow> bytes \<Rightarrow> file_store \<Rightarrow> install_module \<Rightarrow> bytes \<Rightarrow> bytes \<Rightarrow> (file_store \<times> bool) option" where
  "SaveActive deny ae0 szDir fs m resid code =
     (if Suc (length (licence_file szDir)) > 256 then None
      else
        let szSaveData = resid @ m_ucRDSerial m @ [m_ucIpNum m] @ m_unIpAddr m @ code;
            (fs, af, ok) = af_open deny fs (licence_file szDir) ModeWb
        in if \<not> ok then Some (fs, False)
           else let (fs, _, _) = af_write fs af
                  (ae_encode (ae_set_key (ramp_key 0xBC) 16 (ae_default ae0)) szSaveData)
                in Some (fs, True))"

text \<open>
  The answer of the centre. Whatever it says, the installer counts as activated and leaves; on
  success it saves the licence and asks for the service to be installed (the third component).
\<close>

definition ins_OnRecvChannelData ::
  "(bytes \<Rightarrow> bool) \<Rightarrow> ao_encrypt \<Rightarrow> bytes \<Rightarrow> file_store \<Rightarrow> install_module \<Rightarrow> bytes \<Rightarrow>
     (file_store \<times> install_module \<times> bool \<times> out_msg list) option" where
  "ins_OnRecvChannelData deny ae0 szDir fs m msg =
     same_str msg aodc_client \<bind> (\<lambda>same.
     let off = length aodc_client + 1 in
     if \<not> same \<or> length msg \<le> off + EN_AODS_AODC_MSG_SIZE then Some (fs, m, False, [])
     else
       rd32 msg off \<bind> (\<lambda>msgcode.
       if msgcode \<noteq> EN_AODC_AODS_ACTV then Some (fs, m, False, [])
       else
         let d = drop (off + EN_AODS_AODC_MSG_SIZE) msg;
             m' = m\<lparr>m_bActived := True\<rparr>;
             exit = [(EN_MODULE_ID_BROADCAST, EN_AO_MSG_EXIT, [])]
         in if d ! 0 \<noteq> 0 \<or> length d \<noteq> 1 + EN_RES_ID_LEN + EN_ACT_CODE_LEN then Some (fs, m', False, exit)
            else
              SaveActive deny ae0 szDir fs m' (take EN_RES_ID_LEN (drop 1 d)) (drop 7 d) \<bind> (\<lambda>(fs, ok).
              Some (fs, m', ok, exit))))"

section \<open>The deployed service\<close>

text \<open>\<open>ReadActiveData\<close>; the inner \<^term>\<open>None\<close> is \<open>false\<close>.\<close>

definition ReadActiveData ::
  "(bytes \<Rightarrow> bool) \<Rightarrow> ao_encrypt \<Rightarrow> bytes \<Rightarrow> file_store \<Rightarrow> AODS_AODC_AUTHEN option option" where
  "ReadActiveData deny ae0 szDir fs =
     (if Suc (length (licence_file szDir)) > 256 then None
      else
        let (fs, af, ok) = af_open deny fs (licence_file szDir) ModeRb in
        if \<not> ok then Some None
        else
          let d = file_bytes fs (licence_file szDir) in
          if length d < EN_AODS_AODC_AUTHEN_SIZE then Some None
          else
            let b = ae_decode (ae_set_key (ramp_key 0xBC) 16 (ae_default ae0)) d in
            Some (Some \<lparr>ucIpNum = b ! 20, unIpAddr = take EN_IP_BYTES (drop 21 b),
              ucResId = take EN_RES_ID_LEN b, ucRDSerial = take EN_RD_SERIAL_LEN (drop 6 b),
              ucActCode = take EN_ACT_CODE_LEN (drop 85 b)\<rparr>))"

text \<open>The request is put together in 1024 bytes from \<open>malloc\<close>, which no path gives back.\<close>

definition OnAuthen ::
  "(bytes \<Rightarrow> bool) \<Rightarrow> ao_encrypt \<Rightarrow> bytes \<Rightarrow> file_store \<Rightarrow> u32 list option \<Rightarrow> bytes \<Rightarrow> out_msg list option" where
  "OnAuthen deny ae0 szDir fs ifs pszChannelName =
     (if length (cstr pszChannelName) + EN_AODS_AODC_MSG_SIZE + EN_AODS_AODC_AUTHEN_SIZE > 1024 then None
      else
        ReadActiveData deny ae0 szDir fs \<bind> (\<lambda>r.
        case r of
          None \<Rightarrow> Some [(EN_MODULE_ID_BROADCAST, EN_AO_MSG_EXIT, [])]
        | Some a \<Rightarrow>
            GetIpAddrs ifs (ucIpNum a) (unIpAddr a) \<bind> (\<lambda>(ok, n, ips).
            if \<not> ok then Some [(EN_MODULE_ID_BROADCAST, EN_AO_MSG_EXIT, [])]
            else Some [(EN_MODULE_ID_COMMU, EN_AO_MSG_CHANNEL_SEND_DATA,
                   cstr pszChannelName @ aam EN_AODS_AODC_AUTH (authen_bytes (a\<lparr>ucIpNum := n, unIpAddr := ips\<rparr>)))])))"

definition aods_OnChannelBuild ::
  "(bytes \<Rightarrow> bool) \<Rightarrow> ao_encrypt \<Rightarrow> bytes \<Rightarrow> file_store \<Rightarrow> u32 list option \<Rightarrow> bytes \<Rightarrow> out_msg list option" where
  "aods_OnChannelBuild deny ae0 szDir fs ifs msg =
     same_str msg aodc_client \<bind> (\<lambda>same.
     if \<not> same then Some [] else OnAuthen deny ae0 szDir fs ifs aodc_client)"

text \<open>
  \<open>OnRecvChannelData\<close>: keep-alive, and the verdict. A refused client tells every module to leave and
  asks for the service to be stopped (the second component).
\<close>

definition aods_OnRecvChannelData ::
  "(bytes \<Rightarrow> bool) \<Rightarrow> ao_encrypt \<Rightarrow> bytes \<Rightarrow> file_store \<Rightarrow> u32 list option \<Rightarrow> bytes \<Rightarrow> (out_msg list \<times> bool) option" where
  "aods_OnRecvChannelData deny ae0 szDir fs ifs msg =
     same_str msg aodc_client \<bind> (\<lambda>same.
     let off = length aodc_client + 1 in
     if \<not> same \<or> length msg < off + EN_AODS_AODC_MSG_SIZE then Some ([], False)
     else
       rd32 msg off \<bind> (\<lambda>msgcode.
       let d = drop (off + EN_AODS_AODC_MSG_SIZE) msg in
       if msgcode = EN_AODC_AODS_KEEPALIVE then
         Some ([(EN_MODULE_ID_COMMU, EN_AO_MSG_CHANNEL_SEND_DATA, cstr aodc_client @ aam EN_AODS_AODC_KEEPALIVE [])], False)
       else if msgcode \<noteq> EN_AODC_AODS_AUTH \<or> length d < 1 then Some ([], False)
       else if d ! 0 = EN_AUTH_RESULT_SUC then Some ([(EN_MODULE_ID_BROADCAST, EN_AO_MSG_AUTHEN_SUC, [])], False)
       else if d ! 0 = EN_AUTH_RESULT_FAI \<or> d ! 0 = EN_AUTH_RESULT_DIF then
         Some ([(EN_MODULE_ID_BROADCAST, EN_AO_MSG_EXIT, [])], True)
       else if d ! 0 = EN_AUTH_RESULT_BUS then map_option (\<lambda>o'. (o', False)) (OnAuthen deny ae0 szDir fs ifs aodc_client)
       else Some ([], False)))"

section \<open>The licence is read back\<close>

lemma length_aodc_client [simp]: "length aodc_client = 10"
  by (simp add: aodc_client_def str_def)

lemma nul_free_aodc_client [simp]: "nul_free aodc_client"
  by (simp add: aodc_client_def str_def nul_free_def)

lemma same_aodc_client [simp]: "same_str (cstr aodc_client @ r) aodc_client = Some True"
  by (simp add: same_str_cstr)

text \<open>What the service finds after the installer saved an answer: the resource number and code of
  the centre, and the serial and addresses of the request.\<close>

definition licence_of :: "install_module \<Rightarrow> bytes \<Rightarrow> bytes \<Rightarrow> AODS_AODC_AUTHEN" where
  "licence_of m resid code = \<lparr>ucIpNum = m_ucIpNum m, unIpAddr = m_unIpAddr m, ucResId = resid,
     ucRDSerial = m_ucRDSerial m, ucActCode = code\<rparr>"

lemma licence_roundtrip:
  assumes "\<not> deny (licence_file dir)" and "length (licence_file dir) \<le> 255"
    and "authen_wf (licence_of m resid code)"
  shows "\<exists>fs'. SaveActive deny ae0 dir fs m resid code = Some (fs', True) \<and>
     ReadActiveData deny ae1 dir fs' = Some (Some (licence_of m resid code))"
proof -
  define d where "d = resid @ m_ucRDSerial m @ [m_ucIpNum m] @ m_unIpAddr m @ code"
  define e where "e = ae_encode (ae_set_key (ramp_key 0xBC) 16 (ae_default ae0)) d"
  have len: "length resid = 6" "length (m_ucRDSerial m) = 14" "length (m_unIpAddr m) = 64" "length code = 20"
    using assms(3) by (simp_all add: authen_wf_def licence_of_def len_defs)
  then have ld: "length d = 105" by (simp add: d_def)
  have save: "SaveActive deny ae0 dir fs m resid code = Some (fs(licence_file dir \<mapsto> e), True)"
    using assms(1,2) by (simp add: SaveActive_def af_open_def af_write_def file_bytes_def d_def e_def Let_def)
  have key: "ae_encode (ae_set_key k n (ae_default a)) b = ae_encode (ae_set_key k n (ae_default a')) b" for k n a a' b
    by (simp add: ae_encode_default)
  have dec: "ae_decode (ae_set_key (ramp_key 0xBC) 16 (ae_default ae1)) e = d"
    unfolding e_def key [of _ _ ae0 _ ae1] by (simp add: ae_decode_encode inverse_tables_default)
  have "length e = 105" by (simp add: e_def ld)
  moreover have "d ! 20 = m_ucIpNum m" "take 64 (drop 21 d) = m_unIpAddr m" "take 6 d = resid"
    "take 14 (drop 6 d) = m_ucRDSerial m" "take 20 (drop 85 d) = code"
    using len by (simp_all add: d_def nth_append)
  ultimately have "ReadActiveData deny ae1 dir (fs(licence_file dir \<mapsto> e)) = Some (Some (licence_of m resid code))"
    using assms(1,2) dec
    by (simp add: ReadActiveData_def af_open_def file_bytes_def len_defs licence_of_def Let_def)
  with save show ?thesis by blast
qed

end
