(* ===== verification/Aodc_Json.thy ===== *)
theory Aodc_Json
  imports Ao_Licence
begin

text \<open>
  How the modules of the centre use the JSON library: texts to and from the message queue, members
  of an object, and the hexadecimal form of resource numbers and codes.

  A member that is missing is a null pointer and so is the string of a value that is not a string;
  using either is \<^term>\<open>None\<close>. The strings come from C strings, so a printed text holds no NUL
  (lemma \<open>nul_free_json_text\<close>) and its \<open>strlen\<close> is its length.
\<close>

definition json_of :: "(rat \<Rightarrow> rat) \<Rightarrow> (int \<Rightarrow> rat) \<Rightarrow> bytes \<Rightarrow> cjson option option" where
  "json_of rnd pow10 msg =
     (case cjson_parse rnd pow10 (takeWhile (\<lambda>c. c \<noteq> 0) msg) of
        POk j _ \<Rightarrow> Some (Some j)
      | PFail \<Rightarrow> Some None
      | _ \<Rightarrow> None)"

definition json_text :: "(rat \<Rightarrow> bytes) \<Rightarrow> cjson \<Rightarrow> bytes" where
  "json_text fd j = print_value fd False 0 j"

definition member_string :: "cjson \<Rightarrow> bytes \<Rightarrow> bytes option" where
  "member_string j name = get_object_item j name \<bind> valuestring"

definition member_int :: "cjson \<Rightarrow> bytes \<Rightarrow> int option" where
  "member_int j name = map_option valueint (get_object_item j name)"

text \<open>An object built by \<open>cJSON_CreateObject\<close> and \<open>cJSON_AddItemToObject\<close>.\<close>

definition json_object :: "(bytes \<times> cjson) list \<Rightarrow> cjson" where
  "json_object kvs = foldl (\<lambda>j (k, x). add_item_to_object j k x) (JObject []) kvs"

lemma json_object_eq: "json_object kvs = JObject kvs"
proof -
  have "foldl (\<lambda>j (k, x). add_item_to_object j k x) (JObject a) kvs = JObject (a @ kvs)" for a
    by (induction kvs arbitrary: a) (auto simp: add_item_to_object_def)
  then show ?thesis by (simp add: json_object_def)
qed

lemma get_object_item_Nil [simp]: "get_object_item (JObject []) name = None"
  by (simp add: get_object_item_def)

lemma get_object_item_Cons [simp]:
  "get_object_item (JObject ((k, x) # kvs)) name =
     (if same_name k name then Some x else get_object_item (JObject kvs) name)"
  by (simp add: get_object_item_def)

lemma same_name_refl [simp]: "same_name k k"
  by (simp add: same_name_def)

lemma same_name_length: "length k \<noteq> length l \<Longrightarrow> \<not> same_name k l"
  by (auto simp: same_name_def dest: map_eq_imp_length_eq)

lemmas json_access = member_string_def member_int_def valuestring_def valueint_def same_name_def c_tolower_def str_def

text \<open>\<open>GetHexString\<close> into a zeroed array of \<open>n\<close> bytes, used as a C string.\<close>

definition hex_of :: "nat \<Rightarrow> bytes \<Rightarrow> nat \<Rightarrow> bytes option" where
  "hex_of n pucData len = GetHexString (replicate n 0) pucData (of_nat len) \<bind> (\<lambda>h. cstr_at h 0)"

lemma nul_free_hexs [simp]: "nul_free (hexs d)"
  by (induction d) (auto simp: hexs_def nul_free_def HexChar_nonzero [symmetric])

lemma hex_of_eq: "len = length d \<Longrightarrow> length d < 65536 \<Longrightarrow> 2 * length d < n \<Longrightarrow> hex_of n d len = Some (hexs d)"
proof -
  assume *: "len = length d" "length d < 65536" "2 * length d < n"
  have "cstr_at (hexs d @ 0 # r) 0 = Some (hexs d)" for r
    using cstr_at_app0 [of "hexs d" r] by (simp add: cstr_def)
  then show ?thesis using GetHexString_eq [of d "replicate n 0"] * by (simp add: hex_of_def)
qed

section \<open>Printed texts hold no NUL\<close>

lemma nul_free_append [simp]: "nul_free (a @ b) \<longleftrightarrow> nul_free a \<and> nul_free b"
  by (auto simp: nul_free_def)

lemma nul_free_Cons [simp]: "nul_free (c # b) \<longleftrightarrow> c \<noteq> 0 \<and> nul_free b"
  by (auto simp: nul_free_def)

lemma nul_free_Nil [simp]: "nul_free []"
  by (simp add: nul_free_def)

lemma small_sum: "k < 10 \<Longrightarrow> (48 + of_nat k :: u8) \<noteq> 0 \<and> (87 + of_nat k :: u8) \<noteq> 0"
proof -
  assume "k < 10"
  then have "k \<in> {0, 1, 2, 3, 4, 5, 6, 7, 8, 9}" by auto
  then show ?thesis by (elim insertE emptyE) simp_all
qed

lemma nul_free_number: "number_ok i d \<Longrightarrow> nul_free (print_number fd i d)"
  by (simp add: print_number_int print_int_def nul_free_dec)

lemma hex_dig_nonzero: "n < 16 \<Longrightarrow> hex_dig n \<noteq> 0"
proof -
  assume n: "n < 16"
  show ?thesis
  proof (cases "n < 10")
    case False
    with n have "n \<in> {10, 11, 12, 13, 14, 15}" by auto
    then show ?thesis by (elim insertE emptyE) (simp_all add: hex_dig_def)
  qed (use small_sum [of n] in \<open>simp add: hex_dig_def\<close>)
qed

lemma nul_free_esc: "nul_free (esc_out c)"
proof -
  have "unat c < 256" using unat_lt [of c] by simp
  then have "hex_dig (unat c div 16) \<noteq> 0" "hex_dig (unat c mod 16) \<noteq> 0"
    by (simp_all add: hex_dig_nonzero)
  then show ?thesis by (auto simp: esc_out_def)
qed

lemma nul_free_print_string: "nul_free s \<Longrightarrow> nul_free (print_string s)"
proof -
  have "nul_free (concat (map esc_out s))" by (induction s) (simp_all add: nul_free_esc)
  then show "nul_free s \<Longrightarrow> nul_free (print_string s)" by (simp add: print_string_def)
qed

lemma nul_free_replicate: "c \<noteq> 0 \<Longrightarrow> nul_free (replicate n c)"
  by (auto simp: nul_free_def)

lemma nul_free_print:
  "json_ok v \<Longrightarrow> nul_free (print_value fd fmt depth v)"
  "\<forall>x\<in>set xs. json_ok x \<Longrightarrow> nul_free (print_elems fd fmt depth xs)"
  "\<forall>p\<in>set kvs. nul_free (fst p) \<and> json_ok (snd p) \<Longrightarrow> nul_free (print_members fd fmt depth kvs)"
  by (induction fd fmt depth v and fd fmt depth xs and fd fmt depth kvs
      rule: print_value_print_elems_print_members.induct)
    (simp_all add: nul_free_replicate nul_free_print_string nul_free_number)

lemma nul_free_json_text: "json_ok j \<Longrightarrow> nul_free (json_text fd j)"
  by (simp add: json_text_def nul_free_print)

lemma takeWhile_nul_free: "nul_free s \<Longrightarrow> takeWhile (\<lambda>c. c \<noteq> 0) (s @ 0 # r) = s \<and> takeWhile (\<lambda>c. c \<noteq> 0) s = s"
  by (induction s) (auto simp: nul_free_def)

text \<open>A printed text, with or without its terminator, is read back.\<close>

lemma json_of_text:
  assumes ex: "exact_ints rnd pow10" and ok: "json_ok j"
  shows "json_of rnd pow10 (json_text fd j) = Some (Some j)"
    and "json_of rnd pow10 (json_text fd j @ 0 # r) = Some (Some j)"
proof -
  have "stops []" by (simp add: stops_def is_digit_def)
  from parse_print_all(1) [OF ex ok this, of fd False 0 "Suc (2 * length (print_value fd False 0 j))"]
  have "cjson_parse rnd pow10 (json_text fd j) = POk j []"
    using skip_print_value [OF ok, of fd False 0 "[]"] by (simp add: cjson_parse_def json_text_def)
  moreover have "takeWhile (\<lambda>c. c \<noteq> 0) (json_text fd j) = json_text fd j"
    "takeWhile (\<lambda>c. c \<noteq> 0) (json_text fd j @ 0 # r) = json_text fd j"
    using takeWhile_nul_free [OF nul_free_json_text [OF ok, of fd], of r] by (auto simp del: takeWhile_eq_all_conv)
  ultimately show "json_of rnd pow10 (json_text fd j) = Some (Some j)"
    and "json_of rnd pow10 (json_text fd j @ 0 # r) = Some (Some j)"
    by (simp_all only: json_of_def parse.case)
qed

text \<open>An object's text is read back whatever lies behind it.\<close>

lemma json_of_object_text:
  assumes ex: "exact_ints rnd pow10" and ok: "json_ok (JObject kvs)"
  shows "json_of rnd pow10 (json_text fd (JObject kvs) @ junk) = Some (Some (JObject kvs))"
proof -
  let ?t = "json_text fd (JObject kvs)"
  define j where "j = takeWhile (\<lambda>c. c \<noteq> 0) junk"
  have tw: "takeWhile (\<lambda>c. c \<noteq> 0) (?t @ junk) = ?t @ j"
  proof -
    have "\<forall>c\<in>set ?t. c \<noteq> 0" using nul_free_json_text [OF ok, of fd] by (auto simp: nul_free_def)
    then show ?thesis unfolding j_def by (intro takeWhile_append2) blast
  qed
  have t: "?t = 123 # print_members fd False 1 kvs @ [125]" by (cases kvs) (simp_all add: json_text_def)
  have "cjson_parse rnd pow10 (?t @ j) = POk (JObject kvs) j"
  proof (cases "kvs = []")
    case True
    then show ?thesis by (simp add: cjson_parse_def json_text_def is_digit_def)
  next
    case False
    then obtain k x kvs' where kvs: "kvs = (k, x) # kvs'" by (cases kvs) auto
    obtain u where u: "print_string k = 34 # u" using print_string_head by blast
    have "parse_members rnd pow10 (2 * length (?t @ j))
        (skip (print_members fd False 1 kvs @ replicate 0 9 @ 125 # j)) = POk kvs (125 # j)"
      using ok by (intro parse_print_all(3) [OF ex False]) (simp_all add: t)
    then show ?thesis using u kvs by (simp add: cjson_parse_def json_text_def is_digit_def)
  qed
  then show ?thesis unfolding json_of_def tw by simp
qed

end
