(* ===== verification/Aodc_Auth.thy ===== *)
theory Aodc_Auth
  imports Aodc_Json
begin

text \<open>
  \<open>aodc/AodsAuthModule.cpp\<close>: the centre checks the licence a client presents, keeps which channel
  holds which resource number, asks the management side over the message queue and passes its
  verdict on to the client and to the other modules.

  A handler takes the data of its message and gives the new state and the messages it sends, in
  order. \<open>ae0\<close> is a cipher object before its constructor; \<open>fd\<close>, \<open>rnd\<close> and \<open>pow10\<close> are the
  floating-point parameters of the JSON library. The scratch buffer \<open>m_pAMC\<close> is a byte queue
  (\<^theory_text>\<open>Ao_MemCache\<close>) that is reset before every use.
\<close>

section \<open>State\<close>

record AUTH_INFO =
  ai_ucIpNum :: u8
  ai_strChannelName :: bytes
  ai_unIpAddr :: bytes

record auth_module =
  m_mapRC :: "bytes \<rightharpoonup> AUTH_INFO"
  m_mapCR :: "bytes \<rightharpoonup> bytes"

definition auth_new :: auth_module where
  "auth_new = \<lparr>m_mapRC = Map.empty, m_mapCR = Map.empty\<rparr>"

text \<open>\<open>operator[]\<close> on a map makes a value-initialised entry.\<close>

definition ai_fresh :: AUTH_INFO where
  "ai_fresh = \<lparr>ai_ucIpNum = 0, ai_strChannelName = [], ai_unIpAddr = replicate EN_IP_BYTES 0\<rparr>"

definition EN_AO_MSG_CHANNEL_SEND_DATA_FAIL :: u32 where "EN_AO_MSG_CHANNEL_SEND_DATA_FAIL = 25"
definition EN_AO_MSG_CHANNEL_FREED :: u32 where "EN_AO_MSG_CHANNEL_FREED = 22"
definition EN_AO_MSG_CHANNEL_RECV_DATA :: u32 where "EN_AO_MSG_CHANNEL_RECV_DATA = 23"
definition EN_AO_MSG_RCVFKAFKA :: u32 where "EN_AO_MSG_RCVFKAFKA = 0x202"

text \<open>\<open>strstr(name, "AodsServer") != NULL\<close>.\<close>

definition is_aods :: "bytes \<Rightarrow> bool" where
  "is_aods pszChannelName \<longleftrightarrow> find_sub aods_server pszChannelName \<noteq> None"

definition free_msg :: "bytes \<Rightarrow> out_msg" where
  "free_msg pszChannelName = (EN_MODULE_ID_COMMU, EN_AO_MSG_CHANNEL_FREE, cstr pszChannelName)"

definition send_msg :: "bytes \<Rightarrow> bytes \<Rightarrow> out_msg" where
  "send_msg pszChannelName d = (EN_MODULE_ID_COMMU, EN_AO_MSG_CHANNEL_SEND_DATA, cstr pszChannelName @ d)"

section \<open>Handlers\<close>

definition ReportAuthenMsg :: "(rat \<Rightarrow> bytes) \<Rightarrow> bytes \<Rightarrow> bytes \<Rightarrow> out_msg list option" where
  "ReportAuthenMsg fd pszActiveCode pszHexResId =
     hex_of 128 pszActiveCode EN_ACT_CODE_LEN \<bind> (\<lambda>szHexAc.
     Some [(EN_MODULE_ID_KAFKA, EN_AO_MSG_SND2KAFKA,
       json_text fd (json_object [(str ''auth'',
         json_object [(str ''active_code'', JString szHexAc), (str ''rid'', JString pszHexResId)])]))])"

text \<open>The message code is read before the length is looked at.\<close>

definition OnRecvAodsMsg ::
  "ao_encrypt \<Rightarrow> (rat \<Rightarrow> bytes) \<Rightarrow> auth_module \<Rightarrow> bytes \<Rightarrow> bytes \<Rightarrow> (auth_module \<times> out_msg list) option" where
  "OnRecvAodsMsg ae0 fd m pszChannelName d =
     rd32 d 0 \<bind> (\<lambda>msgcode.
     if msgcode \<noteq> EN_AODS_AODC_AUTH then Some (m, [])
     else if EN_AODS_AODC_AUTHEN_SIZE + EN_AODS_AODC_MSG_SIZE \<noteq> length d then Some (m, [free_msg pszChannelName])
     else
       let a = authen_of (drop EN_AODS_AODC_MSG_SIZE d) in
       CalcActiveCode ae0 (ucResId a @ ucRDSerial a) \<bind> (\<lambda>ucAct.
       if ucAct \<noteq> ucActCode a then Some (m, [free_msg pszChannelName])
       else
         hex_of 16 (ucResId a) EN_RES_ID_LEN \<bind> (\<lambda>szResId.
         let ai = (case m_mapRC m szResId of None \<Rightarrow> ai_fresh | Some ai \<Rightarrow> ai) in
         if length (ai_strChannelName ai) > 0 then
           (if ai_ucIpNum ai \<noteq> ucIpNum a then Some False
            else memeq (ai_unIpAddr ai) 0 (unIpAddr a) (unat (ai_ucIpNum ai) * 4)) \<bind> (\<lambda>same.
           if \<not> same then
             Some (m, [send_msg pszChannelName (aam EN_AODC_AODS_AUTH [EN_AUTH_RESULT_DIF]), free_msg pszChannelName])
           else Some (m, [free_msg (ai_strChannelName ai), free_msg pszChannelName]))
         else
           ReportAuthenMsg fd (ucActCode a) szResId \<bind> (\<lambda>out.
           Some (m\<lparr>m_mapRC := (m_mapRC m)(szResId \<mapsto>
                    \<lparr>ai_ucIpNum = ucIpNum a, ai_strChannelName = pszChannelName, ai_unIpAddr = unIpAddr a\<rparr>),
                  m_mapCR := (m_mapCR m)(pszChannelName \<mapsto> szResId)\<rparr>, out)))))"

definition auth_OnRecvChannelData ::
  "ao_encrypt \<Rightarrow> (rat \<Rightarrow> bytes) \<Rightarrow> auth_module \<Rightarrow> bytes \<Rightarrow> (auth_module \<times> out_msg list) option" where
  "auth_OnRecvChannelData ae0 fd m msg =
     cstr_at msg 0 \<bind> (\<lambda>pszChannelName.
     let unChannelNameLen = length pszChannelName + 1 in
     if unChannelNameLen \<ge> length msg then Some (m, [])
     else if is_aods pszChannelName then OnRecvAodsMsg ae0 fd m pszChannelName (drop unChannelNameLen msg)
     else Some (m, []))"

text \<open>\<open>OnSendChannelDataFail\<close> and \<open>OnChannelFreed\<close> have the same body.\<close>

definition auth_forget :: "auth_module \<Rightarrow> bytes \<Rightarrow> auth_module" where
  "auth_forget m pszChannelName =
     (case m_mapCR m pszChannelName of
        None \<Rightarrow> m
      | Some rid \<Rightarrow> m\<lparr>m_mapRC := (m_mapRC m)(rid := None), m_mapCR := (m_mapCR m)(pszChannelName := None)\<rparr>)"

definition auth_OnChannelFreed :: "auth_module \<Rightarrow> bytes \<Rightarrow> (auth_module \<times> out_msg list) option" where
  "auth_OnChannelFreed m msg =
     cstr_at msg 0 \<bind> (\<lambda>pszChannelName.
     Some (if is_aods pszChannelName then auth_forget m pszChannelName else m, []))"

text \<open>The verdict: zero is success, broadcast to the modules; the client gets it in any case.\<close>

definition auth_OnRecvFromKafka ::
  "(rat \<Rightarrow> rat) \<Rightarrow> (int \<Rightarrow> rat) \<Rightarrow> auth_module \<Rightarrow> bytes \<Rightarrow> (auth_module \<times> out_msg list) option" where
  "auth_OnRecvFromKafka rnd pow10 m msg =
     json_of rnd pow10 msg \<bind> (\<lambda>r.
     case r of
       None \<Rightarrow> Some (m, [])
     | Some pObj \<Rightarrow>
         (case get_object_item pObj (str ''auth_ack'') of
            None \<Rightarrow> Some (m, [])
          | Some pAuthObj \<Rightarrow>
              member_string pAuthObj (str ''rid'') \<bind> (\<lambda>rid.
              case m_mapRC m rid of
                None \<Rightarrow> Some (m, [])
              | Some ai \<Rightarrow>
                  member_int pAuthObj (str ''ack'') \<bind> (\<lambda>ack.
                  Some (m,
                    (if ack = 0 then [(EN_MODULE_ID_BROADCAST, EN_AO_MSG_AUTH_SUC, cstr rid @ cstr (ai_strChannelName ai))]
                     else []) @
                    [send_msg (ai_strChannelName ai) (aam EN_AODC_AODS_AUTH [word_of_int ack])])))))"

text \<open>The message map.\<close>

definition auth_handle ::
  "ao_encrypt \<Rightarrow> (rat \<Rightarrow> bytes) \<Rightarrow> (rat \<Rightarrow> rat) \<Rightarrow> (int \<Rightarrow> rat) \<Rightarrow> auth_module \<Rightarrow> u32 \<times> bytes \<Rightarrow> (auth_module \<times> out_msg list) option" where
  "auth_handle ae0 fd rnd pow10 m = (\<lambda>(msgcode, msg).
     if msgcode = EN_AO_MSG_CHANNEL_RECV_DATA then auth_OnRecvChannelData ae0 fd m msg
     else if msgcode = EN_AO_MSG_CHANNEL_SEND_DATA_FAIL then auth_OnChannelFreed m msg
     else if msgcode = EN_AO_MSG_CHANNEL_FREED then auth_OnChannelFreed m msg
     else if msgcode = EN_AO_MSG_RCVFKAFKA then auth_OnRecvFromKafka rnd pow10 m msg
     else Some (m, []))"

text \<open>A run of the module over a list of messages.\<close>

fun auth_run ::
  "ao_encrypt \<Rightarrow> (rat \<Rightarrow> bytes) \<Rightarrow> (rat \<Rightarrow> rat) \<Rightarrow> (int \<Rightarrow> rat) \<Rightarrow> auth_module \<Rightarrow> (u32 \<times> bytes) list \<Rightarrow> (auth_module \<times> out_msg list) option" where
  "auth_run ae0 fd rnd pow10 m [] = Some (m, [])"
| "auth_run ae0 fd rnd pow10 m (ev # evs) =
     auth_handle ae0 fd rnd pow10 m ev \<bind> (\<lambda>(m, out).
     auth_run ae0 fd rnd pow10 m evs \<bind> (\<lambda>(m, out'). Some (m, out @ out')))"

section \<open>The code of a licence\<close>

text \<open>What \<open>CalcActiveCode\<close> computes: the key makes no difference to the built-in dictionary.\<close>

definition active_code :: "bytes \<Rightarrow> bytes" where
  "active_code rs = map (\<lambda>b. b + 10) (take 19 rs @ [foldl (XOR) 0 (take 19 rs)])"

lemma CalcActiveCode_eq: "length rs = 20 \<Longrightarrow> CalcActiveCode ae0 rs = Some (active_code rs)"
proof -
  assume l: "length rs = 20"
  then have "CalcCrc8 rs (of_nat (EN_ACT_CODE_LEN - 1)) = Some (foldl (XOR) 0 (take 19 rs))"
    using CalcCrc8_xor [of 19 rs] by (simp add: len_defs)
  moreover have "rs[19 := x] = take 19 rs @ [x]" for x
    using l by (simp add: upd_conv_take_nth_drop)
  ultimately show ?thesis
    by (simp add: CalcActiveCode_def ae_encode_default active_code_def len_defs)
qed

lemma length_active_code: "length rs = 20 \<Longrightarrow> length (active_code rs) = 20"
  by (simp add: active_code_def)

definition licensed :: "AODS_AODC_AUTHEN \<Rightarrow> bool" where
  "licensed a \<longleftrightarrow> ucActCode a = active_code (ucResId a @ ucRDSerial a)"

definition auth_report :: "(rat \<Rightarrow> bytes) \<Rightarrow> AODS_AODC_AUTHEN \<Rightarrow> out_msg" where
  "auth_report fd a = (EN_MODULE_ID_KAFKA, EN_AO_MSG_SND2KAFKA,
     json_text fd (JObject [(str ''auth'', JObject [(str ''active_code'', JString (hexs (ucActCode a))),
       (str ''rid'', JString (hexs (ucResId a)))])]))"

lemma ReportAuthenMsg_eq:
  "length (ucActCode a) = 20 \<Longrightarrow> ReportAuthenMsg fd (ucActCode a) (hexs (ucResId a)) = Some [auth_report fd a]"
  by (simp add: ReportAuthenMsg_def hex_of_eq json_object_eq auth_report_def len_defs)

section \<open>What a request does\<close>

text \<open>The record in the data of a request, when it has the size of one.\<close>

definition request_of :: "bytes \<Rightarrow> AODS_AODC_AUTHEN option" where
  "request_of d =
     (if rd32 d 0 = Some EN_AODS_AODC_AUTH \<and> length d = EN_AODS_AODC_AUTHEN_SIZE + EN_AODS_AODC_MSG_SIZE
      then Some (authen_of (drop EN_AODS_AODC_MSG_SIZE d)) else None)"

lemma request_of_bytes: "authen_wf a \<Longrightarrow> request_of (aam EN_AODS_AODC_AUTH (authen_bytes a)) = Some a"
  using length_authen_bytes [of a] authen_of_bytes [of a]
  by (simp add: request_of_def aam_def rd32_le32_0 len_defs)

lemma authen_of_wf: "length d = EN_AODS_AODC_AUTHEN_SIZE \<Longrightarrow> authen_wf (authen_of d)"
  by (simp add: authen_wf_def authen_of_def len_defs)

lemma request_of_wf: "request_of d = Some a \<Longrightarrow> authen_wf a"
  by (auto simp: request_of_def len_defs intro!: authen_of_wf split: if_splits)

definition auth_take :: "auth_module \<Rightarrow> bytes \<Rightarrow> AODS_AODC_AUTHEN \<Rightarrow> auth_module" where
  "auth_take m ch a = m\<lparr>m_mapRC := (m_mapRC m)(hexs (ucResId a) \<mapsto>
       \<lparr>ai_ucIpNum = ucIpNum a, ai_strChannelName = ch, ai_unIpAddr = unIpAddr a\<rparr>),
     m_mapCR := (m_mapCR m)(ch \<mapsto> hexs (ucResId a))\<rparr>"

text \<open>The channel that holds a resource number, and the addresses it was taken with.\<close>

definition holder :: "auth_module \<Rightarrow> bytes \<Rightarrow> AUTH_INFO option" where
  "holder m rid = (case m_mapRC m rid of None \<Rightarrow> None
     | Some ai \<Rightarrow> if ai_strChannelName ai = [] then None else Some ai)"

text \<open>Every branch of the handler on a request of the right size.\<close>

lemma OnRecvAodsMsg_request:
  assumes r: "request_of d = Some a"
  shows "OnRecvAodsMsg ae0 fd m ch d =
     (if \<not> licensed a then Some (m, [free_msg ch])
      else case holder m (hexs (ucResId a)) of
          None \<Rightarrow> Some (auth_take m ch a, [auth_report fd a])
        | Some ai \<Rightarrow>
            (if ai_ucIpNum ai \<noteq> ucIpNum a then Some False
             else memeq (ai_unIpAddr ai) 0 (unIpAddr a) (unat (ai_ucIpNum ai) * 4)) \<bind> (\<lambda>same.
            if same then Some (m, [free_msg (ai_strChannelName ai), free_msg ch])
            else Some (m, [send_msg ch (aam EN_AODC_AODS_AUTH [EN_AUTH_RESULT_DIF]), free_msg ch])))"
proof -
  have wf: "authen_wf a" by (rule request_of_wf [OF r])
  have d: "rd32 d 0 = Some EN_AODS_AODC_AUTH" "length d = 109" "authen_of (drop 4 d) = a"
    using r by (auto simp: request_of_def len_defs split: if_splits)
  have l: "length (ucResId a) = 6" "length (ucRDSerial a) = 14" "length (ucActCode a) = 20"
    using wf by (simp_all add: authen_wf_def len_defs)
  have c: "CalcActiveCode ae0 (ucResId a @ ucRDSerial a) = Some (active_code (ucResId a @ ucRDSerial a))"
    by (rule CalcActiveCode_eq) (simp add: l)
  have h: "hex_of 16 (ucResId a) EN_RES_ID_LEN = Some (hexs (ucResId a))"
    by (rule hex_of_eq) (simp_all add: l len_defs)
  define ai where "ai = (case m_mapRC m (hexs (ucResId a)) of None \<Rightarrow> ai_fresh | Some ai \<Rightarrow> ai)"
  have hold: "holder m (hexs (ucResId a)) = (if length (ai_strChannelName ai) > 0 then Some ai else None)"
    by (simp add: holder_def ai_def ai_fresh_def split: option.splits)
  have "OnRecvAodsMsg ae0 fd m ch d =
     (if active_code (ucResId a @ ucRDSerial a) \<noteq> ucActCode a then Some (m, [free_msg ch])
      else if length (ai_strChannelName ai) > 0 then
        (if ai_ucIpNum ai \<noteq> ucIpNum a then Some False
         else memeq (ai_unIpAddr ai) 0 (unIpAddr a) (unat (ai_ucIpNum ai) * 4)) \<bind> (\<lambda>same.
        if \<not> same then Some (m, [send_msg ch (aam EN_AODC_AODS_AUTH [EN_AUTH_RESULT_DIF]), free_msg ch])
        else Some (m, [free_msg (ai_strChannelName ai), free_msg ch]))
      else Some (auth_take m ch a, [auth_report fd a]))"
    using d c h ReportAuthenMsg_eq [OF l(3), of fd] unfolding ai_def
    by (simp add: OnRecvAodsMsg_def len_defs Let_def auth_take_def)
  then show ?thesis unfolding hold licensed_def by (auto intro!: Option.bind_cong)
qed

lemma OnRecvAodsMsg_other:
  assumes "request_of d = None" and "OnRecvAodsMsg ae0 fd m ch d = Some (m', out)"
  shows "m' = m \<and> out \<in> {[], [free_msg ch]}"
  using assms by (auto simp: OnRecvAodsMsg_def request_of_def bind_eq_Some_conv split: if_splits)

text \<open>So a request either changes nothing and disconnects, or takes a free resource.\<close>

lemma OnRecvAodsMsg_cases:
  assumes "OnRecvAodsMsg ae0 fd m ch d = Some (m', out)"
  obtains (unchanged) "m' = m" "\<forall>e\<in>set out. (\<exists>c. e = free_msg c) \<or> e = send_msg ch (aam EN_AODC_AODS_AUTH [EN_AUTH_RESULT_DIF])"
  | (taken) a where "request_of d = Some a" "licensed a" "holder m (hexs (ucResId a)) = None"
      "m' = auth_take m ch a" "out = [auth_report fd a]"
proof (cases "request_of d")
  case None
  with OnRecvAodsMsg_other [OF None assms] show thesis by (intro unchanged) auto
next
  case (Some a)
  show thesis
  proof (cases "licensed a \<and> holder m (hexs (ucResId a)) = None")
    case True
    with assms show thesis unfolding OnRecvAodsMsg_request [OF Some] by (intro taken [OF Some]) auto
  next
    case False
    with assms show thesis unfolding OnRecvAodsMsg_request [OF Some]
      by (intro unchanged) (auto simp: bind_eq_Some_conv split: if_splits option.splits)
  qed
qed

section \<open>Runs\<close>

lemma cstr_at_split: "cstr_at msg 0 = Some ch \<Longrightarrow> msg = cstr ch @ drop (Suc (length ch)) msg \<and> nul_free ch"
proof -
  assume h: "cstr_at msg 0 = Some ch"
  then obtain n where n: "strlen msg = Some n" "ch = take n msg"
    by (auto simp: cstr_at_def split: if_splits)
  then have "n < length msg" "msg ! n = 0" by (simp_all add: strlen_Some_iff)
  then have "msg = take n msg @ [0] @ drop (Suc n) msg" by (metis Cons_eq_appendI id_take_nth_drop self_append_conv2)
  moreover have "length ch = n" using n(2) \<open>n < length msg\<close> by simp
  ultimately show ?thesis using n(2) cstr_at_nul_free [OF h] by (simp add: cstr_def)
qed

text \<open>A request of a channel with a licence, as it arrives, and whether it is among the messages.\<close>

definition req :: "bytes \<Rightarrow> AODS_AODC_AUTHEN \<Rightarrow> u32 \<times> bytes" where
  "req ch a = (EN_AO_MSG_CHANNEL_RECV_DATA, cstr ch @ aam EN_AODS_AODC_AUTH (authen_bytes a))"

definition presented :: "(u32 \<times> bytes) list \<Rightarrow> bytes \<Rightarrow> AODS_AODC_AUTHEN \<Rightarrow> bool" where
  "presented evs ch a \<longleftrightarrow> is_aods ch \<and> licensed a \<and>
     (\<exists>d. (EN_AO_MSG_CHANNEL_RECV_DATA, cstr ch @ d) \<in> set evs \<and> request_of d = Some a)"

lemmas auth_codes = EN_AO_MSG_CHANNEL_RECV_DATA_def EN_AO_MSG_CHANNEL_SEND_DATA_FAIL_def
  EN_AO_MSG_CHANNEL_FREED_def EN_AO_MSG_RCVFKAFKA_def EN_AO_MSG_CHANNEL_SEND_DATA_def
  EN_AO_MSG_CHANNEL_FREE_def EN_AO_MSG_AUTH_SUC_def EN_AO_MSG_SND2KAFKA_def
  EN_MODULE_ID_COMMU_def EN_MODULE_ID_BROADCAST_def EN_MODULE_ID_KAFKA_def

definition auth_suc :: "bytes \<Rightarrow> bytes \<Rightarrow> out_msg" where
  "auth_suc rid ch = (EN_MODULE_ID_BROADCAST, EN_AO_MSG_AUTH_SUC, cstr rid @ cstr ch)"

definition verdict_out :: "bytes \<Rightarrow> AUTH_INFO \<Rightarrow> int \<Rightarrow> out_msg list" where
  "verdict_out rid ai ack = (if ack = 0 then [auth_suc rid (ai_strChannelName ai)] else []) @
     [send_msg (ai_strChannelName ai) (aam EN_AODC_AODS_AUTH [word_of_int ack])]"

lemma auth_OnRecvFromKafka_cases:
  assumes "auth_OnRecvFromKafka rnd pow10 m msg = Some (m', out)"
  shows "m' = m \<and> (out = [] \<or> (\<exists>rid ai ack. m_mapRC m rid = Some ai \<and> out = verdict_out rid ai ack))"
proof -
  obtain r where r: "json_of rnd pow10 msg = Some r"
    using assms by (cases "json_of rnd pow10 msg") (simp_all add: auth_OnRecvFromKafka_def)
  show ?thesis
  proof (cases "\<exists>j a. r = Some j \<and> get_object_item j (str ''auth_ack'') = Some a")
    case True
    then obtain j a where j: "r = Some j" "get_object_item j (str ''auth_ack'') = Some a" by blast
    show ?thesis
    proof (cases "\<exists>rid ai. member_string a (str ''rid'') = Some rid \<and> m_mapRC m rid = Some ai")
      case True
      then obtain rid ai where ai: "member_string a (str ''rid'') = Some rid" "m_mapRC m rid = Some ai" by blast
      obtain ack where "member_int a (str ''ack'') = Some ack"
        using assms r j ai by (cases "member_int a (str ''ack'')") (simp_all add: auth_OnRecvFromKafka_def)
      then have "m' = m \<and> out = verdict_out rid ai ack"
        using assms r j ai by (auto simp: auth_OnRecvFromKafka_def verdict_out_def auth_suc_def)
      with ai(2) show ?thesis by blast
    next
      case False
      then show ?thesis using assms r j
        by (cases "member_string a (str ''rid'')") (auto simp: auth_OnRecvFromKafka_def split: option.splits)
    qed
  next
    case False
    then show ?thesis using assms r by (cases r) (auto simp: auth_OnRecvFromKafka_def split: option.splits)
  qed
qed

text \<open>What a message can do to the module, and when it announces a success.\<close>

lemma auth_handle_cases:
  assumes "auth_handle ae0 fd rnd pow10 m ev = Some (m', out)"
  obtains (quiet) "m' = m" "\<forall>e\<in>set out. fst (snd e) \<noteq> EN_AO_MSG_AUTH_SUC"
  | (verdict) rid ai where "m' = m" "m_mapRC m rid = Some ai"
      "\<forall>e\<in>set out. fst (snd e) = EN_AO_MSG_AUTH_SUC \<longrightarrow> e = auth_suc rid (ai_strChannelName ai)"
  | (freed) ch where "m' = auth_forget m ch" "out = []"
  | (taken) ch a where "presented [ev] ch a" "holder m (hexs (ucResId a)) = None"
      "m' = auth_take m ch a" "out = [auth_report fd a]"
proof -
  obtain code msg where ev: "ev = (code, msg)" by fastforce
  have "code = EN_AO_MSG_CHANNEL_RECV_DATA \<and> auth_OnRecvChannelData ae0 fd m msg = Some (m', out) \<or>
      auth_OnChannelFreed m msg = Some (m', out) \<or> auth_OnRecvFromKafka rnd pow10 m msg = Some (m', out) \<or>
      m' = m \<and> out = []"
    using assms by (simp add: auth_handle_def ev split: if_splits)
  then consider (recv) "code = EN_AO_MSG_CHANNEL_RECV_DATA" "auth_OnRecvChannelData ae0 fd m msg = Some (m', out)"
    | (free) "auth_OnChannelFreed m msg = Some (m', out)"
    | (kafka) "auth_OnRecvFromKafka rnd pow10 m msg = Some (m', out)"
    | (other) "m' = m" "out = []"
    by blast
  then show thesis
  proof cases
    case recv
    from recv(2) obtain ch where ch: "cstr_at msg 0 = Some ch"
      by (cases "cstr_at msg 0") (simp_all add: auth_OnRecvChannelData_def)
    have r: "(m', out) = (m, []) \<or> is_aods ch \<and> OnRecvAodsMsg ae0 fd m ch (drop (Suc (length ch)) msg) = Some (m', out)"
      using recv(2) ch by (simp add: auth_OnRecvChannelData_def Let_def split: if_splits)
    from r show thesis
    proof
      assume "is_aods ch \<and> OnRecvAodsMsg ae0 fd m ch (drop (Suc (length ch)) msg) = Some (m', out)"
      then show thesis
      proof (elim conjE OnRecvAodsMsg_cases)
        fix a
        assume a: "is_aods ch" "request_of (drop (Suc (length ch)) msg) = Some a" "licensed a"
          "holder m (hexs (ucResId a)) = None" "m' = auth_take m ch a" "out = [auth_report fd a]"
        then have "presented [ev] ch a" using cstr_at_split [OF ch] recv(1) ev
          unfolding presented_def by (auto intro!: exI [of _ "drop (Suc (length ch)) msg"])
        with a show thesis by (intro taken)
      qed (intro quiet, auto simp: free_msg_def send_msg_def auth_codes)
    qed (use quiet in auto)
  next
    case free
    then show thesis using freed quiet by (auto simp: auth_OnChannelFreed_def bind_eq_Some_conv split: if_splits)
  next
    case kafka
    from auth_OnRecvFromKafka_cases [OF this] show thesis
    proof (elim conjE disjE exE)
      fix rid ai ack
      assume v: "m' = m" "m_mapRC m rid = Some ai" "out = verdict_out rid ai ack"
      then have "\<forall>e\<in>set out. fst (snd e) = EN_AO_MSG_AUTH_SUC \<longrightarrow> e = auth_suc rid (ai_strChannelName ai)"
        by (simp add: verdict_out_def send_msg_def auth_codes)
      with v show thesis by (intro verdict)
    qed (use quiet in simp)
  qed (use quiet in auto)
qed

lemma auth_run_snoc:
  "auth_run ae0 fd rnd pow10 m (evs @ [ev]) =
     auth_run ae0 fd rnd pow10 m evs \<bind> (\<lambda>(m1, o1).
     auth_handle ae0 fd rnd pow10 m1 ev \<bind> (\<lambda>(m2, o2). Some (m2, o1 @ o2)))"
proof (induction evs arbitrary: m)
  case Nil
  then show ?case by (cases "auth_handle ae0 fd rnd pow10 m ev") auto
next
  case (Cons e evs)
  show ?case
  proof (cases "auth_handle ae0 fd rnd pow10 m e")
    case (Some p)
    then show ?thesis using Cons [of "fst p"]
      by (cases p; cases "auth_run ae0 fd rnd pow10 (fst p) evs")
        (auto simp: bind_eq_Some_conv split: prod.splits intro!: Option.bind_cong)
  qed simp
qed

lemma auth_run_append:
  "auth_run ae0 fd rnd pow10 m (xs @ ys) =
     auth_run ae0 fd rnd pow10 m xs \<bind> (\<lambda>(m1, o1).
     auth_run ae0 fd rnd pow10 m1 ys \<bind> (\<lambda>(m2, o2). Some (m2, o1 @ o2)))"
proof (induction xs arbitrary: m)
  case Nil
  then show ?case by (cases "auth_run ae0 fd rnd pow10 m ys") auto
next
  case (Cons e evs)
  show ?case
  proof (cases "auth_handle ae0 fd rnd pow10 m e")
    case (Some p)
    then show ?thesis using Cons [of "fst p"]
      by (cases p; cases "auth_run ae0 fd rnd pow10 (fst p) evs")
        (auto simp: bind_eq_Some_conv split: prod.splits intro!: Option.bind_cong)
  qed simp
qed

text \<open>The two maps agree: a channel's resource number names that channel.\<close>

definition auth_inv :: "auth_module \<Rightarrow> bool" where
  "auth_inv m \<longleftrightarrow> (\<forall>ch rid. m_mapCR m ch = Some rid \<longrightarrow>
     ch \<noteq> [] \<and> (\<exists>ai. m_mapRC m rid = Some ai \<and> ai_strChannelName ai = ch))"

lemma auth_inv_name:
  "auth_inv m \<Longrightarrow> m_mapCR m ch = Some rid \<Longrightarrow> ch \<noteq> [] \<and> (\<exists>ai. m_mapRC m rid = Some ai \<and> ai_strChannelName ai = ch)"
  unfolding auth_inv_def by blast

lemma auth_inv_forget: "auth_inv m \<Longrightarrow> auth_inv (auth_forget m ch)"
  unfolding auth_inv_def auth_forget_def
  by (cases "m_mapCR m ch") (auto split: if_splits, metis option.inject)

lemma is_aods_ne: "is_aods ch \<Longrightarrow> ch \<noteq> []"
  by (auto simp: is_aods_def aods_server_def str_def)

lemma auth_inv_take:
  assumes "auth_inv m" and "holder m (hexs (ucResId a)) = None" and "ch \<noteq> []"
  shows "auth_inv (auth_take m ch a)"
  using assms unfolding auth_inv_def auth_take_def holder_def
  by (auto split: option.splits if_splits) (metis option.discI option.inject)+

lemma presented_more: "presented evs ch a \<Longrightarrow> presented (evs @ evs') ch a \<and> presented (evs' @ evs) ch a"
  by (auto simp: presented_def)

text \<open>The invariant of a run: every entry of the resource map goes back to a licence its channel
  presented.\<close>

lemma auth_run_inv:
  "auth_run ae0 fd rnd pow10 auth_new evs = Some (m, outs) \<Longrightarrow>
     auth_inv m \<and>
     (\<forall>rid ai. m_mapRC m rid = Some ai \<longrightarrow>
        (\<exists>a. presented evs (ai_strChannelName ai) a \<and> rid = hexs (ucResId a))) \<and>
     (\<forall>e\<in>set outs. fst (snd e) = EN_AO_MSG_AUTH_SUC \<longrightarrow>
        (\<exists>ch a. presented evs ch a \<and> e = auth_suc (hexs (ucResId a)) ch))"
proof (induction evs arbitrary: m outs rule: rev_induct)
  case Nil
  then show ?case by (auto simp: auth_new_def auth_inv_def)
next
  case (snoc ev evs)
  then obtain m1 o1 o2 where run: "auth_run ae0 fd rnd pow10 auth_new evs = Some (m1, o1)"
    and step: "auth_handle ae0 fd rnd pow10 m1 ev = Some (m, o2)" and outs: "outs = o1 @ o2"
    by (auto simp: auth_run_snoc bind_eq_Some_conv)
  note ih = snoc.IH [OF run]
  from ih have old: "\<forall>e\<in>set o1. fst (snd e) = EN_AO_MSG_AUTH_SUC \<longrightarrow>
        (\<exists>ch a. presented (evs @ [ev]) ch a \<and> e = auth_suc (hexs (ucResId a)) ch)"
    and src: "\<forall>rid ai. m_mapRC m1 rid = Some ai \<longrightarrow>
        (\<exists>a. presented (evs @ [ev]) (ai_strChannelName ai) a \<and> rid = hexs (ucResId a))"
    using presented_more by blast+
  from step show ?case
  proof (cases rule: auth_handle_cases)
    case quiet
    with ih old src outs show ?thesis by auto
  next
    case (verdict rid ai)
    from src verdict(2) obtain a where "presented (evs @ [ev]) (ai_strChannelName ai) a" "rid = hexs (ucResId a)" by blast
    with verdict ih old src outs show ?thesis by auto
  next
    case (freed ch)
    with ih have "auth_inv m" by (simp add: auth_inv_forget)
    moreover have "m_mapRC m rid = Some ai \<Longrightarrow> m_mapRC m1 rid = Some ai" for rid ai
      using freed by (auto simp: auth_forget_def split: option.splits if_splits)
    ultimately show ?thesis using freed old src outs by auto
  next
    case (taken ch a)
    then have p: "presented (evs @ [ev]) ch a" using presented_more by blast
    then have "auth_inv m" using taken ih is_aods_ne by (auto simp: presented_def intro: auth_inv_take)
    moreover have "fst (snd (auth_report fd a)) \<noteq> EN_AO_MSG_AUTH_SUC" by (simp add: auth_report_def auth_codes)
    ultimately show ?thesis using p taken old src outs by (auto simp: auth_take_def split: if_splits)
  qed
qed

section \<open>A lost resource number\<close>

text \<open>A resource number that names a channel, but that no channel is recorded to hold.\<close>

definition orphan :: "auth_module \<Rightarrow> bytes \<Rightarrow> AUTH_INFO \<Rightarrow> bool" where
  "orphan m rid ai \<longleftrightarrow> holder m rid = Some ai \<and> rid \<notin> ran (m_mapCR m)"

lemma orphan_forget: "orphan m rid ai \<Longrightarrow> orphan (auth_forget m ch) rid ai"
  by (auto simp: orphan_def auth_forget_def holder_def ran_def split: option.splits if_splits)

lemma orphan_step:
  assumes "orphan m rid ai" and "auth_handle ae0 fd rnd pow10 m ev = Some (m', out)"
  shows "orphan m' rid ai"
  using assms(2)
proof (cases rule: auth_handle_cases)
  case (taken ch a)
  then have "hexs (ucResId a) \<noteq> rid" using assms(1) by (auto simp: orphan_def)
  with assms(1) taken(3) show ?thesis
    by (auto simp: orphan_def auth_take_def holder_def ran_def split: option.splits if_splits)
qed (use assms(1) orphan_forget in auto)

lemma orphan_run:
  "orphan m rid ai \<Longrightarrow> auth_run ae0 fd rnd pow10 m evs = Some (m', outs) \<Longrightarrow> orphan m' rid ai"
proof (induction evs arbitrary: m outs)
  case (Cons ev evs)
  then obtain m1 o1 o2 where "auth_handle ae0 fd rnd pow10 m ev = Some (m1, o1)"
    "auth_run ae0 fd rnd pow10 m1 evs = Some (m', o2)" by (auto simp: bind_eq_Some_conv)
  with Cons.IH Cons.prems(1) orphan_step show ?case by blast
qed simp

text \<open>The request as the module gets it.\<close>

lemma auth_handle_req:
  assumes "nul_free ch" and "is_aods ch" and "authen_wf a"
  shows "auth_handle ae0 fd rnd pow10 m (req ch a) = OnRecvAodsMsg ae0 fd m ch (aam EN_AODS_AODC_AUTH (authen_bytes a))"
  using assms cstr_at_app0 [of ch "aam EN_AODS_AODC_AUTH (authen_bytes a)"]
  by (simp add: auth_handle_def req_def auth_OnRecvChannelData_def aam_def cstr_def)

lemma auth_handle_free_taken:
  assumes "nul_free ch" and "is_aods ch" and "authen_wf a" and "licensed a" and "holder m (hexs (ucResId a)) = None"
  shows "auth_handle ae0 fd rnd pow10 m (req ch a) = Some (auth_take m ch a, [auth_report fd a])"
  using assms by (simp add: auth_handle_req OnRecvAodsMsg_request [OF request_of_bytes])

lemma auth_handle_held:
  assumes "nul_free ch" and "is_aods ch" and "authen_wf a" and "licensed a"
    and h: "holder m (hexs (ucResId a)) = Some ai"
    and "length (ai_unIpAddr ai) = EN_IP_BYTES" and "ai_ucIpNum ai \<le> 16"
  obtains "auth_handle ae0 fd rnd pow10 m (req ch a) = Some (m, [free_msg (ai_strChannelName ai), free_msg ch])"
      "ai_ucIpNum ai = ucIpNum a" "take (unat (ucIpNum a) * 4) (ai_unIpAddr ai) = take (unat (ucIpNum a) * 4) (unIpAddr a)"
    | "auth_handle ae0 fd rnd pow10 m (req ch a) =
         Some (m, [send_msg ch (aam EN_AODC_AODS_AUTH [EN_AUTH_RESULT_DIF]), free_msg ch])"
      "ai_ucIpNum ai \<noteq> ucIpNum a \<or> take (unat (ucIpNum a) * 4) (ai_unIpAddr ai) \<noteq> take (unat (ucIpNum a) * 4) (unIpAddr a)"
proof -
  have n: "unat (ai_ucIpNum ai) * 4 \<le> 64" using assms(7) by (simp add: word_le_nat_alt)
  have l: "length (unIpAddr a) = 64" using assms(3) by (simp add: authen_wf_def len_defs)
  let ?same = "ai_ucIpNum ai = ucIpNum a \<and>
    take (unat (ucIpNum a) * 4) (ai_unIpAddr ai) = take (unat (ucIpNum a) * 4) (unIpAddr a)"
  have m: "(if ai_ucIpNum ai \<noteq> ucIpNum a then Some False
       else memeq (ai_unIpAddr ai) 0 (unIpAddr a) (unat (ai_ucIpNum ai) * 4)) = Some ?same"
    using n l assms(6) by (auto simp: memeq_def len_defs)
  have h: "auth_handle ae0 fd rnd pow10 m (req ch a) =
     (if ?same then Some (m, [free_msg (ai_strChannelName ai), free_msg ch])
      else Some (m, [send_msg ch (aam EN_AODC_AODS_AUTH [EN_AUTH_RESULT_DIF]), free_msg ch]))"
    unfolding auth_handle_req [OF assms(1-3)] OnRecvAodsMsg_request [OF request_of_bytes [OF assms(3)]] h option.case m
    using assms(4) by simp
  show thesis by (cases ?same) (use h that in auto)
qed

section \<open>Properties\<close>

text \<open>C3: agreement and exclusiveness. In every run of the module from its start, whatever messages
  arrive, a success announced to the other modules names a resource number and a channel such that
  the channel presented a licence for that number whose code is the right one; and no two channels
  are recorded to hold the same resource number.\<close>

theorem auth_suc_licensed:
  assumes "auth_run ae0 fd rnd pow10 auth_new evs = Some (m, outs)"
  shows "(\<forall>r d. (r, EN_AO_MSG_AUTH_SUC, d) \<in> set outs \<longrightarrow>
       (\<exists>ch a. presented evs ch a \<and> d = cstr (hexs (ucResId a)) @ cstr ch)) \<and>
     (\<forall>ch ch' rid. m_mapCR m ch = Some rid \<longrightarrow> m_mapCR m ch' = Some rid \<longrightarrow> ch = ch')"
proof (intro conjI allI impI)
  fix r d
  assume "(r, EN_AO_MSG_AUTH_SUC, d) \<in> set outs"
  moreover have "\<forall>e\<in>set outs. fst (snd e) = EN_AO_MSG_AUTH_SUC \<longrightarrow>
      (\<exists>ch a. presented evs ch a \<and> e = auth_suc (hexs (ucResId a)) ch)"
    using auth_run_inv [OF assms] by blast
  ultimately obtain ch a where "presented evs ch a" "(r, EN_AO_MSG_AUTH_SUC, d) = auth_suc (hexs (ucResId a)) ch"
    by (metis fst_conv snd_conv)
  then show "\<exists>ch a. presented evs ch a \<and> d = cstr (hexs (ucResId a)) @ cstr ch" by (auto simp: auth_suc_def)
next
  fix ch ch' rid
  assume c: "m_mapCR m ch = Some rid" "m_mapCR m ch' = Some rid"
  have inv: "auth_inv m" using auth_run_inv [OF assms] by blast
  from auth_inv_name [OF inv c(1)] auth_inv_name [OF inv c(2)] show "ch = ch'" by auto
qed

text \<open>A concrete channel and licence.\<close>

definition demo_channel :: bytes where "demo_channel = aods_server @ [58, 48]"

definition demo_ae :: ao_encrypt where
  "demo_ae = \<lparr>m_pucEnSkDict = \<lambda>_. 0, m_pucDeSkDict = \<lambda>_. 0, m_pucKey = \<lambda>_. 0\<rparr>"

definition demo_licence :: "u8 \<Rightarrow> AODS_AODC_AUTHEN" where
  "demo_licence r = \<lparr>ucIpNum = 1, unIpAddr = replicate 64 7, ucResId = [1, 2, 3, 4, 5, r],
     ucRDSerial = replicate 14 9, ucActCode = active_code ([1, 2, 3, 4, 5, r] @ replicate 14 9)\<rparr>"

lemma demo_ok:
  "nul_free demo_channel" "is_aods demo_channel" "authen_wf (demo_licence r)" "licensed (demo_licence r)"
  "ucIpNum (demo_licence r) = 1" "ucResId (demo_licence r) = [1, 2, 3, 4, 5, r]"
  by (simp_all add: demo_channel_def aods_server_def str_def is_aods_def authen_wf_def demo_licence_def
      len_defs length_active_code licensed_def)

lemma demo_take:
  "auth_handle ae0 fd rnd pow10 auth_new (req demo_channel (demo_licence r)) =
     Some (auth_take auth_new demo_channel (demo_licence r), [auth_report fd (demo_licence r)])"
  by (rule auth_handle_free_taken) (simp_all add: demo_ok, simp add: holder_def auth_new_def)

text \<open>The retry the protocol asks for never succeeds. A client is accepted for examination, the
  management side answers busy, the client repeats its request on the same channel as the answer
  tells it to: its own first request makes it look like a second holder, so the centre has the
  channel freed, twice, instead of asking again.\<close>

theorem busy_retry_disconnects:
  assumes "nul_free ch" and "is_aods ch" and "authen_wf a" and "licensed a" and "ucIpNum a \<le> 16"
    and "holder m (hexs (ucResId a)) = None"
    and "json_of rnd pow10 msg = Some (Some j)" and "get_object_item j (str ''auth_ack'') = Some v"
    and "member_string v (str ''rid'') = Some (hexs (ucResId a))" and "member_int v (str ''ack'') = Some 3"
  shows "auth_run ae0 fd rnd pow10 m [req ch a, (EN_AO_MSG_RCVFKAFKA, msg), req ch a] =
     Some (auth_take m ch a, [auth_report fd a, send_msg ch (aam EN_AODC_AODS_AUTH [EN_AUTH_RESULT_BUS]),
       free_msg ch, free_msg ch])"
proof -
  let ?ai = "\<lparr>ai_ucIpNum = ucIpNum a, ai_strChannelName = ch, ai_unIpAddr = unIpAddr a\<rparr>"
  let ?m = "auth_take m ch a"
  have rc: "m_mapRC ?m (hexs (ucResId a)) = Some ?ai" by (simp add: auth_take_def)
  have hold: "holder ?m (hexs (ucResId a)) = Some ?ai"
    using is_aods_ne [OF assms(2)] by (simp add: holder_def rc)
  have s1: "auth_handle ae0 fd rnd pow10 m (req ch a) = Some (?m, [auth_report fd a])"
    using assms by (intro auth_handle_free_taken)
  have s2: "auth_handle ae0 fd rnd pow10 ?m (EN_AO_MSG_RCVFKAFKA, msg) =
      Some (?m, [send_msg ch (aam EN_AODC_AODS_AUTH [EN_AUTH_RESULT_BUS])])"
    using assms(7-10) rc by (simp add: auth_handle_def auth_OnRecvFromKafka_def auth_codes EN_AUTH_RESULT_BUS_def)
  have "length (unIpAddr a) = EN_IP_BYTES" using assms(3) by (simp add: authen_wf_def)
  then have s3: "auth_handle ae0 fd rnd pow10 ?m (req ch a) = Some (?m, [free_msg ch, free_msg ch])"
    using assms by (cases rule: auth_handle_held [OF assms(1-4) hold, of ae0 fd rnd pow10]) auto
  show ?thesis by (simp add: s1 s2 s3)
qed

definition demo_ack :: "int \<Rightarrow> bytes \<Rightarrow> bytes" where
  "demo_ack k rid = json_text (\<lambda>q. []) (JObject [(str ''auth_ack'', JObject [(str ''rid'', JString rid), (str ''ack'', JNumber k (of_int k))])])"

lemma demo_ack_parse:
  assumes "nul_free rid" "\<bar>k\<bar> < 2 ^ 31"
  shows "json_of (\<lambda>q. q) (\<lambda>e. 10 powi e) (demo_ack k rid) =
     Some (Some (JObject [(str ''auth_ack'', JObject [(str ''rid'', JString rid), (str ''ack'', JNumber k (of_int k))])]))"
  unfolding demo_ack_def by (rule json_of_text(1))
    (use assms in \<open>simp_all add: exact_ints_def number_ok_def str_def\<close>)

theorem auth_suc_licensed_witness:
  "\<exists>ch a. presented [req demo_channel (demo_licence 6), (EN_AO_MSG_RCVFKAFKA, demo_ack 0 (hexs [1, 2, 3, 4, 5, 6]))] ch a \<and>
     cstr (hexs [1, 2, 3, 4, 5, 6]) @ cstr demo_channel = cstr (hexs (ucResId a)) @ cstr ch"
proof -
  let ?m = "auth_take auth_new demo_channel (demo_licence 6)"
  have "auth_handle demo_ae (\<lambda>q. []) (\<lambda>q. q) (\<lambda>e. 10 powi e) ?m (EN_AO_MSG_RCVFKAFKA, demo_ack 0 (hexs [1, 2, 3, 4, 5, 6])) =
      Some (?m, [auth_suc (hexs [1, 2, 3, 4, 5, 6]) demo_channel, send_msg demo_channel (aam EN_AODC_AODS_AUTH [0])])"
    by (simp add: auth_handle_def auth_OnRecvFromKafka_def auth_codes demo_ack_parse json_access auth_take_def
        demo_ok auth_suc_def)
  then have "auth_run demo_ae (\<lambda>q. []) (\<lambda>q. q) (\<lambda>e. 10 powi e) auth_new
       [req demo_channel (demo_licence 6), (EN_AO_MSG_RCVFKAFKA, demo_ack 0 (hexs [1, 2, 3, 4, 5, 6]))] =
     Some (?m, [auth_report (\<lambda>q. []) (demo_licence 6), auth_suc (hexs [1, 2, 3, 4, 5, 6]) demo_channel,
       send_msg demo_channel (aam EN_AODC_AODS_AUTH [0])])"
    by (simp add: demo_take)
  from auth_suc_licensed [OF this] show ?thesis by (auto simp: auth_suc_def)
qed

theorem busy_retry_disconnects_witness:
  "auth_run demo_ae (\<lambda>q. []) (\<lambda>q. q) (\<lambda>e. 10 powi e) auth_new
     [req demo_channel (demo_licence 6), (EN_AO_MSG_RCVFKAFKA, demo_ack 3 (hexs [1, 2, 3, 4, 5, 6])),
      req demo_channel (demo_licence 6)] =
   Some (auth_take auth_new demo_channel (demo_licence 6), [auth_report (\<lambda>q. []) (demo_licence 6),
     send_msg demo_channel (aam EN_AODC_AODS_AUTH [EN_AUTH_RESULT_BUS]), free_msg demo_channel, free_msg demo_channel])"
  by (rule busy_retry_disconnects [OF _ _ _ _ _ _ demo_ack_parse, where
        v = "JObject [(str ''rid'', JString (hexs [1, 2, 3, 4, 5, 6])), (str ''ack'', JNumber 3 (of_int 3))]"])
    (simp_all add: demo_ok holder_def auth_new_def json_access)

text \<open>C40: a resource number can be lost for good. A channel presents two licences and is freed: the
  record of its first resource number stays behind, and after that, whatever happens, every client
  that presents a licence for that number is turned away and nothing changes.\<close>

theorem licence_locked_out:
  assumes ch: "nul_free ch" "is_aods ch"
    and a: "authen_wf a" "licensed a" "ucIpNum a \<le> 16" and b: "authen_wf b" "licensed b"
    and ne: "hexs (ucResId a) \<noteq> hexs (ucResId b)" and inv: "auth_inv m"
    and free: "holder m (hexs (ucResId a)) = None" "holder m (hexs (ucResId b)) = None"
    and run: "auth_run ae0 fd rnd pow10 m
       ([req ch a, req ch b, (EN_AO_MSG_CHANNEL_FREED, cstr ch)] @ evs) = Some (m', outs)"
    and c: "nul_free ch'" "is_aods ch'" "authen_wf c" "licensed c" "ucResId c = ucResId a"
  shows "auth_handle ae0 fd rnd pow10 m' (req ch' c) = Some (m', [free_msg ch, free_msg ch']) \<or>
     auth_handle ae0 fd rnd pow10 m' (req ch' c) =
       Some (m', [send_msg ch' (aam EN_AODC_AODS_AUTH [EN_AUTH_RESULT_DIF]), free_msg ch'])"
proof -
  let ?ra = "hexs (ucResId a)" and ?rb = "hexs (ucResId b)"
  let ?ai = "\<lparr>ai_ucIpNum = ucIpNum a, ai_strChannelName = ch, ai_unIpAddr = unIpAddr a\<rparr>"
  define m1 where "m1 = auth_take m ch a"
  define m2 where "m2 = auth_take m1 ch b"
  define m3 where "m3 = auth_forget m2 ch"
  have s1: "auth_handle ae0 fd rnd pow10 m (req ch a) = Some (m1, [auth_report fd a])"
    unfolding m1_def using ch a free by (intro auth_handle_free_taken)
  have f2: "holder m1 ?rb = None" using free(2) ne by (simp add: m1_def auth_take_def holder_def)
  have s2: "auth_handle ae0 fd rnd pow10 m1 (req ch b) = Some (m2, [auth_report fd b])"
    unfolding m2_def using ch b f2 by (intro auth_handle_free_taken)
  have s3: "auth_handle ae0 fd rnd pow10 m2 (EN_AO_MSG_CHANNEL_FREED, cstr ch) = Some (m3, [])"
    using ch cstr_at_app0 [of ch "[]"]
    by (simp add: auth_handle_def auth_codes auth_OnChannelFreed_def m3_def)
  from run obtain o4 where run4: "auth_run ae0 fd rnd pow10 m3 evs = Some (m', o4)"
    by (auto simp: s1 s2 s3 bind_eq_Some_conv)
  have "m_mapCR m x \<noteq> Some ?ra" for x
  proof
    assume "m_mapCR m x = Some ?ra"
    then have "\<exists>ai. m_mapRC m ?ra = Some ai \<and> ai_strChannelName ai = x \<and> x \<noteq> []" using inv unfolding auth_inv_def by metis
    then show False using free(1) by (auto simp: holder_def)
  qed
  then have "?ra \<notin> ran (m_mapCR m3)"
    using ne by (auto simp: m3_def m2_def m1_def auth_forget_def auth_take_def ran_def split: if_splits)
  moreover have "holder m3 ?ra = Some ?ai"
    using ne is_aods_ne [OF ch(2)] by (simp add: m3_def m2_def m1_def auth_forget_def auth_take_def holder_def)
  ultimately have "orphan m3 ?ra ?ai" by (simp add: orphan_def)
  then have "holder m' (hexs (ucResId c)) = Some ?ai" using orphan_run [OF _ run4] c(5) by (simp add: orphan_def)
  moreover have "length (unIpAddr a) = EN_IP_BYTES" using a(1) by (simp add: authen_wf_def)
  ultimately show ?thesis
    using a(3) by (cases rule: auth_handle_held [OF c(1-4), of m' ?ai ae0 fd rnd pow10]) auto
qed

theorem licence_locked_out_witness:
  "\<exists>m' outs. auth_run demo_ae (\<lambda>q. []) (\<lambda>q. q) (\<lambda>e. 10 powi e) auth_new
       ([req demo_channel (demo_licence 6), req demo_channel (demo_licence 7),
         (EN_AO_MSG_CHANNEL_FREED, cstr demo_channel)] @ []) = Some (m', outs) \<and>
     (auth_handle demo_ae (\<lambda>q. []) (\<lambda>q. q) (\<lambda>e. 10 powi e) m' (req demo_channel (demo_licence 6)) =
        Some (m', [free_msg demo_channel, free_msg demo_channel]) \<or>
      auth_handle demo_ae (\<lambda>q. []) (\<lambda>q. q) (\<lambda>e. 10 powi e) m' (req demo_channel (demo_licence 6)) =
        Some (m', [send_msg demo_channel (aam EN_AODC_AODS_AUTH [EN_AUTH_RESULT_DIF]), free_msg demo_channel]))"
proof -
  let ?m1 = "auth_take auth_new demo_channel (demo_licence 6)"
  let ?m2 = "auth_take ?m1 demo_channel (demo_licence 7)"
  have ne: "hexs [1, 2, 3, 4, 5, 6] \<noteq> hexs [1, 2, 3, 4, 5, 7]" by (simp add: hexs_def HexChar_def)
  have n: "holder auth_new rid = None" for rid by (simp add: holder_def auth_new_def)
  have s2: "auth_handle demo_ae (\<lambda>q. []) (\<lambda>q. q) (\<lambda>e. 10 powi e) ?m1 (req demo_channel (demo_licence 7)) = Some (?m2, [auth_report (\<lambda>q. []) (demo_licence 7)])"
    using n [of "hexs [1, 2, 3, 4, 5, 7]"] ne
    by (intro auth_handle_free_taken) (simp_all add: demo_ok auth_take_def holder_def)
  have run: "\<exists>m' outs. auth_run demo_ae (\<lambda>q. []) (\<lambda>q. q) (\<lambda>e. 10 powi e) auth_new
       ([req demo_channel (demo_licence 6), req demo_channel (demo_licence 7),
         (EN_AO_MSG_CHANNEL_FREED, cstr demo_channel)] @ []) = Some (m', outs)"
    using cstr_at_app0 [of demo_channel "[]"]
    by (simp add: demo_take s2 demo_ok auth_handle_def [of _ _ _ _ ?m2] auth_codes auth_OnChannelFreed_def)
  then obtain m' outs where r: "auth_run demo_ae (\<lambda>q. []) (\<lambda>q. q) (\<lambda>e. 10 powi e) auth_new
       ([req demo_channel (demo_licence 6), req demo_channel (demo_licence 7),
         (EN_AO_MSG_CHANNEL_FREED, cstr demo_channel)] @ []) = Some (m', outs)" by blast
  have "auth_inv auth_new" by (simp add: auth_inv_def auth_new_def)
  from licence_locked_out [OF _ _ _ _ _ _ _ _ this _ _ r, of demo_channel "demo_licence 6"] show ?thesis
    using r ne n by (auto simp: demo_ok)
qed

end
