(* ===== verification/Aodc_Active.thy ===== *)
theory Aodc_Active
  imports Aodc_Auth
begin

text \<open>
  \<open>aodc/AodsActiveModule.cpp\<close>: the centre passes activation requests to the management side under a
  fresh identifier, and answers the installer when the verdict comes back. Three maps tie a channel
  to its peer address, a channel to its identifier and an identifier to its channel and serial.

  \<open>inet_addr\<close> is the library function, \<open>uuid\<close> the identifier \<open>GetUuid\<close> draws for the message at
  hand. Dereferencing or erasing the end of a map is \<^term>\<open>None\<close>.
\<close>

section \<open>State\<close>

record ACTIVE_INFO =
  ac_strChannelName :: bytes
  szActiveCode :: bytes

record active_module =
  m_mapUai :: "bytes \<rightharpoonup> ACTIVE_INFO"
  m_mapCu :: "bytes \<rightharpoonup> bytes"
  m_mapCA :: "bytes \<rightharpoonup> bytes"

definition active_new :: active_module where
  "active_new = \<lparr>m_mapUai = Map.empty, m_mapCu = Map.empty, m_mapCA = Map.empty\<rparr>"

definition EN_AO_MSG_CHANNEL_BUILDED :: u32 where "EN_AO_MSG_CHANNEL_BUILDED = 20"

definition EN_AODS_AODC_ACTIVATE_SIZE :: nat where
  "EN_AODS_AODC_ACTIVATE_SIZE = 2 + EN_IP_BYTES + EN_RES_ID_LEN + EN_RD_SERIAL_LEN"

definition EN_MAX_TEXT_LEN :: nat where "EN_MAX_TEXT_LEN = 1024"

definition EN_ACT_RLT_DBBUSY :: u8 where "EN_ACT_RLT_DBBUSY = 3"
definition EN_ACT_RLT_DATAINV :: u8 where "EN_ACT_RLT_DATAINV = 6"

text \<open>The request record.\<close>

record AODS_AODC_ACTIVE =
  aq_ucIndex :: u8
  aq_ucIpNum :: u8
  aq_unIpAddr :: bytes
  aq_ucResId :: bytes
  aq_ucRDSerial :: bytes

definition active_of :: "bytes \<Rightarrow> AODS_AODC_ACTIVE" where
  "active_of d = \<lparr>aq_ucIndex = d ! 0, aq_ucIpNum = d ! 1, aq_unIpAddr = take EN_IP_BYTES (drop 2 d),
     aq_ucResId = take EN_RES_ID_LEN (drop 66 d), aq_ucRDSerial = take EN_RD_SERIAL_LEN (drop 72 d)\<rparr>"

section \<open>Answers\<close>

definition OnActiveFailedResult :: "bytes \<Rightarrow> u8 \<Rightarrow> out_msg list option" where
  "OnActiveFailedResult pszChannelName ucRlt =
     (if length (cstr pszChannelName) + EN_AODS_AODC_MSG_SIZE + 1 > EN_MAX_TEXT_LEN then None
      else Some [send_msg pszChannelName (aam EN_AODC_AODS_ACTV [ucRlt])])"

definition ReportActiveSuc :: "(rat \<Rightarrow> bytes) \<Rightarrow> bytes \<Rightarrow> bytes \<Rightarrow> out_msg list option" where
  "ReportActiveSuc fd pszActiveCode resid =
     hex_of 128 pszActiveCode EN_ACT_CODE_LEN \<bind> (\<lambda>szHexActiveCode.
     hex_of 16 resid EN_RES_ID_LEN \<bind> (\<lambda>szHexRid.
     Some [(EN_MODULE_ID_KAFKA, EN_AO_MSG_SND2KAFKA,
       json_text fd (json_object [(str ''active_suc'',
         json_object [(str ''active_code'', JString szHexActiveCode), (str ''rid'', JString szHexRid)])]))]))"

definition RspActiveSuc :: "bytes \<Rightarrow> bytes \<Rightarrow> bytes \<Rightarrow> out_msg list" where
  "RspActiveSuc pszAodsChannelName pszActiveCode pucResId =
     [send_msg pszAodsChannelName (aam EN_AODC_AODS_ACTV (0 # pucResId @ pszActiveCode))]"

definition OnActiveSucc :: "ao_encrypt \<Rightarrow> (rat \<Rightarrow> bytes) \<Rightarrow> bytes \<Rightarrow> bytes \<Rightarrow> out_msg list option" where
  "OnActiveSucc ae0 fd pszAodsChannelName pszActiveCode =
     (let resid = take EN_RES_ID_LEN pszActiveCode in
      CalcActiveCode ae0 pszActiveCode \<bind> (\<lambda>code.
      ReportActiveSuc fd code resid \<bind> (\<lambda>out. Some (out @ RspActiveSuc pszAodsChannelName code resid))))"

section \<open>Handlers\<close>

text \<open>The channel's name, the local and the peer address, each with its terminator.\<close>

definition active_OnChannelBuilded :: "active_module \<Rightarrow> bytes \<Rightarrow> (active_module \<times> out_msg list) option" where
  "active_OnChannelBuilded m msg =
     (if msg = [] then None
      else if last msg \<noteq> 0 then Some (m, [])
      else
        cstr_at msg 0 \<bind> (\<lambda>pszChannelName.
        let n = length pszChannelName + 1 in
        if \<not> is_aods pszChannelName \<or> n + 1 > length msg then Some (m, [])
        else
          cstr_at msg n \<bind> (\<lambda>pszLocalAddr.
          let n = n + length pszLocalAddr + 1 in
          if n + 1 > length msg then Some (m, [])
          else
            cstr_at msg n \<bind> (\<lambda>pszPeerAddr.
            Some (m\<lparr>m_mapCA := (m_mapCA m)(pszChannelName \<mapsto> pszPeerAddr)\<rparr>, [])))))"

definition inet_ntoa :: "u32 \<Rightarrow> bytes" where
  "inet_ntoa a = dec (unat (le32 a ! 0)) @ 46 # dec (unat (le32 a ! 1)) @ 46 # dec (unat (le32 a ! 2)) @
     46 # dec (unat (le32 a ! 3))"

text \<open>The addresses of the request, and whether the peer's address is still missing among them.\<close>

fun ip_items :: "bytes \<Rightarrow> nat \<Rightarrow> nat \<Rightarrow> u32 \<Rightarrow> (cjson list \<times> u32) option" where
  "ip_items ips 0 n unConIp = Some ([], unConIp)"
| "ip_items ips (Suc left) n unConIp =
     rd32 ips (4 * n) \<bind> (\<lambda>a.
     ip_items ips left (Suc n) (if unConIp = a then 0 else unConIp) \<bind> (\<lambda>(xs, c).
     Some (JString (inet_ntoa a) # xs, c)))"

definition OnRecvAodsChannel ::
  "(bytes \<Rightarrow> u32) \<Rightarrow> (rat \<Rightarrow> bytes) \<Rightarrow> bytes \<Rightarrow> active_module \<Rightarrow> bytes \<Rightarrow> bytes \<Rightarrow> (active_module \<times> out_msg list) option" where
  "OnRecvAodsChannel inet_addr fd uuid m pszChannelName d =
     (let failed = (\<lambda>r. map_option (\<lambda>out. (m, out)) (OnActiveFailedResult pszChannelName r)) in
      if length d < EN_AODS_AODC_MSG_SIZE then failed EN_ACT_RLT_DATAINV
      else
        rd32 d 0 \<bind> (\<lambda>msgcode.
        if msgcode \<noteq> EN_AODS_AODC_ACTV then Some (m, [])
        else if EN_AODS_AODC_MSG_SIZE + EN_AODS_AODC_ACTIVATE_SIZE \<noteq> length d then failed EN_ACT_RLT_DATAINV
        else
          let q = active_of (drop EN_AODS_AODC_MSG_SIZE d) in
          case m_mapCA m pszChannelName of
            None \<Rightarrow> failed EN_ACT_RLT_DBBUSY
          | Some addr \<Rightarrow>
              if length (cstr addr) > 256 then None
              else
                (case find_char 58 addr of
                   None \<Rightarrow> failed EN_ACT_RLT_DBBUSY
                 | Some p \<Rightarrow>
                     let unConIp = inet_addr (take p addr) in
                     if unConIp = 0 then failed EN_ACT_RLT_DBBUSY
                     else
                       ip_items (aq_unIpAddr q) (unat (aq_ucIpNum q)) 0 unConIp \<bind> (\<lambda>(xs, c).
                       hex_of 32 (aq_ucResId q) EN_RES_ID_LEN \<bind> (\<lambda>szResId.
                       hex_of 128 (aq_ucRDSerial q) EN_RD_SERIAL_LEN \<bind> (\<lambda>szRds.
                       let pIpObj = JArray (xs @ (if c \<noteq> 0 then [JString (inet_ntoa c)] else []));
                           pObj = json_object [(str ''ip'', pIpObj), (str ''uuid'', JString uuid), (str ''rid'', JString szResId),
                             (str ''rds'', JString szRds), (str ''index'', JNumber (uint (aq_ucIndex q)) (of_int (uint (aq_ucIndex q))))]
                       in Some (m\<lparr>m_mapUai := (m_mapUai m)(uuid \<mapsto> \<lparr>ac_strChannelName = pszChannelName,
                                    szActiveCode = aq_ucResId q @ aq_ucRDSerial q\<rparr>),
                                  m_mapCu := (m_mapCu m)(pszChannelName \<mapsto> uuid)\<rparr>,
                           [(EN_MODULE_ID_KAFKA, EN_AO_MSG_SND2KAFKA, json_text fd (json_object [(str ''active'', pObj)]))])))))))"

definition active_OnRecvChannelData ::
  "(bytes \<Rightarrow> u32) \<Rightarrow> (rat \<Rightarrow> bytes) \<Rightarrow> bytes \<Rightarrow> active_module \<Rightarrow> bytes \<Rightarrow> (active_module \<times> out_msg list) option" where
  "active_OnRecvChannelData inet_addr fd uuid m msg =
     cstr_at msg 0 \<bind> (\<lambda>pszChannelName.
     if is_aods pszChannelName then
       OnRecvAodsChannel inet_addr fd uuid m pszChannelName (drop (length pszChannelName + 1) msg)
     else Some (m, []))"

definition active_OnSendChannelDataFail :: "active_module \<Rightarrow> bytes \<Rightarrow> (active_module \<times> out_msg list) option" where
  "active_OnSendChannelDataFail m msg =
     cstr_at msg 0 \<bind> (\<lambda>pszChannelName.
     Some (m, if is_aods pszChannelName then [free_msg pszChannelName] else []))"

definition active_OnChannelFreed :: "active_module \<Rightarrow> bytes \<Rightarrow> (active_module \<times> out_msg list) option" where
  "active_OnChannelFreed m msg =
     cstr_at msg 0 \<bind> (\<lambda>pszChannelName.
     if \<not> is_aods pszChannelName then Some (m, [])
     else
       case m_mapCu m pszChannelName of
         None \<Rightarrow> Some (m, [])
       | Some uuid \<Rightarrow>
           if m_mapUai m uuid = None then None
           else Some (m\<lparr>m_mapCu := (m_mapCu m)(pszChannelName := None), m_mapUai := (m_mapUai m)(uuid := None),
                      m_mapCA := (m_mapCA m)(pszChannelName := None)\<rparr>, []))"

text \<open>The verdict. The channel of the identifier is looked up among the channels waiting for one, and
  used without a test that it is there.\<close>

definition active_OnRecvFromKafka ::
  "ao_encrypt \<Rightarrow> (rat \<Rightarrow> bytes) \<Rightarrow> (rat \<Rightarrow> rat) \<Rightarrow> (int \<Rightarrow> rat) \<Rightarrow> active_module \<Rightarrow> bytes \<Rightarrow> (active_module \<times> out_msg list) option" where
  "active_OnRecvFromKafka ae0 fd rnd pow10 m msg =
     json_of rnd pow10 msg \<bind> (\<lambda>r.
     case r of
       None \<Rightarrow> Some (m, [])
     | Some pObj \<Rightarrow>
         (case get_object_item pObj (str ''active_ack'') of
            None \<Rightarrow> Some (m, [])
          | Some pActiveObj \<Rightarrow>
              member_string pActiveObj (str ''uuid'') \<bind> (\<lambda>uuid.
              case m_mapUai m uuid of
                None \<Rightarrow> Some (m, [])
              | Some it \<Rightarrow>
                  let name = ac_strChannelName it in
                  if m_mapCu m name = None then None
                  else
                    member_int pActiveObj (str ''ack'') \<bind> (\<lambda>ack.
                    (if ack = 0 then
                       member_string pActiveObj (str ''rid'') \<bind> (\<lambda>rid.
                       GetHexData (szActiveCode it) (cstr rid) \<bind> (\<lambda>code.
                       OnActiveSucc ae0 fd name code))
                     else OnActiveFailedResult name (word_of_int ack)) \<bind> (\<lambda>out.
                    Some (m\<lparr>m_mapCA := (m_mapCA m)(name := None), m_mapCu := (m_mapCu m)(name := None),
                             m_mapUai := (m_mapUai m)(uuid := None)\<rparr>,
                          out @ [free_msg name]))))))"

text \<open>The message map.\<close>

definition active_handle ::
  "(bytes \<Rightarrow> u32) \<Rightarrow> ao_encrypt \<Rightarrow> (rat \<Rightarrow> bytes) \<Rightarrow> (rat \<Rightarrow> rat) \<Rightarrow> (int \<Rightarrow> rat) \<Rightarrow> bytes \<Rightarrow> active_module \<Rightarrow> u32 \<times> bytes \<Rightarrow>
     (active_module \<times> out_msg list) option" where
  "active_handle inet_addr ae0 fd rnd pow10 uuid m = (\<lambda>(msgcode, msg).
     if msgcode = EN_AO_MSG_CHANNEL_RECV_DATA then active_OnRecvChannelData inet_addr fd uuid m msg
     else if msgcode = EN_AO_MSG_CHANNEL_BUILDED then active_OnChannelBuilded m msg
     else if msgcode = EN_AO_MSG_CHANNEL_SEND_DATA_FAIL then active_OnSendChannelDataFail m msg
     else if msgcode = EN_AO_MSG_CHANNEL_FREED then active_OnChannelFreed m msg
     else if msgcode = EN_AO_MSG_RCVFKAFKA then active_OnRecvFromKafka ae0 fd rnd pow10 m msg
     else Some (m, []))"

fun active_run ::
  "(bytes \<Rightarrow> u32) \<Rightarrow> ao_encrypt \<Rightarrow> (rat \<Rightarrow> bytes) \<Rightarrow> (rat \<Rightarrow> rat) \<Rightarrow> (int \<Rightarrow> rat) \<Rightarrow> active_module \<Rightarrow> (bytes \<times> u32 \<times> bytes) list \<Rightarrow>
     (active_module \<times> out_msg list) option" where
  "active_run inet_addr ae0 fd rnd pow10 m [] = Some (m, [])"
| "active_run inet_addr ae0 fd rnd pow10 m ((uuid, ev) # evs) =
     active_handle inet_addr ae0 fd rnd pow10 uuid m ev \<bind> (\<lambda>(m, out).
     active_run inet_addr ae0 fd rnd pow10 m evs \<bind> (\<lambda>(m, out'). Some (m, out @ out')))"

section \<open>A request and its answer\<close>

lemmas active_codes = auth_codes EN_AO_MSG_CHANNEL_BUILDED_def

lemma ip_items_ok:
  "4 * (n + left) \<le> length ips \<Longrightarrow> \<exists>xs c'. ip_items ips left n c = Some (xs, c')"
proof (induction left arbitrary: n c)
  case (Suc left)
  then have "4 * n + 4 \<le> length ips" by simp
  then obtain a where "rd32 ips (4 * n) = Some a" by (simp add: rd32_def)
  with Suc.IH [of "Suc n" "if c = a then 0 else c"] Suc.prems show ?case by force
qed simp

text \<open>A well-formed request on a channel whose peer address is known.\<close>

definition activation_of :: "bytes \<Rightarrow> AODS_AODC_ACTIVE option" where
  "activation_of d =
     (if rd32 d 0 = Some EN_AODS_AODC_ACTV \<and> length d = EN_AODS_AODC_MSG_SIZE + EN_AODS_AODC_ACTIVATE_SIZE
      then Some (active_of (drop EN_AODS_AODC_MSG_SIZE d)) else None)"

definition peer_known :: "(bytes \<Rightarrow> u32) \<Rightarrow> active_module \<Rightarrow> bytes \<Rightarrow> bool" where
  "peer_known inet_addr m ch \<longleftrightarrow> (\<exists>addr p. m_mapCA m ch = Some addr \<and> length addr < 256 \<and>
     find_char 58 addr = Some p \<and> inet_addr (take p addr) \<noteq> 0)"

definition active_take :: "active_module \<Rightarrow> bytes \<Rightarrow> bytes \<Rightarrow> bytes \<Rightarrow> active_module" where
  "active_take m uuid ch code = m\<lparr>m_mapUai := (m_mapUai m)(uuid \<mapsto> \<lparr>ac_strChannelName = ch, szActiveCode = code\<rparr>),
     m_mapCu := (m_mapCu m)(ch \<mapsto> uuid)\<rparr>"

lemma active_of_lengths:
  "length d = EN_AODS_AODC_ACTIVATE_SIZE \<Longrightarrow> length (aq_unIpAddr (active_of d)) = 64 \<and>
     length (aq_ucResId (active_of d)) = 6 \<and> length (aq_ucRDSerial (active_of d)) = 14"
  by (simp add: active_of_def len_defs EN_AODS_AODC_ACTIVATE_SIZE_def)

lemma active_request:
  assumes "nul_free ch" and "is_aods ch" and r: "activation_of d = Some q" and "aq_ucIpNum q \<le> 16"
    and k: "peer_known inet_addr m ch"
  shows "\<exists>text. active_handle inet_addr ae0 fd rnd pow10 uuid m (EN_AO_MSG_CHANNEL_RECV_DATA, cstr ch @ d) =
     Some (active_take m uuid ch (aq_ucResId q @ aq_ucRDSerial q), [(EN_MODULE_ID_KAFKA, EN_AO_MSG_SND2KAFKA, text)])"
proof -
  from k obtain addr p where addr: "m_mapCA m ch = Some addr" "length addr < 256" "find_char 58 addr = Some p"
    "inet_addr (take p addr) \<noteq> 0" by (auto simp: peer_known_def)
  have d: "rd32 d 0 = Some EN_AODS_AODC_ACTV" "length d = 90" "active_of (drop 4 d) = q"
    using r by (auto simp: activation_of_def len_defs EN_AODS_AODC_ACTIVATE_SIZE_def split: if_splits)
  have l: "length (aq_unIpAddr q) = 64" "length (aq_ucResId q) = 6" "length (aq_ucRDSerial q) = 14"
    using active_of_lengths [of "drop 4 d"] d by (simp_all add: EN_AODS_AODC_ACTIVATE_SIZE_def len_defs)
  have "unat (aq_ucIpNum q) \<le> 16" using assms(4) by (simp add: word_le_nat_alt)
  then obtain xs c where x: "ip_items (aq_unIpAddr q) (unat (aq_ucIpNum q)) 0 (inet_addr (take p addr)) = Some (xs, c)"
    using ip_items_ok [of 0 "unat (aq_ucIpNum q)" "aq_unIpAddr q" "inet_addr (take p addr)"] l by auto
  have h: "hex_of 32 (aq_ucResId q) EN_RES_ID_LEN = Some (hexs (aq_ucResId q))"
    "hex_of 128 (aq_ucRDSerial q) EN_RD_SERIAL_LEN = Some (hexs (aq_ucRDSerial q))"
    by (rule hex_of_eq, simp_all add: l len_defs)+
  have "\<exists>text. OnRecvAodsChannel inet_addr fd uuid m ch d =
     Some (active_take m uuid ch (aq_ucResId q @ aq_ucRDSerial q), [(EN_MODULE_ID_KAFKA, EN_AO_MSG_SND2KAFKA, text)])"
    using d addr x h by (simp add: OnRecvAodsChannel_def Let_def len_defs EN_AODS_AODC_ACTIVATE_SIZE_def active_take_def)
  then show ?thesis
    using assms(1,2) cstr_at_app0 [of ch d]
    by (simp add: active_handle_def active_OnRecvChannelData_def cstr_def)
qed

text \<open>An answer of the management side: its members.\<close>

definition answers :: "(rat \<Rightarrow> rat) \<Rightarrow> (int \<Rightarrow> rat) \<Rightarrow> bytes \<Rightarrow> bytes \<Rightarrow> cjson \<Rightarrow> bool" where
  "answers rnd pow10 msg kind v \<longleftrightarrow> (\<exists>j. json_of rnd pow10 msg = Some (Some j) \<and> get_object_item j kind = Some v)"

lemma active_answer:
  assumes "answers rnd pow10 msg (str ''active_ack'') v" and "member_string v (str ''uuid'') = Some uuid"
    and u: "m_mapUai m uuid = Some it"
  shows "active_handle inet_addr ae0 fd rnd pow10 u m (EN_AO_MSG_RCVFKAFKA, msg) =
     (let name = ac_strChannelName it in
      if m_mapCu m name = None then None
      else
        member_int v (str ''ack'') \<bind> (\<lambda>ack.
        (if ack = 0 then
           member_string v (str ''rid'') \<bind> (\<lambda>rid.
           GetHexData (szActiveCode it) (cstr rid) \<bind> (\<lambda>code. OnActiveSucc ae0 fd name code))
         else OnActiveFailedResult name (word_of_int ack)) \<bind> (\<lambda>out.
        Some (m\<lparr>m_mapCA := (m_mapCA m)(name := None), m_mapCu := (m_mapCu m)(name := None),
                 m_mapUai := (m_mapUai m)(uuid := None)\<rparr>, out @ [free_msg name]))))"
proof -
  obtain j where j: "json_of rnd pow10 msg = Some (Some j)" "get_object_item j (str ''active_ack'') = Some v"
    using assms(1) by (auto simp: answers_def)
  show ?thesis
    unfolding active_handle_def prod.case active_OnRecvFromKafka_def j bind.bind_lunit option.case assms(2) u
    by (simp add: active_codes)
qed

section \<open>Two requests on one channel\<close>

text \<open>A client that asks twice brings the centre down. Nothing keeps an installer from sending its
  request again while the first is being examined, and both get an identifier; the answer to the
  first removes the channel from the table, and the answer to the second then dereferences the end
  of that table.\<close>

theorem second_activation_crashes:
  assumes "nul_free ch" and "is_aods ch" and "length ch \<le> 1000" and "peer_known inet_addr m ch"
    and "activation_of d1 = Some q1" "aq_ucIpNum q1 \<le> 16" and "activation_of d2 = Some q2" "aq_ucIpNum q2 \<le> 16"
    and "u1 \<noteq> u2"
    and "answers rnd pow10 msg1 (str ''active_ack'') v1" "member_string v1 (str ''uuid'') = Some u1"
      "member_int v1 (str ''ack'') = Some k" "k \<noteq> 0"
    and "answers rnd pow10 msg2 (str ''active_ack'') v2" "member_string v2 (str ''uuid'') = Some u2"
  shows "\<exists>m' outs. active_run inet_addr ae0 fd rnd pow10 m
       [(u1, EN_AO_MSG_CHANNEL_RECV_DATA, cstr ch @ d1), (u2, EN_AO_MSG_CHANNEL_RECV_DATA, cstr ch @ d2),
        (x, EN_AO_MSG_RCVFKAFKA, msg1)] = Some (m', outs) \<and>
     active_handle inet_addr ae0 fd rnd pow10 y m' (EN_AO_MSG_RCVFKAFKA, msg2) = None"
proof -
  let ?m1 = "active_take m u1 ch (aq_ucResId q1 @ aq_ucRDSerial q1)"
  let ?m2 = "active_take ?m1 u2 ch (aq_ucResId q2 @ aq_ucRDSerial q2)"
  have p1: "peer_known inet_addr ?m1 ch" using assms(4) by (simp add: peer_known_def active_take_def)
  from active_request [OF assms(1,2,5,6,4)] obtain t1 where
    s1: "active_handle inet_addr ae0 fd rnd pow10 u1 m (EN_AO_MSG_CHANNEL_RECV_DATA, cstr ch @ d1) =
      Some (?m1, [(EN_MODULE_ID_KAFKA, EN_AO_MSG_SND2KAFKA, t1)])" by blast
  from active_request [OF assms(1,2,7,8) p1] obtain t2 where
    s2: "active_handle inet_addr ae0 fd rnd pow10 u2 ?m1 (EN_AO_MSG_CHANNEL_RECV_DATA, cstr ch @ d2) =
      Some (?m2, [(EN_MODULE_ID_KAFKA, EN_AO_MSG_SND2KAFKA, t2)])" by blast
  have uai: "m_mapUai ?m2 u1 = Some \<lparr>ac_strChannelName = ch, szActiveCode = aq_ucResId q1 @ aq_ucRDSerial q1\<rparr>"
    using assms(9) by (simp add: active_take_def)
  define m3 where "m3 = ?m2\<lparr>m_mapCA := (m_mapCA ?m2)(ch := None), m_mapCu := (m_mapCu ?m2)(ch := None),
      m_mapUai := (m_mapUai ?m2)(u1 := None)\<rparr>"
  have cu: "m_mapCu ?m2 ch = Some u2" by (simp add: active_take_def)
  have s3: "active_handle inet_addr ae0 fd rnd pow10 x ?m2 (EN_AO_MSG_RCVFKAFKA, msg1) =
      Some (m3, [send_msg ch (aam EN_AODC_AODS_ACTV [word_of_int k]), free_msg ch])"
    using assms(3,12,13) cu
    by (simp add: active_answer [OF assms(10,11) uai] OnActiveFailedResult_def EN_MAX_TEXT_LEN_def len_defs m3_def)
  have u2: "m_mapUai m3 u2 = Some \<lparr>ac_strChannelName = ch, szActiveCode = aq_ucResId q2 @ aq_ucRDSerial q2\<rparr>"
    and c2: "m_mapCu m3 ch = None"
    using assms(9) by (simp_all add: m3_def active_take_def)
  have s4: "active_handle inet_addr ae0 fd rnd pow10 y m3 (EN_AO_MSG_RCVFKAFKA, msg2) = None"
    by (simp add: active_answer [OF assms(14,15) u2] c2)
  from s4 show ?thesis by (intro exI [of _ m3]) (simp add: s1 s2 s3)
qed

text \<open>A concrete channel, request and refusal.\<close>

definition demo_active :: active_module where
  "demo_active = active_new\<lparr>m_mapCA := [demo_channel \<mapsto> [49, 58, 50]]\<rparr>"

definition demo_request :: bytes where
  "demo_request = aam EN_AODS_AODC_ACTV (active_bytes 1 1 (replicate 64 7) (replicate 6 0) (replicate 14 9))"

lemma demo_request_ok: "\<exists>q. activation_of demo_request = Some q \<and> aq_ucIpNum q = 1"
  by (simp add: activation_of_def demo_request_def aam_def rd32_le32_0 active_bytes_def len_defs
      EN_AODS_AODC_ACTIVATE_SIZE_def active_of_def)

definition demo_active_ack :: "int \<Rightarrow> bytes \<Rightarrow> bytes \<Rightarrow> cjson" where
  "demo_active_ack k uuid rid = JObject [(str ''uuid'', JString uuid), (str ''ack'', JNumber k (of_int k)), (str ''rid'', JString rid)]"

lemma demo_active_answer:
  assumes "nul_free uuid" "nul_free rid" "\<bar>k\<bar> < 2 ^ 31" "nul_free kind"
  shows "answers (\<lambda>q. q) (\<lambda>e. 10 powi e) (json_text (\<lambda>q. []) (JObject [(kind, demo_active_ack k uuid rid)]))
     kind (demo_active_ack k uuid rid)"
proof -
  have "json_ok (JObject [(kind, demo_active_ack k uuid rid)])"
    using assms by (simp add: demo_active_ack_def number_ok_def str_def)
  from json_of_text(1) [OF _ this, of "\<lambda>q. q" "\<lambda>e. 10 powi e" "\<lambda>q. []"] show ?thesis
    by (simp add: answers_def exact_ints_def)
qed

lemma demo_active_members:
  "member_string (demo_active_ack k uuid rid) (str ''uuid'') = Some uuid"
  "member_string (demo_active_ack k uuid rid) (str ''rid'') = Some rid"
  "member_int (demo_active_ack k uuid rid) (str ''ack'') = Some k"
  by (simp_all add: demo_active_ack_def json_access)

theorem second_activation_crashes_witness:
  "\<exists>m' outs. active_run (\<lambda>a. 5) demo_ae (\<lambda>q. []) (\<lambda>q. q) (\<lambda>e. 10 powi e) demo_active
       [([65], EN_AO_MSG_CHANNEL_RECV_DATA, cstr demo_channel @ demo_request),
        ([66], EN_AO_MSG_CHANNEL_RECV_DATA, cstr demo_channel @ demo_request),
        ([67], EN_AO_MSG_RCVFKAFKA, json_text (\<lambda>q. []) (JObject [(str ''active_ack'', demo_active_ack 2 [65] [])]))] = Some (m', outs) \<and>
     active_handle (\<lambda>a. 5) demo_ae (\<lambda>q. []) (\<lambda>q. q) (\<lambda>e. 10 powi e) [68] m'
       (EN_AO_MSG_RCVFKAFKA, json_text (\<lambda>q. []) (JObject [(str ''active_ack'', demo_active_ack 0 [66] [])])) = None"
proof -
  obtain q where q: "activation_of demo_request = Some q" "aq_ucIpNum q \<le> 16" using demo_request_ok by auto
  have k: "peer_known (\<lambda>a. 5) demo_active demo_channel" by (simp add: peer_known_def demo_active_def)
  have n: "nul_free (str ''active_ack'')" by (simp add: str_def)
  have l: "length demo_channel \<le> 1000" by (simp add: demo_channel_def aods_server_def str_def)
  show ?thesis
    by (rule second_activation_crashes [OF demo_ok(1,2) l k q q _ demo_active_answer demo_active_members(1)
          demo_active_members(3) _ demo_active_answer demo_active_members(1)])
      (simp_all add: n)
qed

end
