(* ===== verification/Ao_StdMap.thy ===== *)
theory Ao_StdMap
  imports Ao_Licence
begin

text \<open>
  \<open>std::map\<close> with string keys, as the modules that walk over their maps use it: a list of entries in
  the order of the keys, which is the order of iteration. \<open>std::string\<close> compares bytes as unsigned
  values and a prefix is smaller.
\<close>

type_synonym 'v std_map = "(bytes \<times> 'v) list"

fun bytes_less :: "bytes \<Rightarrow> bytes \<Rightarrow> bool" where
  "bytes_less xs [] = False"
| "bytes_less [] (y # ys) = True"
| "bytes_less (x # xs) (y # ys) = (x < y \<or> x = y \<and> bytes_less xs ys)"

text \<open>\<open>operator[] =\<close>.\<close>

fun sm_set :: "bytes \<Rightarrow> 'v \<Rightarrow> 'v std_map \<Rightarrow> 'v std_map" where
  "sm_set k v [] = [(k, v)]"
| "sm_set k v ((k', v') # m) =
     (if k = k' then (k, v) # m
      else if bytes_less k k' then (k, v) # (k', v') # m
      else (k', v') # sm_set k v m)"

definition sm_find :: "'v std_map \<Rightarrow> bytes \<Rightarrow> 'v option" where
  "sm_find m k = map_of m k"

definition sm_erase :: "bytes \<Rightarrow> 'v std_map \<Rightarrow> 'v std_map" where
  "sm_erase k m = filter (\<lambda>p. fst p \<noteq> k) m"

definition sm_ok :: "'v std_map \<Rightarrow> bool" where
  "sm_ok m \<longleftrightarrow> sorted_wrt (\<lambda>p q. bytes_less (fst p) (fst q)) m"

section \<open>The order\<close>

lemma bytes_less_irrefl [simp]: "\<not> bytes_less x x"
  by (induction x) auto

lemma bytes_less_trans: "bytes_less x y \<Longrightarrow> bytes_less y z \<Longrightarrow> bytes_less x z"
proof (induction x z arbitrary: y rule: bytes_less.induct)
  case (3 a xs c zs)
  then show ?case by (cases y) (auto dest: less_trans)
next
  case (2 c zs)
  then show ?case by simp
next
  case (1 xs)
  then show ?case by simp
qed

lemma bytes_less_total: "x \<noteq> y \<Longrightarrow> bytes_less x y \<or> bytes_less y x"
proof (induction x y rule: bytes_less.induct)
  case (1 xs)
  then show ?case by (cases xs) auto
qed auto

section \<open>The dictionary interface\<close>

text \<open>What the modules rely on: lookups after an update, and an invariant every update keeps.\<close>

locale dictionary =
  fixes ok :: "'m \<Rightarrow> bool"
    and find :: "'m \<Rightarrow> bytes \<Rightarrow> 'v option"
    and set_at :: "bytes \<Rightarrow> 'v \<Rightarrow> 'm \<Rightarrow> 'm"
    and erase :: "bytes \<Rightarrow> 'm \<Rightarrow> 'm"
  assumes find_set: "find (set_at k v m) l = (if l = k then Some v else find m l)"
    and find_erase: "find (erase k m) l = (if l = k then None else find m l)"
    and ok_set: "ok m \<Longrightarrow> ok (set_at k v m)"
    and ok_erase: "ok m \<Longrightarrow> ok (erase k m)"
begin

lemma find_set_same: "find (set_at k v m) k = Some v"
  by (simp add: find_set)

lemma find_set_many:
  "find (foldl (\<lambda>m (k, v). set_at k v m) m kvs) l =
     (case map_of (rev kvs) l of None \<Rightarrow> find m l | Some v \<Rightarrow> Some v)"
proof (induction kvs arbitrary: m)
  case (Cons p kvs)
  then show ?case
    by (cases p) (auto simp: find_set map_add_def map_of_append split: option.splits)
qed simp

lemma ok_set_many: "ok m \<Longrightarrow> ok (foldl (\<lambda>m (k, v). set_at k v m) m kvs)"
  by (induction kvs arbitrary: m) (auto simp: ok_set)

end

lemma sm_find_set: "sm_find (sm_set k v m) l = (if l = k then Some v else sm_find m l)"
  by (induction k v m rule: sm_set.induct) (auto simp: sm_find_def)

lemma sm_find_erase: "sm_find (sm_erase k m) l = (if l = k then None else sm_find m l)"
  by (induction m) (auto simp: sm_find_def sm_erase_def)

lemma fst_sm_set: "fst ` set (sm_set k v m) = insert k (fst ` set m)"
  by (induction k v m rule: sm_set.induct) (auto simp: insert_commute)

lemma sm_ok_set: "sm_ok m \<Longrightarrow> sm_ok (sm_set k v m)"
proof (induction k v m rule: sm_set.induct)
  case (2 k v k' v' m)
  show ?case
  proof (cases "k = k' \<or> bytes_less k k'")
    case True
    with 2 show ?thesis by (auto simp: sm_ok_def dest: bytes_less_trans)
  next
    case False
    then have lt: "bytes_less k' k" using bytes_less_total by blast
    have "bytes_less k' l" if "l \<in> fst ` set (sm_set k v m)" for l
      using that lt 2(2) unfolding fst_sm_set by (auto simp: sm_ok_def)
    with 2 False show ?thesis by (auto simp: sm_ok_def)
  qed
qed (simp add: sm_ok_def)

lemma sm_ok_erase: "sm_ok m \<Longrightarrow> sm_ok (sm_erase k m)"
  by (simp add: sm_ok_def sm_erase_def sorted_wrt_filter)

interpretation smap: dictionary sm_ok sm_find sm_set sm_erase
  by unfold_locales (simp_all add: sm_find_set sm_find_erase sm_ok_set sm_ok_erase)

section \<open>Filling a map in order\<close>

lemma sm_set_last: "\<forall>p\<in>set m. bytes_less (fst p) k \<Longrightarrow> sm_set k v m = m @ [(k, v)]"
proof (induction m)
  case (Cons p m)
  then have "k \<noteq> fst p" "\<not> bytes_less k (fst p)" by (auto dest: bytes_less_trans)
  with Cons show ?case by (cases p) simp
qed simp

text \<open>A map written out in its order and filled in again is the same map.\<close>

lemma sm_fill:
  "sm_ok (m @ kvs) \<Longrightarrow> foldl (\<lambda>m (k, v). sm_set k v m) m kvs = m @ kvs"
proof (induction kvs arbitrary: m)
  case (Cons p kvs)
  obtain k v where p: "p = (k, v)" by fastforce
  have "\<forall>q\<in>set m. bytes_less (fst q) k" using Cons.prems by (auto simp: sm_ok_def sorted_wrt_append p)
  then have "sm_set k v m = m @ [(k, v)]" by (rule sm_set_last)
  with Cons.IH [of "m @ [(k, v)]"] Cons.prems show ?case by (simp add: p)
qed simp

end
