(* ===== verification/Ao_Channel.thy ===== *)
theory Ao_Channel
  imports Ao_CommuProtocol Ao_DBAProtocol Aodc_Active Ao_StdMap
begin

text \<open>
  Channels (\<open>util/AoChannel.cpp\<close>), the rest of the socket channel (\<open>util/AoSockChannel.cpp\<close>) and the
  client channel that connects again and again (\<open>util/AoSockTcpChannel.cpp\<close>).

  Ways of leaving the rules of the language are error values of a sum type, which the communication
  module built on this theory shares. The theorems show what a connection lost in the middle of a
  message does to the next one, and what a message larger than the outgoing buffer does.
\<close>

datatype commu_err =
  DeadObject | StaleBuffer | ProtoFault | NullString | JsonFault | BadRead | Overrun | JoinHangs | JoinedTwice

definition ebind :: "'e + 'a \<Rightarrow> ('a \<Rightarrow> 'e + 'b) \<Rightarrow> 'e + 'b" where
  "ebind x f = (case x of Inl e \<Rightarrow> Inl e | Inr a \<Rightarrow> f a)"

lemma ebind_simps [simp]: "ebind (Inl e) f = Inl e" "ebind (Inr a) f = f a"
  by (simp_all add: ebind_def)

lemma ebind_Inr: "ebind x f = Inr b \<longleftrightarrow> (\<exists>a. x = Inr a \<and> f a = Inr b)"
  by (cases x) simp_all

lemma ebind_Inl: "ebind x f = Inl e \<longleftrightarrow> x = Inl e \<or> (\<exists>a. x = Inr a \<and> f a = Inl e)"
  by (cases x) auto

definition need :: "'e \<Rightarrow> 'a option \<Rightarrow> 'e + 'a" where
  "need e x = (case x of None \<Rightarrow> Inl e | Some a \<Rightarrow> Inr a)"

lemma need_simps [simp]: "need e None = Inl e" "need e (Some a) = Inr a"
  by (simp_all add: need_def)

section \<open>Channels\<close>

text \<open>
  The outgoing buffer holds the channel's name; \<open>m_pucOffsetBuf\<close> points behind it, into the block the
  constructor allocated. Blocks are named by their addresses. Memory is taken to suffice.
\<close>

record ao_channel =
  ch_name :: bytes
  m_unTempBufLen :: nat
  m_pucTempBuf :: nat
  m_pucOffsetBuf :: nat

definition m_unFixedOffLen :: "'a ao_channel_scheme \<Rightarrow> nat" where
  "m_unFixedOffLen c = length (ch_name c) + 1"

definition temp_len :: "bytes \<Rightarrow> nat" where
  "temp_len pszName = (let n = length pszName + 1 in if n < 256 then 10240 else n + 10240)"

text \<open>
  \<open>mv\<close> is the allocator's choice: the address \<open>REALLOC\<close> gives for a block and a size. The offset
  pointer is not renewed, nor is the recorded length.
\<close>

definition ch_SendOutMsg ::
  "(nat \<Rightarrow> nat \<Rightarrow> nat) \<Rightarrow> u32 \<Rightarrow> u32 \<Rightarrow> bytes \<Rightarrow> 'a ao_channel_scheme \<Rightarrow> commu_err + 'a ao_channel_scheme \<times> out_msg list" where
  "ch_SendOutMsg mv unRMI msgcode pucData c =
     (if pucData = [] then Inr (c, [(unRMI, msgcode, cstr (ch_name c))])
      else
        let n = m_unFixedOffLen c + length pucData;
            c = (if m_unTempBufLen c < n then c\<lparr>m_pucTempBuf := mv (m_pucTempBuf c) (n + 1024)\<rparr> else c)
        in if m_pucOffsetBuf c \<noteq> m_pucTempBuf c then Inl StaleBuffer
           else Inr (c, [(unRMI, msgcode, cstr (ch_name c) @ pucData)]))"

text \<open>
  What the operating system and the allocator answer: the socket's writes, its addresses as text
  (empty without a socket), the bytes of an object's own pointer to its class table, random numbers,
  and the arithmetic of the JSON library.
\<close>

record commu_env =
  ce_ops :: alloc_ops
  ce_mv :: "nat \<Rightarrow> nat \<Rightarrow> nat"
  ce_ae :: ao_encrypt
  ce_rand :: "nat \<Rightarrow> nat"
  ce_send :: "bytes \<Rightarrow> int"
  ce_local :: "int \<Rightarrow> bytes"
  ce_peer :: "int \<Rightarrow> bytes"
  ce_vptr :: bytes
  ce_rnd :: "rat \<Rightarrow> rat"
  ce_pow10 :: "int \<Rightarrow> rat"

text \<open>The protocol object, of one of two classes.\<close>

datatype acp = AcpAo ao_protocol | AcpDba ao_protocol

definition acp_new :: "commu_env \<Rightarrow> bytes \<Rightarrow> acp" where
  "acp_new e pszProtocol =
     (if pszProtocol = str ''DBACommuProtocol'' then AcpDba (ap_new (ce_ops e) 10240 (ce_ae e))
      else AcpAo (ap_new (ce_ops e) 10240 (ce_ae e)))"

definition acp_feed :: "alloc_ops \<Rightarrow> bytes \<Rightarrow> acp \<Rightarrow> (bool \<times> acp) option" where
  "acp_feed ops d a =
     (case a of AcpAo p \<Rightarrow> map_option (\<lambda>(ok, p). (ok, AcpAo p)) (ap_append ops d p)
      | AcpDba p \<Rightarrow> map_option (\<lambda>(ok, p). (ok, AcpDba p)) (ap_append ops d p))"

definition acp_get :: "acp \<Rightarrow> acp get_result" where
  "acp_get a =
     (case a of
        AcpAo p \<Rightarrow> (case ap_get_content p of GcFault \<Rightarrow> GcFault | GcNull err \<Rightarrow> GcNull err | GcMsg d p \<Rightarrow> GcMsg d (AcpAo p))
      | AcpDba p \<Rightarrow> (case dba_get_content p of GcFault \<Rightarrow> GcFault | GcNull err \<Rightarrow> GcNull err | GcMsg d p \<Rightarrow> GcMsg d (AcpDba p)))"

definition acp_next :: "acp \<Rightarrow> acp option" where
  "acp_next a = (case a of AcpAo p \<Rightarrow> map_option AcpAo (ap_move_next p) | AcpDba p \<Rightarrow> map_option AcpDba (dba_move_next p))"

definition acp_encode :: "commu_env \<Rightarrow> bytes \<Rightarrow> acp \<Rightarrow> (bytes option \<times> acp) option" where
  "acp_encode e d a =
     (case a of
        AcpAo p \<Rightarrow> map_option (\<lambda>(r, p). (r, AcpAo p)) (ap_encode_msg (ce_ops e) (ce_rand e) d (of_nat (length d)) p)
      | AcpDba p \<Rightarrow> map_option (\<lambda>(r, p). (r, AcpDba p)) (dba_encode_msg (ce_ops e) d (of_nat (length d)) p))"

section \<open>Socket channels\<close>

text \<open>\<open>EN_INVALID_SOCK\<close> is \<open>-1\<close>.\<close>

record sock_channel = ao_channel +
  m_pACP :: acp
  sc_Socket :: int

definition sc_new :: "commu_env \<Rightarrow> bytes \<Rightarrow> bytes \<Rightarrow> int \<Rightarrow> nat \<Rightarrow> sock_channel" where
  "sc_new e pszChannelName pszProtocol sock addr =
     \<lparr>ch_name = pszChannelName, m_unTempBufLen = temp_len pszChannelName, m_pucTempBuf = addr,
      m_pucOffsetBuf = addr, m_pACP = acp_new e pszProtocol, sc_Socket = sock\<rparr>"

text \<open>\<open>OnRecvedData\<close> for each message decoded.\<close>

fun sc_hand_on :: "commu_env \<Rightarrow> bytes list \<Rightarrow> sock_channel \<Rightarrow> commu_err + sock_channel \<times> out_msg list" where
  "sc_hand_on e [] c = Inr (c, [])"
| "sc_hand_on e (d # ds) c =
     ebind (ch_SendOutMsg (ce_mv e) EN_MODULE_ID_BROADCAST EN_AO_MSG_CHANNEL_RECV_DATA d c) (\<lambda>(c, out1).
     ebind (sc_hand_on e ds c) (\<lambda>(c, out2). Inr (c, out1 @ out2)))"

text \<open>\<open>ReadData\<close>, given what \<open>recv\<close> answers: a length and the bytes.\<close>

definition sc_ReadData :: "commu_env \<Rightarrow> int \<times> bytes \<Rightarrow> sock_channel \<Rightarrow> commu_err + int \<times> sock_channel \<times> out_msg list" where
  "sc_ReadData e recv c =
     ebind (need ProtoFault (chan_read_data (acp_feed (ce_ops e)) acp_get acp_next (Some recv) (m_pACP c))) (\<lambda>(n, ms, q).
     ebind (sc_hand_on e ms (c\<lparr>m_pACP := q\<rparr>)) (\<lambda>(c, out). Inr (n, c, out)))"

definition sc_OnSendDataFailed :: "commu_env \<Rightarrow> bytes \<Rightarrow> sock_channel \<Rightarrow> commu_err + sock_channel \<times> out_msg list" where
  "sc_OnSendDataFailed e d c = ch_SendOutMsg (ce_mv e) EN_MODULE_ID_BROADCAST EN_AO_MSG_CHANNEL_SEND_DATA_FAIL d c"

text \<open>\<open>SendMsg\<close>: what is written to the socket, and the report of a failure.\<close>

definition sc_SendMsg :: "commu_env \<Rightarrow> bytes \<Rightarrow> sock_channel \<Rightarrow> commu_err + sock_channel \<times> bytes \<times> out_msg list" where
  "sc_SendMsg e d c =
     ebind (need ProtoFault (chan_send_msg (acp_encode e) (if sc_Socket c = - 1 then (\<lambda>b. - 1) else ce_send e) d (m_pACP c)))
       (\<lambda>(w, ok, q).
     if ok then Inr (c\<lparr>m_pACP := q\<rparr>, w, [])
     else ebind (sc_OnSendDataFailed e d (c\<lparr>m_pACP := q\<rparr>)) (\<lambda>(c, out). Inr (c, w, out)))"

definition sc_OnBuiled :: "commu_env \<Rightarrow> sock_channel \<Rightarrow> commu_err + sock_channel \<times> out_msg list" where
  "sc_OnBuiled e c =
     (let szAddr = cstr (ce_local e (sc_Socket c)) @ cstr (ce_peer e (sc_Socket c)) in
      if length szAddr > 256 then Inl Overrun
      else ch_SendOutMsg (ce_mv e) EN_MODULE_ID_BROADCAST EN_AO_MSG_CHANNEL_BUILDED szAddr c)"

definition sc_OnFree :: "sock_channel \<Rightarrow> sock_channel" where
  "sc_OnFree c = c\<lparr>sc_Socket := - 1\<rparr>"

definition sc_OnFreed :: "commu_env \<Rightarrow> sock_channel \<Rightarrow> commu_err + sock_channel \<times> out_msg list" where
  "sc_OnFreed e c = ch_SendOutMsg (ce_mv e) EN_MODULE_ID_BROADCAST EN_AO_MSG_CHANNEL_FREED [] c"

text \<open>\<open>OnDel\<close> sends the first bytes of the object itself, as many as a pointer has.\<close>

definition EN_AO_MSG_CHANNEL_NEW :: u32 where "EN_AO_MSG_CHANNEL_NEW = 17"
definition EN_AO_MSG_CHANNEL_DEL :: u32 where "EN_AO_MSG_CHANNEL_DEL = 18"
definition EN_AO_MSG_LOAD_CFG :: u32 where "EN_AO_MSG_LOAD_CFG = 7"

definition sc_OnDel :: "commu_env \<Rightarrow> sock_channel \<Rightarrow> commu_err + sock_channel \<times> out_msg list" where
  "sc_OnDel e c = ch_SendOutMsg (ce_mv e) EN_MODULE_ID_COMMU EN_AO_MSG_CHANNEL_DEL (ce_vptr e) c"

section \<open>The client channel\<close>

text \<open>\<open>ParseAddr\<close> into buffers of 256 bytes; the last character is not looked at. \<open>nPort\<close> keeps its value
  when no number follows. An empty text makes the bound of the loop the largest number.\<close>

definition ParseAddr :: "bytes \<Rightarrow> int \<Rightarrow> commu_err + (bytes \<times> int) option" where
  "ParseAddr pszUri nPort =
     (if length pszUri \<ge> 256 then Inl Overrun
      else if pszUri = [] then Inl BadRead
      else
        let t = length (takeWhile (\<lambda>c. c \<noteq> 58) (butlast pszUri)) in
        if t < length pszUri - 1
        then (case scan_d (drop (t + 1) pszUri) of
                None \<Rightarrow> Inl Overrun
              | Some NoMatch \<Rightarrow> Inr (Some (take t pszUri, nPort))
              | Some (Match v r) \<Rightarrow> Inr (Some (take t pszUri, v)))
        else Inr None)"

text \<open>\<open>GetNextAddr\<close>: round the list, from the position \<open>cur\<close>.\<close>

definition GetNextAddr :: "bytes list \<Rightarrow> nat \<Rightarrow> int \<Rightarrow> commu_err + nat \<times> (bytes \<times> int) option" where
  "GetNextAddr lstAddr cur nPort =
     (let cur = (if cur = length lstAddr then 0 else cur) in
      if cur = length lstAddr then Inr (cur, None)
      else ebind (ParseAddr (lstAddr ! cur) nPort) (\<lambda>r. Inr (cur + 1, r)))"

text \<open>The reads of one connection, up to the one that ends it.\<close>

fun client_reads :: "commu_env \<Rightarrow> (int \<times> bytes) list \<Rightarrow> sock_channel \<Rightarrow> commu_err + sock_channel \<times> out_msg list" where
  "client_reads e [] c = Inr (c, [])"
| "client_reads e (r # rs) c =
     ebind (sc_ReadData e r c) (\<lambda>(n, c, out1).
     if n < 1 then Inr (c, out1)
     else ebind (client_reads e rs c) (\<lambda>(c, out2). Inr (c, out1 @ out2)))"

text \<open>
  A connection of the loop in \<open>Run\<close>: the address, the attempt (\<open>connect\<close> gives a socket or none), the
  announcement, the reads and the end. The protocol object is the same from one connection to the next.
\<close>

definition client_connection ::
  "commu_env \<Rightarrow> (bytes \<Rightarrow> int \<Rightarrow> int option) \<Rightarrow> (int \<times> bytes) list \<Rightarrow> bytes list \<Rightarrow> nat \<Rightarrow> int \<Rightarrow> sock_channel \<Rightarrow>
     commu_err + (nat \<times> int) \<times> sock_channel \<times> out_msg list" where
  "client_connection e connect rs lstAddr cur nPort c =
     ebind (GetNextAddr lstAddr cur nPort) (\<lambda>(cur, r).
     let (szAddr, nPort) = (case r of Some (a, p) \<Rightarrow> (a, p) | None \<Rightarrow> (str ''aodc.qpgame.com'', 7050));
         c = c\<lparr>sc_Socket := - 1\<rparr>
     in case connect szAddr nPort of
          None \<Rightarrow> Inr ((cur, nPort), c, [])
        | Some s \<Rightarrow>
            ebind (sc_OnBuiled e (c\<lparr>sc_Socket := s\<rparr>)) (\<lambda>(c, out1).
            ebind (client_reads e rs c) (\<lambda>(c, out2).
            ebind (sc_OnFreed e c) (\<lambda>(c, out3). Inr ((cur, nPort), c, out1 @ out2 @ out3)))))"

section \<open>A connection lost in the middle of a message\<close>

definition acp_content :: "acp \<Rightarrow> bytes" where
  "acp_content x = (case x of AcpAo p \<Rightarrow> ap_content p | AcpDba p \<Rightarrow> ap_content p)"

definition acp_wf :: "ao_encrypt \<Rightarrow> acp \<Rightarrow> bool" where
  "acp_wf a x \<longleftrightarrow> (case x of AcpAo p \<Rightarrow> ap_wf a p | AcpDba p \<Rightarrow> False)"

interpretation acp_stream: stream_protocol "acp_wf a" acp_content "acp_feed (ao_ops bld)" acp_get acp_next "ao_frame a" ap_room
  for a bld
proof
  fix x :: acp and d :: bytes
  assume "acp_wf a x" "length (acp_content x) + length d \<le> ap_room"
  then obtain p where "x = AcpAo p" "ap_wf a p" "length (ap_content p) + length d \<le> ap_room"
    by (cases x) (auto simp: acp_wf_def acp_content_def)
  with ao_stream.feed_ok [of a p d bld]
  show "\<exists>x'. acp_feed (ao_ops bld) d x = Some (True, x') \<and> acp_wf a x' \<and> acp_content x' = acp_content x @ d"
    by (auto simp: acp_feed_def acp_wf_def acp_content_def)
next
  fix x
  assume "acp_wf a x" "ao_frame a (acp_content x) = FMore"
  then show "acp_get x = GcNull False"
    using ao_stream.get_more [of a] by (cases x) (auto simp: acp_wf_def acp_content_def acp_get_def)
next
  fix x
  assume "acp_wf a x" "ao_frame a (acp_content x) = FErr"
  then show "acp_get x = GcNull True"
    using ao_stream.get_err [of a] by (cases x) (auto simp: acp_wf_def acp_content_def acp_get_def)
next
  fix x d n
  assume h: "acp_wf a x" "ao_frame a (acp_content x) = FMsg d n"
  then obtain p where p: "x = AcpAo p" "ap_wf a p" "ao_frame a (ap_content p) = FMsg d n"
    by (cases x) (auto simp: acp_wf_def acp_content_def)
  from ao_stream.get_msg [OF p(2,3)] obtain p1 p2 where
    "ap_get_content p = GcMsg d p1" "ap_move_next p1 = Some p2" "ap_wf a p2" "ap_content p2 = drop n (ap_content p)"
    by blast
  then show "\<exists>x1 x2. acp_get x = GcMsg d x1 \<and> acp_next x1 = Some x2 \<and> acp_wf a x2 \<and> acp_content x2 = drop n (acp_content x)"
    by (intro exI [of _ "AcpAo p1"] exI [of _ "AcpAo p2"]) (simp add: p(1) acp_get_def acp_next_def acp_wf_def acp_content_def)
qed (rule ao_stream.frame_len ao_stream.frame_grow; assumption)+

text \<open>A cut message and what follows it, as long as both together are shorter than the message.\<close>

lemma ao_frame_cut:
  assumes "length d + 32 \<le> 1024 * 1024" and "12 \<le> k" and "k + length ws < length (ap_wire a' rnd d)"
  shows "ao_frame a (take k (ap_wire a' rnd d) @ ws) = FMore"
proof -
  let ?m = "min (length d) 20" and ?b = "take k (ap_wire a' rnd d) @ ws"
  let ?n = "length d + 12 + ?m"
  let ?h = "le32 (of_nat ?n) @ le32 (of_nat (ap_key_code rnd)) @ le32 (of_nat ?m) :: bytes"
  let ?r = "take (k - 12) (ap_wire_kb rnd d @ ap_wire_payload a' rnd d) @ ws"
  have w: "ap_wire a' rnd d = ?h @ (ap_wire_kb rnd d @ ap_wire_payload a' rnd d)"
    by (simp add: ap_wire_def ap_wire_head_def)
  have "take k (x @ y) @ z = x @ take (k - 12) y @ z" if "length x = 12" for x y z :: bytes
    using that assms(2) by simp
  from this [of ?h] have b: "?b = ?h @ ?r" unfolding w by (simp only: length_append length_le32)
  have h: "rd32 ?b 0 = Some (of_nat ?n)" "rd32 ?b 4 = Some (of_nat (ap_key_code rnd))"
    "rd32 ?b 8 = Some (of_nat ?m)"
    unfolding b by (simp_all only: append_assoc rd32_le32_0 rd32_skip length_le32) (simp_all add: buf_simps)
  have s: "sint (of_nat ?n :: u32) = int ?n" "sint (of_nat ?m :: u32) = int ?m"
    by (rule sint_of_nat32, use assms(1) in simp)+
  have "length ?b < ?n" using assms(3) by (simp add: length_ap_wire)
  then have c: "\<not> EN_MAX_PROTOCOL_LEN < int ?n" "\<not> (int ?m < 0 \<or> int ?m + 12 \<ge> 2 ^ 31)"
    "\<not> int ?n < int ?m + 12" "int ?n > int (length ?b)"
    using assms(1) by (auto simp: EN_MAX_PROTOCOL_LEN_def)
  show ?thesis
    unfolding ao_frame_hdr [OF h] s sint_key_code by (simp only: c if_False if_True)
qed

text \<open>Reads of the given bytes, and the last one, which finds the connection closed.\<close>

definition reads_of :: "bytes list \<Rightarrow> (int \<times> bytes) list" where
  "reads_of cs = map (\<lambda>c. (int (length c), c)) cs"

definition conn_reads :: "bytes list \<Rightarrow> (int \<times> bytes) list" where
  "conn_reads cs = reads_of cs @ [(0, [])]"

lemma client_reads_quiet:
  assumes "ce_ops e = ao_ops bld"
  shows "acp_wf a (m_pACP c) \<Longrightarrow> [] \<notin> set cs \<Longrightarrow> length (acp_content (m_pACP c) @ concat cs) \<le> ap_room \<Longrightarrow>
     ao_frame a (acp_content (m_pACP c) @ concat cs) = FMore \<Longrightarrow>
     \<exists>q. (\<forall>rs. client_reads e (reads_of cs @ rs) c = client_reads e rs (c\<lparr>m_pACP := q\<rparr>)) \<and> acp_wf a q \<and>
       acp_content q = acp_content (m_pACP c) @ concat cs"
proof (induction cs arbitrary: c)
  case Nil
  have "c = c\<lparr>m_pACP := m_pACP c\<rparr>" by simp
  with Nil show ?case by (intro exI [of _ "m_pACP c"]) (simp add: reads_of_def)
next
  case (Cons x cs)
  let ?b = "acp_content (m_pACP c) @ x"
  have more: "ao_frame a ?b = FMore"
    using Cons.prems(4) acp_stream.frame_grow [of a ?b "concat cs"] by auto
  then have stop: "deframe (ao_frame a) ?b = ([], ?b)" by (intro acp_stream.deframe_stop) simp
  then have "clean (ao_frame a) ?b" by (simp add: clean_def more)
  with acp_stream.chan_read_data_ok [OF Cons.prems(1), of x bld] Cons.prems(2,3) obtain q where
    q: "chan_read_data (acp_feed (ce_ops e)) acp_get acp_next (Some (int (length x), x)) (m_pACP c) = Some (int (length x), [], q)"
      "acp_wf a q" "acp_content q = ?b"
    by (auto simp: stop assms)
  have "\<not> int (length x) < 1" using Cons.prems(2) by (cases x) auto
  with q have s: "client_reads e (reads_of (x # cs) @ rs) c = client_reads e (reads_of cs @ rs) (c\<lparr>m_pACP := q\<rparr>)" for rs
    by (cases "client_reads e (reads_of cs @ rs) (c\<lparr>m_pACP := q\<rparr>)") (auto simp: reads_of_def sc_ReadData_def)
  show ?case using Cons.IH [of "c\<lparr>m_pACP := q\<rparr>"] q(2,3) Cons.prems(2-4) by (auto simp: s)
qed

lemma client_reads_end: "client_reads e [(0, [])] c = Inr (c, [])"
  by (simp add: sc_ReadData_def chan_read_data_def)

lemma conn_reads_quiet:
  assumes "ce_ops e = ao_ops bld" and "acp_wf a (m_pACP c)" and "[] \<notin> set cs"
    and "length (acp_content (m_pACP c) @ concat cs) \<le> ap_room" and "ao_frame a (acp_content (m_pACP c) @ concat cs) = FMore"
  shows "\<exists>q. client_reads e (conn_reads cs) c = Inr (c\<lparr>m_pACP := q\<rparr>, []) \<and> acp_wf a q \<and>
     acp_content q = acp_content (m_pACP c) @ concat cs"
  using client_reads_quiet [OF assms] by (metis conn_reads_def client_reads_end)

text \<open>The protocol object the constructor makes.\<close>

lemma acp_new_ok:
  assumes "ce_ops e = ao_ops bld" and "pr \<noteq> str ''DBACommuProtocol''"
  shows "acp_wf (m_ae (ap_new (ao_ops bld') 10240 ae)) (acp_new e pr)" "acp_content (acp_new e pr) = []"
  using ap_new_ok assms by (simp_all add: acp_new_def acp_wf_def acp_content_def)

lemma sc_announce:
  assumes "m_pucOffsetBuf c = m_pucTempBuf c" and "m_unTempBufLen c = temp_len (ch_name c)"
    and "length (ch_name c) \<le> 1000" and "length (ce_local e (sc_Socket c)) + length (ce_peer e (sc_Socket c)) \<le> 254"
  shows "sc_OnBuiled e c = Inr (c, [(EN_MODULE_ID_BROADCAST, EN_AO_MSG_CHANNEL_BUILDED,
       cstr (ch_name c) @ cstr (ce_local e (sc_Socket c)) @ cstr (ce_peer e (sc_Socket c)))])"
    and "sc_OnFreed e c = Inr (c, [(EN_MODULE_ID_BROADCAST, EN_AO_MSG_CHANNEL_FREED, cstr (ch_name c))])"
  using assms by (simp_all add: sc_OnBuiled_def sc_OnFreed_def ch_SendOutMsg_def Let_def temp_len_def m_unFixedOffLen_def cstr_def)

text \<open>C28: a client that loses its connection in the middle of a message hears nothing on the next one.
  The protocol object outlives the connection and nothing resets it, so the bytes of the new connection
  are taken for the rest of the old message: until they have filled it up, whatever the server sends,
  the verdict on the client's authentication included, none of it is handed on.\<close>

theorem reconnect_swallows_messages:
  assumes "ce_ops e = ao_ops bld" and "pr \<noteq> str ''DBACommuProtocol''" and "length name \<le> 1000"
    and "length (ce_local e s) + length (ce_peer e s) \<le> 254" and "\<And>a p. connect a p = Some s"
    and "length d + 32 \<le> 1024 * 1024" and "12 \<le> k"
    and "concat cs1 = take k (ap_wire a rnd d)" and "k + length (concat cs2) < length (ap_wire a rnd d)"
    and "[] \<notin> set cs1" and "[] \<notin> set cs2"
  shows "\<exists>st1 c1 st2 c2 built freed.
     client_connection e connect (conn_reads cs1) [] 0 0 (sc_new e name pr (- 1) addr) = Inr (st1, c1, [built, freed]) \<and>
     client_connection e connect (conn_reads cs2) [] (fst st1) (snd st1) c1 = Inr (st2, c2, [built, freed]) \<and>
     fst (snd built) = EN_AO_MSG_CHANNEL_BUILDED \<and> fst (snd freed) = EN_AO_MSG_CHANNEL_FREED"
proof -
  define c0 where "c0 = (sc_new e name pr (- 1) addr)\<lparr>sc_Socket := s\<rparr>"
  obtain b where b: "acp_wf b (m_pACP c0)" "acp_content (m_pACP c0) = []"
    using acp_new_ok [OF assms(1,2)] by (force simp: c0_def sc_new_def)
  have room: "length (ap_wire a rnd d) \<le> ap_room" using assms(6) by (simp add: length_ap_wire ap_room_def)
  have more: "ao_frame b (take k (ap_wire a rnd d) @ ws) = FMore" if "k + length ws < length (ap_wire a rnd d)" for ws
    by (rule ao_frame_cut [OF assms(6,7) that])
  have "k < length (ap_wire a rnd d)" using assms(9) by simp
  then have k1: "length (concat cs1) \<le> ap_room" "length (concat cs1) = k" using assms(8) room by simp_all
  obtain q1 where q1: "client_reads e (conn_reads cs1) c0 = Inr (c0\<lparr>m_pACP := q1\<rparr>, [])" "acp_wf b q1"
      "acp_content q1 = take k (ap_wire a rnd d)"
    using conn_reads_quiet [OF assms(1) b(1) assms(10)] b(2) assms(8,9) k1 more [of "[]"] by auto
  obtain q2 where q2: "client_reads e (conn_reads cs2) (c0\<lparr>m_pACP := q1\<rparr>) = Inr (c0\<lparr>m_pACP := q2\<rparr>, [])"
    using conn_reads_quiet [OF assms(1), of b "c0\<lparr>m_pACP := q1\<rparr>" cs2] q1(2,3) assms(9,11) more room by auto
  let ?built = "(EN_MODULE_ID_BROADCAST, EN_AO_MSG_CHANNEL_BUILDED, cstr name @ cstr (ce_local e s) @ cstr (ce_peer e s))"
  let ?freed = "(EN_MODULE_ID_BROADCAST, EN_AO_MSG_CHANNEL_FREED, cstr name)"
  have f: "m_pucOffsetBuf (c0\<lparr>m_pACP := q\<rparr>) = m_pucTempBuf (c0\<lparr>m_pACP := q\<rparr>)" "ch_name (c0\<lparr>m_pACP := q\<rparr>) = name"
    "m_unTempBufLen (c0\<lparr>m_pACP := q\<rparr>) = temp_len name" "sc_Socket (c0\<lparr>m_pACP := q\<rparr>) = s" for q
    by (simp_all add: c0_def sc_new_def)
  have an: "sc_OnBuiled e (c0\<lparr>m_pACP := q\<rparr>) = Inr (c0\<lparr>m_pACP := q\<rparr>, [?built])"
    "sc_OnFreed e (c0\<lparr>m_pACP := q\<rparr>) = Inr (c0\<lparr>m_pACP := q\<rparr>, [?freed])" for q
    using sc_announce [of "c0\<lparr>m_pACP := q\<rparr>" e] assms(3,4) unfolding f by simp_all
  have c0: "c0\<lparr>m_pACP := m_pACP c0\<rparr> = c0" "(sc_new e name pr (- 1) addr)\<lparr>sc_Socket := - 1, sc_Socket := s\<rparr> = c0"
    "c0\<lparr>m_pACP := q1, sc_Socket := - 1, sc_Socket := s\<rparr> = c0\<lparr>m_pACP := q1\<rparr>"
    by (simp_all add: c0_def)
  have s1: "client_connection e connect (conn_reads cs1) [] 0 0 (sc_new e name pr (- 1) addr) =
      Inr ((0, 7050), c0\<lparr>m_pACP := q1\<rparr>, [?built, ?freed])"
    using an(1) [of "m_pACP c0"] an(2) [of q1] q1(1) assms(5)
    by (simp add: client_connection_def GetNextAddr_def c0)
  have s2: "client_connection e connect (conn_reads cs2) [] 0 7050 (c0\<lparr>m_pACP := q1\<rparr>) =
      Inr ((0, 7050), c0\<lparr>m_pACP := q2\<rparr>, [?built, ?freed])"
    using an(1) [of q1] an(2) [of q2] q2 assms(5)
    by (simp add: client_connection_def GetNextAddr_def c0)
  show ?thesis using s1 s2 by fastforce
qed

section \<open>A message larger than the outgoing buffer\<close>

lemma ao_frame_prefix:
  assumes "length d + 32 \<le> 1024 * 1024" and "d \<noteq> []" and "k < length (ap_wire a' rnd d)"
  shows "ao_frame a (take k (ap_wire a' rnd d)) = FMore"
proof (cases "12 \<le> k")
  case True
  then show ?thesis using ao_frame_cut [OF assms(1) True, of "[]" a' rnd a] assms(3) by simp
next
  case False
  have "ao_frame a (take 12 (ap_wire a' rnd d)) = FMore"
    using ao_frame_cut [OF assms(1), of 12 "[]" a' rnd a] assms(2) by (simp add: length_ap_wire)
  moreover have "take 12 (ap_wire a' rnd d) = take k (ap_wire a' rnd d) @ drop k (take 12 (ap_wire a' rnd d))"
    using False by (metis append_take_drop_id min.absorb1 nat_le_linear take_take)
  ultimately show ?thesis using acp_stream.frame_grow by metis
qed

text \<open>C26: a message that does not fit the outgoing buffer goes to freed memory. The buffer grows by
  reallocation, but the pointer behind the channel's name still points into the old block. So when
  the allocator moves the block, one correct message of the peer, of some ten thousand bytes and more
  and cut into reads in any way, makes the channel write where it no longer may.\<close>

theorem large_message_corrupts_heap:
  assumes "ce_ops e = ao_ops bld" and "pr \<noteq> str ''DBACommuProtocol''"
    and "temp_len name < length name + 1 + length d" and "length d + 32 \<le> 1024 * 1024"
    and "ce_mv e addr (length name + 1 + length d + 1024) \<noteq> addr"
    and "concat cs = ap_wire (m_ae (ap_new (ao_ops bld') 10240 ae)) rnd d" and "[] \<notin> set cs"
  shows "client_reads e (conn_reads cs) (sc_new e name pr sock addr) = Inl StaleBuffer"
proof -
  let ?a = "m_ae (ap_new (ao_ops bld') 10240 ae)" and ?c = "sc_new e name pr sock addr"
  let ?w = "ap_wire ?a rnd d"
  have wf: "acp_wf ?a (m_pACP ?c)" "acp_content (m_pACP ?c) = []"
    using acp_new_ok [OF assms(1,2)] by (simp_all add: sc_new_def)
  have d: "d \<noteq> []" using assms(3) by (auto simp: temp_len_def Let_def split: if_splits)
  have room: "length ?w \<le> ap_room" using assms(4) by (simp add: length_ap_wire ap_room_def)
  have "cs \<noteq> []" using assms(6) by (auto simp: ap_wire_def ap_wire_head_def le32_def)
  then obtain xs x where cs: "cs = xs @ [x]" by (metis rev_exhaust)
  have x: "x \<noteq> []" "[] \<notin> set xs" using assms(7) cs by auto
  let ?k = "length (concat xs)"
  have w: "?w = concat xs @ x" using assms(6) cs by simp
  then have k: "concat xs = take ?k ?w" "?k < length ?w" using x(1) by auto
  have more: "ao_frame ?a (concat xs) = FMore" using ao_frame_prefix [OF assms(4) d k(2)] k(1) by simp
  obtain q where q: "\<And>rs. client_reads e (reads_of xs @ rs) ?c = client_reads e rs (?c\<lparr>m_pACP := q\<rparr>)"
      "acp_wf ?a q" "acp_content q = concat xs"
    using client_reads_quiet [OF assms(1) wf(1) x(2)] wf(2) more room w by auto
  have "same_tables ?a ?a" by (simp add: same_tables_def)
  then have f: "ao_frame ?a ?w = FMsg d (length ?w)"
    using ao_frame_wire [of ?a ?a d rnd "[]"] ap_new_ok assms(4) by auto
  have e: "ao_frame ?a [] = FMore" by (simp add: ao_frame_def rd32_def)
  have df: "deframe (ao_frame ?a) ?w = ([d], [])"
    using acp_stream.deframe_msg [of ?a ?w d "length ?w"] f e acp_stream.deframe_stop [of ?a "[]"] by simp
  have "clean (ao_frame ?a) (acp_content q @ x)"
    by (simp add: q(3) w [symmetric] clean_def df e)
  with acp_stream.chan_read_data_ok [OF q(2) x(1), of bld] q(3) w room df obtain q' where
    "chan_read_data (acp_feed (ce_ops e)) acp_get acp_next (Some (int (length x), x)) q = Some (int (length x), [d], q')"
    by (auto simp: assms(1))
  moreover have "ch_SendOutMsg (ce_mv e) EN_MODULE_ID_BROADCAST EN_AO_MSG_CHANNEL_RECV_DATA d (?c\<lparr>m_pACP := r\<rparr>) = Inl StaleBuffer" for r
    using assms(3,5) d by (simp add: ch_SendOutMsg_def sc_new_def m_unFixedOffLen_def Let_def)
  ultimately have "sc_ReadData e (int (length x), x) (?c\<lparr>m_pACP := q\<rparr>) = Inl StaleBuffer"
    by (simp add: sc_ReadData_def)
  then show ?thesis by (simp add: conn_reads_def cs reads_of_def q(1) [unfolded reads_of_def])
qed

text \<open>A concrete environment.\<close>

definition demo_env :: commu_env where
  "demo_env = \<lparr>ce_ops = ao_ops (MEM_CACHE 0), ce_mv = (\<lambda>a n. a + 1), ce_ae = demo_ae, ce_rand = (\<lambda>i. i),
     ce_send = (\<lambda>b. 1), ce_local = (\<lambda>s. []), ce_peer = (\<lambda>s. []), ce_vptr = [8, 0], ce_rnd = (\<lambda>q. q),
     ce_pow10 = (\<lambda>i. 10 powi i)\<rparr>"

definition demo_name :: bytes where "demo_name = [99]"

theorem large_message_corrupts_heap_witness:
  "client_reads demo_env (conn_reads [ap_wire (m_ae (ap_new (ao_ops (MEM_CACHE 0)) 10240 demo_ae)) (\<lambda>i. i) (replicate 20000 7)])
     (sc_new demo_env demo_name [] 5 1) = Inl StaleBuffer"
proof (rule large_message_corrupts_heap [where bld = "MEM_CACHE 0" and bld' = "MEM_CACHE 0" and ae = demo_ae
      and rnd = "\<lambda>i. i" and d = "replicate 20000 7"])
  show "[] \<notin> set [ap_wire (m_ae (ap_new (ao_ops (MEM_CACHE 0)) 10240 demo_ae)) (\<lambda>i. i) (replicate 20000 7)]"
    by (simp add: ap_wire_def ap_wire_head_def le32_def)
qed (simp_all add: demo_env_def demo_name_def temp_len_def str_def)

theorem reconnect_swallows_messages_witness:
  "\<exists>st1 c1 st2 c2 built freed.
     client_connection demo_env (\<lambda>a p. Some 5) (conn_reads [take 15 (ap_wire demo_ae (\<lambda>i. i) (replicate 100 7))]) [] 0 0
       (sc_new demo_env demo_name [] (- 1) 1) = Inr (st1, c1, [built, freed]) \<and>
     client_connection demo_env (\<lambda>a p. Some 5) (conn_reads [ap_wire demo_ae (\<lambda>i. i) [1, 2, 3]]) [] (fst st1) (snd st1) c1 =
       Inr (st2, c2, [built, freed]) \<and>
     fst (snd built) = EN_AO_MSG_CHANNEL_BUILDED \<and> fst (snd freed) = EN_AO_MSG_CHANNEL_FREED"
proof (rule reconnect_swallows_messages [where bld = "MEM_CACHE 0" and s = 5 and k = 15 and a = demo_ae and rnd = "\<lambda>i. i" and d = "replicate 100 7"])
  have w: "length (ap_wire demo_ae (\<lambda>i. i) (replicate 100 7)) = 132" "length (ap_wire demo_ae (\<lambda>i. i) [1, 2, 3]) = 18"
    by (simp_all add: length_ap_wire)
  show "[] \<notin> set [take 15 (ap_wire demo_ae (\<lambda>i. i) (replicate 100 7))]" using w(1) by auto
  show "[] \<notin> set [ap_wire demo_ae (\<lambda>i. i) [1, 2, 3]]" using w(2) by auto
  show "15 + length (concat [ap_wire demo_ae (\<lambda>i. i) [1, 2, 3]]) < length (ap_wire demo_ae (\<lambda>i. i) (replicate 100 7))"
    using w by simp
qed (simp_all add: demo_env_def demo_name_def str_def)

end
