(* ===== verification/Ao_Commu.thy ===== *)
theory Ao_Commu
  imports Ao_Channel "HOL-Library.Multiset"
begin

text \<open>
  The communication module (\<open>util/CommuModule.cpp\<close>), the servers' configuration
  (\<open>util/AoTcpServer.cpp\<close>) and the groups that read the sockets (\<open>util/AoIoSelectGroup.cpp\<close>).

  The module's table maps names to channels, the groups hold the channels whose sockets they read. A
  group that finds a connection closed drops the channel and asks the module to delete it; the request
  is a message like any other, so the deletion comes later. The theorems say when no channel is used
  after its deletion, that a closed connection is forgotten, and what a name used twice does.
\<close>

section \<open>The module\<close>

text \<open>
  A TCP server's entries. \<open>nPort\<close> keeps the value of the entry before when the text holds no number.
\<close>

record SERVER_CHANNEL =
  sv_strName :: bytes
  sv_strAddr :: bytes
  sv_strProtocol :: bytes
  sv_nPort :: int
  sv_nNum :: int
  ullIndex :: u64

text \<open>
  \<open>NoThread\<close>: never started. \<open>Starting\<close>: the thread has not run its first lines, which set \<open>m_bRunning\<close> and
  make the socket object. \<open>Ended\<close>: it has been joined.
\<close>

datatype run_state = NoThread | Starting | Running | Ended

datatype chan_obj =
    SockObj sock_channel
  | ClientObj sock_channel run_state "bytes list"
  | ServerObj "unit ao_channel_scheme" run_state "SERVER_CHANNEL list"

definition obj_name :: "chan_obj \<Rightarrow> bytes" where
  "obj_name ob = (case ob of SockObj c \<Rightarrow> ch_name c | ClientObj c t as \<Rightarrow> ch_name c | ServerObj c t svs \<Rightarrow> ch_name c)"

text \<open>
  The table and the groups hold addresses of objects; \<open>cm_next\<close> is an address never used so far.
\<close>

record commu_module =
  cm_objs :: "nat \<rightharpoonup> chan_obj"
  cm_next :: nat
  m_mapAC :: "nat std_map"
  m_pAISG :: "nat list list"

definition commu_new :: commu_module where
  "commu_new = \<lparr>cm_objs = Map.empty, cm_next = 1, m_mapAC = [], m_pAISG = []\<rparr>"

datatype commu_out = CoMsg out_msg | CoWire int bytes

type_synonym 'a commu = "commu_err + 'a \<times> commu_out list"

definition EN_MAX_IO_COUNT :: nat where "EN_MAX_IO_COUNT = 1024"
definition EN_MAX_IO_SELECT_GROUP_COUNT :: nat where "EN_MAX_IO_SELECT_GROUP_COUNT = 20"
definition EN_MAX_SERVER_NUM :: nat where "EN_MAX_SERVER_NUM = 256"

definition with_obj :: "commu_module \<Rightarrow> nat \<Rightarrow> commu_err + chan_obj" where
  "with_obj m oid = need DeadObject (cm_objs m oid)"

definition put_obj :: "nat \<Rightarrow> chan_obj \<Rightarrow> commu_module \<Rightarrow> commu_module" where
  "put_obj oid ob m = m\<lparr>cm_objs := (cm_objs m)(oid \<mapsto> ob)\<rparr>"

text \<open>
  \<open>Stop\<close>. A client clears \<open>m_bRunning\<close>, closes its socket and waits for its thread; if the thread has
  not begun, it sets the flag again and runs for ever. A thread must not be joined twice.
\<close>

definition stop_obj :: "chan_obj \<Rightarrow> commu_err + chan_obj" where
  "stop_obj ob =
     (case ob of
        SockObj c \<Rightarrow> Inr (SockObj c)
      | ClientObj c t as \<Rightarrow>
          (case t of
             NoThread \<Rightarrow> Inr (ClientObj c t as)
           | Starting \<Rightarrow> Inl JoinHangs
           | Running \<Rightarrow> Inr (ClientObj (sc_OnFree c) Ended as)
           | Ended \<Rightarrow> Inl JoinedTwice)
      | ServerObj c t svs \<Rightarrow>
          (case t of NoThread \<Rightarrow> Inr (ServerObj c t svs) | Ended \<Rightarrow> Inl JoinedTwice | _ \<Rightarrow> Inr (ServerObj c Ended svs)))"

text \<open>
  \<open>SAFE_DELETE\<close>: a client channel is stopped first; a channel with a socket announces its end. A server
  is not stopped.
\<close>

definition delete_obj :: "commu_env \<Rightarrow> nat \<Rightarrow> commu_module \<Rightarrow> commu_module commu" where
  "delete_obj e oid m =
     ebind (with_obj m oid) (\<lambda>ob.
     let m' = m\<lparr>cm_objs := (cm_objs m)(oid := None)\<rparr> in
     case ob of
       SockObj c \<Rightarrow> ebind (sc_OnFreed e c) (\<lambda>(c, out). Inr (m', map CoMsg out))
     | ClientObj c t as \<Rightarrow>
         ebind (stop_obj ob) (\<lambda>_. ebind (sc_OnFreed e c) (\<lambda>(c, out). Inr (m', map CoMsg out)))
     | ServerObj c t svs \<Rightarrow> Inr (m', []))"

text \<open>\<open>Append\<close> of the first group with room; groups are made as they are needed.\<close>

fun place :: "nat \<Rightarrow> nat list list \<Rightarrow> nat \<Rightarrow> nat list list option" where
  "place 0 gs oid = None"
| "place (Suc left) [] oid = Some [[oid]]"
| "place (Suc left) (g # gs) oid =
     (if length g < EN_MAX_IO_COUNT then Some ((g @ [oid]) # gs) else map_option ((#) g) (place left gs oid))"

definition AppendSockChannle2IoSelectGroup :: "nat \<Rightarrow> commu_module \<Rightarrow> commu_module option" where
  "AppendSockChannle2IoSelectGroup oid m =
     map_option (\<lambda>gs. m\<lparr>m_pAISG := gs\<rparr>) (place EN_MAX_IO_SELECT_GROUP_COUNT (m_pAISG m) oid)"

text \<open>\<open>new\<close>: the object and the module's store with it.\<close>

definition new_obj :: "chan_obj \<Rightarrow> commu_module \<Rightarrow> commu_module" where
  "new_obj ob m = m\<lparr>cm_objs := (cm_objs m)(cm_next m \<mapsto> ob), cm_next := cm_next m + 1\<rparr>"

definition string_of :: "cjson option \<Rightarrow> bytes option" where
  "string_of j = (case j of Some (JString s) \<Rightarrow> Some s | _ \<Rightarrow> None)"

definition CreateAoSockChannel ::
  "commu_env \<Rightarrow> bytes option \<Rightarrow> bytes \<Rightarrow> cjson option \<Rightarrow> commu_module \<Rightarrow> (bool \<times> commu_module) commu" where
  "CreateAoSockChannel e pszChannelName pszProtocol pPara m =
     (case pPara of
        Some (JObject kvs) \<Rightarrow>
          (case (string_of (get_object_item (JObject kvs) (str ''Protocol'')),
                 get_object_item (JObject kvs) (str ''Handle'')) of
             (Some pr, Some (JNumber h q)) \<Rightarrow>
               if pr \<noteq> str ''Tcp'' then Inr ((False, m), [])
               else
                 ebind (need NullString pszChannelName) (\<lambda>name.
                 let oid = cm_next m; m0 = m\<lparr>m_mapAC := sm_set name oid (m_mapAC m)\<rparr> in
                 ebind (sc_OnBuiled e (sc_new e name pszProtocol h oid)) (\<lambda>(c, out1).
                 let m1 = new_obj (SockObj c) m0 in
                 case AppendSockChannle2IoSelectGroup oid m1 of
                   Some m2 \<Rightarrow> Inr ((True, m2), map CoMsg out1)
                 | None \<Rightarrow>
                     ebind (delete_obj e oid (m1\<lparr>m_mapAC := sm_erase name (m_mapAC m1)\<rparr>)) (\<lambda>(m2, out2).
                     Inr ((False, m2), map CoMsg out1 @ out2))))
           | _ \<Rightarrow> Inr ((False, m), []))
      | _ \<Rightarrow> Inr ((False, m), []))"

text \<open>\<open>CAoSockTcpChannel::Init\<close>: the items of the parameter that are strings. Its thread has not made
  the socket object yet.\<close>

definition strings_in :: "cjson \<Rightarrow> bytes list" where
  "strings_in j = concat (map (\<lambda>(k, x). case x of JString s \<Rightarrow> [s] | _ \<Rightarrow> []) (children j))"

definition CreateAoSockTcpChannel ::
  "commu_env \<Rightarrow> bytes option \<Rightarrow> bytes \<Rightarrow> cjson option \<Rightarrow> commu_module \<Rightarrow> (bool \<times> commu_module) commu" where
  "CreateAoSockTcpChannel e pszChannelName pszProtocol pPara m =
     ebind (need NullString pszChannelName) (\<lambda>name.
     let oid = cm_next m; c = sc_new e name pszProtocol (- 1) oid in
     case pPara of
       None \<Rightarrow> ebind (delete_obj e oid (new_obj (ClientObj c NoThread []) m)) (\<lambda>(m, out). Inr ((False, m), out))
     | Some j \<Rightarrow> Inr ((True, (new_obj (ClientObj c Starting (strings_in j)) m)\<lparr>m_mapAC := sm_set name oid (m_mapAC m)\<rparr>), []))"

text \<open>
  \<open>CAoTcpServer::Init\<close>. The backlog and the protocol are looked up in the array, whose items have no
  names, not in the entry.
\<close>

fun server_entries :: "cjson \<Rightarrow> cjson list \<Rightarrow> int \<Rightarrow> SERVER_CHANNEL list \<Rightarrow> commu_err + SERVER_CHANNEL list option" where
  "server_entries pJsonPara [] nPort lst = Inr (Some lst)"
| "server_entries pJsonPara (sv # svs) nPort lst =
     (case (string_of (get_object_item sv (str ''Name'')), string_of (get_object_item sv (str ''Address''))) of
        (Some name, Some ad) \<Rightarrow>
          (let tPos = length (takeWhile (\<lambda>c. c \<noteq> 58) ad) in
           if tPos = length ad \<or> tPos + 1 = length ad then Inr None
           else
             ebind (need Overrun (scan_d (drop (tPos + 1) ad))) (\<lambda>r.
             let nPort = (case r of Match v rest \<Rightarrow> v | _ \<Rightarrow> nPort);
                 nNum = (case get_object_item pJsonPara (str ''Num'') of Some (JNumber i q) \<Rightarrow> i | _ \<Rightarrow> 10240);
                 pr = (case string_of (get_object_item pJsonPara (str ''Protocol'')) of
                         Some p \<Rightarrow> p | None \<Rightarrow> str ''AoCommuProtocol'')
             in if length lst + 1 > EN_MAX_SERVER_NUM then Inr None
                else server_entries pJsonPara svs nPort
                  (lst @ [\<lparr>sv_strName = name, sv_strAddr = take tPos ad, sv_strProtocol = pr, sv_nPort = nPort,
                           sv_nNum = nNum, ullIndex = 0\<rparr>])))
      | _ \<Rightarrow> Inr None)"

definition ch_new :: "bytes \<Rightarrow> nat \<Rightarrow> unit ao_channel_scheme" where
  "ch_new pszName addr = \<lparr>ch_name = pszName, m_unTempBufLen = temp_len pszName, m_pucTempBuf = addr, m_pucOffsetBuf = addr\<rparr>"

definition CreateAoTcpServer :: "commu_env \<Rightarrow> bytes option \<Rightarrow> cjson option \<Rightarrow> commu_module \<Rightarrow> (bool \<times> commu_module) commu" where
  "CreateAoTcpServer e pszChannelName pPara m =
     ebind (need NullString pszChannelName) (\<lambda>name.
     ebind (need NullString pPara) (\<lambda>j.
     case j of
       JArray svs \<Rightarrow>
         ebind (server_entries j svs 0 []) (\<lambda>r.
         case r of
           None \<Rightarrow> Inr ((False, m), [])
         | Some lst \<Rightarrow> Inr ((True, (new_obj (ServerObj (ch_new name (cm_next m)) Running lst) m)\<lparr>
                              m_mapAC := sm_set name (cm_next m) (m_mapAC m)\<rparr>), []))
     | _ \<Rightarrow> Inr ((False, m), [])))"

definition CreateChannleByPara :: "commu_env \<Rightarrow> bytes option \<times> cjson \<Rightarrow> commu_module \<Rightarrow> (bool \<times> commu_module) commu" where
  "CreateChannleByPara e = (\<lambda>(name, pPara) m.
     case string_of (get_object_item pPara (str ''Type'')) of
       None \<Rightarrow> Inr ((False, m), [])
     | Some ty \<Rightarrow>
         let pszCommuProtocol = (case string_of (get_object_item pPara (str ''Protocol'')) of
               Some p \<Rightarrow> p | None \<Rightarrow> str ''AoCommuProtocol'');
             para = get_object_item pPara (str ''Para'')
         in if ty = str ''AoSockChannel'' then CreateAoSockChannel e name pszCommuProtocol para m
            else if ty = str ''TcpClientChanel'' then CreateAoSockTcpChannel e name pszCommuProtocol para m
            else if ty = str ''TcpServer'' then CreateAoTcpServer e name para m
            else Inr ((False, m), []))"

fun create_all :: "commu_env \<Rightarrow> (bytes option \<times> cjson) list \<Rightarrow> commu_module \<Rightarrow> commu_module commu" where
  "create_all e [] m = Inr (m, [])"
| "create_all e (k # ks) m =
     ebind (CreateChannleByPara e k m) (\<lambda>((ok, m), out1).
     ebind (create_all e ks m) (\<lambda>(m, out2). Inr (m, out1 @ out2)))"

definition json_at :: "commu_env \<Rightarrow> bytes \<Rightarrow> commu_err + cjson option" where
  "json_at e b = ebind (need BadRead (cstr_at b 0)) (\<lambda>s. need JsonFault (json_of (ce_rnd e) (ce_pow10 e) s))"

section \<open>The handlers\<close>

text \<open>A handler gets the length of the data and the memory from its first byte on.\<close>

definition LoadConfig :: "commu_env \<Rightarrow> nat \<Rightarrow> bytes \<Rightarrow> commu_module \<Rightarrow> commu_module commu" where
  "LoadConfig e unLen pData m =
     ebind (json_at e pData) (\<lambda>r.
     case r of None \<Rightarrow> Inr (m, []) | Some j \<Rightarrow> create_all e (children j) m)"

text \<open>\<open>SendMsg\<close> and \<open>OnFree\<close> of an object. A client channel has no socket object before its thread has
  begun; a server has neither operation.\<close>

definition obj_SendMsg :: "commu_env \<Rightarrow> bytes \<Rightarrow> chan_obj \<Rightarrow> commu_err + chan_obj \<times> bytes \<times> out_msg list" where
  "obj_SendMsg e d ob =
     (case ob of
        SockObj c \<Rightarrow> ebind (sc_SendMsg e d c) (\<lambda>(c, r). Inr (SockObj c, r))
      | ClientObj c t as \<Rightarrow>
          if t = NoThread \<or> t = Starting
          then ebind (sc_OnSendDataFailed e d c) (\<lambda>(c, out). Inr (ClientObj c t as, [], out))
          else ebind (sc_SendMsg e d c) (\<lambda>(c, r). Inr (ClientObj c t as, r))
      | ServerObj c t svs \<Rightarrow> Inr (ob, [], []))"

definition obj_OnFree :: "chan_obj \<Rightarrow> chan_obj" where
  "obj_OnFree ob = (case ob of SockObj c \<Rightarrow> SockObj (sc_OnFree c) | ClientObj c t as \<Rightarrow> ClientObj (sc_OnFree c) t as | _ \<Rightarrow> ob)"

definition obj_sock :: "chan_obj \<Rightarrow> int" where
  "obj_sock ob = (case ob of SockObj c \<Rightarrow> sc_Socket c | ClientObj c t as \<Rightarrow> sc_Socket c | _ \<Rightarrow> - 1)"

definition SendData2Channel :: "commu_env \<Rightarrow> nat \<Rightarrow> bytes \<Rightarrow> commu_module \<Rightarrow> commu_module commu" where
  "SendData2Channel e unLen pData m =
     ebind (need BadRead (cstr_at pData 0)) (\<lambda>pszChannelName.
     let unNameLen = length pszChannelName + 1;
         fail = [CoMsg (EN_MODULE_ID_BROADCAST, EN_AO_MSG_CHANNEL_SEND_DATA_FAIL, take unLen pData)] in
     if unLen < unNameLen then Inr (m, fail)
     else case sm_find (m_mapAC m) pszChannelName of
            None \<Rightarrow> Inr (m, fail)
          | Some oid \<Rightarrow>
              ebind (with_obj m oid) (\<lambda>ob.
              ebind (obj_SendMsg e (drop unNameLen (take unLen pData)) ob) (\<lambda>(ob', w, out).
              Inr (put_obj oid ob' m, CoWire (obj_sock ob) w # map CoMsg out))))"

text \<open>The data's last byte; with no data the index is the largest number.\<close>

definition last_byte :: "nat \<Rightarrow> bytes \<Rightarrow> commu_err + u8" where
  "last_byte unLen pData =
     (if unLen = 0 \<or> length pData < unLen then Inl BadRead else Inr (pData ! (unLen - 1)))"

definition OnNewChannel :: "commu_env \<Rightarrow> nat \<Rightarrow> bytes \<Rightarrow> commu_module \<Rightarrow> commu_module commu" where
  "OnNewChannel e unLen pData m =
     (if unLen < 1 then Inr (m, [])
      else
        ebind (last_byte unLen pData) (\<lambda>z.
        if z \<noteq> 0 then Inr (m, [])
        else
          ebind (need BadRead (cstr_at pData 0)) (\<lambda>pszChannelName.
          let unChannleNameLen = length pszChannelName + 1 in
          if sm_find (m_mapAC m) pszChannelName = None \<or> unChannleNameLen + 1 > unLen then Inr (m, [])
          else
            ebind (json_at e (drop unChannleNameLen pData)) (\<lambda>r.
            case r of None \<Rightarrow> Inr (m, []) | Some j \<Rightarrow> create_all e (children j) m))))"

definition OnDelChannel :: "commu_env \<Rightarrow> nat \<Rightarrow> bytes \<Rightarrow> commu_module \<Rightarrow> commu_module commu" where
  "OnDelChannel e unLen pData m =
     ebind (last_byte unLen pData) (\<lambda>z.
     if z \<noteq> 0 then Inr (m, [])
     else
       ebind (need BadRead (cstr_at pData 0)) (\<lambda>pszChannelName.
       case sm_find (m_mapAC m) pszChannelName of
         None \<Rightarrow> Inr (m, [])
       | Some oid \<Rightarrow>
           ebind (delete_obj e oid m) (\<lambda>(m, out).
           Inr (m\<lparr>m_mapAC := sm_erase pszChannelName (m_mapAC m)\<rparr>, out))))"

definition OnFreeChannel :: "commu_env \<Rightarrow> nat \<Rightarrow> bytes \<Rightarrow> commu_module \<Rightarrow> commu_module commu" where
  "OnFreeChannel e unLen pData m =
     ebind (last_byte unLen pData) (\<lambda>z.
     if z \<noteq> 0 then Inr (m, [])
     else
       ebind (need BadRead (cstr_at pData 0)) (\<lambda>pszChannelName.
       case sm_find (m_mapAC m) pszChannelName of
         None \<Rightarrow> Inr (m, [])
       | Some oid \<Rightarrow> ebind (with_obj m oid) (\<lambda>ob. Inr (put_obj oid (obj_OnFree ob) m, []))))"

text \<open>\<open>OnStop\<close> after the base class's: every channel of the table in turn.\<close>

fun stop_all :: "nat list \<Rightarrow> commu_module \<Rightarrow> commu_module commu" where
  "stop_all [] m = Inr (m, [])"
| "stop_all (oid # oids) m =
     ebind (with_obj m oid) (\<lambda>ob. ebind (stop_obj ob) (\<lambda>ob'. stop_all oids (put_obj oid ob' m)))"

definition commu_OnStop :: "commu_module \<Rightarrow> commu_module commu" where
  "commu_OnStop m = stop_all (map snd (m_mapAC m)) m"

text \<open>The message map; other codes are the base class's.\<close>

definition commu_handle :: "commu_env \<Rightarrow> u32 \<Rightarrow> nat \<Rightarrow> bytes \<Rightarrow> commu_module \<Rightarrow> commu_module commu" where
  "commu_handle e code unLen pData m =
     (if code = EN_AO_MSG_LOAD_CFG then LoadConfig e unLen pData m
      else if code = EN_AO_MSG_CHANNEL_SEND_DATA then SendData2Channel e unLen pData m
      else if code = EN_AO_MSG_EXIT then commu_OnStop m
      else if code = EN_AO_MSG_CHANNEL_NEW then OnNewChannel e unLen pData m
      else if code = EN_AO_MSG_CHANNEL_DEL then OnDelChannel e unLen pData m
      else if code = EN_AO_MSG_CHANNEL_FREE then OnFreeChannel e unLen pData m
      else Inr (m, []))"

section \<open>The groups\<close>

text \<open>
  A pass of \<open>Run\<close> over a group under its lock: \<open>f\<close> says whether the channel goes. The first pass
  drops the channels whose socket is closed, the second also those whose read ends the connection.
\<close>

fun group_pass ::
  "commu_env \<Rightarrow> (nat \<Rightarrow> sock_channel \<Rightarrow> commu_err + bool \<times> sock_channel \<times> out_msg list) \<Rightarrow> nat list \<Rightarrow>
     commu_module \<Rightarrow> (nat list \<times> commu_module) commu" where
  "group_pass e f [] m = Inr (([], m), [])"
| "group_pass e f (oid # oids) m =
     ebind (with_obj m oid) (\<lambda>ob.
     case ob of
       SockObj c \<Rightarrow>
         ebind (f oid c) (\<lambda>(gone, c, out1).
         ebind (if gone then sc_OnDel e c else Inr (c, [])) (\<lambda>(c, out2).
         ebind (group_pass e f oids (put_obj oid (SockObj c) m)) (\<lambda>((keep, m), out3).
         Inr ((if gone then keep else oid # keep, m), map CoMsg (out1 @ out2) @ out3))))
     | _ \<Rightarrow> Inl DeadObject)"

definition first_pass :: "nat \<Rightarrow> sock_channel \<Rightarrow> commu_err + bool \<times> sock_channel \<times> out_msg list" where
  "first_pass oid c = Inr (sc_Socket c = - 1, c, [])"

text \<open>\<open>ready\<close> is what \<open>select\<close> answers, \<open>recv\<close> what the reads do.\<close>

definition second_pass ::
  "commu_env \<Rightarrow> (int \<Rightarrow> bool) \<Rightarrow> (nat \<Rightarrow> int \<times> bytes) \<Rightarrow> nat \<Rightarrow> sock_channel \<Rightarrow> commu_err + bool \<times> sock_channel \<times> out_msg list" where
  "second_pass e ready recv oid c =
     (if sc_Socket c = - 1 then Inr (True, c, [])
      else if ready (sc_Socket c) then ebind (sc_ReadData e (recv oid) c) (\<lambda>(n, c, out). Inr (n < 1, c, out))
      else Inr (False, c, []))"

definition run_pass ::
  "commu_env \<Rightarrow> (nat \<Rightarrow> sock_channel \<Rightarrow> commu_err + bool \<times> sock_channel \<times> out_msg list) \<Rightarrow> nat \<Rightarrow>
     commu_module \<Rightarrow> commu_module commu" where
  "run_pass e f g m =
     (if g < length (m_pAISG m) then
        ebind (group_pass e f (m_pAISG m ! g) m) (\<lambda>((keep, m), out). Inr (m\<lparr>m_pAISG := (m_pAISG m)[g := keep]\<rparr>, out))
      else Inr (m, []))"

section \<open>Steps\<close>

text \<open>
  The module's thread handles one message at a time, the groups' threads pass over their lists, and
  the threads of client channels begin. \<open>CHANNEL_DEL\<close> messages wait in the module's queue in the order
  they were sent, mixed with others in any way.
\<close>

datatype commu_event =
    EvMsg u32 nat bytes
  | EvDel
  | EvFirst nat
  | EvSecond nat "int \<Rightarrow> bool" "nat \<Rightarrow> int \<times> bytes"
  | EvBegin nat

definition dels :: "commu_out list \<Rightarrow> bytes list" where
  "dels out = concat (map (\<lambda>x. case x of
     CoMsg (t, code, d) \<Rightarrow> if t = EN_MODULE_ID_COMMU \<and> code = EN_AO_MSG_CHANNEL_DEL then [d] else [] | _ \<Rightarrow> []) out)"

type_synonym commu_state = "commu_module \<times> bytes list"

definition client_begin :: "nat \<Rightarrow> commu_module \<Rightarrow> commu_module commu" where
  "client_begin oid m =
     (case cm_objs m oid of
        Some (ClientObj c Starting as) \<Rightarrow> Inr (put_obj oid (ClientObj c Running as) m, [])
      | _ \<Rightarrow> Inr (m, []))"

definition commu_step :: "commu_env \<Rightarrow> commu_event \<Rightarrow> commu_state \<Rightarrow> commu_state commu" where
  "commu_step e ev = (\<lambda>(m, pend).
     let post = (\<lambda>pend (m, out). Inr ((m, pend @ dels out), out)) in
     case ev of
       EvMsg code n b \<Rightarrow> ebind (commu_handle e code n b m) (post pend)
     | EvDel \<Rightarrow>
         (case pend of
            [] \<Rightarrow> Inr ((m, []), [])
          | d # ds \<Rightarrow> ebind (commu_handle e EN_AO_MSG_CHANNEL_DEL (length d) d m) (post ds))
     | EvFirst g \<Rightarrow> ebind (run_pass e first_pass g m) (post pend)
     | EvSecond g ready recv \<Rightarrow> ebind (run_pass e (second_pass e ready recv) g m) (post pend)
     | EvBegin oid \<Rightarrow> ebind (client_begin oid m) (post pend))"

section \<open>No channel is used after its deletion\<close>

text \<open>\<open>safe P x\<close>: \<open>x\<close> is no use of a deleted object, and its result, if it has one, satisfies \<open>P\<close>.\<close>

definition safe :: "('a \<Rightarrow> bool) \<Rightarrow> commu_err + 'a \<Rightarrow> bool" where
  "safe P x \<longleftrightarrow> (case x of Inl err \<Rightarrow> err \<noteq> DeadObject | Inr a \<Rightarrow> P a)"

lemma safe_simps [simp]: "safe P (Inl err) \<longleftrightarrow> err \<noteq> DeadObject" "safe P (Inr a) \<longleftrightarrow> P a"
  by (simp_all add: safe_def)

lemma safe_ebind: "safe Q x \<Longrightarrow> (\<And>a. Q a \<Longrightarrow> safe P (f a)) \<Longrightarrow> safe P (ebind x f)"
  by (cases x) simp_all

lemma safe_mono: "safe Q x \<Longrightarrow> (\<And>a. Q a \<Longrightarrow> P a) \<Longrightarrow> safe P x"
  by (cases x) simp_all

lemma safe_need: "err \<noteq> DeadObject \<Longrightarrow> safe (\<lambda>a. x = Some a) (need err x)"
  by (cases x) simp_all

lemma safe_ebind_need: "err \<noteq> DeadObject \<Longrightarrow> (\<And>a. x = Some a \<Longrightarrow> safe P (f a)) \<Longrightarrow> safe P (ebind (need err x) f)"
  by (cases x) simp_all

lemma dels_simps [simp]:
  "dels [] = []" "dels (xs @ ys) = dels xs @ dels ys" "dels (CoWire h w # xs) = dels xs"
  "dels (CoMsg (t, code, d) # xs) =
     (if t = EN_MODULE_ID_COMMU \<and> code = EN_AO_MSG_CHANNEL_DEL then d # dels xs else dels xs)"
  by (simp_all add: dels_def)

lemmas commu_codes = EN_AO_MSG_LOAD_CFG_def EN_AO_MSG_CHANNEL_NEW_def EN_AO_MSG_CHANNEL_DEL_def
  EN_AO_MSG_CHANNEL_FREE_def EN_AO_MSG_CHANNEL_SEND_DATA_def EN_AO_MSG_EXIT_def
  EN_MODULE_ID_COMMU_def EN_MODULE_ID_BROADCAST_def

text \<open>What every operation of a channel keeps: its name; and it asks for no deletion.\<close>

definition kept :: "sock_channel \<Rightarrow> sock_channel \<times> out_msg list \<Rightarrow> bool" where
  "kept c = (\<lambda>(c', out). ch_name c' = ch_name c \<and> dels (map CoMsg out) = [])"

lemma safe_SendOutMsg:
  "safe (\<lambda>(c', out). ch_name c' = ch_name c \<and> out = [(r, code, cstr (ch_name c) @ d)]) (ch_SendOutMsg mv r code d c)"
  by (simp add: ch_SendOutMsg_def Let_def)

lemma safe_broadcast: "safe (kept c) (ch_SendOutMsg mv EN_MODULE_ID_BROADCAST code d c)"
  by (rule safe_mono [OF safe_SendOutMsg]) (auto simp: kept_def commu_codes)

lemma safe_hand_on: "safe (kept c) (sc_hand_on e ds c)"
proof (induction ds arbitrary: c)
  case (Cons d ds)
  show ?case
    by (simp, rule safe_ebind [OF safe_broadcast], clarsimp, rule safe_ebind [OF Cons.IH])
      (auto simp: kept_def)
qed (simp add: kept_def)

lemma safe_ReadData: "safe (\<lambda>(n, r). kept c r) (sc_ReadData e rv c)"
  unfolding sc_ReadData_def
  by (rule safe_ebind_need, simp, clarsimp, rule safe_ebind [OF safe_hand_on]) (auto simp: kept_def)

lemma safe_SendMsg: "safe (\<lambda>(c', w, out). kept c (c', out)) (sc_SendMsg e d c)"
  unfolding sc_SendMsg_def sc_OnSendDataFailed_def
  by (rule safe_ebind_need, simp)
    (auto simp: kept_def intro!: safe_ebind [OF safe_broadcast])

lemma safe_announce:
  "safe (kept c) (sc_OnBuiled e c)" "safe (kept c) (sc_OnFreed e c)" "safe (kept c) (sc_OnSendDataFailed e d c)"
  by (simp_all add: sc_OnBuiled_def sc_OnFreed_def sc_OnSendDataFailed_def Let_def safe_broadcast)

lemma safe_OnDel:
  "safe (\<lambda>(c', out). ch_name c' = ch_name c \<and> dels (map CoMsg out) = [cstr (ch_name c) @ ce_vptr e]) (sc_OnDel e c)"
  unfolding sc_OnDel_def by (rule safe_mono [OF safe_SendOutMsg]) auto

section \<open>The invariant\<close>

text \<open>
  What the invariant sees of the store: which addresses hold objects, of what kind and name.
  Tracked channels, those in a group and those whose deletion is waiting, are found in the table under
  their own names.
\<close>

definition shape :: "chan_obj \<Rightarrow> bool \<times> bytes" where
  "shape ob = (case ob of SockObj c \<Rightarrow> True | _ \<Rightarrow> False, obj_name ob)"

definition objs_at :: "commu_module \<Rightarrow> nat \<Rightarrow> (bool \<times> bytes) option" where
  "objs_at m oid = map_option shape (cm_objs m oid)"

definition table_ok :: "commu_module \<Rightarrow> bool" where
  "table_ok m \<longleftrightarrow> (\<forall>n oid. (n, oid) \<in> set (m_mapAC m) \<longrightarrow> (\<exists>k. objs_at m oid = Some (k, n))) \<and>
     (\<forall>oid\<ge>cm_next m. objs_at m oid = None)"

definition tracked :: "commu_module \<Rightarrow> nat list \<Rightarrow> bool" where
  "tracked m ids \<longleftrightarrow> distinct ids \<and>
     (\<forall>oid\<in>set ids. \<exists>n. objs_at m oid = Some (True, n) \<and> sm_find (m_mapAC m) n = Some oid \<and> nul_free n)"

definition waiting :: "commu_module \<Rightarrow> bytes list \<Rightarrow> nat list \<Rightarrow> bool" where
  "waiting m = list_all2 (\<lambda>d oid. \<exists>n t. objs_at m oid = Some (True, n) \<and> d = cstr n @ t)"

definition commu_inv :: "commu_state \<Rightarrow> bool" where
  "commu_inv = (\<lambda>(m, pend). table_ok m \<and> (\<exists>ps. tracked m (concat (m_pAISG m) @ ps) \<and> waiting m pend ps))"

definition same_view :: "commu_module \<Rightarrow> commu_module \<Rightarrow> bool" where
  "same_view m m' \<longleftrightarrow> objs_at m' = objs_at m \<and> cm_next m' = cm_next m \<and> m_mapAC m' = m_mapAC m \<and> m_pAISG m' = m_pAISG m"

lemma same_view_refl [simp]: "same_view m m"
  by (simp add: same_view_def)

lemma same_view_trans: "same_view m m1 \<Longrightarrow> same_view m1 m2 \<Longrightarrow> same_view m m2"
  by (simp add: same_view_def)

lemma same_view_inv: "same_view m m' \<Longrightarrow> commu_inv (m', pend) \<longleftrightarrow> commu_inv (m, pend)"
  by (simp add: commu_inv_def same_view_def table_ok_def tracked_def waiting_def)

lemma put_obj_view: "objs_at m oid = Some (shape ob) \<Longrightarrow> same_view m (put_obj oid ob m)"
  by (auto simp: same_view_def objs_at_def put_obj_def)

lemma objs_at_Some: "objs_at m oid = Some s \<longleftrightarrow> (\<exists>ob. cm_objs m oid = Some ob \<and> shape ob = s)"
  by (auto simp: objs_at_def)

lemma shape_True: "shape ob = (True, n) \<longleftrightarrow> (\<exists>c. ob = SockObj c \<and> ch_name c = n)"
  by (cases ob) (simp_all add: shape_def obj_name_def)

lemma shape_simps [simp]:
  "shape (SockObj c) = (True, ch_name c)" "shape (ClientObj c t as) = (False, ch_name c)"
  "shape (ServerObj c0 t svs) = (False, ch_name c0)"
  by (simp_all add: shape_def obj_name_def)

lemma table_found:
  assumes "table_ok m" "sm_find (m_mapAC m) n = Some oid"
  obtains k ob where "cm_objs m oid = Some ob" "shape ob = (k, n)"
  using assms map_of_SomeD [of "m_mapAC m" n oid] unfolding table_ok_def sm_find_def objs_at_Some by blast

section \<open>Operations on objects\<close>

lemma stop_obj_shape: "safe (\<lambda>ob'. shape ob' = shape ob) (stop_obj ob)"
  by (auto simp: stop_obj_def sc_OnFree_def split: chan_obj.splits run_state.splits)

lemma obj_SendMsg_safe:
  "safe (\<lambda>(ob', w, out). shape ob' = shape ob \<and> dels (map CoMsg out) = []) (obj_SendMsg e d ob)"
proof (cases ob)
  case (SockObj c)
  then show ?thesis by (auto simp: obj_SendMsg_def kept_def intro!: safe_ebind [OF safe_SendMsg])
next
  case (ClientObj c t as)
  then show ?thesis
    by (auto simp: obj_SendMsg_def kept_def intro!: safe_ebind [OF safe_SendMsg] safe_ebind [OF safe_announce(3)])
qed (simp add: obj_SendMsg_def)

lemma obj_OnFree_shape: "shape (obj_OnFree ob) = shape ob"
  by (cases ob) (simp_all add: obj_OnFree_def sc_OnFree_def)

lemma delete_obj_safe:
  assumes "objs_at m oid \<noteq> None"
  shows "safe (\<lambda>(m', out). m' = m\<lparr>cm_objs := (cm_objs m)(oid := None)\<rparr> \<and> dels out = []) (delete_obj e oid m)"
proof -
  obtain ob where ob: "cm_objs m oid = Some ob" using assms by (auto simp: objs_at_def)
  show ?thesis
    by (cases ob)
      (auto simp: delete_obj_def with_obj_def ob kept_def intro!: safe_ebind [OF safe_announce(2)] safe_ebind [OF stop_obj_shape])
qed

section \<open>Handlers\<close>

lemma SendData_safe:
  assumes "table_ok m"
  shows "safe (\<lambda>(m', out). same_view m m' \<and> dels out = []) (SendData2Channel e n b m)"
  unfolding SendData2Channel_def Let_def
  by (rule safe_ebind_need, simp)
    (auto simp: commu_codes with_obj_def objs_at_def
      elim!: table_found [OF assms] intro!: safe_ebind [OF obj_SendMsg_safe] put_obj_view split: option.split)

lemma last_byte_safe: "safe (\<lambda>_. True) (last_byte n b)"
  by (simp add: last_byte_def)

lemma OnFree_safe:
  assumes "table_ok m"
  shows "safe (\<lambda>(m', out). same_view m m' \<and> dels out = []) (OnFreeChannel e n b m)"
  unfolding OnFreeChannel_def
proof (rule safe_ebind [OF last_byte_safe])
  fix z
  have "safe (\<lambda>(m', out). same_view m m' \<and> dels out = [])
      (case sm_find (m_mapAC m) ch of None \<Rightarrow> Inr (m, [])
       | Some oid \<Rightarrow> ebind (with_obj m oid) (\<lambda>ob. Inr (put_obj oid (obj_OnFree ob) m, [])))" for ch
    by (auto simp: with_obj_def objs_at_def obj_OnFree_shape elim!: table_found [OF assms]
        intro!: put_obj_view split: option.split)
  then show "safe (\<lambda>(m', out). same_view m m' \<and> dels out = [])
      (if z \<noteq> 0 then Inr (m, [])
       else ebind (need BadRead (cstr_at b 0)) (\<lambda>ch. case sm_find (m_mapAC m) ch of None \<Rightarrow> Inr (m, [])
         | Some oid \<Rightarrow> ebind (with_obj m oid) (\<lambda>ob. Inr (put_obj oid (obj_OnFree ob) m, []))))"
    by (cases "cstr_at b 0") simp_all
qed

lemma stop_all_safe:
  "\<forall>oid\<in>set oids. objs_at m oid \<noteq> None \<Longrightarrow> safe (\<lambda>(m', out). same_view m m' \<and> dels out = []) (stop_all oids m)"
proof (induction oids arbitrary: m)
  case (Cons oid oids)
  then obtain ob where ob: "cm_objs m oid = Some ob" by (auto simp: objs_at_def)
  have "safe (\<lambda>(m', out). same_view m m' \<and> dels out = []) (stop_all oids (put_obj oid ob' m))"
    if "shape ob' = shape ob" for ob'
  proof -
    have v: "same_view m (put_obj oid ob' m)" by (rule put_obj_view) (simp add: objs_at_def ob that)
    then have eq: "objs_at (put_obj oid ob' m) = objs_at m" by (simp add: same_view_def)
    show ?thesis
      by (rule safe_mono [OF Cons.IH]) (use Cons.prems v in \<open>auto simp: eq dest: same_view_trans\<close>)
  qed
  then show ?case by (auto simp: with_obj_def ob intro!: safe_ebind [OF stop_obj_shape])
qed simp

lemma OnStop_safe: "table_ok m \<Longrightarrow> safe (\<lambda>(m', out). same_view m m' \<and> dels out = []) (commu_OnStop m)"
  unfolding commu_OnStop_def by (rule stop_all_safe) (force simp: table_ok_def)

lemma tracked_mono:
  assumes "tracked m ids" and "set ids' \<subseteq> set ids" and "distinct ids'"
    and "\<And>oid. oid \<in> set ids' \<Longrightarrow> objs_at m' oid = objs_at m oid"
    and "\<And>n oid. oid \<in> set ids' \<Longrightarrow> sm_find (m_mapAC m) n = Some oid \<Longrightarrow> sm_find (m_mapAC m') n = Some oid"
  shows "tracked m' ids'"
  using assms unfolding tracked_def by (metis subsetD)

text \<open>The deletion of the first tracked channel that is waiting for it.\<close>

lemma OnDel_safe:
  assumes inv: "commu_inv (m, d # ds)"
  shows "safe (\<lambda>(m', out). commu_inv (m', ds) \<and> dels out = []) (OnDelChannel e (length d) d m)"
proof -
  from inv obtain p ps where t: "table_ok m" "tracked m (concat (m_pAISG m) @ p # ps)" and w: "waiting m (d # ds) (p # ps)"
    by (auto simp: commu_inv_def waiting_def list_all2_Cons1)
  from w t(2) obtain n tl where p: "objs_at m p = Some (True, n)" "d = cstr n @ tl" "sm_find (m_mapAC m) n = Some p" "nul_free n"
    by (auto simp: waiting_def tracked_def)
  have stay: "commu_inv (m, ds)"
    using t w by (auto simp: commu_inv_def tracked_def waiting_def intro!: exI [of _ ps])
  let ?m = "m\<lparr>cm_objs := (cm_objs m)(p := None), m_mapAC := sm_erase n (m_mapAC m)\<rparr>"
  have o: "objs_at ?m = (objs_at m)(p := None)" by (auto simp: objs_at_def)
  have "table_ok ?m"
    using t(1) p(1) unfolding table_ok_def o
    by (auto simp: sm_erase_def) (metis option.inject prod.inject)
  moreover have "tracked ?m (concat (m_pAISG m) @ ps)"
    by (rule tracked_mono [OF t(2)]) (use t(2) p(3) in \<open>auto simp: tracked_def o sm_find_erase\<close>)
  moreover have "waiting ?m ds ps"
    using w t(2) unfolding waiting_def o tracked_def by (auto elim!: list.rel_mono_strong)
  ultimately have gone: "commu_inv (?m, ds)" by (auto simp: commu_inv_def)
  have del: "safe (\<lambda>(m', out). m' = m\<lparr>cm_objs := (cm_objs m)(p := None)\<rparr> \<and> dels out = []) (delete_obj e p m)"
    by (rule delete_obj_safe) (simp add: p(1))
  have c: "cstr_at d 0 = Some n" using cstr_at_app0 [OF p(4)] p(2) by (simp add: cstr_def)
  have "d \<noteq> []" by (simp add: p(2) cstr_def)
  then show ?thesis
    unfolding OnDelChannel_def c
    by (intro safe_ebind [OF last_byte_safe]) (auto simp: stay p(3) gone intro!: safe_ebind [OF del])
qed

section \<open>Creation\<close>

definition child_names :: "(bytes option \<times> cjson) list \<Rightarrow> bytes list" where
  "child_names ks = concat (map (\<lambda>k. case fst k of None \<Rightarrow> [] | Some n \<Rightarrow> [n]) ks)"

definition fresh_for :: "commu_module \<Rightarrow> bytes list \<Rightarrow> bool" where
  "fresh_for m ns \<longleftrightarrow> distinct ns \<and> (\<forall>n\<in>set ns. nul_free n \<and> n \<notin> fst ` set (m_mapAC m))"

lemma place_mset: "place left gs oid = Some gs' \<Longrightarrow> mset (concat gs') = add_mset oid (mset (concat gs))"
  by (induction left gs oid arbitrary: gs' rule: place.induct) (auto split: if_splits)

text \<open>A new object under a new name.\<close>

lemma set_sm_set: "k \<notin> fst ` set m \<Longrightarrow> set (sm_set k v m) = insert (k, v) (set m)"
  by (induction k v m rule: sm_set.induct) auto

lemma tracked_mset: "mset ids = mset ids' \<Longrightarrow> tracked m ids \<longleftrightarrow> tracked m ids'"
  using mset_eq_imp_distinct_iff mset_eq_setD unfolding tracked_def by metis

definition with_new :: "bytes \<Rightarrow> chan_obj \<Rightarrow> commu_module \<Rightarrow> commu_module" where
  "with_new n ob m = (new_obj ob m)\<lparr>m_mapAC := sm_set n (cm_next m) (m_mapAC m)\<rparr>"

lemma with_new_inv:
  assumes inv: "table_ok m" "tracked m ids" "waiting m pend ps" and n: "n \<notin> fst ` set (m_mapAC m)" and ob: "obj_name ob = n"
  shows "table_ok (with_new n ob m)" "tracked (with_new n ob m) ids" "waiting (with_new n ob m) pend ps"
    "shape ob = (True, n) \<Longrightarrow> nul_free n \<Longrightarrow> tracked (with_new n ob m) (cm_next m # ids)"
proof -
  let ?m = "with_new n ob m"
  have o: "objs_at ?m = (objs_at m)(cm_next m := Some (shape ob))"
    by (auto simp: objs_at_def with_new_def new_obj_def)
  have f: "objs_at m (cm_next m) = None" using inv(1) by (simp add: table_ok_def)
  have mp: "m_mapAC ?m = sm_set n (cm_next m) (m_mapAC m)" "cm_next ?m = cm_next m + 1"
    by (simp_all add: with_new_def new_obj_def)
  have sn: "snd (shape ob) = n" by (simp add: shape_def ob)
  show "table_ok ?m"
    using inv(1) f sn unfolding table_ok_def o mp set_sm_set [OF n] by (auto simp: prod_eq_iff) (metis option.distinct(1) order_refl)
  have look: "sm_find (m_mapAC m) n = None" using n by (simp add: sm_find_def map_of_eq_None_iff)
  have nx: "cm_next m \<notin> set ids" using inv(2) f by (auto simp: tracked_def)
  show t: "tracked ?m ids"
    by (rule tracked_mono [OF inv(2)]) (use inv(2) look nx in \<open>auto simp: tracked_def o mp sm_find_set\<close>)
  show "waiting ?m pend ps"
    using inv(3) f unfolding waiting_def o by (auto elim!: list_all2_mono)
  show "tracked ?m (cm_next m # ids)" if "shape ob = (True, n)" "nul_free n"
    using t nx that unfolding tracked_def o mp by (auto simp: sm_find_set)
qed

definition created :: "commu_module \<Rightarrow> bytes list \<Rightarrow> bytes list \<Rightarrow> commu_module \<Rightarrow> commu_out list \<Rightarrow> bool" where
  "created m pend ns m' out \<longleftrightarrow> commu_inv (m', pend) \<and> dels out = [] \<and>
     fst ` set (m_mapAC m') \<subseteq> set ns \<union> fst ` set (m_mapAC m)"

lemma created_none: "commu_inv (m, pend) \<Longrightarrow> created m pend ns m []"
  by (simp add: created_def)

lemma fst_sm_erase: "fst ` set (sm_erase n m) = fst ` set m - {n}"
  by (auto simp: sm_erase_def)

lemma with_new_created:
  assumes "commu_inv (m, pend)" and "n \<notin> fst ` set (m_mapAC m)" and "obj_name ob = n" and "dels out = []"
  shows "created m pend [n] (with_new n ob m) out"
proof -
  from assms(1) obtain ps where t: "table_ok m" "tracked m (concat (m_pAISG m) @ ps)" "waiting m pend ps"
    by (auto simp: commu_inv_def)
  have "m_pAISG (with_new n ob m) = m_pAISG m" "m_mapAC (with_new n ob m) = sm_set n (cm_next m) (m_mapAC m)"
    by (simp_all add: with_new_def new_obj_def)
  with with_new_inv(1-3) [OF t assms(2,3)] assms(4) show ?thesis
    by (auto simp: created_def commu_inv_def fst_sm_set)
qed

text \<open>A new object that is deleted again.\<close>

lemma unmade_created:
  assumes inv: "commu_inv (m, pend)" and out: "dels out = []"
    and m': "cm_objs m' = (cm_objs m)(cm_next m := None)" "cm_next m' = cm_next m + 1" "m_pAISG m' = m_pAISG m"
      "set (m_mapAC m') = set (m_mapAC m)" "\<And>n. sm_find (m_mapAC m') n = sm_find (m_mapAC m) n"
  shows "created m pend ns m' out"
proof -
  from inv obtain ps where t: "table_ok m" "tracked m (concat (m_pAISG m) @ ps)" "waiting m pend ps"
    by (auto simp: commu_inv_def)
  have o: "objs_at m' = objs_at m" using t(1) by (auto simp: objs_at_def m' table_ok_def)
  have "table_ok m'" using t(1) by (auto simp: table_ok_def o m')
  then show ?thesis
    using t(2,3) out by (auto simp: created_def commu_inv_def o m' tracked_def waiting_def)
qed

lemma sm_erase_set:
  assumes "n \<notin> fst ` set m"
  shows "set (sm_erase n (sm_set n v m)) = set m" "sm_find (sm_erase n (sm_set n v m)) k = sm_find m k"
proof -
  show "set (sm_erase n (sm_set n v m)) = set m" using assms by (auto simp: sm_erase_def set_sm_set)
  have "sm_find m n = None" using assms by (simp add: sm_find_def map_of_eq_None_iff)
  then show "sm_find (sm_erase n (sm_set n v m)) k = sm_find m k" by (simp add: sm_find_erase sm_find_set)
qed

lemma CreateAoSockChannel_safe:
  assumes inv: "commu_inv (m, pend)" and n: "n \<notin> fst ` set (m_mapAC m)" "nul_free n"
  shows "safe (\<lambda>((ok, m'), out). created m pend [n] m' out) (CreateAoSockChannel e (Some n) pr para m)"
proof -
  have post: "safe (\<lambda>((ok, m'), out). created m pend [n] m' out)
       (let m1 = new_obj (SockObj c) (m\<lparr>m_mapAC := sm_set n (cm_next m) (m_mapAC m)\<rparr>) in case AppendSockChannle2IoSelectGroup (cm_next m) m1 of
          None \<Rightarrow> ebind (delete_obj e (cm_next m) (m1\<lparr>m_mapAC := sm_erase n (m_mapAC m1)\<rparr>)) (\<lambda>(m2, out2).
            Inr ((False, m2), map CoMsg out1 @ out2))
        | Some m2 \<Rightarrow> Inr ((True, m2), map CoMsg out1))"
    if c: "ch_name c = n" "dels (map CoMsg out1) = []" for c :: sock_channel and out1
  proof -
    let ?m1 = "new_obj (SockObj c) (m\<lparr>m_mapAC := sm_set n (cm_next m) (m_mapAC m)\<rparr>)"
    let ?m0 = "?m1\<lparr>m_mapAC := sm_erase n (m_mapAC ?m1)\<rparr>"
    have m1: "?m1 = with_new n (SockObj c) m" by (simp add: with_new_def new_obj_def)
    show ?thesis
    proof (cases "AppendSockChannle2IoSelectGroup (cm_next m) ?m1")
      case None
      have ex: "objs_at ?m0 (cm_next m) \<noteq> None" by (simp add: objs_at_def new_obj_def)
      have "created m pend [n] (?m0\<lparr>cm_objs := (cm_objs ?m0)(cm_next m := None)\<rparr>) (map CoMsg out1 @ out2)"
        if "dels out2 = []" for out2
        by (rule unmade_created [OF inv]) (use that c n(1) in \<open>simp_all add: new_obj_def sm_erase_set fun_eq_iff\<close>)
      then show ?thesis unfolding Let_def None by (auto intro!: safe_ebind [OF delete_obj_safe [OF ex]])
    next
      case (Some m2)
      then obtain gs where gs: "place EN_MAX_IO_SELECT_GROUP_COUNT (m_pAISG m) (cm_next m) = Some gs"
        "m2 = ?m1\<lparr>m_pAISG := gs\<rparr>"
        by (auto simp: AppendSockChannle2IoSelectGroup_def new_obj_def)
      from inv obtain ps where t: "table_ok m" "tracked m (concat (m_pAISG m) @ ps)" "waiting m pend ps"
        by (auto simp: commu_inv_def)
      note new = with_new_inv [OF t n(1), of "SockObj c"]
      have "mset (concat gs @ ps) = mset (cm_next m # (concat (m_pAISG m) @ ps))"
        using place_mset [OF gs(1)] by simp
      then have "tracked ?m1 (concat gs @ ps)"
        unfolding m1 using new(4) c(1) n(2) by (subst tracked_mset) (auto simp: obj_name_def)
      with new(1,3) c(1) have "commu_inv (m2, pend)"
        unfolding gs(2) m1 by (auto simp: commu_inv_def table_ok_def tracked_def waiting_def objs_at_def obj_name_def)
      then show ?thesis unfolding Let_def Some using c(2) by (simp add: created_def gs(2) new_obj_def fst_sm_set)
    qed
  qed
  have *: "safe (\<lambda>((ok, m'), out). created m pend [n] m' out)
     (ebind (sc_OnBuiled e (sc_new e n pr h (cm_next m))) (\<lambda>(c, out1).
        let m1 = new_obj (SockObj c) (m\<lparr>m_mapAC := sm_set n (cm_next m) (m_mapAC m)\<rparr>) in
        case AppendSockChannle2IoSelectGroup (cm_next m) m1 of
          Some m2 \<Rightarrow> Inr ((True, m2), map CoMsg out1)
        | None \<Rightarrow> ebind (delete_obj e (cm_next m) (m1\<lparr>m_mapAC := sm_erase n (m_mapAC m1)\<rparr>)) (\<lambda>(m2, out2).
            Inr ((False, m2), map CoMsg out1 @ out2))))" for h
    by (rule safe_ebind [OF safe_announce(1)], split prod.split, intro allI impI, rule post)
      (simp_all add: kept_def sc_new_def)
  show ?thesis
    unfolding CreateAoSockChannel_def
    using * created_none [OF inv] by (auto simp: Let_def split: option.split cjson.split)
qed

lemma CreateAoSockTcpChannel_safe:
  assumes inv: "commu_inv (m, pend)" and n: "n \<notin> fst ` set (m_mapAC m)"
  shows "safe (\<lambda>((ok, m'), out). created m pend [n] m' out) (CreateAoSockTcpChannel e (Some n) pr para m)"
proof (cases para)
  case None
  let ?m1 = "new_obj (ClientObj (sc_new e n pr (- 1) (cm_next m)) NoThread []) m"
  have ex: "objs_at ?m1 (cm_next m) \<noteq> None" by (simp add: objs_at_def new_obj_def)
  have "created m pend [n] (?m1\<lparr>cm_objs := (cm_objs ?m1)(cm_next m := None)\<rparr>) out" if "dels out = []" for out
    by (rule unmade_created [OF inv that]) (simp_all add: new_obj_def)
  then show ?thesis
    unfolding CreateAoSockTcpChannel_def None by (auto simp: Let_def intro!: safe_ebind [OF delete_obj_safe [OF ex]])
next
  case (Some j)
  have "created m pend [n] (with_new n (ClientObj (sc_new e n pr (- 1) (cm_next m)) Starting (strings_in j)) m) []"
    by (rule with_new_created [OF inv n]) (simp_all add: obj_name_def sc_new_def)
  then show ?thesis by (simp add: CreateAoSockTcpChannel_def Some Let_def with_new_def new_obj_def)
qed

lemma server_entries_safe: "safe (\<lambda>_. True) (server_entries pj svs nPort lst)"
  by (induction svs arbitrary: nPort lst)
    (auto simp: Let_def intro!: safe_ebind_need split: option.split)

lemma CreateAoTcpServer_safe:
  assumes inv: "commu_inv (m, pend)" and n: "n \<notin> fst ` set (m_mapAC m)"
  shows "safe (\<lambda>((ok, m'), out). created m pend [n] m' out) (CreateAoTcpServer e (Some n) para m)"
proof -
  have "created m pend [n] (with_new n (ServerObj (ch_new n (cm_next m)) Running lst) m) []" for lst
    by (rule with_new_created [OF inv n]) (simp_all add: obj_name_def ch_new_def)
  then show ?thesis
    unfolding CreateAoTcpServer_def
    by (auto simp: with_new_def new_obj_def created_none [OF inv]
        intro!: safe_ebind_need safe_ebind [OF server_entries_safe] split: cjson.split option.split)
qed

lemma CreateChannleByPara_safe:
  assumes inv: "commu_inv (m, pend)" and n: "fresh_for m (child_names [(name, pPara)])"
  shows "safe (\<lambda>((ok, m'), out). created m pend (child_names [(name, pPara)]) m' out) (CreateChannleByPara e (name, pPara) m)"
proof (cases name)
  case None
  then show ?thesis
    by (auto simp: CreateChannleByPara_def CreateAoSockChannel_def CreateAoSockTcpChannel_def CreateAoTcpServer_def
        created_none [OF inv] Let_def split: option.split cjson.split)
next
  case (Some ch)
  with n have f: "ch \<notin> fst ` set (m_mapAC m)" "nul_free ch" "child_names [(name, pPara)] = [ch]"
    by (simp_all add: fresh_for_def child_names_def)
  show ?thesis
    unfolding f(3) [unfolded Some] CreateChannleByPara_def Some
    using CreateAoSockChannel_safe [OF inv f(1,2), of e] CreateAoSockTcpChannel_safe [OF inv f(1), of e]
      CreateAoTcpServer_safe [OF inv f(1), of e]
    by (auto simp: Let_def created_none [OF inv] split: option.split)
qed

lemma create_all_safe:
  "commu_inv (m, pend) \<Longrightarrow> fresh_for m (child_names ks) \<Longrightarrow>
     safe (\<lambda>(m', out). commu_inv (m', pend) \<and> dels out = []) (create_all e ks m)"
proof (induction ks arbitrary: m)
  case (Cons k ks)
  obtain name para where k: "k = (name, para)" by fastforce
  have ns: "child_names (k # ks) = child_names [k] @ child_names ks" by (simp add: child_names_def)
  have f: "fresh_for m (child_names [k])" using Cons.prems(2) unfolding ns by (auto simp: fresh_for_def)
  have rest: "safe (\<lambda>(m', out). commu_inv (m', pend) \<and> dels out = [])
      (ebind (create_all e ks m1) (\<lambda>(m, out2). Inr (m, out1 @ out2)))"
    if "created m pend (child_names [(name, para)]) m1 out1" for m1 out1
  proof -
    have "commu_inv (m1, pend)" "dels out1 = []" "fresh_for m1 (child_names ks)"
      using that Cons.prems(2) [unfolded ns, unfolded k] by (auto simp: created_def fresh_for_def)
    then show ?thesis by (auto intro!: safe_ebind [OF Cons.IH])
  qed
  show ?case
    unfolding k create_all.simps
    by (rule safe_ebind [OF CreateChannleByPara_safe [OF Cons.prems(1) f [unfolded k]]])
      (auto split: prod.split intro!: rest)
qed simp

section \<open>Passes\<close>

definition pass_ok :: "(nat \<Rightarrow> sock_channel \<Rightarrow> commu_err + bool \<times> sock_channel \<times> out_msg list) \<Rightarrow> bool" where
  "pass_ok f \<longleftrightarrow> (\<forall>oid c. safe (\<lambda>(gone, r). kept c r) (f oid c))"

lemma passes_ok: "pass_ok first_pass" "pass_ok (second_pass e ready recv)"
  by (auto simp: pass_ok_def first_pass_def second_pass_def kept_def intro!: safe_ebind [OF safe_ReadData])

lemma group_pass_safe:
  assumes f: "pass_ok f"
  shows "\<forall>oid\<in>set oids. \<exists>n. objs_at m oid = Some (True, n) \<Longrightarrow>
     safe (\<lambda>((keep, m'), out). same_view m m' \<and> (\<exists>gone. mset oids = mset keep + mset gone \<and> waiting m (dels out) gone))
       (group_pass e f oids m)"
proof (induction oids arbitrary: m)
  case Nil
  then show ?case by (auto simp: waiting_def intro!: exI [of _ "[]"])
next
  case (Cons oid oids)
  then obtain c where c: "cm_objs m oid = Some (SockObj c)" by (auto simp: objs_at_Some shape_True)
  have at: "objs_at m oid = Some (True, ch_name c)" by (simp add: objs_at_def c)
  have rest: "safe (\<lambda>((keep, m'), out). same_view m m' \<and>
        (\<exists>gone'. mset (oid # oids) = mset keep + mset gone' \<and> waiting m (dels out) gone'))
      (ebind (group_pass e f oids (put_obj oid (SockObj c2) m)) (\<lambda>((keep, m), out3).
         Inr ((if gone then keep else oid # keep, m), map CoMsg (out1 @ out2) @ out3)))"
    if h: "ch_name c2 = ch_name c" "dels (map CoMsg out1) = []"
      "dels (map CoMsg out2) = (if gone then [cstr (ch_name c) @ ce_vptr e] else [])" for c2 gone out1 out2
  proof -
    have v: "same_view m (put_obj oid (SockObj c2) m)" by (rule put_obj_view) (simp add: at h)
    then have eq: "objs_at (put_obj oid (SockObj c2) m) = objs_at m" by (simp add: same_view_def)
    have new: "\<exists>gone'. mset (oid # oids) = mset (if gone then keep else oid # keep) + mset gone' \<and>
        waiting m (dels (map CoMsg (out1 @ out2) @ out3)) gone'"
      if g: "mset oids = mset keep + mset gs" "waiting m (dels out3) gs" for keep gs out3
      by (rule exI [of _ "if gone then oid # gs else gs"]) (use g h at in \<open>auto simp: waiting_def\<close>)
    show ?thesis
      by (rule safe_ebind [OF Cons.IH])
        (use Cons.prems v new in \<open>auto simp: eq waiting_def same_view_trans\<close>)
  qed
  have del: "safe (\<lambda>(c2, out2). ch_name c2 = ch_name c1 \<and>
        dels (map CoMsg out2) = (if gone then [cstr (ch_name c1) @ ce_vptr e] else []))
      (if gone then sc_OnDel e c1 else Inr (c1, []))" for gone c1
    by (auto intro: safe_mono [OF safe_OnDel])
  have next_pass: "safe (\<lambda>((keep, m'), out). same_view m m' \<and>
        (\<exists>gone'. mset (oid # oids) = mset keep + mset gone' \<and> waiting m (dels out) gone'))
      (ebind (if gone then sc_OnDel e c1 else Inr (c1, [])) (\<lambda>(c, out2).
         ebind (group_pass e f oids (put_obj oid (SockObj c) m)) (\<lambda>((keep, m), out3).
           Inr ((if gone then keep else oid # keep, m), map CoMsg (out1 @ out2) @ out3))))"
    if h: "kept c (c1, out1)" for gone c1 out1
    by (rule safe_ebind [OF del], split prod.split, intro allI impI, rule rest) (use h in \<open>auto simp: kept_def\<close>)
  have "safe (\<lambda>(gone, r). kept c r) (f oid c)" using f by (simp add: pass_ok_def)
  moreover have "group_pass e f (oid # oids) m = ebind (f oid c) (\<lambda>(gone, c1, out1).
      ebind (if gone then sc_OnDel e c1 else Inr (c1, [])) (\<lambda>(c, out2).
         ebind (group_pass e f oids (put_obj oid (SockObj c) m)) (\<lambda>((keep, m), out3).
           Inr ((if gone then keep else oid # keep, m), map CoMsg (out1 @ out2) @ out3))))"
    by (simp add: with_obj_def c)
  ultimately show ?case
    by (simp only:) (rule safe_ebind, assumption, (split prod.split, intro allI impI)+, rule next_pass, simp)
qed

lemma mset_concat_upd:
  assumes "g < length gs" and "mset (gs ! g) = mset keep + mset gone"
  shows "mset (concat gs) = mset (concat (gs[g := keep])) + mset gone"
proof -
  have gs: "gs = take g gs @ gs ! g # drop (Suc g) gs" using assms(1) by (rule id_take_nth_drop)
  have "mset (concat gs) = mset (concat (take g gs)) + mset (gs ! g) + mset (concat (drop (Suc g) gs))"
    by (subst gs) simp
  then show ?thesis using assms by (simp add: upd_conv_take_nth_drop)
qed

lemma run_pass_safe:
  assumes f: "pass_ok f" and inv: "commu_inv (m, pend)"
  shows "safe (\<lambda>(m', out). commu_inv (m', pend @ dels out)) (run_pass e f g m)"
proof (cases "g < length (m_pAISG m)")
  case True
  from inv obtain ps where t: "table_ok m" "tracked m (concat (m_pAISG m) @ ps)" "waiting m pend ps"
    by (auto simp: commu_inv_def)
  have live: "\<forall>oid\<in>set (m_pAISG m ! g). \<exists>n. objs_at m oid = Some (True, n)"
  proof
    fix oid
    assume "oid \<in> set (m_pAISG m ! g)"
    then have "oid \<in> set (concat (m_pAISG m) @ ps)" using nth_mem [OF True] by auto
    with t(2) show "\<exists>n. objs_at m oid = Some (True, n)" unfolding tracked_def by blast
  qed
  have "commu_inv (m'\<lparr>m_pAISG := (m_pAISG m)[g := keep]\<rparr>, pend @ ds)"
    if h: "same_view m m'" "mset (m_pAISG m ! g) = mset keep + mset gone" "waiting m ds gone" for m' keep gone ds
  proof -
    have "mset (concat (m_pAISG m) @ ps) = mset (concat ((m_pAISG m)[g := keep]) @ ps @ gone)"
      using mset_concat_upd [OF True h(2)] by simp
    then have tr: "tracked m (concat ((m_pAISG m)[g := keep]) @ ps @ gone)"
      using t(2) tracked_mset by blast
    have w: "waiting m (pend @ ds) (ps @ gone)"
      using t(3) h(3) unfolding waiting_def by (rule list_all2_appendI)
    let ?m = "m'\<lparr>m_pAISG := (m_pAISG m)[g := keep]\<rparr>"
    have "objs_at ?m = objs_at m" "m_mapAC ?m = m_mapAC m" "cm_next ?m = cm_next m"
      using h(1) by (auto simp: same_view_def objs_at_def fun_eq_iff)
    then have "table_ok ?m" "tracked ?m (concat (m_pAISG ?m) @ ps @ gone)" "waiting ?m (pend @ ds) (ps @ gone)"
      using tr t(1) w by (simp_all add: table_ok_def tracked_def waiting_def)
    then show ?thesis unfolding commu_inv_def by blast
  qed
  then show ?thesis
    using True by (auto simp: run_pass_def same_view_def intro!: safe_ebind [OF group_pass_safe [OF f live]])
qed (use inv in \<open>simp add: run_pass_def\<close>)

section \<open>Runs of the module\<close>

text \<open>
  What is asked of the messages from outside: channels are created under names not in use, and
  deletions are asked for by the groups only.
\<close>

definition commu_allowed :: "commu_env \<Rightarrow> commu_event \<Rightarrow> commu_state \<Rightarrow> bool" where
  "commu_allowed e ev s \<longleftrightarrow>
     (case ev of
        EvMsg code n b \<Rightarrow>
          code \<noteq> EN_AO_MSG_CHANNEL_DEL \<and>
          (\<forall>j. code = EN_AO_MSG_LOAD_CFG \<longrightarrow> json_at e b = Inr (Some j) \<longrightarrow> fresh_for (fst s) (child_names (children j))) \<and>
          (\<forall>ch j. code = EN_AO_MSG_CHANNEL_NEW \<longrightarrow> cstr_at b 0 = Some ch \<longrightarrow>
             json_at e (drop (length ch + 1) b) = Inr (Some j) \<longrightarrow> fresh_for (fst s) (child_names (children j)))
      | _ \<Rightarrow> True)"

inductive commu_reach :: "commu_env \<Rightarrow> commu_state \<Rightarrow> bool" for e where
  start: "commu_reach e (commu_new, [])"
| step: "commu_reach e s \<Longrightarrow> commu_allowed e ev s \<Longrightarrow> commu_step e ev s = Inr (s', out) \<Longrightarrow> commu_reach e s'"

lemma json_at_safe: "safe (\<lambda>r. json_at e b = Inr r) (json_at e b)"
proof -
  have "json_at e b \<noteq> Inl DeadObject" by (auto simp: json_at_def ebind_Inl need_def split: option.splits)
  then show ?thesis by (cases "json_at e b") auto
qed

lemma json_create_safe:
  assumes "commu_inv (m, pend)" and "\<And>j. json_at e b = Inr (Some j) \<Longrightarrow> fresh_for m (child_names (children j))"
  shows "safe (\<lambda>(m', out). commu_inv (m', pend) \<and> dels out = [])
     (ebind (json_at e b) (\<lambda>r. case r of None \<Rightarrow> Inr (m, []) | Some j \<Rightarrow> create_all e (children j) m))"
  using assms by (auto intro!: safe_ebind [OF json_at_safe] create_all_safe split: option.split)

lemma commu_handle_safe:
  assumes inv: "commu_inv (m, pend)" and ok: "commu_allowed e (EvMsg code n b) (m, pend)"
  shows "safe (\<lambda>(m', out). commu_inv (m', pend) \<and> dels out = []) (commu_handle e code n b m)"
proof -
  have t: "table_ok m" using inv by (simp add: commu_inv_def)
  have view: "safe (\<lambda>(m', out). commu_inv (m', pend) \<and> dels out = []) x"
    if "safe (\<lambda>(m', out). same_view m m' \<and> dels out = []) x" for x :: "commu_module commu"
    using inv by (auto intro: safe_mono [OF that] simp: same_view_inv)
  have "safe (\<lambda>(m', out). commu_inv (m', pend) \<and> dels out = []) (OnNewChannel e n b m)" if "code = EN_AO_MSG_CHANNEL_NEW"
  proof -
    have c: "safe (\<lambda>(m', out). commu_inv (m', pend) \<and> dels out = [])
        (ebind (json_at e (drop (Suc (length ch)) b)) (\<lambda>r. case r of None \<Rightarrow> Inr (m, []) | Some j \<Rightarrow> create_all e (children j) m))"
      if "cstr_at b 0 = Some ch" for ch
      by (rule json_create_safe [OF inv]) (use ok that \<open>code = _\<close> in \<open>simp add: commu_allowed_def\<close>)
    show ?thesis
      unfolding OnNewChannel_def Let_def using inv
      by (auto intro!: safe_ebind [OF last_byte_safe] safe_ebind_need c)
  qed
  moreover have "safe (\<lambda>(m', out). commu_inv (m', pend) \<and> dels out = []) (LoadConfig e n b m)" if "code = EN_AO_MSG_LOAD_CFG"
    unfolding LoadConfig_def by (rule json_create_safe [OF inv]) (use ok that in \<open>simp add: commu_allowed_def\<close>)
  ultimately show ?thesis
    using view [OF SendData_safe [OF t, of e n b]] view [OF OnFree_safe [OF t, of e n b]] view [OF OnStop_safe [OF t]] inv ok
    by (simp add: commu_handle_def commu_allowed_def)
qed

lemma client_begin_safe: "safe (\<lambda>(m', out). same_view m m' \<and> dels out = []) (client_begin oid m)"
  by (auto simp: client_begin_def objs_at_def split: option.split chan_obj.split run_state.split intro!: put_obj_view)

lemma commu_step_safe:
  assumes inv: "commu_inv s" and ok: "commu_allowed e ev s"
  shows "safe (\<lambda>(s', out). commu_inv s') (commu_step e ev s)"
proof -
  obtain m pend where s: "s = (m, pend)" by fastforce
  note inv = inv [unfolded s] and ok = ok [unfolded s]
  show ?thesis
  proof (cases ev)
    case (EvMsg code n b)
    then show ?thesis
      using ok by (auto simp: commu_step_def s intro!: safe_ebind [OF commu_handle_safe [OF inv]])
  next
    case EvDel
    have "commu_handle e EN_AO_MSG_CHANNEL_DEL n d m = OnDelChannel e n d m" for n d
      by (simp add: commu_handle_def commu_codes)
    with EvDel inv show ?thesis
      by (cases pend) (auto simp: commu_step_def s intro!: safe_ebind [OF OnDel_safe])
  next
    case (EvFirst g)
    then show ?thesis
      by (auto simp: commu_step_def s intro!: safe_ebind [OF run_pass_safe [OF passes_ok(1) inv]])
  next
    case (EvSecond g ready recv)
    then show ?thesis
      by (auto simp: commu_step_def s intro!: safe_ebind [OF run_pass_safe [OF passes_ok(2) inv]])
  next
    case (EvBegin oid)
    with inv show ?thesis
      by (auto simp: commu_step_def s same_view_inv intro!: safe_ebind [OF client_begin_safe])
  qed
qed

lemma commu_reach_inv: "commu_reach e s \<Longrightarrow> commu_inv s"
proof (induction rule: commu_reach.induct)
  case start
  then show ?case by (auto simp: commu_inv_def commu_new_def table_ok_def tracked_def waiting_def objs_at_def)
next
  case (step s ev s' out)
  from commu_step_safe [OF step.IH step.hyps(2)] step.hyps(3) show ?case by simp
qed

text \<open>C11: no channel is used after its deletion. In every run of the module, of its groups and of the
  clients' threads, interleaved in any way, in which channels are created under names not in use and
  only the groups ask for deletions, no step touches a deleted channel: not the handlers, which go
  through the table, and not the passes of the groups, which hold addresses.\<close>

theorem deleted_channel_not_used:
  assumes "commu_reach e s" and "commu_allowed e ev s"
  shows "commu_step e ev s \<noteq> Inl DeadObject"
  using commu_step_safe [OF commu_reach_inv [OF assms(1)] assms(2)] by (auto simp: safe_def)

section \<open>The end of a connection\<close>

lemma put_obj_idem: "cm_objs m oid = Some ob \<Longrightarrow> put_obj oid ob m = m"
  by (simp add: put_obj_def fun_upd_idem)

text \<open>A pass over channels of which at most one goes.\<close>

lemma group_pass_one:
  assumes "f a c = Inr (True, c, [])" and "sc_OnDel e c = Inr (c, [dm])" and "cm_objs m a = Some (SockObj c)"
  shows "distinct oids \<Longrightarrow>
     (\<And>oid. oid \<in> set oids \<Longrightarrow> oid \<noteq> a \<Longrightarrow> \<exists>c'. cm_objs m oid = Some (SockObj c') \<and> f oid c' = Inr (False, c', [])) \<Longrightarrow>
     group_pass e f oids m = Inr ((remove1 a oids, m), if a \<in> set oids then [CoMsg dm] else [])"
proof (induction oids)
  case (Cons oid oids)
  show ?case
  proof (cases "oid = a")
    case True
    with Cons assms show ?thesis by (simp add: with_obj_def put_obj_idem remove1_idem)
  next
    case False
    with Cons.prems(2) [of oid] obtain c' where "cm_objs m oid = Some (SockObj c')" "f oid c' = Inr (False, c', [])" by auto
    with Cons False show ?thesis by (simp add: with_obj_def put_obj_idem)
  qed
qed simp

definition fits :: "'a ao_channel_scheme \<Rightarrow> bool" where
  "fits c \<longleftrightarrow> m_pucOffsetBuf c = m_pucTempBuf c \<and> m_unTempBufLen c = temp_len (ch_name c) \<and> length (ch_name c) \<le> 1000"

lemma fits_send:
  "fits c \<Longrightarrow> length d \<le> 1000 \<Longrightarrow> ch_SendOutMsg mv r code d c = Inr (c, [(r, code, cstr (ch_name c) @ d)])"
  by (auto simp: fits_def ch_SendOutMsg_def temp_len_def m_unFixedOffLen_def Let_def)

text \<open>The socket that has something to read, and the read that finds the connection closed.\<close>

definition hang_up :: "nat \<Rightarrow> int \<Rightarrow> commu_event" where
  "hang_up g s = EvSecond g (\<lambda>x. x = s) (\<lambda>_. (0, []))"


section \<open>Two channels of one name\<close>

text \<open>The text of a channel with an open socket, as a configuration or a server's message has it.\<close>

definition channel_para :: "int \<Rightarrow> cjson" where
  "channel_para h = JObject [(str ''Protocol'', JString (str ''Tcp'')), (str ''Handle'', JNumber h (of_int h))]"

definition channel_text :: "bytes \<Rightarrow> int \<Rightarrow> bytes" where
  "channel_text name h = json_text (\<lambda>q. []) (JObject [(name, JObject
     [(str ''Type'', JString (str ''AoSockChannel'')), (str ''Para'', channel_para h)])])"

definition load_msg :: "bytes \<Rightarrow> int \<Rightarrow> commu_event" where
  "load_msg name h = EvMsg EN_AO_MSG_LOAD_CFG (length (channel_text name h) + 1) (cstr (channel_text name h))"

fun commu_run :: "commu_env \<Rightarrow> commu_event list \<Rightarrow> commu_state \<Rightarrow> commu_state commu" where
  "commu_run e [] s = Inr (s, [])"
| "commu_run e (ev # evs) s =
     ebind (commu_step e ev s) (\<lambda>(s, out1). ebind (commu_run e evs s) (\<lambda>(s, out2). Inr (s, out1 @ out2)))"

definition env_ok :: "commu_env \<Rightarrow> bool" where
  "env_ok e \<longleftrightarrow> exact_ints (ce_rnd e) (ce_pow10 e) \<and>
     (\<forall>s. length (ce_local e s) + length (ce_peer e s) \<le> 254) \<and>
     ce_vptr e \<noteq> [] \<and> last (ce_vptr e) = 0 \<and> length (ce_vptr e) \<le> 8"

definition with_channel :: "commu_env \<Rightarrow> bytes \<Rightarrow> int \<Rightarrow> nat list list \<Rightarrow> commu_module \<Rightarrow> commu_module" where
  "with_channel e name h gs m =
     (with_new name (SockObj (sc_new e name (str ''AoCommuProtocol'') h (cm_next m))) m)\<lparr>m_pAISG := gs\<rparr>"

lemma channel_text_json:
  assumes "env_ok e" and "nul_free name" and "\<bar>h\<bar> < 2 ^ 31"
  shows "json_at e (cstr (channel_text name h)) = Inr (Some (JObject [(name, JObject
     [(str ''Type'', JString (str ''AoSockChannel'')), (str ''Para'', channel_para h)])]))"
proof -
  have ex: "exact_ints (ce_rnd e) (ce_pow10 e)" using assms(1) by (simp add: env_ok_def)
  have ok: "json_ok (JObject [(name, JObject [(str ''Type'', JString (str ''AoSockChannel'')), (str ''Para'', channel_para h)])])"
    using assms(2,3) by (simp add: channel_para_def number_ok_def str_def nul_free_def)
  have "cstr_at (cstr (channel_text name h)) 0 = Some (channel_text name h)"
    using cstr_at_app0 [OF nul_free_json_text [OF ok, of "\<lambda>q. []"], of "[]"] by (simp add: channel_text_def)
  then show ?thesis
    using json_of_text(1) [OF ex ok, of "\<lambda>q. []"] by (simp add: json_at_def channel_text_def)
qed

definition opened :: "commu_env \<Rightarrow> bytes \<Rightarrow> bytes \<Rightarrow> int \<Rightarrow> nat list list \<Rightarrow> commu_module \<Rightarrow> commu_module" where
  "opened e name pr h gs m = (with_new name (SockObj (sc_new e name pr h (cm_next m))) m)\<lparr>m_pAISG := gs\<rparr>"

definition announced_as :: "commu_env \<Rightarrow> bytes \<Rightarrow> int \<Rightarrow> commu_out list" where
  "announced_as e name h =
     [CoMsg (EN_MODULE_ID_BROADCAST, EN_AO_MSG_CHANNEL_BUILDED, cstr name @ cstr (ce_local e h) @ cstr (ce_peer e h))]"

lemma create_channel:
  assumes e: "env_ok e" and n: "length name \<le> 1000"
    and gs: "place EN_MAX_IO_SELECT_GROUP_COUNT (m_pAISG m) (cm_next m) = Some gs"
    and para: "get_object_item (JObject kvs) (str ''Protocol'') = Some (JString (str ''Tcp''))"
      "get_object_item (JObject kvs) (str ''Handle'') = Some (JNumber h q)"
  shows "CreateAoSockChannel e (Some name) pr (Some (JObject kvs)) m = Inr ((True, opened e name pr h gs m), announced_as e name h)"
proof -
  let ?c = "sc_new e name pr h (cm_next m)"
  have "sc_OnBuiled e ?c = Inr (?c, [(EN_MODULE_ID_BROADCAST, EN_AO_MSG_CHANNEL_BUILDED,
      cstr name @ cstr (ce_local e h) @ cstr (ce_peer e h))])"
    using sc_announce(1) [of ?c e] e n by (simp add: sc_new_def env_ok_def)
  then show ?thesis
    using gs para by (simp add: CreateAoSockChannel_def string_of_def AppendSockChannle2IoSelectGroup_def new_obj_def
        with_new_def opened_def announced_as_def Let_def)
qed

lemma load_channel:
  assumes e: "env_ok e" and n: "nul_free name" "length name \<le> 1000" and h: "\<bar>h\<bar> < 2 ^ 31"
    and gs: "place EN_MAX_IO_SELECT_GROUP_COUNT (m_pAISG m) (cm_next m) = Some gs"
  shows "commu_step e (load_msg name h) (m, pend) = Inr ((with_channel e name h gs m, pend),
     [CoMsg (EN_MODULE_ID_BROADCAST, EN_AO_MSG_CHANNEL_BUILDED, cstr name @ cstr (ce_local e h) @ cstr (ce_peer e h))])"
proof -
  have "CreateAoSockChannel e (Some name) (str ''AoCommuProtocol'') (Some (channel_para h)) m =
      Inr ((True, with_channel e name h gs m),
        [CoMsg (EN_MODULE_ID_BROADCAST, EN_AO_MSG_CHANNEL_BUILDED, cstr name @ cstr (ce_local e h) @ cstr (ce_peer e h))])"
    using create_channel [OF e n(2) gs] by (simp add: channel_para_def json_access get_object_item_def
        with_channel_def opened_def announced_as_def)
  then have "LoadConfig e n0 (cstr (channel_text name h)) m = Inr (with_channel e name h gs m,
      [CoMsg (EN_MODULE_ID_BROADCAST, EN_AO_MSG_CHANNEL_BUILDED, cstr name @ cstr (ce_local e h) @ cstr (ce_peer e h))])" for n0
    by (simp add: LoadConfig_def channel_text_json [OF e n(1) h] CreateChannleByPara_def string_of_def json_access
        get_object_item_def Let_def)
  then show ?thesis by (simp add: commu_step_def load_msg_def commu_handle_def commu_codes EN_AO_MSG_CHANNEL_BUILDED_def)
qed

lemma place_first: "place EN_MAX_IO_SELECT_GROUP_COUNT [] oid = Some [[oid]]"
  by (simp add: EN_MAX_IO_SELECT_GROUP_COUNT_def eval_nat_numeral)

lemma place_second: "place EN_MAX_IO_SELECT_GROUP_COUNT [[x]] oid = Some [[x, oid]]"
  by (simp add: EN_MAX_IO_SELECT_GROUP_COUNT_def EN_MAX_IO_COUNT_def eval_nat_numeral)

lemma fits_new: "length name \<le> 1000 \<Longrightarrow> fits (sc_new e name pr h addr)"
  by (simp add: fits_def sc_new_def)

lemma sc_OnDel_fits: "env_ok e \<Longrightarrow> fits c \<Longrightarrow>
   sc_OnDel e c = Inr (c, [(EN_MODULE_ID_COMMU, EN_AO_MSG_CHANNEL_DEL, cstr (ch_name c) @ ce_vptr e)])"
  by (simp add: sc_OnDel_def fits_send env_ok_def)

lemma sc_OnFreed_fits: "fits c \<Longrightarrow>
   sc_OnFreed e c = Inr (c, [(EN_MODULE_ID_BROADCAST, EN_AO_MSG_CHANNEL_FREED, cstr (ch_name c))])"
  using fits_send [of c "[]"] by (simp add: sc_OnFreed_def)

lemma last_byte_del: "env_ok e \<Longrightarrow> last_byte (length (cstr n @ ce_vptr e)) (cstr n @ ce_vptr e) = Inr 0"
  using last_conv_nth [of "ce_vptr e"] by (simp add: last_byte_def env_ok_def cstr_def nth_append)

text \<open>C27: a name used twice frees a live channel. The second channel takes over the table's entry; when
  the connection of the first one closes, the deletion asked for by name deletes the second one, which
  its group still holds, and the next pass uses it. Two servers configured under one name get there:
  both number their connections from zero.\<close>

theorem reused_name_frees_live_channel:
  assumes "env_ok e" and "nul_free name" and "length name \<le> 1000"
    and "\<bar>h\<bar> < 2 ^ 31" and "\<bar>h'\<bar> < 2 ^ 31" and "h \<noteq> - 1" and "h' \<notin> {- 1, h}"
  shows "commu_run e [load_msg name h, load_msg name h', hang_up 0 h, EvDel, EvFirst 0] (commu_new, []) = Inl DeadObject"
proof -
  note One_nat_def [simp del]
  let ?m1 = "with_channel e name h [[1]] commu_new" and ?m2 = "with_channel e name h' [[1, 2]] (with_channel e name h [[1]] commu_new)"
  let ?c1 = "sc_new e name (str ''AoCommuProtocol'') h 1" and ?c2 = "sc_new e name (str ''AoCommuProtocol'') h' 2"
  let ?d = "cstr name @ ce_vptr e"
  have n1: "m_pAISG commu_new = []" "cm_next commu_new = 1" by (simp_all add: commu_new_def)
  have m1: "m_pAISG ?m1 = [[1]]" "cm_next ?m1 = 2" by (simp_all add: with_channel_def with_new_def new_obj_def commu_new_def)
  have m2: "m_pAISG ?m2 = [[1, 2]]" "m_mapAC ?m2 = [(name, 2)]" "cm_objs ?m2 = [1 \<mapsto> SockObj ?c1, 2 \<mapsto> SockObj ?c2]"
    by (simp_all add: with_channel_def with_new_def new_obj_def commu_new_def fun_eq_iff)
  have l1: "\<exists>out. commu_step e (load_msg name h) (commu_new, []) = Inr ((?m1, []), out)"
    using load_channel [OF assms(1-4), of commu_new "[[1]]"] by (simp add: n1 place_first)
  have l2: "\<exists>out. commu_step e (load_msg name h') (?m1, []) = Inr ((?m2, []), out)"
    using load_channel [OF assms(1-3,5), of ?m1 "[[1, 2]]"] unfolding m1 by (simp add: place_second)
  have fit: "fits ?c1" "fits ?c2" "sc_Socket ?c1 = h" "sc_Socket ?c2 = h'" "ch_name ?c1 = name" "ch_name ?c2 = name"
    using assms(3) by (simp_all add: fits_def sc_new_def)
  let ?m3 = "?m2\<lparr>m_pAISG := [[2]]\<rparr>" and ?f = "second_pass e (\<lambda>x. x = h) (\<lambda>_. (0, []))"
  have "group_pass e ?f [1, 2] ?m2 = Inr (([2], ?m2), [CoMsg (EN_MODULE_ID_COMMU, EN_AO_MSG_CHANNEL_DEL, ?d)])"
    using group_pass_one [of ?f 1 ?c1 e _ ?m2 "[1, 2]"] sc_OnDel_fits [OF assms(1) fit(1)] assms(6,7)
    by (simp add: m2 fit second_pass_def sc_ReadData_def chan_read_data_def)
  then have s3: "\<exists>out. commu_step e (hang_up 0 h) (?m2, []) = Inr ((?m3, [?d]), out)"
    by (simp add: hang_up_def commu_step_def run_pass_def m2 del: group_pass.simps)
  let ?m4 = "?m3\<lparr>cm_objs := (cm_objs ?m3)(2 := None), m_mapAC := sm_erase name (m_mapAC ?m3)\<rparr>"
  have "OnDelChannel e (length ?d) ?d ?m3 = Inr (?m4, [CoMsg (EN_MODULE_ID_BROADCAST, EN_AO_MSG_CHANNEL_FREED, cstr name)])"
    unfolding OnDelChannel_def last_byte_del [OF assms(1)] cstr_at_app0 [OF assms(2)]
    by (simp add: m2 sm_find_def delete_obj_def with_obj_def sc_OnFreed_fits [OF fit(2)] fit)
  then have s4: "\<exists>out. commu_step e EvDel (?m3, [?d]) = Inr ((?m4, []), out)"
    by (simp add: commu_step_def commu_handle_def commu_codes)
  have s5: "commu_step e (EvFirst 0) (?m4, []) = Inl DeadObject"
    by (simp add: commu_step_def run_pass_def with_obj_def)
  show ?thesis using l1 l2 s3 s4 s5 by auto
qed

lemma demo_env_ok: "env_ok demo_env" "nul_free demo_name" "length demo_name \<le> 1000"
  by (simp_all add: env_ok_def demo_env_def exact_ints_def demo_name_def nul_free_def)

definition demo_module :: commu_module where
  "demo_module = with_channel demo_env demo_name 5 [[1]] commu_new"

lemma demo_reach: "commu_reach demo_env (demo_module, [])"
proof (rule commu_reach.step [OF commu_reach.start])
  show "commu_allowed demo_env (load_msg demo_name 5) (commu_new, [])"
    using channel_text_json [OF demo_env_ok(1,2), of 5] demo_env_ok(2)
    by (auto simp: commu_allowed_def load_msg_def commu_codes fresh_for_def child_names_def commu_new_def)
  show "commu_step demo_env (load_msg demo_name 5) (commu_new, []) = Inr ((demo_module, []),
      [CoMsg (EN_MODULE_ID_BROADCAST, EN_AO_MSG_CHANNEL_BUILDED,
        cstr demo_name @ cstr (ce_local demo_env 5) @ cstr (ce_peer demo_env 5))])"
    unfolding demo_module_def
    by (rule load_channel [OF demo_env_ok]) (simp_all add: commu_new_def place_first)
qed

lemma demo_module_simps:
  "m_pAISG demo_module = [[1]]" "cm_objs demo_module = [1 \<mapsto> SockObj (sc_new demo_env demo_name (str ''AoCommuProtocol'') 5 1)]"
  by (simp_all add: demo_module_def with_channel_def with_new_def new_obj_def commu_new_def fun_eq_iff)

theorem deleted_channel_not_used_witness:
  "commu_step demo_env (hang_up 0 5) (demo_module, []) \<noteq> Inl DeadObject"
  by (rule deleted_channel_not_used [OF demo_reach]) (simp add: commu_allowed_def hang_up_def)


theorem reused_name_frees_live_channel_witness:
  "commu_run demo_env [load_msg demo_name 5, load_msg demo_name 6, hang_up 0 5, EvDel, EvFirst 0] (commu_new, []) =
     Inl DeadObject"
  by (rule reused_name_frees_live_channel [OF demo_env_ok]) simp_all

end
