(* ===== verification/Aodc_Protocol.thy ===== *)
theory Aodc_Protocol
  imports Aodc_Active
begin

text \<open>
  The two exchanges end to end: the installer's activation through the centre, the licence file it
  leaves behind, and the service's authentication with it. The transport hands over what is sent:
  a message to a channel arrives at the other end under the name of the channel there (property of
  \<^theory_text>\<open>Ao_CommuProtocol\<close>), so its payload is what crosses.
\<close>

section \<open>The exchanges\<close>

definition payload :: "out_msg \<Rightarrow> bytes" where
  "payload = (\<lambda>(r, c, d). drop (Suc (length (takeWhile (\<lambda>b. b \<noteq> 0) d))) d)"

lemma payload_send: "nul_free ch \<Longrightarrow> payload (r, c, cstr ch @ d) = d"
  using takeWhile_nul_free [of ch d] by (simp add: payload_def cstr_def)

text \<open>The installer connects, the centre asks the management side and gets \<open>ans\<close>, the installer
  saves what it is answered.\<close>

definition activation ::
  "(bytes \<Rightarrow> bool) \<Rightarrow> ao_encrypt \<Rightarrow> bytes \<Rightarrow> (bytes \<Rightarrow> u32) \<Rightarrow> (rat \<Rightarrow> bytes) \<Rightarrow> (rat \<Rightarrow> rat) \<Rightarrow> (int \<Rightarrow> rat) \<Rightarrow>
     bytes \<Rightarrow> u32 list option \<Rightarrow> bytes \<Rightarrow> bytes \<Rightarrow> bytes \<Rightarrow> file_store \<Rightarrow> install_module \<Rightarrow> active_module \<Rightarrow>
     (file_store \<times> active_module \<times> bool) option" where
  "activation deny ae szDir inet_addr fd rnd pow10 serial ifs uuid ch ans fs im am =
     ins_OnChannelBuild serial ifs im (cstr aodc_client) \<bind> (\<lambda>(im, out1).
     active_handle inet_addr ae fd rnd pow10 uuid am (EN_AO_MSG_CHANNEL_RECV_DATA, cstr ch @ payload (hd out1)) \<bind> (\<lambda>(am, _).
     active_handle inet_addr ae fd rnd pow10 uuid am (EN_AO_MSG_RCVFKAFKA, ans) \<bind> (\<lambda>(am, out2).
     ins_OnRecvChannelData deny ae szDir fs im (cstr aodc_client @ payload (out2 ! 1)) \<bind> (\<lambda>(fs, im, ok, _).
     Some (fs, am, ok)))))"

text \<open>The service connects with the licence it finds, the centre asks and gets \<open>ans\<close>, the service
  takes the verdict: what the centre sends, what the service tells its modules.\<close>

definition authentication ::
  "(bytes \<Rightarrow> bool) \<Rightarrow> ao_encrypt \<Rightarrow> bytes \<Rightarrow> (rat \<Rightarrow> bytes) \<Rightarrow> (rat \<Rightarrow> rat) \<Rightarrow> (int \<Rightarrow> rat) \<Rightarrow>
     u32 list option \<Rightarrow> bytes \<Rightarrow> bytes \<Rightarrow> file_store \<Rightarrow> auth_module \<Rightarrow> (out_msg list \<times> out_msg list) option" where
  "authentication deny ae szDir fd rnd pow10 ifs ch ans fs um =
     aods_OnChannelBuild deny ae szDir fs ifs (cstr aodc_client) \<bind> (\<lambda>out1.
     auth_handle ae fd rnd pow10 um (EN_AO_MSG_CHANNEL_RECV_DATA, cstr ch @ payload (hd out1)) \<bind> (\<lambda>(um, _).
     auth_handle ae fd rnd pow10 um (EN_AO_MSG_RCVFKAFKA, ans) \<bind> (\<lambda>(um, out2).
     aods_OnRecvChannelData deny ae szDir fs ifs (cstr aodc_client @ payload (last out2)) \<bind> (\<lambda>(out3, _).
     Some (out2, out3)))))"

section \<open>Activation\<close>

lemma ins_request:
  assumes "\<not> m_bActived im" and "length (m_unIpAddr im) = 64" and "length serial = 14" and "ifs = Some as"
  obtains n ips where
    "ins_OnChannelBuild serial ifs im (cstr aodc_client) =
       Some (im\<lparr>m_ucRDSerial := serial, m_ucIpNum := n, m_unIpAddr := ips\<rparr>,
         [(EN_MODULE_ID_COMMU, EN_AO_MSG_CHANNEL_SEND_DATA, cstr aodc_client @ aam EN_AODS_AODC_ACTV
             (active_bytes (m_ucIndex im) n ips (replicate 6 0) serial))])"
    "n \<le> 16" "length ips = 64"
proof -
  obtain n ips where ip: "GetIpAddrs ifs 16 (m_unIpAddr im) = Some (True, n, ips)" "n \<le> 16" "length ips = 64"
    using GetIpAddrs_ok [OF assms(4), of 16 "m_unIpAddr im"] assms(2) by auto
  have "same_str (cstr aodc_client) aodc_client = Some True" using same_aodc_client [of "[]"] by simp
  with ip assms(1) show thesis by (intro that [where n = n and ips = ips]) (simp_all add: ins_OnChannelBuild_def len_defs)
qed

lemma activation_of_request:
  assumes "length ips = 64" and "length serial = 14"
  shows "activation_of (aam EN_AODS_AODC_ACTV (active_bytes idx n ips (replicate 6 0) serial)) =
     Some \<lparr>aq_ucIndex = idx, aq_ucIpNum = n, aq_unIpAddr = ips, aq_ucResId = replicate 6 0, aq_ucRDSerial = serial\<rparr>"
  using assms
  by (simp add: activation_of_def aam_def rd32_le32_0 active_bytes_def len_defs
      EN_AODS_AODC_ACTIVATE_SIZE_def active_of_def)

lemma OnActiveSucc_eq:
  assumes "length code = 20"
  shows "\<exists>rep. OnActiveSucc ae fd ch code =
     Some [rep, send_msg ch (aam EN_AODC_AODS_ACTV (0 # take 6 code @ active_code code))]"
proof -
  have "hex_of 128 (active_code code) EN_ACT_CODE_LEN = Some (hexs (active_code code))"
    "hex_of 16 (take 6 code) EN_RES_ID_LEN = Some (hexs (take 6 code))"
    using assms by (auto intro!: hex_of_eq simp: length_active_code len_defs)
  then show ?thesis
    using CalcActiveCode_eq [OF assms, of ae]
    by (simp add: OnActiveSucc_def ReportActiveSuc_def RspActiveSuc_def Let_def len_defs)
qed

text \<open>The code depends on the resource number and on the first thirteen bytes of the serial, so the
  licence's own serial gives it again.\<close>

lemma rd32_aam: "rd32 (cstr ch @ aam w d) (Suc (length ch)) = Some w"
  by (simp add: aam_def rd32_skip rd32_le32_0)

lemma drop_aam: "drop (Suc (length ch) + 4) (cstr ch @ aam w d) = d"
  by (simp add: aam_def cstr_def)

lemma activation_ok:
  assumes im: "\<not> m_bActived im" "length (m_unIpAddr im) = 64" and s: "length serial = 14" and i: "ifs = Some as"
    and ch: "nul_free ch" "is_aods ch" and k: "peer_known inet_addr am ch"
    and v: "answers rnd pow10 ans (str ''active_ack'') v" "member_string v (str ''uuid'') = Some uuid"
      "member_int v (str ''ack'') = Some 0" "member_string v (str ''rid'') = Some (hexs resid)"
    and r: "length resid = 6"
    and f: "\<not> deny (licence_file dir)" "length (licence_file dir) \<le> 255"
  obtains fs' am' a where "activation deny ae dir inet_addr fd rnd pow10 serial ifs uuid ch ans fs im am = Some (fs', am', True)"
    "ReadActiveData deny ae dir fs' = Some (Some a)" "authen_wf a" "licensed a" "ucResId a = resid" "ucIpNum a \<le> 16"
proof -
  obtain n ips where req: "ins_OnChannelBuild serial ifs im (cstr aodc_client) =
       Some (im\<lparr>m_ucRDSerial := serial, m_ucIpNum := n, m_unIpAddr := ips\<rparr>,
         [(EN_MODULE_ID_COMMU, EN_AO_MSG_CHANNEL_SEND_DATA, cstr aodc_client @ aam EN_AODS_AODC_ACTV
             (active_bytes (m_ucIndex im) n ips (replicate 6 0) serial))])" and n: "n \<le> 16" "length ips = 64"
    by (rule ins_request [OF im s i])
  define im1 where "im1 = im\<lparr>m_ucRDSerial := serial, m_ucIpNum := n, m_unIpAddr := ips\<rparr>"
  define d where "d = aam EN_AODS_AODC_ACTV (active_bytes (m_ucIndex im) n ips (replicate 6 0) serial)"
  define am1 where "am1 = active_take am uuid ch (replicate 6 0 @ serial)"
  from active_request [OF ch activation_of_request [OF n(2) s, of "m_ucIndex im" n] _ k, of ae fd rnd pow10 uuid] n(1)
  obtain tx where
    s1: "active_handle inet_addr ae fd rnd pow10 uuid am (EN_AO_MSG_CHANNEL_RECV_DATA, cstr ch @ d) =
      Some (am1, [(EN_MODULE_ID_KAFKA, EN_AO_MSG_SND2KAFKA, tx)])" by (auto simp: d_def am1_def)
  have uai: "m_mapUai am1 uuid = Some \<lparr>ac_strChannelName = ch, szActiveCode = replicate 6 0 @ serial\<rparr>"
    and cu: "m_mapCu am1 ch = Some uuid" by (simp_all add: am1_def active_take_def)
  have hex: "GetHexData (replicate 6 0 @ serial) (cstr (hexs resid)) = Some (resid @ serial)"
    using hex_roundtrip [of resid "replicate 6 0 @ serial" "[]"] r by (simp add: cstr_def)
  obtain rep where suc: "OnActiveSucc ae fd ch (resid @ serial) =
      Some [rep, send_msg ch (aam EN_AODC_AODS_ACTV (0 # resid @ active_code (resid @ serial)))]"
    using OnActiveSucc_eq [of "resid @ serial" ae fd ch] r s by auto
  define am2 where "am2 = am1\<lparr>m_mapCA := (m_mapCA am1)(ch := None), m_mapCu := (m_mapCu am1)(ch := None),
      m_mapUai := (m_mapUai am1)(uuid := None)\<rparr>"
  define d2 where "d2 = 0 # resid @ active_code (resid @ serial)"
  have s2: "active_handle inet_addr ae fd rnd pow10 uuid am1 (EN_AO_MSG_RCVFKAFKA, ans) =
      Some (am2, [rep, send_msg ch (aam EN_AODC_AODS_ACTV d2), free_msg ch])"
    by (simp add: active_answer [OF v(1,2) uai] cu v(3,4) hex suc am2_def d2_def)
  have ac: "length (active_code (resid @ serial)) = 20" using r s by (simp add: length_active_code)
  define im2 where "im2 = im1\<lparr>m_bActived := True\<rparr>"
  define a where "a = licence_of im2 resid (active_code (resid @ serial))"
  have wf: "authen_wf a" using r s n ac by (simp add: a_def licence_of_def im2_def im1_def authen_wf_def len_defs)
  obtain fs' where save: "SaveActive deny ae dir fs im2 resid (active_code (resid @ serial)) = Some (fs', True)"
    and read: "ReadActiveData deny ae dir fs' = Some (Some a)"
    using licence_roundtrip [where deny = deny, OF f] wf unfolding a_def by blast
  have l2: "length d2 = 27" using r ac by (simp add: d2_def)
  have "ins_OnRecvChannelData deny ae dir fs im1 (cstr aodc_client @ aam EN_AODC_AODS_ACTV d2) =
      Some (fs', im2, True, [(EN_MODULE_ID_BROADCAST, EN_AO_MSG_EXIT, [])])"
  proof -
    have "rd32 (cstr aodc_client @ aam EN_AODC_AODS_ACTV d2) 11 = Some EN_AODC_AODS_ACTV"
      using rd32_aam [of aodc_client] by simp
    moreover have "drop 15 (cstr aodc_client @ aam EN_AODC_AODS_ACTV d2) = d2"
      using drop_aam [of aodc_client] by simp
    moreover have "length (cstr aodc_client @ aam EN_AODC_AODS_ACTV d2) = 42" by (simp add: aam_def l2)
    moreover have "d2 ! 0 = 0" "take 6 (drop 1 d2) = resid" "drop 7 d2 = active_code (resid @ serial)"
      using r by (simp_all add: d2_def)
    ultimately show ?thesis
      using save l2 by (simp add: ins_OnRecvChannelData_def len_defs Let_def im2_def)
  qed
  then have "activation deny ae dir inet_addr fd rnd pow10 serial ifs uuid ch ans fs im am = Some (fs', am2, True)"
    using ch by (simp add: activation_def req payload_send d_def [symmetric] im1_def [symmetric] s1 s2 send_msg_def)
  moreover have "licensed a" by (simp add: licensed_def a_def licence_of_def im2_def im1_def)
  ultimately show thesis using read wf n
    by (intro that [of fs' am2 a]) (simp_all add: a_def licence_of_def im2_def im1_def)
qed

section \<open>Authentication\<close>

lemma num_room: "n \<le> (16 :: u8) \<Longrightarrow> length ips = 64 \<Longrightarrow> 4 * unat n \<le> length ips"
  by (simp add: word_le_nat_alt)

lemma authentication_ok:
  assumes read: "ReadActiveData deny ae dir fs = Some (Some a)" and a: "authen_wf a" "licensed a" "ucIpNum a \<le> 16"
    and i: "ifs = Some as" and ch: "nul_free ch" "is_aods ch"
    and free: "holder um (hexs (ucResId a)) = None"
    and v: "answers rnd pow10 ans (str ''auth_ack'') v" "member_string v (str ''rid'') = Some (hexs (ucResId a))"
      "member_int v (str ''ack'') = Some 0"
  shows "authentication deny ae dir fd rnd pow10 ifs ch ans fs um =
     Some ([auth_suc (hexs (ucResId a)) ch, send_msg ch (aam EN_AODC_AODS_AUTH [EN_AUTH_RESULT_SUC])],
       [(EN_MODULE_ID_BROADCAST, EN_AO_MSG_AUTHEN_SUC, [])])"
proof -
  have l: "length (unIpAddr a) = 64" using a(1) by (simp add: authen_wf_def len_defs)
  obtain n ips where ip: "GetIpAddrs ifs (ucIpNum a) (unIpAddr a) = Some (True, n, ips)" "length ips = 64"
    using GetIpAddrs_ok [OF i, of "ucIpNum a" "unIpAddr a"] l a(3) by (metis num_room)
  define b where "b = a\<lparr>ucIpNum := n, unIpAddr := ips\<rparr>"
  have b: "authen_wf b" "licensed b" "ucResId b = ucResId a" "holder um (hexs (ucResId b)) = None"
    using a ip free by (simp_all add: b_def authen_wf_def licensed_def len_defs)
  have same: "same_str (cstr aodc_client) aodc_client = Some True" using same_aodc_client [of "[]"] by simp
  have s1: "aods_OnChannelBuild deny ae dir fs ifs (cstr aodc_client) =
      Some [(EN_MODULE_ID_COMMU, EN_AO_MSG_CHANNEL_SEND_DATA, cstr aodc_client @ aam EN_AODS_AODC_AUTH (authen_bytes b))]"
    by (simp add: aods_OnChannelBuild_def same OnAuthen_def read ip b_def len_defs)
  have s2: "auth_handle ae fd rnd pow10 um (EN_AO_MSG_CHANNEL_RECV_DATA, cstr ch @ aam EN_AODS_AODC_AUTH (authen_bytes b)) =
      Some (auth_take um ch b, [auth_report fd b])"
    using auth_handle_free_taken [OF ch b(1,2,4)] by (simp add: req_def)
  have rc: "m_mapRC (auth_take um ch b) (hexs (ucResId a)) =
      Some \<lparr>ai_ucIpNum = ucIpNum b, ai_strChannelName = ch, ai_unIpAddr = unIpAddr b\<rparr>"
    by (simp add: auth_take_def b(3) [symmetric])
  obtain j where j: "json_of rnd pow10 ans = Some (Some j)" "get_object_item j (str ''auth_ack'') = Some v"
    using v(1) by (auto simp: answers_def)
  have s3: "auth_handle ae fd rnd pow10 (auth_take um ch b) (EN_AO_MSG_RCVFKAFKA, ans) =
      Some (auth_take um ch b, [auth_suc (hexs (ucResId a)) ch, send_msg ch (aam EN_AODC_AODS_AUTH [EN_AUTH_RESULT_SUC])])"
    using j v(2,3) rc
    by (simp add: auth_handle_def auth_OnRecvFromKafka_def auth_codes EN_AUTH_RESULT_SUC_def auth_suc_def)
  have "rd32 (cstr aodc_client @ aam EN_AODC_AODS_AUTH [EN_AUTH_RESULT_SUC]) 11 = Some EN_AODC_AODS_AUTH"
    using rd32_aam [of aodc_client] by simp
  moreover have "drop 15 (cstr aodc_client @ aam EN_AODC_AODS_AUTH [EN_AUTH_RESULT_SUC]) = [EN_AUTH_RESULT_SUC]"
    using drop_aam [of aodc_client] by simp
  moreover have "length (cstr aodc_client @ aam EN_AODC_AODS_AUTH [EN_AUTH_RESULT_SUC]) = 16" by (simp add: aam_def)
  ultimately have s4: "aods_OnRecvChannelData deny ae dir fs ifs (cstr aodc_client @ aam EN_AODC_AODS_AUTH [EN_AUTH_RESULT_SUC]) =
      Some ([(EN_MODULE_ID_BROADCAST, EN_AO_MSG_AUTHEN_SUC, [])], False)"
    by (simp add: aods_OnRecvChannelData_def len_defs Let_def EN_AODC_AODS_AUTH_def EN_AODC_AODS_KEEPALIVE_def)
  show ?thesis
    using ch by (simp add: authentication_def s1 payload_send s2 s3 s4 send_msg_def)
qed

section \<open>Property\<close>

text \<open>C2: activation and authentication fit together, across three programs. When the management
  side grants an installer's request a resource number, the licence file the installer saves lets
  the deployed service authenticate later, on whatever channel and with whatever addresses the
  machine then has: the centre finds the code right, and when the management side agrees it tells
  its modules the resource number and channel, and the service tells its own.\<close>

theorem activated_client_authenticates:
  assumes "\<not> m_bActived im" and "length (m_unIpAddr im) = 64" and "length serial = 14"
    and "nul_free ch" and "is_aods ch" and "peer_known inet_addr am ch"
    and "answers rnd pow10 ans1 (str ''active_ack'') v1" and "member_string v1 (str ''uuid'') = Some uuid"
    and "member_int v1 (str ''ack'') = Some 0" and "member_string v1 (str ''rid'') = Some (hexs resid)"
    and "length resid = 6"
    and "\<not> deny (licence_file dir)" and "length (licence_file dir) \<le> 255"
    and "nul_free ch'" and "is_aods ch'" and "holder um (hexs resid) = None"
    and "answers rnd pow10 ans2 (str ''auth_ack'') v2" and "member_string v2 (str ''rid'') = Some (hexs resid)"
    and "member_int v2 (str ''ack'') = Some 0"
  shows "\<exists>fs' am'. activation deny ae dir inet_addr fd rnd pow10 serial (Some as) uuid ch ans1 fs im am = Some (fs', am', True) \<and>
     authentication deny ae dir fd rnd pow10 (Some bs) ch' ans2 fs' um =
       Some ([(EN_MODULE_ID_BROADCAST, EN_AO_MSG_AUTH_SUC, cstr (hexs resid) @ cstr ch'),
              send_msg ch' (aam EN_AODC_AODS_AUTH [EN_AUTH_RESULT_SUC])],
         [(EN_MODULE_ID_BROADCAST, EN_AO_MSG_AUTHEN_SUC, [])])"
proof -
  obtain fs' am' a where act: "activation deny ae dir inet_addr fd rnd pow10 serial (Some as) uuid ch ans1 fs im am = Some (fs', am', True)"
    and a: "ReadActiveData deny ae dir fs' = Some (Some a)" "authen_wf a" "licensed a" "ucIpNum a \<le> 16"
    and r: "ucResId a = resid"
    using activation_ok [where ifs = "Some as" and deny = deny and dir = dir, OF assms(1-3) refl assms(4-13)] by blast
  show ?thesis
    using act authentication_ok [OF a refl assms(14,15), of um rnd pow10 ans2 v2 fd bs] assms(16-19) r
    by (simp add: auth_suc_def)
qed

theorem activated_client_authenticates_witness:
  "\<exists>fs' am'. activation (\<lambda>f. False) demo_ae [46] (\<lambda>a. 5) (\<lambda>q. []) (\<lambda>q. q) (\<lambda>e. 10 powi e) (replicate 14 9) (Some [7]) [65]
       demo_channel (json_text (\<lambda>q. []) (JObject [(str ''active_ack'', demo_active_ack 0 [65] (hexs [1, 2, 3, 4, 5, 6]))]))
       Map.empty (install_new 1 (replicate 14 0)) demo_active = Some (fs', am', True) \<and>
     authentication (\<lambda>f. False) demo_ae [46] (\<lambda>q. []) (\<lambda>q. q) (\<lambda>e. 10 powi e) (Some [8, 9]) demo_channel
       (json_text (\<lambda>q. []) (JObject [(str ''auth_ack'', demo_active_ack 0 [65] (hexs [1, 2, 3, 4, 5, 6]))])) fs' auth_new =
       Some ([(EN_MODULE_ID_BROADCAST, EN_AO_MSG_AUTH_SUC, cstr (hexs [1, 2, 3, 4, 5, 6]) @ cstr demo_channel),
              send_msg demo_channel (aam EN_AODC_AODS_AUTH [EN_AUTH_RESULT_SUC])],
         [(EN_MODULE_ID_BROADCAST, EN_AO_MSG_AUTHEN_SUC, [])])"
proof -
  have n: "nul_free (str ''active_ack'')" "nul_free (str ''auth_ack'')" by (simp_all add: str_def)
  have k: "peer_known (\<lambda>a. 5) demo_active demo_channel" by (simp add: peer_known_def demo_active_def)
  show ?thesis
    by (rule activated_client_authenticates [OF _ _ _ demo_ok(1,2) k demo_active_answer demo_active_members(1)
          demo_active_members(3) demo_active_members(2) _ _ _ demo_ok(1,2) _ demo_active_answer demo_active_members(2)
          demo_active_members(3)])
      (simp_all add: n install_new_def len_defs licence_file_def str_def holder_def auth_new_def)
qed

end
