(* ===== verification/Aodc_Update.thy ===== *)
theory Aodc_Update
  imports Aodc_Active Ao_StdMap
begin

text \<open>
  \<open>aodc/UpdateModule.cpp\<close>: the centre keeps which channel serves which authenticated resource
  number, sends update instructions from the management side to the channel of the resource, passes
  the client's version reports and update results on, and keeps the channels alive.
\<close>

section \<open>State\<close>

record UPDATE_OBJ =
  uo_strChannelName :: bytes
  uo_strResId :: bytes

record update_module =
  m_mapCuo :: "UPDATE_OBJ std_map"
  m_mapRuo :: "UPDATE_OBJ std_map"

definition update_new :: update_module where
  "update_new = \<lparr>m_mapCuo = [], m_mapRuo = []\<rparr>"

definition EN_AODS_AODC_UMI :: u32 where "EN_AODS_AODC_UMI = 5"
definition EN_AODC_AODS_UMI :: u32 where "EN_AODC_AODS_UMI = 6"
definition EN_AODS_AODC_UDR :: u32 where "EN_AODS_AODC_UDR = 7"
definition EN_TI_KEEPALIVE :: u32 where "EN_TI_KEEPALIVE = 1"

section \<open>Channels and resources\<close>

text \<open>\<open>OnSendChannelDataFail\<close> and \<open>OnChannelFreed\<close> have the same body.\<close>

definition update_OnChannelFreed :: "update_module \<Rightarrow> bytes \<Rightarrow> (update_module \<times> out_msg list) option" where
  "update_OnChannelFreed m msg =
     cstr_at msg 0 \<bind> (\<lambda>pszChannelName.
     if \<not> is_aods pszChannelName then Some (m, [])
     else
       case sm_find (m_mapCuo m) pszChannelName of
         None \<Rightarrow> Some (m, [])
       | Some uo \<Rightarrow> Some (m\<lparr>m_mapRuo := sm_erase (uo_strResId uo) (m_mapRuo m),
                            m_mapCuo := sm_erase pszChannelName (m_mapCuo m)\<rparr>, []))"

text \<open>The success announced by the authentication module: resource number, then channel name. The
  warning for a number in use by another channel goes to the log only.\<close>

definition update_OnAuthSuc :: "update_module \<Rightarrow> bytes \<Rightarrow> (update_module \<times> out_msg list) option" where
  "update_OnAuthSuc m msg =
     (if length msg < EN_RES_ID_LEN \<or> last msg \<noteq> 0 then Some (m, [])
      else
        cstr_at msg 0 \<bind> (\<lambda>szResId.
        if length (cstr szResId) > 16 then None
        else
          cstr_at msg (length szResId + 1) \<bind> (\<lambda>name.
          let uo = \<lparr>uo_strChannelName = name, uo_strResId = szResId\<rparr>
          in Some (m\<lparr>m_mapRuo := sm_set szResId uo (m_mapRuo m), m_mapCuo := sm_set name uo (m_mapCuo m)\<rparr>, []))))"

section \<open>Instructions\<close>

text \<open>
  The fields of an instruction are copied one behind the other into what a stack array of 1024 bytes
  leaves behind the message code; nothing checks that they fit.
\<close>

definition EN_UMI_BUF_LEN :: nat where "EN_UMI_BUF_LEN = 1024"

fun put_fields :: "cjson \<Rightarrow> bytes list \<Rightarrow> bytes \<Rightarrow> bytes option" where
  "put_fields pUpdate [] szMsg = Some szMsg"
| "put_fields pUpdate (name # names) szMsg =
     member_string pUpdate name \<bind> (\<lambda>s.
     if EN_AODS_AODC_MSG_SIZE + length (szMsg @ cstr s) > EN_UMI_BUF_LEN then None
     else put_fields pUpdate names (szMsg @ cstr s))"

definition umi_fields :: "bytes list" where
  "umi_fields = [str ''project'', str ''module'', str ''version'', str ''hash'', str ''url'', str ''code'']"

definition update_OnRecvFromKafka ::
  "(rat \<Rightarrow> rat) \<Rightarrow> (int \<Rightarrow> rat) \<Rightarrow> update_module \<Rightarrow> bytes \<Rightarrow> (update_module \<times> out_msg list) option" where
  "update_OnRecvFromKafka rnd pow10 m msg =
     json_of rnd pow10 msg \<bind> (\<lambda>r.
     case r of
       None \<Rightarrow> Some (m, [])
     | Some pObj \<Rightarrow>
         (case get_object_item pObj (str ''update'') of
            None \<Rightarrow> Some (m, [])
          | Some pUpdate \<Rightarrow>
              member_string pUpdate (str ''rid'') \<bind> (\<lambda>rid.
              case sm_find (m_mapRuo m) rid of
                None \<Rightarrow> Some (m, [])
              | Some uo \<Rightarrow>
                  put_fields pUpdate umi_fields [] \<bind> (\<lambda>szMsg.
                  member_int pUpdate (str ''force'') \<bind> (\<lambda>force.
                  if EN_AODS_AODC_MSG_SIZE + length szMsg + 1 > EN_UMI_BUF_LEN then None
                  else Some (m, [send_msg (uo_strChannelName uo)
                         (aam EN_AODC_AODS_UMI (szMsg @ [word_of_int force]))]))))))"

section \<open>Reports\<close>

text \<open>\<open>n\<close> strings one behind the other from \<open>off\<close>, and the position behind them.\<close>

fun read_strings :: "bytes \<Rightarrow> nat \<Rightarrow> nat \<Rightarrow> bytes list option" where
  "read_strings b off 0 = Some []"
| "read_strings b off (Suc n) =
     cstr_at b off \<bind> (\<lambda>s. map_option ((#) s) (read_strings b (off + length s + 1) n))"

definition report_names :: "bytes list" where
  "report_names = [str ''project'', str ''module'', str ''version'', str ''hash'']"

definition OnRecvUpdateModuleInfo :: "(rat \<Rightarrow> bytes) \<Rightarrow> bytes \<Rightarrow> bytes \<Rightarrow> out_msg list option" where
  "OnRecvUpdateModuleInfo fd pszResId pucData =
     (if length (filter (\<lambda>b. b = 0) pucData) < 4 then Some []
      else
        read_strings pucData 0 4 \<bind> (\<lambda>vs.
        let pObj = json_object (zip report_names (map JString vs) @ [(str ''rid'', JString pszResId)])
        in Some [(EN_MODULE_ID_KAFKA, EN_AO_MSG_SND2KAFKA, json_text fd (json_object [(str ''check_update'', pObj)]))]))"

definition OnRecvUpdateModuleResult :: "(rat \<Rightarrow> bytes) \<Rightarrow> bytes \<Rightarrow> bytes \<Rightarrow> out_msg list option" where
  "OnRecvUpdateModuleResult fd pszResId pucData =
     (if length (filter (\<lambda>b. b = 0) (drop 1 pucData)) < 4 then Some []
      else
        read_strings pucData 1 4 \<bind> (\<lambda>vs.
        let pObj = json_object (zip report_names (map JString vs) @ [(str ''rid'', JString pszResId),
               (str ''result'', JNumber (uint (pucData ! 0)) (of_int (uint (pucData ! 0))))])
        in Some [(EN_MODULE_ID_KAFKA, EN_AO_MSG_SND2KAFKA, json_text fd (json_object [(str ''update_result'', pObj)]))]))"

definition OnRecvUpdateModuleInfoResult :: "bytes \<Rightarrow> bytes \<Rightarrow> out_msg list" where
  "OnRecvUpdateModuleInfoResult pszChannelName pucData = [send_msg pszChannelName (aam EN_AODC_AODS_UMI pucData)]"

text \<open>Only a channel that has authenticated is listened to.\<close>

definition OnRecvAodsData :: "(rat \<Rightarrow> bytes) \<Rightarrow> update_module \<Rightarrow> bytes \<Rightarrow> bytes \<Rightarrow> (update_module \<times> out_msg list) option" where
  "OnRecvAodsData fd m pszChannelName d =
     (if length d < EN_AODS_AODC_MSG_SIZE then Some (m, [])
      else
        case sm_find (m_mapCuo m) pszChannelName of
          None \<Rightarrow> Some (m, [])
        | Some uo \<Rightarrow>
            rd32 d 0 \<bind> (\<lambda>msgcode.
            map_option (\<lambda>out. (m, out))
              (if msgcode = EN_AODS_AODC_UMI then OnRecvUpdateModuleInfo fd (uo_strResId uo) (drop EN_AODS_AODC_MSG_SIZE d)
               else if msgcode = EN_AODS_AODC_UDR then OnRecvUpdateModuleResult fd (uo_strResId uo) (drop EN_AODS_AODC_MSG_SIZE d)
               else Some [])))"

definition update_OnRecvChannelData ::
  "(rat \<Rightarrow> bytes) \<Rightarrow> update_module \<Rightarrow> bytes \<Rightarrow> (update_module \<times> out_msg list) option" where
  "update_OnRecvChannelData fd m msg =
     cstr_at msg 0 \<bind> (\<lambda>pszChannelName.
     let n = length pszChannelName + 1 in
     if length msg < n then Some (m, [])
     else if is_aods pszChannelName then OnRecvAodsData fd m pszChannelName (drop n msg)
     else Some (m, []))"

text \<open>The keep-alive timer, set to run for ever when the module starts.\<close>

definition update_OnTimer :: "update_module \<Rightarrow> u32 \<Rightarrow> out_msg list" where
  "update_OnTimer m unTimerID =
     (if unTimerID \<noteq> EN_TI_KEEPALIVE then []
      else map (\<lambda>(name, uo). send_msg name (aam EN_AODC_AODS_KEEPALIVE [])) (m_mapCuo m))"

text \<open>The message map.\<close>

definition update_handle ::
  "(rat \<Rightarrow> bytes) \<Rightarrow> (rat \<Rightarrow> rat) \<Rightarrow> (int \<Rightarrow> rat) \<Rightarrow> update_module \<Rightarrow> u32 \<times> bytes \<Rightarrow> (update_module \<times> out_msg list) option" where
  "update_handle fd rnd pow10 m = (\<lambda>(msgcode, msg).
     if msgcode = EN_AO_MSG_CHANNEL_RECV_DATA then update_OnRecvChannelData fd m msg
     else if msgcode = EN_AO_MSG_CHANNEL_SEND_DATA_FAIL then update_OnChannelFreed m msg
     else if msgcode = EN_AO_MSG_CHANNEL_FREED then update_OnChannelFreed m msg
     else if msgcode = EN_AO_MSG_AUTH_SUC then update_OnAuthSuc m msg
     else if msgcode = EN_AO_MSG_RCVFKAFKA then update_OnRecvFromKafka rnd pow10 m msg
     else Some (m, []))"

section \<open>Strings one behind the other\<close>

lemma read_strings_at:
  "\<forall>v\<in>set vs. nul_free v \<Longrightarrow> off = length a \<Longrightarrow> n = length vs \<Longrightarrow>
     read_strings (a @ concat (map cstr vs) @ r) off n = Some vs"
proof (induction vs arbitrary: a off n)
  case (Cons v vs)
  have "read_strings ((a @ cstr v) @ concat (map cstr vs) @ r) (off + length v + 1) (length vs) = Some vs"
    using Cons by (intro Cons.IH) simp_all
  with Cons.prems show ?case by (simp add: cstr_at_app)
qed simp

lemma read_strings_0:
  "\<forall>v\<in>set vs. nul_free v \<Longrightarrow> n = length vs \<Longrightarrow> read_strings (concat (map cstr vs) @ r) 0 n = Some vs"
  using read_strings_at [of vs 0 "[]" n r] by simp

end
