(* ===== verification/Aods_Download.thy ===== *)
theory Aods_Download
  imports Ao_FileControl Ao_Http
begin

text \<open>
  The download thread of the deployed service (\<open>aods/DownloadThread.cpp\<close>): each queued package is
  fetched over HTTP into a temporary file, deciphered, checked against the announced hash and
  reported to the update module. One pass over an item is modelled; the queue hands its items over
  in order under a lock, and the thread is the only one that takes them.

  Each of the three attempts meets the network and the disk as they are then: a function from the
  attempt to the network and the room on the disk.
\<close>

record DOWNLOAD_ITEM =
  strUrl :: bytes
  strPwd :: bytes
  strSaveFileName :: bytes
  strFileVer :: bytes
  strFileHash :: bytes
  strPrj :: bytes
  strModule :: bytes

text \<open>The result codes of \<open>AodsDef.h\<close>.\<close>

definition EN_DR_SUC :: u8 where "EN_DR_SUC = 0"
definition EN_DR_DFA :: u8 where "EN_DR_DFA = 1"
definition EN_DR_SFA :: u8 where "EN_DR_SFA = 2"
definition EN_DR_CFA :: u8 where "EN_DR_CFA = 3"
definition EN_DR_UFA :: u8 where "EN_DR_UFA = 4"
definition EN_DR_RFA :: u8 where "EN_DR_RFA = 5"

section \<open>Deciphering\<close>

text \<open>
  The loop of \<open>DecryptFile\<close> over what is left of the source: a buffer of \<open>nBufCap\<close> bytes at a time,
  each deciphered from the start of the key. The destination is another file, so writing it leaves
  the source alone.
\<close>

function decrypt_loop :: "ao_encrypt \<Rightarrow> nat \<Rightarrow> bytes \<Rightarrow> bytes" where
  "decrypt_loop ae nBufCap src =
     (let pszData = take nBufCap src in
      if 0 < length pszData then ae_decode ae pszData @ decrypt_loop ae nBufCap (drop nBufCap src)
      else [])"
  by pat_completeness auto
termination by (relation "measure (\<lambda>(ae, c, s). length s)") auto

declare decrypt_loop.simps [simp del]

text \<open>
  \<open>ae0\<close> is the cipher object before its constructor. \<open>SetKey\<close> copies 16 bytes from the password,
  its terminator included: a password of fewer than 15 characters is read past its end.
\<close>

definition DecryptFile :: "(bytes \<Rightarrow> bool) \<Rightarrow> ao_encrypt \<Rightarrow> file_store \<Rightarrow> bytes \<Rightarrow> bytes \<Rightarrow> bytes \<Rightarrow> file_store option" where
  "DecryptFile deny ae0 fs pszSrcFile pszDstFileName pszPwd =
     (let (fs, afDst, ok) = af_open deny fs pszDstFileName ModeWb in
      if \<not> ok then Some fs
      else
        let (fs, afSrc, ok) = af_open deny fs pszSrcFile ModeRb in
        if \<not> ok then Some fs
        else if length (cstr pszPwd) < EN_KEY_LEN then None
        else
          let ae = ae_set_key (\<lambda>i. cstr pszPwd ! i) 16 (ae_default ae0);
              out = decrypt_loop ae (length pszPwd * 200) (file_bytes fs pszSrcFile)
          in Some (fs(pszDstFileName \<mapsto> out)))"

section \<open>One item\<close>

record dl_state =
  dl_fs :: file_store
  dl_http :: CAoHttp
  dl_len :: u32
  dl_rlt :: u8

definition temp_name :: "DOWNLOAD_ITEM \<Rightarrow> bytes" where
  "temp_name di = strSaveFileName di @ str ''.temp''"

definition file_hash :: "u32 \<Rightarrow> u32 \<times> u32 \<times> u32 \<Rightarrow> bytes" where
  "file_hash unFileLen = (\<lambda>(unCrc1, unCrc2, unCrc3).
     fmt_08x unFileLen @ fmt_08x unCrc1 @ fmt_08x unCrc2 @ fmt_08x unCrc3)"

text \<open>One attempt, and whether it leaves the loop (\<open>break\<close>) or retries (\<open>continue\<close>).\<close>

definition dl_attempt ::
  "(bytes \<Rightarrow> bool) \<Rightarrow> ao_encrypt \<Rightarrow> network \<times> nat \<Rightarrow> DOWNLOAD_ITEM \<Rightarrow> dl_state \<Rightarrow> (dl_state \<times> bool) option" where
  "dl_attempt deny ae0 = (\<lambda>(net, disk) di s.
     let (fs, af, ok) = af_open deny (dl_fs s) (temp_name di) ModeWb in
     if \<not> ok then Some (s\<lparr>dl_fs := fs, dl_rlt := EN_DR_SFA\<rparr>, False)
     else
       HttpRun net (http_clear (dl_http s)) (Some (strUrl di)) EN_HTTP_METHOD_GET
         (Some \<lparr>written = [], room = disk\<rparr>) \<bind> (\<lambda>(err, h, out).
       let fs = fs(temp_name di \<mapsto> (case out of None \<Rightarrow> [] | Some w \<Rightarrow> written w)) in
       if err \<noteq> EN_NOERROR then Some (s\<lparr>dl_fs := fs, dl_http := h, dl_rlt := EN_DR_DFA\<rparr>, False)
       else
         DecryptFile deny ae0 fs (temp_name di) (strSaveFileName di) (strPwd di) \<bind> (\<lambda>fs.
         CalcFileCrc32_3 deny fs (strSaveFileName di) ((0, 0, 0), dl_len s) \<bind> (\<lambda>(_, crcs, len).
         if file_hash len crcs = strFileHash di
         then Some (s\<lparr>dl_fs := fs, dl_http := h, dl_len := len, dl_rlt := EN_DR_SUC\<rparr>, True)
         else Some (s\<lparr>dl_fs := fs(strSaveFileName di := None), dl_http := h, dl_len := len,
                dl_rlt := EN_DR_CFA\<rparr>, True)))))"

fun dl_retry ::
  "(bytes \<Rightarrow> bool) \<Rightarrow> ao_encrypt \<Rightarrow> (nat \<Rightarrow> network \<times> nat) \<Rightarrow> DOWNLOAD_ITEM \<Rightarrow> nat \<Rightarrow> nat \<Rightarrow> dl_state \<Rightarrow> dl_state option" where
  "dl_retry deny ae0 env di 0 i s = Some s"
| "dl_retry deny ae0 env di (Suc left) i s =
     dl_attempt deny ae0 (env i) di s \<bind> (\<lambda>(s, done).
     if done then Some s else dl_retry deny ae0 env di left (Suc i) s)"

text \<open>The result message is put together in an array of 5120 bytes.\<close>

definition result_fields :: "DOWNLOAD_ITEM \<Rightarrow> bytes list" where
  "result_fields di = [strPrj di, strModule di, strFileVer di, strFileHash di, strUrl di,
     strSaveFileName di, strPwd di]"

definition EN_RESULT_LEN :: nat where "EN_RESULT_LEN = 5120"

definition result_msg :: "u8 \<Rightarrow> DOWNLOAD_ITEM \<Rightarrow> bytes option" where
  "result_msg rlt di =
     (let m = rlt # concat (map cstr (result_fields di)) in
      if length m \<le> EN_RESULT_LEN then Some m else None)"

text \<open>The body of the loop over the items: the attempts, the temporary file removed, the message.\<close>

definition dl_item ::
  "(bytes \<Rightarrow> bool) \<Rightarrow> ao_encrypt \<Rightarrow> (nat \<Rightarrow> network \<times> nat) \<Rightarrow> DOWNLOAD_ITEM \<Rightarrow> dl_state \<Rightarrow> (dl_state \<times> bytes) option" where
  "dl_item deny ae0 env di s =
     dl_retry deny ae0 env di 3 0 s \<bind> (\<lambda>s.
     result_msg (dl_rlt s) di \<bind> (\<lambda>m. Some (s\<lparr>dl_fs := (dl_fs s)(temp_name di := None)\<rparr>, m)))"

section \<open>A published package is accepted\<close>

lemma decode_default: "ae_decode (ae_set_key k n (ae_default a)) bs = map (\<lambda>b. b - 10) bs"
proof -
  have "m_pucDeSkDict (ae_set_key k n (ae_default a)) = m_pucDeSkDict (ae_default a)"
    by (simp add: ae_set_key_def)
  then have "ae_decode (ae_set_key k n (ae_default a)) bs = map (\<lambda>b. b + (- 10)) bs"
    unfolding ae_decode_def by (intro ae_code_shift) (simp add: ae_default_entry_de)
  then show ?thesis by simp
qed

lemma decrypt_loop_default:
  "0 < cap \<Longrightarrow> decrypt_loop (ae_set_key k n (ae_default a)) cap src = map (\<lambda>b. b - 10) src"
proof (induction src rule: length_induct)
  case (1 src)
  show ?case
  proof (cases "src = []")
    case False
    with 1 have "decrypt_loop (ae_set_key k n (ae_default a)) cap (drop cap src) = map (\<lambda>b. b - 10) (drop cap src)"
      by (cases cap) (auto simp: length_Suc_conv)
    with False 1(2) show ?thesis
      by (subst decrypt_loop.simps) (simp add: decode_default map_append [symmetric] del: map_append)
  qed (simp add: decrypt_loop.simps)
qed

lemma DecryptFile_default:
  assumes "\<not> deny dst" "\<not> deny src" "src \<noteq> dst" "fs src = Some d" "15 \<le> length pwd"
  shows "DecryptFile deny ae0 fs src dst pwd = Some (fs(dst \<mapsto> map (\<lambda>b. b - 10) d))"
proof -
  have "0 < length pwd * 200" using assms(5) by linarith
  from decrypt_loop_default [OF this] show ?thesis
    using assms by (simp add: DecryptFile_def af_open_def EN_KEY_LEN_def file_bytes_def)
qed

text \<open>The hash the publisher announces for a package, and the package as the server holds it.\<close>

definition package_hash :: "bytes \<Rightarrow> bytes" where
  "package_hash pkg = file_hash (of_nat (length pkg)) (split_crcs (length pkg div 2) pkg)"

definition published :: "bytes \<Rightarrow> bytes" where
  "published pkg = map (\<lambda>b. b + 10) pkg"

lemma temp_ne: "temp_name di \<noteq> strSaveFileName di"
  by (simp add: temp_name_def str_def)

text \<open>
  One attempt that meets a server which delivers a file: the verdict compares the hash of the
  deciphered file with the announced one.
\<close>

lemma dl_attempt_delivered:
  assumes run: "HttpRun net (http_clear (dl_http s)) (Some (strUrl di)) EN_HTTP_METHOD_GET
      (Some \<lparr>written = [], room = disk\<rparr>) = Some (EN_NOERROR, h, Some w)"
    and names: "\<not> deny (temp_name di)" "\<not> deny (strSaveFileName di)"
    and pwd: "15 \<le> length (strPwd di)"
    and pkg: "written w = published pkg" "length pkg < 2 ^ 31"
  shows "dl_attempt deny ae0 (net, disk) di s =
     (let fs = (dl_fs s)(temp_name di \<mapsto> published pkg, strSaveFileName di \<mapsto> pkg) in
      if package_hash pkg = strFileHash di
      then Some (s\<lparr>dl_fs := fs, dl_http := h, dl_len := of_nat (length pkg), dl_rlt := EN_DR_SUC\<rparr>, True)
      else Some (s\<lparr>dl_fs := fs(strSaveFileName di := None), dl_http := h, dl_len := of_nat (length pkg),
             dl_rlt := EN_DR_CFA\<rparr>, True))"
proof -
  define fs1 where "fs1 = (dl_fs s)(temp_name di \<mapsto> published pkg)"
  have "map (\<lambda>b. b - 10) (published pkg) = pkg" by (simp add: published_def comp_def)
  then have dec: "DecryptFile deny ae0 fs1 (temp_name di) (strSaveFileName di) (strPwd di) =
      Some (fs1(strSaveFileName di \<mapsto> pkg))"
    using DecryptFile_default [of deny "strSaveFileName di" "temp_name di" fs1 "published pkg" "strPwd di" ae0]
      names pwd temp_ne [of di] by (simp add: fs1_def)
  have crc: "CalcFileCrc32_3 deny (fs1(strSaveFileName di \<mapsto> pkg)) (strSaveFileName di) refs =
      Some (True, split_crcs (length pkg div 2) pkg, of_nat (length pkg))" for refs
    using names pkg(2) by (intro CalcFileCrc32_3_eq) auto
  have op: "af_open deny (dl_fs s) (temp_name di) ModeWb =
      ((dl_fs s)(temp_name di \<mapsto> []), \<lparr>m_pFile = Some (temp_name di, 0)\<rparr>, True)"
    using names by (simp add: af_open_def)
  show ?thesis
    by (simp add: dl_attempt_def op run pkg(1) dec [unfolded fs1_def] crc [unfolded fs1_def]
        package_hash_def [symmetric] Let_def)
qed

text \<open>An attempt whose download fails leaves the saved file alone, and the next one is made.\<close>

lemma http_clear_const: "http_clear h = http_clear h'"
  by (simp add: http_clear_def)

definition fetch_fails :: "network \<times> nat \<Rightarrow> DOWNLOAD_ITEM \<Rightarrow> CAoHttp \<Rightarrow> bool" where
  "fetch_fails e di h \<longleftrightarrow>
     (case HttpRun (fst e) (http_clear h) (Some (strUrl di)) EN_HTTP_METHOD_GET (Some \<lparr>written = [], room = snd e\<rparr>) of
        None \<Rightarrow> False | Some (err, _, _) \<Rightarrow> err \<noteq> EN_NOERROR)"

lemma dl_attempt_fails:
  assumes "fetch_fails e di h" "\<not> deny (temp_name di)"
  shows "\<exists>s'. dl_attempt deny ae0 e di s = Some (s', False)"
proof -
  obtain net disk where e: "e = (net, disk)" by (cases e)
  obtain err h' out where run: "HttpRun net (http_clear (dl_http s)) (Some (strUrl di)) EN_HTTP_METHOD_GET
      (Some \<lparr>written = [], room = disk\<rparr>) = Some (err, h', out)" "err \<noteq> EN_NOERROR"
    using assms(1) unfolding fetch_fails_def e http_clear_const [of h "dl_http s"]
    by (auto split: option.splits)
  then show ?thesis
    using assms(2) by (simp add: dl_attempt_def e af_open_def Let_def)
qed

lemma dl_retry_reaches:
  assumes "\<And>j. i \<le> j \<Longrightarrow> j < i + n \<Longrightarrow> fetch_fails (env j) di h" "\<not> deny (temp_name di)"
    and "\<And>s. \<exists>s'. dl_attempt deny ae0 (env (i + n)) di s = Some (s', True) \<and> P s'"
  shows "\<exists>s'. dl_retry deny ae0 env di (Suc (n + k)) i s = Some s' \<and> P s'"
  using assms
proof (induction n arbitrary: i s)
  case 0
  from 0(3) [of s] show ?case by auto
next
  case (Suc n)
  obtain s1 where s1: "dl_attempt deny ae0 (env i) di s = Some (s1, False)"
    using dl_attempt_fails [of "env i" di h deny ae0 s] Suc.prems(1) [of i] Suc.prems(2) by auto
  have "\<exists>s'. dl_retry deny ae0 env di (Suc (n + k)) (Suc i) s1 = Some s' \<and> P s'"
    by (rule Suc.IH) (use Suc.prems in auto)
  with s1 show ?case by simp
qed

text \<open>The request goes out and the answer is read: what \<open>HttpRun\<close> makes of a well-formed one.\<close>

lemma HttpRun_serves:
  assumes "CrashUrl url = Some (Some (host, obj, port))" "length host \<le> 240"
    and "net host port = Some (\<lambda>req. (True, answer))"
    and "ReadData h answer (Some s) = Some (True, h', Some s')"
  shows "HttpRun net h (Some url) EN_HTTP_METHOD_GET (Some s) = Some (EN_NOERROR, h', Some s')"
  using assms by (simp add: HttpRun_def FormatRequest_def str_def Let_def)


definition demo_item :: DOWNLOAD_ITEM where
  "demo_item = \<lparr>strUrl = str ''http://h:8/p'', strPwd = replicate 16 49, strSaveFileName = str ''s'',
     strFileVer = str ''1'', strFileHash = package_hash [1, 2, 3], strPrj = str ''p'', strModule = str ''m''\<rparr>"

lemma demo_url: "CrashUrl (strUrl demo_item) = Some (Some ([104], [47, 112], 8))"
  by (simp add: demo_item_def str_def CrashUrl_def CrashHostName_def str_find_def str_find_of_def
      http_head_def https_head_def is_alnum_def is_alpha_def is_dig_def CrashPort_def scan_d_def
      scan_sign_def is_space_def digits_val_def)


end
