(* ===== verification/Aods_Update.thy ===== *)
theory Aods_Update
  imports Aodc_Protocol Aodc_Update Aods_Download
begin

text \<open>
  \<open>aods/UpdateModuleMgr.cpp\<close>: the deployed service keeps a table of the projects and modules it
  manages, announces their versions to the centre, queues the downloads the centre orders, and
  unpacks what was downloaded.

  What the module does to the world outside is a list of actions in their order: messages sent,
  directories made, commands run. \<open>sh\<close> is the shell: what a command makes of the files, and whether
  it returned 0. \<open>unz\<close> is the archive reader: the entries of a file that is an archive, and for each its
  name, whether it is a directory, the bytes it unpacks to and whether that succeeded, or that its
  header cannot be read (\<open>ZBad\<close>).
\<close>

section \<open>State\<close>

record MODULE_INFO =
  strFV :: bytes
  strFH :: bytes
  strWD :: bytes
  strCMD :: bytes

type_synonym pm_map = "MODULE_INFO std_map std_map"

text \<open>\<open>um_lstDi\<close> is the queue of the one download thread, \<open>um_timer\<close> whether the timer is set.\<close>

record update_mgr =
  m_mapPM :: pm_map
  m_unUpdateTimes :: u32
  um_lstDi :: "DOWNLOAD_ITEM list"
  um_timer :: bool

definition um_new :: update_mgr where
  "um_new = \<lparr>m_mapPM = [], m_unUpdateTimes = 0, um_lstDi = [], um_timer = False\<rparr>"

datatype os_act = OsSend out_msg | OsMkdirs "bytes list" | OsRun bytes
datatype zentry = ZBad | ZEntry bytes bool bytes bool

definition EN_AO_MSG_DOWNLOAD_RESULT :: u32 where "EN_AO_MSG_DOWNLOAD_RESULT = 0x201"
definition EN_REPORT_LEN :: nat where "EN_REPORT_LEN = 1024"
definition EN_MAX_PATH_LEN :: nat where "EN_MAX_PATH_LEN = 256"

text \<open>\<open>sprintf\<close> or \<open>strcat\<close> into an array of \<open>EN_MAX_PATH_LEN\<close> bytes.\<close>

definition path_of :: "bytes list \<Rightarrow> bytes option" where
  "path_of parts = (if length (concat parts) < EN_MAX_PATH_LEN then Some (concat parts) else None)"

section \<open>Reports to the centre\<close>

text \<open>The message is put together in an array of 1024 bytes on the stack.\<close>

definition Report2Aodc :: "u32 \<Rightarrow> bytes \<Rightarrow> out_msg option" where
  "Report2Aodc msgcode pucData =
     (if length (cstr aodc_client) + EN_AODS_AODC_MSG_SIZE + length pucData > EN_REPORT_LEN then None
      else Some (EN_MODULE_ID_COMMU, EN_AO_MSG_CHANNEL_SEND_DATA, cstr aodc_client @ aam msgcode pucData))"

definition SendUmi :: "bytes \<Rightarrow> bytes \<Rightarrow> bytes \<Rightarrow> bytes \<Rightarrow> out_msg option" where
  "SendUmi pszPrj pszModule pszFileVer pszFileHash =
     (let ucData = cstr pszPrj @ cstr pszModule @ cstr pszFileVer @ cstr pszFileHash in
      if length ucData > EN_REPORT_LEN then None else Report2Aodc EN_AODS_AODC_UMI ucData)"

section \<open>The table on disk\<close>

definition umi_file :: "bytes \<Rightarrow> bytes" where
  "umi_file szDir = szDir @ str ''/data/aodsumi.db''"

text \<open>\<open>GetJsonBufFromFile\<close> leaves the buffer without a terminator: \<open>junk\<close> is what lies behind it.\<close>

definition GetJsonBufFromFile :: "(bytes \<Rightarrow> bool) \<Rightarrow> bytes \<Rightarrow> file_store \<Rightarrow> bytes \<Rightarrow> bytes option" where
  "GetJsonBufFromFile deny junk fs pszFileName =
     (let (fs, af, ok) = af_open deny fs pszFileName ModeRb in
      if \<not> ok then None else Some (file_bytes fs pszFileName @ junk))"

definition string_member :: "cjson \<Rightarrow> bytes \<Rightarrow> bytes" where
  "string_member pModule name =
     (case get_object_item pModule name of Some (JString s) \<Rightarrow> s | _ \<Rightarrow> [])"

definition module_info :: "cjson \<Rightarrow> MODULE_INFO" where
  "module_info pModule = \<lparr>strFV = string_member pModule (str ''Version''),
     strFH = string_member pModule (str ''Hash''), strWD = string_member pModule (str ''WorkDir''),
     strCMD = string_member pModule (str ''Command'')\<rparr>"

text \<open>\<open>m_mapPM[prj][module] = mi\<close>\<close>

definition pm_put :: "bytes \<Rightarrow> bytes \<Rightarrow> MODULE_INFO \<Rightarrow> pm_map \<Rightarrow> pm_map" where
  "pm_put prj md mi pm =
     sm_set prj (sm_set md mi (case sm_find pm prj of None \<Rightarrow> [] | Some mm \<Rightarrow> mm)) pm"

text \<open>The two loops of \<open>StartUmiSyn\<close>. An item of an array has no name: a null pointer.\<close>

fun umi_modules :: "bytes option \<Rightarrow> (bytes option \<times> cjson) list \<Rightarrow> pm_map \<Rightarrow> (pm_map \<times> out_msg list) option" where
  "umi_modules prj [] pm = Some (pm, [])"
| "umi_modules prj ((md, pModule) # ms) pm =
     (case (prj, md) of
        (Some p, Some q) \<Rightarrow>
          (let mi = module_info pModule in
           SendUmi p q (strFV mi) (strFH mi) \<bind> (\<lambda>o1.
           umi_modules prj ms (pm_put p q mi pm) \<bind> (\<lambda>(pm, out). Some (pm, o1 # out))))
      | _ \<Rightarrow> None)"

fun umi_projects :: "(bytes option \<times> cjson) list \<Rightarrow> pm_map \<Rightarrow> (pm_map \<times> out_msg list) option" where
  "umi_projects [] pm = Some (pm, [])"
| "umi_projects ((prj, pPrj) # ps) pm =
     umi_modules prj (children pPrj) pm \<bind> (\<lambda>(pm, out1).
     umi_projects ps pm \<bind> (\<lambda>(pm, out2). Some (pm, out1 @ out2)))"

definition StartUmiSyn ::
  "(bytes \<Rightarrow> bool) \<Rightarrow> bytes \<Rightarrow> bytes \<Rightarrow> (rat \<Rightarrow> rat) \<Rightarrow> (int \<Rightarrow> rat) \<Rightarrow> file_store \<Rightarrow> update_mgr \<Rightarrow>
     (update_mgr \<times> out_msg list) option" where
  "StartUmiSyn deny junk szDir rnd pow10 fs m =
     path_of [umi_file szDir] \<bind> (\<lambda>szFile.
     case GetJsonBufFromFile deny junk fs szFile of
       None \<Rightarrow> Some (m, [])
     | Some pszJsonBuf \<Rightarrow>
         json_of rnd pow10 pszJsonBuf \<bind> (\<lambda>r.
         case r of
           None \<Rightarrow> Some (m, [])
         | Some pJson \<Rightarrow> umi_projects (children pJson) [] \<bind> (\<lambda>(pm, out). Some (m\<lparr>m_mapPM := pm\<rparr>, out))))"

definition module_json :: "MODULE_INFO \<Rightarrow> cjson" where
  "module_json mi = json_object [(str ''Hash'', JString (strFH mi)), (str ''Version'', JString (strFV mi)),
     (str ''WorkDir'', JString (strWD mi)), (str ''Command'', JString (strCMD mi))]"

definition cfg_json :: "pm_map \<Rightarrow> cjson" where
  "cfg_json pm = json_object (map (\<lambda>(prj, mm). (prj, json_object (map (\<lambda>(md, mi). (md, module_json mi)) mm))) pm)"

definition SaveCfg :: "(bytes \<Rightarrow> bool) \<Rightarrow> bytes \<Rightarrow> (rat \<Rightarrow> bytes) \<Rightarrow> file_store \<Rightarrow> pm_map \<Rightarrow> file_store option" where
  "SaveCfg deny szDir fd fs pm =
     path_of [umi_file szDir] \<bind> (\<lambda>szFile.
     let (fs, af, ok) = af_open deny fs szFile ModeWb in
     if ok then (let (fs, _, _) = af_write fs af (json_text fd (cfg_json pm)) in Some fs) else Some fs)"

section \<open>Messages\<close>

definition mgr_OnAuthSuc ::
  "(bytes \<Rightarrow> bool) \<Rightarrow> bytes \<Rightarrow> bytes \<Rightarrow> (rat \<Rightarrow> rat) \<Rightarrow> (int \<Rightarrow> rat) \<Rightarrow> file_store \<Rightarrow> update_mgr \<Rightarrow>
     (update_mgr \<times> out_msg list) option" where
  "mgr_OnAuthSuc deny junk szDir rnd pow10 fs m =
     map_option (\<lambda>(m, out). (m\<lparr>um_timer := True\<rparr>, out)) (StartUmiSyn deny junk szDir rnd pow10 fs m)"

definition mgr_OnTimer ::
  "(bytes \<Rightarrow> bool) \<Rightarrow> bytes \<Rightarrow> bytes \<Rightarrow> (rat \<Rightarrow> rat) \<Rightarrow> (int \<Rightarrow> rat) \<Rightarrow> file_store \<Rightarrow> update_mgr \<Rightarrow>
     (update_mgr \<times> out_msg list) option" where
  "mgr_OnTimer deny junk szDir rnd pow10 fs m = StartUmiSyn deny junk szDir rnd pow10 fs m"

definition mgr_OnChannelFreed :: "update_mgr \<Rightarrow> bytes \<Rightarrow> update_mgr option" where
  "mgr_OnChannelFreed m msg =
     map_option (\<lambda>same. if \<not> same then m else m\<lparr>um_timer := False\<rparr>) (same_str msg aodc_client)"

text \<open>With one thread the least loaded is that one. Its load counts what waits and what runs.\<close>

definition mgr_AppendDownloadTask :: "update_mgr \<Rightarrow> DOWNLOAD_ITEM \<Rightarrow> update_mgr" where
  "mgr_AppendDownloadTask m di = m\<lparr>um_lstDi := um_lstDi m @ [di]\<rparr>"

text \<open>
  \<open>OnRecvUmi\<close>: six strings and a byte. The guards leave with the state as it is (\<open>drop_it\<close>).
\<close>

definition OnRecvUmi :: "bytes \<Rightarrow> u32 \<Rightarrow> update_mgr \<Rightarrow> bytes \<Rightarrow> (update_mgr \<times> os_act list) option" where
  "OnRecvUmi szDir tick m pszMsg =
     (let drop_it = Some (m, []); unMsgLen = length pszMsg in
      if unMsgLen < 2 \<or> pszMsg ! (unMsgLen - 2) \<noteq> 0 then drop_it
      else
        cstr_at pszMsg 0 \<bind> (\<lambda>pszPrjName.
        case sm_find (m_mapPM m) pszPrjName of
          None \<Rightarrow> drop_it
        | Some mm \<Rightarrow>
            (let unOffset = length pszPrjName + 1 in
             if unOffset + 1 \<ge> unMsgLen then drop_it
             else
               cstr_at pszMsg unOffset \<bind> (\<lambda>pszModuleName.
               case sm_find mm pszModuleName of
                 None \<Rightarrow> drop_it
               | Some _ \<Rightarrow>
                   (let unOffset = unOffset + length pszModuleName + 1 in
                    if unOffset + 1 \<ge> unMsgLen then drop_it
                    else
                      cstr_at pszMsg unOffset \<bind> (\<lambda>pszFileVersion.
                      let unOffset = unOffset + length pszFileVersion + 1 in
                      if unOffset + 1 \<ge> unMsgLen then drop_it
                      else
                        cstr_at pszMsg unOffset \<bind> (\<lambda>pszFileHash.
                        let unOffset = unOffset + length pszFileHash + 1 in
                        if unOffset + 1 \<ge> unMsgLen then drop_it
                        else
                          cstr_at pszMsg unOffset \<bind> (\<lambda>pszDownloadUrl.
                          let unOffset = unOffset + length pszDownloadUrl + 1 in
                          if unOffset + 1 \<ge> unMsgLen then drop_it
                          else
                            cstr_at pszMsg unOffset \<bind> (\<lambda>pszPassword.
                            let unOffset = unOffset + length pszPassword + 1 in
                            if unOffset + 1 > unMsgLen then drop_it
                            else if pszMsg ! unOffset \<noteq> 1 then drop_it
                            else
                              path_of [szDir, str ''/pub''] \<bind> (\<lambda>pub.
                              path_of [pub, str ''/'', pszPrjName, str ''.'', pszModuleName, str ''.'',
                                pszFileVersion, str ''.'', dec (unat (m_unUpdateTimes m)), str ''.'',
                                dec (unat tick), str ''.zip''] \<bind> (\<lambda>szFileName.
                              Some (mgr_AppendDownloadTask (m\<lparr>m_unUpdateTimes := m_unUpdateTimes m + 1\<rparr>)
                                  \<lparr>strUrl = pszDownloadUrl, strPwd = pszPassword, strSaveFileName = szFileName,
                                   strFileVer = pszFileVersion, strFileHash = pszFileHash,
                                   strPrj = pszPrjName, strModule = pszModuleName\<rparr>,
                                [OsMkdirs (CreateDirs pub)]))))))))))))"

definition mgr_OnRecvChannelData :: "bytes \<Rightarrow> u32 \<Rightarrow> update_mgr \<Rightarrow> bytes \<Rightarrow> (update_mgr \<times> os_act list) option" where
  "mgr_OnRecvChannelData szDir tick m msg =
     same_str msg aodc_client \<bind> (\<lambda>same.
     let unChannelNameLen = length aodc_client + 1 in
     if \<not> same \<or> length msg < unChannelNameLen + EN_AODS_AODC_MSG_SIZE then Some (m, [])
     else
       rd32 msg unChannelNameLen \<bind> (\<lambda>msgcode.
       if msgcode = EN_AODC_AODS_UMI then OnRecvUmi szDir tick m (drop (unChannelNameLen + EN_AODS_AODC_MSG_SIZE) msg)
       else Some (m, [])))"

section \<open>Unpacking\<close>

definition RunCmd :: "(bytes \<Rightarrow> file_store \<Rightarrow> file_store \<times> bool) \<Rightarrow> file_store \<Rightarrow> bytes \<Rightarrow> file_store \<times> bool" where
  "RunCmd sh fs pszCmd = (if pszCmd = [] then (fs, True) else sh pszCmd fs)"

definition CutFile_cmd :: "bytes \<Rightarrow> bytes \<Rightarrow> bytes option" where
  "CutFile_cmd pszSrc pszDest =
     path_of [standard_path (str ''/'') pszSrc] \<bind> (\<lambda>szSrcPath.
     path_of [standard_path (str ''/'') pszDest] \<bind> (\<lambda>szDestPath.
     Some (str ''mv -f '' @ [34] @ szSrcPath @ [34, 32, 34] @ szDestPath @ [34])))"

definition CreateFileDir :: "bytes \<Rightarrow> bytes list option" where
  "CreateFileDir pszFilePath = map_option (\<lambda>(szPath, szFileName). CreateDirs szPath) (Split pszFilePath)"

text \<open>The suffix from the last dot of the last component, but not at the first character.\<close>

fun file_ext :: "bytes \<Rightarrow> nat \<Rightarrow> bytes option" where
  "file_ext s 0 = None"
| "file_ext s (Suc m) =
     (if s ! Suc m = 46 then Some (drop (Suc m) s)
      else if s ! Suc m = 47 then None else file_ext s m)"

definition runnable :: "bytes \<Rightarrow> bool" where
  "runnable szStandFile =
     (case file_ext szStandFile (length szStandFile - 1) of
        None \<Rightarrow> True
      | Some e \<Rightarrow> e \<in> {str ''.so'', str ''.lib'', str ''.exe'', str ''.sh''})"

text \<open>One entry: the files after it, what was done, and a result code when the loop is left.\<close>

definition unzip_file ::
  "(bytes \<Rightarrow> bool) \<Rightarrow> (bytes \<Rightarrow> file_store \<Rightarrow> file_store \<times> bool) \<Rightarrow> file_store \<Rightarrow> bytes \<Rightarrow> bytes \<Rightarrow> bytes \<Rightarrow> bool \<Rightarrow>
     (file_store \<times> os_act list \<times> u8 option) option" where
  "unzip_file deny sh fs szStandFile szBakFile d ok =
     CreateFileDir szBakFile \<bind> (\<lambda>bakdirs.
     (let (fs, af, there) = af_open deny fs szStandFile ModeRb in
      if there
      then map_option (\<lambda>cmd. (fst (RunCmd sh fs cmd), [OsRun cmd])) (CutFile_cmd szStandFile szBakFile)
      else Some (fs, [])) \<bind> (\<lambda>(fs, cut).
     CreateFileDir szStandFile \<bind> (\<lambda>dirs.
     let acts = [OsMkdirs bakdirs] @ cut @ [OsMkdirs dirs];
         (fs, af, opened) = af_open deny fs szStandFile ModeWb
     in if \<not> opened then Some (fs, acts, Some EN_DR_UFA)
        else
          let (fs, _, _) = af_write fs af d in
          if \<not> ok then Some (fs, acts, Some EN_DR_UFA)
          else if runnable szStandFile
          then path_of [str ''chmod +x '', szStandFile] \<bind> (\<lambda>szFile.
                 Some (fst (RunCmd sh fs szFile), acts @ [OsRun szFile], None))
          else Some (fs, acts, None))))"

definition unzip_entry ::
  "(bytes \<Rightarrow> bool) \<Rightarrow> (bytes \<Rightarrow> file_store \<Rightarrow> file_store \<times> bool) \<Rightarrow> bytes \<Rightarrow> bytes \<Rightarrow> bytes \<Rightarrow> zentry \<Rightarrow> file_store \<Rightarrow>
     (file_store \<times> os_act list \<times> u8 option) option" where
  "unzip_entry deny sh szDir pszPrj pszModule z fs =
     (case z of
        ZBad \<Rightarrow> Some (fs, [], Some EN_DR_SUC)
      | ZEntry name isdir d ok \<Rightarrow>
          if length name \<ge> EN_MAX_PATH_LEN then None
          else
            path_of [szDir, str ''/'', name] \<bind> (\<lambda>szFile.
            path_of [standard_path (str ''/'') szFile] \<bind> (\<lambda>szStandFile.
            if isdir then Some (fs, [OsMkdirs (CreateDirs szStandFile)], None)
            else
              path_of [szDir, str ''/bak/'', pszPrj, str ''/'', pszModule, str ''/'', name] \<bind> (\<lambda>szBakFile.
              unzip_file deny sh fs szStandFile szBakFile d ok))))"

text \<open>The loop over the entries. An archive without entries has no header to read either.\<close>

fun unzip_all ::
  "(bytes \<Rightarrow> bool) \<Rightarrow> (bytes \<Rightarrow> file_store \<Rightarrow> file_store \<times> bool) \<Rightarrow> bytes \<Rightarrow> bytes \<Rightarrow> bytes \<Rightarrow> zentry list \<Rightarrow> file_store \<Rightarrow>
     (file_store \<times> os_act list \<times> u8) option" where
  "unzip_all deny sh szDir pszPrj pszModule [] fs = Some (fs, [], EN_DR_SUC)"
| "unzip_all deny sh szDir pszPrj pszModule (z # zs) fs =
     unzip_entry deny sh szDir pszPrj pszModule z fs \<bind> (\<lambda>(fs, acts, stop).
     case stop of
       Some rlt \<Rightarrow> Some (fs, acts, rlt)
     | None \<Rightarrow> unzip_all deny sh szDir pszPrj pszModule zs fs \<bind> (\<lambda>(fs, acts', rlt). Some (fs, acts @ acts', rlt)))"

definition pm_record :: "bytes \<Rightarrow> bytes \<Rightarrow> bytes \<Rightarrow> bytes \<Rightarrow> pm_map \<Rightarrow> pm_map" where
  "pm_record prj md ver hsh pm =
     (case sm_find pm prj of
        None \<Rightarrow> pm
      | Some mm \<Rightarrow> (case sm_find mm md of
            None \<Rightarrow> pm
          | Some mi \<Rightarrow> sm_set prj (sm_set md (mi\<lparr>strFH := hsh, strFV := ver\<rparr>) mm) pm))"

definition report_act :: "u8 \<Rightarrow> bytes \<Rightarrow> os_act option" where
  "report_act ucRlt msg = map_option OsSend (Report2Aodc EN_AODS_AODC_UDR (ucRlt # drop 1 msg))"

text \<open>
  What follows the unpacking with result code \<open>rlt\<close>: the restart command of the module, the new
  version in the table and on disk, and the report. The service's own modules are recorded and
  reported before the command, which ends the service.
\<close>

definition finish_update ::
  "(bytes \<Rightarrow> bool) \<Rightarrow> (bytes \<Rightarrow> file_store \<Rightarrow> file_store \<times> bool) \<Rightarrow> bytes \<Rightarrow> (rat \<Rightarrow> bytes) \<Rightarrow>
     bytes \<Rightarrow> bytes \<Rightarrow> bytes \<Rightarrow> bytes \<Rightarrow> bytes \<Rightarrow> bytes \<Rightarrow> u8 \<Rightarrow> file_store \<Rightarrow> update_mgr \<Rightarrow>
     (file_store \<times> update_mgr \<times> os_act list) option" where
  "finish_update deny sh dir fd cmd prj md ver hsh msg rlt fs m =
     (let m' = m\<lparr>m_mapPM := pm_record prj md ver hsh (m_mapPM m)\<rparr> in
      if cmd \<noteq> [] \<and> rlt = EN_DR_SUC \<and> prj = str ''aods'' \<and> find_sub (str ''aods-'') md \<noteq> None
      then
        SaveCfg deny dir fd fs (m_mapPM m') \<bind> (\<lambda>fs.
        report_act rlt msg \<bind> (\<lambda>rep.
        Some (fst (RunCmd sh fs cmd), m', [rep, OsRun cmd])))
      else
        let (fs, rlt, acts) =
              (if cmd \<noteq> [] \<and> rlt = EN_DR_SUC
               then (let (fs, ok) = RunCmd sh fs cmd in (fs, if ok then EN_DR_SUC else EN_DR_RFA, [OsRun cmd]))
               else (fs, rlt, []))
        in if rlt = EN_DR_SUC \<or> rlt = EN_DR_RFA
           then SaveCfg deny dir fd fs (m_mapPM m') \<bind> (\<lambda>fs.
                map_option (\<lambda>rep. (fs, m', acts @ [rep])) (report_act rlt msg))
           else map_option (\<lambda>rep. (fs, m, acts @ [rep])) (report_act rlt msg))"

definition work_dir :: "bytes \<Rightarrow> MODULE_INFO \<Rightarrow> bytes option" where
  "work_dir szAppPath mi =
     (if strWD mi = [] \<or> hd (strWD mi) \<noteq> 47 then path_of [szAppPath, str ''/'', strWD mi]
      else path_of [strWD mi])"

text \<open>A failed download is reported as it is; an archive that does not open is not reported.\<close>

definition OnDownloadResult ::
  "(bytes \<Rightarrow> bool) \<Rightarrow> (bytes \<Rightarrow> file_store \<Rightarrow> file_store \<times> bool) \<Rightarrow> (bytes \<Rightarrow> zentry list option) \<Rightarrow> bytes \<Rightarrow>
     (rat \<Rightarrow> bytes) \<Rightarrow> file_store \<Rightarrow> update_mgr \<Rightarrow> bytes \<Rightarrow> (file_store \<times> update_mgr \<times> os_act list) option" where
  "OnDownloadResult deny sh unz dir fd fs m msg =
     (case msg of
        [] \<Rightarrow> None
      | ucRlt # szBuf \<Rightarrow>
          read_strings szBuf 0 6 \<bind> (\<lambda>vs.
          let prj = vs ! 0; md = vs ! 1; ver = vs ! 2; hsh = vs ! 3; pszSaveFile = vs ! 5 in
          if ucRlt \<noteq> EN_DR_SUC
          then map_option (\<lambda>o1. (fs, m, [OsSend o1])) (Report2Aodc EN_AODS_AODC_UDR msg)
          else
            case sm_find (m_mapPM m) prj of
              None \<Rightarrow> Some (fs, m, [])
            | Some mm \<Rightarrow>
                (case sm_find mm md of
                   None \<Rightarrow> Some (fs, m, [])
                 | Some mi \<Rightarrow>
                     (case (if deny pszSaveFile then None else fs pszSaveFile) \<bind> unz of
                        None \<Rightarrow> Some (fs, m, [])
                      | Some zs \<Rightarrow>
                          work_dir dir mi \<bind> (\<lambda>szDir.
                          unzip_all deny sh szDir prj md zs fs \<bind> (\<lambda>(fs, acts, rlt).
                          map_option (\<lambda>(fs, m, acts'). (fs, m, acts @ acts'))
                            (finish_update deny sh dir fd (strCMD mi) prj md ver hsh msg rlt
                               (fs(pszSaveFile := None)) m)))))))"

text \<open>The message map.\<close>

definition mgr_handle ::
  "(bytes \<Rightarrow> bool) \<Rightarrow> (bytes \<Rightarrow> file_store \<Rightarrow> file_store \<times> bool) \<Rightarrow> (bytes \<Rightarrow> zentry list option) \<Rightarrow> bytes \<Rightarrow> bytes \<Rightarrow>
     (rat \<Rightarrow> bytes) \<Rightarrow> (rat \<Rightarrow> rat) \<Rightarrow> (int \<Rightarrow> rat) \<Rightarrow> u32 \<Rightarrow> file_store \<times> update_mgr \<Rightarrow> u32 \<times> bytes \<Rightarrow>
     ((file_store \<times> update_mgr) \<times> os_act list) option" where
  "mgr_handle deny sh unz junk dir fd rnd pow10 tick = (\<lambda>(fs, m) (msgcode, msg).
     if msgcode = EN_AO_MSG_AUTHEN_SUC
     then map_option (\<lambda>(m, out). ((fs, m), map OsSend out)) (mgr_OnAuthSuc deny junk dir rnd pow10 fs m)
     else if msgcode = EN_AO_MSG_CHANNEL_FREED then map_option (\<lambda>m. ((fs, m), [])) (mgr_OnChannelFreed m msg)
     else if msgcode = EN_AO_MSG_CHANNEL_RECV_DATA
     then map_option (\<lambda>(m, acts). ((fs, m), acts)) (mgr_OnRecvChannelData dir tick m msg)
     else if msgcode = EN_AO_MSG_DOWNLOAD_RESULT
     then map_option (\<lambda>(fs, m, acts). ((fs, m), acts)) (OnDownloadResult deny sh unz dir fd fs m msg)
     else Some ((fs, m), []))"

section \<open>The table survives a restart\<close>

definition info_ok :: "MODULE_INFO \<Rightarrow> bool" where
  "info_ok mi \<longleftrightarrow> nul_free (strFV mi) \<and> nul_free (strFH mi) \<and> nul_free (strWD mi) \<and> nul_free (strCMD mi)"

definition umi_len :: "bytes \<Rightarrow> bytes \<Rightarrow> MODULE_INFO \<Rightarrow> nat" where
  "umi_len prj md mi = length prj + length md + length (strFV mi) + length (strFH mi) + 4"

definition mm_ok :: "bytes \<Rightarrow> MODULE_INFO std_map \<Rightarrow> bool" where
  "mm_ok prj mm \<longleftrightarrow> nul_free prj \<and> mm \<noteq> [] \<and> sm_ok mm \<and>
     (\<forall>(md, mi)\<in>set mm. nul_free md \<and> info_ok mi \<and> umi_len prj md mi \<le> 1009)"

definition pm_ok :: "pm_map \<Rightarrow> bool" where
  "pm_ok pm \<longleftrightarrow> sm_ok pm \<and> (\<forall>(prj, mm)\<in>set pm. mm_ok prj mm)"

text \<open>What is announced of a table.\<close>

definition umi_message :: "bytes \<Rightarrow> bytes \<times> MODULE_INFO \<Rightarrow> out_msg" where
  "umi_message prj = (\<lambda>(md, mi). (EN_MODULE_ID_COMMU, EN_AO_MSG_CHANNEL_SEND_DATA,
     cstr aodc_client @ aam EN_AODS_AODC_UMI (cstr prj @ cstr md @ cstr (strFV mi) @ cstr (strFH mi))))"

definition announced :: "pm_map \<Rightarrow> out_msg list" where
  "announced pm = concat (map (\<lambda>(prj, mm). map (umi_message prj) mm) pm)"

lemma SendUmi_ok: "umi_len prj md mi \<le> 1009 \<Longrightarrow> SendUmi prj md (strFV mi) (strFH mi) = Some (umi_message prj (md, mi))"
  by (simp add: SendUmi_def Report2Aodc_def umi_len_def EN_REPORT_LEN_def len_defs umi_message_def)

lemma module_info_json: "module_info (module_json mi) = mi"
  by (simp add: module_info_def module_json_def json_object_eq string_member_def same_name_def c_tolower_def str_def)

text \<open>Reading the modules of a project back in their order puts each at the end.\<close>

lemma umi_modules_ok:
  assumes "sm_ok (done @ mm)" and "\<forall>(md, mi)\<in>set mm. umi_len prj md mi \<le> 1009"
    and "\<forall>q\<in>set pm. bytes_less (fst q) prj"
  shows "umi_modules (Some prj) (map (\<lambda>(md, mi). (Some md, module_json mi)) mm)
     (if done = [] then pm else pm @ [(prj, done)]) =
     Some (if done @ mm = [] then pm else pm @ [(prj, done @ mm)], map (umi_message prj) mm)"
  using assms(1,2)
proof (induction mm arbitrary: "done")
  case (Cons p mm)
  obtain md mi where p: "p = (md, mi)" by fastforce
  have "\<forall>q\<in>set done. bytes_less (fst q) md" using Cons.prems(1) by (auto simp: sm_ok_def sorted_wrt_append p)
  then have last: "sm_set md mi done = done @ [(md, mi)]" by (rule sm_set_last)
  have out: "map_of pm prj = None" using assms(3) by (force simp: map_of_eq_None_iff)
  have same: "sm_set prj v (pm @ [(prj, w)]) = pm @ [(prj, v)]" for v w
    using assms(3)
    by (induction pm) (fastforce dest: bytes_less_trans)+
  have "pm_put prj md mi (if done = [] then pm else pm @ [(prj, done)]) = pm @ [(prj, done @ [(md, mi)])]"
    using last out same sm_set_last [OF assms(3)]
    by (cases "done = []") (simp_all add: pm_put_def sm_find_def map_add_def)
  with Cons.IH [of "done @ [p]"] Cons.prems show ?case
    by (simp add: p module_info_json SendUmi_ok)
qed simp

lemma umi_projects_ok:
  assumes "sm_ok (pm @ ps)" and "\<forall>(prj, mm)\<in>set ps. mm_ok prj mm"
  shows "umi_projects (map (\<lambda>(prj, mm). (Some prj, json_object (map (\<lambda>(md, mi). (md, module_json mi)) mm))) ps) pm =
     Some (pm @ ps, announced ps)"
  using assms
proof (induction ps arbitrary: pm)
  case (Cons p ps)
  obtain prj mm where p: "p = (prj, mm)" by fastforce
  have mm: "mm_ok prj mm" using Cons.prems(2) p by simp
  have lt: "\<forall>q\<in>set pm. bytes_less (fst q) prj" using Cons.prems(1) by (auto simp: sm_ok_def sorted_wrt_append p)
  have ch: "children (json_object (map (\<lambda>(md, mi). (md, module_json mi)) mm)) =
      map (\<lambda>(md, mi). (Some md, module_json mi)) mm"
    by (simp add: json_object_eq case_prod_unfold comp_def)
  have "umi_modules (Some prj) (map (\<lambda>(md, mi). (Some md, module_json mi)) mm) pm =
      Some (pm @ [(prj, mm)], map (umi_message prj) mm)"
    using umi_modules_ok [of "[]" mm prj pm] mm lt by (simp add: mm_ok_def case_prod_unfold)
  with Cons.IH [of "pm @ [p]"] Cons.prems show ?case
    by (simp add: p ch announced_def)
qed (simp add: announced_def)

lemma cfg_json_ok: "pm_ok pm \<Longrightarrow> json_ok (cfg_json pm)"
  by (auto simp: pm_ok_def cfg_json_def json_object_eq mm_ok_def info_ok_def module_json_def str_def
      case_prod_unfold)

text \<open>C16: the table of managed modules survives a restart. What \<open>SaveCfg\<close> writes, \<open>StartUmiSyn\<close> reads
  back as the same table, whatever lies behind the unterminated buffer it reads the file into, and
  announces every module of it to the centre with its version and hash, in the order of the table.\<close>

theorem config_restored:
  assumes "pm_ok pm" and "exact_ints rnd pow10" and "\<not> deny (umi_file dir)" and "length (umi_file dir) \<le> 255"
  shows "\<exists>fs'. SaveCfg deny dir fd fs pm = Some fs' \<and>
     StartUmiSyn deny junk dir rnd pow10 fs' m = Some (m\<lparr>m_mapPM := pm\<rparr>, announced pm)"
proof -
  obtain kvs where kvs: "cfg_json pm = JObject kvs" by (simp add: cfg_json_def json_object_eq)
  define fs' where "fs' = fs(umi_file dir \<mapsto> json_text fd (cfg_json pm))"
  have "SaveCfg deny dir fd fs pm = Some fs'"
    using assms(3,4) by (simp add: SaveCfg_def path_of_def EN_MAX_PATH_LEN_def af_open_def af_write_def file_bytes_def fs'_def)
  moreover have "GetJsonBufFromFile deny junk fs' (umi_file dir) = Some (json_text fd (cfg_json pm) @ junk)"
    using assms(3) by (simp add: GetJsonBufFromFile_def af_open_def file_bytes_def fs'_def)
  moreover have "json_of rnd pow10 (json_text fd (cfg_json pm) @ junk) = Some (Some (cfg_json pm))"
    using json_of_object_text [OF assms(2), of kvs] cfg_json_ok [OF assms(1)] kvs by simp
  moreover have "umi_projects (children (cfg_json pm)) [] = Some (pm, announced pm)"
    using umi_projects_ok [of "[]" pm] assms(1)
    by (simp add: cfg_json_def json_object_eq [of "map _ pm"] pm_ok_def case_prod_unfold comp_def)
  ultimately show ?thesis
    using assms(4) by (simp add: StartUmiSyn_def path_of_def EN_MAX_PATH_LEN_def)
qed

definition demo_info :: MODULE_INFO where
  "demo_info = \<lparr>strFV = [49], strFH = [50], strWD = [], strCMD = [51]\<rparr>"

theorem config_restored_witness:
  "\<exists>fs'. SaveCfg (\<lambda>f. False) [46] (\<lambda>q. []) Map.empty [([65], [([66], demo_info), ([67], demo_info)])] = Some fs' \<and>
     StartUmiSyn (\<lambda>f. False) [55, 0] [46] (\<lambda>q. q) (\<lambda>e. 10 powi e) fs' um_new =
       Some (um_new\<lparr>m_mapPM := [([65], [([66], demo_info), ([67], demo_info)])]\<rparr>,
         announced [([65], [([66], demo_info), ([67], demo_info)])])"
  by (rule config_restored)
    (simp_all add: pm_ok_def mm_ok_def sm_ok_def info_ok_def umi_len_def demo_info_def exact_ints_def umi_file_def str_def)

section \<open>An instruction reaches the download queue\<close>

lemma put_fields_ok:
  "map (member_string u) names = map Some vs \<Longrightarrow> EN_AODS_AODC_MSG_SIZE + length (acc @ concat (map cstr vs)) \<le> EN_UMI_BUF_LEN \<Longrightarrow>
     put_fields u names acc = Some (acc @ concat (map cstr vs))"
proof (induction u names acc arbitrary: vs rule: put_fields.induct)
  case (2 u name names acc)
  then obtain v vs' where vs: "vs = v # vs'" "member_string u name = Some v" by (cases vs) auto
  with "2.prems" "2.IH" [of v vs'] show ?case by simp
qed simp

definition umi_item :: "bytes list \<Rightarrow> bytes \<Rightarrow> DOWNLOAD_ITEM" where
  "umi_item vs file = \<lparr>strUrl = vs ! 4, strPwd = vs ! 5, strSaveFileName = file, strFileVer = vs ! 2,
     strFileHash = vs ! 3, strPrj = vs ! 0, strModule = vs ! 1\<rparr>"

definition package_file :: "bytes \<Rightarrow> u32 \<Rightarrow> u32 \<Rightarrow> bytes list \<Rightarrow> bytes" where
  "package_file dir cnt tick vs = dir @ str ''/pub/'' @ vs ! 0 @ str ''.'' @ vs ! 1 @ str ''.'' @ vs ! 2 @ str ''.'' @
     dec (unat cnt) @ str ''.'' @ dec (unat tick) @ str ''.zip''"

lemma six: "length vs = 6 \<Longrightarrow> \<exists>a b c d e f. vs = [a, b, c, d, e, f]"
  by (auto simp: length_Suc_conv eval_nat_numeral)

lemma OnRecvUmi_ok:
  assumes vs: "length vs = 6" "\<forall>v\<in>set vs. nul_free v"
    and pm: "sm_find (m_mapPM m) (vs ! 0) = Some mm" "sm_find mm (vs ! 1) = Some mi"
    and f: "length (package_file dir (m_unUpdateTimes m) tick vs) < 256"
  shows "OnRecvUmi dir tick m (concat (map cstr vs) @ [1]) =
     Some (m\<lparr>m_unUpdateTimes := m_unUpdateTimes m + 1,
          um_lstDi := um_lstDi m @ [umi_item vs (package_file dir (m_unUpdateTimes m) tick vs)]\<rparr>,
       [OsMkdirs (CreateDirs (dir @ str ''/pub''))])"
proof -
  obtain v0 v1 v2 v3 v4 v5 where v: "vs = [v0, v1, v2, v3, v4, v5]" using six [OF vs(1)] by blast
  let ?d = "concat (map cstr vs) @ [1]"
  have n: "nul_free v0" "nul_free v1" "nul_free v2" "nul_free v3" "nul_free v4" "nul_free v5"
    using vs(2) by (simp_all add: v)
  note at = cstr_at_app [OF refl]
  have c: "cstr_at ?d 0 = Some v0" "cstr_at ?d (length v0 + 1) = Some v1"
    "cstr_at ?d (length v0 + 1 + length v1 + 1) = Some v2"
    "cstr_at ?d (length v0 + 1 + length v1 + 1 + length v2 + 1) = Some v3"
    "cstr_at ?d (length v0 + 1 + length v1 + 1 + length v2 + 1 + length v3 + 1) = Some v4"
    "cstr_at ?d (length v0 + 1 + length v1 + 1 + length v2 + 1 + length v3 + 1 + length v4 + 1) = Some v5"
    using at [OF n(1), of "[]"] at [OF n(2), of "cstr v0"] at [OF n(3), of "cstr v0 @ cstr v1"]
      at [OF n(4), of "cstr v0 @ cstr v1 @ cstr v2"] at [OF n(5), of "cstr v0 @ cstr v1 @ cstr v2 @ cstr v3"]
      at [OF n(6), of "cstr v0 @ cstr v1 @ cstr v2 @ cstr v3 @ cstr v4"]
    by (simp_all add: v add.assoc)
  define L where "L = length v0 + 1 + length v1 + 1 + length v2 + 1 + length v3 + 1 + length v4 + 1 + length v5 + 1"
  have len: "length ?d = L + 1" by (simp add: v L_def)
  have z: "?d ! (L - 1) = 0"
  proof -
    have "?d = (cstr v0 @ cstr v1 @ cstr v2 @ cstr v3 @ cstr v4 @ v5) @ 0 # [1]" by (simp add: v cstr_def)
    then show ?thesis by (simp only: nth_append) (simp add: L_def)
  qed
  have one: "?d ! L = 1" using len nth_append_length [of "concat (map cstr vs)" 1 "[]"] by simp
  have p: "path_of [dir, str ''/pub''] = Some (dir @ str ''/pub'')"
    using f by (simp add: path_of_def EN_MAX_PATH_LEN_def package_file_def str_def)
  have q: "path_of [dir @ str ''/pub'', str ''/'', v0, str ''.'', v1, str ''.'', v2, str ''.'',
      dec (unat (m_unUpdateTimes m)), str ''.'', dec (unat tick), str ''.zip''] =
      Some (package_file dir (m_unUpdateTimes m) tick vs)"
    using f by (simp add: path_of_def EN_MAX_PATH_LEN_def package_file_def v str_def)
  have g: "\<not> (length ?d < 2 \<or> ?d ! (length ?d - 2) \<noteq> 0)"
  proof -
    have "1 \<le> L" by (simp add: L_def)
    then have "length ?d - 2 = L - 1" "\<not> length ?d < 2" using len by linarith+
    with z show ?thesis by (simp only: simp_thms)
  qed
  have i: "sm_find (m_mapPM m) v0 = Some mm" "sm_find mm v1 = Some mi" using pm by (simp_all add: v)
  have one': "?d ! (length v0 + 1 + length v1 + 1 + length v2 + 1 + length v3 + 1 + length v4 + 1 + length v5 + 1) = 1"
    using one by (simp add: L_def)
  show ?thesis
    unfolding OnRecvUmi_def Let_def if_not_P [OF g]
    unfolding len c bind.bind_lunit i option.case one' p q
    by (simp add: L_def mgr_AppendDownloadTask_def umi_item_def v)
qed


definition demo_mgr :: update_mgr where
  "demo_mgr = um_new\<lparr>m_mapPM := [([65], [([66], demo_info), ([67], demo_info)])]\<rparr>"

definition demo_update :: cjson where
  "demo_update = JObject (zip umi_fields (map JString [[65], [66], [50], [51], [104], [112]]) @
     [(str ''rid'', JString [48]), (str ''force'', JNumber 1 1)])"

definition demo_centre :: update_module where
  "demo_centre = update_new\<lparr>m_mapRuo := [([48], \<lparr>uo_strChannelName = demo_channel, uo_strResId = [48]\<rparr>)]\<rparr>"

lemma demo_update_members:
  "map (member_string demo_update) umi_fields = map Some [[65], [66], [50], [51], [104], [112]]"
  "member_string demo_update (str ''rid'') = Some [48]" "member_int demo_update (str ''force'') = Some 1"
  by (simp_all add: demo_update_def umi_fields_def json_access)

lemma demo_update_answer:
  "answers (\<lambda>q. q) (\<lambda>e. 10 powi e) (json_text (\<lambda>q. []) (JObject [(str ''update'', demo_update)])) (str ''update'') demo_update"
proof -
  have "json_ok (JObject [(str ''update'', demo_update)])"
    by (simp add: demo_update_def umi_fields_def number_ok_def str_def)
  from json_of_text(1) [OF _ this, of "\<lambda>q. q" "\<lambda>e. 10 powi e" "\<lambda>q. []"] show ?thesis
    by (simp add: answers_def exact_ints_def)
qed


section \<open>Results\<close>

lemma unzip_all_cut:
  "unzip_all deny sh szDir prj md zs fs = unzip_all deny sh szDir prj md (takeWhile (\<lambda>z. z \<noteq> ZBad) zs) fs"
proof (induction zs arbitrary: fs)
  case (Cons z zs)
  show ?case
  proof (cases "z = ZBad")
    case False
    then show ?thesis using Cons.IH by (simp cong: Option.bind_cong option.case_cong)
  qed (simp add: unzip_entry_def)
qed simp

text \<open>A damaged package counts as a complete one. At the first entry whose header cannot be read
  the loop is left with the result still "success": files, commands, table and report are those of
  a package that ends there, so a package whose first header is unreadable is recorded and reported
  as the new version without a file of it unpacked.\<close>

theorem truncated_archive_accepted:
  "OnDownloadResult deny sh unz dir fd fs m msg =
     OnDownloadResult deny sh (\<lambda>d. map_option (takeWhile (\<lambda>z. z \<noteq> ZBad)) (unz d)) dir fd fs m msg"
proof -
  have "(x \<bind> (\<lambda>d. map_option f (unz d))) = map_option f (x \<bind> unz)" for x :: "bytes option" and f :: "zentry list \<Rightarrow> zentry list"
    by (cases x) simp_all
  then show ?thesis
    unfolding OnDownloadResult_def by (simp only: case_map_option comp_def unzip_all_cut [symmetric])
qed

lemma result_strings:
  assumes "\<forall>v\<in>set (result_fields di). nul_free v" and "result_msg rlt di = Some msg"
  shows "msg = rlt # concat (map cstr (result_fields di))"
    and "read_strings (drop 1 msg) 0 6 = Some (take 6 (result_fields di))"
    and "read_strings msg 1 4 = Some (take 4 (result_fields di))"
proof -
  show m: "msg = rlt # concat (map cstr (result_fields di))"
    using assms(2) by (auto simp: result_msg_def Let_def split: if_splits)
  have t: "concat (map cstr (result_fields di)) =
      concat (map cstr (take k (result_fields di))) @ concat (map cstr (drop k (result_fields di)))" for k
    by (metis append_take_drop_id concat_append map_append)
  have n: "\<forall>v\<in>set (take k (result_fields di)). nul_free v" for k
    using assms(1) by (auto dest: in_set_takeD)
  show "read_strings (drop 1 msg) 0 6 = Some (take 6 (result_fields di))"
    using read_strings_0 [OF n [of 6], of 6] t [of 6] by (simp add: m result_fields_def)
  show "read_strings msg 1 4 = Some (take 4 (result_fields di))"
    using read_strings_at [OF n [of 4], of 1 "[rlt]" 4] t [of 4] by (simp add: m result_fields_def)
qed

definition result_json :: "bytes \<Rightarrow> u8 \<Rightarrow> DOWNLOAD_ITEM \<Rightarrow> cjson" where
  "result_json rid rlt di = json_object [(str ''update_result'',
     json_object [(str ''project'', JString (strPrj di)), (str ''module'', JString (strModule di)),
       (str ''version'', JString (strFileVer di)), (str ''hash'', JString (strFileHash di)),
       (str ''rid'', JString rid), (str ''result'', JNumber (uint rlt) (of_int (uint rlt)))])]"

text \<open>C25: the management side learns of a package that could not be fetched. When the download thread
  gives up with any result but success, and its message fits the report's 1024 bytes, the service
  sends it on, leaving files and table alone, and the centre tells the management side the project,
  module, version, hash and result under the number of the resource that serves the channel.\<close>

theorem failed_download_reported:
  assumes "\<forall>v\<in>set (result_fields di). nul_free v" and "result_msg rlt di = Some msg" and "rlt \<noteq> EN_DR_SUC"
    and "length msg \<le> 1009"
    and "nul_free ch" and "is_aods ch" and "sm_find (m_mapCuo um) ch = Some uo"
  shows "\<exists>o1. mgr_handle deny sh unz junk dir fd rnd pow10 tick (fs, m) (EN_AO_MSG_DOWNLOAD_RESULT, msg) =
       Some ((fs, m), [OsSend o1]) \<and>
     update_handle fd rnd pow10 um (EN_AO_MSG_CHANNEL_RECV_DATA, cstr ch @ payload o1) =
       Some (um, [(EN_MODULE_ID_KAFKA, EN_AO_MSG_SND2KAFKA, json_text fd (result_json (uo_strResId uo) rlt di))])"
proof -
  note rs = result_strings [OF assms(1,2)]
  define o1 where "o1 = (EN_MODULE_ID_COMMU, EN_AO_MSG_CHANNEL_SEND_DATA, cstr aodc_client @ aam EN_AODS_AODC_UDR msg)"
  have "Report2Aodc EN_AODS_AODC_UDR msg = Some o1"
    using assms(4) by (simp add: Report2Aodc_def EN_REPORT_LEN_def len_defs o1_def)
  then have "OnDownloadResult deny sh unz dir fd fs m msg = Some (fs, m, [OsSend o1])"
    using rs(1,2) assms(3) by (simp add: OnDownloadResult_def Let_def)
  then have s1: "mgr_handle deny sh unz junk dir fd rnd pow10 tick (fs, m) (EN_AO_MSG_DOWNLOAD_RESULT, msg) =
      Some ((fs, m), [OsSend o1])"
    by (simp add: mgr_handle_def auth_codes EN_AO_MSG_AUTHEN_SUC_def EN_AO_MSG_DOWNLOAD_RESULT_def)
  have pay: "payload o1 = aam EN_AODS_AODC_UDR msg" by (simp add: o1_def payload_send)
  have four: "\<not> length (filter (\<lambda>b. b = 0) (drop 1 msg)) < 4"
    by (simp add: rs(1) result_fields_def cstr_def)
  have "OnRecvUpdateModuleResult fd (uo_strResId uo) msg =
      Some [(EN_MODULE_ID_KAFKA, EN_AO_MSG_SND2KAFKA, json_text fd (result_json (uo_strResId uo) rlt di))]"
    using four rs(1,3) by (simp add: OnRecvUpdateModuleResult_def Let_def report_names_def result_fields_def result_json_def)
  moreover have "cstr_at (cstr ch @ aam EN_AODS_AODC_UDR msg) 0 = Some ch" using assms(5) by (simp add: cstr_at_app0)
  ultimately have "update_handle fd rnd pow10 um (EN_AO_MSG_CHANNEL_RECV_DATA, cstr ch @ aam EN_AODS_AODC_UDR msg) =
      Some (um, [(EN_MODULE_ID_KAFKA, EN_AO_MSG_SND2KAFKA, json_text fd (result_json (uo_strResId uo) rlt di))])"
    using assms(6,7)
    by (simp add: update_handle_def auth_codes update_OnRecvChannelData_def Let_def OnRecvAodsData_def len_defs aam_def
        rd32_le32_0 EN_AODS_AODC_UMI_def EN_AODS_AODC_UDR_def cstr_def)
  then show ?thesis using s1 by (intro exI [of _ o1]) (simp add: pay)
qed

text \<open>The array the report is put together in is smaller than the one the result comes in.\<close>

lemma long_result_overflows:
  assumes "\<forall>v\<in>set (result_fields di). nul_free v" and "result_msg rlt di = Some msg" and "rlt \<noteq> EN_DR_SUC"
    and "1009 < length msg"
  shows "OnDownloadResult deny sh unz dir fd fs m msg = None"
  using result_strings [OF assms(1,2)] assms(3,4)
  by (simp add: OnDownloadResult_def Let_def Report2Aodc_def EN_REPORT_LEN_def len_defs)

definition demo_served :: update_module where
  "demo_served = update_new\<lparr>m_mapCuo := [(demo_channel, \<lparr>uo_strChannelName = demo_channel, uo_strResId = [48]\<rparr>)]\<rparr>"

theorem failed_download_reported_witness:
  "\<exists>o1. mgr_handle (\<lambda>f. False) (\<lambda>c f. (f, True)) (\<lambda>d. None) [] [46] (\<lambda>q. []) (\<lambda>q. q) (\<lambda>e. 10 powi e) 7 (Map.empty, demo_mgr)
       (EN_AO_MSG_DOWNLOAD_RESULT, EN_DR_DFA # concat (map cstr (result_fields (umi_item [[65], [66], [50], [51], [104], [112]] [46])))) =
       Some ((Map.empty, demo_mgr), [OsSend o1]) \<and>
     update_handle (\<lambda>q. []) (\<lambda>q. q) (\<lambda>e. 10 powi e) demo_served (EN_AO_MSG_CHANNEL_RECV_DATA, cstr demo_channel @ payload o1) =
       Some (demo_served, [(EN_MODULE_ID_KAFKA, EN_AO_MSG_SND2KAFKA,
         json_text (\<lambda>q. []) (result_json [48] EN_DR_DFA (umi_item [[65], [66], [50], [51], [104], [112]] [46])))])"
proof -
  have uo: "sm_find (m_mapCuo demo_served) demo_channel = Some \<lparr>uo_strChannelName = demo_channel, uo_strResId = [48]\<rparr>"
    by (simp add: demo_served_def sm_find_def update_new_def)
  have rid: "uo_strResId \<lparr>uo_strChannelName = demo_channel, uo_strResId = [48]\<rparr> = [48]" by simp
  show ?thesis
    using failed_download_reported [OF _ _ _ _ demo_ok(1,2) uo, of "umi_item [[65], [66], [50], [51], [104], [112]] [46]" EN_DR_DFA
        "EN_DR_DFA # concat (map cstr (result_fields (umi_item [[65], [66], [50], [51], [104], [112]] [46])))"]
    unfolding rid
    by (simp add: result_msg_def umi_item_def result_fields_def EN_RESULT_LEN_def EN_DR_SUC_def EN_DR_DFA_def cstr_def)
qed

end
