(* ===== verification/Ao_Config.thy ===== *)
theory Ao_Config
  imports Ao_Commu Aods_Update
begin

text \<open>
  The configuration module (\<open>util/AoCfgModule.cpp\<close>): a file with one section per module, named by the
  module's number. At the start every section is sent to its module; a module's new section replaces
  the old one in the file.
\<close>

definition EN_MODULE_ID_CONFIG :: u32 where "EN_MODULE_ID_CONFIG = 2"
definition EN_AO_MSG_CFG_START :: u32 where "EN_AO_MSG_CFG_START = 6"
definition EN_AO_MSG_LOAD_CCF :: u32 where "EN_AO_MSG_LOAD_CCF = 8"
definition EN_AO_MSG_SAVE_CFG :: u32 where "EN_AO_MSG_SAVE_CFG = 9"
definition EN_AO_MSG_SAVE_CFG_SIZE :: nat where "EN_AO_MSG_SAVE_CFG_SIZE = 4"

text \<open>The directory and the name of the program, as they are set at the start; the name loses what
  follows its last dot, unless the dot is its first character.\<close>

record app_path =
  ms_szAppPath :: bytes
  ms_szModuleFileName :: bytes

definition file_stem :: "bytes \<Rightarrow> bytes" where
  "file_stem name = (case find (\<lambda>n. name ! n = 46) (rev [1..<length name]) of None \<Rightarrow> name | Some n \<Rightarrow> take n name)"

definition GetConfigFile :: "app_path \<Rightarrow> bytes option" where
  "GetConfigFile ap =
     path_of [ms_szAppPath ap, str ''/config/'', file_stem (ms_szModuleFileName ap), str ''cfg.json'']"

definition SaveConfigBuf :: "(bytes \<Rightarrow> bool) \<Rightarrow> app_path \<Rightarrow> file_store \<Rightarrow> bytes \<Rightarrow> file_store option" where
  "SaveConfigBuf deny ap fs pszBuf =
     GetConfigFile ap \<bind> (\<lambda>szFileName.
     let (fs, af, ok) = af_open deny fs szFileName ModeWb in
     if ok then (let (fs, _, _) = af_write fs af pszBuf in Some fs) else Some fs)"

definition GetConfigBuf :: "(bytes \<Rightarrow> bool) \<Rightarrow> app_path \<Rightarrow> file_store \<Rightarrow> bytes option option" where
  "GetConfigBuf deny ap fs =
     GetConfigFile ap \<bind> (\<lambda>szFileName.
     let (fs, af, ok) = af_open deny fs szFileName ModeRb in
     if \<not> ok then Some None
     else
       let (af, _) = af_seek fs af 0 EN_SEEK_END; astLen = nat (af_tell af);
           (af, _) = af_seek fs af 0 EN_SEEK_SET; (af, d) = af_read fs af astLen
       in map_option (\<lambda>d. Some (cstr d)) d)"

section \<open>The handlers\<close>

text \<open>
  The loop of \<open>StartLoad\<close>. Sections are objects or arrays. \<open>nModuleId\<close> keeps the number of the section
  before when a name holds no number; an item of an array has no name, which is a null pointer.
\<close>

definition is_section :: "cjson \<Rightarrow> bool" where
  "is_section x = (case x of JObject _ \<Rightarrow> True | JArray _ \<Rightarrow> True | _ \<Rightarrow> False)"

definition section_msg :: "(rat \<Rightarrow> bytes) \<Rightarrow> int \<Rightarrow> cjson \<Rightarrow> out_msg" where
  "section_msg fd nModuleId x =
     (word_of_int nModuleId,
      if (word_of_int nModuleId :: u32) = EN_MODULE_ID_BROADCAST then EN_AO_MSG_LOAD_CCF else EN_AO_MSG_LOAD_CFG,
      cstr (json_text fd x))"

fun load_sections :: "(rat \<Rightarrow> bytes) \<Rightarrow> (bytes option \<times> cjson) list \<Rightarrow> int \<Rightarrow> out_msg list option" where
  "load_sections fd [] nModuleId = Some []"
| "load_sections fd ((name, x) # ks) nModuleId =
     (if \<not> is_section x then load_sections fd ks nModuleId
      else
        name \<bind> (\<lambda>s. scan_d s \<bind> (\<lambda>r.
        let nModuleId = (case r of Match v _ \<Rightarrow> v | NoMatch \<Rightarrow> nModuleId)
        in map_option ((#) (section_msg fd nModuleId x)) (load_sections fd ks nModuleId))))"

definition StartLoad ::
  "(bytes \<Rightarrow> bool) \<Rightarrow> (rat \<Rightarrow> bytes) \<Rightarrow> (rat \<Rightarrow> rat) \<Rightarrow> (int \<Rightarrow> rat) \<Rightarrow> app_path \<Rightarrow> file_store \<Rightarrow> out_msg list option" where
  "StartLoad deny fd rnd pow10 ap fs =
     GetConfigBuf deny ap fs \<bind> (\<lambda>b.
     case b of
       None \<Rightarrow> Some []
     | Some pszJsonBuf \<Rightarrow>
         json_of rnd pow10 pszJsonBuf \<bind> (\<lambda>r.
         case r of None \<Rightarrow> Some [] | Some pJson \<Rightarrow> load_sections fd (children pJson) 0))"

text \<open>
  \<open>cJSON_DeleteItemFromObject\<close> and \<open>cJSON_AddItemToObject\<close>: the first item of the name, without
  case, goes; the new one is the last. In an array the new item is without effect on what is printed
  of its name; other values do not print items.
\<close>

fun drop_name :: "bytes \<Rightarrow> (bytes \<times> cjson) list \<Rightarrow> (bytes \<times> cjson) list" where
  "drop_name name [] = []"
| "drop_name name ((k, x) # kvs) = (if same_name k name then kvs else (k, x) # drop_name name kvs)"

definition replace_item :: "bytes \<Rightarrow> cjson \<Rightarrow> cjson \<Rightarrow> cjson" where
  "replace_item name x j =
     (case j of JObject kvs \<Rightarrow> JObject (drop_name name kvs @ [(name, x)]) | JArray xs \<Rightarrow> JArray (xs @ [x]) | _ \<Rightarrow> j)"

text \<open>\<open>SaveCfg\<close>: the number of the module and the text of its section. A file that cannot be read or
  parsed is replaced.\<close>

definition cfg_SaveCfg ::
  "(bytes \<Rightarrow> bool) \<Rightarrow> (rat \<Rightarrow> bytes) \<Rightarrow> (rat \<Rightarrow> rat) \<Rightarrow> (int \<Rightarrow> rat) \<Rightarrow> app_path \<Rightarrow> file_store \<Rightarrow> bytes \<Rightarrow> file_store option" where
  "cfg_SaveCfg deny fd rnd pow10 ap fs d =
     (if length d < EN_AO_MSG_SAVE_CFG_SIZE then Some fs
      else
        rd32 d 0 \<bind> (\<lambda>unSrcModuleId.
        cstr_at d 4 \<bind> (\<lambda>szCfgJson.
        json_of rnd pow10 szCfgJson \<bind> (\<lambda>r.
        case r of
          None \<Rightarrow> Some fs
        | Some pJson \<Rightarrow>
            GetConfigBuf deny ap fs \<bind> (\<lambda>b.
            (case b of
               None \<Rightarrow> Some (JObject [])
             | Some pszJsonBuf \<Rightarrow>
                 map_option (\<lambda>r. case r of None \<Rightarrow> JObject [] | Some j \<Rightarrow> j) (json_of rnd pow10 pszJsonBuf)) \<bind> (\<lambda>pOld.
            SaveConfigBuf deny ap fs (json_text fd (replace_item (dec (unat unSrcModuleId)) pJson pOld))))))))"

text \<open>The message map.\<close>

definition cfg_handle ::
  "(bytes \<Rightarrow> bool) \<Rightarrow> (rat \<Rightarrow> bytes) \<Rightarrow> (rat \<Rightarrow> rat) \<Rightarrow> (int \<Rightarrow> rat) \<Rightarrow> app_path \<Rightarrow> u32 \<Rightarrow> bytes \<Rightarrow> file_store \<Rightarrow>
     (file_store \<times> out_msg list) option" where
  "cfg_handle deny fd rnd pow10 ap code d fs =
     (if code = EN_AO_MSG_CFG_START then map_option (\<lambda>out. (fs, out)) (StartLoad deny fd rnd pow10 ap fs)
      else if code = EN_AO_MSG_SAVE_CFG then map_option (\<lambda>fs. (fs, [])) (cfg_SaveCfg deny fd rnd pow10 ap fs d)
      else Some (fs, []))"

section \<open>A saved section is delivered at the next start\<close>

lemma same_name_dec: "same_name (dec n) (dec m) \<longleftrightarrow> n = m"
proof -
  have "map c_tolower (dec k) = dec k" for k
  proof (rule map_idI)
    fix c
    assume "c \<in> set (dec k)"
    then have "is_dig c" using dec_scan [of k] by blast
    then show "c_tolower c = c" by (auto simp: is_dig_def c_tolower_def word_le_nat_alt)
  qed
  then show ?thesis using digits_val_dec by (metis same_name_def)
qed

lemma scan_d_dec0: "n < 2 ^ 31 \<Longrightarrow> scan_d (dec n) = Some (Match (int n) [])"
proof -
  assume n: "n < 2 ^ 31"
  obtain c t where "dec n = c # t" "is_dig c" using dec_Cons by blast
  then have "scan_sign (dropWhile is_space (dec n)) = (False, dec n)"
    using dig_plain [of c] by (simp add: scan_sign_def)
  then show ?thesis
    using span_dec [of "[]" n] dec_scan [of n] n by (simp add: scan_d_def digits_val_dec)
qed

text \<open>Sections by number, as the file has them and as messages.\<close>

type_synonym sections = "(nat \<times> cjson) list"

definition cfg_object :: "sections \<Rightarrow> cjson" where
  "cfg_object secs = JObject (map (\<lambda>(n, x). (dec n, x)) secs)"

definition cfg_ok :: "sections \<Rightarrow> bool" where
  "cfg_ok secs \<longleftrightarrow> distinct (map fst secs) \<and> (\<forall>(n, x)\<in>set secs. n < 2 ^ 31 \<and> json_ok x \<and> is_section x)"

definition section_msgs :: "(rat \<Rightarrow> bytes) \<Rightarrow> sections \<Rightarrow> out_msg list" where
  "section_msgs fd secs = map (\<lambda>(n, x). section_msg fd (int n) x) secs"

definition with_section :: "nat \<Rightarrow> cjson \<Rightarrow> sections \<Rightarrow> sections" where
  "with_section n x secs = filter (\<lambda>p. fst p \<noteq> n) secs @ [(n, x)]"

lemma load_sections_ok:
  "\<forall>(n, x)\<in>set secs. n < 2 ^ 31 \<and> is_section x \<Longrightarrow>
     load_sections fd (children (cfg_object secs)) k = Some (section_msgs fd secs)"
  by (induction secs arbitrary: k) (auto simp: cfg_object_def section_msgs_def scan_d_dec0)

lemma drop_name_sections:
  "distinct (map fst secs) \<Longrightarrow>
     drop_name (dec n) (map (\<lambda>(n, x). (dec n, x)) secs) = map (\<lambda>(n, x). (dec n, x)) (filter (\<lambda>p. fst p \<noteq> n) secs)"
proof (induction secs)
  case (Cons p secs)
  have "filter (\<lambda>q. fst q \<noteq> n) secs = secs" if "n = fst p"
    using Cons.prems that by (intro filter_True ballI) (auto simp: image_iff)
  with Cons show ?case by (cases p) (auto simp: same_name_dec)
qed simp

lemma replace_section:
  "distinct (map fst secs) \<Longrightarrow> replace_item (dec n) x (cfg_object secs) = cfg_object (with_section n x secs)"
  by (simp add: replace_item_def cfg_object_def with_section_def drop_name_sections)

lemma with_section_ok: "cfg_ok secs \<Longrightarrow> n < 2 ^ 31 \<Longrightarrow> json_ok x \<Longrightarrow> is_section x \<Longrightarrow> cfg_ok (with_section n x secs)"
  by (auto simp: cfg_ok_def with_section_def distinct_map_filter)

lemma cfg_object_json: "cfg_ok secs \<Longrightarrow> json_ok (cfg_object secs)"
  by (auto simp: cfg_ok_def cfg_object_def nul_free_dec)

text \<open>The file holds the sections, or there is none.\<close>

definition cfg_file :: "file_store \<Rightarrow> bytes \<Rightarrow> sections \<Rightarrow> bool" where
  "cfg_file fs f secs \<longleftrightarrow> fs f = None \<and> secs = [] \<or> (\<exists>fd. fs f = Some (json_text fd (cfg_object secs)))"

lemma SaveConfigBuf_ok:
  "GetConfigFile ap = Some f \<Longrightarrow> \<not> deny f \<Longrightarrow> SaveConfigBuf deny ap fs t = Some (fs(f \<mapsto> t))"
  by (simp add: SaveConfigBuf_def af_open_def af_write_def file_bytes_def)

lemma GetConfigBuf_ok:
  "GetConfigFile ap = Some f \<Longrightarrow> \<not> deny f \<Longrightarrow> GetConfigBuf deny ap fs = Some (map_option cstr (fs f))"
  by (cases "fs f") (simp_all add: GetConfigBuf_def af_open_def af_seek_def af_tell_def af_read_def file_bytes_def
      EN_SEEK_SET_def EN_SEEK_CUR_def EN_SEEK_END_def)

lemma read_sections:
  assumes "GetConfigFile ap = Some f" and "\<not> deny f" and "exact_ints rnd pow10" and "cfg_ok secs"
    and "fs f = Some (json_text fd0 (cfg_object secs))"
  shows "GetConfigBuf deny ap fs = Some (Some (cstr (json_text fd0 (cfg_object secs))))"
    and "json_of rnd pow10 (cstr (json_text fd0 (cfg_object secs))) = Some (Some (cfg_object secs))"
  using GetConfigBuf_ok [of ap f deny fs] assms json_of_text(2) [OF assms(3) cfg_object_json [OF assms(4)], of fd0 "[]"]
  by (simp_all add: cstr_def)

text \<open>C15: what a module saves reaches it at the next start. The configuration file keeps one section
  per number: \<open>SaveCfg\<close> puts the new section in the place of the old one of its number, keeps all
  others, and \<open>StartLoad\<close> sends every section, as the same value, to the module it belongs to.\<close>

theorem config_section_delivered:
  assumes "GetConfigFile ap = Some f" and "\<not> deny f" and "exact_ints rnd pow10"
    and "cfg_ok secs" and "cfg_file fs f secs" and "n < 2 ^ 31" and "json_ok x" and "is_section x"
  shows "\<exists>fs'. cfg_SaveCfg deny fd rnd pow10 ap fs (le32 (of_nat n) @ cstr (json_text fd' x)) = Some fs' \<and>
     cfg_file fs' f (with_section n x secs) \<and>
     StartLoad deny fd rnd pow10 ap fs' = Some (section_msgs fd (with_section n x secs))"
proof -
  let ?t = "json_text fd (cfg_object (with_section n x secs))" and ?d = "le32 (of_nat n) @ cstr (json_text fd' x)"
  have ok: "cfg_ok (with_section n x secs)" using with_section_ok assms(4,6-8) by blast
  have d: "\<not> length ?d < EN_AO_MSG_SAVE_CFG_SIZE" "rd32 ?d 0 = Some (of_nat n)" "cstr_at ?d 4 = Some (json_text fd' x)"
    using cstr_at_app [of 4 "le32 (of_nat n)" "json_text fd' x" "[]"] nul_free_json_text [OF assms(7)]
    by (simp_all add: EN_AO_MSG_SAVE_CFG_SIZE_def buf_simps)
  have n: "unat (of_nat n :: u32) = n" using assms(6) by (simp add: unat_of_nat)
  have x: "json_of rnd pow10 (json_text fd' x) = Some (Some x)" by (rule json_of_text(1) [OF assms(3,7)])
  have old: "\<exists>b r. GetConfigBuf deny ap fs = Some b \<and>
      (case b of None \<Rightarrow> Some (JObject []) | Some buf \<Rightarrow>
         map_option (\<lambda>r. case r of None \<Rightarrow> JObject [] | Some j \<Rightarrow> j) (json_of rnd pow10 buf)) = Some (cfg_object secs)"
  proof (cases "fs f")
    case None
    then have "secs = []" using assms(5) by (simp add: cfg_file_def)
    with None show ?thesis using GetConfigBuf_ok [of ap f deny fs, OF assms(1,2)] by (simp add: cfg_object_def)
  next
    case (Some t)
    then obtain fd0 where "fs f = Some (json_text fd0 (cfg_object secs))" using assms(5) by (auto simp: cfg_file_def)
    with read_sections [of ap f deny rnd pow10 secs fs fd0, OF assms(1-4) this] show ?thesis by simp
  qed
  have put: "replace_item (dec n) x (cfg_object secs) = cfg_object (with_section n x secs)"
    using replace_section assms(4) by (simp add: cfg_ok_def)
  have save: "cfg_SaveCfg deny fd rnd pow10 ap fs ?d = Some (fs(f \<mapsto> ?t))"
    using old d x put SaveConfigBuf_ok [of ap f deny, OF assms(1,2)] by (auto simp: cfg_SaveCfg_def n)
  have "fs(f \<mapsto> ?t) = fs(f \<mapsto> ?t)" "(fs(f \<mapsto> ?t)) f = Some ?t" by simp_all
  with read_sections [of ap f deny rnd pow10 _ "fs(f \<mapsto> ?t)" fd, OF assms(1-3) ok this(2)] load_sections_ok [of "with_section n x secs" fd 0] ok
  have "StartLoad deny fd rnd pow10 ap (fs(f \<mapsto> ?t)) = Some (section_msgs fd (with_section n x secs))"
    by (auto simp: StartLoad_def cfg_ok_def)
  with save show ?thesis by (auto simp: cfg_file_def)
qed

section \<open>From the configuration file to the channel\<close>


section \<open>Witnesses\<close>

definition demo_path :: app_path where
  "demo_path = \<lparr>ms_szAppPath = [46], ms_szModuleFileName = str ''aodc.exe''\<rparr>"

definition demo_sections :: sections where
  "demo_sections = [(3, JObject []), (9, JArray [JTrue])]"

definition demo_file :: bytes where
  "demo_file = str ''./config/aodccfg.json''"

lemma demo_config:
  "GetConfigFile demo_path = Some demo_file" "cfg_ok demo_sections"
  "cfg_file [demo_file \<mapsto> json_text (\<lambda>q. []) (cfg_object demo_sections)] demo_file demo_sections"
  by (simp_all add: GetConfigFile_def path_of_def EN_MAX_PATH_LEN_def demo_path_def demo_file_def file_stem_def str_def
      upt_rec [of 1] cfg_ok_def demo_sections_def is_section_def)
    (auto simp: cfg_file_def)

theorem config_section_delivered_witness:
  "\<exists>fs'. cfg_SaveCfg (\<lambda>f. False) (\<lambda>q. []) (\<lambda>q. q) (\<lambda>i. 10 powi i) demo_path
       [demo_file \<mapsto> json_text (\<lambda>q. []) (cfg_object demo_sections)]
       (le32 (of_nat 3) @ cstr (json_text (\<lambda>q. []) (JArray [JNull]))) = Some fs' \<and>
     cfg_file fs' demo_file (with_section 3 (JArray [JNull]) demo_sections) \<and>
     StartLoad (\<lambda>f. False) (\<lambda>q. []) (\<lambda>q. q) (\<lambda>i. 10 powi i) demo_path fs' =
       Some (section_msgs (\<lambda>q. []) (with_section 3 (JArray [JNull]) demo_sections))"
  by (rule config_section_delivered [OF demo_config(1) _ _ demo_config(2,3)])
    (simp_all add: exact_ints_def is_section_def)


end
