(* ===== verification/Ao_TcpServer.thy ===== *)
theory Ao_TcpServer
  imports Ao_Commu
begin

text \<open>
  The listening thread of a TCP server (\<open>util/AoTcpServer.cpp\<close>): it opens the sockets of its entries,
  waits for connections and asks the communication module for a channel for each, in a text that is
  printed here and parsed there.
\<close>

section \<open>Opening the sockets\<close>

text \<open>\<open>listen_on\<close> makes a socket, binds it and listens; none when one of the calls fails. The entries
  after a failure have no socket, and the thread ends.\<close>

fun BuildServerChannels :: "(bytes \<Rightarrow> int \<Rightarrow> int \<Rightarrow> int option) \<Rightarrow> SERVER_CHANNEL list \<Rightarrow> (SERVER_CHANNEL \<times> int) list option" where
  "BuildServerChannels listen_on [] = Some []"
| "BuildServerChannels listen_on (sv # svs) =
     (case listen_on (sv_strAddr sv) (sv_nPort sv) (sv_nNum sv) of
        None \<Rightarrow> None
      | Some s \<Rightarrow> map_option ((#) (sv, s)) (BuildServerChannels listen_on svs))"

section \<open>The text of a new channel\<close>

definition lower_hex :: "nat \<Rightarrow> u8" where
  "lower_hex n = (if n < 10 then 48 + of_nat n else 87 + of_nat n)"

text \<open>\<open>%016x\<close> of the counter, of which the conversion takes 32 bits.\<close>

definition index_text :: "u64 \<Rightarrow> bytes" where
  "index_text w = replicate 8 48 @ map (\<lambda>i. lower_hex (unat (ucast w :: u32) div 16 ^ i mod 16)) (rev [0..<8])"

definition quoted :: "bytes \<Rightarrow> bytes" where
  "quoted s = 34 # s @ [34]"

definition new_channel_text :: "bytes \<Rightarrow> bytes \<Rightarrow> bytes \<Rightarrow> int \<Rightarrow> bytes" where
  "new_channel_text name idx pr h =
     123 # quoted (name @ [58] @ idx) @ [58, 123] @ quoted (str ''Type'') @ [58] @ quoted (str ''AoSockChannel'') @ [44, 32] @
     quoted (str ''Protocol'') @ [58] @ quoted pr @ [44, 32] @ quoted (str ''Para'') @ [58, 123] @
     quoted (str ''Handle'') @ [58] @ print_int h @ [44, 32] @ quoted (str ''Protocol'') @ [58] @ quoted (str ''Tcp'') @ [125, 125, 125]"

section \<open>The loop\<close>

text \<open>The entries whose sockets are ready; the text goes into 1024 bytes on the stack.\<close>

fun serve ::
  "commu_env \<Rightarrow> (int \<Rightarrow> int) \<Rightarrow> (int \<Rightarrow> bool) \<Rightarrow> (SERVER_CHANNEL \<times> int) list \<Rightarrow> 'a ao_channel_scheme \<Rightarrow>
     commu_err + (SERVER_CHANNEL \<times> int) list \<times> 'a ao_channel_scheme \<times> out_msg list" where
  "serve e accept isset [] c = Inr ([], c, [])"
| "serve e accept isset ((sv, s) # svs) c =
     (if \<not> isset s then ebind (serve e accept isset svs c) (\<lambda>(svs, c, out). Inr ((sv, s) # svs, c, out))
      else
        let txt = new_channel_text (sv_strName sv) (index_text (ullIndex sv)) (sv_strProtocol sv) (accept s) in
        if length txt \<ge> 1024 then Inl Overrun
        else
          ebind (ch_SendOutMsg (ce_mv e) EN_MODULE_ID_COMMU EN_AO_MSG_CHANNEL_NEW (cstr txt) c) (\<lambda>(c, out1).
          ebind (serve e accept isset svs c) (\<lambda>(svs, c, out2).
          Inr ((sv\<lparr>ullIndex := ullIndex sv + 1\<rparr>, s) # svs, c, out1 @ out2))))"

text \<open>A round: \<open>select\<close> is called with the highest socket, where it wants one more.\<close>

definition server_round ::
  "commu_env \<Rightarrow> (int \<Rightarrow> int list \<Rightarrow> int \<times> (int \<Rightarrow> bool)) \<Rightarrow> (int \<Rightarrow> int) \<Rightarrow> (SERVER_CHANNEL \<times> int) list \<Rightarrow>
     'a ao_channel_scheme \<Rightarrow> commu_err + (SERVER_CHANNEL \<times> int) list \<times> 'a ao_channel_scheme \<times> out_msg list" where
  "server_round e select accept svs c =
     (let nMaxHandle = foldl max 0 (map snd svs); (n, isset) = select nMaxHandle (map snd svs)
      in if n < 1 then Inr (svs, c, []) else serve e accept isset svs c)"

section \<open>A server of one entry\<close>

text \<open>C29: a server of one entry never accepts a connection on Linux. \<open>select\<close> looks at descriptors below
  its first argument only, and that is the socket itself; so whatever arrives, no round does anything.\<close>

theorem single_listener_never_served:
  assumes "\<And>n S. fst (select n S) \<le> int (card {h \<in> set S. h < n})" and "0 \<le> s"
  shows "server_round e select accept [(sv, s)] c = Inr ([(sv, s)], c, [])"
proof -
  have "{h \<in> set [s]. h < s} = {}" by auto
  then have "card {h \<in> set [s]. h < s} = 0" by (simp only: card.empty)
  with assms(1) [of s "[s]"] have "fst (select s [s]) \<le> 0" by (simp only: of_nat_0)
  then show ?thesis using assms(2) by (auto simp: server_round_def max_def split: prod.splits)
qed

theorem single_listener_never_served_witness:
  "server_round demo_env (\<lambda>n S. (int (card {h \<in> set S. h < n}), \<lambda>h. h < n)) (\<lambda>s. 9)
     [(\<lparr>sv_strName = [97], sv_strAddr = [], sv_strProtocol = [], sv_nPort = 80, sv_nNum = 5, ullIndex = 0\<rparr>, 7)]
     (ch_new [98] 1) =
   Inr ([(\<lparr>sv_strName = [97], sv_strAddr = [], sv_strProtocol = [], sv_nPort = 80, sv_nNum = 5, ullIndex = 0\<rparr>, 7)],
     ch_new [98] 1, [])"
  by (rule single_listener_never_served) simp_all

section \<open>The text is parsed back\<close>

definition plain :: "bytes \<Rightarrow> bool" where
  "plain s \<longleftrightarrow> (\<forall>c\<in>set s. 32 \<le> c \<and> c \<noteq> 34 \<and> c \<noteq> 92)"

lemma plain_simps [simp]: "plain []" "plain (c # s) \<longleftrightarrow> 32 \<le> c \<and> c \<noteq> 34 \<and> c \<noteq> 92 \<and> plain s"
  "plain (s @ t) \<longleftrightarrow> plain s \<and> plain t"
  by (auto simp: plain_def)

lemma plain_nul_free: "plain s \<Longrightarrow> nul_free s"
  by (force simp: plain_def nul_free_def)

lemma parse_quoted: "plain s \<Longrightarrow> parse_string (quoted s @ r) = POk s r"
  using str_plain_all [of s r] by (simp add: plain_def parse_string_def quoted_def)

lemma value_quoted: "plain s \<Longrightarrow> parse_value rnd pow10 (Suc n) (quoted s @ r) = POk (JString s) r"
  using parse_quoted [of s r] by (simp add: quoted_def)

lemma value_object:
  assumes "parse_members rnd pow10 n (quoted k @ s) = POk kvs (125 # r)"
  shows "parse_value rnd pow10 (Suc n) (123 # quoted k @ s) = POk (JObject kvs) r"
  using assms by (simp add: quoted_def is_digit_def)

lemma members_more:
  assumes "plain k" and "parse_value rnd pow10 n (c # v) = POk x (44 # 32 # quoted k' @ s)" and "32 < c"
    and "parse_members rnd pow10 n (quoted k' @ s) = POk kvs r"
  shows "parse_members rnd pow10 (Suc n) (quoted k @ 58 # c # v) = POk ((k, x) # kvs) r"
proof -
  have "\<not> c \<le> 32" using assms(3) by simp
  then show ?thesis using assms(2,4) parse_quoted [OF assms(1), of "58 # c # v"] by (simp add: quoted_def)
qed

lemma members_last:
  assumes "plain k" and "parse_value rnd pow10 n (c # v) = POk x (125 # r)" and "32 < c"
  shows "parse_members rnd pow10 (Suc n) (quoted k @ 58 # c # v) = POk [(k, x)] (125 # r)"
proof -
  have "\<not> c \<le> 32" using assms(3) by simp
  then show ?thesis using assms(2) parse_quoted [OF assms(1), of "58 # c # v"] by (simp add: quoted_def)
qed

definition new_channel_json :: "bytes \<Rightarrow> bytes \<Rightarrow> int \<Rightarrow> cjson" where
  "new_channel_json name pr h = JObject [(name, JObject [(str ''Type'', JString (str ''AoSockChannel'')),
     (str ''Protocol'', JString pr),
     (str ''Para'', JObject [(str ''Handle'', JNumber h (of_int h)), (str ''Protocol'', JString (str ''Tcp''))])])]"

lemma print_int_number: "\<bar>h\<bar> < 2 ^ 31 \<Longrightarrow> print_int h = print_number (\<lambda>q. []) h (of_int h)"
  by (auto simp: print_number_int number_ok_def print_int_def dec.simps [of 0])

lemma value_int:
  assumes "exact_ints rnd pow10" and "\<bar>h\<bar> < 2 ^ 31" and "stops r"
  shows "parse_value rnd pow10 (Suc n) (print_int h @ r) = POk (JNumber h (of_int h)) r"
  unfolding print_int_number [OF assms(2)] by (rule parse_value_number) (use assms in \<open>simp_all add: number_ok_def\<close>)

lemma print_int_Cons: "\<bar>h\<bar> < 2 ^ 31 \<Longrightarrow> \<exists>c t. print_int h = c # t \<and> 32 < c"
  using number_head [of h "of_int h" "\<lambda>q. []"] digit_range by (auto simp: print_int_number number_ok_def)

lemma quoted_Cons: "quoted s @ r = 34 # s @ 34 # r"
  by (simp add: quoted_def)

lemma names_plain: "plain (str ''Type'')" "plain (str ''AoSockChannel'')" "plain (str ''Protocol'')" "plain (str ''Para'')"
  "plain (str ''Handle'')" "plain (str ''Tcp'')"
  by (simp_all add: str_def)

lemma parse_para:
  assumes ex: "exact_ints rnd pow10" and h: "\<bar>h\<bar> < 2 ^ 31"
  shows "parse_value rnd pow10 (Suc (Suc (Suc (Suc n))))
     (123 # quoted (str ''Handle'') @ 58 # print_int h @ 44 # 32 # quoted (str ''Protocol'') @ 58 # quoted (str ''Tcp'') @ 125 # r) =
   POk (JObject [(str ''Handle'', JNumber h (of_int h)), (str ''Protocol'', JString (str ''Tcp''))]) r"
proof (rule value_object)
  obtain c t where c: "print_int h = c # t" "32 < c" using print_int_Cons [OF h] by blast
  have last: "parse_members rnd pow10 (Suc (Suc n)) (quoted (str ''Protocol'') @ 58 # quoted (str ''Tcp'') @ 125 # r) =
      POk [(str ''Protocol'', JString (str ''Tcp''))] (125 # r)"
    unfolding quoted_Cons [of "str ''Tcp''"]
    by (rule members_last [OF names_plain(3)]) (simp_all only: quoted_Cons [symmetric] value_quoted names_plain, simp)
  have "parse_value rnd pow10 (Suc (Suc n)) (c # t @ 44 # 32 # quoted (str ''Protocol'') @ 58 # quoted (str ''Tcp'') @ 125 # r) =
      POk (JNumber h (of_int h)) (44 # 32 # quoted (str ''Protocol'') @ 58 # quoted (str ''Tcp'') @ 125 # r)"
    using value_int [OF ex h, of "44 # 32 # quoted (str ''Protocol'') @ 58 # quoted (str ''Tcp'') @ 125 # r" "Suc n"] c(1)
    by (simp add: stops_def is_digit_def)
  from members_more [OF names_plain(5) this c(2) last]
  show "parse_members rnd pow10 (Suc (Suc (Suc n)))
      (quoted (str ''Handle'') @ 58 # print_int h @ 44 # 32 # quoted (str ''Protocol'') @ 58 # quoted (str ''Tcp'') @ 125 # r) =
      POk [(str ''Handle'', JNumber h (of_int h)), (str ''Protocol'', JString (str ''Tcp''))] (125 # r)"
    by (simp add: c(1))
qed

definition para_text :: "int \<Rightarrow> bytes \<Rightarrow> bytes" where
  "para_text h r = quoted (str ''Handle'') @ 58 # print_int h @ 44 # 32 # quoted (str ''Protocol'') @ 58 # quoted (str ''Tcp'') @ 125 # r"

lemma parse_body:
  assumes ex: "exact_ints rnd pow10" and h: "\<bar>h\<bar> < 2 ^ 31" and p: "plain pr"
  shows "parse_value rnd pow10 (Suc (Suc (Suc (Suc (Suc (Suc (Suc (Suc n))))))))
     (123 # quoted (str ''Type'') @ 58 # quoted (str ''AoSockChannel'') @ 44 # 32 # quoted (str ''Protocol'') @ 58 # quoted pr @
       44 # 32 # quoted (str ''Para'') @ 58 # 123 # para_text h (125 # r)) =
   POk (JObject [(str ''Type'', JString (str ''AoSockChannel'')), (str ''Protocol'', JString pr),
     (str ''Para'', JObject [(str ''Handle'', JNumber h (of_int h)), (str ''Protocol'', JString (str ''Tcp''))])]) r"
proof (rule value_object)
  let ?para = "quoted (str ''Para'') @ 58 # 123 # para_text h (125 # r)"
  let ?prot = "quoted (str ''Protocol'') @ 58 # quoted pr @ 44 # 32 # ?para"
  let ?kp = "(str ''Para'', JObject [(str ''Handle'', JNumber h (of_int h)), (str ''Protocol'', JString (str ''Tcp''))])"
  have m3: "parse_members rnd pow10 (Suc (Suc (Suc (Suc (Suc n))))) ?para = POk [?kp] (125 # r)"
    by (rule members_last [OF names_plain(4)]) (simp_all only: para_text_def parse_para [OF ex h], simp)
  have m2: "parse_members rnd pow10 (Suc (Suc (Suc (Suc (Suc (Suc n)))))) ?prot =
      POk [(str ''Protocol'', JString pr), ?kp] (125 # r)"
    unfolding quoted_Cons [of pr]
    by (rule members_more [OF names_plain(3) _ _ m3]) (simp_all only: quoted_Cons [symmetric] value_quoted p, simp)
  show "parse_members rnd pow10 (Suc (Suc (Suc (Suc (Suc (Suc (Suc n)))))))
      (quoted (str ''Type'') @ 58 # quoted (str ''AoSockChannel'') @ 44 # 32 # ?prot) =
      POk [(str ''Type'', JString (str ''AoSockChannel'')), (str ''Protocol'', JString pr), ?kp] (125 # r)"
    unfolding quoted_Cons [of "str ''AoSockChannel''"]
    by (rule members_more [OF names_plain(1) _ _ m2]) (simp_all only: quoted_Cons [symmetric] value_quoted names_plain, simp)
qed

lemma parse_new_channel:
  assumes ex: "exact_ints rnd pow10" and h: "\<bar>h\<bar> < 2 ^ 31" and p: "plain (name @ [58] @ idx)" "plain pr"
  shows "cjson_parse rnd pow10 (new_channel_text name idx pr h) = POk (new_channel_json (name @ [58] @ idx) pr h) []"
proof -
  let ?t = "new_channel_text name idx pr h"
  have "10 \<le> length ?t" by (simp add: new_channel_text_def quoted_def str_def)
  then obtain n where n: "Suc (2 * length ?t) = Suc (Suc (Suc (Suc (Suc (Suc (Suc (Suc (Suc (Suc n)))))))))"
    by (intro that [of "2 * length ?t - 9"]) simp
  have t: "?t = 123 # quoted (name @ [58] @ idx) @ 58 # 123 # quoted (str ''Type'') @ 58 # quoted (str ''AoSockChannel'') @
      44 # 32 # quoted (str ''Protocol'') @ 58 # quoted pr @ 44 # 32 # quoted (str ''Para'') @ 58 # 123 #
      para_text h (125 # [125])"
    by (simp only: new_channel_text_def para_text_def append_Cons append_Nil append_assoc)
  have "parse_value rnd pow10 (Suc (Suc (Suc (Suc (Suc (Suc (Suc (Suc (Suc (Suc n)))))))))) ?t =
      POk (new_channel_json (name @ [58] @ idx) pr h) []"
    unfolding t new_channel_json_def
    by (rule value_object, rule members_last [OF p(1)]) (simp_all only: parse_body [OF ex h p(2)], simp)
  moreover have "skip ?t = ?t" unfolding t by simp
  ultimately show ?thesis by (simp only: cjson_parse_def n)
qed

section \<open>An accepted connection becomes a channel\<close>

lemma lower_hex_plain: "n < 16 \<Longrightarrow> 32 \<le> lower_hex n \<and> lower_hex n \<noteq> 34 \<and> lower_hex n \<noteq> 92"
proof -
  assume "n < 16"
  then have "n \<in> set [0..<16]" by simp
  then show ?thesis by (simp add: upt_rec) (elim disjE; simp add: lower_hex_def)
qed

lemma index_text_ok: "plain (index_text w)" "length (index_text w) = 16"
  by (auto simp: index_text_def plain_def lower_hex_plain)

definition name_of :: "SERVER_CHANNEL \<Rightarrow> bytes" where
  "name_of sv = sv_strName sv @ [58] @ index_text (ullIndex sv)"

lemma length_print_int: "\<bar>h\<bar> < 2 ^ 31 \<Longrightarrow> length (print_int h) \<le> 11"
proof -
  assume h: "\<bar>h\<bar> < 2 ^ 31"
  have "nat \<bar>h\<bar> < 10 ^ 10" using h by simp
  then have "length (dec (nat \<bar>h\<bar>)) \<le> 10" by (intro length_dec_le) simp_all
  then show ?thesis by (auto simp: print_int_def)
qed


definition demo_entry :: SERVER_CHANNEL where
  "demo_entry = \<lparr>sv_strName = [97], sv_strAddr = [], sv_strProtocol = str ''AoCommuProtocol'', sv_nPort = 80, sv_nNum = 5, ullIndex = 255\<rparr>"

definition demo_server :: commu_module where
  "demo_server = commu_new\<lparr>cm_objs := [1 \<mapsto> ServerObj (ch_new [98] 1) Running [demo_entry]], cm_next := 2, m_mapAC := [([98], 1)]\<rparr>"


end
