(* ===== verification/Ao_Log.thy ===== *)
theory Ao_Log
  imports Aods_Update
begin

unbundle bit_operations_syntax

text \<open>
  The log: how a module posts a line (\<open>util/Module.cpp\<close>) and how the log module writes it
  (\<open>util/AoLogModule.cpp\<close>), one file per module.
\<close>

definition EN_BASE_MODULE_ID_LOG :: u32 where "EN_BASE_MODULE_ID_LOG = 1"
definition EN_LOG_MODULE_LOG_INFO :: u32 where "EN_LOG_MODULE_LOG_INFO = 1"
definition EN_LOG_MODULE_LOG_DEBUG :: u32 where "EN_LOG_MODULE_LOG_DEBUG = 2"
definition EN_LOG_MODULE_LOG_DATA :: u32 where "EN_LOG_MODULE_LOG_DATA = 3"
definition EN_LOG_MODULE_LOG_WARN :: u32 where "EN_LOG_MODULE_LOG_WARN = 4"
definition EN_LOG_MODULE_LOG_ERR :: u32 where "EN_LOG_MODULE_LOG_ERR = 5"

lemmas log_codes = EN_LOG_MODULE_LOG_INFO_def EN_LOG_MODULE_LOG_DEBUG_def EN_LOG_MODULE_LOG_DATA_def
  EN_LOG_MODULE_LOG_WARN_def EN_LOG_MODULE_LOG_ERR_def

section \<open>Posting a line\<close>

text \<open>
  \<open>LogInfo\<close>, \<open>LogDebug\<close>, \<open>LogWarn\<close> and \<open>LogErr\<close>, which differ in the code only: the module's name, the
  name of its part and the formatted text, cut to the room that is left.
\<close>

definition EN_MAX_TEMP_FORMAT_BUF_LEN :: nat where "EN_MAX_TEMP_FORMAT_BUF_LEN = 1024 * 1024"

definition mod_log :: "u32 \<Rightarrow> bytes \<Rightarrow> bytes \<Rightarrow> bytes \<Rightarrow> out_msg option" where
  "mod_log code m_szName pszSubModuleName desc =
     (let unLen = length m_szName + 1 + (length pszSubModuleName + 1) in
      if EN_MAX_TEMP_FORMAT_BUF_LEN \<le> unLen then None
      else Some (EN_BASE_MODULE_ID_LOG, code,
        cstr m_szName @ cstr pszSubModuleName @ cstr (take (EN_MAX_TEMP_FORMAT_BUF_LEN - unLen - 1) desc)))"

section \<open>The log module\<close>

record ao_time =
  m_nYear :: nat
  m_nMonth :: nat
  m_nDay :: nat
  m_nHour :: nat
  m_nMinute :: nat
  m_nSecond :: nat
  m_nMilliSecond :: nat

record STRUCT_LOG_INFO =
  sl_m_bOpened :: bool
  sl_nLogLevel :: u32
  sl_af :: CAoFile

definition EN_LOG_LEVEL_INFO :: u32 where "EN_LOG_LEVEL_INFO = 1"
definition EN_LOG_LEVEL_DEBUG :: u32 where "EN_LOG_LEVEL_DEBUG = 4"
definition EN_LOG_LEVEL_WARN :: u32 where "EN_LOG_LEVEL_WARN = 8"
definition EN_LOG_LEVEL_ERROR :: u32 where "EN_LOG_LEVEL_ERROR = 16"

definition sli_new :: STRUCT_LOG_INFO where
  "sli_new = \<lparr>sl_m_bOpened = False, sl_nLogLevel = EN_LOG_LEVEL_WARN OR EN_LOG_LEVEL_ERROR OR EN_LOG_LEVEL_INFO,
     sl_af = af_new\<rparr>"

type_synonym log_module = "bytes \<rightharpoonup> STRUCT_LOG_INFO"

text \<open>\<open>%02u\<close> and the like.\<close>

definition padded :: "nat \<Rightarrow> nat \<Rightarrow> bytes" where
  "padded k n = replicate (k - length (dec n)) 48 @ dec n"

definition level_text :: "u32 \<Rightarrow> bytes" where
  "level_text lvl =
     (if lvl = EN_LOG_LEVEL_INFO then str ''Info'' else if lvl = EN_LOG_LEVEL_DEBUG then str ''Debug''
      else if lvl = EN_LOG_LEVEL_WARN then str ''Warn'' else if lvl = EN_LOG_LEVEL_ERROR then str ''Error'' else [])"

text \<open>The file's name repeats the month where the minute belongs.\<close>

definition log_file :: "bytes \<Rightarrow> bytes \<Rightarrow> ao_time \<Rightarrow> bytes" where
  "log_file szPath strModuleName tm =
     szPath @ str ''/log/'' @ strModuleName @ padded 4 (m_nYear tm) @ padded 2 (m_nMonth tm) @ padded 2 (m_nDay tm) @
     padded 2 (m_nHour tm) @ padded 2 (m_nMonth tm) @ padded 2 (m_nSecond tm) @ padded 3 (m_nMilliSecond tm) @ str ''.log''"

definition log_title :: "ao_time \<Rightarrow> bytes \<Rightarrow> u32 \<Rightarrow> bytes" where
  "log_title tm sub lvl =
     [91] @ padded 4 (m_nYear tm) @ [45] @ padded 2 (m_nMonth tm) @ [45] @ padded 2 (m_nDay tm) @ [32] @
     padded 2 (m_nHour tm) @ [58] @ padded 2 (m_nMinute tm) @ [58] @ padded 2 (m_nSecond tm) @ [46] @
     padded 3 (m_nMilliSecond tm) @ [93, 91] @ sub @ [93, 91] @ level_text lvl @ [93]"

text \<open>
  \<open>LogString\<close>. Names go into arrays of \<open>EN_MAX_PATH_LEN\<close> bytes and the title into 256, unchecked. The
  directories are made by the operating system.
\<close>

definition LogString ::
  "(bytes \<Rightarrow> bool) \<Rightarrow> bytes \<Rightarrow> ao_time \<Rightarrow> u32 \<Rightarrow> bytes \<Rightarrow> bytes \<Rightarrow> bytes \<Rightarrow> file_store \<times> log_module \<Rightarrow>
     (file_store \<times> log_module) option" where
  "LogString deny szPath tm nLogLevel strModuleName pszSubModuleName pszLogInfo = (\<lambda>(fs, m).
     let sli = (case m strModuleName of None \<Rightarrow> sli_new | Some sli \<Rightarrow> sli);
         m = m(strModuleName \<mapsto> sli) in
     if sl_nLogLevel sli AND nLogLevel = 0 then Some (fs, m)
     else
       (if sl_m_bOpened sli then Some (fs, sli)
        else
          path_of [log_file szPath strModuleName tm] \<bind> (\<lambda>szLogFile.
          let (fs, af, ok) = af_open deny fs szLogFile ModeWb in
          Some (fs, sli\<lparr>sl_m_bOpened := ok, sl_af := af\<rparr>))) \<bind> (\<lambda>(fs, sli).
       if \<not> sl_m_bOpened sli then Some (fs, m(strModuleName \<mapsto> sli))
       else
         let szTitle = log_title tm pszSubModuleName nLogLevel in
         if length szTitle \<ge> 256 then None
         else
           let (fs, af, _) = af_write fs (sl_af sli) szTitle;
               (fs, af, _) = af_write fs af pszLogInfo;
               (fs, af, _) = af_write fs af [13, 10]
           in Some (fs, m(strModuleName \<mapsto> sli\<lparr>sl_af := af\<rparr>))))"

text \<open>The handlers: three strings one behind the other. \<open>LogData\<close> does nothing.\<close>

definition log_strings :: "bytes \<Rightarrow> (bytes \<times> bytes \<times> bytes) option" where
  "log_strings d =
     cstr_at d 0 \<bind> (\<lambda>name.
     cstr_at d (length name + 1) \<bind> (\<lambda>sub.
     cstr_at d (length name + 1 + (length sub + 1)) \<bind> (\<lambda>info. Some (name, sub, info))))"

definition level_of :: "u32 \<Rightarrow> u32 option" where
  "level_of code =
     (if code = EN_LOG_MODULE_LOG_INFO then Some EN_LOG_LEVEL_INFO
      else if code = EN_LOG_MODULE_LOG_DEBUG then Some EN_LOG_LEVEL_DEBUG
      else if code = EN_LOG_MODULE_LOG_ERR then Some EN_LOG_LEVEL_ERROR
      else if code = EN_LOG_MODULE_LOG_WARN then Some EN_LOG_LEVEL_WARN else None)"

definition log_handle ::
  "(bytes \<Rightarrow> bool) \<Rightarrow> bytes \<Rightarrow> ao_time \<Rightarrow> u32 \<Rightarrow> bytes \<Rightarrow> file_store \<times> log_module \<Rightarrow> (file_store \<times> log_module) option" where
  "log_handle deny szPath tm code d s =
     (case level_of code of
        None \<Rightarrow> Some s
      | Some lvl \<Rightarrow> log_strings d \<bind> (\<lambda>(name, sub, info). LogString deny szPath tm lvl name sub info s))"

section \<open>Lines are appended\<close>

text \<open>A line as a module of the given name logs it: when, the code, the part and the text.\<close>

type_synonym log_entry = "ao_time \<times> u32 \<times> bytes \<times> bytes"

fun log_run :: "(bytes \<Rightarrow> bool) \<Rightarrow> bytes \<Rightarrow> bytes \<Rightarrow> log_entry list \<Rightarrow> file_store \<times> log_module \<Rightarrow> (file_store \<times> log_module) option" where
  "log_run deny szPath name [] s = Some s"
| "log_run deny szPath name ((tm, code, sub, desc) # es) s =
     mod_log code name sub desc \<bind> (\<lambda>(rmi, c, d).
     log_handle deny szPath tm c d s \<bind> log_run deny szPath name es)"

definition entry_ok :: "bytes \<Rightarrow> log_entry \<Rightarrow> bool" where
  "entry_ok name = (\<lambda>(tm, code, sub, desc). nul_free sub \<and> nul_free desc \<and>
     length name + length sub + length desc + 3 \<le> EN_MAX_TEMP_FORMAT_BUF_LEN \<and>
     (\<forall>lvl. length (log_title tm sub lvl) < 256))"

definition entry_on :: "log_entry \<Rightarrow> bool" where
  "entry_on = (\<lambda>(tm, code, sub, desc). code \<in> {EN_LOG_MODULE_LOG_INFO, EN_LOG_MODULE_LOG_WARN, EN_LOG_MODULE_LOG_ERR})"

definition entry_line :: "log_entry \<Rightarrow> bytes" where
  "entry_line = (\<lambda>(tm, code, sub, desc). log_title tm sub (the (level_of code)) @ desc @ [13, 10])"

lemma mod_log_ok:
  assumes "entry_ok name (tm, code, sub, desc)" and "nul_free name"
  shows "mod_log code name sub desc = Some (EN_BASE_MODULE_ID_LOG, code, cstr name @ cstr sub @ cstr desc)"
    and "log_strings (cstr name @ cstr sub @ cstr desc) = Some (name, sub, desc)"
proof -
  have s: "nul_free sub" "nul_free desc" "length name + length sub + length desc + 3 \<le> EN_MAX_TEMP_FORMAT_BUF_LEN"
    using assms(1) by (simp_all add: entry_ok_def)
  then show "mod_log code name sub desc = Some (EN_BASE_MODULE_ID_LOG, code, cstr name @ cstr sub @ cstr desc)"
    by (simp add: mod_log_def Let_def)
  show "log_strings (cstr name @ cstr sub @ cstr desc) = Some (name, sub, desc)"
    using cstr_at_app0 [OF assms(2)] cstr_at_app [of "length name + 1" "cstr name" sub "cstr desc"]
      cstr_at_app [of "length name + 1 + (length sub + 1)" "cstr name @ cstr sub" desc "[]"] s
    by (simp add: log_strings_def)
qed

text \<open>The module's record: not opened yet, or open at the end of its file.\<close>

definition log_idle :: "log_module \<Rightarrow> bytes \<Rightarrow> bool" where
  "log_idle m name \<longleftrightarrow> m name \<in> {None, Some sli_new}"

definition log_open :: "file_store \<Rightarrow> log_module \<Rightarrow> bytes \<Rightarrow> bytes \<Rightarrow> bool" where
  "log_open fs m name f \<longleftrightarrow> (\<exists>sli d. m name = Some sli \<and> sl_m_bOpened sli \<and> sl_nLogLevel sli = sl_nLogLevel sli_new \<and>
     fs f = Some d \<and> sl_af sli = \<lparr>m_pFile = Some (f, length d)\<rparr>)"

lemma level_bits:
  "sl_nLogLevel sli_new AND EN_LOG_LEVEL_INFO \<noteq> 0" "sl_nLogLevel sli_new AND EN_LOG_LEVEL_WARN \<noteq> 0"
  "sl_nLogLevel sli_new AND EN_LOG_LEVEL_ERROR \<noteq> 0" "sl_nLogLevel sli_new AND EN_LOG_LEVEL_DEBUG = 0"
  by (simp_all add: sli_new_def EN_LOG_LEVEL_INFO_def EN_LOG_LEVEL_WARN_def EN_LOG_LEVEL_ERROR_def EN_LOG_LEVEL_DEBUG_def)

lemma write_end:
  "fs f = Some d \<Longrightarrow> af_write fs \<lparr>m_pFile = Some (f, length d)\<rparr> b =
     (fs(f \<mapsto> d @ b), \<lparr>m_pFile = Some (f, length (d @ b))\<rparr>, int (length b))"
  by (simp add: af_write_def file_bytes_def)

lemma entry_levels:
  "entry_on (tm, code, sub, desc) \<Longrightarrow> \<exists>lvl. level_of code = Some lvl \<and> sl_nLogLevel sli_new AND lvl \<noteq> 0"
  "\<not> entry_on (tm, code, sub, desc) \<Longrightarrow> level_of code = Some lvl \<Longrightarrow> sl_nLogLevel sli_new AND lvl = 0"
  using level_bits by (auto simp: entry_on_def level_of_def log_codes split: if_splits)

lemma log_step_open:
  assumes ok: "entry_ok name (tm, code, sub, desc)" and "nul_free name" and op: "log_open fs m name f" and d: "fs f = Some d"
  shows "\<exists>m' fs'. log_handle deny szPath tm code (cstr name @ cstr sub @ cstr desc) (fs, m) = Some (fs', m') \<and>
     fs' = (if entry_on (tm, code, sub, desc) then fs(f \<mapsto> d @ entry_line (tm, code, sub, desc)) else fs) \<and>
     log_open fs' m' name f"
proof -
  obtain sli where sli: "m name = Some sli" "sl_m_bOpened sli" "sl_nLogLevel sli = sl_nLogLevel sli_new"
      "sl_af sli = \<lparr>m_pFile = Some (f, length d)\<rparr>"
    using op d by (auto simp: log_open_def)
  have same: "m(name \<mapsto> sli) = m" using sli(1) by (simp add: fun_upd_idem)
  show ?thesis
  proof (cases "entry_on (tm, code, sub, desc)")
    case True
    obtain lvl where lvl: "level_of code = Some lvl" "sl_nLogLevel sli_new AND lvl \<noteq> 0" using entry_levels(1) [OF True] by blast
    have t: "\<not> 256 \<le> length (log_title tm sub lvl)" using ok by (simp add: entry_ok_def not_le)
    have l: "entry_line (tm, code, sub, desc) = log_title tm sub lvl @ desc @ [13, 10]" by (simp add: entry_line_def lvl)
    have "log_handle deny szPath tm code (cstr name @ cstr sub @ cstr desc) (fs, m) =
        Some (fs(f \<mapsto> d @ entry_line (tm, code, sub, desc)),
          m(name \<mapsto> sli\<lparr>sl_af := \<lparr>m_pFile = Some (f, length (d @ entry_line (tm, code, sub, desc)))\<rparr>\<rparr>))"
      using t lvl(2) sli d unfolding l
      by (simp add: log_handle_def lvl(1) mod_log_ok(2) [OF assms(1,2)] LogString_def same Let_def write_end)
        (simp add: af_write_def file_bytes_def Let_def add.assoc)
    then show ?thesis using True sli by (auto simp: log_open_def)
  next
    case False
    have "log_handle deny szPath tm code (cstr name @ cstr sub @ cstr desc) (fs, m) = Some (fs, m)"
      using entry_levels(2) [OF False] sli
      by (cases "level_of code") (simp_all add: log_handle_def mod_log_ok(2) [OF assms(1,2)] LogString_def same)
    then show ?thesis using False op by auto
  qed
qed

lemma log_run_open:
  assumes "nul_free name"
  shows "\<forall>x\<in>set es. entry_ok name x \<Longrightarrow> log_open fs m name f \<Longrightarrow> fs f = Some d \<Longrightarrow>
     \<exists>m'. log_run deny szPath name es (fs, m) = Some (fs(f \<mapsto> d @ concat (map entry_line (filter entry_on es))), m')"
proof (induction es arbitrary: fs m d)
  case Nil
  then show ?case by (auto simp: fun_upd_idem)
next
  case (Cons x es)
  obtain tm code sub desc where x: "x = (tm, code, sub, desc)" by (metis surj_pair)
  have ok: "entry_ok name (tm, code, sub, desc)" using Cons.prems(1) x by simp
  obtain m' fs' where s: "log_handle deny szPath tm code (cstr name @ cstr sub @ cstr desc) (fs, m) = Some (fs', m')"
      "fs' = (if entry_on x then fs(f \<mapsto> d @ entry_line x) else fs)" "log_open fs' m' name f"
    using log_step_open [OF ok assms Cons.prems(2,3)] x by blast
  have "fs' f = Some (if entry_on x then d @ entry_line x else d)" using s(2) Cons.prems(3) by simp
  moreover have "\<forall>x\<in>set es. entry_ok name x" using Cons.prems(1) by simp
  ultimately obtain m1 where
    "log_run deny szPath name es (fs', m') =
       Some (fs'(f \<mapsto> (if entry_on x then d @ entry_line x else d) @ concat (map entry_line (filter entry_on es))), m1)"
    using Cons.IH [OF _ s(3)] by blast
  moreover have "fs'(f \<mapsto> z) = fs(f \<mapsto> z)" for z using s(2) by simp
  ultimately have "log_run deny szPath name (x # es) (fs, m) =
      Some (fs(f \<mapsto> d @ concat (map entry_line (filter entry_on (x # es)))), m1)"
    using s(1) by (cases "entry_on x") (simp_all add: x mod_log_ok(1) [OF ok assms])
  then show ?case by blast
qed

text \<open>C24: logged lines are kept in order. Whatever a module logs, from its first line on, the log module
  makes one file, named after the first line that is wanted, and the file holds just the wanted lines,
  each with its time, part and level, in the order they were logged; debug lines are dropped.\<close>

theorem logged_lines_kept:
  assumes "nul_free name" and "\<forall>x\<in>set es. entry_ok name x" and "log_idle m name"
    and "filter entry_on es = x # xs" and "length (log_file szPath name (fst x)) < 256" and "\<not> deny (log_file szPath name (fst x))"
  shows "\<exists>m'. log_run deny szPath name es (fs, m) =
     Some (fs(log_file szPath name (fst x) \<mapsto> concat (map entry_line (x # xs))), m')"
  using assms(2-4)
proof (induction es arbitrary: m)
  case (Cons y es)
  obtain tm code sub desc where y: "y = (tm, code, sub, desc)" by (metis surj_pair)
  have ok: "entry_ok name (tm, code, sub, desc)" using Cons.prems(1) y by simp
  let ?sli = "case m name of None \<Rightarrow> sli_new | Some sli \<Rightarrow> sli"
  have sli: "?sli = sli_new" using Cons.prems(2) by (auto simp: log_idle_def)
  show ?case
  proof (cases "entry_on y")
    case True
    then have xy: "x = y" "filter entry_on es = xs" using Cons.prems(3) by auto
    let ?f = "log_file szPath name tm"
    have f: "\<not> deny ?f" "path_of [?f] = Some ?f" using assms(5,6) by (simp_all add: xy y path_of_def EN_MAX_PATH_LEN_def)
    obtain lvl where lvl: "level_of code = Some lvl" "sl_nLogLevel sli_new AND lvl \<noteq> 0"
      using entry_levels(1) True y by blast
    let ?m = "m(name \<mapsto> sli_new\<lparr>sl_m_bOpened := True, sl_af := \<lparr>m_pFile = Some (?f, 0)\<rparr>\<rparr>)"
    have op: "log_open (fs(?f \<mapsto> [])) ?m name ?f" by (simp add: log_open_def)
    obtain m1 fs1 where s: "log_handle deny szPath tm code (cstr name @ cstr sub @ cstr desc) (fs(?f \<mapsto> []), ?m) = Some (fs1, m1)"
        "fs1 = fs(?f \<mapsto> entry_line y)" "log_open fs1 m1 name ?f"
      using log_step_open [OF ok assms(1) op, of "[]" deny szPath] True y by auto
    have "log_handle deny szPath tm code (cstr name @ cstr sub @ cstr desc) (fs, m) =
        log_handle deny szPath tm code (cstr name @ cstr sub @ cstr desc) (fs(?f \<mapsto> []), ?m)"
      using f lvl sli
      by (simp add: log_handle_def mod_log_ok(2) [OF ok assms(1)] LogString_def Let_def af_open_def sli_new_def)
    then have "log_run deny szPath name (y # es) (fs, m) = log_run deny szPath name es (fs1, m1)"
      using s(1) by (simp add: y mod_log_ok(1) [OF ok assms(1)])
    moreover have "fs1 ?f = Some (entry_line y)" "\<forall>x\<in>set es. entry_ok name x" "\<And>z. fs1(?f \<mapsto> z) = fs(?f \<mapsto> z)"
      using s(2) Cons.prems(1) by simp_all
    moreover have "log_file szPath name (fst x) = ?f" by (simp add: xy y)
    ultimately show ?thesis
      using log_run_open [OF assms(1) _ s(3), of es "entry_line y" deny szPath] xy by (simp only: list.map concat.simps)
  next
    case False
    have "\<exists>m1. log_handle deny szPath tm code (cstr name @ cstr sub @ cstr desc) (fs, m) = Some (fs, m1) \<and> log_idle m1 name"
      using entry_levels(2) False sli Cons.prems(2) y
      by (cases "level_of code") (auto simp: log_handle_def mod_log_ok(2) [OF ok assms(1)] LogString_def Let_def log_idle_def)
    then obtain m1 where "log_handle deny szPath tm code (cstr name @ cstr sub @ cstr desc) (fs, m) = Some (fs, m1)" "log_idle m1 name"
      by blast
    with Cons.IH [of m1] Cons.prems(1,3) False show ?thesis by (simp add: y mod_log_ok(1) [OF ok assms(1)])
  qed
qed simp

definition demo_time :: ao_time where
  "demo_time = \<lparr>m_nYear = 2024, m_nMonth = 5, m_nDay = 6, m_nHour = 7, m_nMinute = 8, m_nSecond = 9, m_nMilliSecond = 10\<rparr>"

definition demo_entries :: "log_entry list" where
  "demo_entries = [(demo_time, EN_LOG_MODULE_LOG_DEBUG, [97], [98]), (demo_time, EN_LOG_MODULE_LOG_WARN, [97], [99]),
     (demo_time, EN_LOG_MODULE_LOG_INFO, [], [100])]"

lemma demo_padded: "length (padded k n) = max k (length (dec n))"
  by (simp add: padded_def)

lemma demo_digits: "length (dec 2024) = 4" "n < 10 \<Longrightarrow> length (dec n) = 1" "length (dec 10) = 2"
  by (simp_all add: dec.simps)

lemma level_text_short: "length (level_text lvl) \<le> 5"
  by (simp add: level_text_def str_def)

lemma demo_entry_ok: "\<forall>x\<in>set demo_entries. entry_ok [65] x"
proof -
  have t: "length (log_title demo_time sub lvl) < 256" if "length sub \<le> 1" for sub lvl
    using that level_text_short [of lvl] by (simp add: log_title_def demo_padded demo_digits demo_time_def)
  show ?thesis by (simp add: demo_entries_def entry_ok_def t EN_MAX_TEMP_FORMAT_BUF_LEN_def nul_free_def)
qed

theorem logged_lines_kept_witness:
  "\<exists>m'. log_run (\<lambda>f. False) [46] [65] demo_entries (Map.empty, Map.empty) =
     Some ([log_file [46] [65] (fst (demo_entries ! 1)) \<mapsto> concat (map entry_line [demo_entries ! 1, demo_entries ! 2])], m')"
  by (rule logged_lines_kept [OF _ demo_entry_ok])
    (simp_all add: nul_free_def log_idle_def demo_entries_def entry_on_def log_codes log_file_def demo_padded demo_digits
      demo_time_def str_def)

end
