(* ===== verification/Spec2Isabelle.thy ===== *)
theory Spec2Isabelle
  imports Ao_CommuProtocol Ao_DBAProtocol Ao_Dispatcher Ao_CJson Zl_InfMisuse Ao_Config Ao_TcpServer Ao_Log
begin

text \<open>
  Verification of the deployment system's program code.
\<close>

end
